(* ===== verification/Cmpth_Prelude.thy ===== *)
theory Cmpth_Prelude
  imports Main "HOL-Library.Word" "HOL-Library.Multiset"
begin

text \<open>
  What the component theories share: the machine types, Rust's saturating and wrapping
  arithmetic on them, the reading of a compare-and-swap loop as one atomic transition under
  any interference, and a few facts on lists and multisets.
\<close>

unbundle bit_operations_syntax

section \<open>Collections of hints\<close>

named_theorems cas_loops \<open>CAS loops of the code, unfolded to their decision functions\<close>
named_theorems state_inv \<open>state invariants of the components, unfolded\<close>

section \<open>Machine integers\<close>

text \<open>The model is that of a 64-bit target: \<open>usize\<close> and pointers are 64 bits wide.\<close>

type_synonym u32 = "32 word"
type_synonym u64 = "64 word"
type_synonym usize = "64 word"

text \<open>Rust's \<open>u64::MAX\<close>, \<open>saturating_add\<close>, \<open>saturating_sub\<close> and \<open>saturating_mul(2)\<close>.\<close>

definition u64_max :: u64 where
  "u64_max = - 1"

definition sat_add :: "u64 \<Rightarrow> u64 \<Rightarrow> u64" where
  "sat_add a b = (if unat a + unat b < 2 ^ 64 then a + b else u64_max)"

definition sat_sub :: "u64 \<Rightarrow> u64 \<Rightarrow> u64" where
  "sat_sub a b = (if b \<le> a then a - b else 0)"

definition sat_double :: "u64 \<Rightarrow> u64" where
  "sat_double a = (if 2 * unat a < 2 ^ 64 then a * 2 else u64_max)"

lemma unat_u64_max [simp]: "unat u64_max = 2 ^ 64 - 1"
  by (simp add: u64_max_def unsigned_minus_1_eq_mask mask_eq_exp_minus_1)

lemma u64_le_max [simp]: "(a :: u64) \<le> u64_max"
  by (simp add: u64_max_def)

lemma unat_u64_bound: "unat (a :: u64) < 2 ^ 64"
  using unsigned_less [of a, where ?'a = nat] by simp

lemma unat_sat_add: "unat (sat_add a b) = min (unat a + unat b) (2 ^ 64 - 1)"
proof (cases "unat a + unat b < 2 ^ 64")
  case True
  then have "unat (a + b) = unat a + unat b"
    by (simp add: unat_word_ariths)
  with True show ?thesis
    by (simp add: sat_add_def)
next
  case False
  then show ?thesis
    by (simp add: sat_add_def)
qed

lemma unat_sat_sub: "unat (sat_sub a b) = unat a - unat b"
proof (cases "b \<le> a")
  case True
  then show ?thesis by (simp add: sat_sub_def unat_sub)
next
  case False
  then have "unat a < unat b" by (simp add: word_le_nat_alt)
  with False show ?thesis by (simp add: sat_sub_def)
qed

lemma unat_sat_double: "unat (sat_double a) = min (2 * unat a) (2 ^ 64 - 1)"
proof (cases "2 * unat a < 2 ^ 64")
  case True
  then have "unat (a * 2) = 2 * unat a"
    by (simp add: unat_word_ariths mult.commute)
  with True show ?thesis
    by (simp add: sat_double_def)
next
  case False
  then show ?thesis
    by (simp add: sat_double_def)
qed

lemma unat_min: "unat (min a b) = min (unat a) (unat b)"
  for a b :: "'a :: len word"
  by (simp add: min_def word_le_nat_alt)

lemma unat_max: "unat (max a b) = max (unat a) (unat b)"
  for a b :: "'a :: len word"
  by (simp add: max_def word_le_nat_alt)

lemma sat_add_ge1: "a \<le> sat_add a b"
  using unat_u64_bound [of a] by (simp add: word_le_nat_alt unat_sat_add)

lemma sat_add_mono: "a \<le> a' \<Longrightarrow> b \<le> b' \<Longrightarrow> sat_add a b \<le> sat_add a' b'"
  by (simp add: word_le_nat_alt unat_sat_add)

lemma sat_double_ge: "a \<le> sat_double a"
  using unat_u64_bound [of a] by (simp add: word_le_nat_alt unat_sat_double)

lemmas u64_nat = word_le_nat_alt word_less_nat_alt unat_min unat_max
  unat_sat_add unat_sat_sub unat_sat_double

section \<open>Compare-and-swap loops\<close>

text \<open>
  Every CAS loop of the code has the shape: from the value last read, either leave the loop
  without writing or try to swap a new value in; a failed attempt goes round with the value
  it observed.  \<open>cas_loop decide cur env\<close> runs it: \<open>cur\<close> is the value first loaded,
  \<open>decide\<close> gives the value to swap in (\<open>None\<close>: leave).  \<open>env\<close> is the
  interference, one entry per attempt: the value other threads have stored by then, and whether
  the attempt fails spuriously (\<open>compare_exchange_weak\<close>).  When \<open>env\<close> is used up
  nobody interferes any more.  The result is the value the loop acted on and what it wrote.
\<close>

fun cas_loop :: "('v \<Rightarrow> 'v option) \<Rightarrow> 'v \<Rightarrow> ('v \<times> bool) list \<Rightarrow> 'v \<times> 'v option" where
  "cas_loop decide cur [] = (cur, decide cur)"
| "cas_loop decide cur ((v, spurious) # env) =
     (case decide cur of
        None \<Rightarrow> (cur, None)
      | Some new \<Rightarrow>
          if v = cur \<and> \<not> spurious then (cur, Some new) else cas_loop decide v env)"

text \<open>The loop is one atomic transition, at a value it really read.\<close>

lemma cas_loop_linear: "snd (cas_loop decide cur env) = decide (fst (cas_loop decide cur env))"
  by (induction decide cur env rule: cas_loop.induct) (auto split: option.splits)

lemma cas_loop_eq: "cas_loop decide cur env = (c, w) \<Longrightarrow> w = decide c"
  using cas_loop_linear [of decide cur env] by simp

lemma cas_loop_observed:
  "fst (cas_loop decide cur env) \<in> insert cur (fst ` set env)"
  by (induction decide cur env rule: cas_loop.induct) (auto split: option.splits)

lemma cas_loop_inv:
  assumes "P cur" and "\<And>v b. (v, b) \<in> set env \<Longrightarrow> P v"
  shows "P (fst (cas_loop decide cur env))"
  using cas_loop_observed [of decide cur env] assms by force

text \<open>What the atomic variable holds after the loop, if its last value is the one acted on.\<close>

definition cas_result :: "'v \<times> 'v option \<Rightarrow> 'v" where
  "cas_result r = (case snd r of None \<Rightarrow> fst r | Some new \<Rightarrow> new)"

lemma cas_result_linear:
  "cas_result (cas_loop decide cur env) =
     (case decide (fst (cas_loop decide cur env)) of
        None \<Rightarrow> fst (cas_loop decide cur env) | Some new \<Rightarrow> new)"
  by (simp add: cas_result_def cas_loop_linear)

section \<open>Lists\<close>

lemma mset_eq_snoc: "xs \<noteq> [] \<Longrightarrow> mset xs = add_mset (last xs) (mset (butlast xs))"
  by (metis add_mset_add_single append_butlast_last_id mset.simps(2) mset_append mset_single_iff mset_zero_iff union_mset_add_mset_right add_0)

lemma mset_eq_hd_tl: "xs \<noteq> [] \<Longrightarrow> mset xs = add_mset (hd xs) (mset (tl xs))"
  by (cases xs) simp_all

section \<open>Intrusive lists\<close>

text \<open>Following the links \<open>nx\<close> from \<open>p\<close> meets \<open>xs\<close>, in order, and then a null pointer.\<close>

fun chain :: "('a \<Rightarrow> 'a option) \<Rightarrow> 'a option \<Rightarrow> 'a list \<Rightarrow> bool" where
  "chain nx p [] \<longleftrightarrow> p = None"
| "chain nx p (x # xs) \<longleftrightarrow> p = Some x \<and> chain nx (nx x) xs"

lemma chain_None [simp]: "chain nx None xs \<longleftrightarrow> xs = []"
  by (cases xs) auto

lemma chain_Some: "chain nx (Some x) xs \<longleftrightarrow> (\<exists>ys. xs = x # ys \<and> chain nx (nx x) ys)"
  by (cases xs) auto

lemma chain_frame: "n \<notin> set xs \<Longrightarrow> chain (nx(n := v)) p xs \<longleftrightarrow> chain nx p xs"
  by (induction xs arbitrary: p) auto

lemma chain_append:
  "chain nx p xs \<Longrightarrow> xs \<noteq> [] \<Longrightarrow> distinct xs \<Longrightarrow> last xs \<notin> set ys \<Longrightarrow> chain nx q ys \<Longrightarrow>
   chain (nx(last xs := q)) p (xs @ ys)"
proof (induction xs arbitrary: p)
  case (Cons x xs)
  show ?case
  proof (cases "xs = []")
    case True
    with Cons.prems show ?thesis by (simp add: chain_frame del: fun_upd_apply) (simp add: fun_upd_same)
  next
    case False
    then have "x \<noteq> last xs" using Cons.prems by auto
    with False Cons show ?thesis by simp
  qed
qed simp

section \<open>Callers of a delegator\<close>

text \<open>A caller leaves a request (\<open>call\<close>), or wants the lock itself (\<open>with_lock\<close>).\<close>

datatype call_kind = Call | Lock

end
