(* ===== verification/Interchange.thy ===== *)
theory Interchange
  imports Cmpth_Prelude
begin

text \<open>
  \<open>interchange.rs\<close>: the atomic hand-off slots.  An \<open>AtomicTaggedSlot\<close> is one word, 0 when
  empty, else a pointer with a tag in its \<open>TAG_BITS\<close> low bits; an \<open>AtomicSlot\<close> is the case
  \<open>TAG_BITS = 0\<close>.  Pointers are their addresses, so \<open>into_ptr\<close> and \<open>from_ptr\<close> of a
  \<open>PointerInterchangeable\<close> value are the identity here.
\<close>

section \<open>Tagged slots\<close>

type_synonym tagged_slot = usize

definition TAG_MASK :: "nat \<Rightarrow> usize" where
  "TAG_MASK tag_bits = push_bit tag_bits 1 - 1"

definition slot_empty :: tagged_slot where
  "slot_empty = 0"

definition slot_is_set :: "tagged_slot \<Rightarrow> bool" where
  "slot_is_set w = (w \<noteq> 0)"

text \<open>
  \<open>publish\<close> stores the word whatever the slot held; its two assertions (the pointee's
  alignment covers the tag bits, at compile time; the tag fits, in debug builds) make it fail.
\<close>

definition align_covers :: "nat \<Rightarrow> nat \<Rightarrow> bool" where
  "align_covers tag_bits lg_align = (tag_bits \<le> lg_align)"

definition slot_publish :: "nat \<Rightarrow> nat \<Rightarrow> usize \<Rightarrow> usize \<Rightarrow> tagged_slot \<Rightarrow> tagged_slot option" where
  "slot_publish tag_bits lg_align ptr tag w =
     (if align_covers tag_bits lg_align \<and> tag \<le> TAG_MASK tag_bits then Some (ptr OR tag) else None)"

definition slot_take :: "nat \<Rightarrow> tagged_slot \<Rightarrow> (usize \<times> usize) option \<times> tagged_slot" where
  "slot_take tag_bits w = (if w \<noteq> 0 then Some (w AND TAG_MASK tag_bits, w) else None, 0)"

definition into_typed :: "nat \<Rightarrow> usize \<Rightarrow> usize" where
  "into_typed tag_bits raw = raw AND NOT (TAG_MASK tag_bits)"

section \<open>Single-type slots\<close>

definition atomic_slot_publish :: "usize \<Rightarrow> tagged_slot \<Rightarrow> tagged_slot" where
  "atomic_slot_publish ptr w = the (slot_publish 0 0 ptr 0 w)"

definition atomic_slot_take :: "tagged_slot \<Rightarrow> usize option \<times> tagged_slot" where
  "atomic_slot_take w =
     (case slot_take 0 w of (r, w') \<Rightarrow> (map_option (\<lambda>(_, raw). into_typed 0 raw) r, w'))"

section \<open>Round trips\<close>

text \<open>A pointer to an object of alignment \<open>2 ^ lg_align\<close>.\<close>

definition aligned_ptr :: "nat \<Rightarrow> usize \<Rightarrow> bool" where
  "aligned_ptr lg_align p = (take_bit lg_align p = 0)"

lemma TAG_MASK_mask: "TAG_MASK tag_bits = mask tag_bits"
  by (simp add: TAG_MASK_def mask_eq_exp_minus_1 push_bit_of_1)

lemma tag_le_mask:
  assumes "tag \<le> mask n"
  shows "take_bit n tag = (tag :: usize)"
proof -
  have "unat tag \<le> unat (mask n :: usize)"
    using assms by (simp add: word_le_nat_alt)
  also have "unat (mask n :: usize) = take_bit n (unat (- 1 :: usize))"
    by (metis take_bit_minus_one_eq_mask unsigned_take_bit_eq)
  also have "\<dots> \<le> mask n"
    by (rule take_bit_nat_less_eq_mask)
  finally have "unat tag < 2 ^ n"
    by (simp add: mask_eq_exp_minus_1 Suc_le_lessD le_diff_conv2)
  then have "unat (take_bit n tag) = unat tag"
    by (simp add: unsigned_take_bit_eq take_bit_nat_eq_self)
  then show ?thesis by (simp only: unsigned_word_eqI)
qed

lemma aligned_take_bit: "aligned_ptr k p \<Longrightarrow> n \<le> k \<Longrightarrow> take_bit n p = 0"
  unfolding aligned_ptr_def by (metis min.absorb1 take_bit_of_0 take_bit_take_bit)

lemma publish_bits:
  assumes "aligned_ptr k p" and "n \<le> k" and "tag \<le> TAG_MASK n"
  shows "(p OR tag) AND TAG_MASK n = tag" and "(p OR tag) AND NOT (TAG_MASK n) = p"
proof -
  have p: "p AND mask n = 0" and t: "tag AND mask n = tag"
    using aligned_take_bit [OF assms(1,2)] tag_le_mask assms(3)
    by (simp_all add: TAG_MASK_mask flip: take_bit_eq_mask)
  show "(p OR tag) AND TAG_MASK n = tag"
    by (simp add: TAG_MASK_mask bit.conj_disj_distrib2 p t)
  have "p AND NOT (mask n) = p"
    by (rule bit_eqI) (use p in \<open>auto simp: bit_simps bit_eq_iff\<close>)
  moreover have "tag AND NOT (mask n) = 0"
    by (rule bit_eqI) (use t in \<open>auto simp: bit_simps bit_eq_iff\<close>)
  ultimately show "(p OR tag) AND NOT (TAG_MASK n) = p"
    by (simp add: TAG_MASK_mask bit.conj_disj_distrib2)
qed

text \<open>
  A pointer published with a tag is what the next take returns, with that tag, when the
  pointer is aligned for the tag bits and not null; the take leaves the slot empty.
\<close>

lemma tagged_slot_round_trip:
  assumes "aligned_ptr lg_align p" and "p \<noteq> 0"
    and "slot_publish tag_bits lg_align p tag w = Some w'"
  shows "\<exists>raw. slot_take tag_bits w' = (Some (tag, raw), slot_empty) \<and> into_typed tag_bits raw = p
           \<and> slot_is_set w'"
proof -
  from assms(3) have w': "w' = p OR tag" and n: "tag_bits \<le> lg_align" and t: "tag \<le> TAG_MASK tag_bits"
    by (auto simp: slot_publish_def align_covers_def split: if_splits)
  note bits = publish_bits [OF assms(1) n t]
  have "w' \<noteq> 0"
    using bits(2) assms(2) w' by auto
  then show ?thesis
    using bits by (simp add: slot_take_def into_typed_def slot_is_set_def slot_empty_def w')
qed

lemma tagged_slot_round_trip_example:
  "\<exists>raw. slot_take 2 0x7003 = (Some (3, raw), slot_empty) \<and> into_typed 2 raw = 0x7000
     \<and> slot_is_set 0x7003"
  by (rule tagged_slot_round_trip [where lg_align = 3 and w = 0])
    (simp_all add: aligned_ptr_def slot_publish_def align_covers_def TAG_MASK_def take_bit_eq_mask mask_eq_exp_minus_1)

text \<open>Without the alignment the tag would corrupt the pointer: why \<open>publish\<close> asserts it.\<close>

lemma misaligned_corrupts: "into_typed 2 (0x7001 OR 2) \<noteq> 0x7001"
  by (simp add: into_typed_def TAG_MASK_def)

lemma slot_take_empty: "slot_take tag_bits slot_empty = (None, slot_empty)"
  by (simp add: slot_take_def slot_empty_def)

lemma slot_take_once:
  "slot_take tag_bits w = (r, w') \<Longrightarrow> slot_take tag_bits w' = (None, slot_empty)"
  by (auto simp: slot_take_def slot_empty_def split: if_splits)

lemma atomic_slot_publish_eq [simp]: "atomic_slot_publish p w = p"
  by (simp add: atomic_slot_publish_def slot_publish_def align_covers_def)

lemma atomic_slot_take_eq: "atomic_slot_take w = (if w \<noteq> 0 then Some w else None, 0)"
  by (simp add: atomic_slot_take_def slot_take_def into_typed_def TAG_MASK_def)

end
