(* ===== verification/Run_Queue.thy ===== *)
theory Run_Queue
  imports Cmpth_Prelude
begin

text \<open>
  The worker run queue (\<open>traits/component/run_queue.rs\<close>, \<open>resumable/common/deque.rs\<close>): its
  contract as the locale \<open>run_queue\<close>, and the two implementations.  The Chase-Lev deque of
  \<open>HybridRunQueue\<close> is a third-party crate, so its operations are a parameter, with its
  documented behaviour as the hypothesis \<open>chase_lev_ok\<close>.
\<close>

section \<open>Steal results\<close>

datatype 'a steal = Steal_Empty | Steal_Success 'a | Steal_Retry

definition opt_to_steal :: "'a option \<Rightarrow> 'a steal" where
  "opt_to_steal r = (case r of Some v \<Rightarrow> Steal_Success v | None \<Rightarrow> Steal_Empty)"

text \<open>\<open>VecDeque::pop_front\<close> and \<open>VecDeque::pop_back\<close> (\<open>Vec::pop\<close>).\<close>

fun pop_front :: "'a list \<Rightarrow> 'a option \<times> 'a list" where
  "pop_front [] = (None, [])"
| "pop_front (x # xs) = (Some x, xs)"

definition pop_back :: "'a list \<Rightarrow> 'a option \<times> 'a list" where
  "pop_back xs = (if xs = [] then (None, []) else (Some (last xs), butlast xs))"

lemma pop_front_None: "pop_front xs = (None, ys) \<longleftrightarrow> xs = [] \<and> ys = []"
  by (cases xs) auto

lemma pop_front_Some: "pop_front xs = (Some x, ys) \<longleftrightarrow> xs = x # ys"
  by (cases xs) auto

lemma pop_back_None: "pop_back xs = (None, ys) \<longleftrightarrow> xs = [] \<and> ys = []"
  by (auto simp: pop_back_def)

lemma pop_back_Some: "pop_back xs = (Some x, ys) \<longleftrightarrow> xs = ys @ [x]"
  by (auto simp: pop_back_def)

lemma pop_back_snoc [simp]: "pop_back (xs @ [x]) = (Some x, xs)"
  by (simp add: pop_back_def)

lemma pop_back_Nil [simp]: "pop_back [] = (None, [])"
  by (simp add: pop_back_def)

lemmas pop_simps = pop_front_None pop_front_Some pop_back_None pop_back_Some

section \<open>The deferred queue\<close>

record 'a deferred =
  d_non_empty :: bool
  d_q :: "'a list"

definition deferred_new :: "'a deferred" where
  "deferred_new = \<lparr>d_non_empty = False, d_q = []\<rparr>"

definition deferred_push :: "'a \<Rightarrow> 'a deferred \<Rightarrow> 'a deferred" where
  "deferred_push v d = d\<lparr>d_q := d_q d @ [v], d_non_empty := True\<rparr>"

definition deferred_try_take :: "'a deferred \<Rightarrow> 'a option \<times> 'a deferred" where
  "deferred_try_take d =
     (if \<not> d_non_empty d then (None, d)
      else case pop_front (d_q d) of
        (item, q') \<Rightarrow>
          (item, if q' = [] then d\<lparr>d_q := q', d_non_empty := False\<rparr> else d\<lparr>d_q := q'\<rparr>))"

text \<open>Run without interference, the flag says exactly whether the queue holds anything.\<close>

definition deferred_ok :: "'a deferred \<Rightarrow> bool" where
  "deferred_ok d \<longleftrightarrow> (d_non_empty d \<longleftrightarrow> d_q d \<noteq> [])"

lemma deferred_new_ok [simp]: "deferred_ok deferred_new" "d_q deferred_new = []"
  by (simp_all add: deferred_ok_def deferred_new_def)

lemma deferred_push_ok [simp]: "deferred_ok (deferred_push v d)" "d_q (deferred_push v d) = d_q d @ [v]"
  by (simp_all add: deferred_ok_def deferred_push_def)

lemma deferred_try_take_ok:
  assumes "deferred_ok d"
  shows "fst (deferred_try_take d) = fst (pop_front (d_q d))"
    and "d_q (snd (deferred_try_take d)) = snd (pop_front (d_q d))"
    and "deferred_ok (snd (deferred_try_take d))"
  using assms by (cases "d_q d"; auto simp: deferred_try_take_def deferred_ok_def)+

section \<open>HybridRunQueue\<close>

record ('w, 'a) chase_lev =
  cl_new :: 'w
  cl_push :: "'a \<Rightarrow> 'w \<Rightarrow> 'w"
  cl_pop :: "'w \<Rightarrow> 'a option \<times> 'w"
  cl_steal :: "'w \<Rightarrow> 'a steal \<times> 'w"

record ('w, 'a) hybrid =
  h_main :: 'w
  h_deferred :: "'a deferred"

definition hybrid_default :: "('w, 'a) chase_lev \<Rightarrow> ('w, 'a) hybrid" where
  "hybrid_default cl = \<lparr>h_main = cl_new cl, h_deferred = deferred_new\<rparr>"

definition hybrid_push :: "('w, 'a) chase_lev \<Rightarrow> 'a \<Rightarrow> ('w, 'a) hybrid \<Rightarrow> ('w, 'a) hybrid" where
  "hybrid_push cl v h = h\<lparr>h_main := cl_push cl v (h_main h)\<rparr>"

definition hybrid_defer :: "'a \<Rightarrow> ('w, 'a) hybrid \<Rightarrow> ('w, 'a) hybrid" where
  "hybrid_defer v h = h\<lparr>h_deferred := deferred_push v (h_deferred h)\<rparr>"

definition hybrid_try_pop :: "('w, 'a) chase_lev \<Rightarrow> ('w, 'a) hybrid \<Rightarrow> 'a option \<times> ('w, 'a) hybrid" where
  "hybrid_try_pop cl h =
     (case cl_pop cl (h_main h) of
        (Some v, m) \<Rightarrow> (Some v, h\<lparr>h_main := m\<rparr>)
      | (None, m) \<Rightarrow>
          (case deferred_try_take (h_deferred h) of
             (r, d) \<Rightarrow> (r, h\<lparr>h_main := m, h_deferred := d\<rparr>)))"

definition hybrid_try_steal :: "('w, 'a) chase_lev \<Rightarrow> ('w, 'a) hybrid \<Rightarrow> 'a steal \<times> ('w, 'a) hybrid" where
  "hybrid_try_steal cl h =
     (case deferred_try_take (h_deferred h) of
        (Some v, d) \<Rightarrow> (Steal_Success v, h\<lparr>h_deferred := d\<rparr>)
      | (None, d) \<Rightarrow>
          (case cl_steal cl (h_main h) of
             (s, m) \<Rightarrow> (s, h\<lparr>h_main := m, h_deferred := d\<rparr>)))"

text \<open>
  What the crate documents of a LIFO \<open>Worker\<close> and its \<open>Stealer\<close>: \<open>contents w\<close> lists what it
  holds, oldest first; the owner pushes and pops at the young end, a thief takes the oldest,
  finds nothing only when it is empty, and may ask to be retried.
\<close>

definition chase_lev_ok :: "('w, 'a) chase_lev \<Rightarrow> ('w \<Rightarrow> 'a list) \<Rightarrow> bool" where
  "chase_lev_ok cl contents \<longleftrightarrow>
     contents (cl_new cl) = [] \<and>
     (\<forall>v w. contents (cl_push cl v w) = contents w @ [v]) \<and>
     (\<forall>w. (fst (cl_pop cl w), contents (snd (cl_pop cl w))) = pop_back (contents w)) \<and>
     (\<forall>w s w'. cl_steal cl w = (s, w') \<longrightarrow>
        (case s of
           Steal_Success v \<Rightarrow> contents w = v # contents w'
         | Steal_Empty \<Rightarrow> contents w = [] \<and> contents w' = []
         | Steal_Retry \<Rightarrow> contents w' = contents w))"

text \<open>A list is such a deque.\<close>

definition list_chase_lev :: "('a list, 'a) chase_lev" where
  "list_chase_lev =
     \<lparr>cl_new = [], cl_push = (\<lambda>v w. w @ [v]), cl_pop = pop_back,
      cl_steal = (\<lambda>w. case pop_front w of (r, w') \<Rightarrow> (opt_to_steal r, w'))\<rparr>"

lemma list_chase_lev_ok: "chase_lev_ok list_chase_lev id"
  by (auto simp: chase_lev_ok_def list_chase_lev_def opt_to_steal_def split: list.splits option.splits prod.splits
      elim: pop_front.elims)

section \<open>SpinRunQueue\<close>

definition spin_push :: "'a \<Rightarrow> 'a list \<Rightarrow> 'a list" where
  "spin_push v dq = v # dq"

definition spin_defer :: "'a \<Rightarrow> 'a list \<Rightarrow> 'a list" where
  "spin_defer v dq = dq @ [v]"

definition spin_try_pop :: "'a list \<Rightarrow> 'a option \<times> 'a list" where
  "spin_try_pop dq = pop_front dq"

definition spin_try_steal :: "'a list \<Rightarrow> 'a steal \<times> 'a list" where
  "spin_try_steal dq = (case pop_back dq of (Some v, r) \<Rightarrow> (Steal_Success v, r) | (None, r) \<Rightarrow> (Steal_Empty, r))"

section \<open>The contract\<close>

text \<open>
  What the scheduler relies on: no operation loses or duplicates an item, the queue is never
  reported empty while it holds one, a pushed item is the next one popped, and a deferred one
  is not popped before what was already queued.
\<close>

locale run_queue =
  fixes push :: "'a \<Rightarrow> 'q \<Rightarrow> 'q"
    and put_off :: "'a \<Rightarrow> 'q \<Rightarrow> 'q"
    and try_pop :: "'q \<Rightarrow> 'a option \<times> 'q"
    and try_steal :: "'q \<Rightarrow> 'a steal \<times> 'q"
    and items :: "'q \<Rightarrow> 'a multiset"
    and ok :: "'q \<Rightarrow> bool"
  assumes push_ok: "ok r \<Longrightarrow> ok (push v r) \<and> items (push v r) = add_mset v (items r)"
    and defer_ok: "ok r \<Longrightarrow> ok (put_off v r) \<and> items (put_off v r) = add_mset v (items r)"
    and pop_ok: "ok r \<Longrightarrow> try_pop r = (x, r') \<Longrightarrow>
        ok r' \<and> items r = items r' + (case x of Some v \<Rightarrow> {#v#} | None \<Rightarrow> {#}) \<and> (x = None \<longrightarrow> items r = {#})"
    and steal_ok: "ok r \<Longrightarrow> try_steal r = (s, r') \<Longrightarrow>
        ok r' \<and> items r = items r' + (case s of Steal_Success v \<Rightarrow> {#v#} | _ \<Rightarrow> {#})
          \<and> (s = Steal_Empty \<longrightarrow> items r = {#})"
    and pop_push: "ok r \<Longrightarrow> fst (try_pop (push v r)) = Some v"
    and pop_defer: "ok r \<Longrightarrow> items r \<noteq> {#} \<Longrightarrow> fst (try_pop (put_off v r)) = fst (try_pop r)"

text \<open>A run of operations on one queue, by its owner and by thieves, with what they took.\<close>

datatype 'a rq_op = Op_Push 'a | Op_Defer 'a | Op_Pop | Op_Steal

fun rq_run :: "('a \<Rightarrow> 'q \<Rightarrow> 'q) \<Rightarrow> ('a \<Rightarrow> 'q \<Rightarrow> 'q) \<Rightarrow> ('q \<Rightarrow> 'a option \<times> 'q) \<Rightarrow> ('q \<Rightarrow> 'a steal \<times> 'q)
    \<Rightarrow> 'a rq_op list \<Rightarrow> 'q \<Rightarrow> 'a list \<times> 'q" where
  "rq_run pu de po st [] r = ([], r)"
| "rq_run pu de po st (Op_Push v # ops) r = rq_run pu de po st ops (pu v r)"
| "rq_run pu de po st (Op_Defer v # ops) r = rq_run pu de po st ops (de v r)"
| "rq_run pu de po st (Op_Pop # ops) r =
     (case po r of (x, r') \<Rightarrow>
        (case rq_run pu de po st ops r' of (xs, r'') \<Rightarrow> (case x of Some v \<Rightarrow> v # xs | None \<Rightarrow> xs, r'')))"
| "rq_run pu de po st (Op_Steal # ops) r =
     (case st r of (s, r') \<Rightarrow>
        (case rq_run pu de po st ops r' of (xs, r'') \<Rightarrow> (case s of Steal_Success v \<Rightarrow> v # xs | _ \<Rightarrow> xs, r'')))"

fun rq_added :: "'a rq_op list \<Rightarrow> 'a multiset" where
  "rq_added [] = {#}"
| "rq_added (Op_Push v # ops) = add_mset v (rq_added ops)"
| "rq_added (Op_Defer v # ops) = add_mset v (rq_added ops)"
| "rq_added (_ # ops) = rq_added ops"

context run_queue
begin

lemma run_conserves:
  "ok r \<Longrightarrow> rq_run push put_off try_pop try_steal ops r = (xs, r') \<Longrightarrow>
   ok r' \<and> items r + rq_added ops = mset xs + items r'"
proof (induction ops arbitrary: r xs)
  case Nil
  then show ?case by simp
next
  case (Cons op ops)
  show ?case
  proof (cases op)
    case (Op_Push v)
    with Cons show ?thesis using push_ok [of r v] by fastforce
  next
    case (Op_Defer v)
    with Cons show ?thesis using defer_ok [of r v] by fastforce
  next
    case Op_Pop
    obtain x r1 where p: "try_pop r = (x, r1)" by fastforce
    with pop_ok Cons.prems(1) have "ok r1" by blast
    with Op_Pop Cons p show ?thesis using pop_ok [OF Cons.prems(1) p]
      by (fastforce split: prod.splits option.splits)
  next
    case Op_Steal
    obtain s r1 where p: "try_steal r = (s, r1)" by fastforce
    with steal_ok Cons.prems(1) have "ok r1" by blast
    with Op_Steal Cons p show ?thesis using steal_ok [OF Cons.prems(1) p]
      by (fastforce split: prod.splits steal.splits)
  qed
qed

end

section \<open>The implementations meet the contract\<close>

interpretation spin: run_queue spin_push spin_defer spin_try_pop spin_try_steal mset "\<lambda>_. True"
proof (unfold_locales, goal_cases)
  case (3 r x r')
  then show ?case by (cases r) (auto simp: spin_try_pop_def)
next
  case (4 r s r')
  then show ?case
    by (cases r rule: rev_cases) (auto simp: spin_try_steal_def split: option.splits prod.splits)
next
  case (6 r v)
  then show ?case by (cases r) (auto simp: spin_try_pop_def spin_defer_def)
qed (auto simp: spin_push_def spin_defer_def spin_try_pop_def)

definition hybrid_items :: "('w \<Rightarrow> 'a list) \<Rightarrow> ('w, 'a) hybrid \<Rightarrow> 'a multiset" where
  "hybrid_items contents h = mset (contents (h_main h)) + mset (d_q (h_deferred h))"

definition hybrid_ok :: "('w, 'a) hybrid \<Rightarrow> bool" where
  "hybrid_ok h = deferred_ok (h_deferred h)"

lemma chase_lev_okD:
  assumes "chase_lev_ok cl contents"
  shows "contents (cl_new cl) = []"
    and "contents (cl_push cl v w) = contents w @ [v]"
    and "cl_pop cl w = (x, w') \<Longrightarrow> pop_back (contents w) = (x, contents w')"
    and "cl_steal cl w = (Steal_Success v, w') \<Longrightarrow> contents w = v # contents w'"
    and "cl_steal cl w = (Steal_Empty, w') \<Longrightarrow> contents w = [] \<and> contents w' = []"
    and "cl_steal cl w = (Steal_Retry, w') \<Longrightarrow> contents w' = contents w"
proof -
  show "contents (cl_new cl) = []" and "contents (cl_push cl v w) = contents w @ [v]"
    using assms by (simp_all add: chase_lev_ok_def)
  show "cl_pop cl w = (x, w') \<Longrightarrow> pop_back (contents w) = (x, contents w')"
    using assms unfolding chase_lev_ok_def by (metis fst_conv snd_conv)
  have steal: "cl_steal cl w = (s, w') \<Longrightarrow>
      (case s of Steal_Success v \<Rightarrow> contents w = v # contents w'
       | Steal_Empty \<Rightarrow> contents w = [] \<and> contents w' = []
       | Steal_Retry \<Rightarrow> contents w' = contents w)" for s
    using assms unfolding chase_lev_ok_def by blast
  show "cl_steal cl w = (Steal_Success v, w') \<Longrightarrow> contents w = v # contents w'"
    and "cl_steal cl w = (Steal_Empty, w') \<Longrightarrow> contents w = [] \<and> contents w' = []"
    and "cl_steal cl w = (Steal_Retry, w') \<Longrightarrow> contents w' = contents w"
    using steal [of "Steal_Success v"] steal [of Steal_Empty] steal [of Steal_Retry] by simp_all
qed

lemma deferred_take_cases:
  assumes "deferred_ok d" and "deferred_try_take d = (x, d')"
  shows "deferred_ok d'"
    and "x = None \<Longrightarrow> d_q d = [] \<and> d_q d' = []"
    and "x = Some v \<Longrightarrow> d_q d = v # d_q d'"
proof -
  have "pop_front (d_q d) = (x, d_q d')" and ok: "deferred_ok d'"
    using deferred_try_take_ok [OF assms(1)] assms(2) by (metis fst_conv prod.collapse snd_conv)+
  then show "deferred_ok d'"
    and "x = None \<Longrightarrow> d_q d = [] \<and> d_q d' = []"
    and "x = Some v \<Longrightarrow> d_q d = v # d_q d'"
    by (simp_all add: pop_simps)
qed

lemma hybrid_pop_cases:
  assumes cl: "chase_lev_ok cl contents" and ok: "hybrid_ok h" and p: "hybrid_try_pop cl h = (x, h')"
  shows "hybrid_ok h'"
    and "hybrid_items contents h = hybrid_items contents h' + (case x of Some v \<Rightarrow> {#v#} | None \<Rightarrow> {#})"
    and "x = None \<Longrightarrow> hybrid_items contents h = {#}"
proof -
  obtain y m where m: "cl_pop cl (h_main h) = (y, m)" by fastforce
  note main = chase_lev_okD(3) [OF cl m]
  obtain z d where d: "deferred_try_take (h_deferred h) = (z, d)" by fastforce
  note def = deferred_take_cases [OF ok [unfolded hybrid_ok_def] d]
  show "hybrid_ok h'"
    using p m d def(1) ok by (auto simp: hybrid_try_pop_def hybrid_ok_def split: option.splits)
  show "hybrid_items contents h = hybrid_items contents h' + (case x of Some v \<Rightarrow> {#v#} | None \<Rightarrow> {#})"
    using p m d main def
    by (auto simp: hybrid_try_pop_def hybrid_items_def pop_simps split: option.splits)
  show "x = None \<Longrightarrow> hybrid_items contents h = {#}"
    using p m d main def
    by (auto simp: hybrid_try_pop_def hybrid_items_def pop_simps split: option.splits)
qed

lemma hybrid_steal_cases:
  assumes cl: "chase_lev_ok cl contents" and ok: "hybrid_ok h" and p: "hybrid_try_steal cl h = (s, h')"
  shows "hybrid_ok h' \<and>
    hybrid_items contents h = hybrid_items contents h' + (case s of Steal_Success v \<Rightarrow> {#v#} | _ \<Rightarrow> {#}) \<and>
    (s = Steal_Empty \<longrightarrow> hybrid_items contents h = {#})"
proof -
  obtain z d where d: "deferred_try_take (h_deferred h) = (z, d)" by fastforce
  note def = deferred_take_cases [OF ok [unfolded hybrid_ok_def] d]
  show ?thesis
  proof (cases z)
    case None
    obtain t m where m: "cl_steal cl (h_main h) = (t, m)" by fastforce
    with p d None have s: "s = t" and h': "h' = h\<lparr>h_main := m, h_deferred := d\<rparr>"
      by (simp_all add: hybrid_try_steal_def)
    have q: "d_q (h_deferred h) = []" "d_q d = []"
      using def(2) [OF None] by simp_all
    note unf = s h' hybrid_items_def hybrid_ok_def q
    show ?thesis
    proof (cases t)
      case Steal_Empty
      with m have "contents (h_main h) = [] \<and> contents m = []"
        using chase_lev_okD(5) [OF cl] by blast
      with Steal_Empty def(1) show ?thesis by (simp add: unf)
    next
      case (Steal_Success v)
      with m have "contents (h_main h) = v # contents m"
        using chase_lev_okD(4) [OF cl] by blast
      with Steal_Success def(1) show ?thesis by (simp add: unf)
    next
      case Steal_Retry
      with m have "contents m = contents (h_main h)"
        using chase_lev_okD(6) [OF cl] by blast
      with Steal_Retry def(1) show ?thesis by (simp add: unf)
    qed
  next
    case (Some v)
    with p d have s: "s = Steal_Success v" and h': "h' = h\<lparr>h_deferred := d\<rparr>"
      by (simp_all add: hybrid_try_steal_def)
    show ?thesis
      using def(1) by (simp add: s h' hybrid_items_def hybrid_ok_def def(3) [OF Some])
  qed
qed

lemma hybrid_run_queue:
  assumes cl: "chase_lev_ok cl contents"
  shows "run_queue (hybrid_push cl) hybrid_defer (hybrid_try_pop cl) (hybrid_try_steal cl)
           (hybrid_items contents) hybrid_ok"
proof (unfold_locales, goal_cases)
  case (1 r v)
  then show ?case
    by (simp add: hybrid_push_def hybrid_ok_def hybrid_items_def chase_lev_okD(2) [OF cl])
next
  case (2 r v)
  then show ?case
    by (simp add: hybrid_defer_def hybrid_ok_def hybrid_items_def)
next
  case (3 r x r')
  then show ?case using hybrid_pop_cases [OF cl] by blast
next
  case (4 r s r')
  then show ?case using hybrid_steal_cases [OF cl] by blast
next
  case (5 r v)
  obtain x w where x: "cl_pop cl (cl_push cl v (h_main r)) = (x, w)" by fastforce
  have "x = Some v"
    using chase_lev_okD(3) [OF cl x] by (simp add: chase_lev_okD(2) [OF cl])
  with x show ?case by (simp add: hybrid_try_pop_def hybrid_push_def)
next
  case (6 r v)
  obtain x w where x: "cl_pop cl (h_main r) = (x, w)" by fastforce
  note main = chase_lev_okD(3) [OF cl x]
  have ok: "deferred_ok (h_deferred r)"
    using 6(1) by (simp add: hybrid_ok_def)
  show ?case
  proof (cases x)
    case (Some u)
    with x show ?thesis by (simp add: hybrid_try_pop_def hybrid_defer_def)
  next
    case None
    with main 6(2) have ne: "d_q (h_deferred r) \<noteq> []"
      by (auto simp: hybrid_items_def pop_simps)
    then have "fst (deferred_try_take (deferred_push v (h_deferred r))) = fst (deferred_try_take (h_deferred r))"
      by (cases "d_q (h_deferred r)")
        (simp_all add: deferred_try_take_ok(1) [OF ok] deferred_try_take_ok(1) [OF deferred_push_ok(1)])
    with None x show ?thesis
      by (simp add: hybrid_try_pop_def hybrid_defer_def split_beta)
  qed
qed

interpretation hybrid: run_queue "hybrid_push list_chase_lev" hybrid_defer "hybrid_try_pop list_chase_lev"
    "hybrid_try_steal list_chase_lev" "hybrid_items id" hybrid_ok
  by (rule hybrid_run_queue [OF list_chase_lev_ok])

lemma hybrid_default_ok:
  "chase_lev_ok cl contents \<Longrightarrow> hybrid_ok (hybrid_default cl) \<and> hybrid_items contents (hybrid_default cl) = {#}"
  by (simp add: hybrid_default_def hybrid_ok_def hybrid_items_def chase_lev_okD(1))

text \<open>
  Whatever the owner and the thieves do to a fresh \<open>HybridRunQueue\<close>, the items taken so far
  and those still queued are together exactly the items pushed or deferred.
\<close>

lemma hybrid_conserves:
  assumes "chase_lev_ok cl contents"
    and "rq_run (hybrid_push cl) hybrid_defer (hybrid_try_pop cl) (hybrid_try_steal cl) ops (hybrid_default cl)
           = (taken, h)"
  shows "mset taken + hybrid_items contents h = rq_added ops"
  using run_queue.run_conserves [OF hybrid_run_queue [OF assms(1)] _ assms(2)]
    hybrid_default_ok [OF assms(1)] by simp

lemma hybrid_conserves_example:
  "mset [1, 3, 2] + hybrid_items id (\<lparr>h_main = [], h_deferred = \<lparr>d_non_empty = False, d_q = []\<rparr>\<rparr>)
     = rq_added [Op_Push 2, Op_Defer (1 :: nat), Op_Push 3, Op_Steal, Op_Pop, Op_Pop, Op_Steal]"
  by (rule hybrid_conserves [OF list_chase_lev_ok])
    (simp add: hybrid_default_def list_chase_lev_def hybrid_push_def hybrid_defer_def hybrid_try_pop_def
      hybrid_try_steal_def deferred_new_def deferred_push_def deferred_try_take_def opt_to_steal_def pop_back_def)

text \<open>
  The order the queue documents: the owner gets its newest pushed item first and deferred
  items only when it has no pushed one, oldest first; a thief gets the oldest deferred item first,
  and only then the oldest pushed one.
\<close>

lemma hybrid_order:
  assumes cl: "chase_lev_ok cl contents" and ok: "hybrid_ok h"
  shows "fst (hybrid_try_pop cl h) =
           (case contents (h_main h) of [] \<Rightarrow> fst (pop_front (d_q (h_deferred h))) | ms \<Rightarrow> Some (last ms)) \<and>
         fst (hybrid_try_steal cl h) =
           (case d_q (h_deferred h) of [] \<Rightarrow> fst (cl_steal cl (h_main h)) | v # _ \<Rightarrow> Steal_Success v)"
proof -
  obtain x w where x: "cl_pop cl (h_main h) = (x, w)" by fastforce
  note main = chase_lev_okD(3) [OF cl x]
  have d: "fst (deferred_try_take (h_deferred h)) = fst (pop_front (d_q (h_deferred h)))"
    using ok deferred_try_take_ok(1) by (auto simp: hybrid_ok_def)
  have "fst (hybrid_try_pop cl h) =
           (case contents (h_main h) of [] \<Rightarrow> fst (pop_front (d_q (h_deferred h))) | ms \<Rightarrow> Some (last ms))"
    using x main d
    by (auto simp: hybrid_try_pop_def pop_back_def split: list.splits option.splits prod.splits if_splits)
  moreover have "fst (hybrid_try_steal cl h) =
           (case d_q (h_deferred h) of [] \<Rightarrow> fst (cl_steal cl (h_main h)) | v # _ \<Rightarrow> Steal_Success v)"
    using d by (cases "d_q (h_deferred h)") (auto simp: hybrid_try_steal_def split: option.splits prod.splits)
  ultimately show ?thesis by simp
qed

lemma hybrid_order_example:
  "fst (hybrid_try_pop list_chase_lev \<lparr>h_main = [1, 2], h_deferred = \<lparr>d_non_empty = True, d_q = [8, 9 :: nat]\<rparr>\<rparr>) = Some 2 \<and>
   fst (hybrid_try_steal list_chase_lev \<lparr>h_main = [1, 2], h_deferred = \<lparr>d_non_empty = True, d_q = [8, 9 :: nat]\<rparr>\<rparr>)
     = Steal_Success 8"
  using hybrid_order [OF list_chase_lev_ok,
      of "\<lparr>h_main = [1, 2], h_deferred = \<lparr>d_non_empty = True, d_q = [8, 9 :: nat]\<rparr>\<rparr>"]
  by (simp add: hybrid_ok_def deferred_ok_def)

text \<open>
  A fresh \<open>SpinRunQueue\<close> conserves its items under any run of operations, and its order is
  that of one double-ended list.
\<close>

lemma spin_conserves:
  "case rq_run spin_push spin_defer spin_try_pop spin_try_steal ops [] of
     (taken, left) \<Rightarrow> mset taken + mset left = rq_added ops"
  using spin.run_conserves [where r = "[]" and ops = ops]
  by (cases "rq_run spin_push spin_defer spin_try_pop spin_try_steal ops []") simp

end
