(* ===== verification/Flag_Queue.thy ===== *)
theory Flag_Queue
  imports Run_Queue
begin

text \<open>
  The pattern \<open>Deferred\<close> (\<open>deque.rs\<close>) and \<open>StealPathQueue\<close> (\<open>external_queue.rs\<close>) share: a
  locked queue behind an atomic flag, so that an empty queue costs a load and no lock.  Here
  the two operations run step by step in any number of threads; the end a taker takes from is
  the parameter \<open>pop\<close>.
\<close>

section \<open>The steps\<close>

datatype 'a fq_pc =
    FQ_Idle
  | FQ_Push 'a          \<comment> \<open>wants to push, before the lock\<close>
  | FQ_Push_Locked 'a
  | FQ_Push_Store       \<comment> \<open>pushed and unlocked, before the flag's store\<close>
  | FQ_Take_Lock        \<comment> \<open>saw the flag set, before the lock\<close>
  | FQ_Take_Locked
  | FQ_Take_Popped      \<comment> \<open>popped, before looking whether the queue is empty\<close>

record 'a flag_queue =
  fq_flag :: bool
  fq_lock :: "nat option"
  fq_items :: "'a list"
  fq_pcs :: "nat \<Rightarrow> 'a fq_pc"
  fq_pushed :: "'a multiset"   \<comment> \<open>every item pushed so far\<close>
  fq_taken :: "'a multiset"    \<comment> \<open>every item taken so far\<close>

definition fq_init :: "'a flag_queue" where
  "fq_init = \<lparr>fq_flag = False, fq_lock = None, fq_items = [], fq_pcs = (\<lambda>_. FQ_Idle),
     fq_pushed = {#}, fq_taken = {#}\<rparr>"

abbreviation fq_goto :: "nat \<Rightarrow> 'a fq_pc \<Rightarrow> 'a flag_queue \<Rightarrow> 'a flag_queue" where
  "fq_goto t pc s \<equiv> s\<lparr>fq_pcs := (fq_pcs s)(t := pc)\<rparr>"

inductive fq_step :: "('a list \<Rightarrow> 'a option \<times> 'a list) \<Rightarrow> 'a flag_queue \<Rightarrow> 'a flag_queue \<Rightarrow> bool"
  for pop where
  push: "fq_pcs s t = FQ_Idle \<Longrightarrow> fq_step pop s (fq_goto t (FQ_Push v) s)"
| push_lock: "fq_pcs s t = FQ_Push v \<Longrightarrow> fq_lock s = None \<Longrightarrow>
    fq_step pop s (fq_goto t (FQ_Push_Locked v) (s\<lparr>fq_lock := Some t\<rparr>))"
| push_item: "fq_pcs s t = FQ_Push_Locked v \<Longrightarrow>
    fq_step pop s (fq_goto t FQ_Push_Store
      (s\<lparr>fq_items := fq_items s @ [v], fq_lock := None, fq_pushed := add_mset v (fq_pushed s)\<rparr>))"
| push_store: "fq_pcs s t = FQ_Push_Store \<Longrightarrow>
    fq_step pop s (fq_goto t FQ_Idle (s\<lparr>fq_flag := True\<rparr>))"
| take_empty: "fq_pcs s t = FQ_Idle \<Longrightarrow> \<not> fq_flag s \<Longrightarrow> fq_step pop s s"
| take_flag: "fq_pcs s t = FQ_Idle \<Longrightarrow> fq_flag s \<Longrightarrow> fq_step pop s (fq_goto t FQ_Take_Lock s)"
| take_lock: "fq_pcs s t = FQ_Take_Lock \<Longrightarrow> fq_lock s = None \<Longrightarrow>
    fq_step pop s (fq_goto t FQ_Take_Locked (s\<lparr>fq_lock := Some t\<rparr>))"
| take_pop: "fq_pcs s t = FQ_Take_Locked \<Longrightarrow> pop (fq_items s) = (item, rest) \<Longrightarrow>
    fq_step pop s (fq_goto t FQ_Take_Popped
      (s\<lparr>fq_items := rest, fq_taken := fq_taken s + (case item of Some v \<Rightarrow> {#v#} | None \<Rightarrow> {#})\<rparr>))"
| take_done: "fq_pcs s t = FQ_Take_Popped \<Longrightarrow>
    fq_step pop s (fq_goto t FQ_Idle
      (s\<lparr>fq_flag := (if fq_items s = [] then False else fq_flag s), fq_lock := None\<rparr>))"

inductive fq_reachable :: "('a list \<Rightarrow> 'a option \<times> 'a list) \<Rightarrow> 'a flag_queue \<Rightarrow> bool" for pop where
  fq_start: "fq_reachable pop fq_init"
| fq_next: "fq_reachable pop s \<Longrightarrow> fq_step pop s s' \<Longrightarrow> fq_reachable pop s'"

section \<open>The invariant\<close>

text \<open>
  The flag may lag behind the queue only while some pusher is between its unlock and its store;
  the lock's holder is the one thread in a critical section; and nothing is lost.
\<close>

definition fq_critical :: "'a fq_pc \<Rightarrow> bool" where
  "fq_critical pc = (case pc of FQ_Push_Locked _ \<Rightarrow> True | FQ_Take_Locked \<Rightarrow> True | FQ_Take_Popped \<Rightarrow> True | _ \<Rightarrow> False)"

lemma fq_critical_simps [simp]:
  "\<not> fq_critical FQ_Idle" "\<not> fq_critical (FQ_Push v)" "fq_critical (FQ_Push_Locked v)"
  "\<not> fq_critical FQ_Push_Store" "\<not> fq_critical FQ_Take_Lock" "fq_critical FQ_Take_Locked"
  "fq_critical FQ_Take_Popped"
  by (simp_all add: fq_critical_def)

definition fq_storing :: "(nat \<Rightarrow> 'a fq_pc) \<Rightarrow> bool" where
  "fq_storing pcs \<longleftrightarrow> (\<exists>t. pcs t = FQ_Push_Store)"

lemma fq_storing_upd [simp]:
  "pcs t \<noteq> FQ_Push_Store \<Longrightarrow> fq_storing (pcs(t := pc)) \<longleftrightarrow> pc = FQ_Push_Store \<or> fq_storing pcs"
  by (auto simp: fq_storing_def)

definition fq_inv :: "'a flag_queue \<Rightarrow> bool" where
  "fq_inv s \<longleftrightarrow>
     (fq_items s \<noteq> [] \<longrightarrow> fq_flag s \<or> fq_storing (fq_pcs s)) \<and>
     (\<forall>t. fq_critical (fq_pcs s t) \<longleftrightarrow> fq_lock s = Some t) \<and>
     fq_pushed s = fq_taken s + mset (fq_items s)"

lemma fq_inv_free: "fq_inv s \<Longrightarrow> \<not> fq_critical (fq_pcs s t) \<Longrightarrow> fq_lock s \<noteq> Some t"
  by (auto simp: fq_inv_def)

lemma fq_inv_owner: "fq_inv s \<Longrightarrow> fq_critical (fq_pcs s t) \<Longrightarrow> fq_lock s = Some t"
  by (simp add: fq_inv_def)

lemma fq_inv_init: "fq_inv fq_init"
  by (simp add: fq_inv_def fq_init_def)

text \<open>The end the taker takes from: it finds something unless the queue is empty.\<close>

locale flag_protocol =
  fixes pop :: "'a list \<Rightarrow> 'a option \<times> 'a list"
  assumes pop_none: "pop xs = (None, ys) \<Longrightarrow> xs = [] \<and> ys = []"
    and pop_some: "pop xs = (Some x, ys) \<Longrightarrow> mset xs = add_mset x (mset ys)"
begin

lemma step_inv: "fq_step pop s s' \<Longrightarrow> fq_inv s \<Longrightarrow> fq_inv s'"
proof (induction rule: fq_step.induct)
  case (push s t v)
  then have "fq_lock s \<noteq> Some t" using fq_inv_free [of s t] by simp
  with push show ?case by (auto simp: fq_inv_def)
next
  case (push_lock s t v)
  then show ?case by (auto simp: fq_inv_def)
next
  case (push_item s t v)
  then have "fq_lock s = Some t" using fq_inv_owner [of s t] by simp
  with push_item show ?case by (auto simp: fq_inv_def)
next
  case (push_store s t)
  then have "fq_lock s \<noteq> Some t" using fq_inv_free [of s t] by simp
  with push_store show ?case by (auto simp: fq_inv_def)
next
  case (take_flag s t)
  then have "fq_lock s \<noteq> Some t" using fq_inv_free [of s t] by simp
  with take_flag show ?case by (auto simp: fq_inv_def)
next
  case (take_lock s t)
  then show ?case by (auto simp: fq_inv_def)
next
  case (take_pop s t item rest)
  have ne: "rest \<noteq> [] \<Longrightarrow> fq_items s \<noteq> []"
    using take_pop.hyps(2) pop_none pop_some by (cases item) fastforce+
  have m: "mset (fq_items s) = mset rest + (case item of Some v \<Rightarrow> {#v#} | None \<Rightarrow> {#})"
    using take_pop.hyps(2) pop_none pop_some by (cases item) fastforce+
  have o: "fq_lock s = Some t" using take_pop using fq_inv_owner [of s t] by simp
  from take_pop ne m o show ?case
    by (auto simp: fq_inv_def)
next
  case (take_done s t)
  then have "fq_lock s = Some t" using fq_inv_owner [of s t] by simp
  with take_done show ?case by (auto simp: fq_inv_def)
qed auto

lemma reachable_inv: "fq_reachable pop s \<Longrightarrow> fq_inv s"
  by (induction rule: fq_reachable.induct) (auto intro: fq_inv_init step_inv)

lemma quiescent_flag:
  assumes "fq_reachable pop s" and "\<And>t. fq_pcs s t \<noteq> FQ_Push_Store" and "fq_items s \<noteq> []"
  shows "fq_flag s"
  using reachable_inv [OF assms(1)] assms(2,3) by (auto simp: fq_inv_def fq_storing_def)

lemma reachable_conserves: "fq_reachable pop s \<Longrightarrow> fq_pushed s = fq_taken s + mset (fq_items s)"
  using reachable_inv by (simp add: fq_inv_def)

end

interpretation fifo: flag_protocol pop_front
  by unfold_locales (auto simp: pop_simps)

interpretation lifo: flag_protocol pop_back
  by unfold_locales (auto simp: pop_simps)

text \<open>
  In every interleaving of pushers and takers on a \<open>Deferred\<close> queue (the taker pops the
  front) or a \<open>StealPathQueue\<close> (it pops the back), nothing is lost or duplicated, and the flag
  that lets a taker skip the lock never hides an item: while the queue holds one, the flag is set
  or some pusher is just about to set it.
\<close>

lemma flag_never_hides:
  assumes "pop = pop_front \<or> pop = pop_back" and "fq_reachable pop s"
  shows "fq_pushed s = fq_taken s + mset (fq_items s) \<and>
    (fq_items s \<noteq> [] \<longrightarrow> fq_flag s \<or> (\<exists>t. fq_pcs s t = FQ_Push_Store))"
  using assms fifo.reachable_conserves lifo.reachable_conserves fifo.quiescent_flag lifo.quiescent_flag
  by metis

definition fq_example :: "nat flag_queue" where
  "fq_example = fq_goto 0 FQ_Push_Store (fq_init\<lparr>fq_items := [7], fq_pushed := {#7#}\<rparr>)"

lemma fq_example_reachable: "fq_reachable pop fq_example"
proof -
  let ?a = "fq_goto 0 (FQ_Push 7) (fq_init :: nat flag_queue)"
  let ?b = "fq_goto 0 (FQ_Push_Locked 7) (?a\<lparr>fq_lock := Some 0\<rparr>)"
  have a: "fq_reachable pop ?a"
    by (rule fq_next [OF fq_start fq_step.push]) (simp add: fq_init_def)
  have b: "fq_reachable pop ?b"
    by (rule fq_next [OF a fq_step.push_lock]) (simp_all add: fq_init_def)
  have "fq_reachable pop (fq_goto 0 FQ_Push_Store
      (?b\<lparr>fq_items := fq_items ?b @ [7], fq_lock := None, fq_pushed := add_mset 7 (fq_pushed ?b)\<rparr>))"
    by (rule fq_next [OF b fq_step.push_item]) simp
  then show ?thesis
    by (simp add: fq_example_def fq_init_def)
qed

lemma flag_never_hides_example:
  "fq_pushed fq_example = fq_taken fq_example + mset (fq_items fq_example) \<and>
    fq_items fq_example = [7] \<and> (fq_flag fq_example \<or> (\<exists>t. fq_pcs fq_example t = FQ_Push_Store))"
proof -
  have i: "fq_items fq_example = [7]" by (simp add: fq_example_def)
  show ?thesis using flag_never_hides [OF disjI1 [OF refl] fq_example_reachable] i by simp
qed

end
