(* ===== verification/External_Queue.thy ===== *)
theory External_Queue
  imports Flag_Queue
begin

text \<open>
  The external queues (\<open>external_queue.rs\<close>), by which a thread outside the pool hands a
  continuation to it: \<open>StealPathQueue\<close>, drained by workers whose steals failed, and
  \<open>PollerUltQueue\<close>, drained by a task of its own.
\<close>

section \<open>StealPathQueue\<close>

text \<open>The wake hook is installed at most once (\<open>OnceLock\<close>); \<open>sp_fired\<close> counts its calls.\<close>

record 'a steal_path =
  sp_non_empty :: bool
  sp_inner :: "'a list"
  sp_wake :: "nat option"       \<comment> \<open>the hook\<close>
  sp_fired :: "nat list"        \<comment> \<open>the hooks fired, newest first\<close>

definition steal_path_default :: "'a steal_path" where
  "steal_path_default = \<lparr>sp_non_empty = False, sp_inner = [], sp_wake = None, sp_fired = []\<rparr>"

definition steal_path_push :: "'a \<Rightarrow> 'a steal_path \<Rightarrow> 'a steal_path" where
  "steal_path_push c x =
     (let x = x\<lparr>sp_inner := sp_inner x @ [c], sp_non_empty := True\<rparr>
      in case sp_wake x of Some h \<Rightarrow> x\<lparr>sp_fired := h # sp_fired x\<rparr> | None \<Rightarrow> x)"

definition steal_path_set_wake_hook :: "nat \<Rightarrow> 'a steal_path \<Rightarrow> 'a steal_path" where
  "steal_path_set_wake_hook h x =
     (case sp_wake x of None \<Rightarrow> x\<lparr>sp_wake := Some h\<rparr> | Some _ \<Rightarrow> x)"

definition steal_path_try_pop :: "'a steal_path \<Rightarrow> 'a option \<times> 'a steal_path" where
  "steal_path_try_pop x =
     (if \<not> sp_non_empty x then (None, x)
      else case pop_back (sp_inner x) of
        (item, q) \<Rightarrow> (item, if q = [] then x\<lparr>sp_inner := q, sp_non_empty := False\<rparr> else x\<lparr>sp_inner := q\<rparr>))"

definition steal_path_ok :: "'a steal_path \<Rightarrow> bool" where
  "steal_path_ok x \<longleftrightarrow> (sp_non_empty x \<longleftrightarrow> sp_inner x \<noteq> [])"

lemma steal_path_push_ok [simp]:
  "steal_path_ok (steal_path_push c x)"
  "sp_inner (steal_path_push c x) = sp_inner x @ [c]"
  "sp_wake (steal_path_push c x) = sp_wake x"
  by (auto simp: steal_path_push_def steal_path_ok_def Let_def split: option.splits)

lemma steal_path_try_pop_ok:
  assumes "steal_path_ok x" and "steal_path_try_pop x = (r, x')"
  shows "steal_path_ok x'" and "pop_back (sp_inner x) = (r, sp_inner x')"
  using assms by (auto simp: steal_path_try_pop_def steal_path_ok_def pop_back_def split: if_splits)

text \<open>A queue that satisfies the run queue's contract, although the pool only pushes and pops.\<close>

interpretation steal_path: run_queue steal_path_push
    "\<lambda>v x. x\<lparr>sp_inner := v # sp_inner x, sp_non_empty := True\<rparr>"
    steal_path_try_pop "\<lambda>x. case steal_path_try_pop x of (r, x') \<Rightarrow> (opt_to_steal r, x')"
    "\<lambda>x. mset (sp_inner x)" steal_path_ok
proof (unfold_locales, goal_cases)
  case (3 r x r')
  from steal_path_try_pop_ok [OF this] show ?case
    by (cases x) (auto simp: pop_simps)
next
  case (4 r s r')
  then obtain y where "steal_path_try_pop r = (y, r')" and "s = opt_to_steal y"
    by (auto split: prod.splits)
  with steal_path_try_pop_ok [OF 4(1)] show ?case
    by (cases y) (fastforce simp: pop_simps opt_to_steal_def)+
next
  case (5 r v)
  then show ?case by (simp add: steal_path_try_pop_def steal_path_push_def pop_back_def Let_def split: option.splits)
next
  case (6 r v)
  then show ?case by (auto simp: steal_path_try_pop_def steal_path_ok_def pop_back_def)
next
  case (1 r v)
  then show ?case by simp
qed (auto simp: steal_path_ok_def)

text \<open>
  Every push on a \<open>StealPathQueue\<close> with a hook fires that hook exactly once, after the item
  can be seen: a worker the hook wakes pops the item at once.
\<close>

lemma steal_path_push_wakes:
  "sp_fired (steal_path_push c x) = (case sp_wake x of Some h \<Rightarrow> [h] | None \<Rightarrow> []) @ sp_fired x \<and>
   (case steal_path_try_pop (steal_path_push c x) of (r, x') \<Rightarrow> r = Some c \<and> sp_inner x' = sp_inner x)"
  by (simp add: steal_path_push_def steal_path_try_pop_def Let_def split: option.splits)

section \<open>PollerUltQueue\<close>

record 'a poller =
  pq_inner :: "'a list"
  pq_stop :: bool

definition poller_default :: "'a poller" where
  "poller_default = \<lparr>pq_inner = [], pq_stop = False\<rparr>"

definition poller_push :: "'a \<Rightarrow> 'a poller \<Rightarrow> 'a poller" where
  "poller_push c p = p\<lparr>pq_inner := pq_inner p @ [c]\<rparr>"

definition poller_try_pop :: "'a poller \<Rightarrow> 'a option \<times> 'a poller" where
  "poller_try_pop p = (None, p)"

definition poller_stop_service :: "'a poller \<Rightarrow> 'a poller" where
  "poller_stop_service p = p\<lparr>pq_stop := True\<rparr>"

text \<open>What other threads do meanwhile.\<close>

datatype 'a poller_event = Ev_Push 'a | Ev_Stop

definition poller_event :: "'a poller \<Rightarrow> 'a poller_event \<Rightarrow> 'a poller" where
  "poller_event p e = (case e of Ev_Push c \<Rightarrow> poller_push c p | Ev_Stop \<Rightarrow> poller_stop_service p)"

text \<open>
  The service loop.  Each entry of the schedule is one round: the events before the round's
  drain and those between its drain and its look at the stop flag, and whether a worker is
  current (\<open>S::Worker::current()\<close>).  The result: what was deferred to the worker, the queue,
  and whether the loop has returned by the end of the schedule.
\<close>

fun poller_run_service :: "('a poller_event list \<times> 'a poller_event list \<times> bool) list \<Rightarrow> 'a poller
    \<Rightarrow> 'a list \<times> 'a poller \<times> bool" where
  "poller_run_service [] p = ([], p, False)"
| "poller_run_service ((before, between, current) # rounds) p =
     (let p = foldl poller_event p before;
          pending = pq_inner p;
          p = p\<lparr>pq_inner := []\<rparr>;
          deferred = (if current then pending else []);
          p = foldl poller_event p between
      in if pq_stop p then (deferred, p, True)
         else case poller_run_service rounds p of (later, p', returned) \<Rightarrow> (deferred @ later, p', returned))"

fun poller_pushed :: "'a poller_event list \<Rightarrow> 'a list" where
  "poller_pushed [] = []"
| "poller_pushed (Ev_Push c # es) = c # poller_pushed es"
| "poller_pushed (Ev_Stop # es) = poller_pushed es"

text \<open>What the schedule pushes in the rounds the loop really runs.\<close>

fun poller_rounds_pushed :: "('a poller_event list \<times> 'a poller_event list \<times> bool) list \<Rightarrow> bool \<Rightarrow> 'a list" where
  "poller_rounds_pushed [] stopped = []"
| "poller_rounds_pushed ((before, between, current) # rounds) stopped =
     poller_pushed before @ poller_pushed between @
     (if stopped \<or> Ev_Stop \<in> set before \<or> Ev_Stop \<in> set between then []
      else poller_rounds_pushed rounds False)"

lemma poller_events_inner: "pq_inner (foldl poller_event p es) = pq_inner p @ poller_pushed es"
proof (induction es arbitrary: p)
  case (Cons e es)
  then show ?case by (cases e) (simp_all add: poller_event_def poller_push_def poller_stop_service_def)
qed simp

lemma poller_events_stop: "pq_stop (foldl poller_event p es) \<longleftrightarrow> pq_stop p \<or> Ev_Stop \<in> set es"
proof (induction es arbitrary: p)
  case (Cons e es)
  then show ?case by (cases e) (auto simp: poller_event_def poller_push_def poller_stop_service_def)
qed simp

text \<open>
  On a worker, the poller forwards exactly what was pushed, once each and in order, except
  what is still queued when the schedule ends.
\<close>

lemma poller_forwards_in_order:
  assumes "\<forall>r \<in> set rounds. snd (snd r)"
    and "poller_run_service rounds p = (forwarded, p', returned)"
  shows "forwarded @ pq_inner p' = pq_inner p @ poller_rounds_pushed rounds (pq_stop p)"
  using assms
proof (induction rounds p arbitrary: forwarded p' returned rule: poller_run_service.induct)
  case (2 before between current rounds p)
  let ?p1 = "(foldl poller_event p before)\<lparr>pq_inner := []\<rparr>"
  let ?p2 = "foldl poller_event ?p1 between"
  obtain later q d where rest: "poller_run_service rounds ?p2 = (later, q, d)"
    by (cases "poller_run_service rounds ?p2")
  have stop: "pq_stop ?p2 \<longleftrightarrow> pq_stop p \<or> Ev_Stop \<in> set before \<or> Ev_Stop \<in> set between"
    by (simp add: poller_events_stop)
  have inner: "pq_inner ?p2 = poller_pushed between"
    by (simp add: poller_events_inner)
  show ?case
  proof (cases "pq_stop ?p2")
    case True
    with 2(2,3) stop inner show ?thesis
      by (auto simp: Let_def poller_events_inner)
  next
    case False
    have "later @ pq_inner q = pq_inner ?p2 @ poller_rounds_pushed rounds (pq_stop ?p2)"
      by (rule 2(1) [OF refl refl refl refl refl False _ rest]) (use 2(2) in simp)
    with 2(2,3) False rest stop inner show ?thesis
      by (auto simp: Let_def poller_events_inner)
  qed
qed simp

lemma poller_forwards_in_order_example:
  "[1, 2, 3] @ pq_inner \<lparr>pq_inner = [4 :: nat], pq_stop = True\<rparr> = pq_inner \<lparr>pq_inner = [1], pq_stop = False\<rparr> @
     poller_rounds_pushed [([Ev_Push 2], [Ev_Push 3], True), ([], [Ev_Push 4, Ev_Stop], True)] False"
  using poller_forwards_in_order [of "[([Ev_Push 2], [Ev_Push 3], True), ([], [Ev_Push 4, Ev_Stop], True)]"
      "\<lparr>pq_inner = [1 :: nat], pq_stop = False\<rparr>" "[1, 2, 3]" "\<lparr>pq_inner = [4], pq_stop = True\<rparr>" True]
  by (simp add: poller_event_def poller_push_def poller_stop_service_def)

text \<open>
  The loop stops at the first round that sees the stop flag; a continuation pushed after that
  round's drain stays behind, even one pushed before the stop was asked for: it does not get the
  further drain pass the loop's comment speaks of.
\<close>

lemma poller_strands_late_push:
  "poller_run_service ((before, [Ev_Push c, Ev_Stop], True) # rounds) poller_default
     = (poller_pushed before, \<lparr>pq_inner = [c], pq_stop = True\<rparr>, True)"
proof -
  define p where "p = foldl poller_event (poller_default :: 'a poller) before"
  have "pq_inner p = poller_pushed before"
    by (simp add: p_def poller_events_inner poller_default_def)
  then show ?thesis
    by (simp add: Let_def poller_event_def poller_push_def poller_stop_service_def flip: p_def)
qed

end
