(* ===== verification/Steal_Policy.thy ===== *)
theory Steal_Policy
  imports Run_Queue
begin

text \<open>
  The steal policies (\<open>resumable/common/steal.rs\<close>) and the standard dispatch order
  (\<open>resumable/common/dispatch.rs\<close>).  A victim is the state \<open>'q\<close> of a run queue; \<open>st\<close> is its
  \<open>try_steal\<close>.
\<close>

section \<open>The generator\<close>

definition seed :: "usize \<Rightarrow> u64" where
  "seed me =
     (let z = (me + 1) * 0x9E3779B97F4A7C15;
          z = (z XOR drop_bit 30 z) * 0xBF58476D1CE4E5B9;
          z = (z XOR drop_bit 27 z) * 0x94D049BB133111EB
      in (z XOR drop_bit 31 z) OR 1)"

definition xs_next :: "u64 \<Rightarrow> u64 \<times> u64" where
  "xs_next x =
     (let x = x XOR drop_bit 12 x;
          x = x XOR push_bit 25 x;
          x = x XOR drop_bit 27 x
      in (x * 0x2545F4914F6CDD1D, x))"

lemma seed_nonzero: "seed me \<noteq> 0"
proof -
  have "bit (seed me) 0"
    by (simp add: seed_def Let_def bit_simps)
  then show ?thesis by auto
qed

lemma xor_zero_eq: "a XOR b = 0 \<Longrightarrow> a = b" for a b :: "'a :: len word"
  by (auto simp: bit_eq_iff bit_simps)

lemma xor_shift_right_nonzero:
  fixes x :: "'a :: len word"
  assumes "0 < k" and "x \<noteq> 0"
  shows "x XOR drop_bit k x \<noteq> 0"
proof
  assume "x XOR drop_bit k x = 0"
  then have "x = drop_bit k x"
    by (rule xor_zero_eq)
  then have "unat x = unat x div 2 ^ k"
    by (metis unat_drop_bit_eq drop_bit_eq_div)
  with assms show False
    by (metis div_less_dividend less_irrefl one_less_power one_less_numeral_iff semiring_norm(76) unat_gt_0)
qed

lemma xor_shift_left_nonzero:
  fixes x :: "'a :: len word"
  assumes "0 < k" and "x \<noteq> 0"
  shows "x XOR push_bit k x \<noteq> 0"
proof
  assume "x XOR push_bit k x = 0"
  then have x: "x = push_bit k x"
    by (rule xor_zero_eq)
  have "\<not> bit x n" for n
  proof (induction n rule: less_induct)
    case (less n)
    have "bit x n \<longleftrightarrow> bit (push_bit k x) n" using x by simp
    then show ?case using less assms(1) by (auto simp: bit_push_bit_iff)
  qed
  then have "x = 0" by (intro bit_eqI) simp
  with assms(2) show False by simp
qed

lemma xs_next_nonzero: "x \<noteq> 0 \<Longrightarrow> snd (xs_next x) \<noteq> 0"
  unfolding xs_next_def Let_def snd_conv
  by (intro xor_shift_right_nonzero xor_shift_left_nonzero) simp_all

text \<open>
  A worker's random state, the xorshift generator started from its seed, is never zero (zero
  would be a fixed point: the worker would pick the same victim for ever).
\<close>

lemma random_state_nonzero: "((\<lambda>x. snd (xs_next x)) ^^ rounds) (seed me) \<noteq> 0 \<and> xs_next 0 = (0, 0)"
proof -
  have "((\<lambda>x. snd (xs_next x)) ^^ rounds) (seed me) \<noteq> 0"
    by (induction rounds) (simp_all add: seed_nonzero xs_next_nonzero)
  moreover have "xs_next 0 = (0, 0)" by (simp add: xs_next_def)
  ultimately show ?thesis by simp
qed

section \<open>The sweep\<close>

fun sweep_loop :: "('q \<Rightarrow> 'a steal \<times> 'q) \<Rightarrow> usize \<Rightarrow> nat \<Rightarrow> nat list \<Rightarrow> bool \<Rightarrow> 'q list \<Rightarrow> 'a steal \<times> 'q list" where
  "sweep_loop st start me [] saw_retry victims = (if saw_retry then Steal_Retry else Steal_Empty, victims)"
| "sweep_loop st start me (i # is) saw_retry victims =
     (let victim = unat ((start + of_nat i) mod of_nat (length victims))
      in if victim = me then sweep_loop st start me is saw_retry victims
         else case st (victims ! victim) of
             (Steal_Success c, r) \<Rightarrow> (Steal_Success c, victims[victim := r])
           | (Steal_Retry, r) \<Rightarrow> sweep_loop st start me is True (victims[victim := r])
           | (Steal_Empty, r) \<Rightarrow> sweep_loop st start me is saw_retry (victims[victim := r]))"

definition sweep :: "('q \<Rightarrow> 'a steal \<times> 'q) \<Rightarrow> usize \<Rightarrow> nat \<Rightarrow> 'q list \<Rightarrow> 'a steal \<times> 'q list" where
  "sweep st start me victims = sweep_loop st start me [0..<length victims] False victims"

section \<open>The policies\<close>

definition sweep_steal_new :: "usize \<Rightarrow> usize" where
  "sweep_steal_new me = me * 0x9E3779B9 + 1"

definition sweep_steal_try :: "('q \<Rightarrow> 'a steal \<times> 'q) \<Rightarrow> usize \<Rightarrow> nat \<Rightarrow> 'q list \<Rightarrow> ('a steal \<times> 'q list) \<times> usize" where
  "sweep_steal_try st state me victims = (sweep st state me victims, state + 1)"

definition random_steal_pick :: "u64 \<Rightarrow> nat \<Rightarrow> nat \<Rightarrow> nat" where
  "random_steal_pick r me n =
     (let v = unat (r mod (of_nat n - 1)) in if v \<ge> me then v + 1 else v)"

definition random_steal_try :: "('q \<Rightarrow> 'a steal \<times> 'q) \<Rightarrow> u64 \<Rightarrow> nat \<Rightarrow> 'q list \<Rightarrow> ('a steal \<times> 'q list) \<times> u64" where
  "random_steal_try st state me victims =
     (case xs_next state of (r, state') \<Rightarrow>
        (let v = random_steal_pick r me (length victims)
         in case st (victims ! v) of (s, w) \<Rightarrow> ((s, victims[v := w]), state')))"

definition random_sweep_try :: "('q \<Rightarrow> 'a steal \<times> 'q) \<Rightarrow> u64 \<Rightarrow> nat \<Rightarrow> 'q list \<Rightarrow> ('a steal \<times> 'q list) \<times> u64" where
  "random_sweep_try st state me victims =
     (case xs_next state of (r, state') \<Rightarrow>
        (sweep st (r mod of_nat (length victims)) me victims, state'))"

section \<open>Lemmas on the sweep\<close>

text \<open>The victims the loop tries, in order.\<close>

definition sweep_order :: "usize \<Rightarrow> nat \<Rightarrow> nat \<Rightarrow> nat list \<Rightarrow> nat list" where
  "sweep_order start me n is = filter (\<lambda>v. v \<noteq> me) (map (\<lambda>i. (unat start + i) mod n) is)"

lemma sweep_index:
  assumes "i < n" and "unat start + n \<le> 2 ^ 64"
  shows "unat ((start + of_nat i) mod of_nat n :: usize) = (unat start + i) mod n"
proof -
  have i: "unat (of_nat i :: usize) = i" and n: "unat (of_nat n :: usize) = n mod 2 ^ 64"
    using assms by (simp_all add: unat_of_nat)
  have s: "unat (start + of_nat i :: usize) = unat start + i"
    using assms i by (simp add: unat_word_ariths)
  show ?thesis
  proof (cases "n < 2 ^ 64")
    case True
    with s n show ?thesis by (simp add: unat_mod_distrib)
  next
    case False
    with assms(2) have "n = 2 ^ 64" and "unat start = 0" by simp_all
    with s assms(1) show ?thesis by (simp add: unat_mod_distrib n)
  qed
qed

text \<open>A sweep as one pass over a list of victims.\<close>

fun steal_pass :: "('q \<Rightarrow> 'a steal \<times> 'q) \<Rightarrow> nat list \<Rightarrow> bool \<Rightarrow> 'q list \<Rightarrow> 'a steal \<times> 'q list" where
  "steal_pass st [] saw qs = (if saw then Steal_Retry else Steal_Empty, qs)"
| "steal_pass st (v # vs) saw qs =
     (case st (qs ! v) of
        (Steal_Success c, r) \<Rightarrow> (Steal_Success c, qs[v := r])
      | (Steal_Retry, r) \<Rightarrow> steal_pass st vs True (qs[v := r])
      | (Steal_Empty, r) \<Rightarrow> steal_pass st vs saw (qs[v := r]))"

lemma sweep_loop_pass:
  "\<forall>i \<in> set is. i < length qs \<Longrightarrow> unat start + length qs \<le> 2 ^ 64 \<Longrightarrow>
   sweep_loop st start me is saw qs = steal_pass st (sweep_order start me (length qs) is) saw qs"
proof (induction "is" arbitrary: saw qs)
  case (Cons i "is")
  have idx: "unat ((start + of_nat i) mod of_nat (length qs) :: usize) = (unat start + i) mod length qs"
    using Cons.prems by (intro sweep_index) auto
  have IH: "\<And>saw qs'. length qs' = length qs \<Longrightarrow>
      sweep_loop st start me is saw qs' = steal_pass st (sweep_order start me (length qs) is) saw qs'"
    using Cons.IH Cons.prems by auto
  show ?case
    by (auto simp: idx Let_def IH sweep_order_def simp del: of_nat_add split: steal.splits prod.splits)
qed (simp add: sweep_order_def)

lemma steal_pass_frame:
  "steal_pass st vs saw qs = (s, qs') \<Longrightarrow> u \<notin> set vs \<Longrightarrow> length qs' = length qs \<and> qs' ! u = qs ! u"
proof (induction vs arbitrary: saw qs)
  case (Cons v vs)
  obtain t r where t: "st (qs ! v) = (t, r)" by fastforce
  with Cons show ?case by (cases t) fastforce+
qed (auto split: if_splits)

lemma steal_pass_tried:
  assumes "steal_pass st vs saw qs = (s, qs')" and "distinct vs" and "set vs \<subseteq> {..<length qs}"
    and "\<nexists>c. s = Steal_Success c"
  shows "(\<forall>v \<in> set vs. qs' ! v = snd (st (qs ! v)) \<and> (s = Steal_Empty \<longrightarrow> fst (st (qs ! v)) = Steal_Empty))
    \<and> (saw \<longrightarrow> s = Steal_Retry)"
  using assms
proof (induction vs arbitrary: saw qs)
  case (Cons v vs)
  obtain t r where t: "st (qs ! v) = (t, r)" by fastforce
  with Cons.prems obtain saw' where rest: "steal_pass st vs saw' (qs[v := r]) = (s, qs')"
    and saw: "saw' \<longleftrightarrow> saw \<or> t = Steal_Retry" and nt: "t = Steal_Empty \<or> t = Steal_Retry"
    by (cases t) auto
  have IH: "(\<forall>u \<in> set vs. qs' ! u = snd (st (qs[v := r] ! u)) \<and>
      (s = Steal_Empty \<longrightarrow> fst (st (qs[v := r] ! u)) = Steal_Empty)) \<and> (saw' \<longrightarrow> s = Steal_Retry)"
    using Cons.prems by (intro Cons.IH [OF rest]) auto
  have v: "qs' ! v = r"
    using steal_pass_frame [OF rest, of v] Cons.prems by auto
  have same: "u \<in> set vs \<Longrightarrow> qs[v := r] ! u = qs ! u" for u
    using Cons.prems by (metis distinct.simps(2) nth_list_update_neq)
  show ?case using IH v same t saw nt by auto
qed (auto split: if_splits)

lemma steal_pass_success:
  "steal_pass st vs saw qs = (Steal_Success c, qs') \<Longrightarrow> distinct vs \<Longrightarrow>
   \<exists>v \<in> set vs. fst (st (qs ! v)) = Steal_Success c"
proof (induction vs arbitrary: saw qs)
  case (Cons v vs)
  obtain t r where t: "st (qs ! v) = (t, r)" by fastforce
  have same: "u \<in> set vs \<Longrightarrow> qs[v := r] ! u = qs ! u" for u
    using Cons.prems by (metis distinct.simps(2) nth_list_update_neq)
  show ?case
  proof (cases t)
    case (Steal_Success d)
    with t Cons.prems show ?thesis by auto
  next
    case Steal_Empty
    with t Cons.prems Cons.IH [of saw "qs[v := r]"] same show ?thesis by fastforce
  next
    case Steal_Retry
    with t Cons.prems Cons.IH [of True "qs[v := r]"] same show ?thesis by fastforce
  qed
qed (auto split: if_splits)

lemma sweep_order_full:
  assumes "0 < n"
  shows "distinct (sweep_order start me n [0..<n])"
    and "set (sweep_order start me n [0..<n]) = {..<n} - {me}"
proof -
  have inj: "inj_on (\<lambda>i. (unat start + i) mod n) {..<n}"
  proof (rule inj_onI)
    fix i j
    assume ij: "i \<in> {..<n}" "j \<in> {..<n}" and eq: "(unat start + i) mod n = (unat start + j) mod n"
    show "i = j"
    proof (rule ccontr)
      assume "i \<noteq> j"
      then have "n dvd (max i j - min i j)"
        using eq by (cases "i \<le> j") (auto simp: max_def min_def mod_eq_dvd_iff_nat dest: sym)
      then show False
        using ij \<open>i \<noteq> j\<close> by (auto dest!: dvd_imp_le simp: max_def min_def split: if_splits)
    qed
  qed
  have "(\<lambda>i. (unat start + i) mod n) ` {..<n} = {..<n}"
    by (rule endo_inj_surj) (use assms inj in auto)
  then show "set (sweep_order start me n [0..<n]) = {..<n} - {me}"
    by (auto simp: sweep_order_def atLeast0LessThan)
  show "distinct (sweep_order start me n [0..<n])"
    using inj by (simp add: sweep_order_def distinct_map atLeast0LessThan)
qed

text \<open>
  A sweep that does not run past the end of \<open>usize\<close> never touches its own worker's queue; when
  it finds nothing it has tried every other queue exactly once, it answers empty only if every one
  of them answered empty, and what it returns was taken from another worker's queue.
\<close>

lemma sweep_tries_everyone_else:
  assumes "unat start + length qs \<le> 2 ^ 64" and "sweep st start me qs = (s, qs')"
  shows "length qs' = length qs \<and> qs' ! me = qs ! me \<and>
    (case s of
       Steal_Success c \<Rightarrow> \<exists>v < length qs. v \<noteq> me \<and> fst (st (qs ! v)) = Steal_Success c
     | Steal_Empty \<Rightarrow> \<forall>v < length qs. v \<noteq> me \<longrightarrow> qs' ! v = snd (st (qs ! v)) \<and> fst (st (qs ! v)) = Steal_Empty
     | Steal_Retry \<Rightarrow> \<forall>v < length qs. v \<noteq> me \<longrightarrow> qs' ! v = snd (st (qs ! v)))"
proof (cases "qs = []")
  case True
  with assms show ?thesis by (auto simp: sweep_def)
next
  case False
  let ?vs = "sweep_order start me (length qs) [0..<length qs]"
  have pass: "steal_pass st ?vs False qs = (s, qs')"
    using assms by (simp add: sweep_def sweep_loop_pass)
  have vs: "distinct ?vs" "set ?vs = {..<length qs} - {me}"
    using False by (simp_all add: sweep_order_full)
  show ?thesis
    using steal_pass_frame [OF pass, of me] steal_pass_tried [OF pass] steal_pass_success [of st ?vs False qs _ qs'] pass vs
    by (auto split: steal.splits)
qed

lemma sweep_tries_everyone_else_example:
  "length [[], [5], [7 :: nat, 8]] = length [[], [5], [7, 8, 9 :: nat]] \<and> [[], [5], [7 :: nat, 8]] ! 1 = [[], [5], [7, 8, 9 :: nat]] ! 1 \<and>
   (\<exists>v < length [[], [5], [7, 8, 9 :: nat]]. v \<noteq> 1 \<and> fst (spin_try_steal ([[], [5], [7, 8, 9 :: nat]] ! v)) = Steal_Success 9)"
  using sweep_tries_everyone_else [of 3 "[[], [5], [7, 8, 9 :: nat]]" spin_try_steal 1 "Steal_Success 9" "[[], [5], [7, 8]]"]
  by (simp add: sweep_def spin_try_steal_def pop_back_def upt_rec)

lemma unat_pred:
  assumes "2 \<le> n" and "n < 2 ^ 64"
  shows "unat (of_nat n - 1 :: u64) = n - 1"
proof -
  have "of_nat n - 1 = (of_nat (n - 1) :: u64)"
    using assms(1) by (simp add: of_nat_diff)
  with assms(2) show ?thesis by (simp add: unat_of_nat)
qed

lemma random_steal_in_range:
  assumes "2 \<le> n" and "n < 2 ^ 64" and "me < n"
  shows "random_steal_pick r me n < n" and "random_steal_pick r me n \<noteq> me"
proof -
  have "unat (r mod (of_nat n - 1) :: u64) < n - 1"
    using assms(1) by (simp add: unat_mod_distrib unat_pred [OF assms(1,2)])
  with assms(3) show "random_steal_pick r me n < n" and "random_steal_pick r me n \<noteq> me"
    by (auto simp: random_steal_pick_def Let_def)
qed

text \<open>
  With at least two workers, \<open>RandomSteal\<close> picks a worker of the pool other than its own, and
  each other worker is picked for some value of the generator.
\<close>

lemma random_steal_picks_other:
  assumes "2 \<le> n" and "n < 2 ^ 64" and "me < n"
  shows "random_steal_pick r me n < n \<and> random_steal_pick r me n \<noteq> me \<and>
    (\<forall>v < n. v \<noteq> me \<longrightarrow> (\<exists>r'. random_steal_pick r' me n = v))"
proof -
  have each: "\<exists>r'. random_steal_pick r' me n = v" if v: "v < n" "v \<noteq> me" for v
  proof -
    define w where "w = (if v < me then v else v - 1)"
    have w: "w < n - 1" using v assms(3) by (auto simp: w_def)
    then have "unat (of_nat w mod (of_nat n - 1) :: u64) = w"
      using assms(2) by (simp add: unat_mod_distrib unat_pred [OF assms(1,2)] unat_of_nat)
    with v have "random_steal_pick (of_nat w) me n = v"
      by (auto simp: random_steal_pick_def w_def Let_def)
    then show ?thesis ..
  qed
  with random_steal_in_range [OF assms] show ?thesis by blast
qed

lemma random_steal_picks_other_example:
  "random_steal_pick 10 1 4 < 4 \<and> random_steal_pick 10 1 4 \<noteq> 1 \<and> (\<exists>r'. random_steal_pick r' 1 4 = 3)"
  using random_steal_picks_other [of 4 1 10] by simp

section \<open>Dispatch\<close>

text \<open>The worker's three sources of tasks, each acting on the worker's state.\<close>

record ('s, 'a) task_sources =
  src_local :: "'s \<Rightarrow> 'a option \<times> 's"
  src_steal :: "'s \<Rightarrow> 'a steal \<times> 's"
  src_external :: "'s \<Rightarrow> 'a option \<times> 's"

datatype site = Site_Loop | Site_Switch | Site_Wait

definition dispatch_search :: "('s, 'a) task_sources \<Rightarrow> 's \<Rightarrow> 'a steal \<times> 's" where
  "dispatch_search q w =
     (case src_local q w of
        (Some c, w) \<Rightarrow> (Steal_Success c, w)
      | (None, w) \<Rightarrow>
          (case src_steal q w of
             (Steal_Success c, w) \<Rightarrow> (Steal_Success c, w)
           | (r, w) \<Rightarrow>
               (case src_external q w of
                  (Some c, w) \<Rightarrow> (Steal_Success c, w)
                | (None, w) \<Rightarrow> (r, w))))"

definition dispatch_switch :: "('s, 'a) task_sources \<Rightarrow> 's \<Rightarrow> 'a steal \<times> 's" where
  "dispatch_switch q w =
     (case src_external q w of
        (Some c, w) \<Rightarrow> (Steal_Success c, w)
      | (None, w) \<Rightarrow>
          (case src_local q w of
             (Some c, w) \<Rightarrow> (Steal_Success c, w)
           | (None, w) \<Rightarrow> (Steal_Empty, w)))"

definition dispatch_next :: "('s, 'a) task_sources \<Rightarrow> site \<Rightarrow> 's \<Rightarrow> 'a steal \<times> 's" where
  "dispatch_next q s w =
     (case s of Site_Loop \<Rightarrow> dispatch_search q w | Site_Wait \<Rightarrow> dispatch_search q w
      | Site_Switch \<Rightarrow> dispatch_switch q w)"

text \<open>
  The order, whatever the sources: at a switch the steal round is never run and the external
  queue comes first; in the loop and in a wait a local task comes first, and a steal round's
  retry is reported only when the external queue had nothing either.
\<close>

lemma dispatch_switch_no_steal:
  "dispatch_next (q\<lparr>src_steal := f\<rparr>) Site_Switch w = dispatch_next q Site_Switch w"
  by (cases q) (auto simp: dispatch_next_def dispatch_switch_def split: prod.splits option.splits)

lemma dispatch_retry:
  "dispatch_next q s w = (Steal_Retry, w') \<Longrightarrow>
     s \<noteq> Site_Switch \<and> (\<exists>w1 w2. src_local q w = (None, w1) \<and> src_steal q w1 = (Steal_Retry, w2)
       \<and> src_external q w2 = (None, w'))"
  by (auto simp: dispatch_next_def dispatch_search_def dispatch_switch_def
      split: site.splits prod.splits option.splits steal.splits)

end
