(* ===== verification/Worker_Core.thy ===== *)
theory Worker_Core
  imports External_Queue Steal_Policy
begin

text \<open>
  A pool's queues and what one worker does with them (\<open>resumable/common/worker_core.rs\<close>): pushing
  and deferring, a steal round, the dispatch of the next task over the worker's three sources, and
  the loop.  The run queue implementation is a parameter here (an \<open>rq_ops\<close>): any implementation
  that meets the contract \<open>run_queue\<close>.
\<close>

section \<open>The pool and a worker's operations\<close>

record ('q, 'a) rq_ops =
  rq_push :: "'a \<Rightarrow> 'q \<Rightarrow> 'q"
  rq_defer :: "'a \<Rightarrow> 'q \<Rightarrow> 'q"
  rq_pop :: "'q \<Rightarrow> 'a option \<times> 'q"
  rq_steal :: "'q \<Rightarrow> 'a steal \<times> 'q"

text \<open>
  Worker \<open>i\<close>'s deque is entry \<open>i\<close> of \<open>pl_deques\<close>, which is also the table of stealers;
  \<open>pl_steal\<close> holds the workers' steal policy states; \<open>pl_new_work\<close> counts the calls of the idle
  policy's \<open>new_work\<close>.
\<close>

record ('q, 'a) pool =
  pl_deques :: "'q list"
  pl_steal :: "u64 list"
  pl_external :: "'a steal_path"
  pl_new_work :: nat
  pl_finished :: bool

type_synonym ('q, 'a) steal_policy = "u64 \<Rightarrow> nat \<Rightarrow> 'q list \<Rightarrow> ('a steal \<times> 'q list) \<times> u64"

definition worker_push :: "('q, 'a) rq_ops \<Rightarrow> nat \<Rightarrow> 'a \<Rightarrow> ('q, 'a) pool \<Rightarrow> ('q, 'a) pool" where
  "worker_push rq me c p =
     p\<lparr>pl_deques := (pl_deques p)[me := rq_push rq c (pl_deques p ! me)], pl_new_work := pl_new_work p + 1\<rparr>"

definition worker_defer :: "('q, 'a) rq_ops \<Rightarrow> nat \<Rightarrow> 'a \<Rightarrow> ('q, 'a) pool \<Rightarrow> ('q, 'a) pool" where
  "worker_defer rq me c p =
     p\<lparr>pl_deques := (pl_deques p)[me := rq_defer rq c (pl_deques p ! me)], pl_new_work := pl_new_work p + 1\<rparr>"

definition worker_try_pop :: "('q, 'a) rq_ops \<Rightarrow> nat \<Rightarrow> ('q, 'a) pool \<Rightarrow> 'a option \<times> ('q, 'a) pool" where
  "worker_try_pop rq me p =
     (case rq_pop rq (pl_deques p ! me) of (r, d) \<Rightarrow> (r, p\<lparr>pl_deques := (pl_deques p)[me := d]\<rparr>))"

definition worker_try_steal :: "('q, 'a) steal_policy \<Rightarrow> nat \<Rightarrow> ('q, 'a) pool \<Rightarrow> 'a steal \<times> ('q, 'a) pool" where
  "worker_try_steal pol me p =
     (if length (pl_deques p) \<le> 1 then (Steal_Empty, p)
      else case pol (pl_steal p ! me) me (pl_deques p) of
        ((s, ds), st) \<Rightarrow> (s, p\<lparr>pl_deques := ds, pl_steal := (pl_steal p)[me := st]\<rparr>))"

definition pool_external :: "('q, 'a) pool \<Rightarrow> 'a option \<times> ('q, 'a) pool" where
  "pool_external p = (case steal_path_try_pop (pl_external p) of (r, e) \<Rightarrow> (r, p\<lparr>pl_external := e\<rparr>))"

text \<open>\<open>external\<close> is \<open>pool_external\<close> for a pool of descriptors, \<open>no_external\<close> for any other.\<close>

definition no_external :: "('q, 'a) pool \<Rightarrow> 'a option \<times> ('q, 'a) pool" where
  "no_external p = (None, p)"

definition worker_sources :: "('q, 'a) rq_ops \<Rightarrow> ('q, 'a) steal_policy \<Rightarrow>
    (('q, 'a) pool \<Rightarrow> 'a option \<times> ('q, 'a) pool) \<Rightarrow> nat \<Rightarrow> (('q, 'a) pool, 'a) task_sources" where
  "worker_sources rq pol external me =
     \<lparr>src_local = worker_try_pop rq me, src_steal = worker_try_steal pol me, src_external = external\<rparr>"

definition next_task :: "('q, 'a) rq_ops \<Rightarrow> ('q, 'a) steal_policy \<Rightarrow>
    (('q, 'a) pool \<Rightarrow> 'a option \<times> ('q, 'a) pool) \<Rightarrow> nat \<Rightarrow> site \<Rightarrow> ('q, 'a) pool \<Rightarrow> 'a steal \<times> ('q, 'a) pool" where
  "next_task rq pol external me site p = dispatch_next (worker_sources rq pol external me) site p"

definition try_run_one :: "('q, 'a) rq_ops \<Rightarrow> ('q, 'a) steal_policy \<Rightarrow> ('a \<Rightarrow> ('q, 'a) pool \<Rightarrow> ('q, 'a) pool)
    \<Rightarrow> nat \<Rightarrow> ('q, 'a) pool \<Rightarrow> bool \<times> ('q, 'a) pool" where
  "try_run_one rq pol run me p =
     (case next_task rq pol no_external me Site_Wait p of
        (Steal_Success c, p') \<Rightarrow> (True, run c p')
      | (_, p') \<Rightarrow> (False, p'))"

text \<open>A waiting task's empty round: the counter, and whether the duties are run now.\<close>

definition wait_round :: "u32 \<Rightarrow> u32 \<times> bool" where
  "wait_round rounds = (let r = rounds + 1 in (r, r AND 0x3F = 0))"

section \<open>The loop\<close>

text \<open>
  The idle policy's two entry points act on the worker's episode and the pool; \<open>run\<close> runs a task;
  each entry of \<open>env\<close> is what the other workers did to the pool before a round.  The result:
  the tasks run, in order, the episode, the pool, and whether the loop has ended.
\<close>

record ('e, 'p) idle_ops =
  idle_found :: "'e \<Rightarrow> 'p \<Rightarrow> 'e \<times> 'p"
  idle_none :: "bool \<Rightarrow> 'e \<Rightarrow> 'p \<Rightarrow> 'e \<times> 'p"

fun idle_loop :: "('q, 'a) rq_ops \<Rightarrow> ('q, 'a) steal_policy \<Rightarrow> (('q, 'a) pool \<Rightarrow> 'a option \<times> ('q, 'a) pool)
    \<Rightarrow> ('a \<Rightarrow> ('q, 'a) pool \<Rightarrow> ('q, 'a) pool) \<Rightarrow> ('e, ('q, 'a) pool) idle_ops \<Rightarrow> nat
    \<Rightarrow> (('q, 'a) pool \<Rightarrow> ('q, 'a) pool) list \<Rightarrow> 'e \<Rightarrow> ('q, 'a) pool \<Rightarrow> 'a list \<times> 'e \<times> ('q, 'a) pool \<times> bool" where
  "idle_loop rq pol external run idle me [] ep p = ([], ep, p, False)"
| "idle_loop rq pol external run idle me (others # env) ep p =
     (let p = others p
      in if pl_finished p then ([], ep, p, True)
         else case next_task rq pol external me Site_Loop p of
             (Steal_Success c, p1) \<Rightarrow>
               (case idle_found idle ep p1 of
                  (ep', p2) \<Rightarrow>
                    (case idle_loop rq pol external run idle me env ep' (run c p2) of
                       (cs, rest) \<Rightarrow> (c # cs, rest)))
           | (s, p1) \<Rightarrow>
               (case idle_none idle (s = Steal_Retry) ep p1 of
                  (ep', p2) \<Rightarrow> idle_loop rq pol external run idle me env ep' p2))"

section \<open>No task is lost or run twice\<close>

definition deques_items :: "('q \<Rightarrow> 'a multiset) \<Rightarrow> 'q list \<Rightarrow> 'a multiset" where
  "deques_items items qs = sum_list (map items qs)"

definition pool_items :: "('q \<Rightarrow> 'a multiset) \<Rightarrow> ('q, 'a) pool \<Rightarrow> 'a multiset" where
  "pool_items items p = deques_items items (pl_deques p) + mset (sp_inner (pl_external p))"

definition pool_ok :: "('q \<Rightarrow> bool) \<Rightarrow> ('q, 'a) pool \<Rightarrow> bool" where
  "pool_ok ok p \<longleftrightarrow> (\<forall>q \<in> set (pl_deques p). ok q) \<and> steal_path_ok (pl_external p)"

definition taken :: "'a steal \<Rightarrow> 'a multiset" where
  "taken s = (case s of Steal_Success v \<Rightarrow> {#v#} | _ \<Rightarrow> {#})"

lemma taken_simps [simp]:
  "taken (Steal_Success v) = {#v#}" "taken Steal_Empty = {#}" "taken Steal_Retry = {#}"
  by (simp_all add: taken_def)

lemma deques_items_update:
  "v < length qs \<Longrightarrow> items (qs ! v) = items r + d \<Longrightarrow>
   deques_items items qs = deques_items items (qs[v := r]) + d"
proof (induction qs arbitrary: v)
  case (Cons q qs)
  then show ?case by (cases v) (auto simp: deques_items_def ac_simps)
qed (simp add: deques_items_def)

text \<open>What the dispatch needs of a steal policy.\<close>

definition policy_conserves :: "('q \<Rightarrow> 'a multiset) \<Rightarrow> ('q \<Rightarrow> bool) \<Rightarrow> ('q, 'a) steal_policy \<Rightarrow> bool" where
  "policy_conserves items ok pol \<longleftrightarrow>
     (\<forall>st me qs s qs' st'. (\<forall>q \<in> set qs. ok q) \<and> 2 \<le> length qs \<and> length qs < 2 ^ 64 \<and> me < length qs
        \<and> pol st me qs = ((s, qs'), st') \<longrightarrow>
        (\<forall>q \<in> set qs'. ok q) \<and> length qs' = length qs \<and> deques_items items qs = deques_items items qs' + taken s)"

context run_queue
begin

lemma steal_one:
  assumes "\<forall>q \<in> set qs. ok q" and "v < length qs" and "try_steal (qs ! v) = (s, r)"
  shows "(\<forall>q \<in> set (qs[v := r]). ok q) \<and> deques_items items qs = deques_items items (qs[v := r]) + taken s"
proof -
  have "ok (qs ! v)" using assms(1,2) by simp
  from steal_ok [OF this assms(3)] show ?thesis
    using assms(1,2) by (auto simp: taken_def intro!: deques_items_update dest!: set_update_subset_insert [THEN subsetD])
qed

lemma sweep_conserves:
  assumes "\<forall>q \<in> set qs. ok q" and "sweep_loop try_steal start me is saw qs = (s, qs')" and "qs \<noteq> []" and "length qs < 2 ^ 64"
  shows "(\<forall>q \<in> set qs'. ok q) \<and> length qs' = length qs \<and> deques_items items qs = deques_items items qs' + taken s"
  using assms
proof (induction "is" arbitrary: saw qs)
  case (Cons i "is")
  let ?v = "unat ((start + of_nat i) mod of_nat (length qs) :: usize)"
  show ?case
  proof (cases "?v = me")
    case True
    with Cons show ?thesis by (simp add: Let_def)
  next
    case False
    have "unat (of_nat (length qs) :: usize) = length qs"
      using Cons.prems(4) by (simp add: unat_of_nat)
    then have v: "?v < length qs"
      using Cons.prems(3) by (simp add: unat_mod_distrib)
    obtain t r where t: "try_steal (qs ! ?v) = (t, r)" by fastforce
    note one = steal_one [OF Cons.prems(1) v t]
    show ?thesis
    proof (cases t)
      case (Steal_Success c)
      with one t False Cons.prems(2) show ?thesis by (auto simp: Let_def)
    next
      case Steal_Empty
      with t False Cons.prems(2) have "sweep_loop try_steal start me is saw (qs[?v := r]) = (s, qs')"
        by (simp add: Let_def)
      from Cons.IH [OF _ this] one Steal_Empty Cons.prems(3,4) show ?thesis by simp
    next
      case Steal_Retry
      with t False Cons.prems(2) have "sweep_loop try_steal start me is True (qs[?v := r]) = (s, qs')"
        by (simp add: Let_def)
      from Cons.IH [OF _ this] one Steal_Retry Cons.prems(3,4) show ?thesis by simp
    qed
  qed
qed (auto split: if_splits)

lemma sweep_steal_conserves: "policy_conserves items ok (sweep_steal_try try_steal)"
  unfolding policy_conserves_def sweep_steal_try_def sweep_def
  using sweep_conserves by (metis Pair_inject le_zero_eq list.size(3) nat.simps(3) numeral_2_eq_2)

lemma random_sweep_conserves: "policy_conserves items ok (random_sweep_try try_steal)"
  unfolding policy_conserves_def random_sweep_try_def sweep_def
  using sweep_conserves
  by (auto split: prod.splits) (metis le_zero_eq list.size(3) nat.simps(3) numeral_2_eq_2)+

lemma random_steal_conserves: "policy_conserves items ok (random_steal_try try_steal)"
  unfolding policy_conserves_def
proof (intro allI impI)
  fix st me qs s qs' st'
  assume a: "(\<forall>q \<in> set qs. ok q) \<and> 2 \<le> length qs \<and> length qs < 2 ^ 64 \<and> me < length qs
    \<and> random_steal_try try_steal st me qs = ((s, qs'), st')"
  obtain r st2 where r: "xs_next st = (r, st2)" by fastforce
  let ?v = "random_steal_pick r me (length qs)"
  have v: "?v < length qs"
    using random_steal_in_range [of "length qs" me r] a by simp
  obtain t w where t: "try_steal (qs ! ?v) = (t, w)" by fastforce
  with a r show "(\<forall>q \<in> set qs'. ok q) \<and> length qs' = length qs \<and> deques_items items qs = deques_items items qs' + taken s"
    using steal_one [OF _ v t] by (auto simp: random_steal_try_def Let_def)
qed

lemma deque_grows:
  assumes "pool_ok ok p" and "me < length (pl_deques p)" and "ok q" and "items q = add_mset v (items (pl_deques p ! me))"
    and "p' = p\<lparr>pl_deques := (pl_deques p)[me := q], pl_new_work := k\<rparr>"
  shows "pool_ok ok p' \<and> length (pl_deques p') = length (pl_deques p) \<and>
    pool_items items p' = add_mset v (pool_items items p)"
proof -
  have "deques_items items ((pl_deques p)[me := q]) = deques_items items (pl_deques p) + {#v#}"
    using deques_items_update [of me "(pl_deques p)[me := q]" items "pl_deques p ! me" "{#v#}"] assms(2,4) by simp
  moreover have "\<forall>r \<in> set ((pl_deques p)[me := q]). ok r"
    using assms(1,3) set_update_subset_insert [of "pl_deques p" me q] by (auto simp: pool_ok_def)
  ultimately show ?thesis using assms(1,5) by (simp add: pool_ok_def pool_items_def)
qed

lemma worker_push_conserves:
  assumes "pool_ok ok p" and "me < length (pl_deques p)" and "rq_push rq = push"
  shows "pool_ok ok (worker_push rq me v p) \<and> length (pl_deques (worker_push rq me v p)) = length (pl_deques p) \<and>
    pool_items items (worker_push rq me v p) = add_mset v (pool_items items p)"
proof -
  have "ok (pl_deques p ! me)" using assms(1,2) by (simp add: pool_ok_def)
  from push_ok [OF this, of v] show ?thesis
    using deque_grows [OF assms(1,2), of "push v (pl_deques p ! me)" v] assms(3) by (simp add: worker_push_def)
qed

lemma worker_defer_conserves:
  assumes "pool_ok ok p" and "me < length (pl_deques p)" and "rq_defer rq = put_off"
  shows "pool_ok ok (worker_defer rq me v p) \<and> length (pl_deques (worker_defer rq me v p)) = length (pl_deques p) \<and>
    pool_items items (worker_defer rq me v p) = add_mset v (pool_items items p)"
proof -
  have "ok (pl_deques p ! me)" using assms(1,2) by (simp add: pool_ok_def)
  from defer_ok [OF this, of v] show ?thesis
    using deque_grows [OF assms(1,2), of "put_off v (pl_deques p ! me)" v] assms(3) by (simp add: worker_defer_def)
qed

lemma try_pop_conserves:
  assumes "pool_ok ok p" and "me < length (pl_deques p)" and "rq_pop rq = try_pop"
    and "worker_try_pop rq me p = (r, p')"
  shows "pool_ok ok p' \<and> length (pl_deques p') = length (pl_deques p) \<and> pl_external p' = pl_external p
    \<and> pool_items items p = pool_items items p' + taken (opt_to_steal r)
    \<and> (r = None \<longrightarrow> items (pl_deques p ! me) = {#})"
proof -
  obtain d where d: "try_pop (pl_deques p ! me) = (r, d)"
    and p': "p' = p\<lparr>pl_deques := (pl_deques p)[me := d]\<rparr>"
    using assms(3,4) by (auto simp: worker_try_pop_def split: prod.splits)
  have "ok (pl_deques p ! me)" using assms(1,2) by (simp add: pool_ok_def)
  note law = pop_ok [OF this d]
  have m: "items (pl_deques p ! me) = items d + taken (opt_to_steal r)"
    using law by (cases r) (simp_all add: opt_to_steal_def)
  show ?thesis
    using assms(1,2) law p' deques_items_update [OF assms(2) m]
    by (auto simp: pool_ok_def pool_items_def ac_simps dest!: set_update_subset_insert [THEN subsetD])
qed

lemma try_steal_conserves:
  assumes "pool_ok ok p" and "me < length (pl_deques p)" and "length (pl_deques p) < 2 ^ 64"
    and "policy_conserves items ok pol" and "worker_try_steal pol me p = (s, p')"
  shows "pool_ok ok p' \<and> length (pl_deques p') = length (pl_deques p) \<and> pl_external p' = pl_external p
    \<and> pool_items items p = pool_items items p' + taken s"
proof (cases "length (pl_deques p) \<le> 1")
  case True
  with assms show ?thesis by (auto simp: worker_try_steal_def)
next
  case False
  then obtain ds st where pol: "pol (pl_steal p ! me) me (pl_deques p) = ((s, ds), st)"
    and p': "p' = p\<lparr>pl_deques := ds, pl_steal := (pl_steal p)[me := st]\<rparr>"
    using assms(5) by (auto simp: worker_try_steal_def split: prod.splits if_splits)
  have "(\<forall>q \<in> set ds. ok q) \<and> length ds = length (pl_deques p)
      \<and> deques_items items (pl_deques p) = deques_items items ds + taken s"
    using assms(4) [unfolded policy_conserves_def, rule_format, of "pl_deques p" me "pl_steal p ! me" s ds st]
      assms(1,2,3) False pol by (simp add: pool_ok_def)
  with assms(1) p' show ?thesis
    by (simp add: pool_ok_def pool_items_def ac_simps)
qed

lemma external_conserves:
  assumes "pool_ok ok p" and "external = pool_external \<or> external = no_external" and "external p = (r, p')"
  shows "pool_ok ok p' \<and> pl_deques p' = pl_deques p
    \<and> pool_items items p = pool_items items p' + taken (opt_to_steal r)
    \<and> (external = pool_external \<and> r = None \<longrightarrow> sp_inner (pl_external p) = [])"
proof (cases "external = pool_external")
  case True
  with assms(3) obtain e where e: "steal_path_try_pop (pl_external p) = (r, e)"
    and p': "p' = p\<lparr>pl_external := e\<rparr>"
    by (auto simp: pool_external_def split: prod.splits)
  from assms(1) have "steal_path_ok (pl_external p)" by (simp add: pool_ok_def)
  from steal_path_try_pop_ok [OF this e] assms(1) p' show ?thesis
    by (cases r) (auto simp: pool_ok_def pool_items_def pop_simps opt_to_steal_def)
next
  case False
  with assms show ?thesis
    by (auto simp: no_external_def opt_to_steal_def)
qed

lemma next_conserves:
  assumes p: "pool_ok ok p" "me < length (pl_deques p)" "length (pl_deques p) < 2 ^ 64"
    and pol: "policy_conserves items ok pol" and rq: "rq_pop rq = try_pop"
    and ext: "external = pool_external \<or> external = no_external"
    and nx: "next_task rq pol external me site p = (s, p')"
  shows "pool_ok ok p' \<and> length (pl_deques p') = length (pl_deques p)
    \<and> pool_items items p = pool_items items p' + taken s
    \<and> (s = Steal_Empty \<longrightarrow> items (pl_deques p ! me) = {#} \<and> (external = pool_external \<longrightarrow> sp_inner (pl_external p) = []))"
proof (cases "site = Site_Switch")
  case True
  obtain r1 p1 where e: "external p = (r1, p1)" by fastforce
  note E = external_conserves [OF p(1) ext e]
  obtain r2 p2 where l: "worker_try_pop rq me p1 = (r2, p2)" by fastforce
  note L = try_pop_conserves [OF _ _ rq l]
  show ?thesis
    using True nx E L p(2) e l
    by (auto simp: next_task_def dispatch_next_def dispatch_switch_def worker_sources_def opt_to_steal_def
        split: option.splits)
next
  case False
  obtain r1 p1 where l: "worker_try_pop rq me p = (r1, p1)" by fastforce
  note L = try_pop_conserves [OF p(1,2) rq l]
  obtain s2 p2 where st: "worker_try_steal pol me p1 = (s2, p2)" by fastforce
  note S = try_steal_conserves [OF _ _ _ pol st]
  obtain r3 p3 where e: "external p2 = (r3, p3)" by fastforce
  note E = external_conserves [OF _ ext e]
  have n: "next_task rq pol external me site p = dispatch_search (worker_sources rq pol external me) p"
    using False by (cases site) (simp_all add: next_task_def dispatch_next_def)
  show ?thesis
  proof (cases r1)
    case (Some v)
    with n nx l L show ?thesis
      by (auto simp: dispatch_search_def worker_sources_def opt_to_steal_def)
  next
    case None
    have P1: "pool_ok ok p1" "me < length (pl_deques p1)" "length (pl_deques p1) < 2 ^ 64"
      using L p by simp_all
    note S = S [OF P1]
    then have P2: "pool_ok ok p2" by simp
    note E = E [OF P2]
    show ?thesis
      using n nx l st e None L S E
      by (cases s2; cases r3; auto simp: dispatch_search_def worker_sources_def opt_to_steal_def)
  qed
qed

end

section \<open>The properties\<close>

definition hybrid_ops :: "('w, 'a) chase_lev \<Rightarrow> (('w, 'a) hybrid, 'a) rq_ops" where
  "hybrid_ops cl = \<lparr>rq_push = hybrid_push cl, rq_defer = hybrid_defer, rq_pop = hybrid_try_pop cl,
     rq_steal = hybrid_try_steal cl\<rparr>"

definition standard_policies :: "('q \<Rightarrow> 'a steal \<times> 'q) \<Rightarrow> ('q, 'a) steal_policy set" where
  "standard_policies st = {sweep_steal_try st, random_steal_try st, random_sweep_try st}"

text \<open>
  C9: one dispatch of a worker of a pool of \<open>HybridRunQueue\<close>s, at any site, under any of the
  three steal policies and with or without an external queue: the task returned is taken out of the
  pool exactly once and every other task stays, and the answer is empty only if the worker's own
  queue and the external queue hold no task.
\<close>

theorem next_task_conserves:
  assumes "chase_lev_ok cl contents" and "pool_ok hybrid_ok p"
    and "me < length (pl_deques p)" and "length (pl_deques p) < 2 ^ 64"
    and "pol \<in> standard_policies (hybrid_try_steal cl)"
    and "external = pool_external \<or> external = no_external"
    and "next_task (hybrid_ops cl) pol external me site p = (s, p')"
  shows "pool_items (hybrid_items contents) p = pool_items (hybrid_items contents) p' + taken s \<and>
    (s = Steal_Empty \<longrightarrow> hybrid_items contents (pl_deques p ! me) = {#} \<and>
       (external = pool_external \<longrightarrow> sp_inner (pl_external p) = []))"
proof -
  note hq = hybrid_run_queue [OF assms(1)]
  have "policy_conserves (hybrid_items contents) hybrid_ok pol"
    using assms(5) run_queue.sweep_steal_conserves [OF hq] run_queue.random_steal_conserves [OF hq]
      run_queue.random_sweep_conserves [OF hq]
    by (auto simp: standard_policies_def)
  from run_queue.next_conserves [OF hq assms(2-4) this _ assms(6,7)] show ?thesis
    by (simp add: hybrid_ops_def)
qed

definition example_pool :: "((nat list, nat) hybrid, nat) pool" where
  "example_pool =
     \<lparr>pl_deques = [\<lparr>h_main = [], h_deferred = deferred_new\<rparr>, \<lparr>h_main = [4, 5], h_deferred = deferred_new\<rparr>],
      pl_steal = [0, 0], pl_external = steal_path_default, pl_new_work = 0, pl_finished = False\<rparr>"

theorem next_task_conserves_witness:
  "\<exists>p'. next_task (hybrid_ops list_chase_lev) (sweep_steal_try (hybrid_try_steal list_chase_lev)) pool_external 0
      Site_Loop example_pool = (Steal_Success 4, p') \<and>
    pool_items (hybrid_items id) example_pool = pool_items (hybrid_items id) p' + {#4#}"
proof -
  let ?n = "next_task (hybrid_ops list_chase_lev) (sweep_steal_try (hybrid_try_steal list_chase_lev)) pool_external 0
      Site_Loop example_pool"
  have s: "fst ?n = Steal_Success 4"
    by (simp add: next_task_def dispatch_next_def dispatch_search_def worker_sources_def worker_try_pop_def
        worker_try_steal_def example_pool_def hybrid_ops_def hybrid_try_pop_def hybrid_try_steal_def
        list_chase_lev_def deferred_try_take_def deferred_new_def sweep_steal_try_def sweep_def upt_rec
        opt_to_steal_def)
  have "pool_items (hybrid_items id) example_pool = pool_items (hybrid_items id) (snd ?n) + taken (fst ?n)"
    by (rule next_task_conserves [OF list_chase_lev_ok _ _ _ _ disjI1 [OF refl], THEN conjunct1])
      (simp_all add: example_pool_def pool_ok_def hybrid_ok_def steal_path_ok_def steal_path_default_def
        standard_policies_def)
  with s have "?n = (Steal_Success 4, snd ?n) \<and>
      pool_items (hybrid_items id) example_pool = pool_items (hybrid_items id) (snd ?n) + {#4#}"
    by (metis prod.collapse taken_simps(1))
  then show ?thesis by blast
qed

end
