(* ===== verification/Idle_Protocol.thy ===== *)
theory Idle_Protocol
  imports Cmpth_Prelude
begin

text \<open>
  The sleep protocol of the parking idle policies (\<open>resumable/common/idle.rs\<close>: \<open>ParkIdle\<close> with
  \<open>FutexWait\<close>, and \<open>SearchIdle\<close> on top of it), step by step: any number of workers look for work
  in the pool's queues, register, look once more and sleep; any number of producers publish work
  and run \<open>new_work\<close>; one thread finishes the pool.  Every access to an atomic is a step of its
  own; the fences make the accesses sequentially consistent.
\<close>

section \<open>The machine\<close>

datatype worker_pc =
    W_Run                 \<comment> \<open>running a task\<close>
  | W_Look "nat set"      \<comment> \<open>looking for work, neither registered nor a searcher; the queues it found empty in this round\<close>
  | W_Tried bool usize    \<comment> \<open>\<open>try_search\<close>: counted in \<open>searching\<close>, which was that; whether it parks if the cap says no\<close>
  | W_Spin "nat set"      \<comment> \<open>a searcher, with the queues it found empty in this round\<close>
  | W_Unspin bool         \<comment> \<open>about to leave \<open>searching\<close>, then to park or to look again\<close>
  | W_Reg                 \<comment> \<open>about to register in \<open>sleepers\<close>\<close>
  | W_Snap                \<comment> \<open>registered, about to read \<open>epoch\<close>\<close>
  | W_Last "nat set" u32  \<comment> \<open>the last search, with the queues it found empty and the ticket\<close>
  | W_Wait u32            \<comment> \<open>in \<open>wait\<close>, before its look at \<open>epoch\<close>\<close>
  | W_Checked u32         \<comment> \<open>in \<open>wait\<close>, before its look at \<open>finished\<close>\<close>
  | W_Commit u32          \<comment> \<open>in \<open>wait\<close>, before the kernel's compare\<close>
  | W_Asleep
  | W_Unreg               \<comment> \<open>about to leave \<open>sleepers\<close>\<close>
  | W_Found               \<comment> \<open>found a task while registered\<close>
  | W_Spin_Found          \<comment> \<open>found a task as a searcher\<close>
  | W_Last_Searcher       \<comment> \<open>was the last searcher: about to read \<open>sleepers\<close>\<close>
  | W_Bump                \<comment> \<open>about to bump \<open>epoch\<close>\<close>
  | W_Wake                \<comment> \<open>about to wake a sleeper\<close>

datatype producer_pc =
    P_Idle
  | P_Published           \<comment> \<open>published work; before reading \<open>searching\<close>\<close>
  | P_Checked             \<comment> \<open>no searcher; before reading \<open>sleepers\<close>\<close>
  | P_Bump
  | P_Wake

datatype finisher_pc = F_None | F_Stored | F_Bumped | F_Done

record idle_state =
  is_work :: "nat \<Rightarrow> nat"            \<comment> \<open>how many tasks each queue holds\<close>
  is_sleepers :: usize
  is_searching :: usize
  is_epoch :: u32
  is_bumps :: nat                    \<comment> \<open>how often \<open>epoch\<close> was bumped (for the proofs)\<close>
  is_snap :: "nat \<Rightarrow> nat"            \<comment> \<open>\<open>is_bumps\<close> when that worker read its ticket (for the proofs)\<close>
  is_finished :: bool
  is_worker :: "nat \<Rightarrow> worker_pc"
  is_producer :: "nat \<Rightarrow> producer_pc"
  is_finisher :: finisher_pc

abbreviation wgoto :: "nat \<Rightarrow> worker_pc \<Rightarrow> idle_state \<Rightarrow> idle_state" where
  "wgoto w pc s \<equiv> s\<lparr>is_worker := (is_worker s)(w := pc)\<rparr>"

abbreviation pgoto :: "nat \<Rightarrow> producer_pc \<Rightarrow> idle_state \<Rightarrow> idle_state" where
  "pgoto p pc s \<equiv> s\<lparr>is_producer := (is_producer s)(p := pc)\<rparr>"

abbreviation take_work :: "nat \<Rightarrow> idle_state \<Rightarrow> idle_state" where
  "take_work k s \<equiv> s\<lparr>is_work := (is_work s)(k := is_work s k - 1)\<rparr>"

definition bump_epoch :: "idle_state \<Rightarrow> idle_state" where
  "bump_epoch s = s\<lparr>is_epoch := is_epoch s + 1, is_bumps := is_bumps s + 1\<rparr>"

definition wake_all_sleepers :: "idle_state \<Rightarrow> idle_state" where
  "wake_all_sleepers s =
     s\<lparr>is_worker := (\<lambda>w. if is_worker s w = W_Asleep then W_Unreg else is_worker s w)\<rparr>"

definition idle_start :: "idle_state" where
  "idle_start = \<lparr>is_work = (\<lambda>_. 0), is_sleepers = 0, is_searching = 0, is_epoch = 0, is_bumps = 0, is_snap = (\<lambda>_. 0),
     is_finished = False, is_worker = (\<lambda>_. W_Look {}), is_producer = (\<lambda>_. P_Idle), is_finisher = F_None\<rparr>"

text \<open>
  The policy: \<open>ParkIdle\<close>, or \<open>SearchIdle\<close> with its cap (\<open>SearchCap::cap\<close>, of the workers, the parked and the
  searchers).
\<close>

datatype idle_policy = Park_Idle | Search_Idle "usize \<Rightarrow> usize \<Rightarrow> usize \<Rightarrow> usize"

text \<open>
  \<open>n\<close> is the number of workers, \<open>nq\<close> the number of queues (deques and external queue) a full search looks at, each worker
  in any order.  A round that is broken off stands for one that saw a victim it could not rob, or
  a waiting poll hook: \<open>retry\<close>.
\<close>

abbreviation full_round :: "nat \<Rightarrow> nat set \<Rightarrow> bool" where
  "full_round nq seen \<equiv> {..<nq} \<subseteq> seen"

inductive idle_step :: "idle_policy \<Rightarrow> nat \<Rightarrow> nat \<Rightarrow> idle_state \<Rightarrow> idle_state \<Rightarrow> bool"
  for policy :: idle_policy and n nq :: nat where
  run_end: "w < n \<Longrightarrow> is_worker s w = W_Run \<Longrightarrow> idle_step policy n nq s (wgoto w (W_Look {}) s)"
| look_next: "w < n \<Longrightarrow> is_worker s w = W_Look D \<Longrightarrow> k < nq \<Longrightarrow> is_work s k = 0 \<Longrightarrow>
    idle_step policy n nq s (wgoto w (W_Look (insert k D)) s)"
| look_take: "w < n \<Longrightarrow> is_worker s w = W_Look D \<Longrightarrow> k < nq \<Longrightarrow> is_work s k > 0 \<Longrightarrow>
    idle_step policy n nq s (wgoto w W_Run (take_work k s))"
| look_again: "w < n \<Longrightarrow> is_worker s w = W_Look D \<Longrightarrow> policy = Park_Idle \<Longrightarrow>
    idle_step policy n nq s (wgoto w (W_Look {}) s)"
| park: "w < n \<Longrightarrow> is_worker s w = W_Look D \<Longrightarrow> full_round nq D \<Longrightarrow> policy = Park_Idle \<Longrightarrow>
    idle_step policy n nq s (wgoto w W_Reg s)"
| try_search: "w < n \<Longrightarrow> is_worker s w = W_Look D \<Longrightarrow> policy = Search_Idle cap \<Longrightarrow> parks \<longrightarrow> full_round nq D \<Longrightarrow>
    idle_step policy n nq s (wgoto w (W_Tried parks (is_searching s)) (s\<lparr>is_searching := is_searching s + 1\<rparr>))"
| try_cap: "w < n \<Longrightarrow> is_worker s w = W_Tried parks m \<Longrightarrow> policy = Search_Idle cap \<Longrightarrow>
    idle_step policy n nq s
      (wgoto w (if m < cap (of_nat n) (is_sleepers s) m then W_Spin {} else W_Unspin parks) s)"
| spin_next: "w < n \<Longrightarrow> is_worker s w = W_Spin D \<Longrightarrow> k < nq \<Longrightarrow> is_work s k = 0 \<Longrightarrow>
    idle_step policy n nq s (wgoto w (W_Spin (insert k D)) s)"
| spin_take: "w < n \<Longrightarrow> is_worker s w = W_Spin D \<Longrightarrow> k < nq \<Longrightarrow> is_work s k > 0 \<Longrightarrow>
    idle_step policy n nq s (wgoto w W_Spin_Found (take_work k s))"
| spin_again: "w < n \<Longrightarrow> is_worker s w = W_Spin D \<Longrightarrow> idle_step policy n nq s (wgoto w (W_Spin {}) s)"
| spin_stop: "w < n \<Longrightarrow> is_worker s w = W_Spin D \<Longrightarrow> full_round nq D \<Longrightarrow>
    idle_step policy n nq s (wgoto w (W_Unspin True) s)"
| unspin: "w < n \<Longrightarrow> is_worker s w = W_Unspin parks \<Longrightarrow>
    idle_step policy n nq s
      (wgoto w (if parks then W_Reg else W_Look {}) (s\<lparr>is_searching := is_searching s - 1\<rparr>))"
| register: "w < n \<Longrightarrow> is_worker s w = W_Reg \<Longrightarrow>
    idle_step policy n nq s (wgoto w W_Snap (s\<lparr>is_sleepers := is_sleepers s + 1\<rparr>))"
| snapshot: "w < n \<Longrightarrow> is_worker s w = W_Snap \<Longrightarrow>
    idle_step policy n nq s
      (wgoto w (W_Last {} (is_epoch s)) (s\<lparr>is_snap := (is_snap s)(w := is_bumps s)\<rparr>))"
| last_next: "w < n \<Longrightarrow> is_worker s w = W_Last D seen \<Longrightarrow> k < nq \<Longrightarrow> is_work s k = 0 \<Longrightarrow>
    idle_step policy n nq s (wgoto w (W_Last (insert k D) seen) s)"
| last_take: "w < n \<Longrightarrow> is_worker s w = W_Last D seen \<Longrightarrow> k < nq \<Longrightarrow> is_work s k > 0 \<Longrightarrow>
    idle_step policy n nq s (wgoto w W_Found (take_work k s))"
| last_again: "w < n \<Longrightarrow> is_worker s w = W_Last D seen \<Longrightarrow> idle_step policy n nq s (wgoto w (W_Last {} seen) s)"
| last_none: "w < n \<Longrightarrow> is_worker s w = W_Last D seen \<Longrightarrow> full_round nq D \<Longrightarrow>
    idle_step policy n nq s (wgoto w (W_Wait seen) s)"
| wait_check: "w < n \<Longrightarrow> is_worker s w = W_Wait seen \<Longrightarrow>
    idle_step policy n nq s (wgoto w (if is_epoch s = seen then W_Checked seen else W_Unreg) s)"
| wait_finished: "w < n \<Longrightarrow> is_worker s w = W_Checked seen \<Longrightarrow>
    idle_step policy n nq s (wgoto w (if \<not> is_finished s then W_Commit seen else W_Unreg) s)"
| wait_sleep: "w < n \<Longrightarrow> is_worker s w = W_Commit seen \<Longrightarrow>
    idle_step policy n nq s (wgoto w (if is_epoch s = seen then W_Asleep else W_Unreg) s)"
| spurious: "w < n \<Longrightarrow> is_worker s w = W_Asleep \<Longrightarrow> idle_step policy n nq s (wgoto w W_Unreg s)"
| unregister: "w < n \<Longrightarrow> is_worker s w = W_Unreg \<Longrightarrow>
    idle_step policy n nq s (wgoto w (W_Look {}) (s\<lparr>is_sleepers := is_sleepers s - 1\<rparr>))"
| found: "w < n \<Longrightarrow> is_worker s w = W_Found \<Longrightarrow>
    idle_step policy n nq s (wgoto w W_Run (s\<lparr>is_sleepers := is_sleepers s - 1\<rparr>))"
| spin_found: "w < n \<Longrightarrow> is_worker s w = W_Spin_Found \<Longrightarrow>
    idle_step policy n nq s
      (wgoto w (if is_searching s = 1 then W_Last_Searcher else W_Run) (s\<lparr>is_searching := is_searching s - 1\<rparr>))"
| last_searcher: "w < n \<Longrightarrow> is_worker s w = W_Last_Searcher \<Longrightarrow>
    idle_step policy n nq s (wgoto w (if is_sleepers s \<noteq> 0 then W_Bump else W_Run) s)"
| worker_bump: "w < n \<Longrightarrow> is_worker s w = W_Bump \<Longrightarrow> idle_step policy n nq s (wgoto w W_Wake (bump_epoch s))"
| worker_wake: "w < n \<Longrightarrow> is_worker s w = W_Wake \<Longrightarrow> v < n \<Longrightarrow> is_worker s v = W_Asleep \<Longrightarrow>
    idle_step policy n nq s (wgoto w W_Run (wgoto v W_Unreg s))"
| worker_wake_none: "w < n \<Longrightarrow> is_worker s w = W_Wake \<Longrightarrow> \<forall>v < n. is_worker s v \<noteq> W_Asleep \<Longrightarrow>
    idle_step policy n nq s (wgoto w W_Run s)"
| publish: "is_producer s p = P_Idle \<Longrightarrow> k < nq \<Longrightarrow>
    idle_step policy n nq s (pgoto p P_Published (s\<lparr>is_work := (is_work s)(k := is_work s k + 1)\<rparr>))"
| new_work_searching: "is_producer s p = P_Published \<Longrightarrow>
    idle_step policy n nq s (pgoto p (if is_searching s = 0 then P_Checked else P_Idle) s)"
| new_work_sleepers: "is_producer s p = P_Checked \<Longrightarrow>
    idle_step policy n nq s (pgoto p (if is_sleepers s \<noteq> 0 then P_Bump else P_Idle) s)"
| producer_bump: "is_producer s p = P_Bump \<Longrightarrow> idle_step policy n nq s (pgoto p P_Wake (bump_epoch s))"
| producer_wake: "is_producer s p = P_Wake \<Longrightarrow> v < n \<Longrightarrow> is_worker s v = W_Asleep \<Longrightarrow>
    idle_step policy n nq s (pgoto p P_Idle (wgoto v W_Unreg s))"
| producer_wake_none: "is_producer s p = P_Wake \<Longrightarrow> \<forall>v < n. is_worker s v \<noteq> W_Asleep \<Longrightarrow>
    idle_step policy n nq s (pgoto p P_Idle s)"
| finish_store: "is_finisher s = F_None \<Longrightarrow>
    idle_step policy n nq s (s\<lparr>is_finished := True, is_finisher := F_Stored\<rparr>)"
| finish_bump: "is_finisher s = F_Stored \<Longrightarrow> idle_step policy n nq s ((bump_epoch s)\<lparr>is_finisher := F_Bumped\<rparr>)"
| finish_wake: "is_finisher s = F_Bumped \<Longrightarrow>
    idle_step policy n nq s ((wake_all_sleepers s)\<lparr>is_finisher := F_Done\<rparr>)"

fun ticket :: "worker_pc \<Rightarrow> u32 option" where
  "ticket (W_Last _ seen) = Some seen" | "ticket (W_Wait seen) = Some seen"
| "ticket (W_Checked seen) = Some seen" | "ticket (W_Commit seen) = Some seen" | "ticket _ = None"

text \<open>
  \<open>epoch\<close> is 32 bits wide and wraps round; a run is one in which no worker holds a ticket, from its read of \<open>epoch\<close> to
  its wait, while \<open>epoch\<close> is bumped \<open>2 ^ 32\<close> times.  The pool may live as long as it likes.
\<close>

definition tickets_fresh :: "idle_state \<Rightarrow> bool" where
  "tickets_fresh s \<longleftrightarrow> (\<forall>w. ticket (is_worker s w) \<noteq> None \<longrightarrow> is_bumps s < is_snap s w + 2 ^ 32)"

inductive idle_reachable :: "idle_policy \<Rightarrow> nat \<Rightarrow> nat \<Rightarrow> idle_state \<Rightarrow> bool" for policy n nq where
  idle_init: "idle_reachable policy n nq idle_start"
| idle_next: "idle_reachable policy n nq s \<Longrightarrow> idle_step policy n nq s s' \<Longrightarrow> tickets_fresh s' \<Longrightarrow>
    idle_reachable policy n nq s'"

section \<open>The counters\<close>

text \<open>How many workers are in a state that \<open>P\<close> describes, as the machine counts them.\<close>

definition wcount :: "(worker_pc \<Rightarrow> bool) \<Rightarrow> nat \<Rightarrow> (nat \<Rightarrow> worker_pc) \<Rightarrow> usize" where
  "wcount P n f = (\<Sum>w<n. of_bool (P (f w)))"

lemma wcount_upd [simp]:
  assumes "w < n"
  shows "wcount P n (f(w := pc)) = wcount P n f - of_bool (P (f w)) + of_bool (P pc)"
proof -
  have "(\<Sum>v<n. of_bool (P ((f(w := pc)) v))) =
      of_bool (P pc) + (\<Sum>v \<in> {..<n} - {w}. of_bool (P (f v)) :: usize)"
    using assms by (subst sum.remove [of _ w]) auto
  moreover have "wcount P n f = of_bool (P (f w)) + (\<Sum>v \<in> {..<n} - {w}. of_bool (P (f v)))"
    using assms unfolding wcount_def by (subst sum.remove [of _ w]) auto
  ultimately show ?thesis by (simp add: wcount_def)
qed

lemma wcount_card: "wcount P n f = of_nat (card {w. w < n \<and> P (f w)})"
proof -
  have "{w. w < n \<and> P (f w)} = {..<n} \<inter> {w. P (f w)}" by auto
  then show ?thesis
    by (simp add: wcount_def of_bool_def sum.If_cases)
qed

lemma wcount_0:
  assumes "wcount P n f = 0" and "n < 2 ^ 64" and "w < n"
  shows "\<not> P (f w)"
proof -
  let ?S = "{w. w < n \<and> P (f w)}"
  have "card ?S \<le> card {..<n}" by (rule card_mono) auto
  with assms(2) have "unat (of_nat (card ?S) :: usize) = card ?S"
    by (simp add: unat_of_nat)
  with assms(1) have "card ?S = 0" by (simp add: wcount_card)
  then have "?S = {}" by simp
  with assms(3) show ?thesis by blast
qed

lemma wcount_nonzero: "wcount P n f \<noteq> 0 \<Longrightarrow> \<exists>w < n. P (f w)"
proof (rule ccontr)
  assume nz: "wcount P n f \<noteq> 0" and "\<not> (\<exists>w < n. P (f w))"
  then have none: "{w. w < n \<and> P (f w)} = {}" by auto
  from nz show False unfolding wcount_card none by simp
qed

fun registered :: "worker_pc \<Rightarrow> bool" where
  "registered W_Snap = True" | "registered (W_Last _ _) = True" | "registered (W_Wait _) = True"
| "registered (W_Checked _) = True" | "registered (W_Commit _) = True" | "registered W_Asleep = True" | "registered W_Unreg = True"
| "registered W_Found = True" | "registered _ = False"

fun counted :: "worker_pc \<Rightarrow> bool" where
  "counted (W_Tried _ _) = True" | "counted (W_Spin _) = True" | "counted (W_Unspin _) = True"
| "counted W_Spin_Found = True" | "counted _ = False"

definition counters_ok :: "nat \<Rightarrow> idle_state \<Rightarrow> bool" where
  "counters_ok n s \<longleftrightarrow>
     is_sleepers s = wcount registered n (is_worker s) \<and> is_searching s = wcount counted n (is_worker s)"

lemma counters_start: "counters_ok n idle_start"
  by (simp add: counters_ok_def idle_start_def wcount_def)

lemma wcount_wake_all:
  "P W_Asleep = P W_Unreg \<Longrightarrow>
   wcount P n (\<lambda>w. if f w = W_Asleep then W_Unreg else f w) = wcount P n f"
  unfolding wcount_def by (rule sum.cong) auto

lemma counters_step: "idle_step policy n nq s s' \<Longrightarrow> counters_ok n s \<Longrightarrow> counters_ok n s'"
  by (induction rule: idle_step.induct)
    (auto simp: counters_ok_def bump_epoch_def wake_all_sleepers_def wcount_wake_all)

section \<open>Tickets\<close>

text \<open>A ticket is the value \<open>epoch\<close> had when it was read.\<close>

definition tickets_ok :: "idle_state \<Rightarrow> bool" where
  "tickets_ok s \<longleftrightarrow> is_epoch s = of_nat (is_bumps s) \<and>
     (\<forall>w seen. ticket (is_worker s w) = Some seen \<longrightarrow> is_snap s w \<le> is_bumps s \<and> seen = of_nat (is_snap s w))"

lemma tickets_start: "tickets_ok idle_start"
  by (simp add: tickets_ok_def idle_start_def)

lemma tickets_worker:
  "tickets_ok s \<Longrightarrow> is_epoch s' = is_epoch s \<Longrightarrow> is_bumps s' = is_bumps s \<Longrightarrow>
   (\<And>v seen. ticket (is_worker s' v) = Some seen \<Longrightarrow>
      ticket (is_worker s v) = Some seen \<and> is_snap s' v = is_snap s v \<or>
      seen = is_epoch s \<and> is_snap s' v = is_bumps s) \<Longrightarrow> tickets_ok s'"
  unfolding tickets_ok_def by (metis order_refl)

lemma tickets_bump: "tickets_ok s \<Longrightarrow> tickets_ok (bump_epoch s)"
  unfolding tickets_ok_def bump_epoch_def by (auto simp: ac_simps) (meson le_SucI)

lemma tickets_step: "idle_step policy n nq s s' \<Longrightarrow> tickets_ok s \<Longrightarrow> tickets_ok s'"
proof (induction rule: idle_step.induct)
  case (worker_bump w s)
  then have "tickets_ok (bump_epoch s)" by (simp add: tickets_bump)
  then show ?case by (rule tickets_worker) (auto simp: bump_epoch_def split: if_splits)
next
  case (producer_bump s p)
  then have "tickets_ok (bump_epoch s)" by (simp add: tickets_bump)
  then show ?case by (rule tickets_worker) (auto simp: bump_epoch_def)
next
  case (finish_bump s)
  then have "tickets_ok (bump_epoch s)" by (simp add: tickets_bump)
  then show ?case by (rule tickets_worker) (auto simp: bump_epoch_def)
qed (erule tickets_worker; auto simp: wake_all_sleepers_def split: if_splits)+

lemma ticket_stale:
  assumes "tickets_ok s" and "ticket (is_worker s w) = Some seen" and "is_bumps s + 1 < is_snap s w + 2 ^ 32"
  shows "seen \<noteq> is_epoch s + 1"
proof
  assume eq: "seen = is_epoch s + 1"
  from assms have b: "is_snap s w \<le> is_bumps s" "seen = of_nat (is_snap s w)" and e: "is_epoch s = of_nat (is_bumps s)"
    by (auto simp: tickets_ok_def)
  define d where "d = is_bumps s + 1 - is_snap s w"
  have d: "is_bumps s + 1 = is_snap s w + d" "0 < d" "d < 2 ^ 32" using b(1) assms(3) by (auto simp: d_def)
  have "is_epoch s + 1 = of_nat (is_bumps s + 1)" by (simp add: e)
  also have "\<dots> = of_nat (is_snap s w) + of_nat d" by (simp only: d(1) of_nat_add)
  finally have "(of_nat d :: u32) = 0" using eq b(2) by simp
  moreover have "unat (of_nat d :: u32) = d" using d(3) by (simp add: unat_of_nat)
  ultimately show False using d(2) by simp
qed

lemma tickets_freshD:
  "tickets_fresh s' \<Longrightarrow> ticket (is_worker s' w) = Some seen \<Longrightarrow> is_bumps s' < is_snap s' w + 2 ^ 32"
  by (auto simp: tickets_fresh_def)

section \<open>No lost wakeup\<close>

text \<open>
  A worker will still look at queue \<open>j\<close> (or is running, or about to) before it sleeps: every state
  but sleep itself and, with a ticket still valid, what follows its last look at \<open>j\<close>.
\<close>

fun alert :: "u32 \<Rightarrow> nat \<Rightarrow> worker_pc \<Rightarrow> bool" where
  "alert epoch j (W_Last D seen) \<longleftrightarrow> j \<notin> D \<or> seen \<noteq> epoch"
| "alert epoch j (W_Wait seen) \<longleftrightarrow> seen \<noteq> epoch"
| "alert epoch j (W_Checked seen) \<longleftrightarrow> seen \<noteq> epoch"
| "alert epoch j (W_Commit seen) \<longleftrightarrow> seen \<noteq> epoch"
| "alert epoch j W_Asleep \<longleftrightarrow> False"
| "alert epoch j _ \<longleftrightarrow> True"

fun pending :: "producer_pc \<Rightarrow> bool" where
  "pending P_Published = True" | "pending P_Checked = True" | "pending P_Bump = True" | "pending _ = False"

text \<open>Somebody will see to the tasks of queue \<open>j\<close>.\<close>

definition some_alert :: "nat \<Rightarrow> nat \<Rightarrow> idle_state \<Rightarrow> bool" where
  "some_alert n j s \<longleftrightarrow> (\<exists>w < n. alert (is_epoch s) j (is_worker s w))"

definition some_pending :: "idle_state \<Rightarrow> bool" where
  "some_pending s \<longleftrightarrow> (\<exists>p. pending (is_producer s p))"

definition some_wake :: "nat \<Rightarrow> idle_state \<Rightarrow> bool" where
  "some_wake n s \<longleftrightarrow> ((\<exists>p. is_producer s p = P_Wake) \<or> is_finisher s = F_Bumped) \<and>
     (\<exists>w < n. is_worker s w = W_Asleep)"

definition attended :: "nat \<Rightarrow> nat \<Rightarrow> idle_state \<Rightarrow> bool" where
  "attended n j s \<longleftrightarrow> some_alert n j s \<or> some_pending s \<or> some_wake n s"

definition watched :: "nat \<Rightarrow> nat \<Rightarrow> idle_state \<Rightarrow> bool" where
  "watched n nq s \<longleftrightarrow> (\<forall>j < nq. 0 < is_work s j \<longrightarrow> attended n j s)"

text \<open>A worker that moves to an alert state attends to every queue.\<close>

lemma attended_alert: "w < n \<Longrightarrow> alert (is_epoch s) j (is_worker s w) \<Longrightarrow> attended n j s"
  by (auto simp: attended_def some_alert_def)

lemma watched_alert: "w < n \<Longrightarrow> (\<And>j. alert (is_epoch s) j (is_worker s w)) \<Longrightarrow> watched n nq s"
  by (auto simp: watched_def intro: attended_alert)

text \<open>A worker that moves without a change of the alerts keeps every queue attended.\<close>

lemma attended_worker:
  assumes "attended n j s" and "w < n"
    and "alert (is_epoch s) j (is_worker s w) \<Longrightarrow> alert (is_epoch s) j pc"
    and "is_worker s w = W_Asleep \<Longrightarrow> pc = W_Asleep \<or> alert (is_epoch s) j pc"
  shows "attended n j (wgoto w pc s)"
proof (cases "alert (is_epoch s) j pc")
  case True
  with assms(2) show ?thesis by (auto intro: attended_alert)
next
  case False
  with assms have "\<not> alert (is_epoch s) j (is_worker s w)" and "is_worker s w \<noteq> W_Asleep \<or> pc = W_Asleep"
    by auto
  then have "some_alert n j s \<Longrightarrow> some_alert n j (wgoto w pc s)" "some_wake n s \<Longrightarrow> some_wake n (wgoto w pc s)"
    by (auto simp: some_alert_def some_wake_def)
  with assms(1) show ?thesis by (auto simp: attended_def some_pending_def)
qed

text \<open>Steps that leave the workers alone.\<close>

lemma attended_producer:
  assumes "attended n j s" and "is_worker s' = is_worker s" and "is_epoch s' = is_epoch s"
    and "is_finisher s = F_Bumped \<Longrightarrow> is_finisher s' = F_Bumped"
    and "\<And>q. pending (is_producer s q) \<Longrightarrow> pending (is_producer s' q) \<or> some_pending s' \<or> some_alert n j s'"
    and "\<And>q. is_producer s q = P_Wake \<Longrightarrow> is_producer s' q = P_Wake \<or> (\<forall>v < n. is_worker s v \<noteq> W_Asleep)"
  shows "attended n j s'"
  using assms unfolding attended_def some_alert_def some_pending_def some_wake_def by metis

lemma alert_ticket:
  "pc \<noteq> W_Asleep \<Longrightarrow> (\<And>seen. ticket pc = Some seen \<Longrightarrow> seen \<noteq> e) \<Longrightarrow> alert e j pc"
  by (cases pc) auto

text \<open>After a bump every worker that is not asleep is alert.\<close>

lemma attended_bump:
  assumes "0 < n" and "tickets_ok s" and "tickets_fresh s' \<and> is_bumps s' = is_bumps s + 1 \<and> is_snap s' = is_snap s"
    and "is_epoch s' = is_epoch s + 1"
    and "\<And>w. is_worker s' w = W_Asleep \<Longrightarrow> is_worker s w = W_Asleep"
    and "\<And>w. is_worker s' w \<noteq> is_worker s w \<Longrightarrow> alert (is_epoch s') j (is_worker s' w)"
    and "is_producer s' p = P_Wake \<or> is_finisher s' = F_Bumped"
  shows "attended n j s'"
proof (cases "\<forall>w < n. is_worker s' w = W_Asleep")
  case True
  with assms(1,7) show ?thesis by (auto simp: attended_def some_wake_def)
next
  case False
  then obtain w where w: "w < n" "is_worker s' w \<noteq> W_Asleep" by blast
  have "alert (is_epoch s') j (is_worker s' w)"
  proof (cases "is_worker s' w = is_worker s w")
    case True
    have "ticket (is_worker s w) = Some seen \<Longrightarrow> seen \<noteq> is_epoch s'" for seen
      using ticket_stale [OF assms(2), of w seen] tickets_freshD [of s' w seen] True assms(3,4) by auto
    with True w(2) show ?thesis by (metis alert_ticket)
  next
    case False
    with assms(6) show ?thesis by blast
  qed
  with w(1) show ?thesis by (rule attended_alert)
qed

lemma watched_start: "watched n nq idle_start"
  by (simp add: watched_def idle_start_def)

lemma watchedI: "(\<And>j. j < nq \<Longrightarrow> 0 < is_work s j \<Longrightarrow> attended n j s) \<Longrightarrow> watched n nq s"
  by (simp add: watched_def)

lemma watchedD: "watched n nq s \<Longrightarrow> j < nq \<Longrightarrow> 0 < is_work s j \<Longrightarrow> attended n j s"
  by (simp add: watched_def)

lemma watched_step:
  assumes "idle_step policy n nq s s'" and "watched n nq s" and "counters_ok n s" and "tickets_ok s"
    and "0 < n" and "n < 2 ^ 64" and "tickets_fresh s'"
  shows "watched n nq s'"
  using assms
proof (induction rule: idle_step.induct)
  case (last_next w s D seen k)
  show ?case
  proof (rule watchedI)
    fix j
    assume j: "j < nq" "0 < is_work (wgoto w (W_Last (insert k D) seen) s) j"
    with last_next have "attended n j s" by (auto dest: watchedD)
    moreover have "j \<noteq> k" using j last_next by auto
    ultimately show "attended n j (wgoto w (W_Last (insert k D) seen) s)"
      using last_next by (intro attended_worker) auto
  qed
next
  case (last_none w s D seen)
  then show ?case by (auto intro!: watchedI attended_worker dest: watchedD)
next
  case (wait_check w s seen)
  then show ?case by (auto intro!: watchedI attended_worker dest: watchedD)
next
  case (wait_finished w s seen)
  then show ?case by (auto intro!: watchedI attended_worker dest: watchedD)
next
  case (wait_sleep w s seen)
  then show ?case by (auto intro!: watchedI attended_worker dest: watchedD)
next
  case (publish s p k)
  then show ?case by (auto simp: watched_def attended_def some_pending_def intro: exI [of _ p])
next
  case (new_work_searching s p)
  show ?case
  proof (cases "is_searching s = 0")
    case True
    then show ?thesis by (auto simp: watched_def attended_def some_pending_def intro: exI [of _ p])
  next
    case False
    then obtain w where "w < n" and "counted (is_worker s w)"
      using new_work_searching by (auto simp: counters_ok_def dest: wcount_nonzero)
    then show ?thesis
      by (intro watched_alert [of w]) (auto elim: counted.elims)
  qed
next
  case (new_work_sleepers s p)
  show ?case
  proof (cases "is_sleepers s = 0")
    case False
    then show ?thesis by (auto simp: watched_def attended_def some_pending_def intro: exI [of _ p])
  next
    case True
    then have "\<not> registered (is_worker s 0)"
      using new_work_sleepers wcount_0 [of registered n "is_worker s" 0] by (simp add: counters_ok_def)
    then have "alert e j (is_worker s 0)" for e j by (cases "is_worker s 0") auto
    with new_work_sleepers show ?thesis by (intro watched_alert [of 0]) auto
  qed
next
  case (producer_bump s p)
  show ?case
    by (rule watchedI, rule attended_bump [where s = s and p = p])
      (use producer_bump in \<open>simp_all add: bump_epoch_def\<close>)
next
  case (producer_wake s p v)
  then show ?case by (intro watched_alert [of v]) auto
next
  case (producer_wake_none s p)
  show ?case
  proof (rule watchedI)
    fix j
    assume "j < nq" and "0 < is_work (pgoto p P_Idle s) j"
    with producer_wake_none have "attended n j s" by (simp add: watched_def)
    then show "attended n j (pgoto p P_Idle s)"
      using producer_wake_none.hyps by (elim attended_producer) auto
  qed
next
  case (finish_store s)
  show ?case
  proof (rule watchedI)
    fix j
    assume "j < nq" and "0 < is_work (s\<lparr>is_finished := True, is_finisher := F_Stored\<rparr>) j"
    with finish_store have "attended n j s" by (simp add: watched_def)
    then show "attended n j (s\<lparr>is_finished := True, is_finisher := F_Stored\<rparr>)"
      using finish_store.hyps by (elim attended_producer) auto
  qed
next
  case (finish_bump s)
  show ?case
    by (rule watchedI, rule attended_bump [where s = s])
      (use finish_bump in \<open>simp_all add: bump_epoch_def\<close>)
next
  case (finish_wake s)
  show ?case
  proof (cases "\<exists>w < n. is_worker s w = W_Asleep")
    case True
    then obtain w where "w < n" "is_worker s w = W_Asleep" by blast
    then show ?thesis by (intro watched_alert [of w]) (auto simp: wake_all_sleepers_def)
  next
    case False
    have "attended n j ((wake_all_sleepers s)\<lparr>is_finisher := F_Done\<rparr>)" if "attended n j s" for j
      using that False
      by (auto simp: attended_def some_alert_def some_pending_def some_wake_def wake_all_sleepers_def)
    with finish_wake show ?thesis by (auto simp: watched_def wake_all_sleepers_def)
  qed
next
  case (worker_bump w s)
  then show ?case by (intro watched_alert [of w]) (auto simp: bump_epoch_def)
qed (rule watched_alert; force split: if_splits)+

section \<open>Shutdown\<close>

definition finish_ok :: "nat \<Rightarrow> idle_state \<Rightarrow> bool" where
  "finish_ok n s \<longleftrightarrow>
     (is_finisher s \<noteq> F_None \<longrightarrow> is_finished s) \<and>
     (is_finisher s \<in> {F_Bumped, F_Done} \<longrightarrow>
        (\<forall>w < n. \<forall>seen. is_worker s w = W_Commit seen \<longrightarrow> seen \<noteq> is_epoch s)) \<and>
     (is_finisher s = F_Done \<longrightarrow> (\<forall>w < n. is_worker s w \<noteq> W_Asleep))"

lemma commit_stale:
  "tickets_ok s \<Longrightarrow> tickets_fresh s' \<Longrightarrow> is_bumps s' = is_bumps s + 1 \<Longrightarrow> is_snap s' = is_snap s \<Longrightarrow>
   is_worker s w = W_Commit seen \<Longrightarrow> is_worker s' w = W_Commit seen \<Longrightarrow> seen \<noteq> is_epoch s + 1"
  using tickets_freshD [of s' w seen] by (intro ticket_stale [where w = w]) auto

lemma finish_step:
  assumes "idle_step policy n nq s s'" and "finish_ok n s" and "tickets_ok s" and "tickets_fresh s'"
  shows "finish_ok n s'"
  using assms
proof (induction rule: idle_step.induct)
  case (worker_bump w s)
  then show ?case
    using commit_stale [of s "wgoto w W_Wake (bump_epoch s)"] by (fastforce simp: finish_ok_def bump_epoch_def)
next
  case (producer_bump s p)
  then show ?case
    using commit_stale [of s "pgoto p P_Wake (bump_epoch s)"] by (fastforce simp: finish_ok_def bump_epoch_def)
next
  case (finish_bump s)
  then show ?case
    using commit_stale [of s "(bump_epoch s)\<lparr>is_finisher := F_Bumped\<rparr>"] by (fastforce simp: finish_ok_def bump_epoch_def)
next
  case (finish_wake s)
  then show ?case by (auto simp: finish_ok_def wake_all_sleepers_def split: if_splits)
next
  case (wait_sleep w s seen)
  then show ?case by (auto simp: finish_ok_def split: if_splits)
qed (auto simp: finish_ok_def)

lemma finish_done_stable: "idle_step policy n nq s s' \<Longrightarrow> is_finisher s = F_Done \<Longrightarrow> is_finisher s' = F_Done"
  by (induction rule: idle_step.induct) (auto simp: bump_epoch_def)

section \<open>The properties\<close>

lemma idle_reachable_inv:
  "idle_reachable policy n nq s \<Longrightarrow> 0 < n \<Longrightarrow> n < 2 ^ 64 \<Longrightarrow>
   counters_ok n s \<and> tickets_ok s \<and> watched n nq s \<and> finish_ok n s"
proof (induction rule: idle_reachable.induct)
  case idle_init
  then show ?case
    by (simp add: counters_start tickets_start watched_start) (simp add: finish_ok_def idle_start_def)
next
  case (idle_next s s')
  then have inv: "counters_ok n s \<and> tickets_ok s \<and> watched n nq s \<and> finish_ok n s" by blast
  then show ?case
    using idle_next.hyps(2,3) idle_next.prems counters_step tickets_step watched_step finish_step by blast
qed





text \<open>
  Once the pool's \<open>finish\<close> has run (the flag stored, \<open>epoch\<close> bumped, the sleepers woken), no
  worker is asleep, and none goes to sleep later.
\<close>

lemma finish_wakes_everyone:
  assumes "idle_reachable policy n nq s" and "n < 2 ^ 64" and "is_finisher s = F_Done" and "w < n"
  shows "is_finished s \<and> is_worker s w \<noteq> W_Asleep \<and>
    (\<forall>s'. idle_step policy n nq s s' \<and> tickets_fresh s' \<longrightarrow> is_worker s' w \<noteq> W_Asleep)"
proof -
  have "0 < n" using assms(4) by simp
  note inv = idle_reachable_inv [OF assms(1) this assms(2)]
  have "is_worker s' w \<noteq> W_Asleep" if "idle_step policy n nq s s'" and "tickets_fresh s'" for s'
    using finish_step [OF that(1) _ _ that(2)] inv finish_done_stable [OF that(1) assms(3)] assms(4)
    by (simp add: finish_ok_def)
  with inv assms(3,4) show ?thesis by (auto simp: finish_ok_def)
qed

end
