(* ===== verification/Idle_Policy.thy ===== *)
theory Idle_Policy
  imports Cmpth_Prelude
begin

text \<open>
  The idle policies as one worker runs them (\<open>resumable/common/idle.rs\<close>): what a call of
  \<open>work_found\<close>, \<open>no_work_found\<close>, \<open>new_work\<close> and \<open>shutdown\<close> does to the worker's episode and to the
  policy's shared counters, and which effects it has, in order.  What other threads do meanwhile
  is the subject of \<open>Idle_Protocol\<close>.
\<close>

section \<open>Effects\<close>

datatype idle_effect =
    Fx_Spin | Fx_Yield | Fx_Duties | Fx_Parking | Fx_Woke
  | Fx_Wait u32 "u64 option"       \<comment> \<open>wait for a change of \<open>epoch\<close>, with the duties' timeout\<close>
  | Fx_Wake_One | Fx_Wake_All | Fx_Release_Timed | Fx_Idle_Done

section \<open>SpinIdle\<close>

definition spin_work_found :: "u32 \<Rightarrow> u32" where
  "spin_work_found ep = 0"

definition spin_no_work :: "bool \<Rightarrow> u32 \<Rightarrow> idle_effect list \<times> u32" where
  "spin_no_work retry ep =
     (if retry then ([Fx_Spin], ep)
      else let ep = ep + 1
           in if ep AND 0x3F = 0 then ([Fx_Spin, Fx_Duties, Fx_Yield], ep) else ([Fx_Spin], ep))"

section \<open>ParkIdle\<close>

record park_idle =
  pk_sleepers :: usize
  pk_epoch :: u32

record park_episode =
  pe_rounds :: u32
  pe_ticket :: "u32 option"
  pe_timed :: bool

definition park_idle_default :: "park_idle" where
  "park_idle_default = \<lparr>pk_sleepers = 0, pk_epoch = 0\<rparr>"

definition park_episode_default :: "park_episode" where
  "park_episode_default = \<lparr>pe_rounds = 0, pe_ticket = None, pe_timed = False\<rparr>"

definition park_wake_one :: "park_idle \<Rightarrow> idle_effect list \<times> park_idle" where
  "park_wake_one pk = ([Fx_Wake_One], pk\<lparr>pk_epoch := pk_epoch pk + 1\<rparr>)"

definition park_unregister :: "park_episode \<Rightarrow> park_idle \<Rightarrow> park_episode \<times> park_idle" where
  "park_unregister ep pk =
     (ep\<lparr>pe_ticket := None, pe_rounds := 0\<rparr>,
      if pe_ticket ep \<noteq> None then pk\<lparr>pk_sleepers := pk_sleepers pk - 1\<rparr> else pk)"

definition park_new_work :: "park_idle \<Rightarrow> idle_effect list \<times> park_idle" where
  "park_new_work pk = (if pk_sleepers pk \<noteq> 0 then park_wake_one pk else ([], pk))"

text \<open>
  The duties' registry is the argument \<open>timeout\<close>: from the episode's \<open>timed\<close>, how long to sleep
  at most, and the new \<open>timed\<close>.  \<open>idle_done\<close> clears it (see \<open>Duty\<close>).
\<close>

definition park_work_found :: "park_episode \<Rightarrow> park_idle \<Rightarrow> idle_effect list \<times> park_episode \<times> park_idle" where
  "park_work_found ep pk =
     (if pe_ticket ep \<noteq> None \<or> pe_rounds ep \<noteq> 0 \<or> pe_timed ep then
        (case park_unregister ep pk of
           (ep', pk') \<Rightarrow> if pe_timed ep' then ([Fx_Idle_Done], ep'\<lparr>pe_timed := False\<rparr>, pk') else ([], ep', pk'))
      else ([], ep, pk))"

definition park_no_work :: "(bool \<Rightarrow> u64 option \<times> bool) \<Rightarrow> bool \<Rightarrow> park_episode \<Rightarrow> park_idle
    \<Rightarrow> idle_effect list \<times> park_episode \<times> park_idle" where
  "park_no_work timeout retry ep pk =
     (if retry then ([Fx_Spin], ep, pk)
      else case pe_ticket ep of
        None \<Rightarrow>
          (let ep = ep\<lparr>pe_rounds := pe_rounds ep + 1\<rparr>
           in if pe_rounds ep \<le> 64 then ([Fx_Spin], ep, pk)
              else if pe_rounds ep \<le> 64 + 64 then ([Fx_Duties, Fx_Yield], ep, pk)
              else ([Fx_Duties], ep\<lparr>pe_ticket := Some (pk_epoch pk)\<rparr>, pk\<lparr>pk_sleepers := pk_sleepers pk + 1\<rparr>))
      | Some seen \<Rightarrow>
          (case timeout (pe_timed ep) of
             (t, timed) \<Rightarrow>
               (case park_unregister (ep\<lparr>pe_timed := timed\<rparr>) pk of
                  (ep', pk') \<Rightarrow> ([Fx_Parking, Fx_Wait seen t, Fx_Woke], ep', pk'))))"

definition park_shutdown :: "park_idle \<Rightarrow> idle_effect list \<times> park_idle" where
  "park_shutdown pk = ([Fx_Wake_All, Fx_Release_Timed], pk\<lparr>pk_epoch := pk_epoch pk + 1\<rparr>)"

section \<open>SearchIdle\<close>

text \<open>\<open>SearchCap\<close>: the caps, from the pool's size and how many workers are parked and searching.\<close>

type_synonym search_cap = "usize \<Rightarrow> usize \<Rightarrow> usize \<Rightarrow> usize"

definition go_cap :: "search_cap" where
  "go_cap workers parked searching = max (sat_sub workers (parked + searching) div 2) 1"

definition half_cap :: "search_cap" where
  "half_cap workers parked searching = max (workers div 2) 1"

definition fixed_cap :: "usize \<Rightarrow> search_cap" where
  "fixed_cap N workers parked searching = N"

record search_idle =
  si_park :: park_idle
  si_searching :: usize
  si_workers :: usize

record search_episode =
  se_park :: park_episode
  se_search_since :: "u64 option"
  se_parking :: bool
  se_since :: "u64 option"
  se_avg_ns :: u64
  se_spin_ns :: u64

definition search_idle_default :: "search_idle" where
  "search_idle_default = \<lparr>si_park = park_idle_default, si_searching = 0, si_workers = 1\<rparr>"

definition search_episode_default :: "search_episode" where
  "search_episode_default = \<lparr>se_park = park_episode_default, se_search_since = None, se_parking = False,
     se_since = None, se_avg_ns = 0, se_spin_ns = 0\<rparr>"

definition search_set_workers :: "usize \<Rightarrow> search_idle \<Rightarrow> search_idle" where
  "search_set_workers n si = si\<lparr>si_workers := n\<rparr>"

definition search_try :: "search_cap \<Rightarrow> u64 \<Rightarrow> search_episode \<Rightarrow> search_idle
    \<Rightarrow> bool \<times> search_episode \<times> search_idle" where
  "search_try cap now ep si =
     (let n = si_searching si;
          si = si\<lparr>si_searching := n + 1\<rparr>;
          parked = pk_sleepers (si_park si)
      in if n < cap (si_workers si) parked n
         then (True, ep\<lparr>se_search_since := Some now, se_park := (se_park ep)\<lparr>pe_rounds := 0\<rparr>\<rparr>, si)
         else (False, ep, si\<lparr>si_searching := si_searching si - 1\<rparr>))"

definition search_stop :: "search_episode \<Rightarrow> search_idle \<Rightarrow> bool \<times> search_episode \<times> search_idle" where
  "search_stop ep si =
     (if se_search_since ep \<noteq> None
      then (si_searching si = 1, ep\<lparr>se_search_since := None\<rparr>, si\<lparr>si_searching := si_searching si - 1\<rparr>)
      else (False, ep, si))"

definition search_start_parking :: "search_episode \<Rightarrow> search_episode" where
  "search_start_parking ep = ep\<lparr>se_parking := True, se_park := (se_park ep)\<lparr>pe_rounds := 64 + 64\<rparr>\<rparr>"

definition search_new_work :: "search_idle \<Rightarrow> idle_effect list \<times> search_idle" where
  "search_new_work si =
     (if si_searching si = 0 \<and> pk_sleepers (si_park si) \<noteq> 0
      then case park_wake_one (si_park si) of (fx, pk) \<Rightarrow> (fx, si\<lparr>si_park := pk\<rparr>)
      else ([], si))"

text \<open>The moving average of the past idle periods, 1/4 weight on the newest.\<close>

definition search_average :: "u64 \<Rightarrow> u64 \<Rightarrow> u64" where
  "search_average avg d = avg - avg div 4 + d div 4"

definition search_work_found :: "u64 \<Rightarrow> search_episode \<Rightarrow> search_idle
    \<Rightarrow> idle_effect list \<times> search_episode \<times> search_idle" where
  "search_work_found now ep si =
     (let ep = (case se_since ep of
                  Some t \<Rightarrow> ep\<lparr>se_since := None, se_avg_ns := search_average (se_avg_ns ep) (now - t)\<rparr>
                | None \<Rightarrow> ep)
      in case search_stop ep si of
        (lastp, ep, si) \<Rightarrow>
          (case park_work_found (se_park ep) (si_park si) of
             (fx, pe, pk) \<Rightarrow>
               (let ep = ep\<lparr>se_parking := False, se_park := pe\<rparr>; si = si\<lparr>si_park := pk\<rparr>
                in if lastp \<and> pk_sleepers (si_park si) \<noteq> 0
                   then case park_wake_one (si_park si) of (fx', pk') \<Rightarrow> (fx @ fx', ep, si\<lparr>si_park := pk'\<rparr>)
                   else (fx, ep, si))))"

text \<open>What follows the decision to park: a round of \<open>ParkIdle\<close> that does not count as a retry.\<close>

definition search_park :: "(bool \<Rightarrow> u64 option \<times> bool) \<Rightarrow> search_episode \<Rightarrow> search_idle
    \<Rightarrow> idle_effect list \<times> search_episode \<times> search_idle" where
  "search_park timeout ep si =
     (case park_no_work timeout False (se_park ep) (si_park si) of
        (fx, pe, pk) \<Rightarrow>
          (fx, ep\<lparr>se_park := pe, se_parking := (if pe_ticket pe = None \<and> pe_rounds pe = 0 then False else se_parking ep)\<rparr>,
           si\<lparr>si_park := pk\<rparr>))"

definition search_no_work :: "search_cap \<Rightarrow> (bool \<Rightarrow> u64 option \<times> bool) \<Rightarrow> u64 \<Rightarrow> u64 \<Rightarrow> bool
    \<Rightarrow> search_episode \<Rightarrow> search_idle \<Rightarrow> idle_effect list \<times> search_episode \<times> search_idle" where
  "search_no_work cap timeout wait_spin_ns now retry ep si =
     (if retry then
        (if se_search_since ep = None \<and> \<not> se_parking ep
         then case search_try cap now ep si of (_, ep', si') \<Rightarrow> ([Fx_Spin], ep', si')
         else ([Fx_Spin], ep, si))
      else if se_parking ep then search_park timeout ep si
      else case se_search_since ep of
          None \<Rightarrow>
            (let ep = (if se_since ep = None then ep\<lparr>se_since := Some now\<rparr> else ep);
                 spin = (if se_avg_ns ep < 100000 then 2 * max (se_avg_ns ep) 1000 else 0);
                 ep = ep\<lparr>se_spin_ns := max spin wait_spin_ns\<rparr>
             in case search_try cap now ep si of
                  (True, ep', si') \<Rightarrow> ([], ep', si')
                | (False, ep', si') \<Rightarrow> search_park timeout (search_start_parking ep') si')
        | Some since \<Rightarrow>
            (let rounds = pe_rounds (se_park ep) + 1;
                 ep = ep\<lparr>se_park := (se_park ep)\<lparr>pe_rounds := rounds\<rparr>\<rparr>
             in if rounds AND 0xF \<noteq> 0 \<or> now - since < se_spin_ns ep
                then ((if rounds AND 0x3 = 0 then [Fx_Duties] else [])
                        @ (if rounds AND 0x3F = 0 then [Fx_Yield] else [Fx_Spin]), ep, si)
                else case search_stop ep si of
                    (_, ep', si') \<Rightarrow> search_park timeout (search_start_parking ep') si'))"

definition search_shutdown :: "search_idle \<Rightarrow> idle_effect list \<times> search_idle" where
  "search_shutdown si = (case park_shutdown (si_park si) of (fx, pk) \<Rightarrow> (fx, si\<lparr>si_park := pk\<rparr>))"

section \<open>The counters balance\<close>

text \<open>
  What an episode contributes to the shared counters: one to \<open>sleepers\<close> while it holds a ticket,
  one to \<open>searching\<close> while it searches.
\<close>

definition park_rest :: "park_episode \<Rightarrow> park_idle \<Rightarrow> usize" where
  "park_rest ep pk = pk_sleepers pk - of_bool (pe_ticket ep \<noteq> None)"

definition search_rest :: "search_episode \<Rightarrow> search_idle \<Rightarrow> usize \<times> usize" where
  "search_rest ep si =
     (park_rest (se_park ep) (si_park si), si_searching si - of_bool (se_search_since ep \<noteq> None))"

named_theorems idle_balance

lemma park_unregister_rest [idle_balance]:
  "park_unregister ep pk = (ep', pk') \<Longrightarrow> park_rest ep' pk' = park_rest ep pk"
  by (auto simp: park_unregister_def park_rest_def)

lemma park_work_found_rest [idle_balance]:
  "park_work_found ep pk = (fx, ep', pk') \<Longrightarrow> park_rest ep' pk' = park_rest ep pk"
  by (auto simp: park_work_found_def park_unregister_def park_rest_def Let_def split: if_splits prod.splits)

lemma park_no_work_rest [idle_balance]:
  "park_no_work timeout retry ep pk = (fx, ep', pk') \<Longrightarrow> park_rest ep' pk' = park_rest ep pk"
  by (auto simp: park_no_work_def park_unregister_def park_rest_def Let_def
      split: if_splits prod.splits option.splits)

lemma search_try_rest [idle_balance]:
  "search_try cap now ep si = (b, ep', si') \<Longrightarrow> se_search_since ep = None \<Longrightarrow>
   search_rest ep' si' = search_rest ep si"
  by (auto simp: search_try_def search_rest_def park_rest_def Let_def split: if_splits)

lemma search_stop_rest [idle_balance]:
  "search_stop ep si = (b, ep', si') \<Longrightarrow> search_rest ep' si' = search_rest ep si"
  by (auto simp: search_stop_def search_rest_def park_rest_def split: if_splits)

lemma search_park_rest [idle_balance]:
  assumes "search_park timeout ep si = (fx, ep', si')"
  shows "search_rest ep' si' = search_rest ep si"
proof -
  obtain fx2 pe pk where p: "park_no_work timeout False (se_park ep) (si_park si) = (fx2, pe, pk)"
    by (metis prod_cases3)
  with assms park_no_work_rest [OF p] show ?thesis
    by (auto simp: search_park_def search_rest_def)
qed

lemma search_start_parking_rest [simp]: "search_rest (search_start_parking ep) si = search_rest ep si"
  by (simp add: search_rest_def park_rest_def search_start_parking_def)

lemma search_rest_frame [simp]:
  "search_rest (ep\<lparr>se_since := x\<rparr>) si = search_rest ep si"
  "search_rest (ep\<lparr>se_spin_ns := ns\<rparr>) si = search_rest ep si"
  "search_rest (ep\<lparr>se_park := (se_park ep)\<lparr>pe_rounds := k\<rparr>\<rparr>) si = search_rest ep si"
  by (simp_all add: search_rest_def park_rest_def)

lemma search_no_work_rest:
  assumes "search_no_work cap timeout ns now retry ep si = (fx, ep', si')"
  shows "search_rest ep' si' = search_rest ep si"
proof -
  consider (retry) "retry" | (parking) "\<not> retry" "se_parking ep"
    | (idle) "\<not> retry" "\<not> se_parking ep" "se_search_since ep = None"
    | (searching) since where "\<not> retry" "\<not> se_parking ep" "se_search_since ep = Some since"
    by (cases "se_search_since ep") auto
  then show ?thesis
  proof cases
    case retry
    with assms show ?thesis
      by (auto simp: search_no_work_def dest: search_try_rest split: if_splits prod.splits)
  next
    case parking
    with assms show ?thesis by (simp add: search_no_work_def search_park_rest)
  next
    case idle
    define e1 where "e1 = (if se_since ep = None then ep\<lparr>se_since := Some now\<rparr> else ep)"
    define e where "e = e1\<lparr>se_spin_ns := max (if se_avg_ns e1 < 100000 then 2 * max (se_avg_ns e1) 1000 else 0) ns\<rparr>"
    obtain b e2 si2 where s: "search_try cap now e si = (b, e2, si2)" by (metis prod_cases3)
    have e: "search_rest e2 si2 = search_rest ep si"
      using search_try_rest [OF s] idle by (auto simp: e_def e1_def)
    from assms idle s have "(if b then ([], e2, si2) else search_park timeout (search_start_parking e2) si2) = (fx, ep', si')"
      by (cases b) (simp_all add: search_no_work_def Let_def flip: e1_def e_def)
    with e search_park_rest [of timeout "search_start_parking e2" si2 fx ep' si'] show ?thesis
      by (auto split: if_splits)
  next
    case searching
    define e where "e = ep\<lparr>se_park := (se_park ep)\<lparr>pe_rounds := pe_rounds (se_park ep) + 1\<rparr>\<rparr>"
    obtain b e2 si2 where s: "search_stop e si = (b, e2, si2)" by (metis prod_cases3)
    have e: "search_rest e2 si2 = search_rest ep si"
      using search_stop_rest [OF s] by (simp add: e_def)
    from assms searching s have "(ep' = e \<and> si' = si) \<or> search_park timeout (search_start_parking e2) si2 = (fx, ep', si')"
      by (auto simp: search_no_work_def Let_def e_def split: if_splits)
    with e search_park_rest [of timeout "search_start_parking e2" si2 fx ep' si'] show ?thesis
      by (auto simp: e_def)
  qed
qed

lemma search_work_found_rest:
  assumes "search_work_found now ep si = (fx, ep', si')"
  shows "search_rest ep' si' = search_rest ep si \<and> se_search_since ep' = None \<and> pe_ticket (se_park ep') = None"
proof -
  define e where "e = (case se_since ep of
      Some t \<Rightarrow> ep\<lparr>se_since := None, se_avg_ns := search_average (se_avg_ns ep) (now - t)\<rparr> | None \<Rightarrow> ep)"
  have e: "search_rest e si = search_rest ep si"
    by (simp add: e_def search_rest_def park_rest_def split: option.splits)
  obtain b e2 si2 where s: "search_stop e si = (b, e2, si2)" by (metis prod_cases3)
  obtain fx2 pe pk where p: "park_work_found (se_park e2) (si_park si2) = (fx2, pe, pk)" by (metis prod_cases3)
  have "se_search_since e2 = None" using s by (auto simp: search_stop_def split: if_splits)
  moreover have "pe_ticket pe = None"
    using p by (auto simp: park_work_found_def park_unregister_def split: if_splits)
  moreover have "ep' = e2\<lparr>se_parking := False, se_park := pe\<rparr>"
    and "pk_sleepers (si_park si') = pk_sleepers pk" and "si_searching si' = si_searching si2"
    using assms s p by (auto simp: search_work_found_def Let_def park_wake_one_def simp flip: e_def split: if_splits)
  ultimately show ?thesis
    using search_stop_rest [OF s] park_work_found_rest [OF p] e
    by (simp add: search_rest_def park_rest_def)
qed

text \<open>
  \<open>SearchIdle\<close> keeps its counters balanced: no call changes what the other workers contribute to
  \<open>sleepers\<close> and \<open>searching\<close>; after \<open>work_found\<close> the worker itself contributes nothing; and a worker
  becomes a searcher only while fewer than the cap search.
\<close>

lemma search_counters_balance:
  "(case search_no_work cap timeout ns now retry ep si of (_, ep', si') \<Rightarrow> search_rest ep' si' = search_rest ep si) \<and>
   (case search_work_found now ep si of (_, ep', si') \<Rightarrow>
      search_rest ep si = (pk_sleepers (si_park si'), si_searching si')) \<and>
   (case search_try cap now ep si of (admitted, _, si') \<Rightarrow>
      admitted = (si_searching si < cap (si_workers si) (pk_sleepers (si_park si)) (si_searching si)) \<and>
      si_searching si' = si_searching si + of_bool admitted)"
proof -
  obtain fx ep' si' where n: "search_no_work cap timeout ns now retry ep si = (fx, ep', si')"
    by (metis prod_cases3)
  obtain fx2 ep2 si2 where f: "search_work_found now ep si = (fx2, ep2, si2)"
    by (metis prod_cases3)
  have "search_rest ep si = (pk_sleepers (si_park si2), si_searching si2)"
    using search_work_found_rest [OF f] by (auto simp: search_rest_def park_rest_def)
  with n f search_no_work_rest [OF n] show ?thesis
    by (simp add: search_try_def Let_def)
qed

lemma go_cap_range: "1 \<le> go_cap w p k \<and> go_cap w p k \<le> max (w div 2) 1"
proof -
  have "unat (sat_sub w (p + k)) div 2 \<le> unat w div 2"
    by (simp add: unat_sat_sub div_le_mono)
  then have "sat_sub w (p + k) div 2 \<le> w div 2"
    by (simp add: word_le_nat_alt unat_div_distrib)
  then show ?thesis
    unfolding go_cap_def by (auto simp: max_def intro: order.trans)
qed

lemma search_average_bound: "search_average avg d \<le> max avg d"
proof -
  have le: "unat avg div 4 \<le> unat avg" by simp
  have s: "unat (avg - avg div 4) = unat avg - unat avg div 4"
    using le by (subst unat_sub) (simp_all add: word_le_nat_alt unat_div_distrib)
  have b: "unat avg - unat avg div 4 + unat d div 4 \<le> max (unat avg) (unat d)"
    by (auto simp: max_def)
  also have "\<dots> < 2 ^ 64" using unat_u64_bound [of avg] unat_u64_bound [of d] by simp
  finally have "unat (search_average avg d) = unat avg - unat avg div 4 + unat d div 4"
    by (simp add: search_average_def unat_word_ariths s unat_div_distrib)
  with b show ?thesis by (simp add: word_le_nat_alt unat_max)
qed

section \<open>How long a worker looks before it parks\<close>

text \<open>Rounds that find nothing and are not retries, one after the other, with their effects.\<close>

fun park_rounds :: "(bool \<Rightarrow> u64 option \<times> bool) \<Rightarrow> nat \<Rightarrow> park_episode \<Rightarrow> park_idle
    \<Rightarrow> idle_effect list list \<times> park_episode \<times> park_idle" where
  "park_rounds timeout 0 ep pk = ([], ep, pk)"
| "park_rounds timeout (Suc n) ep pk =
     (case park_no_work timeout False ep pk of
        (fx, ep', pk') \<Rightarrow> (case park_rounds timeout n ep' pk' of (fxs, r) \<Rightarrow> (fx # fxs, r)))"

definition round_effects :: "nat \<Rightarrow> idle_effect list" where
  "round_effects k = (if k \<le> 64 then [Fx_Spin] else [Fx_Duties, Fx_Yield])"

lemma park_rounds_search:
  "k + n \<le> 128 \<Longrightarrow> park_rounds timeout n \<lparr>pe_rounds = of_nat k, pe_ticket = None, pe_timed = b\<rparr> pk
     = (map round_effects [Suc k..<Suc (k + n)], \<lparr>pe_rounds = of_nat (k + n), pe_ticket = None, pe_timed = b\<rparr>, pk)"
proof (induction n arbitrary: k)
  case (Suc n)
  have u: "unat (of_nat k + 1 :: u32) = Suc k"
    using Suc.prems by (simp add: unat_word_ariths unat_of_nat)
  have le: "(of_nat k + 1 \<le> (64 :: u32)) = (Suc k \<le> 64)" "of_nat k + 1 \<le> (128 :: u32)"
    using Suc.prems u by (simp_all add: word_le_nat_alt)
  have "park_no_work timeout False \<lparr>pe_rounds = of_nat k, pe_ticket = None, pe_timed = b\<rparr> pk
      = (round_effects (Suc k), \<lparr>pe_rounds = of_nat (Suc k), pe_ticket = None, pe_timed = b\<rparr>, pk)"
    using le by (simp add: park_no_work_def round_effects_def Let_def add.commute)
  moreover have "[Suc k..<Suc (k + Suc n)] = Suc k # [Suc (Suc k)..<Suc (Suc k + n)]"
    by (simp add: upt_conv_Cons)
  ultimately show ?case using Suc.IH [of "Suc k"] Suc.prems by simp
qed simp

text \<open>
  A \<open>ParkIdle\<close> worker whose searches find nothing spins 64 rounds, runs the duties and yields
  for 64 more, registers in round 129 and waits in round 130 on the epoch it read then; woken, it
  starts over, and it has left the number of sleepers as it was.
\<close>

lemma park_after_130_rounds:
  "park_rounds timeout 130 park_episode_default pk =
     (map round_effects [1..<129] @ [[Fx_Duties], [Fx_Parking, Fx_Wait (pk_epoch pk) (fst (timeout False)), Fx_Woke]],
      \<lparr>pe_rounds = 0, pe_ticket = None, pe_timed = snd (timeout False)\<rparr>, pk)"
proof -
  have split_rounds: "park_rounds timeout (n + m) ep pk =
      (case park_rounds timeout n ep pk of (fxs, ep', pk') \<Rightarrow>
         (case park_rounds timeout m ep' pk' of (fxs', r) \<Rightarrow> (fxs @ fxs', r)))" for n m ep pk
    by (induction n arbitrary: ep pk) (simp_all split: prod.splits)
  have a: "park_rounds timeout 128 park_episode_default pk =
      (map round_effects [1..<129], \<lparr>pe_rounds = 128, pe_ticket = None, pe_timed = False\<rparr>, pk)"
    using park_rounds_search [of 0 128 timeout False pk]
    by (simp add: park_episode_default_def del: upt_rec_numeral)
  have b: "park_rounds timeout (Suc (Suc 0)) \<lparr>pe_rounds = 128, pe_ticket = None, pe_timed = False\<rparr> pk =
      ([[Fx_Duties], [Fx_Parking, Fx_Wait (pk_epoch pk) (fst (timeout False)), Fx_Woke]],
       \<lparr>pe_rounds = 0, pe_ticket = None, pe_timed = snd (timeout False)\<rparr>, pk)"
    by (simp add: park_no_work_def park_unregister_def Let_def split: prod.splits)
  have "(130 :: nat) = 128 + Suc (Suc 0)" by simp
  then show ?thesis
    by (simp only: split_rounds a b prod.case)
qed

end
