(* ===== verification/Waker_State.thy ===== *)
theory Waker_State
  imports Cmpth_Prelude
begin

text \<open>
  The park/wake state machine behind every waker (\<open>resumable/common/waker.rs\<close>, and the accessors
  of \<open>stackless/desc.rs\<close>): one word whose low two bits are the state and whose top bit says that
  the waker was cloned.  First the operations on the word, as the CAS loops the code has; then
  the life of one task whose polls race with any number of wakes.
\<close>

section \<open>The word\<close>

definition IDLE :: usize where "IDLE = 0"
definition POLLING :: usize where "POLLING = 1"
definition PARKED :: usize where "PARKED = 2"
definition NOTIFIED :: usize where "NOTIFIED = 3"
definition EVER_SHARED :: usize where "EVER_SHARED = push_bit 63 1"
definition STATE_MASK :: usize where "STATE_MASK = 3"

lemmas waker_states = IDLE_def POLLING_def PARKED_def NOTIFIED_def

definition wstate :: "usize \<Rightarrow> usize" where
  "wstate refs = refs AND STATE_MASK"

definition with_state :: "usize \<Rightarrow> usize \<Rightarrow> usize" where
  "with_state refs s = (refs AND NOT STATE_MASK) OR s"

definition mark_polling :: "usize \<Rightarrow> usize" where
  "mark_polling refs = POLLING"

definition mark_idle :: "usize \<Rightarrow> usize" where
  "mark_idle refs = IDLE"

text \<open>What one successful iteration of the parking loops writes; the answer is whether it parked.\<close>

definition park_word :: "usize \<Rightarrow> usize" where
  "park_word refs = (if wstate refs = NOTIFIED then with_state refs POLLING else with_state refs PARKED)"

text \<open>The two loops, under interference; the result is the word read, the word written, the answer.\<close>

definition decide_park :: "usize \<Rightarrow> (usize \<times> bool) list \<Rightarrow> usize \<times> usize \<times> bool" where
  "decide_park cur env =
     (case cas_loop (\<lambda>refs. Some (park_word refs)) cur env of
        (refs, w) \<Rightarrow> (refs, cas_result (refs, w), wstate refs \<noteq> NOTIFIED))"

definition park_after_poll :: "usize \<Rightarrow> (usize \<times> bool) list \<Rightarrow> usize \<times> usize \<times> bool" where
  "park_after_poll cur env =
     (case cas_loop (\<lambda>refs. Some (park_word refs)) cur env of
        (refs, w) \<Rightarrow> (refs, cas_result (refs, w), wstate refs \<noteq> NOTIFIED))"

datatype wake_outcome = Set_Notified | Claimed_Parked | No_Op

definition wake_word :: "usize \<Rightarrow> usize option" where
  "wake_word refs =
     (if wstate refs = POLLING then Some (with_state refs NOTIFIED)
      else if wstate refs = PARKED then Some (with_state refs POLLING)
      else None)"

definition wake_result :: "usize \<Rightarrow> wake_outcome" where
  "wake_result refs =
     (if wstate refs = POLLING then Set_Notified else if wstate refs = PARKED then Claimed_Parked else No_Op)"

definition try_wake_state :: "usize \<Rightarrow> (usize \<times> bool) list \<Rightarrow> usize \<times> usize \<times> wake_outcome" where
  "try_wake_state cur env =
     (case cas_loop wake_word cur env of (refs, w) \<Rightarrow> (refs, cas_result (refs, w), wake_result refs))"

definition is_waker_shared :: "usize \<Rightarrow> bool" where
  "is_waker_shared refs \<longleftrightarrow> refs AND EVER_SHARED \<noteq> 0"

definition shared_word :: "usize \<Rightarrow> usize" where
  "shared_word old = EVER_SHARED OR (old AND STATE_MASK)"

definition note_waker_shared :: "usize \<Rightarrow> (usize \<times> bool) list \<Rightarrow> usize \<times> usize" where
  "note_waker_shared cur env =
     (case cas_loop (\<lambda>refs. Some (shared_word refs)) cur env of (refs, w) \<Rightarrow> (refs, cas_result (refs, w)))"

section \<open>Lemmas on the word\<close>

lemma state_values [simp]:
  "POLLING AND STATE_MASK = POLLING" "PARKED AND STATE_MASK = PARKED"
  "NOTIFIED AND STATE_MASK = NOTIFIED" "IDLE AND STATE_MASK = IDLE"
  by (simp_all add: waker_states STATE_MASK_def)

lemma states_distinct [simp]:
  "IDLE \<noteq> POLLING" "IDLE \<noteq> PARKED" "IDLE \<noteq> NOTIFIED" "POLLING \<noteq> PARKED" "POLLING \<noteq> NOTIFIED" "PARKED \<noteq> NOTIFIED"
  "POLLING \<noteq> IDLE" "PARKED \<noteq> IDLE" "NOTIFIED \<noteq> IDLE" "PARKED \<noteq> POLLING" "NOTIFIED \<noteq> POLLING" "NOTIFIED \<noteq> PARKED"
  by (simp_all add: waker_states)

lemma wstate_with_state: "s AND STATE_MASK = s \<Longrightarrow> wstate (with_state refs s) = s"
  by (simp add: wstate_def with_state_def bit.conj_disj_distrib2 and.assoc)

lemma wstate_values [simp]:
  "wstate POLLING = POLLING" "wstate IDLE = IDLE" "wstate (with_state refs POLLING) = POLLING"
  "wstate (with_state refs PARKED) = PARKED" "wstate (with_state refs NOTIFIED) = NOTIFIED"
  by (simp_all add: wstate_with_state) (simp_all add: wstate_def)

lemma wstate_shared [simp]: "wstate (shared_word refs) = wstate refs"
proof -
  have "EVER_SHARED AND STATE_MASK = 0"
    by (simp add: EVER_SHARED_def STATE_MASK_def)
  then show ?thesis
    by (simp add: wstate_def shared_word_def bit.conj_disj_distrib2 and.assoc)
qed

lemma with_state_shared:
  assumes "s AND EVER_SHARED = 0"
  shows "is_waker_shared (with_state refs s) = is_waker_shared refs"
proof -
  have "NOT STATE_MASK AND EVER_SHARED = EVER_SHARED"
    by (simp add: EVER_SHARED_def STATE_MASK_def)
  with assms show ?thesis
    by (simp add: is_waker_shared_def with_state_def bit.conj_disj_distrib2 and.assoc)
qed

text \<open>The states a word can hold.\<close>

lemma wstate_cases: "wstate refs = IDLE \<or> wstate refs = POLLING \<or> wstate refs = PARKED \<or> wstate refs = NOTIFIED"
proof -
  have "refs AND 3 \<le> 3" by (rule word_and_le1)
  then have "unat (refs AND 3) \<le> 3" by (simp add: word_le_nat_alt)
  then have "unat (refs AND 3) = unat (0 :: usize) \<or> unat (refs AND 3) = unat (1 :: usize) \<or>
      unat (refs AND 3) = unat (2 :: usize) \<or> unat (refs AND 3) = unat (3 :: usize)"
    by (simp only: unat_0 unat_1 unat_numeral) (simp, arith)
  then have "refs AND 3 = 0 \<or> refs AND 3 = 1 \<or> refs AND 3 = 2 \<or> refs AND 3 = 3"
    by (metis unsigned_word_eqI)
  then show ?thesis
    by (simp add: wstate_def waker_states STATE_MASK_def)
qed

section \<open>One task, its polls and its wakers\<close>

text \<open>
  \<open>reset\<close> tells the two users of the machine apart: the poll loop of a \<open>spawn_async\<close> task
  (\<open>run_async_poll\<close>) marks the word before every poll and parks with \<open>park_after_poll\<close>; \<open>block_on\<close>
  marks it once, when its poller is made, and parks with \<open>decide_park\<close>.  Between a task's loop
  and its wakers every operation on the word is one atomic transition (\<open>cas_loop_linear\<close>).
\<close>

datatype poll_phase = Runnable | In_Poll | Is_Parked | Is_Done

record polled =
  po_word :: usize
  po_phase :: poll_phase
  po_unseen :: bool     \<comment> \<open>a wake came since the last poll began\<close>
  po_parks :: nat       \<comment> \<open>how often the task has parked\<close>
  po_claims :: nat      \<comment> \<open>how often a wake has claimed the parked task\<close>

definition polled_start :: "bool \<Rightarrow> polled" where
  "polled_start reset = \<lparr>po_word = (if reset then IDLE else POLLING), po_phase = Runnable, po_unseen = False,
     po_parks = 0, po_claims = 0\<rparr>"

definition poll_begin :: "bool \<Rightarrow> polled \<Rightarrow> polled" where
  "poll_begin reset s =
     s\<lparr>po_word := (if reset then mark_polling (po_word s) else po_word s), po_phase := In_Poll, po_unseen := False\<rparr>"

definition poll_pending :: "polled \<Rightarrow> polled" where
  "poll_pending s =
     (if wstate (po_word s) = NOTIFIED then s\<lparr>po_word := park_word (po_word s), po_phase := Runnable\<rparr>
      else s\<lparr>po_word := park_word (po_word s), po_phase := Is_Parked, po_parks := po_parks s + 1\<rparr>)"

definition poll_ready :: "polled \<Rightarrow> polled" where
  "poll_ready s = s\<lparr>po_word := mark_idle (po_word s), po_phase := Is_Done\<rparr>"

definition poll_wake :: "polled \<Rightarrow> polled" where
  "poll_wake s =
     (let s' = s\<lparr>po_unseen := True,
                 po_word := (case wake_word (po_word s) of None \<Rightarrow> po_word s | Some new \<Rightarrow> new)\<rparr>
      in if wake_result (po_word s) = Claimed_Parked
         then s'\<lparr>po_phase := Runnable, po_claims := po_claims s + 1\<rparr> else s')"

definition poll_clone :: "polled \<Rightarrow> polled" where
  "poll_clone s = s\<lparr>po_word := shared_word (po_word s)\<rparr>"

inductive poll_step :: "bool \<Rightarrow> polled \<Rightarrow> polled \<Rightarrow> bool" for reset where
  begins: "po_phase s = Runnable \<Longrightarrow> poll_step reset s (poll_begin reset s)"
| pends: "po_phase s = In_Poll \<Longrightarrow> poll_step reset s (poll_pending s)"
| readies: "po_phase s = In_Poll \<Longrightarrow> poll_step reset s (poll_ready s)"
| wakes: "poll_step reset s (poll_wake s)"
| clones: "poll_step reset s (poll_clone s)"

inductive poll_reachable :: "bool \<Rightarrow> polled \<Rightarrow> bool" for reset where
  poll_init: "poll_reachable reset (polled_start reset)"
| poll_next: "poll_reachable reset s \<Longrightarrow> poll_step reset s s' \<Longrightarrow> poll_reachable reset s'"

definition polled_inv :: "bool \<Rightarrow> polled \<Rightarrow> bool" where
  "polled_inv reset s \<longleftrightarrow>
     (case po_phase s of
        Runnable \<Rightarrow> wstate (po_word s) \<noteq> PARKED \<and> (\<not> reset \<longrightarrow> wstate (po_word s) \<noteq> IDLE)
      | In_Poll \<Rightarrow> (wstate (po_word s) = POLLING \<or> wstate (po_word s) = NOTIFIED)
          \<and> (po_unseen s \<longrightarrow> wstate (po_word s) = NOTIFIED)
      | Is_Parked \<Rightarrow> wstate (po_word s) = PARKED \<and> \<not> po_unseen s
      | Is_Done \<Rightarrow> wstate (po_word s) = IDLE) \<and>
     po_parks s = po_claims s + of_bool (po_phase s = Is_Parked)"

lemma polled_inv_start: "polled_inv reset (polled_start reset)"
  by (simp add: polled_inv_def polled_start_def)

lemma polled_inv_step: "poll_step reset s s' \<Longrightarrow> polled_inv reset s \<Longrightarrow> polled_inv reset s'"
proof (induction rule: poll_step.induct)
  case (begins s)
  then show ?case using wstate_cases [of "po_word s"]
    by (auto simp: polled_inv_def poll_begin_def mark_polling_def)
next
  case (pends s)
  then show ?case
    by (auto simp: polled_inv_def poll_pending_def park_word_def)
next
  case (readies s)
  then show ?case by (auto simp: polled_inv_def poll_ready_def mark_idle_def)
next
  case (wakes s)
  then show ?case
    by (cases "po_phase s") (auto simp: polled_inv_def poll_wake_def wake_word_def wake_result_def Let_def)
next
  case (clones s)
  then show ?case by (cases "po_phase s") (simp_all add: polled_inv_def poll_clone_def)
qed

lemma polled_reachable_inv: "poll_reachable reset s \<Longrightarrow> polled_inv reset s"
  by (induction rule: poll_reachable.induct) (auto intro: polled_inv_start polled_inv_step)

text \<open>
  C5: a wake is never lost, in \<open>block_on\<close> and in the poll loop of a \<open>spawn_async\<close> task: after a
  wake the task is runnable, or in a poll whose parking attempt will find the notification, or
  done; it is never left parked.  And a park is claimed by at most one wake: the continuation is
  handed out exactly once.
\<close>

theorem wake_never_lost:
  assumes "poll_reachable reset s" and "po_unseen s"
  shows "po_phase s \<noteq> Is_Parked \<and> po_phase (poll_wake s) \<noteq> Is_Parked \<and>
    (po_phase s = In_Poll \<longrightarrow> po_phase (poll_pending s) = Runnable) \<and> po_parks s = po_claims s"
proof -
  have inv: "polled_inv reset s" by (rule polled_reachable_inv [OF assms(1)])
  have "polled_inv reset (poll_wake s)" by (rule polled_inv_step [OF wakes inv])
  moreover have "po_unseen (poll_wake s)" by (simp add: poll_wake_def Let_def)
  ultimately show ?thesis
    using inv assms(2) by (auto simp: polled_inv_def poll_pending_def split: poll_phase.splits)
qed

definition polled_example :: "polled" where
  "polled_example = poll_wake (poll_begin True (polled_start True))"

theorem wake_never_lost_witness:
  "po_phase polled_example = In_Poll \<and> po_phase (poll_pending polled_example) = Runnable \<and>
    po_parks polled_example = po_claims polled_example"
proof -
  have "poll_reachable True (poll_begin True (polled_start True))"
    by (rule poll_next [OF poll_init begins]) (simp add: polled_start_def)
  then have "poll_reachable True polled_example"
    unfolding polled_example_def by (rule poll_next [OF _ wakes])
  moreover have "po_unseen polled_example" by (simp add: polled_example_def poll_wake_def Let_def)
  moreover have "po_phase polled_example = In_Poll"
    by (simp add: polled_example_def poll_wake_def poll_begin_def polled_start_def mark_polling_def wake_result_def Let_def)
  ultimately show ?thesis using wake_never_lost [of True polled_example] by blast
qed

text \<open>
  The loops do what the machine's transitions say, whatever interferes: they act on a value
  they really read, park unless that value is notified, and claim exactly when it is parked; the
  mark of a cloned waker survives them, but not \<open>mark_polling\<close>.
\<close>

lemma waker_loops_linear:
  "(case decide_park cur env of (refs, new, parked) \<Rightarrow>
      refs \<in> insert cur (fst ` set env) \<and> new = park_word refs \<and> (parked \<longleftrightarrow> wstate new = PARKED)
      \<and> is_waker_shared new = is_waker_shared refs) \<and>
   decide_park cur env = park_after_poll cur env \<and>
   (case try_wake_state cur env of (refs, new, out) \<Rightarrow>
      refs \<in> insert cur (fst ` set env) \<and> (out = Claimed_Parked \<longleftrightarrow> wstate refs = PARKED)
      \<and> (out = No_Op \<longleftrightarrow> new = refs) \<and> is_waker_shared new = is_waker_shared refs) \<and>
   \<not> is_waker_shared (mark_polling (shared_word cur))"
proof -
  have shared: "POLLING AND EVER_SHARED = 0" "PARKED AND EVER_SHARED = 0" "NOTIFIED AND EVER_SHARED = 0"
    by (simp_all add: waker_states EVER_SHARED_def)
  have "is_waker_shared (park_word refs) = is_waker_shared refs" for refs
    by (simp add: park_word_def with_state_shared shared)
  moreover obtain r v where r: "cas_loop (\<lambda>refs. Some (park_word refs)) cur env = (r, v)" by fastforce
  moreover have "r \<in> insert cur (fst ` set env)" and "v = Some (park_word r)"
    using cas_loop_observed [of "\<lambda>refs. Some (park_word refs)" cur env]
      cas_loop_linear [of "\<lambda>refs. Some (park_word refs)" cur env] r by simp_all
  moreover have "wstate r \<noteq> NOTIFIED \<longleftrightarrow> wstate (park_word r) = PARKED"
    by (simp add: park_word_def)
  ultimately have "case decide_park cur env of (refs, new, parked) \<Rightarrow>
      refs \<in> insert cur (fst ` set env) \<and> new = park_word refs \<and> (parked \<longleftrightarrow> wstate new = PARKED)
      \<and> is_waker_shared new = is_waker_shared refs"
    by (simp add: decide_park_def cas_result_def)
  moreover have "decide_park cur env = park_after_poll cur env"
    by (simp add: decide_park_def park_after_poll_def)
  moreover have "case try_wake_state cur env of (refs, new, out) \<Rightarrow>
      refs \<in> insert cur (fst ` set env) \<and> (out = Claimed_Parked \<longleftrightarrow> wstate refs = PARKED)
      \<and> (out = No_Op \<longleftrightarrow> new = refs) \<and> is_waker_shared new = is_waker_shared refs"
  proof -
    obtain refs w where r: "cas_loop wake_word cur env = (refs, w)" by fastforce
    have obs: "refs \<in> insert cur (fst ` set env)" and w: "w = wake_word refs"
      using cas_loop_observed [of wake_word cur env] cas_loop_linear [of wake_word cur env] r by simp_all
    have n: "wstate refs = POLLING \<Longrightarrow> with_state refs NOTIFIED \<noteq> refs"
      using wstate_values(5) [of refs] by fastforce
    have p: "wstate refs = PARKED \<Longrightarrow> with_state refs POLLING \<noteq> refs"
      using wstate_values(3) [of refs] by fastforce
    from n p show ?thesis
      using r obs w
      by (auto simp: try_wake_state_def cas_result_def wake_word_def wake_result_def with_state_shared shared)
  qed
  moreover have "\<not> is_waker_shared (mark_polling (shared_word cur))"
    by (simp add: is_waker_shared_def mark_polling_def shared)
  ultimately show ?thesis by blast
qed

end
