(* ===== verification/Join_State.thy ===== *)
theory Join_State
  imports Cmpth_Prelude
begin

text \<open>
  The join protocol of a task descriptor (\<open>resumable/common/desc.rs\<close>, \<open>stackless/desc.rs\<close>,
  \<open>common/thread.rs\<close>, \<open>stackful/thread.rs\<close>): one word says who waits for the task.  First the
  word's encoding and its operations, as the CAS loops the code has; then the life of one task,
  its exit racing with whatever its one \<open>JoinHandle\<close> does.
\<close>

section \<open>The word\<close>

definition JS_RUNNING :: usize where "JS_RUNNING = 0"
definition JS_FINISHED :: usize where "JS_FINISHED = 1"
definition JS_DETACHED :: usize where "JS_DETACHED = 2"
definition JS_ASYNC_TAG :: usize where "JS_ASYNC_TAG = 1"
definition JS_ASYNC_JOINER_TAG :: usize where "JS_ASYNC_JOINER_TAG = 2"

lemmas js_consts = JS_RUNNING_def JS_FINISHED_def JS_DETACHED_def JS_ASYNC_TAG_def JS_ASYNC_JOINER_TAG_def

datatype join_state =
    Js_Running | Js_Finished | Js_Detached | Sync_Joiner usize | Async_Waker usize | Async_Joiner usize

definition decode_join_state :: "usize \<Rightarrow> join_state" where
  "decode_join_state v =
     (if v = JS_RUNNING then Js_Running
      else if v = JS_FINISHED then Js_Finished
      else if v = JS_DETACHED then Js_Detached
      else if v AND JS_ASYNC_TAG \<noteq> 0 then Async_Waker (v AND NOT JS_ASYNC_TAG)
      else if v AND JS_ASYNC_JOINER_TAG \<noteq> 0 then Async_Joiner (v AND NOT JS_ASYNC_JOINER_TAG)
      else Sync_Joiner v)"

text \<open>How the registering operations make the word.\<close>

definition encode_join_state :: "join_state \<Rightarrow> usize" where
  "encode_join_state js =
     (case js of
        Js_Running \<Rightarrow> JS_RUNNING | Js_Finished \<Rightarrow> JS_FINISHED | Js_Detached \<Rightarrow> JS_DETACHED
      | Sync_Joiner p \<Rightarrow> p | Async_Waker w \<Rightarrow> w OR JS_ASYNC_TAG | Async_Joiner p \<Rightarrow> p OR JS_ASYNC_JOINER_TAG)"

text \<open>A descriptor or a boxed waker: not null and aligned to 8 bytes.\<close>

definition ptr_ok :: "usize \<Rightarrow> bool" where
  "ptr_ok p \<longleftrightarrow> p \<noteq> 0 \<and> p AND 7 = 0"

definition js_ok :: "join_state \<Rightarrow> bool" where
  "js_ok js = (case js of Sync_Joiner p \<Rightarrow> ptr_ok p | Async_Waker p \<Rightarrow> ptr_ok p | Async_Joiner p \<Rightarrow> ptr_ok p | _ \<Rightarrow> True)"

lemma ptr_ok_bits:
  assumes "ptr_ok p"
  shows "p AND 1 = 0" and "p AND 2 = 0" and "(p OR 1) AND NOT 1 = p" and "(p OR 2) AND NOT 2 = p"
    and "(p OR 1) AND 1 = 1" and "(p OR 2) AND 2 = 2" and "(p OR 2) AND 1 = 0"
    and "p \<noteq> 0" and "p \<noteq> 1" and "p \<noteq> 2"
proof -
  have p7: "p AND 7 = 0" and p0: "p \<noteq> 0" using assms by (simp_all add: ptr_ok_def)
  have a: "p AND k = 0" if "7 AND k = k" for k
    using p7 that by (metis and.assoc bit.conj_zero_left)
  have n: "p AND NOT k = p" if "7 AND k = k" for k
    using a [OF that] by (intro bit_eqI) (auto simp: bit_simps bit_eq_iff)
  show p1: "p AND 1 = 0" and p2: "p AND 2 = 0" by (rule a; simp)+
  show "(p OR 1) AND NOT 1 = p" using n [of 1] by (simp add: bit.conj_disj_distrib2)
  show "(p OR 2) AND NOT 2 = p" using n [of 2] by (simp add: bit.conj_disj_distrib2)
  show "(p OR 1) AND 1 = 1" using p1 by (simp add: bit.conj_disj_distrib2)
  show "(p OR 2) AND 2 = 2" using p2 by (simp add: bit.conj_disj_distrib2)
  show "(p OR 2) AND 1 = 0" using p1 by (simp add: bit.conj_disj_distrib2)
  show "p \<noteq> 0" by (rule p0)
  show "p \<noteq> 1" using p1 by auto
  show "p \<noteq> 2" using p2 by auto
qed

lemma join_word_rt:
  assumes "js_ok js"
  shows "decode_join_state (encode_join_state js) = js"
proof -
  have "(0 :: usize) AND NOT 1 = 0" "(1 :: usize) AND NOT 1 = 0" "(2 :: usize) AND NOT 2 = 0"
      "(1 :: usize) AND NOT 2 = 1" "(2 :: usize) AND NOT 1 = 2" "(0 :: usize) AND NOT 2 = 0"
    by simp_all
  moreover have "ptr_ok p \<Longrightarrow> p \<noteq> 0 \<and> p \<noteq> 1 \<and> p \<noteq> 2 \<and> p OR 1 \<noteq> 0 \<and> p OR 1 \<noteq> 1 \<and> p OR 1 \<noteq> 2
      \<and> p OR 2 \<noteq> 0 \<and> p OR 2 \<noteq> 1 \<and> p OR 2 \<noteq> 2" for p :: usize
    using ptr_ok_bits [of p] by (metis calculation)
  ultimately show ?thesis
    using assms ptr_ok_bits
    by (cases js) (simp_all add: js_ok_def encode_join_state_def decode_join_state_def js_consts)
qed

text \<open>
  The six cases of the join word do not overlap: what a registration encodes, for an aligned
  pointer, is what the exit decodes.
\<close>

lemma join_word_round_trip:
  assumes "js_ok js"
  shows "decode_join_state (encode_join_state js) = js"
  by (rule join_word_rt [OF assms])

lemma join_word_round_trip_example:
  "decode_join_state (encode_join_state (Async_Joiner 4096)) = Async_Joiner 4096"
  by (rule join_word_round_trip) (simp add: js_ok_def ptr_ok_def)

lemma decode_simps [simp]:
  "decode_join_state JS_RUNNING = Js_Running" "decode_join_state JS_FINISHED = Js_Finished"
  "decode_join_state JS_DETACHED = Js_Detached"
  by (simp_all add: decode_join_state_def js_consts)

section \<open>The operations\<close>

definition is_finished :: "usize \<Rightarrow> bool" where
  "is_finished w \<longleftrightarrow> w = JS_FINISHED"

definition is_abandoned :: "usize \<Rightarrow> bool" where
  "is_abandoned w \<longleftrightarrow> w = JS_DETACHED"

definition commit_finished :: "usize \<Rightarrow> usize" where
  "commit_finished w = JS_FINISHED"

text \<open>What the exit does for the state it swapped out.\<close>

datatype exit_action =
    Exit_None | Exit_Resume usize | Exit_Wake usize | Exit_Claim usize | Exit_Reclaim | Exit_Unreachable

definition finish_and_settle :: "usize \<Rightarrow> usize \<times> exit_action" where
  "finish_and_settle old =
     (JS_FINISHED,
      case decode_join_state old of
        Js_Running \<Rightarrow> Exit_None
      | Sync_Joiner j \<Rightarrow> Exit_Resume j
      | Async_Waker w \<Rightarrow> Exit_Wake w
      | Async_Joiner j \<Rightarrow> Exit_Claim j
      | Js_Detached \<Rightarrow> Exit_Reclaim
      | Js_Finished \<Rightarrow> Exit_Unreachable)"

definition try_take_handoff_target :: "usize \<Rightarrow> usize option" where
  "try_take_handoff_target w = (case decode_join_state w of Sync_Joiner j \<Rightarrow> Some j | _ \<Rightarrow> None)"

text \<open>
  The four CAS loops: each leaves the word alone when the task has finished, and otherwise swaps
  its own value in, freeing the boxed waker it may have replaced.
\<close>

definition unless_finished :: "usize \<Rightarrow> usize \<Rightarrow> usize option" where
  "unless_finished new cur = (if cur = JS_FINISHED then None else Some new)"

definition replaced_box :: "usize \<Rightarrow> usize option" where
  "replaced_box cur = (case decode_join_state cur of Async_Waker w \<Rightarrow> Some w | _ \<Rightarrow> None)"

text \<open>The result: the word read, the word left, whether the task had finished, the box freed.\<close>

definition settle_loop :: "usize \<Rightarrow> usize \<Rightarrow> (usize \<times> bool) list \<Rightarrow> usize \<times> usize \<times> bool \<times> usize option" where
  "settle_loop new cur env =
     (case cas_loop (unless_finished new) cur env of
        (c, w) \<Rightarrow> (c, cas_result (c, w), w = None, if w = None then None else replaced_box c))"

definition try_abandon :: "usize \<Rightarrow> (usize \<times> bool) list \<Rightarrow> usize \<times> usize \<times> bool \<times> usize option" where
  "try_abandon cur env = settle_loop JS_DETACHED cur env"

definition try_register_joiner :: "usize \<Rightarrow> usize \<Rightarrow> (usize \<times> bool) list \<Rightarrow> usize \<times> usize \<times> bool \<times> usize option" where
  "try_register_joiner joiner cur env = settle_loop joiner cur env"

definition try_register_async_joiner :: "usize \<Rightarrow> usize \<Rightarrow> (usize \<times> bool) list \<Rightarrow> usize \<times> usize \<times> bool \<times> usize option" where
  "try_register_async_joiner joiner cur env = settle_loop (joiner OR JS_ASYNC_JOINER_TAG) cur env"

text \<open>
  \<open>try_register_waker\<close> boxes the waker only when the first load does not see the task finished; the
  box is freed again when the loop finds it finished later.  \<open>w\<close> is the box's address.
\<close>

definition try_register_waker :: "usize \<Rightarrow> usize \<Rightarrow> (usize \<times> bool) list \<Rightarrow> usize \<times> usize \<times> bool \<times> usize option" where
  "try_register_waker w cur env =
     (if cur = JS_FINISHED then (cur, cur, True, None)
      else case settle_loop (w OR JS_ASYNC_TAG) cur env of
        (c, new, finished, freed) \<Rightarrow> (c, new, finished, if finished then Some w else freed))"

lemma settle_loop_linear:
  "settle_loop new cur env = (c, w, finished, freed) \<Longrightarrow>
   (finished \<longleftrightarrow> c = JS_FINISHED) \<and> w = (if finished then JS_FINISHED else new)
   \<and> freed = (if finished then None else replaced_box c) \<and> c \<in> insert cur (fst ` set env)"
  using cas_loop_linear [of "unless_finished new" cur env] cas_loop_observed [of "unless_finished new" cur env]
  by (auto simp: settle_loop_def cas_result_def unless_finished_def split: prod.splits if_splits)

section \<open>One task and its handle\<close>

text \<open>
  The task runs and exits; its \<open>JoinHandle\<close> is joined once, or polled any number of times, or
  dropped.  The exit of a stackful task looks for a parked joiner first, then for an abandoned
  handle, and else publishes with \<open>finish_and_settle\<close>; a \<open>spawn_async\<close> task always does the latter.
\<close>

datatype exit_pc = X_Running | X_Check | X_Handoff usize | X_Free | X_Settle | X_Done
datatype handle_pc = H_Held | H_Parked usize | H_Resumed | H_Taken | H_Dropped

record join_run =
  jo_word :: usize
  jo_exit :: exit_pc
  jo_handle :: handle_pc
  jo_value :: bool          \<comment> \<open>the result slot holds a value\<close>
  jo_reclaims :: nat        \<comment> \<open>how often the descriptor was given back\<close>
  jo_boxes :: nat           \<comment> \<open>boxed wakers alive\<close>
  jo_waiting :: bool        \<comment> \<open>the last poll of the handle returned \<open>Pending\<close>\<close>
  jo_notified :: bool       \<comment> \<open>the poller was woken since\<close>

definition join_start :: "bool \<Rightarrow> join_run" where
  "join_start has_handle =
     \<lparr>jo_word = (if has_handle then JS_RUNNING else JS_DETACHED), jo_exit = X_Running,
      jo_handle = (if has_handle then H_Held else H_Dropped), jo_value = False, jo_reclaims = 0, jo_boxes = 0,
      jo_waiting = False, jo_notified = False\<rparr>"

text \<open>The handle takes the result and gives the descriptor back.\<close>

definition take_result :: "join_run \<Rightarrow> join_run" where
  "take_result s = s\<lparr>jo_handle := H_Taken, jo_value := False, jo_reclaims := jo_reclaims s + 1\<rparr>"

definition free_box :: "usize \<Rightarrow> join_run \<Rightarrow> join_run" where
  "free_box cur s = (if replaced_box cur = None then s else s\<lparr>jo_boxes := jo_boxes s - 1\<rparr>)"

definition handle_join :: "usize \<Rightarrow> join_run \<Rightarrow> join_run" where
  "handle_join joiner s =
     (if is_finished (jo_word s) then take_result s
      else (free_box (jo_word s) s)\<lparr>jo_word := joiner, jo_handle := H_Parked joiner\<rparr>)"

definition handle_poll_waker :: "usize \<Rightarrow> join_run \<Rightarrow> join_run" where
  "handle_poll_waker w s =
     (if jo_word s = JS_FINISHED then take_result s
      else let s' = free_box (jo_word s) s
           in s'\<lparr>jo_word := w OR JS_ASYNC_TAG, jo_boxes := jo_boxes s' + 1, jo_waiting := True, jo_notified := False\<rparr>)"

definition handle_poll_joiner :: "usize \<Rightarrow> join_run \<Rightarrow> join_run" where
  "handle_poll_joiner j s =
     (if jo_word s = JS_FINISHED then take_result s
      else (free_box (jo_word s) s)\<lparr>jo_word := j OR JS_ASYNC_JOINER_TAG, jo_waiting := True, jo_notified := False\<rparr>)"

definition handle_drop :: "join_run \<Rightarrow> join_run" where
  "handle_drop s =
     (if jo_word s = JS_FINISHED then take_result s
      else (free_box (jo_word s) s)\<lparr>jo_word := JS_DETACHED, jo_handle := H_Dropped\<rparr>)"

definition exit_settle :: "join_run \<Rightarrow> join_run" where
  "exit_settle s =
     (case finish_and_settle (jo_word s) of
        (w, act) \<Rightarrow>
          (let s = s\<lparr>jo_word := w, jo_exit := X_Done\<rparr>
           in case act of
                Exit_None \<Rightarrow> s
              | Exit_Resume j \<Rightarrow> s\<lparr>jo_handle := H_Resumed\<rparr>
              | Exit_Wake b \<Rightarrow> s\<lparr>jo_boxes := jo_boxes s - 1, jo_notified := True\<rparr>
              | Exit_Claim j \<Rightarrow> s\<lparr>jo_notified := True\<rparr>
              | Exit_Reclaim \<Rightarrow> s\<lparr>jo_value := False, jo_reclaims := jo_reclaims s + 1\<rparr>
              | Exit_Unreachable \<Rightarrow> s))"

inductive join_step :: "join_run \<Rightarrow> join_run \<Rightarrow> bool" where
  exit_async: "jo_exit s = X_Running \<Longrightarrow> join_step s (s\<lparr>jo_value := True, jo_exit := X_Settle\<rparr>)"
| exit_look: "jo_exit s = X_Running \<Longrightarrow>
    join_step s (case try_take_handoff_target (jo_word s) of
        Some j \<Rightarrow> s\<lparr>jo_value := True, jo_exit := X_Handoff j\<rparr> | None \<Rightarrow> s\<lparr>jo_exit := X_Check\<rparr>)"
| exit_check: "jo_exit s = X_Check \<Longrightarrow>
    join_step s (if is_abandoned (jo_word s) then s\<lparr>jo_exit := X_Free\<rparr> else s\<lparr>jo_value := True, jo_exit := X_Settle\<rparr>)"
| exit_handoff: "jo_exit s = X_Handoff j \<Longrightarrow>
    join_step s (s\<lparr>jo_word := commit_finished (jo_word s), jo_handle := H_Resumed, jo_exit := X_Done\<rparr>)"
| exit_free: "jo_exit s = X_Free \<Longrightarrow> join_step s (s\<lparr>jo_reclaims := jo_reclaims s + 1, jo_exit := X_Done\<rparr>)"
| exit_settles: "jo_exit s = X_Settle \<Longrightarrow> join_step s (exit_settle s)"
| join: "jo_handle s = H_Held \<Longrightarrow> ptr_ok p \<Longrightarrow> join_step s (handle_join p s)"
| joined: "jo_handle s = H_Resumed \<Longrightarrow> join_step s (take_result s)"
| poll_waker: "jo_handle s = H_Held \<Longrightarrow> ptr_ok p \<Longrightarrow> join_step s (handle_poll_waker p s)"
| poll_joiner: "jo_handle s = H_Held \<Longrightarrow> ptr_ok p \<Longrightarrow> join_step s (handle_poll_joiner p s)"
| drop_handle: "jo_handle s = H_Held \<Longrightarrow> join_step s (handle_drop s)"

inductive join_reachable :: "bool \<Rightarrow> join_run \<Rightarrow> bool" for has_handle where
  join_init: "join_reachable has_handle (join_start has_handle)"
| join_next: "join_reachable has_handle s \<Longrightarrow> join_step s s' \<Longrightarrow> join_reachable has_handle s'"

section \<open>The invariant\<close>

definition join_alive :: "join_run \<Rightarrow> bool" where
  "join_alive s \<longleftrightarrow>
     (case jo_handle s of
        H_Held \<Rightarrow> decode_join_state (jo_word s) = Js_Running \<and> \<not> jo_waiting s
          \<or> (\<exists>w. decode_join_state (jo_word s) = Async_Waker w)
          \<or> (\<exists>j. decode_join_state (jo_word s) = Async_Joiner j)
      | H_Parked j \<Rightarrow> decode_join_state (jo_word s) = Sync_Joiner j
      | H_Dropped \<Rightarrow> jo_word s = JS_DETACHED
      | _ \<Rightarrow> False) \<and>
     (case jo_exit s of
        X_Handoff j \<Rightarrow> jo_value s \<and> jo_handle s = H_Parked j
      | X_Free \<Rightarrow> \<not> jo_value s \<and> jo_handle s = H_Dropped
      | X_Settle \<Rightarrow> jo_value s
      | _ \<Rightarrow> \<not> jo_value s) \<and>
     jo_reclaims s = 0 \<and> jo_boxes s = (if replaced_box (jo_word s) = None then 0 else 1)"

definition join_exited :: "join_run \<Rightarrow> bool" where
  "join_exited s \<longleftrightarrow>
     jo_boxes s = 0 \<and>
     (case jo_handle s of
        H_Held \<Rightarrow> jo_word s = JS_FINISHED \<and> jo_value s \<and> jo_reclaims s = 0 \<and> (jo_waiting s \<longrightarrow> jo_notified s)
      | H_Parked j \<Rightarrow> False
      | H_Resumed \<Rightarrow> jo_word s = JS_FINISHED \<and> jo_value s \<and> jo_reclaims s = 0
      | _ \<Rightarrow> \<not> jo_value s \<and> jo_reclaims s = 1)"

definition join_inv :: "join_run \<Rightarrow> bool" where
  "join_inv s \<longleftrightarrow> (if jo_exit s = X_Done then join_exited s else join_alive s)"

lemma join_inv_start: "join_inv (join_start b)"
  by (simp add: join_inv_def join_alive_def join_start_def replaced_box_def)

lemma decode_regs:
  assumes "ptr_ok p"
  shows "decode_join_state p = Sync_Joiner p" "decode_join_state (p OR JS_ASYNC_TAG) = Async_Waker p"
    "decode_join_state (p OR JS_ASYNC_JOINER_TAG) = Async_Joiner p"
  using join_word_rt [of "Sync_Joiner p"] join_word_rt [of "Async_Waker p"] join_word_rt [of "Async_Joiner p"] assms
  by (simp_all add: js_ok_def encode_join_state_def)

lemma decode_finished: "decode_join_state w = Js_Finished \<longleftrightarrow> w = JS_FINISHED"
  by (auto simp: decode_join_state_def js_consts split: if_splits)

lemma decode_detached: "decode_join_state w = Js_Detached \<longleftrightarrow> w = JS_DETACHED"
  by (auto simp: decode_join_state_def js_consts split: if_splits)

lemma decode_not_const:
  "decode_join_state w = Async_Waker p \<Longrightarrow> w \<noteq> JS_FINISHED \<and> w \<noteq> JS_DETACHED"
  "decode_join_state w = Async_Joiner p \<Longrightarrow> w \<noteq> JS_FINISHED \<and> w \<noteq> JS_DETACHED"
  "decode_join_state w = Sync_Joiner p \<Longrightarrow> w \<noteq> JS_FINISHED \<and> w \<noteq> JS_DETACHED"
  "decode_join_state w = Js_Running \<Longrightarrow> w \<noteq> JS_FINISHED \<and> w \<noteq> JS_DETACHED"
  by auto

text \<open>A handle that is still held, and what each of its operations leaves.\<close>

lemma alive_word:
  "join_alive s \<Longrightarrow> jo_handle s = H_Held \<Longrightarrow> jo_word s \<noteq> JS_FINISHED \<and> jo_word s \<noteq> JS_DETACHED
     \<and> (\<forall>j. decode_join_state (jo_word s) \<noteq> Sync_Joiner j)"
  by (auto simp: join_alive_def)

lemma free_box_fields [simp]:
  "jo_word (free_box c s) = jo_word s" "jo_exit (free_box c s) = jo_exit s" "jo_handle (free_box c s) = jo_handle s"
  "jo_value (free_box c s) = jo_value s" "jo_reclaims (free_box c s) = jo_reclaims s"
  "jo_waiting (free_box c s) = jo_waiting s" "jo_notified (free_box c s) = jo_notified s"
  "jo_boxes (free_box c s) = (if replaced_box c = None then jo_boxes s else jo_boxes s - 1)"
  by (simp_all add: free_box_def)

lemma alive_no_box: "join_alive s \<Longrightarrow> jo_boxes (free_box (jo_word s) s) = 0"
  by (simp add: join_alive_def)

text \<open>The exit is not committed to a handoff or a free while the handle is held.\<close>

lemma alive_exit:
  "join_alive s \<Longrightarrow> jo_handle s = H_Held \<Longrightarrow> jo_exit s \<noteq> X_Done \<Longrightarrow>
   (jo_exit s = X_Running \<or> jo_exit s = X_Check) \<and> \<not> jo_value s \<or> jo_exit s = X_Settle \<and> jo_value s"
  by (cases "jo_exit s") (auto simp: join_alive_def)

lemma alive_moves:
  assumes s: "join_alive s" "jo_handle s = H_Held" "jo_exit s \<noteq> X_Done"
    and s': "jo_exit s' = jo_exit s" "jo_value s' = jo_value s" "jo_reclaims s' = jo_reclaims s"
    and h: "case jo_handle s' of
        H_Held \<Rightarrow> (\<exists>w. decode_join_state (jo_word s') = Async_Waker w) \<or> (\<exists>j. decode_join_state (jo_word s') = Async_Joiner j)
      | H_Parked j \<Rightarrow> decode_join_state (jo_word s') = Sync_Joiner j
      | H_Dropped \<Rightarrow> jo_word s' = JS_DETACHED
      | _ \<Rightarrow> False"
    and b: "jo_boxes s' = (if replaced_box (jo_word s') = None then 0 else 1)"
  shows "join_inv s'"
proof -
  have "jo_reclaims s = 0" using s(1) by (simp add: join_alive_def)
  with alive_exit [OF s] s h b s' show ?thesis
    by (auto simp: join_inv_def join_alive_def split: handle_pc.splits)
qed

lemma take_result_inv:
  "join_exited s \<Longrightarrow> jo_exit s = X_Done \<Longrightarrow> jo_handle s = H_Held \<or> jo_handle s = H_Resumed \<Longrightarrow>
   join_inv (take_result s)"
  by (auto simp: join_inv_def join_exited_def take_result_def)

lemma handle_step_inv:
  assumes "join_inv s" and "jo_handle s = H_Held"
  shows "ptr_ok p \<Longrightarrow> join_inv (handle_join p s)" and "ptr_ok p \<Longrightarrow> join_inv (handle_poll_waker p s)"
    and "ptr_ok p \<Longrightarrow> join_inv (handle_poll_joiner p s)" and "join_inv (handle_drop s)"
proof -
  have fin: "join_inv (take_result s) \<and> jo_word s = JS_FINISHED" if "jo_exit s = X_Done"
    using that assms take_result_inv [of s] by (simp add: join_inv_def join_exited_def)
  have alive: "join_alive s" "jo_word s \<noteq> JS_FINISHED" if "jo_exit s \<noteq> X_Done"
    using that assms alive_word [of s] by (simp_all add: join_inv_def)
  show "join_inv (handle_join p s)" if p: "ptr_ok p"
  proof (cases "jo_exit s = X_Done")
    case False
    show ?thesis
      by (rule alive_moves [OF alive(1) [OF False] assms(2) False])
        (use alive [OF False] alive_no_box [of s] p in
          \<open>simp_all add: handle_join_def is_finished_def decode_regs replaced_box_def\<close>)
  qed (use fin in \<open>simp add: handle_join_def is_finished_def\<close>)
  show "join_inv (handle_poll_waker p s)" if p: "ptr_ok p"
  proof (cases "jo_exit s = X_Done")
    case False
    show ?thesis
      by (rule alive_moves [OF alive(1) [OF False] assms(2) False])
        (use alive [OF False] alive_no_box [of s] p assms(2) in
          \<open>simp_all add: handle_poll_waker_def decode_regs replaced_box_def Let_def\<close>)
  qed (use fin in \<open>simp add: handle_poll_waker_def\<close>)
  show "join_inv (handle_poll_joiner p s)" if p: "ptr_ok p"
  proof (cases "jo_exit s = X_Done")
    case False
    show ?thesis
      by (rule alive_moves [OF alive(1) [OF False] assms(2) False])
        (use alive [OF False] alive_no_box [of s] p assms(2) in
          \<open>simp_all add: handle_poll_joiner_def decode_regs replaced_box_def\<close>)
  qed (use fin in \<open>simp add: handle_poll_joiner_def\<close>)
  show "join_inv (handle_drop s)"
  proof (cases "jo_exit s = X_Done")
    case False
    show ?thesis
      by (rule alive_moves [OF alive(1) [OF False] assms(2) False])
        (use alive [OF False] alive_no_box [of s] in \<open>simp_all add: handle_drop_def replaced_box_def\<close>)
  qed (use fin in \<open>simp add: handle_drop_def\<close>)
qed

lemma exit_settle_inv:
  assumes "join_alive s" and "jo_exit s = X_Settle"
  shows "join_inv (exit_settle s)"
proof (cases "jo_handle s")
  case H_Held
  with assms show ?thesis
    by (auto simp: join_inv_def join_alive_def join_exited_def exit_settle_def finish_and_settle_def replaced_box_def Let_def)
qed (use assms in \<open>auto simp: join_inv_def join_alive_def join_exited_def exit_settle_def finish_and_settle_def
        replaced_box_def Let_def\<close>)

lemma join_inv_step: "join_step s s' \<Longrightarrow> join_inv s \<Longrightarrow> join_inv s'"
proof (induction rule: join_step.induct)
  case (exit_async s)
  then show ?case by (cases "jo_handle s") (simp_all add: join_inv_def join_alive_def)
next
  case (exit_look s)
  then show ?case
    by (auto simp: join_inv_def join_alive_def try_take_handoff_target_def split: join_state.splits handle_pc.splits)
next
  case (exit_check s)
  then show ?case
    by (auto simp: join_inv_def join_alive_def is_abandoned_def split: handle_pc.splits)
next
  case (exit_handoff s j)
  then show ?case
    by (auto simp: join_inv_def join_alive_def join_exited_def commit_finished_def replaced_box_def)
next
  case (exit_free s)
  then show ?case
    by (auto simp: join_inv_def join_alive_def join_exited_def replaced_box_def)
next
  case (exit_settles s)
  then have "join_alive s" by (simp add: join_inv_def)
  then show ?case using exit_settles by (intro exit_settle_inv) simp_all
next
  case (joined s)
  then have "jo_exit s = X_Done" by (auto simp: join_inv_def join_alive_def split: if_splits)
  with joined show ?case by (intro take_result_inv) (simp_all add: join_inv_def)
qed (simp_all add: handle_step_inv)

lemma join_reachable_inv: "join_reachable b s \<Longrightarrow> join_inv s"
  by (induction rule: join_reachable.induct) (auto intro: join_inv_start join_inv_step)

text \<open>
  C4: a task's descriptor is given back exactly once, by its exit or by its handle, whatever they
  race; until then it is not given back while anyone may still use it; no boxed waker and no
  result leaks; and once the task has exited nobody is left waiting: a parked joiner was resumed, a
  poller that was told to wait was notified.
\<close>

theorem join_exactly_once:
  assumes "join_reachable has_handle s"
  shows "jo_reclaims s \<le> 1 \<and>
    (jo_reclaims s = 1 \<longleftrightarrow> jo_exit s = X_Done \<and> (jo_handle s = H_Taken \<or> jo_handle s = H_Dropped)) \<and>
    (jo_exit s = X_Done \<longrightarrow> jo_boxes s = 0 \<and> (\<nexists>j. jo_handle s = H_Parked j) \<and>
       (jo_handle s = H_Held \<and> jo_waiting s \<longrightarrow> jo_notified s) \<and> (jo_reclaims s = 1 \<longrightarrow> \<not> jo_value s))"
proof (cases "jo_exit s = X_Done")
  case True
  with join_reachable_inv [OF assms] show ?thesis
    by (cases "jo_handle s") (simp_all add: join_inv_def join_exited_def)
next
  case False
  with join_reachable_inv [OF assms] show ?thesis
    by (simp add: join_inv_def join_alive_def)
qed

definition join_example :: "join_run" where
  "join_example = take_result (exit_settle ((handle_poll_waker 64 (join_start True))\<lparr>jo_value := True, jo_exit := X_Settle\<rparr>))"

lemma join_example_reachable:
  "join_reachable True join_example \<and> jo_exit join_example = X_Done \<and> jo_handle join_example = H_Taken"
proof -
  let ?a = "handle_poll_waker 64 (join_start True)"
  let ?b = "?a\<lparr>jo_value := True, jo_exit := X_Settle\<rparr>"
  have a: "join_reachable True ?a"
    by (rule join_next [OF join_init poll_waker]) (simp_all add: join_start_def ptr_ok_def)
  have b: "join_reachable True ?b"
    by (rule join_next [OF a exit_async])
      (simp add: handle_poll_waker_def join_start_def free_box_def replaced_box_def Let_def js_consts)
  have c: "join_reachable True (exit_settle ?b)"
    by (rule join_next [OF b exit_settles]) simp
  have w: "jo_word ?b = 65" "jo_handle ?b = H_Held"
    by (simp_all add: handle_poll_waker_def join_start_def free_box_def replaced_box_def Let_def js_consts)
  have d: "decode_join_state 65 = Async_Waker 64" by (simp add: decode_join_state_def js_consts)
  define e where "e = exit_settle ?b"
  have e: "jo_handle e = H_Held" "jo_word e = JS_FINISHED"
    using w d by (simp_all add: e_def exit_settle_def finish_and_settle_def Let_def)
  have x: "jo_exit e = X_Done" using w d by (simp add: e_def exit_settle_def finish_and_settle_def Let_def)
  have "join_reachable True (handle_drop e)"
    by (rule join_next [OF c [folded e_def] drop_handle]) (rule e)
  then show "join_reachable True join_example \<and> jo_exit join_example = X_Done \<and> jo_handle join_example = H_Taken"
    using e x by (simp add: handle_drop_def take_result_def join_example_def e_def [symmetric])
qed

theorem join_exactly_once_witness:
  "jo_reclaims join_example = 1 \<and> jo_boxes join_example = 0 \<and> \<not> jo_value join_example"
  using join_exactly_once [of True join_example] join_example_reachable by blast

end
