(* ===== verification/Pool.thy ===== *)
theory Pool
  imports Cmpth_Prelude
begin

text \<open>
  The descriptor and block pools (\<open>resumable/common/pool.rs\<close>): the free lists, linked through the
  nodes themselves, that \<open>ReturnPool\<close> and \<open>BlockPool\<close> share; \<open>SimplePool\<close>; and the block layout
  and size threshold of the recursion pool.  A node is named by its address; the allocator hands
  out addresses never used before.
\<close>

section \<open>The free lists\<close>

type_synonym addr = nat

text \<open>A worker's local list, its mailbox, and the staging list of one worker for another.\<close>

datatype slot = Sl_Local nat | Sl_Remote nat | Sl_Pro nat nat

record node_pool =
  np_next :: "addr \<Rightarrow> addr option"
  np_home :: "addr \<Rightarrow> nat"
  np_over :: "addr \<Rightarrow> bool"
  np_brk :: addr                       \<comment> \<open>every address below it has been allocated\<close>
  np_head :: "slot \<Rightarrow> addr option"
  np_last :: "nat \<Rightarrow> nat \<Rightarrow> addr option"
  np_num :: "nat \<Rightarrow> nat \<Rightarrow> nat"

definition new_node_pool :: "node_pool" where
  "new_node_pool =
     \<lparr>np_next = (\<lambda>_. None), np_home = (\<lambda>_. 0), np_over = (\<lambda>_. False), np_brk = 0, np_head = (\<lambda>_. None),
      np_last = (\<lambda>_ _. None), np_num = (\<lambda>_ _. 0)\<rparr>"

abbreviation set_head :: "slot \<Rightarrow> addr option \<Rightarrow> node_pool \<Rightarrow> node_pool" where
  "set_head s p st \<equiv> st\<lparr>np_head := (np_head st)(s := p)\<rparr>"

abbreviation set_next :: "addr \<Rightarrow> addr option \<Rightarrow> node_pool \<Rightarrow> node_pool" where
  "set_next n p st \<equiv> st\<lparr>np_next := (np_next st)(n := p)\<rparr>"

abbreviation set_pro :: "nat \<Rightarrow> nat \<Rightarrow> addr option \<Rightarrow> nat \<Rightarrow> node_pool \<Rightarrow> node_pool" where
  "set_pro c a l k st \<equiv>
     st\<lparr>np_last := (np_last st)(c := (np_last st c)(a := l)), np_num := (np_num st)(c := (np_num st c)(a := k))\<rparr>"

definition wrap_fresh :: "nat \<Rightarrow> bool \<Rightarrow> node_pool \<Rightarrow> addr \<times> node_pool" where
  "wrap_fresh wk oversized st =
     (np_brk st, st\<lparr>np_home := (np_home st)(np_brk st := wk), np_over := (np_over st)(np_brk st := oversized),
        np_next := (np_next st)(np_brk st := None), np_brk := np_brk st + 1\<rparr>)"

definition node_take :: "nat \<Rightarrow> node_pool \<Rightarrow> addr option \<times> node_pool" where
  "node_take wk st =
     (case np_head st (Sl_Local wk) of
        Some node \<Rightarrow> (Some node, set_head (Sl_Local wk) (np_next st node) st)
      | None \<Rightarrow>
          (let h = np_head st (Sl_Remote wk);
               st = set_head (Sl_Remote wk) None st
           in case h of
                Some node \<Rightarrow> (Some node, set_head (Sl_Local wk) (np_next st node) st)
              | None \<Rightarrow> (None, st)))"

definition node_give :: "nat \<Rightarrow> nat \<Rightarrow> addr \<Rightarrow> node_pool \<Rightarrow> node_pool" where
  "node_give threshold cur node st =
     (let home = np_home st node
      in if home = cur then
           set_head (Sl_Local cur) (Some node) (set_next node (np_head st (Sl_Local cur)) st)
         else if np_num st cur home < threshold then
           set_head (Sl_Pro cur home) (Some node)
             (set_pro cur home (if np_num st cur home = 0 then Some node else np_last st cur home)
                (np_num st cur home + 1) (set_next node (np_head st (Sl_Pro cur home)) st))
         else
           (let old_first = np_head st (Sl_Pro cur home);
                old_last = the (np_last st cur home);
                st = set_next old_last (np_head st (Sl_Remote home)) st;
                st = set_head (Sl_Remote home) old_first st;
                st = set_next node None st
            in set_head (Sl_Pro cur home) (Some node) (set_pro cur home (Some node) 1 st)))"

text \<open>Freeing a chain at drop: the nodes met, in order; \<open>None\<close> if \<open>fuel\<close> runs out.\<close>

fun free_chain :: "(addr \<Rightarrow> addr option) \<Rightarrow> nat \<Rightarrow> addr option \<Rightarrow> addr list option" where
  "free_chain nx fuel None = Some []"
| "free_chain nx 0 (Some p) = None"
| "free_chain nx (Suc fuel) (Some p) = map_option (\<lambda>ps. p # ps) (free_chain nx fuel (nx p))"

definition worker_slots :: "nat \<Rightarrow> nat \<Rightarrow> slot list" where
  "worker_slots n wk = Sl_Local wk # Sl_Remote wk # map (Sl_Pro wk) [0..<n]"

fun free_slots :: "node_pool \<Rightarrow> slot list \<Rightarrow> addr list option" where
  "free_slots st [] = Some []"
| "free_slots st (s # ss) =
     (case free_chain (np_next st) (np_brk st) (np_head st s) of
        None \<Rightarrow> None
      | Some ps \<Rightarrow> map_option (\<lambda>qs. ps @ qs) (free_slots st ss))"

definition drop_all_nodes :: "nat \<Rightarrow> node_pool \<Rightarrow> addr list option" where
  "drop_all_nodes n st = free_slots st (concat (map (worker_slots n) [0..<n]))"

section \<open>The lists the links stand for\<close>

lemma chain_free: "chain nx p xs \<Longrightarrow> length xs \<le> fuel \<Longrightarrow> free_chain nx fuel p = Some xs"
proof (induction xs arbitrary: p fuel)
  case (Cons x xs)
  then show ?case by (cases fuel) auto
qed simp

definition pool_rep :: "node_pool \<Rightarrow> (slot \<Rightarrow> addr list) \<Rightarrow> bool" where
  "pool_rep st Ls \<longleftrightarrow>
     (\<forall>s. chain (np_next st) (np_head st s) (Ls s) \<and> distinct (Ls s) \<and> (\<forall>x \<in> set (Ls s). x < np_brk st)) \<and>
     (\<forall>s s' x. x \<in> set (Ls s) \<and> x \<in> set (Ls s') \<longrightarrow> s = s') \<and>
     (\<forall>c a. np_num st c a = length (Ls (Sl_Pro c a)) \<and>
        (Ls (Sl_Pro c a) \<noteq> [] \<longrightarrow> np_last st c a = Some (last (Ls (Sl_Pro c a)))))"

text \<open>The same operations on the lists.\<close>

definition abs_take :: "nat \<Rightarrow> (slot \<Rightarrow> addr list) \<Rightarrow> addr option \<times> (slot \<Rightarrow> addr list)" where
  "abs_take wk Ls =
     (case Ls (Sl_Local wk) of
        x # xs \<Rightarrow> (Some x, Ls(Sl_Local wk := xs))
      | [] \<Rightarrow> (case Ls (Sl_Remote wk) of
                 x # xs \<Rightarrow> (Some x, Ls(Sl_Local wk := xs, Sl_Remote wk := []))
               | [] \<Rightarrow> (None, Ls)))"

definition abs_give :: "nat \<Rightarrow> nat \<Rightarrow> nat \<Rightarrow> addr \<Rightarrow> (slot \<Rightarrow> addr list) \<Rightarrow> (slot \<Rightarrow> addr list)" where
  "abs_give threshold cur home node Ls =
     (if home = cur then Ls(Sl_Local cur := node # Ls (Sl_Local cur))
      else if length (Ls (Sl_Pro cur home)) < threshold
      then Ls(Sl_Pro cur home := node # Ls (Sl_Pro cur home))
      else Ls(Sl_Remote home := Ls (Sl_Pro cur home) @ Ls (Sl_Remote home), Sl_Pro cur home := [node]))"

lemma pool_rep_new: "pool_rep new_node_pool (\<lambda>_. [])"
  by (simp add: pool_rep_def new_node_pool_def)

lemma pool_repD:
  assumes "pool_rep st Ls"
  shows "chain (np_next st) (np_head st s) (Ls s)" and "distinct (Ls s)"
    and "x \<in> set (Ls s) \<Longrightarrow> x < np_brk st" and "x \<in> set (Ls s) \<Longrightarrow> x \<in> set (Ls s') \<Longrightarrow> s = s'"
    and "np_num st c a = length (Ls (Sl_Pro c a))"
    and "Ls (Sl_Pro c a) \<noteq> [] \<Longrightarrow> np_last st c a = Some (last (Ls (Sl_Pro c a)))"
  using assms unfolding pool_rep_def by blast+

text \<open>A list may lose nodes or, when others lose them, gain them.\<close>

lemma pool_rep_shrink:
  assumes "pool_rep st Ls" and "s = Sl_Local wk"
    and "chain (np_next st) p xs" and "distinct xs" and "set xs \<subseteq> set (Ls s)"
  shows "pool_rep (set_head s p st) (Ls(s := xs))"
proof -
  note D = pool_repD [OF assms(1)]
  let ?st = "set_head s p st" and ?Ls = "Ls(s := xs)"
  have "chain (np_next ?st) (np_head ?st t) (?Ls t) \<and> distinct (?Ls t) \<and> (\<forall>x \<in> set (?Ls t). x < np_brk ?st)" for t
    using D(1-3) assms(3-5) by auto
  moreover have "x \<in> set (?Ls t) \<and> x \<in> set (?Ls t') \<longrightarrow> t = t'" for t t' x
    using D(4) [of x] assms(5) by (auto split: if_splits)
  moreover have "np_num ?st c a = length (?Ls (Sl_Pro c a)) \<and>
        (?Ls (Sl_Pro c a) \<noteq> [] \<longrightarrow> np_last ?st c a = Some (last (?Ls (Sl_Pro c a))))" for c a
    using D(5,6) assms(2) by simp
  ultimately show ?thesis unfolding pool_rep_def by blast
qed

lemma pool_rep_drain:
  assumes "pool_rep st Ls" and "Ls (Sl_Local wk) = []"
  shows "pool_rep (set_head (Sl_Local wk) (np_head st (Sl_Remote wk)) (set_head (Sl_Remote wk) None st))
    (Ls(Sl_Local wk := Ls (Sl_Remote wk), Sl_Remote wk := []))"
proof -
  note D = pool_repD [OF assms(1)]
  let ?st = "set_head (Sl_Local wk) (np_head st (Sl_Remote wk)) (set_head (Sl_Remote wk) None st)"
  let ?Ls = "Ls(Sl_Local wk := Ls (Sl_Remote wk), Sl_Remote wk := [])"
  have "chain (np_next ?st) (np_head ?st s) (?Ls s) \<and> distinct (?Ls s) \<and> (\<forall>x \<in> set (?Ls s). x < np_brk ?st)" for s
    using D(1-3) by (cases "s = Sl_Local wk \<or> s = Sl_Remote wk") auto
  moreover have "x \<in> set (?Ls s) \<and> x \<in> set (?Ls s') \<longrightarrow> s = s'" for s s' x
    using D(4) [of x] by (auto split: if_splits)
  moreover have "np_num ?st c a = length (?Ls (Sl_Pro c a)) \<and>
        (?Ls (Sl_Pro c a) \<noteq> [] \<longrightarrow> np_last ?st c a = Some (last (?Ls (Sl_Pro c a))))" for c a
    using D(5,6) by simp
  ultimately show ?thesis unfolding pool_rep_def by blast
qed

lemma node_take_rep:
  assumes "pool_rep st Ls"
  shows "fst (node_take wk st) = fst (abs_take wk Ls) \<and> pool_rep (snd (node_take wk st)) (snd (abs_take wk Ls))"
proof -
  note D = pool_repD [OF assms]
  note L = D(1) [of "Sl_Local wk"] and R = D(1) [of "Sl_Remote wk"]
  show ?thesis
  proof (cases "Ls (Sl_Local wk)")
    case (Cons x xs)
    with L have h: "np_head st (Sl_Local wk) = Some x" "chain (np_next st) (np_next st x) xs" by simp_all
    have "pool_rep (set_head (Sl_Local wk) (np_next st x) st) (Ls(Sl_Local wk := xs))"
      by (rule pool_rep_shrink [OF assms refl h(2)]) (use Cons D(2) [of "Sl_Local wk"] in auto)
    with h(1) Cons show ?thesis by (simp add: node_take_def abs_take_def)
  next
    case Nil
    with L have l: "np_head st (Sl_Local wk) = None" by simp
    show ?thesis
    proof (cases "Ls (Sl_Remote wk)")
      case (Cons x xs)
      with R have h: "np_head st (Sl_Remote wk) = Some x" "chain (np_next st) (np_next st x) xs" by simp_all
      note rep = pool_rep_drain [OF assms Nil]
      have "pool_rep (set_head (Sl_Local wk) (np_next st x)
            (set_head (Sl_Local wk) (np_head st (Sl_Remote wk)) (set_head (Sl_Remote wk) None st)))
          ((Ls(Sl_Local wk := Ls (Sl_Remote wk), Sl_Remote wk := []))(Sl_Local wk := xs))"
        by (rule pool_rep_shrink [OF rep refl]) (use h Cons D(2) [of "Sl_Remote wk"] in auto)
      then have "pool_rep (set_head (Sl_Local wk) (np_next st x) (set_head (Sl_Remote wk) None st))
          (Ls(Sl_Local wk := xs, Sl_Remote wk := []))"
        by (simp add: fun_upd_twist)
      with h(1) l Cons Nil show ?thesis by (simp add: node_take_def abs_take_def Let_def)
    next
      case Nil2: Nil
      with R have h: "np_head st (Sl_Remote wk) = None" by simp
      have "set_head (Sl_Remote wk) None st = st" using h by (simp add: fun_upd_idem)
      with h l Nil Nil2 assms show ?thesis by (simp add: node_take_def abs_take_def Let_def)
    qed
  qed
qed

text \<open>Linking a new node in at the head of a list.\<close>

lemma pool_rep_push:
  assumes "pool_rep st Ls" and "\<forall>s. node \<notin> set (Ls s)" and "node < np_brk st"
    and "\<forall>c a. s = Sl_Pro c a \<longrightarrow>
        np_num st' c a = Suc (np_num st c a) \<and> np_last st' c a = (if np_num st c a = 0 then Some node else np_last st c a)"
    and "\<forall>c a. s \<noteq> Sl_Pro c a \<longrightarrow> np_num st' c a = np_num st c a \<and> np_last st' c a = np_last st c a"
    and "np_next st' = (np_next st)(node := np_head st s)" and "np_head st' = (np_head st)(s := Some node)"
    and "np_brk st' = np_brk st"
  shows "pool_rep st' (Ls(s := node # Ls s))"
proof -
  note D = pool_repD [OF assms(1)]
  let ?Ls = "Ls(s := node # Ls s)"
  have "chain (np_next st') (np_head st' t) (?Ls t) \<and> distinct (?Ls t) \<and> (\<forall>x \<in> set (?Ls t). x < np_brk st')" for t
    using D(1-3) assms(2,3,6-8) by (cases "t = s") (auto simp: chain_frame)
  moreover have "x \<in> set (?Ls t) \<and> x \<in> set (?Ls t') \<longrightarrow> t = t'" for t t' x
    using D(4) [of x] assms(2) by (auto split: if_splits)
  moreover have "np_num st' c a = length (?Ls (Sl_Pro c a)) \<and>
        (?Ls (Sl_Pro c a) \<noteq> [] \<longrightarrow> np_last st' c a = Some (last (?Ls (Sl_Pro c a))))" for c a
    using D(5,6) [of c a] assms(4,5) by (cases "s = Sl_Pro c a") auto
  ultimately show ?thesis unfolding pool_rep_def by blast
qed

text \<open>Moving a full staging list into the mailbox of its home.\<close>

lemma pool_rep_flush:
  assumes "pool_rep st Ls" and "Ls (Sl_Pro cur home) \<noteq> []"
  shows "pool_rep
      (set_head (Sl_Remote home) (np_head st (Sl_Pro cur home))
        (set_head (Sl_Pro cur home) None
          (set_pro cur home None 0 (set_next (the (np_last st cur home)) (np_head st (Sl_Remote home)) st))))
      (Ls(Sl_Remote home := Ls (Sl_Pro cur home) @ Ls (Sl_Remote home), Sl_Pro cur home := []))"
    (is "pool_rep ?st ?Ls")
proof -
  note D = pool_repD [OF assms(1)]
  let ?P = "Ls (Sl_Pro cur home)" and ?R = "Ls (Sl_Remote home)"
  have l: "the (np_last st cur home) = last ?P" using D(6) [OF assms(2)] by simp
  have in_p: "last ?P \<in> set ?P" using assms(2) by simp
  have apart: "x \<in> set ?P \<Longrightarrow> x \<notin> set ?R" for x using D(4) [of x "Sl_Pro cur home" "Sl_Remote home"] by auto
  have other: "s \<noteq> Sl_Pro cur home \<Longrightarrow> last ?P \<notin> set (Ls s)" for s using D(4) [OF in_p, of s] by auto
  have nx: "np_next ?st = (np_next st)(last ?P := np_head st (Sl_Remote home))" using l by simp
  have joined: "chain (np_next ?st) (np_head st (Sl_Pro cur home)) (?P @ ?R)"
    unfolding nx using assms(2) D(1,2) apart in_p by (intro chain_append) auto
  have "chain (np_next ?st) (np_head ?st s) (?Ls s)" for s
  proof (cases "s = Sl_Remote home \<or> s = Sl_Pro cur home")
    case True
    with joined show ?thesis by auto
  next
    case False
    then have "chain (np_next ?st) (np_head st s) (Ls s)"
      unfolding nx using D(1) [of s] other by (simp add: chain_frame del: fun_upd_apply)
    with False show ?thesis by simp
  qed
  moreover have "distinct (?Ls s) \<and> (\<forall>x \<in> set (?Ls s). x < np_brk ?st)" for s
    using D(2,3) apart by auto
  moreover have "x \<in> set (?Ls s) \<and> x \<in> set (?Ls s') \<longrightarrow> s = s'" for s s' x
    using D(4) [of x] by (auto split: if_splits)
  moreover have "np_num ?st c a = length (?Ls (Sl_Pro c a)) \<and>
        (?Ls (Sl_Pro c a) \<noteq> [] \<longrightarrow> np_last ?st c a = Some (last (?Ls (Sl_Pro c a))))" for c a
    using D(5,6) [of c a] by auto
  ultimately show ?thesis unfolding pool_rep_def by blast
qed

lemma node_give_rep:
  assumes rep: "pool_rep st Ls" and fresh: "\<forall>s. node \<notin> set (Ls s)" and brk: "node < np_brk st" and th: "1 \<le> threshold"
  shows "pool_rep (node_give threshold cur node st) (abs_give threshold cur (np_home st node) node Ls)"
proof -
  let ?home = "np_home st node"
  note D = pool_repD [OF rep]
  consider (own) "?home = cur" | (stage) "?home \<noteq> cur" "np_num st cur ?home < threshold"
    | (flush) "?home \<noteq> cur" "\<not> np_num st cur ?home < threshold" by blast
  then show ?thesis
  proof cases
    case own
    then show ?thesis
      using pool_rep_push [OF rep fresh brk, of "Sl_Local cur"] by (simp add: node_give_def abs_give_def Let_def)
  next
    case stage
    have "pool_rep (node_give threshold cur node st) (Ls(Sl_Pro cur ?home := node # Ls (Sl_Pro cur ?home)))"
      by (rule pool_rep_push [OF rep fresh brk])
        (use stage in \<open>auto simp: node_give_def Let_def\<close>)
    then show ?thesis
      using stage D(5) [of cur ?home] by (simp add: abs_give_def)
  next
    case flush
    have ne: "Ls (Sl_Pro cur ?home) \<noteq> []" using flush(2) D(5) [of cur ?home] th by auto
    let ?st1 = "set_head (Sl_Remote ?home) (np_head st (Sl_Pro cur ?home))
        (set_head (Sl_Pro cur ?home) None
          (set_pro cur ?home None 0 (set_next (the (np_last st cur ?home)) (np_head st (Sl_Remote ?home)) st)))"
    let ?L1 = "Ls(Sl_Remote ?home := Ls (Sl_Pro cur ?home) @ Ls (Sl_Remote ?home), Sl_Pro cur ?home := [])"
    note r1 = pool_rep_flush [OF rep ne]
    have fresh1: "\<forall>s. node \<notin> set (?L1 s)" using fresh by auto
    have "pool_rep (node_give threshold cur node st) (?L1(Sl_Pro cur ?home := node # ?L1 (Sl_Pro cur ?home)))"
      by (rule pool_rep_push [OF r1 fresh1])
        (use flush brk in \<open>auto simp: node_give_def Let_def\<close>)
    then show ?thesis
      using flush D(5) [of cur ?home] by (simp add: abs_give_def Let_def)
  qed
qed

section \<open>ReturnPool\<close>

definition return_pool_alloc :: "nat \<Rightarrow> nat \<Rightarrow> nat \<Rightarrow> node_pool \<Rightarrow> addr \<times> node_pool" where
  "return_pool_alloc stack_size wk sz st =
     (if sz > stack_size then wrap_fresh wk True st
      else case node_take wk st of
             (Some node, st) \<Rightarrow> (node, st)
           | (None, st) \<Rightarrow> wrap_fresh wk False st)"

text \<open>The result says which node was freed at once, if any.\<close>

definition return_pool_dealloc :: "nat \<Rightarrow> nat \<Rightarrow> addr \<Rightarrow> node_pool \<Rightarrow> addr option \<times> node_pool" where
  "return_pool_dealloc threshold cur node st =
     (if np_over st node then (Some node, st) else (None, node_give threshold cur node st))"

text \<open>
  Any run of a pool with \<open>n\<close> workers: the nodes in use and those freed.  A node is given back by
  whoever holds it, on any worker.
\<close>

inductive pool_run :: "nat \<Rightarrow> nat \<Rightarrow> nat \<Rightarrow> node_pool \<Rightarrow> addr list \<Rightarrow> addr list \<Rightarrow> bool"
  for n threshold stack_size :: nat where
  pool_new: "pool_run n threshold stack_size new_node_pool [] []"
| pool_alloc: "pool_run n threshold stack_size st live freed \<Longrightarrow> wk < n \<Longrightarrow>
    return_pool_alloc stack_size wk sz st = (node, st') \<Longrightarrow> pool_run n threshold stack_size st' (node # live) freed"
| pool_dealloc: "pool_run n threshold stack_size st live freed \<Longrightarrow> cur < n \<Longrightarrow> node \<in> set live \<Longrightarrow>
    return_pool_dealloc threshold cur node st = (f, st') \<Longrightarrow>
    pool_run n threshold stack_size st' (remove1 node live) (case f of Some x \<Rightarrow> x # freed | None \<Rightarrow> freed)"

section \<open>Every node is accounted for\<close>

definition all_slots :: "nat \<Rightarrow> slot list" where
  "all_slots n = concat (map (worker_slots n) [0..<n])"

definition listed :: "slot list \<Rightarrow> (slot \<Rightarrow> addr list) \<Rightarrow> addr multiset" where
  "listed ss Ls = (\<Sum>s\<leftarrow>ss. mset (Ls s))"

lemma in_all_slots:
  "s \<in> set (all_slots n) \<longleftrightarrow>
     (case s of Sl_Local w \<Rightarrow> w < n | Sl_Remote w \<Rightarrow> w < n | Sl_Pro c a \<Rightarrow> c < n \<and> a < n)"
  by (cases s) (auto simp: all_slots_def worker_slots_def image_iff)

lemma distinct_worker_slots: "distinct (concat (map (worker_slots n) [0..<m]))"
proof (induction m)
  case (Suc m)
  have "distinct (worker_slots n m)"
    by (auto simp: worker_slots_def distinct_map intro: inj_onI)
  moreover have "set (concat (map (worker_slots n) [0..<m])) \<inter> set (worker_slots n m) = {}"
    by (auto simp: worker_slots_def)
  ultimately show ?case using Suc by simp
qed simp

lemma distinct_all_slots: "distinct (all_slots n)"
  by (simp add: all_slots_def distinct_worker_slots)

lemma listed_other: "s \<notin> set ss \<Longrightarrow> listed ss (Ls(s := xs)) = listed ss Ls"
  unfolding listed_def by (rule arg_cong [where f = sum_list]) auto

lemma listed_upd:
  "distinct ss \<Longrightarrow> s \<in> set ss \<Longrightarrow> listed ss (Ls(s := xs)) + mset (Ls s) = listed ss Ls + mset xs"
proof (induction ss)
  case (Cons t ss)
  show ?case
  proof (cases "t = s")
    case True
    with Cons.prems listed_other [of s ss Ls xs] show ?thesis by (simp add: listed_def ac_simps)
  next
    case False
    with Cons have "listed ss (Ls(s := xs)) + mset (Ls s) = listed ss Ls + mset xs"
      by (simp del: fun_upd_apply)
    moreover have "listed (t # ss) Ks = mset (Ks t) + listed ss Ks" for Ks by (simp add: listed_def)
    ultimately show ?thesis using False by (simp add: ac_simps del: fun_upd_apply) (simp add: fun_upd_other ac_simps)
  qed
qed simp

lemma in_listed: "x \<in># listed ss Ls \<longleftrightarrow> (\<exists>s \<in> set ss. x \<in> set (Ls s))"
  by (induction ss) (auto simp: listed_def)

text \<open>Taking removes one node; giving adds one.\<close>

lemma abs_take_listed:
  assumes "distinct ss" and "Sl_Local wk \<in> set ss" and "Sl_Remote wk \<in> set ss" and "abs_take wk Ls = (r, Ls')"
  shows "listed ss Ls = listed ss Ls' + (case r of Some x \<Rightarrow> {#x#} | None \<Rightarrow> {#})"
proof (cases "Ls (Sl_Local wk)")
  case (Cons x xs)
  with assms listed_upd [OF assms(1,2), of Ls xs] show ?thesis by (auto simp: abs_take_def)
next
  case Nil
  show ?thesis
  proof (cases "Ls (Sl_Remote wk)")
    case (Cons x xs)
    have "listed ss (Ls(Sl_Local wk := xs)) = listed ss Ls + mset xs"
      using listed_upd [OF assms(1,2), of Ls xs] Nil by simp
    moreover have "listed ss (Ls(Sl_Local wk := xs, Sl_Remote wk := [])) + mset (x # xs) = listed ss (Ls(Sl_Local wk := xs))"
      using listed_upd [OF assms(1,3), of "Ls(Sl_Local wk := xs)" "[]"] Cons by simp
    ultimately show ?thesis
      using assms(4) Nil Cons by (auto simp: abs_take_def)
  qed (use assms(4) Nil in \<open>auto simp: abs_take_def\<close>)
qed

lemma abs_give_listed:
  assumes "distinct ss" and "Sl_Local cur \<in> set ss" and "Sl_Remote home \<in> set ss" and "Sl_Pro cur home \<in> set ss"
  shows "listed ss (abs_give threshold cur home node Ls) = add_mset node (listed ss Ls)"
proof -
  let ?P = "Ls (Sl_Pro cur home)" and ?R = "Ls (Sl_Remote home)"
  have "listed ss (Ls(Sl_Remote home := ?P @ ?R)) = listed ss Ls + mset ?P"
    using listed_upd [OF assms(1,3), of Ls "?P @ ?R"] by simp
  moreover have "listed ss (Ls(Sl_Remote home := ?P @ ?R, Sl_Pro cur home := [node])) + mset ?P
      = add_mset node (listed ss (Ls(Sl_Remote home := ?P @ ?R)))"
    using listed_upd [OF assms(1,4), of "Ls(Sl_Remote home := ?P @ ?R)" "[node]"] by simp
  ultimately show ?thesis
    using listed_upd [OF assms(1,2), of Ls "node # Ls (Sl_Local cur)"]
      listed_upd [OF assms(1,4), of Ls "node # ?P"]
    by (auto simp: abs_give_def)
qed

definition pool_accounts :: "nat \<Rightarrow> node_pool \<Rightarrow> addr list \<Rightarrow> addr list \<Rightarrow> (slot \<Rightarrow> addr list) \<Rightarrow> bool" where
  "pool_accounts n st live freed Ls \<longleftrightarrow>
     pool_rep st Ls \<and>
     listed (all_slots n) Ls + mset live + mset freed = mset [0..<np_brk st] \<and>
     (\<forall>s. s \<notin> set (all_slots n) \<longrightarrow> Ls s = []) \<and>
     (\<forall>x < np_brk st. np_home st x < n) \<and>
     (\<forall>w. \<forall>x \<in> set (Ls (Sl_Local w)) \<union> set (Ls (Sl_Remote w)). np_home st x = w \<and> \<not> np_over st x) \<and>
     (\<forall>c a. \<forall>x \<in> set (Ls (Sl_Pro c a)). np_home st x = a \<and> \<not> np_over st x)"

lemma accounts_new: "pool_accounts n new_node_pool [] [] (\<lambda>_. [])"
  by (simp add: pool_accounts_def pool_rep_new listed_def) (simp add: new_node_pool_def sum_list_0)

lemma accounts_live:
  assumes "pool_accounts n st live freed Ls" and "x \<in> set live"
  shows "x < np_brk st" and "x \<notin> set (Ls s)"
proof -
  have eq: "listed (all_slots n) Ls + mset live + mset freed = mset [0..<np_brk st]"
    using assms(1) by (simp add: pool_accounts_def)
  have "x \<in># mset [0..<np_brk st]"
    unfolding eq [symmetric] using assms(2) by simp
  then show "x < np_brk st" by simp
  show "x \<notin> set (Ls s)"
  proof
    assume x: "x \<in> set (Ls s)"
    then have "s \<in> set (all_slots n)"
      using assms(1) by (auto simp: pool_accounts_def)
    with x have "x \<in># listed (all_slots n) Ls" by (auto simp: in_listed)
    then have "0 < count (listed (all_slots n) Ls) x" by simp
    moreover have "0 < count (mset live) x" using assms(2) by simp
    ultimately have "2 \<le> count (listed (all_slots n) Ls + mset live + mset freed) x"
      by (simp only: count_union)
    moreover have "count (mset [0..<np_brk st]) x \<le> 1"
      by (metis distinct_count_atmost_1 distinct_upt le_refl le0)
    ultimately show False by (simp add: eq)
  qed
qed

lemma rep_wrap_fresh:
  assumes "pool_rep st Ls"
  shows "pool_rep (snd (wrap_fresh wk b st)) Ls"
proof -
  note D = pool_repD [OF assms]
  have "np_brk st \<notin> set (Ls s)" for s using D(3) [of "np_brk st" s] by auto
  then show ?thesis
    using assms unfolding pool_rep_def wrap_fresh_def
    by (auto simp: chain_frame less_Suc_eq simp del: fun_upd_apply)
qed

lemma accounts_fresh:
  assumes "pool_accounts n st live freed Ls" and "wk < n" and "wrap_fresh wk b st = (node, st')"
  shows "pool_accounts n st' (node # live) freed Ls"
proof -
  have st': "st' = snd (wrap_fresh wk b st)" and node: "node = np_brk st"
    using assms(3) by (auto simp: wrap_fresh_def)
  have rep: "pool_rep st' Ls" using assms(1) rep_wrap_fresh by (simp add: st' pool_accounts_def)
  have in_brk: "x \<in> set (Ls s) \<Longrightarrow> x < np_brk st" for x s
    using assms(1) by (auto simp: pool_accounts_def dest: pool_repD(3))
  have home: "np_home st' x = (if x = np_brk st then wk else np_home st x)"
    and over: "np_over st' x = (if x = np_brk st then b else np_over st x)" for x
    by (simp_all add: st' wrap_fresh_def)
  have "np_brk st' = Suc (np_brk st)" by (simp add: st' wrap_fresh_def)
  with assms(1,2) rep show ?thesis
    by (auto simp: pool_accounts_def node home over less_Suc_eq dest: in_brk)
qed

lemma accounts_alloc:
  assumes acc: "pool_accounts n st live freed Ls" and wk: "wk < n"
    and alloc: "return_pool_alloc stack_size wk sz st = (node, st')"
  shows "node \<notin> set live \<and> np_home st' node = wk \<and> (np_over st' node \<longleftrightarrow> stack_size < sz) \<and>
    (\<exists>Ls'. pool_accounts n st' (node # live) freed Ls')"
proof (cases "stack_size < sz")
  case True
  with alloc have w: "wrap_fresh wk True st = (node, st')" by (simp add: return_pool_alloc_def)
  have "node \<notin> set live"
    using accounts_live(1) [OF acc, of node] w by (auto simp: wrap_fresh_def)
  with accounts_fresh [OF acc wk w] w True show ?thesis by (auto simp: wrap_fresh_def)
next
  case False
  obtain r st1 where t: "node_take wk st = (r, st1)" by fastforce
  obtain Ls1 where a: "abs_take wk Ls = (r, Ls1)" and rep: "pool_rep st1 Ls1"
    using node_take_rep [of st Ls wk] acc t by (metis fst_conv pool_accounts_def prod.collapse snd_conv)
  have fields: "np_home st1 = np_home st" "np_over st1 = np_over st" "np_brk st1 = np_brk st"
    using t by (auto simp: node_take_def Let_def split: option.splits)
  have sum: "listed (all_slots n) Ls = listed (all_slots n) Ls1 + (case r of Some x \<Rightarrow> {#x#} | None \<Rightarrow> {#})"
    by (rule abs_take_listed [OF distinct_all_slots _ _ a]) (use wk in \<open>simp_all add: in_all_slots\<close>)
  have sub: "set (Ls1 s) \<subseteq> set (Ls s) \<or> s = Sl_Local wk \<and> set (Ls1 s) \<subseteq> set (Ls (Sl_Remote wk))" for s
    using a by (auto simp: abs_take_def split: list.splits if_splits)
  show ?thesis
  proof (cases r)
    case None
    with False t alloc have w: "wrap_fresh wk False st1 = (node, st')" by (simp add: return_pool_alloc_def)
    have "Ls1 = Ls" using a None by (auto simp: abs_take_def split: list.splits)
    with acc rep fields have acc1: "pool_accounts n st1 live freed Ls1" by (simp add: pool_accounts_def)
    have "node \<notin> set live"
      using accounts_live(1) [OF acc1, of node] w by (auto simp: wrap_fresh_def)
    with accounts_fresh [OF acc1 wk w] w False show ?thesis by (auto simp: wrap_fresh_def)
  next
    case (Some x)
    with False t alloc have x: "x = node" "st' = st1" by (simp_all add: return_pool_alloc_def)
    have mem: "node \<in> set (Ls (Sl_Local wk)) \<union> set (Ls (Sl_Remote wk))"
      using a Some x by (auto simp: abs_take_def split: list.splits)
    have "node \<notin> set live" using accounts_live(2) [OF acc, of node] mem by auto
    moreover have "np_home st' node = wk \<and> \<not> np_over st' node"
      using acc mem fields x by (auto simp: pool_accounts_def)
    moreover have "pool_accounts n st' (node # live) freed Ls1"
      unfolding pool_accounts_def x
    proof (intro conjI)
      show "pool_rep st1 Ls1" by (rule rep)
      show "listed (all_slots n) Ls1 + mset (node # live) + mset freed = mset [0..<np_brk st1]"
        using acc sum Some x fields by (simp add: pool_accounts_def)
      show "\<forall>s. s \<notin> set (all_slots n) \<longrightarrow> Ls1 s = []"
      proof (intro allI impI)
        fix s
        assume s: "s \<notin> set (all_slots n)"
        with wk have "s \<noteq> Sl_Local wk" by (auto simp: in_all_slots)
        with sub [of s] s acc show "Ls1 s = []" by (auto simp: pool_accounts_def)
      qed
      show "\<forall>y < np_brk st1. np_home st1 y < n" using acc fields by (simp add: pool_accounts_def)
      show "\<forall>w. \<forall>y \<in> set (Ls1 (Sl_Local w)) \<union> set (Ls1 (Sl_Remote w)). np_home st1 y = w \<and> \<not> np_over st1 y"
        using acc fields sub [of "Sl_Local _"] sub [of "Sl_Remote _"] unfolding pool_accounts_def by fastforce
      show "\<forall>c a. \<forall>y \<in> set (Ls1 (Sl_Pro c a)). np_home st1 y = a \<and> \<not> np_over st1 y"
        using acc fields sub [of "Sl_Pro _ _"] unfolding pool_accounts_def by fastforce
    qed
    ultimately show ?thesis using False by auto
  qed
qed

lemma mset_take_out:
  assumes "x \<in> set xs"
  obtains R where "mset xs = add_mset x R" and "mset (remove1 x xs) = R"
  using assms by (metis insert_DiffM mset_remove1 set_mset_mset)

lemma accounts_dealloc:
  assumes acc: "pool_accounts n st live freed Ls" and cur: "cur < n" and node: "node \<in> set live"
    and th: "1 \<le> threshold" and d: "return_pool_dealloc threshold cur node st = (f, st')"
  shows "\<exists>Ls'. pool_accounts n st' (remove1 node live) (case f of Some x \<Rightarrow> x # freed | None \<Rightarrow> freed) Ls'"
proof (cases "np_over st node")
  case True
  obtain R where R: "mset live = add_mset node R" "mset (remove1 node live) = R"
    using mset_take_out [OF node] .
  from True d have "f = Some node" "st' = st" by (simp_all add: return_pool_dealloc_def)
  moreover have "pool_accounts n st (remove1 node live) (node # freed) Ls"
    using acc R by (simp add: pool_accounts_def)
  ultimately show ?thesis by auto
next
  case False
  obtain R where R: "mset live = add_mset node R" "mset (remove1 node live) = R"
    using mset_take_out [OF node] .
  from False d have f: "f = None" "st' = node_give threshold cur node st" by (simp_all add: return_pool_dealloc_def)
  let ?home = "np_home st node"
  let ?Ls = "abs_give threshold cur ?home node Ls"
  have rep: "pool_rep st Ls" using acc by (simp add: pool_accounts_def)
  have brk: "node < np_brk st" and out: "\<forall>s. node \<notin> set (Ls s)" using accounts_live [OF acc node] by simp_all
  have home: "?home < n" using acc brk by (simp add: pool_accounts_def)
  have fields: "np_home st' = np_home st" "np_over st' = np_over st" "np_brk st' = np_brk st"
    by (simp_all add: f node_give_def Let_def)
  have sum: "listed (all_slots n) ?Ls = add_mset node (listed (all_slots n) Ls)"
    by (rule abs_give_listed [OF distinct_all_slots]) (use cur home in \<open>simp_all add: in_all_slots\<close>)
  have "pool_accounts n st' (remove1 node live) freed ?Ls"
    unfolding pool_accounts_def
  proof (intro conjI)
    show "pool_rep st' ?Ls" unfolding f by (rule node_give_rep [OF rep out brk th])
    show "listed (all_slots n) ?Ls + mset (remove1 node live) + mset freed = mset [0..<np_brk st']"
      using R acc sum fields by (simp add: pool_accounts_def)
    show "\<forall>s. s \<notin> set (all_slots n) \<longrightarrow> ?Ls s = []"
      using acc cur home by (auto simp: pool_accounts_def abs_give_def in_all_slots)
    show "\<forall>y < np_brk st'. np_home st' y < n" using acc fields by (simp add: pool_accounts_def)
    show "\<forall>w. \<forall>y \<in> set (?Ls (Sl_Local w)) \<union> set (?Ls (Sl_Remote w)). np_home st' y = w \<and> \<not> np_over st' y"
      using acc fields False by (auto simp: pool_accounts_def abs_give_def split: if_splits)
    show "\<forall>c a. \<forall>y \<in> set (?Ls (Sl_Pro c a)). np_home st' y = a \<and> \<not> np_over st' y"
      using acc fields False by (auto simp: pool_accounts_def abs_give_def split: if_splits)
  qed
  with f show ?thesis by auto
qed

lemma pool_run_accounts:
  "pool_run n threshold stack_size st live freed \<Longrightarrow> 1 \<le> threshold \<Longrightarrow> \<exists>Ls. pool_accounts n st live freed Ls"
proof (induction rule: pool_run.induct)
  case pool_new
  then show ?case using accounts_new by blast
next
  case (pool_alloc st live freed wk sz node st')
  then show ?case using accounts_alloc by blast
next
  case (pool_dealloc st live freed cur node f st')
  then show ?case using accounts_dealloc by blast
qed

text \<open>
  C28: in every run of a \<open>ReturnPool\<close> the node \<open>alloc\<close> returns is not in use by anyone; it is one
  whose home is the calling worker, and it is a one-off node exactly when the request is larger
  than the pool's slots.
\<close>

theorem pool_alloc_exclusive:
  assumes "pool_run n threshold stack_size st live freed" and "1 \<le> threshold" and "wk < n"
    and "return_pool_alloc stack_size wk sz st = (node, st')"
  shows "node \<notin> set live \<and> np_home st' node = wk \<and> (np_over st' node \<longleftrightarrow> stack_size < sz)"
  using pool_run_accounts [OF assms(1,2)] accounts_alloc [OF _ assms(3,4)] by blast

text \<open>Two workers and batches of one: worker 1 gives two nodes of worker 0 back, which flushes the first.\<close>

definition pool_example :: "node_pool" where
  "pool_example = snd (return_pool_dealloc 1 1 1 (snd (return_pool_dealloc 1 1 0
     (snd (return_pool_alloc 64 0 32 (snd (return_pool_alloc 64 0 32 new_node_pool)))))))"

lemmas pool_ops = return_pool_alloc_def return_pool_dealloc_def node_take_def node_give_def wrap_fresh_def
  new_node_pool_def

lemma pool_example_run: "pool_run 2 1 64 pool_example [] []"
proof -
  define a where "a = snd (return_pool_alloc 64 0 32 new_node_pool)"
  define b where "b = snd (return_pool_alloc 64 0 32 a)"
  define c where "c = snd (return_pool_dealloc 1 1 0 b)"
  have a: "pool_run 2 1 64 a [0] []"
    by (rule pool_alloc [OF pool_new, where wk = 0 and sz = 32]) (simp_all add: a_def pool_ops)
  have b: "pool_run 2 1 64 b [1, 0] []"
    by (rule pool_alloc [OF a, where wk = 0 and sz = 32]) (simp_all add: b_def a_def pool_ops)
  have c: "pool_run 2 1 64 c (remove1 0 [1, 0]) (case None of Some x \<Rightarrow> x # [] | None \<Rightarrow> [])"
    by (rule pool_dealloc [OF b, where cur = 1]) (simp_all add: c_def b_def a_def pool_ops)
  have "fst (return_pool_dealloc 1 1 1 c) = None"
    by (simp add: c_def b_def a_def pool_ops Let_def)
  then have d: "return_pool_dealloc 1 1 1 c = (None, pool_example)"
    by (simp add: pool_example_def a_def b_def c_def prod_eq_iff)
  have "pool_run 2 1 64 pool_example (remove1 1 [1]) (case None of Some x \<Rightarrow> x # [] | None \<Rightarrow> [])"
    by (rule pool_dealloc [OF _ _ _ d]) (use c in simp_all)
  then show ?thesis by simp
qed

theorem pool_alloc_exclusive_witness:
  "\<exists>st'. return_pool_alloc 64 0 32 pool_example = (0, st') \<and>
     0 \<notin> set [] \<and> np_home st' 0 = 0 \<and> (np_over st' 0 \<longleftrightarrow> 64 < (32 :: nat))"
proof -
  obtain node st' where r: "return_pool_alloc 64 0 32 pool_example = (node, st')" by fastforce
  then have "node = 0" by (simp add: pool_example_def pool_ops)
  with r pool_alloc_exclusive [OF pool_example_run _ _ r] show ?thesis by simp
qed

lemma free_slots_rep:
  assumes "pool_rep st Ls"
  shows "free_slots st ss = Some (concat (map Ls ss))"
proof (induction ss)
  case (Cons s ss)
  note D = pool_repD [OF assms]
  have "set (Ls s) \<subseteq> {..<np_brk st}" using D(3) by auto
  then have "card (set (Ls s)) \<le> np_brk st" by (metis card_lessThan card_mono finite_lessThan)
  then have "length (Ls s) \<le> np_brk st" using D(2) [of s] by (simp add: distinct_card)
  with Cons show ?case by (simp add: chain_free [OF D(1)])
qed simp

lemma mset_concat_listed: "mset (concat (map Ls ss)) = listed ss Ls"
  by (induction ss) (simp_all add: listed_def)

text \<open>
  Dropping a \<open>ReturnPool\<close> terminates and frees each node still in one of its lists exactly once:
  the nodes freed before, those freed by the drop and those still in use are together exactly the
  nodes ever allocated.
\<close>

lemma pool_drop_frees_all:
  assumes "pool_run n threshold stack_size st live freed" and "1 \<le> threshold"
  shows "\<exists>nodes. drop_all_nodes n st = Some nodes \<and> mset nodes + mset live + mset freed = mset [0..<np_brk st]"
proof -
  obtain Ls where acc: "pool_accounts n st live freed Ls" using pool_run_accounts [OF assms] by blast
  then have "drop_all_nodes n st = Some (concat (map Ls (all_slots n)))"
    unfolding drop_all_nodes_def all_slots_def [symmetric] by (intro free_slots_rep) (simp add: pool_accounts_def)
  with acc show ?thesis by (simp add: pool_accounts_def mset_concat_listed)
qed

lemma pool_drop_frees_all_example:
  "\<exists>nodes. drop_all_nodes 2 pool_example = Some nodes \<and> mset nodes + mset [] + mset [] = mset [0..<np_brk pool_example]"
  by (rule pool_drop_frees_all [OF pool_example_run]) simp

section \<open>SimplePool\<close>

record simple_pool =
  sq_lists :: "nat \<Rightarrow> addr list"
  sq_over :: "addr \<Rightarrow> bool"
  sq_brk :: addr

definition simple_fresh :: "bool \<Rightarrow> simple_pool \<Rightarrow> addr \<times> simple_pool" where
  "simple_fresh b p = (sq_brk p, p\<lparr>sq_over := (sq_over p)(sq_brk p := b), sq_brk := sq_brk p + 1\<rparr>)"

definition simple_pool_alloc :: "nat \<Rightarrow> nat \<Rightarrow> nat \<Rightarrow> simple_pool \<Rightarrow> addr \<times> simple_pool" where
  "simple_pool_alloc stack_size wk sz p =
     (if sz > stack_size then simple_fresh True p
      else let xs = sq_lists p wk
           in if xs = [] then simple_fresh False p
              else (last xs, p\<lparr>sq_lists := (sq_lists p)(wk := butlast xs)\<rparr>))"

definition simple_pool_dealloc :: "nat \<Rightarrow> nat \<Rightarrow> addr \<Rightarrow> simple_pool \<Rightarrow> addr option \<times> simple_pool" where
  "simple_pool_dealloc cap wk node p =
     (if sq_over p node then (Some node, p)
      else if length (sq_lists p wk) < cap
      then (None, p\<lparr>sq_lists := (sq_lists p)(wk := sq_lists p wk @ [node])\<rparr>)
      else (Some node, p))"

lemma simple_pool_cap:
  "length (sq_lists p w) \<le> cap \<Longrightarrow> length (sq_lists (snd (simple_pool_dealloc cap wk node p)) w) \<le> cap"
  "length (sq_lists p w) \<le> cap \<Longrightarrow> length (sq_lists (snd (simple_pool_alloc ss wk sz p)) w) \<le> cap"
  by (auto simp: simple_pool_dealloc_def simple_pool_alloc_def simple_fresh_def Let_def)

section \<open>BlockPool and ThresholdPool\<close>

text \<open>\<open>Layout\<close>: a size and an alignment, a power of two; \<open>extend\<close> and \<open>pad_to_align\<close>.\<close>

record layout =
  ly_size :: nat
  ly_align :: nat

definition round_up_to :: "nat \<Rightarrow> nat \<Rightarrow> nat" where
  "round_up_to k a = (k + a - 1) div a * a"

definition layout_extend :: "layout \<Rightarrow> layout \<Rightarrow> layout \<times> nat" where
  "layout_extend h p =
     (let off = round_up_to (ly_size h) (ly_align p)
      in (\<lparr>ly_size = off + ly_size p, ly_align = max (ly_align h) (ly_align p)\<rparr>, off))"

definition pad_to_align :: "layout \<Rightarrow> layout" where
  "pad_to_align l = l\<lparr>ly_size := round_up_to (ly_size l) (ly_align l)\<rparr>"

definition block_header_layout :: "layout" where
  "block_header_layout = \<lparr>ly_size = 16, ly_align = 8\<rparr>"

definition block_layout :: "layout \<Rightarrow> layout \<times> nat" where
  "block_layout payload = (case layout_extend block_header_layout payload of (l, off) \<Rightarrow> (pad_to_align l, off))"

definition block_payload_of :: "layout \<Rightarrow> nat \<Rightarrow> nat" where
  "block_payload_of payload header = header + snd (block_layout payload)"

definition block_header_of :: "layout \<Rightarrow> nat \<Rightarrow> nat" where
  "block_header_of payload p = p - snd (block_layout payload)"

text \<open>Which requests a \<open>ThresholdPool\<close> serves from its block pool; the same test on alloc and dealloc.\<close>

definition threshold_pooled :: "layout \<Rightarrow> layout \<Rightarrow> bool" where
  "threshold_pooled threshold l \<longleftrightarrow> ly_size l \<le> ly_size threshold \<and> ly_align l \<le> ly_align threshold"

lemma round_up_to_facts:
  assumes "0 < a"
  shows "k \<le> round_up_to k a" and "a dvd round_up_to k a"
proof -
  have "k + a - 1 = (k + a - 1) div a * a + (k + a - 1) mod a" by simp
  moreover have "(k + a - 1) mod a < a" using assms by simp
  ultimately show "k \<le> round_up_to k a" using assms unfolding round_up_to_def by linarith
  show "a dvd round_up_to k a" by (simp add: round_up_to_def)
qed

text \<open>
  The block pool's layout is sound: for a block at an address aligned as the allocator promises,
  the payload of a request the pool serves is aligned for that request, lies inside the block behind
  the header without touching it, and leads back to its header.
\<close>

lemma block_layout_sound:
  assumes "ly_align threshold = 2 ^ i" and "ly_align req = 2 ^ j" and "threshold_pooled threshold req"
    and "ly_align (fst (block_layout threshold)) dvd block"
  shows "ly_align req dvd block_payload_of threshold block \<and>
    block + ly_size block_header_layout \<le> block_payload_of threshold block \<and>
    block_payload_of threshold block + ly_size req \<le> block + ly_size (fst (block_layout threshold)) \<and>
    block_header_of threshold (block_payload_of threshold block) = block"
proof -
  let ?off = "round_up_to 16 (ly_align threshold)"
  have pos: "0 < ly_align threshold" using assms(1) by simp
  have off: "snd (block_layout threshold) = ?off"
    and al: "ly_align (fst (block_layout threshold)) = max 8 (ly_align threshold)"
    and sz: "ly_size (fst (block_layout threshold)) = round_up_to (?off + ly_size threshold) (max 8 (ly_align threshold))"
    by (simp_all add: block_layout_def layout_extend_def block_header_layout_def pad_to_align_def Let_def)
  have "max 8 (ly_align threshold) = max (2 ^ 3) (2 ^ i)" using assms(1) by simp
  also have "(2 ^ i :: nat) dvd max (2 ^ 3) (2 ^ i)"
    by (cases "i \<le> 3") (simp_all only: max_absorb1 max_absorb2 power_increasing le_imp_power_dvd dvd_refl
        one_le_numeral nat_le_linear not_le less_imp_le)
  finally have "ly_align threshold dvd block"
    using assms(1,4) al by (metis dvd_trans)
  moreover have "ly_align req dvd ly_align threshold"
    using assms(1-3) by (simp add: threshold_pooled_def le_imp_power_dvd)
  moreover have "ly_align threshold dvd ?off" by (rule round_up_to_facts(2) [OF pos])
  ultimately have "ly_align req dvd block + ?off" by (meson dvd_add dvd_trans)
  moreover have "16 \<le> ?off" by (rule round_up_to_facts(1) [OF pos])
  moreover have "?off + ly_size threshold \<le> ly_size (fst (block_layout threshold))"
    unfolding sz by (rule round_up_to_facts(1)) simp
  moreover have "ly_size req \<le> ly_size threshold" using assms(3) by (simp add: threshold_pooled_def)
  ultimately show ?thesis
    by (simp add: block_payload_of_def block_header_of_def off block_header_layout_def)
qed

lemma block_layout_sound_example:
  "(16 :: nat) dvd block_payload_of \<lparr>ly_size = 512, ly_align = 16\<rparr> 4096 \<and>
    4096 + ly_size block_header_layout \<le> block_payload_of \<lparr>ly_size = 512, ly_align = 16\<rparr> 4096 \<and>
    block_payload_of \<lparr>ly_size = 512, ly_align = 16\<rparr> 4096 + 40
      \<le> 4096 + ly_size (fst (block_layout \<lparr>ly_size = 512, ly_align = 16\<rparr>)) \<and>
    block_header_of \<lparr>ly_size = 512, ly_align = 16\<rparr> (block_payload_of \<lparr>ly_size = 512, ly_align = 16\<rparr> 4096) = 4096"
  using block_layout_sound [of "\<lparr>ly_size = 512, ly_align = 16\<rparr>" 4 "\<lparr>ly_size = 40, ly_align = 16\<rparr>" 4 4096]
  by (simp add: threshold_pooled_def block_layout_def layout_extend_def pad_to_align_def block_header_layout_def
      round_up_to_def Let_def)

end
