(* ===== verification/Switching.thy ===== *)
theory Switching
  imports Worker_Core "HOL-Library.Monad_Syntax"
begin

text \<open>
  Context switching (\<open>stackful/worker.rs\<close>, \<open>stackful/desc.rs\<close>, \<open>dual/worker.rs\<close>,
  \<open>common/worker.rs\<close>, \<open>stackless/worker.rs\<close>): the cell of the running task, the root continuation, the
  saved contexts, the switch callbacks, and the operations a task runs on them.  A failing \<open>expect\<close> or
  assertion of the code is \<open>None\<close>.
\<close>

section \<open>State\<close>

text \<open>
  A task is a worker's root (its scheduler loop), a task with a stack, or a polled task.  A token that
  is neither running nor in the pool is parked: it is held by a wait slot, a join word or a waker word.
\<close>

datatype task = Root nat | Ult nat | Fut nat

fun is_root :: "task \<Rightarrow> bool" where
  "is_root (Root w) = True" | "is_root t = False"

fun is_poll_fn_dispatch :: "task \<Rightarrow> bool" where
  "is_poll_fn_dispatch (Fut i) = True" | "is_poll_fn_dispatch t = False"

record 'p switch_state =
  ss_ctx :: "task \<Rightarrow> usize"            \<comment> \<open>the saved context, 0 when null\<close>
  ss_cur :: "nat \<Rightarrow> task option"       \<comment> \<open>\<open>cur_task_cell\<close> of each worker\<close>
  ss_root :: "nat \<Rightarrow> task option"      \<comment> \<open>\<open>root_cont\<close> of each worker\<close>
  ss_polling :: "nat \<Rightarrow> task option"   \<comment> \<open>\<open>polling_async\<close> of each worker\<close>
  ss_yield :: "nat \<Rightarrow> bool"            \<comment> \<open>\<open>yield_requested\<close> of each worker\<close>
  ss_pool :: 'p
  ss_parked :: "task multiset"

text \<open>The run queues, as a worker uses them.\<close>

record 'p task_pool =
  tp_push :: "nat \<Rightarrow> task \<Rightarrow> 'p \<Rightarrow> 'p"
  tp_defer :: "nat \<Rightarrow> task \<Rightarrow> 'p \<Rightarrow> 'p"
  tp_next :: "nat \<Rightarrow> site \<Rightarrow> 'p \<Rightarrow> task steal \<times> 'p"
  tp_pop :: "nat \<Rightarrow> 'p \<Rightarrow> task option \<times> 'p"

definition ss_push :: "'p task_pool \<Rightarrow> nat \<Rightarrow> task \<Rightarrow> 'p switch_state \<Rightarrow> 'p switch_state" where
  "ss_push tp w c s = s\<lparr>ss_pool := tp_push tp w c (ss_pool s)\<rparr>"

definition ss_defer :: "'p task_pool \<Rightarrow> nat \<Rightarrow> task \<Rightarrow> 'p switch_state \<Rightarrow> 'p switch_state" where
  "ss_defer tp w c s = s\<lparr>ss_pool := tp_defer tp w c (ss_pool s)\<rparr>"

definition ss_park :: "task \<Rightarrow> 'p switch_state \<Rightarrow> 'p switch_state" where
  "ss_park c s = s\<lparr>ss_parked := add_mset c (ss_parked s)\<rparr>"

definition ss_unpark :: "task \<Rightarrow> 'p switch_state \<Rightarrow> 'p switch_state option" where
  "ss_unpark c s = (if c \<in># ss_parked s then Some (s\<lparr>ss_parked := ss_parked s - {#c#}\<rparr>) else None)"

section \<open>The worker's cells\<close>

definition take_cur_task :: "nat \<Rightarrow> 'p switch_state \<Rightarrow> (task \<times> 'p switch_state) option" where
  "take_cur_task w s =
     (case ss_cur s w of None \<Rightarrow> None | Some t \<Rightarrow> Some (t, s\<lparr>ss_cur := (ss_cur s)(w := None)\<rparr>))"

definition set_cur_task :: "nat \<Rightarrow> task \<Rightarrow> 'p switch_state \<Rightarrow> 'p switch_state option" where
  "set_cur_task w t s = (if ss_cur s w = None then Some (s\<lparr>ss_cur := (ss_cur s)(w \<mapsto> t)\<rparr>) else None)"

definition take_root_cont :: "nat \<Rightarrow> 'p switch_state \<Rightarrow> (task \<times> 'p switch_state) option" where
  "take_root_cont w s =
     (case ss_root s w of None \<Rightarrow> None | Some t \<Rightarrow> Some (t, s\<lparr>ss_root := (ss_root s)(w := None)\<rparr>))"

definition set_root_cont :: "nat \<Rightarrow> task \<Rightarrow> 'p switch_state \<Rightarrow> 'p switch_state option" where
  "set_root_cont w t s =
     (if is_root t \<and> ss_root s w = None then Some (s\<lparr>ss_root := (ss_root s)(w \<mapsto> t)\<rparr>) else None)"

text \<open>The saved context of a task: claimed (taken), looked at, published, cleared.\<close>

definition claim_saved_context :: "task \<Rightarrow> 'p switch_state \<Rightarrow> usize \<times> 'p switch_state" where
  "claim_saved_context t s = (ss_ctx s t, s\<lparr>ss_ctx := (ss_ctx s)(t := 0)\<rparr>)"

definition peek_saved_context :: "task \<Rightarrow> 'p switch_state \<Rightarrow> usize" where
  "peek_saved_context t s = ss_ctx s t"

definition publish_saved_context :: "task \<Rightarrow> usize \<Rightarrow> 'p switch_state \<Rightarrow> usize \<times> 'p switch_state" where
  "publish_saved_context t a s = (ss_ctx s t, s\<lparr>ss_ctx := (ss_ctx s)(t := a)\<rparr>)"

definition clear_saved_context :: "task \<Rightarrow> 'p switch_state \<Rightarrow> 'p switch_state" where
  "clear_saved_context t s = s\<lparr>ss_ctx := (ss_ctx s)(t := 0)\<rparr>"

section \<open>The switches\<close>

text \<open>\<open>a\<close> is the address of the frame the context layer saves; \<open>f\<close> is the callback run after the save.\<close>

definition suspend_shim :: "nat \<Rightarrow> task \<Rightarrow> usize \<Rightarrow> (task \<Rightarrow> 'p switch_state \<Rightarrow> 'p switch_state option)
    \<Rightarrow> 'p switch_state \<Rightarrow> 'p switch_state option" where
  "suspend_shim w nx a f s = do {
     (prev, s) \<leftarrow> take_cur_task w s;
     let (old, s) = publish_saved_context prev a s;
     if old \<noteq> 0 then None else do {
       s \<leftarrow> set_cur_task w nx s;
       f prev s } }"

definition suspend_to_cont :: "nat \<Rightarrow> task \<Rightarrow> usize \<Rightarrow> (task \<Rightarrow> 'p switch_state \<Rightarrow> 'p switch_state option)
    \<Rightarrow> 'p switch_state \<Rightarrow> 'p switch_state option" where
  "suspend_to_cont w nx a f s =
     (let (ctx, s) = claim_saved_context nx s in if ctx = 0 then None else suspend_shim w nx a f s)"

definition suspend_to_new :: "nat \<Rightarrow> task \<Rightarrow> usize \<Rightarrow> (task \<Rightarrow> 'p switch_state \<Rightarrow> 'p switch_state option)
    \<Rightarrow> 'p switch_state \<Rightarrow> 'p switch_state option" where
  "suspend_to_new w nx a f s = suspend_shim w nx a f s"

text \<open>The callback of a conditional switch keeps the token to cancel; the result holds the one handed back.\<close>

definition cond_suspend_shim :: "nat \<Rightarrow> task \<Rightarrow> usize
    \<Rightarrow> (task option \<Rightarrow> 'p switch_state \<Rightarrow> (task option \<times> 'p switch_state) option)
    \<Rightarrow> 'p switch_state \<Rightarrow> (task option \<times> 'p switch_state) option" where
  "cond_suspend_shim w nx a f s = do {
     (prev, s) \<leftarrow> take_cur_task w s;
     let (old, s) = publish_saved_context prev a s;
     if old \<noteq> 0 then None else do {
       s \<leftarrow> set_cur_task w nx s;
       (prev_cont, s) \<leftarrow> f (Some prev) s;
       case prev_cont of
         None \<Rightarrow> (case ss_cur s w of None \<Rightarrow> None | Some t \<Rightarrow> Some (None, clear_saved_context t s))
       | Some c \<Rightarrow>
           if c \<noteq> prev then None else do {
             (next_running, s) \<leftarrow> take_cur_task w (clear_saved_context c s);
             s \<leftarrow> set_cur_task w c s;
             Some (Some next_running, s) } } }"

definition cond_suspend_to_cont :: "nat \<Rightarrow> task \<Rightarrow> usize
    \<Rightarrow> (task option \<Rightarrow> 'p switch_state \<Rightarrow> (task option \<times> 'p switch_state) option)
    \<Rightarrow> 'p switch_state \<Rightarrow> (task option \<times> 'p switch_state) option" where
  "cond_suspend_to_cont w nx a f s =
     (if peek_saved_context nx s = 0 then None else cond_suspend_shim w nx a f s)"

definition exit_to_cont :: "nat \<Rightarrow> task \<Rightarrow> ('p switch_state \<Rightarrow> 'p switch_state option)
    \<Rightarrow> 'p switch_state \<Rightarrow> 'p switch_state option" where
  "exit_to_cont w nx f s =
     (let (ctx, s) = claim_saved_context nx s
      in if ctx = 0 then None else do {
        (_, s) \<leftarrow> take_cur_task w s;
        s \<leftarrow> set_cur_task w nx s;
        f s })"

section \<open>Switching to the scheduler\<close>

definition switch_next :: "'p task_pool \<Rightarrow> nat \<Rightarrow> 'p switch_state \<Rightarrow> task option \<times> 'p switch_state" where
  "switch_next tp w s =
     (case tp_next tp w Site_Switch (ss_pool s) of
        (r, p) \<Rightarrow> (case r of Steal_Success c \<Rightarrow> Some c | _ \<Rightarrow> None, s\<lparr>ss_pool := p\<rparr>))"

definition next_or_root_stackful :: "'p task_pool \<Rightarrow> nat \<Rightarrow> 'p switch_state \<Rightarrow> (task \<times> 'p switch_state) option" where
  "next_or_root_stackful tp w s =
     (case switch_next tp w s of (Some c, s) \<Rightarrow> Some (c, s) | (None, s) \<Rightarrow> take_root_cont w s)"

definition next_or_root_dual :: "'p task_pool \<Rightarrow> nat \<Rightarrow> 'p switch_state \<Rightarrow> (task \<times> 'p switch_state) option" where
  "next_or_root_dual tp w s =
     (case switch_next tp w s of
        (Some c, s) \<Rightarrow> if \<not> is_poll_fn_dispatch c then Some (c, s) else take_root_cont w (ss_push tp w c s)
      | (None, s) \<Rightarrow> take_root_cont w s)"

definition suspend_to_sched :: "'p task_pool \<Rightarrow> nat \<Rightarrow> usize \<Rightarrow> (task \<Rightarrow> 'p switch_state \<Rightarrow> 'p switch_state option)
    \<Rightarrow> 'p switch_state \<Rightarrow> 'p switch_state option" where
  "suspend_to_sched tp w a f s = do { (nx, s) \<leftarrow> next_or_root_dual tp w s; suspend_to_cont w nx a f s }"

definition cond_suspend_to_sched :: "'p task_pool \<Rightarrow> nat \<Rightarrow> usize
    \<Rightarrow> (task option \<Rightarrow> 'p switch_state \<Rightarrow> (task option \<times> 'p switch_state) option)
    \<Rightarrow> 'p switch_state \<Rightarrow> 'p switch_state option" where
  "cond_suspend_to_sched tp w a f s = do {
     (nx, s) \<leftarrow> next_or_root_dual tp w s;
     (back, s) \<leftarrow> cond_suspend_to_cont w nx a f s;
     case back of
       None \<Rightarrow> Some s
     | Some c \<Rightarrow> if is_root c then set_root_cont w c s else Some (ss_push tp w c s) }"

definition exit_to_sched :: "'p task_pool \<Rightarrow> nat \<Rightarrow> ('p switch_state \<Rightarrow> 'p switch_state option)
    \<Rightarrow> 'p switch_state \<Rightarrow> 'p switch_state option" where
  "exit_to_sched tp w f s = do { (nx, s) \<leftarrow> next_or_root_dual tp w s; exit_to_cont w nx f s }"

section \<open>What a task does\<close>

text \<open>A yield; parking in a wait slot, for good or with a callback that may cancel; the exits.\<close>

definition ult_yield :: "'p task_pool \<Rightarrow> nat \<Rightarrow> usize \<Rightarrow> 'p switch_state \<Rightarrow> 'p switch_state option" where
  "ult_yield tp w a s = suspend_to_sched tp w a (\<lambda>prev s. Some (ss_defer tp w prev s)) s"

definition res_wait_with :: "'p task_pool \<Rightarrow> nat \<Rightarrow> usize \<Rightarrow> 'p switch_state \<Rightarrow> 'p switch_state option" where
  "res_wait_with tp w a s = suspend_to_sched tp w a (\<lambda>prev s. Some (ss_park prev s)) s"

definition wait_cond_callback :: "bool \<Rightarrow> task option \<Rightarrow> 'p switch_state \<Rightarrow> (task option \<times> 'p switch_state) option" where
  "wait_cond_callback go prev s =
     (case prev of None \<Rightarrow> None
      | Some c \<Rightarrow> let s = ss_park c s
                  in if \<not> go then do { s \<leftarrow> ss_unpark c s; Some (Some c, s) } else Some (None, s))"

definition res_wait_with_cond :: "'p task_pool \<Rightarrow> nat \<Rightarrow> usize \<Rightarrow> bool \<Rightarrow> 'p switch_state \<Rightarrow> 'p switch_state option" where
  "res_wait_with_cond tp w a go s = cond_suspend_to_sched tp w a (wait_cond_callback go) s"

definition res_notify :: "'p task_pool \<Rightarrow> nat \<Rightarrow> task \<Rightarrow> 'p switch_state \<Rightarrow> 'p switch_state option" where
  "res_notify tp w c s = do { s \<leftarrow> ss_unpark c s; Some (ss_push tp w c s) }"

definition res_enter :: "'p task_pool \<Rightarrow> nat \<Rightarrow> usize \<Rightarrow> task \<Rightarrow> 'p switch_state \<Rightarrow> 'p switch_state option" where
  "res_enter tp w a c s = do {
     s \<leftarrow> ss_unpark c s;
     suspend_to_cont w c a (\<lambda>prev s. Some (ss_push tp w prev s)) s }"

definition res_swap :: "nat \<Rightarrow> usize \<Rightarrow> task \<Rightarrow> 'p switch_state \<Rightarrow> 'p switch_state option" where
  "res_swap w a c s = do {
     s \<leftarrow> ss_unpark c s;
     suspend_to_cont w c a (\<lambda>prev s. Some (ss_park prev s)) s }"

definition ult_exit :: "'p task_pool \<Rightarrow> nat \<Rightarrow> 'p switch_state \<Rightarrow> 'p switch_state option" where
  "ult_exit tp w s = exit_to_sched tp w Some s"

definition ult_handoff :: "nat \<Rightarrow> task \<Rightarrow> 'p switch_state \<Rightarrow> 'p switch_state option" where
  "ult_handoff w j s = do { s \<leftarrow> ss_unpark j s; exit_to_cont w j Some s }"

text \<open>
  \<open>spawn\<close> runs the child at once and queues the parent; \<open>parallel_call\<close> queues its second branch with a
  prepared context \<open>a\<close>, and later runs it inline if it is on top of the queue and never ran; a
  \<open>spawn_async\<close> task is queued.  Each takes a descriptor from the pool, without a saved context.
\<close>

definition ult_spawn :: "'p task_pool \<Rightarrow> nat \<Rightarrow> usize \<Rightarrow> nat \<Rightarrow> 'p switch_state \<Rightarrow> 'p switch_state option" where
  "ult_spawn tp w a i s =
     suspend_to_new w (Ult i) a (\<lambda>prev s. Some (ss_push tp w prev s)) (clear_saved_context (Ult i) s)"

definition parallel_fork :: "'p task_pool \<Rightarrow> nat \<Rightarrow> usize \<Rightarrow> nat \<Rightarrow> 'p switch_state \<Rightarrow> 'p switch_state option" where
  "parallel_fork tp w a i s = Some (ss_push tp w (Ult i) (s\<lparr>ss_ctx := (ss_ctx s)(Ult i := a)\<rparr>))"

definition parallel_back :: "'p task_pool \<Rightarrow> nat \<Rightarrow> usize \<Rightarrow> nat \<Rightarrow> 'p switch_state \<Rightarrow> bool \<times> 'p switch_state" where
  "parallel_back tp w fresh i s =
     (case tp_pop tp w (ss_pool s) of
        (None, p) \<Rightarrow> (False, s\<lparr>ss_pool := p\<rparr>)
      | (Some c, p) \<Rightarrow>
          let s = s\<lparr>ss_pool := p\<rparr>
          in if c = Ult i \<and> ss_ctx s c = fresh then (True, s) else (False, ss_push tp w c s))"

definition async_spawn :: "'p task_pool \<Rightarrow> nat \<Rightarrow> nat \<Rightarrow> 'p switch_state \<Rightarrow> 'p switch_state option" where
  "async_spawn tp w i s = Some (ss_push tp w (Fut i) s)"

text \<open>
  A poll ends done, pending (parked or not, and with a yield requested or not), or done with the
  claimed joiner to poll next.
\<close>

datatype poll_result = Poll_Ready | Poll_Pending bool bool | Poll_Continue bool task

fun async_poll_loop :: "'p task_pool \<Rightarrow> nat \<Rightarrow> task option \<Rightarrow> poll_result list \<Rightarrow> task \<Rightarrow> 'p switch_state
    \<Rightarrow> 'p switch_state option" where
  "async_poll_loop tp w outer [] d s = None"
| "async_poll_loop tp w outer (Poll_Ready # outs) d s =
     Some (s\<lparr>ss_yield := (ss_yield s)(w := False), ss_polling := (ss_polling s)(w := outer)\<rparr>)"
| "async_poll_loop tp w outer (Poll_Pending parked y # outs) d s =
     (let s = s\<lparr>ss_yield := (ss_yield s)(w := False), ss_polling := (ss_polling s)(w := outer)\<rparr>
      in Some (if parked then ss_park d s else if y then ss_defer tp w d s else ss_push tp w d s))"
| "async_poll_loop tp w outer (Poll_Continue y nx # outs) d s =
     do { s \<leftarrow> ss_unpark nx s;
          if \<not> is_poll_fn_dispatch nx then None
          else async_poll_loop tp w outer outs nx
                 (s\<lparr>ss_yield := (ss_yield s)(w := False), ss_polling := (ss_polling s)(w \<mapsto> nx)\<rparr>) }"

definition run_async_poll :: "'p task_pool \<Rightarrow> nat \<Rightarrow> poll_result list \<Rightarrow> task \<Rightarrow> 'p switch_state \<Rightarrow> 'p switch_state option" where
  "run_async_poll tp w outs d s =
     async_poll_loop tp w (ss_polling s w) outs d (s\<lparr>ss_polling := (ss_polling s)(w \<mapsto> d)\<rparr>)"

text \<open>What the scheduler loop does with a task it found, and one round of the loop.\<close>

definition run_on :: "'p task_pool \<Rightarrow> nat \<Rightarrow> usize \<Rightarrow> poll_result list \<Rightarrow> task \<Rightarrow> 'p switch_state \<Rightarrow> 'p switch_state option" where
  "run_on tp w a outs c s =
     (if is_poll_fn_dispatch c then run_async_poll tp w outs c s
      else suspend_to_cont w c a (set_root_cont w) s)"

definition loop_round :: "'p task_pool \<Rightarrow> nat \<Rightarrow> usize \<Rightarrow> poll_result list \<Rightarrow> 'p switch_state \<Rightarrow> 'p switch_state option" where
  "loop_round tp w a outs s =
     (case tp_next tp w Site_Loop (ss_pool s) of
        (Steal_Success c, p) \<Rightarrow> run_on tp w a outs c (s\<lparr>ss_pool := p\<rparr>)
      | (_, p) \<Rightarrow> Some (s\<lparr>ss_pool := p\<rparr>))"

section \<open>All that may happen\<close>

datatype switch_op =
    Do_Round "poll_result list" | Do_Yield | Do_Wait | Do_Wait_Cond bool | Do_Notify task | Do_Enter task
  | Do_Swap task | Do_Spawn nat | Do_Fork nat | Do_Back usize nat | Do_Async nat | Do_Exit | Do_Handoff task

fun switch_apply :: "'p task_pool \<Rightarrow> nat \<Rightarrow> usize \<Rightarrow> switch_op \<Rightarrow> 'p switch_state \<Rightarrow> 'p switch_state option" where
  "switch_apply tp w a (Do_Round outs) s = loop_round tp w a outs s"
| "switch_apply tp w a Do_Yield s = ult_yield tp w a s"
| "switch_apply tp w a Do_Wait s = res_wait_with tp w a s"
| "switch_apply tp w a (Do_Wait_Cond go) s = res_wait_with_cond tp w a go s"
| "switch_apply tp w a (Do_Notify c) s = res_notify tp w c s"
| "switch_apply tp w a (Do_Enter c) s = res_enter tp w a c s"
| "switch_apply tp w a (Do_Swap c) s = res_swap w a c s"
| "switch_apply tp w a (Do_Spawn i) s = ult_spawn tp w a i s"
| "switch_apply tp w a (Do_Fork i) s = parallel_fork tp w a i s"
| "switch_apply tp w a (Do_Back fresh i) s = Some (snd (parallel_back tp w fresh i s))"
| "switch_apply tp w a (Do_Async i) s = async_spawn tp w i s"
| "switch_apply tp w a Do_Exit s = ult_exit tp w s"
| "switch_apply tp w a (Do_Handoff j) s = ult_handoff w j s"

definition queued :: "('p \<Rightarrow> task multiset) \<Rightarrow> 'p switch_state \<Rightarrow> task multiset" where
  "queued items s = items (ss_pool s) + ss_parked s"

definition running :: "nat \<Rightarrow> 'p switch_state \<Rightarrow> task \<Rightarrow> bool" where
  "running n s t \<longleftrightarrow> (\<exists>w < n. ss_cur s w = Some t)"

text \<open>The callers' side: who may do what.\<close>

fun chain_ok :: "poll_result list \<Rightarrow> task multiset \<Rightarrow> bool" where
  "chain_ok [] P = False"
| "chain_ok (Poll_Continue y t # outs) P = (t \<in># P \<and> is_poll_fn_dispatch t \<and> chain_ok outs (P - {#t#}))"
| "chain_ok (_ # outs) P = True"

definition on_stack :: "nat \<Rightarrow> 'p switch_state \<Rightarrow> bool" where
  "on_stack w s = (case ss_cur s w of Some (Ult i) \<Rightarrow> True | _ \<Rightarrow> False)"

fun is_ult :: "task \<Rightarrow> bool" where
  "is_ult (Ult i) = True" | "is_ult t = False"

fun switch_legal :: "('p \<Rightarrow> task multiset) \<Rightarrow> nat \<Rightarrow> nat \<Rightarrow> switch_op \<Rightarrow> 'p switch_state \<Rightarrow> bool" where
  "switch_legal items n w (Do_Round outs) s = (\<not> on_stack w s \<and> chain_ok outs (ss_parked s))"
| "switch_legal items n w (Do_Notify c) s = (c \<in># ss_parked s)"
| "switch_legal items n w (Do_Enter c) s = (on_stack w s \<and> c \<in># ss_parked s \<and> is_ult c)"
| "switch_legal items n w (Do_Swap c) s = (on_stack w s \<and> c \<in># ss_parked s \<and> is_ult c)"
| "switch_legal items n w (Do_Spawn i) s = (on_stack w s \<and> Ult i \<notin># queued items s \<and> \<not> running n s (Ult i))"
| "switch_legal items n w (Do_Fork i) s = (on_stack w s \<and> Ult i \<notin># queued items s \<and> \<not> running n s (Ult i))"
| "switch_legal items n w (Do_Async i) s = (Fut i \<notin># queued items s)"
| "switch_legal items n w (Do_Handoff j) s = (on_stack w s \<and> j \<in># ss_parked s \<and> is_ult j)"
| "switch_legal items n w _ s = on_stack w s"

text \<open>Every worker's thread starts in its scheduler loop.\<close>

definition switch_start :: "'p \<Rightarrow> 'p switch_state" where
  "switch_start p = \<lparr>ss_ctx = (\<lambda>_. 0), ss_cur = (\<lambda>w. Some (Root w)), ss_root = (\<lambda>_. None),
     ss_polling = (\<lambda>_. None), ss_yield = (\<lambda>_. False), ss_pool = p, ss_parked = {#}\<rparr>"

inductive switch_reachable :: "'p task_pool \<Rightarrow> ('p \<Rightarrow> task multiset) \<Rightarrow> nat \<Rightarrow> 'p \<Rightarrow> 'p switch_state \<Rightarrow> bool"
  for tp items n p0 where
  switch_init: "switch_reachable tp items n p0 (switch_start p0)"
| switch_next: "switch_reachable tp items n p0 s \<Longrightarrow> w < n \<Longrightarrow> a \<noteq> 0 \<Longrightarrow> switch_legal items n w op s \<Longrightarrow>
    switch_apply tp w a op s = Some s' \<Longrightarrow> switch_reachable tp items n p0 s'"

section \<open>The invariant\<close>

definition worker_state_ok :: "nat \<Rightarrow> 'p switch_state \<Rightarrow> bool" where
  "worker_state_ok w s \<longleftrightarrow>
     (ss_cur s w = Some (Root w) \<and> ss_root s w = None) \<or>
     (\<exists>i. ss_cur s w = Some (Ult i) \<and> ss_root s w = Some (Root w) \<and> ss_ctx s (Root w) \<noteq> 0)"

definition switch_ok :: "('p \<Rightarrow> task multiset) \<Rightarrow> nat \<Rightarrow> 'p switch_state \<Rightarrow> bool" where
  "switch_ok items n s \<longleftrightarrow>
     (\<forall>w < n. worker_state_ok w s) \<and>
     (\<forall>v w. v < n \<longrightarrow> w < n \<longrightarrow> ss_cur s v = ss_cur s w \<longrightarrow> v = w) \<and>
     (\<forall>t. running n s t \<longrightarrow> ss_ctx s t = 0 \<and> t \<notin># queued items s) \<and>
     (\<forall>t. count (queued items s) t \<le> 1) \<and>
     (\<forall>t. t \<in># queued items s \<longrightarrow> \<not> is_root t \<and> (is_ult t \<longrightarrow> ss_ctx s t \<noteq> 0))"

lemma switch_okI:
  assumes "\<And>w. w < n \<Longrightarrow> worker_state_ok w s"
    and "\<And>v w. v < n \<Longrightarrow> w < n \<Longrightarrow> ss_cur s v = ss_cur s w \<Longrightarrow> v = w"
    and "\<And>t. running n s t \<Longrightarrow> ss_ctx s t = 0 \<and> t \<notin># queued items s"
    and "\<And>t. count (queued items s) t \<le> 1"
    and "\<And>t. t \<in># queued items s \<Longrightarrow> \<not> is_root t \<and> (is_ult t \<longrightarrow> ss_ctx s t \<noteq> 0)"
  shows "switch_ok items n s"
  using assms by (simp add: switch_ok_def)

lemma switch_okD:
  assumes "switch_ok items n s"
  shows "\<And>w. w < n \<Longrightarrow> worker_state_ok w s"
    and "\<And>v w. v < n \<Longrightarrow> w < n \<Longrightarrow> ss_cur s v = ss_cur s w \<Longrightarrow> v = w"
    and "\<And>t. running n s t \<Longrightarrow> ss_ctx s t = 0"
    and "\<And>t. running n s t \<Longrightarrow> t \<notin># queued items s"
    and "\<And>t. count (queued items s) t \<le> 1"
    and "\<And>t. t \<in># queued items s \<Longrightarrow> \<not> is_root t"
    and "\<And>t. t \<in># queued items s \<Longrightarrow> is_ult t \<Longrightarrow> ss_ctx s t \<noteq> 0"
  using assms unfolding switch_ok_def by metis+

lemma worker_state_ok_cong:
  "ss_cur s' w = ss_cur s w \<Longrightarrow> ss_root s' w = ss_root s w \<Longrightarrow> ss_ctx s' (Root w) = ss_ctx s (Root w) \<Longrightarrow>
   worker_state_ok w s' = worker_state_ok w s"
  by (simp add: worker_state_ok_def)

lemma running_cong: "ss_cur s' = ss_cur s \<Longrightarrow> running n s' t = running n s t"
  by (simp add: running_def)

lemma switch_ok_requeue:
  assumes "switch_ok items n s" and "ss_ctx s' = ss_ctx s" and "ss_cur s' = ss_cur s" and "ss_root s' = ss_root s"
    and "queued items s' \<subseteq># queued items s"
  shows "switch_ok items n s'"
proof (rule switch_okI)
  note D = switch_okD [OF assms(1)] and sub = mset_subset_eqD [OF assms(5)]
  show "worker_state_ok w s'" if "w < n" for w using D(1) [OF that] worker_state_ok_cong [of s' w s] assms(2-4) by simp
  show "v = w" if "v < n" "w < n" "ss_cur s' v = ss_cur s' w" for v w using D(2) that assms(3) by simp
  show "ss_ctx s' t = 0 \<and> t \<notin># queued items s'" if "running n s' t" for t
    using D(3,4) [of t] that running_cong [OF assms(3)] sub assms(2) by metis
  show "count (queued items s') t \<le> 1" for t
    using D(5) [of t] mset_subset_eq_count [OF assms(5), of t] by simp
  show "\<not> is_root t \<and> (is_ult t \<longrightarrow> ss_ctx s' t \<noteq> 0)" if "t \<in># queued items s'" for t
    using D(6,7) [OF sub [OF that]] assms(2) by simp
qed

lemma switch_ok_add:
  assumes "switch_ok items n s" and "ss_cur s' = ss_cur s" and "ss_root s' = ss_root s"
    and q: "queued items s' = add_mset t (queued items s)" and ctx: "\<And>t'. t' \<noteq> t \<Longrightarrow> ss_ctx s' t' = ss_ctx s t'"
    and new: "t \<notin># queued items s" "\<not> running n s t" "\<not> is_root t" and "is_ult t \<longrightarrow> ss_ctx s' t \<noteq> 0"
  shows "switch_ok items n s'"
proof (rule switch_okI)
  note D = switch_okD [OF assms(1)]
  show "worker_state_ok w s'" if "w < n" for w
  proof -
    have "Root w \<noteq> t" using new(3) by auto
    with D(1) [OF that] worker_state_ok_cong [of s' w s] assms(2,3) ctx show ?thesis by simp
  qed
  show "v = w" if "v < n" "w < n" "ss_cur s' v = ss_cur s' w" for v w using D(2) that assms(2) by simp
  show "ss_ctx s' t' = 0 \<and> t' \<notin># queued items s'" if "running n s' t'" for t'
  proof -
    have r: "running n s t'" using that running_cong [OF assms(2)] by simp
    then have "t' \<noteq> t" using new(2) by auto
    with D(3,4) [OF r] ctx q show ?thesis by simp
  qed
  show "count (queued items s') t' \<le> 1" for t'
    using D(5) [of t'] new(1) by (cases "t' = t") (simp_all add: q not_in_iff)
  show "\<not> is_root t' \<and> (is_ult t' \<longrightarrow> ss_ctx s' t' \<noteq> 0)" if "t' \<in># queued items s'" for t'
    using that D(6,7) [of t'] assms(9) new(3) ctx q by (cases "t' = t") auto
qed

text \<open>The effect of every switch on the state: \<open>prev\<close> stops on worker \<open>w\<close>, \<open>nx\<close> starts there.\<close>

lemma switch_ok_step:
  assumes ok: "switch_ok items n s" and w: "w < n" and cur: "ss_cur s w = Some prev"
    and nx: "nx = Root w \<and> ss_root s w = Some (Root w) \<and> ss_root s' w = None \<and> Q = queued items s \<or>
             is_ult nx \<and> \<not> running n s nx \<and> ss_root s' w = Some (Root w) \<and> ss_ctx s' (Root w) \<noteq> 0 \<and>
               (queued items s = add_mset nx Q \<or> nx \<notin># queued items s \<and> Q = queued items s)"
    and prev: "queued items s' = Q \<or> queued items s' = add_mset prev Q \<and> is_ult prev \<and> ss_ctx s' prev \<noteq> 0"
    and ctx: "ss_ctx s' nx = 0" "\<And>t. t \<noteq> nx \<Longrightarrow> t \<noteq> prev \<Longrightarrow> ss_ctx s' t = ss_ctx s t"
    and cur': "ss_cur s' = (ss_cur s)(w \<mapsto> nx)" and root': "\<And>v. v \<noteq> w \<Longrightarrow> ss_root s' v = ss_root s v"
  shows "switch_ok items n s'"
proof (rule switch_okI)
  note D = switch_okD [OF ok]
  have run: "running n s prev" using w cur by (auto simp: running_def)
  have shape: "ss_cur s v = Some (Root v) \<and> ss_root s v = None \<or>
      (\<exists>i. ss_cur s v = Some (Ult i)) \<and> ss_root s v = Some (Root v)" if "v < n" for v
    using D(1) [OF that] unfolding worker_state_ok_def by blast
  have cnt: "count (queued items s') t \<le> 1 \<and> (t \<in># Q \<longrightarrow> t \<in># queued items s) \<and> nx \<notin># Q" for t
  proof -
    have Q: "nx \<notin># Q \<and> Q \<subseteq># queued items s"
    proof (intro conjI)
      have "Root w \<notin># queued items s" using D(6) [of "Root w"] by auto
      then show "nx \<notin># Q" using nx D(5) [of nx] by (auto simp: not_in_iff)
      show "Q \<subseteq># queued items s" using nx by auto
    qed
    then have "count Q t \<le> count (queued items s) t" by (simp add: mset_subset_eq_count)
    then have "count Q t \<le> 1" using D(5) [of t] by simp
    moreover have "count Q prev = 0"
      using Q D(4) [OF run] mset_subset_eqD [of Q "queued items s" prev] by (auto simp: not_in_iff [symmetric])
    ultimately show ?thesis using prev Q mset_subset_eqD by (auto simp: not_in_iff)
  qed
  have other: "ss_cur s v \<noteq> Some nx \<and> ss_cur s v \<noteq> Some prev" if "v < n" "v \<noteq> w" for v
  proof -
    have "ss_cur s v \<noteq> Some nx" using nx shape [OF that(1)] that by (auto simp: running_def)
    moreover have "ss_cur s v \<noteq> Some prev" using D(2) [OF that(1) w] that cur by auto
    ultimately show ?thesis ..
  qed
  show "worker_state_ok v s'" if v: "v < n" for v
  proof (cases "v = w")
    case True
    show ?thesis
    proof (cases "is_ult nx")
      case True
      then have "ss_root s' w = Some (Root w)" "ss_ctx s' (Root w) \<noteq> 0" using nx by auto
      then show ?thesis using True \<open>v = w\<close> cur' by (cases nx) (simp_all add: worker_state_ok_def)
    next
      case False
      then show ?thesis using nx \<open>v = w\<close> cur' by (simp add: worker_state_ok_def)
    qed
  next
    case False
    have "Root v \<noteq> nx" using nx False by auto
    moreover have "ss_cur s v = Some (Root v) \<or> Root v \<noteq> prev"
      using shape [OF w] cur False by auto
    ultimately show ?thesis
      using D(1) [OF v] False cur' root' ctx(2) [of "Root v"] other [OF v False] by (auto simp: worker_state_ok_def)
  qed
  show "u = v" if "u < n" "v < n" "ss_cur s' u = ss_cur s' v" for u v
    using that D(2) [OF that(1,2)] other cur' by (auto split: if_splits)
  have running': "t = nx \<or> running n s t \<and> t \<noteq> prev \<and> t \<noteq> nx" if "running n s' t" for t
    using that other cur' cur unfolding running_def by (auto split: if_splits)
  show "ss_ctx s' t = 0 \<and> t \<notin># queued items s'" if "running n s' t" for t
    using running' [OF that]
  proof (elim disjE conjE)
    assume t: "t = nx"
    have "nx \<noteq> prev \<or> queued items s' = Q"
      using prev nx run by auto
    then show ?thesis using t ctx(1) prev cnt by auto
  next
    assume t: "running n s t" "t \<noteq> prev" "t \<noteq> nx"
    then show ?thesis using D(3,4) [OF t(1)] ctx(2) prev cnt by auto
  qed
  show "count (queued items s') t \<le> 1" for t using cnt by blast
  show "\<not> is_root t \<and> (is_ult t \<longrightarrow> ss_ctx s' t \<noteq> 0)" if t: "t \<in># queued items s'" for t
  proof (cases "t = prev \<and> queued items s' \<noteq> Q")
    case True
    then show ?thesis using prev by (cases prev) auto
  next
    case False
    then have "t \<in># Q" using t prev by auto
    then have tq: "t \<in># queued items s" "t \<noteq> nx" using cnt by blast+
    moreover have "t \<noteq> prev" using tq(1) D(4) [OF run] by auto
    ultimately show ?thesis using D(6,7) [OF tq(1)] ctx(2) by simp
  qed
qed

section \<open>What every switch does\<close>

definition alive :: "('p \<Rightarrow> task multiset) \<Rightarrow> nat \<Rightarrow> 'p switch_state \<Rightarrow> task set" where
  "alive items n s = {t. t \<in># queued items s \<or> running n s t \<and> \<not> is_root t}"

lemma alive_without:
  assumes ok: "switch_ok items n s" and q: "queued items s' + D = queued items s" and cur: "ss_cur s' = ss_cur s"
  shows "alive items n s' = alive items n s - set_mset D"
proof -
  have "t \<in># queued items s' \<longleftrightarrow> t \<in># queued items s \<and> t \<notin># D" for t
    using switch_okD(5) [OF ok, of t] by (auto simp: q [symmetric] not_in_iff simp flip: count_greater_zero_iff)
  moreover have "t \<notin># D" if "running n s t" for t
    using switch_okD(4) [OF ok that] by (auto simp: q [symmetric])
  ultimately show ?thesis using running_cong [OF cur] by (auto simp: alive_def)
qed

lemma running_step:
  assumes "switch_ok items n s" and "w < n" and "ss_cur s w = Some prev" and "ss_cur s' = (ss_cur s)(w \<mapsto> nx)"
  shows "running n s' t \<longleftrightarrow> t = nx \<or> running n s t \<and> t \<noteq> prev"
proof -
  have other: "v = w" if "v < n" "ss_cur s v = Some prev" for v
    using switch_okD(2) [OF assms(1) that(1) assms(2)] that(2) assms(3) by simp
  then have "running n s' t" if "running n s t" "t \<noteq> prev"
    using that assms(3,4) unfolding running_def by (metis fun_upd_other option.inject)
  moreover have "running n s' nx" using assms(2,4) by (auto simp: running_def)
  moreover have "t = nx \<or> running n s t \<and> t \<noteq> prev" if "running n s' t"
  proof -
    obtain v where v: "v < n" "ss_cur s' v = Some t" using \<open>running n s' t\<close> by (auto simp: running_def)
    show ?thesis
    proof (cases "v = w")
      case False
      then have "ss_cur s v = Some t" using v assms(4) by simp
      with v(1) False other show ?thesis by (auto simp: running_def)
    qed (use v assms(4) in simp)
  qed
  ultimately show ?thesis by blast
qed

lemma alive_step:
  assumes "switch_ok items n s" and "w < n" and "ss_cur s w = Some prev" and "ss_cur s' = (ss_cur s)(w \<mapsto> nx)"
  shows "alive items n s' =
    set_mset (queued items s') \<union> ({t. running n s t \<and> \<not> is_root t} - {prev}) \<union> (if is_root nx then {} else {nx})"
  unfolding alive_def running_step [OF assms] by auto

lemma suspend_to_new_eq:
  "ss_cur s w = Some prev \<Longrightarrow> ss_ctx s prev = 0 \<Longrightarrow>
   suspend_to_new w nx a f s = f prev (s\<lparr>ss_ctx := (ss_ctx s)(prev := a), ss_cur := (ss_cur s)(w \<mapsto> nx)\<rparr>)"
  by (simp add: suspend_to_new_def suspend_shim_def take_cur_task_def publish_saved_context_def set_cur_task_def)

lemma suspend_to_cont_eq:
  "ss_cur s w = Some prev \<Longrightarrow> ss_ctx s prev = 0 \<Longrightarrow> ss_ctx s nx \<noteq> 0 \<Longrightarrow>
   suspend_to_cont w nx a f s =
     f prev (s\<lparr>ss_ctx := (ss_ctx s)(nx := 0, prev := a), ss_cur := (ss_cur s)(w \<mapsto> nx)\<rparr>)"
  by (auto simp: suspend_to_cont_def claim_saved_context_def suspend_shim_def take_cur_task_def
      publish_saved_context_def set_cur_task_def)

lemma exit_to_cont_eq:
  "ss_cur s w = Some prev \<Longrightarrow> ss_ctx s nx \<noteq> 0 \<Longrightarrow>
   exit_to_cont w nx f s = f (s\<lparr>ss_ctx := (ss_ctx s)(nx := 0), ss_cur := (ss_cur s)(w \<mapsto> nx)\<rparr>)"
  by (auto simp: exit_to_cont_def claim_saved_context_def take_cur_task_def set_cur_task_def)

lemma on_stack_cur: "on_stack w s \<Longrightarrow> \<exists>i. ss_cur s w = Some (Ult i)"
  by (auto simp: on_stack_def split: option.splits task.splits)

lemma is_ultE: "is_ult t \<Longrightarrow> \<not> is_root t \<and> \<not> is_poll_fn_dispatch t"
  by (cases t) simp_all

lemma task_kinds: "\<not> is_root t \<Longrightarrow> \<not> is_poll_fn_dispatch t \<Longrightarrow> is_ult t"
  by (cases t) simp_all

text \<open>A task on its stack: what the invariant says of it and its worker.\<close>

lemma on_stackD:
  assumes "switch_ok items n s" and "w < n" and "on_stack w s"
  obtains i where "ss_cur s w = Some (Ult i)" and "ss_root s w = Some (Root w)" and "ss_ctx s (Root w) \<noteq> 0"
    and "ss_ctx s (Ult i) = 0" and "Ult i \<notin># queued items s" and "running n s (Ult i)"
proof -
  obtain i where i: "ss_cur s w = Some (Ult i)" using on_stack_cur [OF assms(3)] by blast
  then have "running n s (Ult i)" using assms(2) by (auto simp: running_def)
  moreover have "ss_root s w = Some (Root w) \<and> ss_ctx s (Root w) \<noteq> 0"
    using switch_okD(1) [OF assms(1,2)] i by (simp add: worker_state_ok_def)
  ultimately show thesis using that i switch_okD(3,4) [OF assms(1)] by blast
qed

text \<open>The callbacks that put the suspended task somewhere.\<close>

definition puts :: "('p \<Rightarrow> task multiset) \<Rightarrow> ('p \<Rightarrow> bool) \<Rightarrow> (task \<Rightarrow> 'p switch_state \<Rightarrow> 'p switch_state option) \<Rightarrow> bool" where
  "puts items ok f \<longleftrightarrow> (\<forall>c s. ok (ss_pool s) \<longrightarrow>
     (\<exists>s'. f c s = Some s' \<and> ss_ctx s' = ss_ctx s \<and> ss_cur s' = ss_cur s \<and> ss_root s' = ss_root s \<and>
        queued items s' = add_mset c (queued items s) \<and> ok (ss_pool s')))"

lemma putsE:
  assumes "puts items ok f" and "ok (ss_pool s)"
  obtains s' where "f c s = Some s'" and "ss_ctx s' = ss_ctx s" and "ss_cur s' = ss_cur s" and "ss_root s' = ss_root s"
    and "queued items s' = add_mset c (queued items s)" and "ok (ss_pool s')"
  using assms unfolding puts_def by blast

lemma puts_park: "puts items ok (\<lambda>c s. Some (ss_park c s))"
  by (simp add: puts_def ss_park_def queued_def)

text \<open>The next task was taken from the queues or a wait slot, or is the worker's root.\<close>

definition picked :: "('p \<Rightarrow> task multiset) \<Rightarrow> nat \<Rightarrow> 'p switch_state \<Rightarrow> task \<Rightarrow> 'p switch_state \<Rightarrow> bool" where
  "picked items w s nx s1 \<longleftrightarrow> ss_ctx s1 = ss_ctx s \<and> ss_cur s1 = ss_cur s \<and>
     (nx = Root w \<and> ss_root s w = Some (Root w) \<and> ss_root s1 = (ss_root s)(w := None) \<and> queued items s1 = queued items s \<or>
      is_ult nx \<and> ss_root s1 = ss_root s \<and> queued items s = add_mset nx (queued items s1))"

lemma pickedD:
  assumes "switch_ok items n s" and "w < n" and "ss_cur s w = Some (Ult i)" and "picked items w s nx s1"
  shows "ss_ctx s1 = ss_ctx s" and "ss_cur s1 = ss_cur s" and "ss_ctx s nx \<noteq> 0" and "nx \<noteq> Ult i" and "\<not> running n s nx"
proof -
  note D = switch_okD [OF assms(1)]
  have w: "ss_root s w = Some (Root w)" "ss_ctx s (Root w) \<noteq> 0"
    using D(1) [OF assms(2)] assms(3) by (simp_all add: worker_state_ok_def)
  have r: "running n s (Ult i)" using assms(2,3) by (auto simp: running_def)
  show "ss_ctx s1 = ss_ctx s" "ss_cur s1 = ss_cur s" using assms(4) by (simp_all add: picked_def)
  show c: "ss_ctx s nx \<noteq> 0"
    using assms(4) w D(7) [of nx] by (auto simp: picked_def)
  show "\<not> running n s nx" using D(3) [of nx] c by blast
  with r show "nx \<noteq> Ult i" by blast
qed

lemma switch_ok_picked:
  assumes ok: "switch_ok items n s" and w: "w < n" and i: "ss_cur s w = Some (Ult i)" and p: "picked items w s nx s1"
    and s': "ss_ctx s' nx = 0" "\<And>t. t \<noteq> nx \<Longrightarrow> t \<noteq> Ult i \<Longrightarrow> ss_ctx s' t = ss_ctx s t"
      "ss_cur s' = (ss_cur s)(w \<mapsto> nx)" "ss_root s' = ss_root s1"
    and q: "queued items s' = queued items s1 \<or> queued items s' = add_mset (Ult i) (queued items s1) \<and> ss_ctx s' (Ult i) \<noteq> 0"
  shows "switch_ok items n s' \<and>
    alive items n s' = (if queued items s' = queued items s1 then alive items n s - {Ult i} else alive items n s)"
proof
  note P = pickedD [OF ok w i p]
  have wk: "ss_root s w = Some (Root w)" "ss_ctx s (Root w) \<noteq> 0"
    using switch_okD(1) [OF ok w] i by (simp_all add: worker_state_ok_def)
  have r: "running n s (Ult i)" using i w by (auto simp: running_def)
  show "switch_ok items n s'"
  proof (cases "is_ult nx")
    case True
    then have "nx \<noteq> Root w" by auto
    then have "ss_ctx s' (Root w) \<noteq> 0" using s'(2) [of "Root w"] wk by simp
    then show ?thesis
      using True p P s' q wk
      by (intro switch_ok_step [OF ok w i, where nx = nx and Q = "queued items s1"]) (auto simp: picked_def)
  next
    case False
    then show ?thesis
      using p P s' q wk
      by (intro switch_ok_step [OF ok w i, where nx = nx and Q = "queued items s1"]) (auto simp: picked_def)
  qed
  have "alive items n s = set_mset (queued items s) \<union> {t. running n s t \<and> \<not> is_root t}" by (auto simp: alive_def)
  moreover note alive_step [OF ok w i s'(3)]
  moreover have "Ult i \<notin># queued items s" by (rule switch_okD(4) [OF ok r])
  ultimately show "alive items n s' = (if queued items s' = queued items s1 then alive items n s - {Ult i} else alive items n s)"
    using p q r is_ultE [of nx] by (auto simp: picked_def)
qed

lemma suspend_picked_ok:
  assumes ok: "switch_ok items n s" and w: "w < n" "on_stack w s" and "a \<noteq> 0" and f: "puts items ok f"
    and p: "picked items w s nx s1" and pool: "ok (ss_pool s1)"
  shows "\<exists>s'. suspend_to_cont w nx a f s1 = Some s' \<and> switch_ok items n s' \<and> ok (ss_pool s') \<and>
    alive items n s' = alive items n s"
proof -
  obtain i where i: "ss_cur s w = Some (Ult i)" "ss_ctx s (Ult i) = 0" "Ult i \<notin># queued items s"
    by (rule on_stackD [OF ok w])
  note P = pickedD [OF ok w(1) i(1) p]
  define s2 where "s2 = s1\<lparr>ss_ctx := (ss_ctx s)(nx := 0, Ult i := a), ss_cur := (ss_cur s)(w \<mapsto> nx)\<rparr>"
  have eq: "suspend_to_cont w nx a f s1 = f (Ult i) s2"
    using suspend_to_cont_eq [of s1 w "Ult i" nx a f] P i by (simp add: s2_def)
  obtain s' where s': "f (Ult i) s2 = Some s'" "ss_ctx s' = ss_ctx s2" "ss_cur s' = ss_cur s2"
      "ss_root s' = ss_root s2" "queued items s' = add_mset (Ult i) (queued items s2)" "ok (ss_pool s')"
    by (rule putsE [OF f, of s2 "Ult i"]) (use pool in \<open>simp add: s2_def\<close>)
  have q: "queued items s2 = queued items s1" by (simp add: s2_def queued_def)
  have "switch_ok items n s' \<and> alive items n s' = alive items n s"
    using switch_ok_picked [OF ok w(1) i(1) p, of s'] s' q P(4) \<open>a \<noteq> 0\<close> by (simp add: s2_def)
  with eq s' show ?thesis by auto
qed

lemma exit_picked_ok:
  assumes ok: "switch_ok items n s" and w: "w < n" "on_stack w s"
    and p: "picked items w s nx s1" and pool: "ok (ss_pool s1)"
  shows "\<exists>s'. exit_to_cont w nx Some s1 = Some s' \<and> switch_ok items n s' \<and> ok (ss_pool s') \<and>
    alive items n s' = alive items n s - {the (ss_cur s w)}"
proof -
  obtain i where i: "ss_cur s w = Some (Ult i)" "ss_ctx s (Ult i) = 0" "Ult i \<notin># queued items s"
    by (rule on_stackD [OF ok w])
  note P = pickedD [OF ok w(1) i(1) p]
  define s2 where "s2 = s1\<lparr>ss_ctx := (ss_ctx s)(nx := 0), ss_cur := (ss_cur s)(w \<mapsto> nx)\<rparr>"
  have eq: "exit_to_cont w nx Some s1 = Some s2"
    using exit_to_cont_eq [of s1 w "Ult i" nx Some] P i by (simp add: s2_def)
  have q: "queued items s2 = queued items s1" by (simp add: s2_def queued_def)
  have "switch_ok items n s2 \<and> alive items n s2 = alive items n s - {Ult i}"
    using switch_ok_picked [OF ok w(1) i(1) p, of s2] q by (simp add: s2_def)
  with eq i pool show ?thesis by (simp add: s2_def)
qed

text \<open>What an operation adds to the tasks alive.\<close>

fun created :: "switch_op \<Rightarrow> task set" where
  "created (Do_Spawn i) = {Ult i}" | "created (Do_Fork i) = {Ult i}" | "created (Do_Async i) = {Fut i}"
| "created _ = {}"

text \<open>
  What it ends: the polled tasks that are done, each poll of a chain but a pending one; the task that exits; the branch
  that \<open>parallel_call\<close> takes back to run it inline.
\<close>

fun polled_done :: "poll_result list \<Rightarrow> task \<Rightarrow> task multiset" where
  "polled_done [] d = {#}"
| "polled_done (Poll_Ready # outs) d = {#d#}"
| "polled_done (Poll_Pending parked y # outs) d = {#}"
| "polled_done (Poll_Continue y nx # outs) d = add_mset d (polled_done outs nx)"

fun ended :: "'p task_pool \<Rightarrow> nat \<Rightarrow> switch_op \<Rightarrow> 'p switch_state \<Rightarrow> task set" where
  "ended tp w (Do_Round outs) s =
     (case fst (tp_next tp w Site_Loop (ss_pool s)) of
        Steal_Success c \<Rightarrow> if is_poll_fn_dispatch c then set_mset (polled_done outs c) else {}
      | _ \<Rightarrow> {})"
| "ended tp w (Do_Back fresh i) s = (if fst (parallel_back tp w fresh i s) then {Ult i} else {})"
| "ended tp w Do_Exit s = set_option (ss_cur s w)"
| "ended tp w (Do_Handoff j) s = set_option (ss_cur s w)"
| "ended tp w _ s = {}"

text \<open>What the switches need of the pool.\<close>

locale dispatched_pool =
  fixes tp :: "'p task_pool" and items :: "'p \<Rightarrow> task multiset" and ok :: "'p \<Rightarrow> bool" and n :: nat
  assumes tp_push: "ok p \<Longrightarrow> w < n \<Longrightarrow> ok (tp_push tp w c p) \<and> items (tp_push tp w c p) = add_mset c (items p)"
    and tp_defer: "ok p \<Longrightarrow> w < n \<Longrightarrow> ok (tp_defer tp w c p) \<and> items (tp_defer tp w c p) = add_mset c (items p)"
    and tp_next: "ok p \<Longrightarrow> w < n \<Longrightarrow> tp_next tp w site p = (r, p') \<Longrightarrow> ok p' \<and> items p = items p' + taken r"
    and tp_pop: "ok p \<Longrightarrow> w < n \<Longrightarrow> tp_pop tp w p = (x, p') \<Longrightarrow>
      ok p' \<and> items p = items p' + (case x of None \<Rightarrow> {#} | Some c \<Rightarrow> {#c#})"
begin

lemma push_queued [simp]:
  assumes "ok (ss_pool s)" and "w < n"
  shows "queued items (ss_push tp w c s) = add_mset c (queued items s)" and "ok (ss_pool (ss_push tp w c s))"
  using tp_push [OF assms] by (simp_all add: ss_push_def queued_def)

lemma defer_queued [simp]:
  assumes "ok (ss_pool s)" and "w < n"
  shows "queued items (ss_defer tp w c s) = add_mset c (queued items s)" and "ok (ss_pool (ss_defer tp w c s))"
  using tp_defer [OF assms] by (simp_all add: ss_defer_def queued_def)

lemma puts_push: "w < n \<Longrightarrow> puts items ok (\<lambda>c s. Some (ss_push tp w c s))"
  using push_queued by (simp add: puts_def) (simp add: ss_push_def)

lemma puts_defer: "w < n \<Longrightarrow> puts items ok (\<lambda>c s. Some (ss_defer tp w c s))"
  using defer_queued by (simp add: puts_def) (simp add: ss_defer_def)

lemma unpark_queued:
  assumes "c \<in># ss_parked s"
  shows "\<exists>s1. ss_unpark c s = Some s1 \<and> queued items s = add_mset c (queued items s1) \<and> ss_ctx s1 = ss_ctx s \<and>
    ss_cur s1 = ss_cur s \<and> ss_root s1 = ss_root s \<and> ss_pool s1 = ss_pool s \<and> ss_parked s1 = ss_parked s - {#c#}"
  using assms by (simp add: ss_unpark_def queued_def)

text \<open>The scheduler's pick for a suspending or exiting task.\<close>

lemma next_or_root_picked:
  assumes ok: "switch_ok items n s" and w: "w < n" "on_stack w s" and pool: "ok (ss_pool s)"
  shows "\<exists>nx s1. next_or_root_dual tp w s = Some (nx, s1) \<and> picked items w s nx s1 \<and> ok (ss_pool s1)"
proof -
  obtain r p where r: "tp_next tp w Site_Switch (ss_pool s) = (r, p)" by fastforce
  note N = tp_next [OF pool w(1) r]
  have root: "ss_root s w = Some (Root w)" by (rule on_stackD [OF ok w])
  show ?thesis
  proof (cases r)
    case (Steal_Success c)
    have c: "\<not> is_root c" using switch_okD(6) [OF ok, of c] N Steal_Success by (simp add: queued_def)
    show ?thesis
    proof (cases "is_poll_fn_dispatch c")
      case True
      then show ?thesis
        using r N Steal_Success root tp_push [of p w c] w(1)
        by (simp add: next_or_root_dual_def switch_next_def take_root_cont_def ss_push_def picked_def queued_def)
    next
      case False
      then show ?thesis
        using r N Steal_Success task_kinds [OF c False]
        by (simp add: next_or_root_dual_def switch_next_def picked_def queued_def)
    qed
  qed (use r N root in \<open>simp_all add: next_or_root_dual_def switch_next_def take_root_cont_def picked_def queued_def\<close>)
qed

lemma suspend_to_sched_ok:
  assumes "switch_ok items n s" and "w < n" and "on_stack w s" and "ok (ss_pool s)" and "a \<noteq> 0" and "puts items ok f"
  shows "\<exists>s'. suspend_to_sched tp w a f s = Some s' \<and> switch_ok items n s' \<and> ok (ss_pool s') \<and>
    alive items n s' = alive items n s"
  using next_or_root_picked [OF assms(1-4)] suspend_picked_ok [OF assms(1-3,5,6)]
  by (auto simp: suspend_to_sched_def)

lemma exit_to_sched_ok:
  assumes "switch_ok items n s" and "w < n" and "on_stack w s" and "ok (ss_pool s)"
  shows "\<exists>s'. ult_exit tp w s = Some s' \<and> switch_ok items n s' \<and> ok (ss_pool s') \<and>
    alive items n s' = alive items n s - {the (ss_cur s w)}"
  using next_or_root_picked [OF assms] exit_picked_ok [OF assms(1-3)]
  by (auto simp: ult_exit_def exit_to_sched_def)

lemma unpark_picked:
  assumes "c \<in># ss_parked s" and "is_ult c"
  shows "\<exists>s1. ss_unpark c s = Some s1 \<and> picked items w s c s1 \<and> ss_pool s1 = ss_pool s"
  using unpark_queued [OF assms(1)] assms(2) by (auto simp: picked_def)

lemma enter_ok:
  assumes "switch_ok items n s" and "w < n" and "on_stack w s" and "ok (ss_pool s)" and "a \<noteq> 0"
    and "c \<in># ss_parked s" and "is_ult c"
  shows "\<exists>s'. res_enter tp w a c s = Some s' \<and> switch_ok items n s' \<and> ok (ss_pool s') \<and> alive items n s' = alive items n s"
    and "\<exists>s'. res_swap w a c s = Some s' \<and> switch_ok items n s' \<and> ok (ss_pool s') \<and> alive items n s' = alive items n s"
    and "\<exists>s'. ult_handoff w c s = Some s' \<and> switch_ok items n s' \<and> ok (ss_pool s') \<and>
      alive items n s' = alive items n s - {the (ss_cur s w)}"
proof -
  obtain s1 where s1: "ss_unpark c s = Some s1" "picked items w s c s1" "ss_pool s1 = ss_pool s"
    using unpark_picked [OF assms(6,7)] by blast
  then have pool: "ok (ss_pool s1)" using assms(4) by simp
  show "\<exists>s'. res_enter tp w a c s = Some s' \<and> switch_ok items n s' \<and> ok (ss_pool s') \<and> alive items n s' = alive items n s"
    using suspend_picked_ok [where ok = ok, OF assms(1-3,5) puts_push [OF assms(2)] s1(2) pool] s1(1) by (simp add: res_enter_def)
  show "\<exists>s'. res_swap w a c s = Some s' \<and> switch_ok items n s' \<and> ok (ss_pool s') \<and> alive items n s' = alive items n s"
    using suspend_picked_ok [where ok = ok, OF assms(1-3,5) puts_park s1(2) pool] s1(1) by (simp add: res_swap_def)
  show "\<exists>s'. ult_handoff w c s = Some s' \<and> switch_ok items n s' \<and> ok (ss_pool s') \<and>
      alive items n s' = alive items n s - {the (ss_cur s w)}"
    using exit_picked_ok [where ok = ok, OF assms(1-3) s1(2) pool] s1(1) by (simp add: ult_handoff_def)
qed

lemma notify_ok:
  assumes "switch_ok items n s" and "w < n" and "ok (ss_pool s)" and "c \<in># ss_parked s"
  shows "\<exists>s'. res_notify tp w c s = Some s' \<and> switch_ok items n s' \<and> ok (ss_pool s') \<and> alive items n s' = alive items n s"
proof -
  obtain s1 where s1: "ss_unpark c s = Some s1" "queued items s = add_mset c (queued items s1)" "ss_ctx s1 = ss_ctx s"
    "ss_cur s1 = ss_cur s" "ss_root s1 = ss_root s" "ss_pool s1 = ss_pool s"
    using unpark_queued [OF assms(4)] by blast
  define s2 where "s2 = ss_push tp w c s1"
  have q: "queued items s2 = queued items s" "ok (ss_pool s2)"
    using s1 assms(2,3) push_queued [of s1 w c] by (simp_all add: s2_def)
  have same: "ss_ctx s2 = ss_ctx s" "ss_cur s2 = ss_cur s" "ss_root s2 = ss_root s"
    using s1 by (simp_all add: s2_def ss_push_def)
  have "switch_ok items n s2" by (rule switch_ok_requeue [OF assms(1) same]) (simp add: q)
  with q s1(1) running_cong [OF same(2)] show ?thesis by (simp add: res_notify_def s2_def alive_def)
qed

lemma spawn_ok:
  assumes ok: "switch_ok items n s" and w: "w < n" "on_stack w s" and pool: "ok (ss_pool s)" and "a \<noteq> 0"
    and new: "Ult j \<notin># queued items s" "\<not> running n s (Ult j)"
  shows "\<exists>s'. ult_spawn tp w a j s = Some s' \<and> switch_ok items n s' \<and> ok (ss_pool s') \<and>
    alive items n s' = insert (Ult j) (alive items n s)"
proof -
  obtain i where i: "ss_cur s w = Some (Ult i)" "ss_root s w = Some (Root w)" "ss_ctx s (Root w) \<noteq> 0"
    "ss_ctx s (Ult i) = 0" "Ult i \<notin># queued items s" "running n s (Ult i)"
    by (rule on_stackD [OF ok w])
  then have ij: "i \<noteq> j" using new by auto
  define s1 where "s1 = s\<lparr>ss_ctx := (ss_ctx s)(Ult j := 0, Ult i := a), ss_cur := (ss_cur s)(w \<mapsto> Ult j)\<rparr>"
  define s' where "s' = ss_push tp w (Ult i) s1"
  have "queued items s1 = queued items s" by (simp add: s1_def queued_def)
  then have q: "queued items s' = add_mset (Ult i) (queued items s)" "ok (ss_pool s')"
    using push_queued [of s1 w "Ult i"] pool w(1) by (simp_all add: s'_def) (simp_all add: s1_def)
  have same: "ss_ctx s' = ss_ctx s1" "ss_cur s' = (ss_cur s)(w \<mapsto> Ult j)" "ss_root s' = ss_root s"
    by (simp_all add: s'_def s1_def ss_push_def)
  have "ult_spawn tp w a j s = Some s'"
    using suspend_to_new_eq [of "clear_saved_context (Ult j) s" w "Ult i"] i ij
    by (simp add: ult_spawn_def clear_saved_context_def s'_def s1_def)
  moreover have "switch_ok items n s'"
    by (rule switch_ok_step [OF ok w(1) i(1), where nx = "Ult j" and Q = "queued items s"])
      (use i ij new q same \<open>a \<noteq> 0\<close> in \<open>auto simp: s1_def\<close>)
  moreover have "alive items n s' = insert (Ult j) (alive items n s)"
    using alive_step [OF ok w(1) i(1) same(2)] q i(6) by (auto simp: alive_def)
  ultimately show ?thesis using q by blast
qed

lemma add_ok:
  assumes ok: "switch_ok items n s" and w: "w < n" and pool: "ok (ss_pool s)"
    and new: "t \<notin># queued items s" "\<not> running n s t" "\<not> is_root t" and a: "is_ult t \<longrightarrow> a \<noteq> 0"
    and s': "s' = ss_push tp w t (if is_ult t then s\<lparr>ss_ctx := (ss_ctx s)(t := a)\<rparr> else s)"
  shows "switch_ok items n s' \<and> ok (ss_pool s') \<and> alive items n s' = insert t (alive items n s)"
proof -
  have same: "ss_cur s' = ss_cur s" "ss_root s' = ss_root s" "\<And>t'. t' \<noteq> t \<Longrightarrow> ss_ctx s' t' = ss_ctx s t'"
    "is_ult t \<longrightarrow> ss_ctx s' t \<noteq> 0"
    using s' a by (simp_all add: ss_push_def)
  have q: "queued items s' = add_mset t (queued items s)" "ok (ss_pool s')"
    using s' pool w push_queued [of "if is_ult t then s\<lparr>ss_ctx := (ss_ctx s)(t := a)\<rparr> else s" w t]
    by (auto simp: queued_def)
  have "switch_ok items n s'" by (rule switch_ok_add [OF ok same(1,2) q(1) same(3) new same(4)])
  with q running_cong [OF same(1)] new(3) show ?thesis by (auto simp: alive_def)
qed

end

text \<open>The conditional switch: committed it is the plain one, cancelled it leaves no trace.\<close>

lemma cond_commit:
  assumes "ss_cur s w = Some prev" and "ss_ctx s prev = 0" and "ss_ctx s nx \<noteq> 0"
    and "suspend_to_cont w nx a (\<lambda>c s. Some (ss_park c s)) s = Some s'"
  shows "cond_suspend_to_cont w nx a (wait_cond_callback True) s = Some (None, s')"
proof -
  have "nx \<noteq> prev" using assms by auto
  then show ?thesis
    using assms by (auto simp: cond_suspend_to_cont_def peek_saved_context_def cond_suspend_shim_def take_cur_task_def
        publish_saved_context_def set_cur_task_def wait_cond_callback_def ss_park_def clear_saved_context_def
        suspend_to_cont_eq fun_upd_twist)
qed

lemma cond_cancel:
  assumes "ss_cur s w = Some prev" and "ss_ctx s prev = 0" and "ss_ctx s nx \<noteq> 0"
  shows "cond_suspend_to_cont w nx a (wait_cond_callback False) s = Some (Some nx, s)"
proof -
  have "(ss_ctx s)(prev := 0) = ss_ctx s" "(ss_cur s)(w := Some prev) = ss_cur s" using assms by auto
  then show ?thesis
    using assms by (simp add: cond_suspend_to_cont_def peek_saved_context_def cond_suspend_shim_def take_cur_task_def
        publish_saved_context_def set_cur_task_def wait_cond_callback_def ss_park_def ss_unpark_def clear_saved_context_def)
qed

context dispatched_pool
begin

lemma wait_cond_ok:
  assumes ok: "switch_ok items n s" and w: "w < n" "on_stack w s" and pool: "ok (ss_pool s)" and "a \<noteq> 0"
  shows "\<exists>s'. res_wait_with_cond tp w a go s = Some s' \<and> switch_ok items n s' \<and> ok (ss_pool s') \<and>
    alive items n s' = alive items n s"
proof -
  obtain i where i: "ss_cur s w = Some (Ult i)" "ss_root s w = Some (Root w)" "ss_ctx s (Ult i) = 0"
    by (rule on_stackD [OF ok w])
  obtain nx s1 where n: "next_or_root_dual tp w s = Some (nx, s1)" "picked items w s nx s1" "ok (ss_pool s1)"
    using next_or_root_picked [OF ok w pool] by blast
  note P = pickedD [OF ok w(1) i(1) n(2)]
  have s1: "ss_cur s1 w = Some (Ult i)" "ss_ctx s1 (Ult i) = 0" "ss_ctx s1 nx \<noteq> 0" using P i by simp_all
  show ?thesis
  proof (cases go)
    case True
    obtain s' where s': "suspend_to_cont w nx a (\<lambda>c s. Some (ss_park c s)) s1 = Some s'" "switch_ok items n s'"
      "ok (ss_pool s')" "alive items n s' = alive items n s"
      using suspend_picked_ok [where ok = ok, OF ok w \<open>a \<noteq> 0\<close> puts_park n(2,3)] by blast
    have "cond_suspend_to_cont w nx a (wait_cond_callback True) s1 = Some (None, s')"
      by (rule cond_commit [OF s1 s'(1)])
    with True n(1) s' show ?thesis by (simp add: res_wait_with_cond_def cond_suspend_to_sched_def)
  next
    case False
    have c: "cond_suspend_to_cont w nx a (wait_cond_callback False) s1 = Some (Some nx, s1)"
      by (rule cond_cancel [OF s1])
    define s' where "s' = (if is_root nx then s1\<lparr>ss_root := (ss_root s1)(w \<mapsto> nx)\<rparr> else ss_push tp w nx s1)"
    have r: "is_root nx \<Longrightarrow> nx = Root w \<and> ss_root s1 = (ss_root s)(w := None) \<and> queued items s1 = queued items s"
      using n(2) is_ultE by (auto simp: picked_def)
    have u: "\<not> is_root nx \<Longrightarrow> ss_root s1 = ss_root s \<and> queued items s = add_mset nx (queued items s1)"
      using n(2) by (auto simp: picked_def)
    have "res_wait_with_cond tp w a go s = Some s'"
      using False n(1) c r by (auto simp: res_wait_with_cond_def cond_suspend_to_sched_def set_root_cont_def s'_def)
    moreover have same: "ss_ctx s' = ss_ctx s" "ss_cur s' = ss_cur s" "ss_root s' = ss_root s"
      using P(1,2) r u i(2) by (auto simp: s'_def ss_push_def)
    moreover have q: "queued items s' = queued items s" "ok (ss_pool s')"
      using r u n(3) push_queued [OF n(3) w(1)] by (auto simp: s'_def queued_def)
    moreover have "switch_ok items n s'" by (rule switch_ok_requeue [OF ok same]) (simp add: q)
    ultimately show ?thesis using running_cong [OF same(2)] by (auto simp: alive_def)
  qed
qed

lemma back_ok:
  assumes ok: "switch_ok items n s" and w: "w < n" and pool: "ok (ss_pool s)" and b: "parallel_back tp w fresh i s = (inline, s')"
  shows "switch_ok items n s' \<and> ok (ss_pool s') \<and>
    alive items n s' = (if inline then alive items n s - {Ult i} else alive items n s)"
proof -
  obtain r p where r: "tp_pop tp w (ss_pool s) = (r, p)" by fastforce
  note N = tp_pop [OF pool w r]
  have same: "ss_ctx s' = ss_ctx s" "ss_cur s' = ss_cur s" "ss_root s' = ss_root s"
    using b r by (auto simp: parallel_back_def Let_def ss_push_def split: option.splits if_splits)
  have q: "ok (ss_pool s') \<and> queued items s = (if inline then add_mset (Ult i) (queued items s') else queued items s')"
  proof (cases r)
    case None
    then show ?thesis using b r N by (auto simp: parallel_back_def queued_def)
  next
    case (Some c)
    then show ?thesis
      using b r N tp_push [of p w c] w
      by (auto simp: parallel_back_def Let_def queued_def ss_push_def split: if_splits)
  qed
  have "switch_ok items n s'" by (rule switch_ok_requeue [OF ok same]) (use q in \<open>auto split: if_splits\<close>)
  moreover have "Ult i \<notin># queued items s' \<and> \<not> running n s (Ult i)" if inline
    using that q switch_okD(4,5) [OF ok, of "Ult i"] by (auto simp: not_in_iff)
  ultimately show ?thesis using q running_cong [OF same(2)] by (auto simp: alive_def split: if_splits)
qed

text \<open>The poll loop leaves the worker as it found it, and gives back the tasks it polled that are not done.\<close>

lemma async_poll_loop_ok:
  assumes "chain_ok outs (ss_parked s)" and "w < n" and "ok (ss_pool s)" and "is_poll_fn_dispatch d"
  shows "\<exists>s'. async_poll_loop tp w outer outs d s = Some s' \<and> ok (ss_pool s') \<and> ss_ctx s' = ss_ctx s \<and>
    ss_cur s' = ss_cur s \<and> ss_root s' = ss_root s \<and> ss_polling s' = (ss_polling s)(w := outer) \<and> \<not> ss_yield s' w \<and>
    queued items s' + polled_done outs d = add_mset d (queued items s)"
  using assms(1,3,4)
proof (induction outs arbitrary: d s)
  case (Cons out outs)
  show ?case
  proof (cases out)
    case (Poll_Pending parked y)
    define s1 where "s1 = s\<lparr>ss_yield := (ss_yield s)(w := False), ss_polling := (ss_polling s)(w := outer)\<rparr>"
    have "ok (ss_pool s1)" "queued items s1 = queued items s" using Cons.prems by (simp_all add: s1_def queued_def)
    then show ?thesis
      using Poll_Pending push_queued [of s1 w d] defer_queued [of s1 w d] assms(2)
      by (auto simp: s1_def [symmetric]) (auto simp: s1_def ss_park_def ss_push_def ss_defer_def queued_def)
  next
    case (Poll_Continue y nx)
    then have c: "nx \<in># ss_parked s" "is_poll_fn_dispatch nx" "chain_ok outs (ss_parked s - {#nx#})"
      using Cons.prems by simp_all
    obtain s1 where s1: "ss_unpark nx s = Some s1" "queued items s = add_mset nx (queued items s1)" "ss_ctx s1 = ss_ctx s"
      "ss_cur s1 = ss_cur s" "ss_root s1 = ss_root s" "ss_pool s1 = ss_pool s" "ss_parked s1 = ss_parked s - {#nx#}"
      using unpark_queued [OF c(1)] by blast
    define s2 where "s2 = s1\<lparr>ss_yield := (ss_yield s1)(w := False), ss_polling := (ss_polling s1)(w \<mapsto> nx)\<rparr>"
    have p: "ss_polling s1 = ss_polling s" using s1(1) by (auto simp: ss_unpark_def split: if_splits)
    have prem: "chain_ok outs (ss_parked s2)" "ok (ss_pool s2)" using c s1 Cons.prems(2) by (simp_all add: s2_def)
    obtain s' where s': "async_poll_loop tp w outer outs nx s2 = Some s'" "ok (ss_pool s')" "ss_ctx s' = ss_ctx s2"
      "ss_cur s' = ss_cur s2" "ss_root s' = ss_root s2" "ss_polling s' = (ss_polling s2)(w := outer)" "\<not> ss_yield s' w"
      "queued items s' + polled_done outs nx = add_mset nx (queued items s2)"
      using Cons.IH [OF prem c(2)] by blast
    have "queued items s2 = queued items s1" by (simp add: s2_def queued_def)
    then have "queued items s' + polled_done (out # outs) d = add_mset d (queued items s)"
      using s'(8) s1(2) Poll_Continue by simp
    moreover have "async_poll_loop tp w outer (out # outs) d s = Some s'"
      using s1(1) s'(1) c(2) Poll_Continue by (simp add: s2_def)
    moreover have "ss_ctx s' = ss_ctx s" "ss_cur s' = ss_cur s" "ss_root s' = ss_root s"
      using s' s1 by (simp_all add: s2_def)
    moreover have "ss_polling s' = (ss_polling s)(w := outer)"
      unfolding s'(6) by (rule ext) (simp add: s2_def p)
    ultimately show ?thesis using s'(2,7) by blast
  qed (use Cons.prems in \<open>simp add: queued_def fun_eq_iff\<close>)
qed simp

lemma round_ok:
  assumes ok: "switch_ok items n s" and w: "w < n" "\<not> on_stack w s" and pool: "ok (ss_pool s)" and "a \<noteq> 0"
    and chain: "chain_ok outs (ss_parked s)"
  shows "\<exists>s'. loop_round tp w a outs s = Some s' \<and> switch_ok items n s' \<and> ok (ss_pool s') \<and>
    alive items n s' = alive items n s - ended tp w (Do_Round outs) s"
proof -
  obtain r p where r: "tp_next tp w Site_Loop (ss_pool s) = (r, p)" by fastforce
  note N = tp_next [OF pool w(1) r]
  note D = switch_okD [OF ok]
  have root: "ss_cur s w = Some (Root w)" "ss_root s w = None"
    using D(1) [OF w(1)] w(2) by (auto simp: worker_state_ok_def on_stack_def)
  define s1 where "s1 = s\<lparr>ss_pool := p\<rparr>"
  have s1: "ss_ctx s1 = ss_ctx s" "ss_cur s1 = ss_cur s" "ss_root s1 = ss_root s" "ss_parked s1 = ss_parked s"
    "ok (ss_pool s1)" "queued items s = queued items s1 + taken r"
    using N by (simp_all add: s1_def queued_def)
  have idle: "switch_ok items n s1 \<and> alive items n s1 = alive items n s" if "taken r = {#}"
    using switch_ok_requeue [OF ok s1(1-3)] s1(6) that running_cong [OF s1(2)] by (auto simp: alive_def)
  show ?thesis
  proof (cases r)
    case (Steal_Success c)
    then have cq: "queued items s = add_mset c (queued items s1)" using s1(6) by simp
    then have cin: "c \<in># queued items s" by simp
    show ?thesis
    proof (cases "is_poll_fn_dispatch c")
      case True
      define s2 where "s2 = s1\<lparr>ss_polling := (ss_polling s1)(w \<mapsto> c)\<rparr>"
      obtain s' where s': "async_poll_loop tp w (ss_polling s1 w) outs c s2 = Some s'" "ok (ss_pool s')" "ss_ctx s' = ss_ctx s2"
        "ss_cur s' = ss_cur s2" "ss_root s' = ss_root s2" "queued items s' + polled_done outs c = add_mset c (queued items s2)"
        using async_poll_loop_ok [of outs s2 w c] chain w(1) s1 True by (auto simp: s2_def)
      have q: "queued items s' + polled_done outs c = queued items s" using s'(6) cq by (simp add: s2_def queued_def)
      then have sub: "queued items s' \<subseteq># queued items s" by (metis mset_subset_eq_add_left)
      have same: "ss_ctx s' = ss_ctx s" "ss_cur s' = ss_cur s" "ss_root s' = ss_root s"
        using s' s1 by (simp_all add: s2_def)
      have "loop_round tp w a outs s = Some s'"
        using r Steal_Success True s'(1) by (simp add: loop_round_def run_on_def run_async_poll_def s1_def s2_def)
      moreover have "alive items n s' = alive items n s - set_mset (polled_done outs c)"
        by (rule alive_without [OF ok q same(2)])
      ultimately show ?thesis
        using switch_ok_requeue [OF ok same sub] s'(2) r Steal_Success True by auto
    next
      case False
      then have u: "is_ult c" "c \<noteq> Root w" using D(6) [OF cin] task_kinds by auto
      define s' where "s' = s1\<lparr>ss_ctx := (ss_ctx s)(c := 0, Root w := a), ss_cur := (ss_cur s)(w \<mapsto> c),
        ss_root := (ss_root s)(w \<mapsto> Root w)\<rparr>"
      have "ss_ctx s (Root w) = 0" using D(3) [of "Root w"] root w(1) by (auto simp: running_def)
      then have "loop_round tp w a outs s = Some s'"
        using r Steal_Success False root s1(1-3) D(7) [OF cin u(1)]
          suspend_to_cont_eq [of s1 w "Root w" c a "set_root_cont w"]
        by (simp add: loop_round_def run_on_def s1_def [symmetric] set_root_cont_def s'_def)
      moreover have "switch_ok items n s'"
        by (rule switch_ok_step [OF ok w(1) root(1), where nx = c and Q = "queued items s1"])
          (use u cq \<open>a \<noteq> 0\<close> D(4) [of c] cin s1 in \<open>auto simp: s'_def queued_def\<close>)
      moreover have "alive items n s' = alive items n s"
        using alive_step [OF ok w(1) root(1), of s' c] cq s1(2) is_ultE [OF u(1)]
        by (auto simp: s'_def alive_def queued_def)
      ultimately show ?thesis using s1(5) r Steal_Success False by (auto simp: s'_def)
    qed
  qed (use r idle s1 in \<open>auto simp: loop_round_def s1_def [symmetric]\<close>)
qed

end


context dispatched_pool
begin

lemma apply_ok:
  assumes ok: "switch_ok items n s" and w: "w < n" and pool: "ok (ss_pool s)" and a: "a \<noteq> 0"
    and legal: "switch_legal items n w op s"
  shows "\<exists>s'. switch_apply tp w a op s = Some s' \<and> switch_ok items n s' \<and> ok (ss_pool s') \<and>
    alive items n s' = alive items n s - ended tp w op s \<union> created op"
proof (cases op)
  case (Do_Round outs)
  then show ?thesis using round_ok [OF ok w _ pool a] legal by auto
next
  case Do_Yield
  then show ?thesis
    using suspend_to_sched_ok [OF ok w _ pool a puts_defer [OF w]] legal by (auto simp: ult_yield_def)
next
  case Do_Wait
  then show ?thesis
    using suspend_to_sched_ok [OF ok w _ pool a puts_park] legal by (auto simp: res_wait_with_def)
next
  case (Do_Wait_Cond go)
  then show ?thesis using wait_cond_ok [OF ok w _ pool a, of go] legal by auto
next
  case (Do_Notify c)
  then show ?thesis using notify_ok [OF ok w pool, of c] legal by auto
next
  case (Do_Enter c)
  then show ?thesis using enter_ok(1) [OF ok w _ pool a, of c] legal by auto
next
  case (Do_Swap c)
  then show ?thesis using enter_ok(2) [OF ok w _ pool a, of c] legal by auto
next
  case (Do_Spawn i)
  then show ?thesis using spawn_ok [OF ok w _ pool a, of i] legal by auto
next
  case (Do_Fork i)
  then show ?thesis
    using add_ok [OF ok w pool, of "Ult i" a] legal a by (auto simp: parallel_fork_def)
next
  case (Do_Back fresh i)
  obtain inline s' where b: "parallel_back tp w fresh i s = (inline, s')" by fastforce
  with back_ok [OF ok w pool b] Do_Back show ?thesis by auto
next
  case (Do_Async i)
  have "\<not> running n s (Fut i)"
    using switch_okD(1) [OF ok] by (fastforce simp: running_def worker_state_ok_def)
  with Do_Async show ?thesis
    using add_ok [OF ok w pool, of "Fut i" a] legal by (auto simp: async_spawn_def)
next
  case Do_Exit
  then show ?thesis using exit_to_sched_ok [OF ok w _ pool] legal on_stack_cur [of w s] by auto
next
  case (Do_Handoff j)
  then show ?thesis using enter_ok(3) [OF ok w _ pool a, of j] legal on_stack_cur [of w s] by auto
qed

lemma reachable_ok:
  assumes "switch_reachable tp items n p0 s" and "ok p0" and "items p0 = {#}"
  shows "switch_ok items n s \<and> ok (ss_pool s)"
  using assms(1)
proof induction
  case switch_init
  show ?case
    using assms(2,3) by (auto simp: switch_start_def switch_ok_def worker_state_ok_def queued_def running_def)
next
  case (switch_next s w a op s')
  then show ?case using apply_ok [of s w a op] by auto
qed

end

section \<open>The properties\<close>

definition worker_pool :: "('q, task) rq_ops \<Rightarrow> ('q, task) steal_policy \<Rightarrow>
    (('q, task) pool \<Rightarrow> task option \<times> ('q, task) pool) \<Rightarrow> ('q, task) pool task_pool" where
  "worker_pool rq pol external =
     \<lparr>tp_push = worker_push rq, tp_defer = worker_defer rq, tp_next = next_task rq pol external,
      tp_pop = worker_try_pop rq\<rparr>"

definition pool_of_size :: "nat \<Rightarrow> (('w, task) hybrid, task) pool \<Rightarrow> bool" where
  "pool_of_size n p \<longleftrightarrow> pool_ok hybrid_ok p \<and> length (pl_deques p) = n \<and> n < 2 ^ 64"

lemma hybrid_dispatched:
  assumes "chase_lev_ok cl contents" and "pol \<in> standard_policies (hybrid_try_steal cl)"
    and "external = pool_external \<or> external = no_external"
  shows "dispatched_pool (worker_pool (hybrid_ops cl) pol external) (pool_items (hybrid_items contents)) (pool_of_size n) n"
proof -
  note hq = hybrid_run_queue [OF assms(1)]
  have pol: "policy_conserves (hybrid_items contents) hybrid_ok pol"
    using assms(2) run_queue.sweep_steal_conserves [OF hq] run_queue.random_steal_conserves [OF hq]
      run_queue.random_sweep_conserves [OF hq]
    by (auto simp: standard_policies_def)
  show ?thesis
  proof (unfold_locales, goal_cases)
    case (1 p w c)
    then show ?case
      using run_queue.worker_push_conserves [OF hq, of p w "hybrid_ops cl" c]
      by (simp add: worker_pool_def pool_of_size_def hybrid_ops_def)
  next
    case (2 p w c)
    then show ?case
      using run_queue.worker_defer_conserves [OF hq, of p w "hybrid_ops cl" c]
      by (simp add: worker_pool_def pool_of_size_def hybrid_ops_def)
  next
    case (3 p w site r p')
    then show ?case
      using run_queue.next_conserves [OF hq _ _ _ pol _ assms(3), of p w "hybrid_ops cl" site r p']
      by (simp add: worker_pool_def pool_of_size_def hybrid_ops_def)
  next
    case (4 p w x p')
    then show ?case
      using run_queue.try_pop_conserves [OF hq, of p w "hybrid_ops cl" x p']
      by (cases x) (simp_all add: worker_pool_def pool_of_size_def hybrid_ops_def opt_to_steal_def)
  qed
qed

interpretation hybrid_switch: dispatched_pool
  "worker_pool (hybrid_ops list_chase_lev) (sweep_steal_try (hybrid_try_steal list_chase_lev)) pool_external"
  "pool_items (hybrid_items id)" "pool_of_size n" n for n
  by (rule hybrid_dispatched [OF list_chase_lev_ok]) (simp_all add: standard_policies_def)

text \<open>
  C2: from the start of a pool of \<open>HybridRunQueue\<close>s, whatever its tasks legally do, no \<open>expect\<close> and
  no assertion of the switching code fails: nothing is resumed twice, no live context, no live running
  task and no live root continuation is overwritten, and a task that suspends or exits always finds a
  task or the root to switch to.  Every task is in one place at most.
\<close>

theorem switches_never_panic:
  assumes "chase_lev_ok cl contents" and "pol \<in> standard_policies (hybrid_try_steal cl)"
    and "external = pool_external \<or> external = no_external"
    and "pool_of_size n p0" and "pool_items (hybrid_items contents) p0 = {#}"
    and "switch_reachable (worker_pool (hybrid_ops cl) pol external) (pool_items (hybrid_items contents)) n p0 s"
    and "w < n" and "a \<noteq> 0" and "switch_legal (pool_items (hybrid_items contents)) n w op s"
  shows "switch_apply (worker_pool (hybrid_ops cl) pol external) w a op s \<noteq> None \<and>
    (\<forall>t. count (queued (pool_items (hybrid_items contents)) s) t + card {v. v < n \<and> ss_cur s v = Some t} \<le> 1)"
proof -
  note dp = hybrid_dispatched [OF assms(1-3), of n]
  note r = dispatched_pool.reachable_ok [OF dp assms(6,4,5)]
  note D = switch_okD [OF r [THEN conjunct1]]
  have "count (queued (pool_items (hybrid_items contents)) s) t + card {v. v < n \<and> ss_cur s v = Some t} \<le> 1" for t
  proof (cases "running n s t")
    case True
    then obtain v where "v < n" "ss_cur s v = Some t" by (auto simp: running_def)
    then have "{v. v < n \<and> ss_cur s v = Some t} = {v}" using D(2) by auto
    with D(4) [OF True] show ?thesis by (simp add: not_in_iff)
  next
    case False
    then have none: "{v. v < n \<and> ss_cur s v = Some t} = {}" by (auto simp: running_def)
    show ?thesis unfolding none using D(5) [of t] by simp
  qed
  moreover have "switch_apply (worker_pool (hybrid_ops cl) pol external) w a op s \<noteq> None"
    using dispatched_pool.apply_ok [OF dp r [THEN conjunct1] assms(7) r [THEN conjunct2] assms(8,9)] by auto
  ultimately show ?thesis by blast
qed

text \<open>Two workers; the first queues a polled task.\<close>

definition switch_example :: "((task list, task) hybrid, task) pool" where
  "switch_example =
     \<lparr>pl_deques = [hybrid_default list_chase_lev, hybrid_default list_chase_lev], pl_steal = [0, 1],
      pl_external = steal_path_default, pl_new_work = 0, pl_finished = False\<rparr>"

abbreviation task_deque :: "(task list, task) chase_lev" where
  "task_deque \<equiv> list_chase_lev"

abbreviation sweeping :: "((task list, task) hybrid, task) pool task_pool" where
  "sweeping \<equiv> worker_pool (hybrid_ops task_deque) (sweep_steal_try (hybrid_try_steal task_deque)) pool_external"

lemma switch_example_ok:
  "pool_of_size 2 switch_example \<and> pool_items (hybrid_items id) switch_example = {#} \<and>
   sweep_steal_try (hybrid_try_steal task_deque) \<in> standard_policies (hybrid_try_steal task_deque)"
  using hybrid_default_ok [OF list_chase_lev_ok]
  by (simp add: pool_of_size_def switch_example_def pool_ok_def steal_path_ok_def steal_path_default_def
      pool_items_def deques_items_def standard_policies_def)

lemma switch_example_legal:
  "switch_legal (pool_items (hybrid_items id)) 2 0 (Do_Async 7) (switch_start switch_example)"
  using switch_example_ok by (simp add: queued_def switch_start_def)

theorem switches_never_panic_witness:
  "switch_apply sweeping 0 16 (Do_Async 7) (switch_start switch_example) \<noteq> None \<and>
   (\<forall>t. count (queued (pool_items (hybrid_items id)) (switch_start switch_example)) t
       + card {v. v < 2 \<and> ss_cur (switch_start switch_example) v = Some t} \<le> 1)"
  by (rule switches_never_panic [OF list_chase_lev_ok _ disjI1 [OF refl] _ _ switch_init])
    (use switch_example_ok switch_example_legal in simp_all)

text \<open>
  C3: and no task is lost: every operation leaves alive exactly the tasks that were, without those it ends and with the
  one it creates.  A scheduler round ends the tasks whose polls were done, and none that is pending; an exit ends the running task; taking
  a branch back ends that branch; no other operation ends any.
\<close>

theorem switches_lose_no_task:
  assumes "chase_lev_ok cl contents" and "pol \<in> standard_policies (hybrid_try_steal cl)"
    and "external = pool_external \<or> external = no_external"
    and "pool_of_size n p0" and "pool_items (hybrid_items contents) p0 = {#}"
    and "switch_reachable (worker_pool (hybrid_ops cl) pol external) (pool_items (hybrid_items contents)) n p0 s"
    and "w < n" and "a \<noteq> 0" and "switch_legal (pool_items (hybrid_items contents)) n w op s"
    and "switch_apply (worker_pool (hybrid_ops cl) pol external) w a op s = Some s'"
  shows "alive (pool_items (hybrid_items contents)) n s' =
    alive (pool_items (hybrid_items contents)) n s - ended (worker_pool (hybrid_ops cl) pol external) w op s \<union> created op"
proof -
  note dp = hybrid_dispatched [OF assms(1-3), of n]
  note r = dispatched_pool.reachable_ok [OF dp assms(6,4,5)]
  show ?thesis
    using dispatched_pool.apply_ok [OF dp r [THEN conjunct1] assms(7) r [THEN conjunct2] assms(8,9)] assms(10) by auto
qed

text \<open>A queued task is polled, pending and not parked: it is alive.\<close>

lemma switch_example_polled:
  defines "s1 \<equiv> ss_push sweeping 0 (Fut 7) (switch_start switch_example)"
  shows "switch_apply sweeping 0 16 (Do_Async 7) (switch_start switch_example) = Some s1"
    and "switch_reachable sweeping (pool_items (hybrid_items id)) 2 switch_example s1"
    and "switch_legal (pool_items (hybrid_items id)) 2 0 (Do_Round [Poll_Pending False False]) s1"
    and "fst (tp_next sweeping 0 Site_Loop (ss_pool s1)) = Steal_Success (Fut 7)"
proof -
  show spawned: "switch_apply sweeping 0 16 (Do_Async 7) (switch_start switch_example) = Some s1"
    by (simp add: async_spawn_def s1_def)
  show "switch_reachable sweeping (pool_items (hybrid_items id)) 2 switch_example s1"
    by (rule switch_next [OF switch_init _ _ switch_example_legal spawned]) simp_all
  show "switch_legal (pool_items (hybrid_items id)) 2 0 (Do_Round [Poll_Pending False False]) s1"
    by (simp add: s1_def on_stack_def ss_push_def switch_start_def)
  show "fst (tp_next sweeping 0 Site_Loop (ss_pool s1)) = Steal_Success (Fut 7)"
    by (simp add: s1_def ss_push_def switch_start_def worker_pool_def hybrid_ops_def next_task_def dispatch_next_def dispatch_switch_def
        dispatch_search_def worker_sources_def worker_try_pop_def worker_push_def hybrid_try_pop_def hybrid_push_def
        hybrid_default_def list_chase_lev_def deferred_new_def opt_to_steal_def switch_example_def pop_back_def)
qed

theorem switches_lose_no_task_witness:
  "alive (pool_items (hybrid_items id)) 2
     (the (switch_apply sweeping 0 16 (Do_Round [Poll_Pending False False])
        (ss_push sweeping 0 (Fut 7) (switch_start switch_example)))) =
   alive (pool_items (hybrid_items id)) 2 (ss_push sweeping 0 (Fut 7) (switch_start switch_example))"
proof -
  let ?s = "ss_push sweeping 0 (Fut 7) (switch_start switch_example)" and ?op = "Do_Round [Poll_Pending False False]"
  note dp = hybrid_dispatched [OF list_chase_lev_ok _ disjI1 [OF refl], of _ 2]
  have "switch_apply sweeping 0 16 ?op ?s \<noteq> None"
    using dispatched_pool.reachable_ok [OF dp switch_example_polled(2)] dispatched_pool.apply_ok [OF dp, of _ ?s 0 16 ?op]
      switch_example_ok switch_example_polled(3) by auto
  then obtain s' where s': "switch_apply sweeping 0 16 ?op ?s = Some s'" by auto
  from switches_lose_no_task [OF list_chase_lev_ok _ disjI1 [OF refl] _ _ switch_example_polled(2) _ _ switch_example_polled(3) s']
  show ?thesis using switch_example_ok switch_example_polled(4) s' by simp
qed

text \<open>
  The operations above need a task on its own stack.  Nothing in \<open>yield_now\<close> or \<open>spawn\<close> of a dual
  system checks it (only \<open>DualResumable\<close> does), and a \<open>spawn_async\<close> task is polled on the scheduler
  loop's stack.

  C37: when a polled task calls the stackful \<open>yield_now\<close>, the root continuation of its worker is
  queued like a task: another worker can steal it, and then the worker's next exit to the scheduler
  panics, as it finds no task and no root.
\<close>

theorem root_yield_escapes:
  "\<exists>s1 p. ult_yield sweeping 0 a
        ((switch_start (worker_push (hybrid_ops list_chase_lev) 0 (Ult 3) switch_example))\<lparr>ss_ctx := (\<lambda>_. 0)(Ult 3 := 64)\<rparr>)
      = Some s1 \<and>
    tp_next sweeping 1 Site_Loop (ss_pool s1) = (Steal_Success (Root 0), p) \<and>
    ult_exit sweeping 0 (s1\<lparr>ss_pool := p\<rparr>) = None"
proof -
  note run = worker_pool_def hybrid_ops_def next_task_def dispatch_next_def dispatch_switch_def dispatch_search_def
    worker_sources_def worker_try_pop_def worker_try_steal_def worker_push_def worker_defer_def pool_external_def
    steal_path_try_pop_def steal_path_default_def hybrid_try_pop_def hybrid_try_steal_def hybrid_push_def
    hybrid_defer_def hybrid_default_def list_chase_lev_def deferred_new_def deferred_push_def deferred_try_take_def
    sweep_steal_try_def sweep_def opt_to_steal_def switch_example_def pop_back_def
  let ?s0 = "(switch_start (worker_push (hybrid_ops list_chase_lev) 0 (Ult 3) switch_example))\<lparr>ss_ctx := (\<lambda>_. 0)(Ult 3 := 64)\<rparr>"
  obtain s1 where s1: "ult_yield sweeping 0 a ?s0 = Some s1"
      "ss_pool s1 = worker_defer (hybrid_ops list_chase_lev) 0 (Root 0) (snd (tp_next sweeping 0 Site_Switch (ss_pool ?s0)))"
      "ss_root s1 = (\<lambda>_. None)"
    by (simp add: ult_yield_def suspend_to_sched_def next_or_root_dual_def switch_next_def switch_start_def
        suspend_to_cont_eq ss_defer_def run)
  obtain p where p: "tp_next sweeping 1 Site_Loop (ss_pool s1) = (Steal_Success (Root 0), p)"
      "tp_next sweeping 0 Site_Switch p = (Steal_Empty, p)"
    unfolding s1(2) by (simp add: switch_start_def run upt_rec)
  have "ult_exit sweeping 0 (s1\<lparr>ss_pool := p\<rparr>) = None"
    using p(2) s1(3) by (simp add: ult_exit_def exit_to_sched_def next_or_root_dual_def switch_next_def take_root_cont_def)
  with s1(1) p(1) show ?thesis by blast
qed

end
