(* ===== verification/Locks.thy ===== *)
theory Locks
  imports Cmpth_Prelude
begin

text \<open>
  The blocking mutex with its condition variable (\<open>stackful/sync/mutex.rs\<close>) and the barrier
  (\<open>stackful/sync/barrier.rs\<close>; \<open>common/sync/dual_barrier.rs\<close> is the same algorithm): a wait queue
  behind a spin lock.  What runs under the spin lock is one step; a notification outside it is a step
  of its own.  A waiter publishes its continuation before it lets the spin lock go, so a popped waiter
  is always one that can be resumed.
\<close>

section \<open>Mutex\<close>

record mutex_state =
  ms_locked :: bool
  ms_waiters :: "nat list"

definition mutex_new :: mutex_state where
  "mutex_new = \<lparr>ms_locked = False, ms_waiters = []\<rparr>"

text \<open>The result of \<open>mutex_lock\<close> tells whether the thread got the lock or parks.\<close>

definition mutex_lock :: "nat \<Rightarrow> mutex_state \<Rightarrow> bool \<times> mutex_state" where
  "mutex_lock t m =
     (if \<not> ms_locked m then (True, m\<lparr>ms_locked := True\<rparr>)
      else (False, m\<lparr>ms_waiters := ms_waiters m @ [t]\<rparr>))"

definition mutex_try_lock :: "mutex_state \<Rightarrow> bool \<times> mutex_state" where
  "mutex_try_lock m = (if \<not> ms_locked m then (True, m\<lparr>ms_locked := True\<rparr>) else (False, m))"

text \<open>The result of \<open>mutex_unlock\<close> is the waiter to notify.\<close>

definition mutex_unlock :: "mutex_state \<Rightarrow> nat option \<times> mutex_state" where
  "mutex_unlock m =
     (case ms_waiters m of
        x # xs \<Rightarrow> (Some x, m\<lparr>ms_waiters := xs\<rparr>)
      | [] \<Rightarrow> (None, m\<lparr>ms_locked := False\<rparr>))"

section \<open>Threads, mutex and condition variable\<close>

text \<open>
  A thread that waits on the condition variable parks first; its callback then unlocks the mutex on
  the stack of the next task, while the thread may already have been notified.  So the callbacks under
  way are kept apart from the threads.
\<close>

datatype lock_pc =
    L_Out
  | L_Want                     \<comment> \<open>about to call \<open>mutex_lock\<close>\<close>
  | L_Wait                     \<comment> \<open>parked in the mutex's queue\<close>
  | L_In                       \<comment> \<open>holds the guard\<close>
  | L_Notify nat               \<comment> \<open>unlocked, about to notify that waiter\<close>
  | L_Cond                     \<comment> \<open>parked in the condition variable's queue\<close>
  | L_Notify_All bool "nat list"   \<comment> \<open>in \<open>notify_all\<close>, with or without the guard, about to notify those\<close>

datatype callback_pc = C_Unlock | C_Notify nat

record lock_sys =
  lk_mutex :: mutex_state
  lk_cond :: "nat list"
  lk_pc :: "nat \<Rightarrow> lock_pc"
  lk_callbacks :: "callback_pc multiset"
  lk_arrived :: "nat list"     \<comment> \<open>the threads in the order they asked for the lock\<close>
  lk_granted :: "nat list"     \<comment> \<open>the threads in the order they were granted it\<close>
  lk_waited :: "nat list"      \<comment> \<open>the threads in the order they parked on the condition variable\<close>
  lk_woken :: "nat list"       \<comment> \<open>the threads in the order they were taken out of its queue\<close>

definition lock_start :: lock_sys where
  "lock_start = \<lparr>lk_mutex = mutex_new, lk_cond = [], lk_pc = (\<lambda>_. L_Out), lk_callbacks = {#},
     lk_arrived = [], lk_granted = [], lk_waited = [], lk_woken = []\<rparr>"

abbreviation lgoto :: "nat \<Rightarrow> lock_pc \<Rightarrow> lock_sys \<Rightarrow> lock_sys" where
  "lgoto t pc s \<equiv> s\<lparr>lk_pc := (lk_pc s)(t := pc)\<rparr>"

definition do_lock :: "nat \<Rightarrow> lock_sys \<Rightarrow> lock_sys" where
  "do_lock t s =
     (case mutex_lock t (lk_mutex s) of
        (True, m) \<Rightarrow> lgoto t L_In (s\<lparr>lk_mutex := m, lk_arrived := lk_arrived s @ [t], lk_granted := lk_granted s @ [t]\<rparr>)
      | (False, m) \<Rightarrow> lgoto t L_Wait (s\<lparr>lk_mutex := m, lk_arrived := lk_arrived s @ [t]\<rparr>))"

definition do_unlock :: "lock_sys \<Rightarrow> nat option \<times> lock_sys" where
  "do_unlock s =
     (case mutex_unlock (lk_mutex s) of
        (None, m) \<Rightarrow> (None, s\<lparr>lk_mutex := m\<rparr>)
      | (Some x, m) \<Rightarrow> (Some x, s\<lparr>lk_mutex := m, lk_granted := lk_granted s @ [x]\<rparr>))"

definition cond_wait :: "nat \<Rightarrow> lock_sys \<Rightarrow> lock_sys" where
  "cond_wait t s = 
     lgoto t L_Cond
       (s\<lparr>lk_cond := lk_cond s @ [t], lk_waited := lk_waited s @ [t], lk_callbacks := add_mset C_Unlock (lk_callbacks s)\<rparr>)"

definition cond_notify_one :: "lock_sys \<Rightarrow> lock_sys" where
  "cond_notify_one s =
     (case lk_cond s of [] \<Rightarrow> s | x # xs \<Rightarrow> lgoto x L_Want (s\<lparr>lk_cond := xs, lk_woken := lk_woken s @ [x]\<rparr>))"

definition cond_notify_all :: "nat \<Rightarrow> lock_sys \<Rightarrow> lock_sys" where
  "cond_notify_all t s =
     lgoto t (L_Notify_All (lk_pc s t = L_In) (lk_cond s)) (s\<lparr>lk_cond := [], lk_woken := lk_woken s @ lk_cond s\<rparr>)"

inductive lock_step :: "lock_sys \<Rightarrow> lock_sys \<Rightarrow> bool" where
  want: "lk_pc s t = L_Out \<Longrightarrow> lock_step s (lgoto t L_Want s)"
| lock: "lk_pc s t = L_Want \<Longrightarrow> lock_step s (do_lock t s)"
| unlock: "lk_pc s t = L_In \<Longrightarrow> do_unlock s = (r, s') \<Longrightarrow>
    lock_step s (lgoto t (case r of None \<Rightarrow> L_Out | Some x \<Rightarrow> L_Notify x) s')"
| notify: "lk_pc s t = L_Notify x \<Longrightarrow> lock_step s (lgoto t L_Out (lgoto x L_In s))"
| wait: "lk_pc s t = L_In \<Longrightarrow> lock_step s (cond_wait t s)"
| callback_unlock: "C_Unlock \<in># lk_callbacks s \<Longrightarrow> do_unlock s = (r, s') \<Longrightarrow>
    lock_step s (s'\<lparr>lk_callbacks := lk_callbacks s' - {#C_Unlock#} +
      (case r of None \<Rightarrow> {#} | Some x \<Rightarrow> {#C_Notify x#})\<rparr>)"
| callback_notify: "C_Notify x \<in># lk_callbacks s \<Longrightarrow>
    lock_step s ((lgoto x L_In s)\<lparr>lk_callbacks := lk_callbacks s - {#C_Notify x#}\<rparr>)"
| notify_one: "lk_pc s t = L_Out \<or> lk_pc s t = L_In \<Longrightarrow> lock_step s (cond_notify_one s)"
| notify_all: "lk_pc s t = L_Out \<or> lk_pc s t = L_In \<Longrightarrow> lock_step s (cond_notify_all t s)"
| notify_all_next: "lk_pc s t = L_Notify_All b (x # xs) \<Longrightarrow>
    lock_step s (lgoto t (L_Notify_All b xs) (lgoto x L_Want s))"
| notify_all_done: "lk_pc s t = L_Notify_All b [] \<Longrightarrow> lock_step s (lgoto t (if b then L_In else L_Out) s)"

inductive lock_reachable :: "lock_sys \<Rightarrow> bool" where
  lock_init: "lock_reachable lock_start"
| lock_next: "lock_reachable s \<Longrightarrow> lock_step s s' \<Longrightarrow> lock_reachable s'"

section \<open>Who has the lock\<close>

text \<open>The one token of a locked mutex: with a thread, with a waiter about to be notified, or with a callback.\<close>

datatype owner = Nobody | Holder nat | Leaving | Flying nat nat | Flying_Callback nat

fun holds :: "lock_pc \<Rightarrow> bool" where
  "holds L_In = True" | "holds (L_Notify_All b xs) = b" | "holds _ = False"

fun owner_callbacks :: "owner \<Rightarrow> callback_pc multiset" where
  "owner_callbacks Leaving = {#C_Unlock#}" | "owner_callbacks (Flying_Callback x) = {#C_Notify x#}"
| "owner_callbacks _ = {#}"

fun flying :: "owner \<Rightarrow> nat option" where
  "flying (Flying t x) = Some x" | "flying (Flying_Callback x) = Some x" | "flying _ = None"

definition owner_ok :: "owner \<Rightarrow> lock_sys \<Rightarrow> bool" where
  "owner_ok ow s \<longleftrightarrow>
     (ms_locked (lk_mutex s) \<longleftrightarrow> ow \<noteq> Nobody) \<and>
     (\<forall>t. ow = Holder t \<longleftrightarrow> holds (lk_pc s t)) \<and>
     (\<forall>t x. ow = Flying t x \<longleftrightarrow> lk_pc s t = L_Notify x) \<and>
     lk_callbacks s = owner_callbacks ow"

definition waiters_ok :: "owner \<Rightarrow> lock_sys \<Rightarrow> bool" where
  "waiters_ok ow s \<longleftrightarrow>
     (\<forall>x. lk_pc s x = L_Wait \<longleftrightarrow> x \<in> set (ms_waiters (lk_mutex s)) \<or> flying ow = Some x) \<and>
     distinct (ms_waiters (lk_mutex s)) \<and>
     (\<forall>x. flying ow = Some x \<longrightarrow> x \<notin> set (ms_waiters (lk_mutex s))) \<and>
     (ms_waiters (lk_mutex s) \<noteq> [] \<longrightarrow> ow \<noteq> Nobody) \<and>
     lk_arrived s = lk_granted s @ ms_waiters (lk_mutex s)"

definition cond_ok :: "lock_sys \<Rightarrow> bool" where
  "cond_ok s \<longleftrightarrow>
     distinct (lk_cond s) \<and> (\<forall>x \<in> set (lk_cond s). lk_pc s x = L_Cond) \<and>
     (\<forall>t b xs. lk_pc s t = L_Notify_All b xs \<longrightarrow>
        distinct xs \<and> (\<forall>x \<in> set xs. lk_pc s x = L_Cond \<and> x \<notin> set (lk_cond s))) \<and>
     (\<forall>t u b c xs ys. lk_pc s t = L_Notify_All b xs \<longrightarrow> lk_pc s u = L_Notify_All c ys \<longrightarrow> t \<noteq> u \<longrightarrow> set xs \<inter> set ys = {})"

text \<open>Moves of a thread that keep the lock where it is.\<close>

lemma frame:
  assumes "owner_ok ow s \<and> waiters_ok ow s" and "holds pc = holds (lk_pc s t)"
    and "\<forall>x. pc \<noteq> L_Notify x \<and> lk_pc s t \<noteq> L_Notify x" and "pc \<noteq> L_Wait" and "lk_pc s t \<noteq> L_Wait"
  shows "owner_ok ow (lgoto t pc s) \<and> waiters_ok ow (lgoto t pc s)"
proof -
  have "t \<notin> set (ms_waiters (lk_mutex s)) \<and> flying ow \<noteq> Some t" using assms(1,5) by (simp add: waiters_ok_def)
  then show ?thesis using assms by (simp add: owner_ok_def waiters_ok_def)
qed

lemma cond_okD:
  assumes "cond_ok s"
  shows "distinct (lk_cond s)"
    and "\<And>x. x \<in> set (lk_cond s) \<Longrightarrow> lk_pc s x = L_Cond"
    and "\<And>t b xs. lk_pc s t = L_Notify_All b xs \<Longrightarrow> distinct xs"
    and "\<And>t b xs x. lk_pc s t = L_Notify_All b xs \<Longrightarrow> x \<in> set xs \<Longrightarrow> lk_pc s x = L_Cond \<and> x \<notin> set (lk_cond s)"
    and "\<And>t u b c xs ys. lk_pc s t = L_Notify_All b xs \<Longrightarrow> lk_pc s u = L_Notify_All c ys \<Longrightarrow> t \<noteq> u \<Longrightarrow>
      set xs \<inter> set ys = {}"
  using assms unfolding cond_ok_def by blast+

lemma not_waiting:
  "waiters_ok ow s \<Longrightarrow> lk_pc s t \<noteq> L_Wait \<Longrightarrow> t \<notin> set (ms_waiters (lk_mutex s)) \<and> flying ow \<noteq> Some t"
  by (auto simp: waiters_ok_def)

lemma frame_cond:
  "owner_ok ow s \<and> waiters_ok ow s \<Longrightarrow> owner_ok ow (s\<lparr>lk_cond := c, lk_woken := d\<rparr>) \<and> waiters_ok ow (s\<lparr>lk_cond := c, lk_woken := d\<rparr>)"
  by (simp add: owner_ok_def waiters_ok_def)

lemma owner_step:
  assumes "lock_step s s'" and "owner_ok ow s" and "waiters_ok ow s" and "cond_ok s"
  shows "\<exists>ow'. owner_ok ow' s' \<and> waiters_ok ow' s'"
  using assms
proof (induction)
  case (want s t)
  then show ?case using frame [of ow s L_Want t] by auto
next
  case (lock s t)
  show ?case
  proof (cases "ms_locked (lk_mutex s)")
    case False
    then have "owner_ok (Holder t) (do_lock t s) \<and> waiters_ok (Holder t) (do_lock t s)"
      using lock not_waiting [OF lock(3), of t] by (auto simp: owner_ok_def waiters_ok_def do_lock_def mutex_lock_def split: if_splits)
    then show ?thesis by blast
  next
    case True
    then have "owner_ok ow (do_lock t s) \<and> waiters_ok ow (do_lock t s)"
      using lock not_waiting [OF lock(3), of t] by (auto simp: owner_ok_def waiters_ok_def do_lock_def mutex_lock_def split: if_splits)
    then show ?thesis by blast
  qed
next
  case (unlock s t r s')
  then have ow: "ow = Holder t" by (simp add: owner_ok_def)
  show ?case
  proof (cases "ms_waiters (lk_mutex s)")
    case Nil
    then have "owner_ok Nobody (lgoto t L_Out s') \<and> waiters_ok Nobody (lgoto t L_Out s') \<and> r = None"
      using unlock ow not_waiting [OF unlock(4), of t] by (auto simp: owner_ok_def waiters_ok_def do_unlock_def mutex_unlock_def split: if_splits)
    then show ?thesis by (metis option.simps(4))
  next
    case (Cons x xs)
    then have "owner_ok (Flying t x) (lgoto t (L_Notify x) s') \<and> waiters_ok (Flying t x) (lgoto t (L_Notify x) s') \<and> r = Some x"
      using unlock ow not_waiting [OF unlock(4), of t] by (auto simp: owner_ok_def waiters_ok_def do_unlock_def mutex_unlock_def split: if_splits)
    then show ?thesis by (metis option.simps(5))
  qed
next
  case (notify s t x)
  then have ow: "ow = Flying t x" by (simp add: owner_ok_def)
  have "lk_pc s x = L_Wait" using notify ow by (simp add: waiters_ok_def)
  then have "owner_ok (Holder x) (lgoto t L_Out (lgoto x L_In s)) \<and> waiters_ok (Holder x) (lgoto t L_Out (lgoto x L_In s))"
    using notify ow not_waiting [OF notify(3), of t] by (auto simp: owner_ok_def waiters_ok_def split: if_splits)
  then show ?case by blast
next
  case (wait s t)
  then have ow: "ow = Holder t" by (simp add: owner_ok_def)
  then have "owner_ok Leaving (cond_wait t s) \<and> waiters_ok Leaving (cond_wait t s)"
    using wait not_waiting [OF wait(3), of t] by (auto simp: owner_ok_def waiters_ok_def cond_wait_def split: if_splits)
  then show ?case by blast
next
  case (callback_unlock s r s')
  then have ow: "ow = Leaving" by (cases ow) (auto simp: owner_ok_def)
  let ?s = "\<lambda>cb. s'\<lparr>lk_callbacks := cb\<rparr>"
  show ?case
  proof (cases "ms_waiters (lk_mutex s)")
    case Nil
    then have "owner_ok Nobody (?s {#}) \<and> waiters_ok Nobody (?s {#}) \<and> r = None \<and> lk_callbacks s' = {#C_Unlock#}"
      using callback_unlock ow by (auto simp: owner_ok_def waiters_ok_def do_unlock_def mutex_unlock_def split: if_splits)
    then show ?thesis by auto
  next
    case (Cons x xs)
    then have "owner_ok (Flying_Callback x) (?s {#C_Notify x#}) \<and> waiters_ok (Flying_Callback x) (?s {#C_Notify x#}) \<and>
        r = Some x \<and> lk_callbacks s' = {#C_Unlock#}"
      using callback_unlock ow by (auto simp: owner_ok_def waiters_ok_def do_unlock_def mutex_unlock_def split: if_splits)
    then show ?thesis by auto
  qed
next
  case (callback_notify x s)
  then have ow: "ow = Flying_Callback x" by (cases ow) (auto simp: owner_ok_def)
  have "lk_pc s x = L_Wait" using callback_notify ow by (simp add: waiters_ok_def)
  then have "owner_ok (Holder x) ((lgoto x L_In s)\<lparr>lk_callbacks := lk_callbacks s - {#C_Notify x#}\<rparr>) \<and>
      waiters_ok (Holder x) ((lgoto x L_In s)\<lparr>lk_callbacks := lk_callbacks s - {#C_Notify x#}\<rparr>)"
    using callback_notify ow by (auto simp: owner_ok_def waiters_ok_def split: if_splits)
  then show ?case by blast
next
  case (notify_one s t)
  show ?case
  proof (cases "lk_cond s")
    case (Cons x xs)
    then have "lk_pc s x = L_Cond" using cond_okD(2) [OF notify_one(4), of x] by simp
    then have "owner_ok ow (cond_notify_one s) \<and> waiters_ok ow (cond_notify_one s)"
      unfolding cond_notify_one_def Cons list.case using notify_one(2,3)
      by (intro frame [OF frame_cond]) simp_all
    then show ?thesis by blast
  qed (use notify_one in \<open>auto simp: cond_notify_one_def\<close>)
next
  case (notify_all s t)
  have pc: "lk_pc s t = L_Out \<or> lk_pc s t = L_In" by (rule notify_all)
  have "owner_ok ow (cond_notify_all t s) \<and> waiters_ok ow (cond_notify_all t s)"
    unfolding cond_notify_all_def using pc notify_all(2,3) by (intro frame [OF frame_cond]) auto
  then show ?case by blast
next
  case (notify_all_next s t b x xs)
  have x: "lk_pc s x = L_Cond" using cond_okD(4) [OF notify_all_next(4,1), of x] by simp
  have fr: "owner_ok ow (lgoto x L_Want s) \<and> waiters_ok ow (lgoto x L_Want s)"
    using notify_all_next(2,3) x by (intro frame) auto
  have tx: "t \<noteq> x" using notify_all_next(1) x by auto
  have "owner_ok ow (lgoto t (L_Notify_All b xs) (lgoto x L_Want s)) \<and>
      waiters_ok ow (lgoto t (L_Notify_All b xs) (lgoto x L_Want s))"
    by (rule frame [OF fr]) (use tx notify_all_next(1) in simp_all)
  then show ?case by blast
next
  case (notify_all_done s t b)
  then have "owner_ok ow (lgoto t (if b then L_In else L_Out) s) \<and> waiters_ok ow (lgoto t (if b then L_In else L_Out) s)"
    by (intro frame) auto
  then show ?case by blast
qed
lemma cond_okI:
  assumes "distinct (lk_cond s)" and "\<And>x. x \<in> set (lk_cond s) \<Longrightarrow> lk_pc s x = L_Cond"
    and "\<And>t b xs. lk_pc s t = L_Notify_All b xs \<Longrightarrow> distinct xs"
    and "\<And>t b xs x. lk_pc s t = L_Notify_All b xs \<Longrightarrow> x \<in> set xs \<Longrightarrow> lk_pc s x = L_Cond \<and> x \<notin> set (lk_cond s)"
    and "\<And>t u b c xs ys. lk_pc s t = L_Notify_All b xs \<Longrightarrow> lk_pc s u = L_Notify_All c ys \<Longrightarrow> t \<noteq> u \<Longrightarrow>
      set xs \<inter> set ys = {}"
  shows "cond_ok s"
  using assms unfolding cond_ok_def by blast

lemma cond_cong: "lk_pc s' = lk_pc s \<Longrightarrow> lk_cond s' = lk_cond s \<Longrightarrow> cond_ok s' = cond_ok s"
  by (simp only: cond_ok_def)

lemma cond_frame:
  assumes "cond_ok s" and "lk_pc s t \<noteq> L_Cond" and "\<forall>b xs. pc \<noteq> L_Notify_All b xs"
    and "lk_pc s' = (lk_pc s)(t := pc)" and "lk_cond s' = lk_cond s"
  shows "cond_ok s'"
proof (rule cond_okI)
  note D = cond_okD [OF assms(1)]
  have pcs: "lk_pc s' u = L_Notify_All b xs \<Longrightarrow> lk_pc s u = L_Notify_All b xs" for u b xs
    using assms(3,4) by (auto split: if_splits)
  have keep: "lk_pc s x = L_Cond \<Longrightarrow> lk_pc s' x = L_Cond" for x using assms(2,4) by auto
  show "distinct (lk_cond s')" using D(1) assms(5) by simp
  show "lk_pc s' x = L_Cond" if "x \<in> set (lk_cond s')" for x using D(2) [of x] keep that assms(5) by simp
  show "distinct xs" if "lk_pc s' u = L_Notify_All b xs" for u b xs using D(3) [OF pcs [OF that]] .
  show "lk_pc s' x = L_Cond \<and> x \<notin> set (lk_cond s')" if "lk_pc s' u = L_Notify_All b xs" "x \<in> set xs" for u b xs x
    using D(4) [OF pcs [OF that(1)] that(2)] keep assms(5) by simp
  show "set xs \<inter> set ys = {}" if "lk_pc s' u = L_Notify_All b xs" "lk_pc s' v = L_Notify_All c ys" "u \<noteq> v" for u v b c xs ys
    using D(5) [OF pcs [OF that(1)] pcs [OF that(2)] that(3)] .
qed

lemma cond_step:
  assumes "lock_step s s'" and "owner_ok ow s" and "waiters_ok ow s" and "cond_ok s"
  shows "cond_ok s'"
  using assms
proof (induction)
  case (want s t)
  then show ?case by (intro cond_frame [OF want(4), of t L_Want]) auto
next
  case (lock s t)
  then show ?case
    by (cases "ms_locked (lk_mutex s)"; intro cond_frame [OF lock(4), of t "if ms_locked (lk_mutex s) then L_Wait else L_In"])
      (auto simp: do_lock_def mutex_lock_def)
next
  case (unlock s t r s')
  have "lk_pc s' = lk_pc s \<and> lk_cond s' = lk_cond s"
    using unlock(2) by (auto simp: do_unlock_def split: prod.splits option.splits)
  with unlock show ?case
    by (intro cond_frame [OF unlock(5), of t "case r of None \<Rightarrow> L_Out | Some x \<Rightarrow> L_Notify x"]) (auto split: option.splits)
next
  case (notify s t x)
  then have "lk_pc s x = L_Wait" by (simp add: owner_ok_def waiters_ok_def) (metis flying.simps(1))
  then have "cond_ok (lgoto x L_In s)" by (intro cond_frame [OF notify(4), of x L_In]) auto
  then show ?case by (rule cond_frame [of _ t L_Out]) (use notify(1) \<open>lk_pc s x = L_Wait\<close> in auto)
next
  case (wait s t)
  note D = cond_okD [OF wait(4)]
  have t: "t \<notin> set (lk_cond s)" using D(2) [of t] wait(1) by auto
  have pcs: "lk_pc (cond_wait t s) u = L_Notify_All b xs \<Longrightarrow> lk_pc s u = L_Notify_All b xs \<and> t \<notin> set xs" for u b xs
    using D(4) [of u b xs t] wait(1) by (auto simp: cond_wait_def split: if_splits)
  show ?case
  proof (rule cond_okI)
    show "distinct (lk_cond (cond_wait t s))" using D(1) t by (simp add: cond_wait_def)
    show "lk_pc (cond_wait t s) x = L_Cond" if "x \<in> set (lk_cond (cond_wait t s))" for x
      using that D(2) [of x] by (auto simp: cond_wait_def)
    show "distinct xs" if "lk_pc (cond_wait t s) u = L_Notify_All b xs" for u b xs using D(3) pcs [OF that] by blast
    show "lk_pc (cond_wait t s) x = L_Cond \<and> x \<notin> set (lk_cond (cond_wait t s))"
      if "lk_pc (cond_wait t s) u = L_Notify_All b xs" "x \<in> set xs" for u b xs x
      using D(4) pcs [OF that(1)] that(2) by (auto simp: cond_wait_def)
    show "set xs \<inter> set ys = {}" if "lk_pc (cond_wait t s) u = L_Notify_All b xs"
      "lk_pc (cond_wait t s) v = L_Notify_All c ys" "u \<noteq> v" for u v b c xs ys
      using D(5) pcs [OF that(1)] pcs [OF that(2)] that(3) by blast
  qed
next
  case (callback_unlock s r s')
  have "lk_pc s' = lk_pc s \<and> lk_cond s' = lk_cond s"
    using callback_unlock(2) by (auto simp: do_unlock_def split: prod.splits option.splits)
  then have "cond_ok (s'\<lparr>lk_callbacks := cb\<rparr>) = cond_ok s" for cb by (intro cond_cong) simp_all
  then show ?case using callback_unlock(5) by (simp only:)
next
  case (callback_notify x s)
  then have "ow = Flying_Callback x" by (cases ow) (auto simp: owner_ok_def)
  then have "lk_pc s x = L_Wait" using callback_notify by (simp add: waiters_ok_def)
  then show ?case by (intro cond_frame [OF callback_notify(4), of x L_In]) auto
next
  case (notify_one s t)
  note D = cond_okD [OF notify_one(4)]
  show ?case
  proof (cases "lk_cond s")
    case Nil
    then show ?thesis using notify_one(4) by (simp add: cond_notify_one_def)
  next
    case (Cons x xs)
    have pcs: "lk_pc (cond_notify_one s) u = L_Notify_All b ys \<Longrightarrow> lk_pc s u = L_Notify_All b ys \<and> x \<notin> set ys" for u b ys
      using D(4) [of u b ys x] Cons by (auto simp: cond_notify_one_def split: if_splits)
    show ?thesis
    proof (rule cond_okI)
      show "distinct (lk_cond (cond_notify_one s))" using D(1) Cons by (simp add: cond_notify_one_def)
      show "lk_pc (cond_notify_one s) y = L_Cond" if "y \<in> set (lk_cond (cond_notify_one s))" for y
        using that D(1) D(2) [of y] Cons by (auto simp: cond_notify_one_def)
      show "distinct ys" if "lk_pc (cond_notify_one s) u = L_Notify_All b ys" for u b ys using D(3) pcs [OF that] by blast
      show "lk_pc (cond_notify_one s) y = L_Cond \<and> y \<notin> set (lk_cond (cond_notify_one s))"
        if "lk_pc (cond_notify_one s) u = L_Notify_All b ys" "y \<in> set ys" for u b ys y
        using D(4) pcs [OF that(1)] that(2) Cons by (auto simp: cond_notify_one_def)
      show "set ys \<inter> set zs = {}" if "lk_pc (cond_notify_one s) u = L_Notify_All b ys"
        "lk_pc (cond_notify_one s) v = L_Notify_All c zs" "u \<noteq> v" for u v b c ys zs
        using D(5) pcs [OF that(1)] pcs [OF that(2)] that(3) by blast
    qed
  qed
next
  case (notify_all s t)
  note D = cond_okD [OF notify_all(4)]
  let ?s = "cond_notify_all t s"
  have pcs: "lk_pc ?s u = L_Notify_All b ys \<Longrightarrow> (if u = t then ys = lk_cond s else lk_pc s u = L_Notify_All b ys)" for u b ys
    by (auto simp: cond_notify_all_def)
  have keep: "lk_pc s x = L_Cond \<Longrightarrow> lk_pc ?s x = L_Cond" for x using notify_all(1) by (auto simp: cond_notify_all_def)
  have other: "distinct ys \<and> (\<forall>x \<in> set ys. lk_pc s x = L_Cond)" if h: "lk_pc ?s u = L_Notify_All b ys" for u b ys
  proof (cases "u = t")
    case True
    then have "ys = lk_cond s" using pcs [OF h] by simp
    then show ?thesis using D(1) D(2) by blast
  next
    case False
    then have "lk_pc s u = L_Notify_All b ys" using pcs [OF h] by simp
    from D(3) [OF this] D(4) [OF this] show ?thesis by blast
  qed
  show ?case
  proof (rule cond_okI)
    show "set ys \<inter> set zs = {}" if "lk_pc ?s u = L_Notify_All b ys" "lk_pc ?s v = L_Notify_All c zs" "u \<noteq> v" for u v b c ys zs
    proof (cases "u = t")
      case True
      then have "lk_pc s v = L_Notify_All c zs" "ys = lk_cond s" using pcs [OF that(1)] pcs [OF that(2)] that(3) by simp_all
      then show ?thesis using D(4) by blast
    next
      case False
      then have u: "lk_pc s u = L_Notify_All b ys" using pcs [OF that(1)] by simp
      show ?thesis
      proof (cases "v = t")
        case True
        then show ?thesis using D(4) [OF u] pcs [OF that(2)] by auto
      qed (use D(5) [OF u] pcs [OF that(2)] that(3) in simp)
    qed
  next
    show "distinct ys" if "lk_pc ?s u = L_Notify_All b ys" for u b ys using other [OF that] by blast
    show "lk_pc ?s y = L_Cond \<and> y \<notin> set (lk_cond ?s)" if "lk_pc ?s u = L_Notify_All b ys" "y \<in> set ys" for u b ys y
      using other [OF that(1)] that(2) keep [of y] by (simp add: cond_notify_all_def)
  qed (simp_all add: cond_notify_all_def)
next
  case (notify_all_next s t b x xs)
  note D = cond_okD [OF notify_all_next(4)]
  let ?s = "lgoto t (L_Notify_All b xs) (lgoto x L_Want s)"
  have x: "lk_pc s x = L_Cond" "x \<notin> set xs" "x \<notin> set (lk_cond s)"
    using D(3,4) [OF notify_all_next(1)] by auto
  have tx: "t \<noteq> x" using x notify_all_next(1) by auto
  have pcs: "lk_pc ?s u = L_Notify_All c ys \<Longrightarrow> \<exists>zs. lk_pc s u = L_Notify_All c zs \<and> set ys \<subseteq> set zs \<and> x \<notin> set ys \<and> distinct ys" for u c ys
  proof -
    assume u: "lk_pc ?s u = L_Notify_All c ys"
    show ?thesis
    proof (cases "u = t")
      case True
      then show ?thesis using u notify_all_next(1) x tx D(3) [OF notify_all_next(1)] by auto
    next
      case False
      then have "lk_pc s u = L_Notify_All c ys" using u tx x(1) by (auto split: if_splits)
      moreover from this have "x \<notin> set ys" using D(5) [OF notify_all_next(1), of u c ys] False by auto
      ultimately show ?thesis using D(3) by auto
    qed
  qed
  have keep: "lk_pc s y = L_Cond \<Longrightarrow> y \<noteq> x \<Longrightarrow> lk_pc ?s y = L_Cond" for y using notify_all_next(1) by auto
  show ?case
  proof (rule cond_okI)
    show "distinct (lk_cond ?s)" using D(1) by simp
    show "lk_pc ?s y = L_Cond" if "y \<in> set (lk_cond ?s)" for y using that D(2) [of y] keep [of y] x(3) by auto
    show "distinct ys" if "lk_pc ?s u = L_Notify_All c ys" for u c ys using pcs [OF that] by blast
    show "lk_pc ?s y = L_Cond \<and> y \<notin> set (lk_cond ?s)" if h: "lk_pc ?s u = L_Notify_All c ys" "y \<in> set ys" for u c ys y
    proof -
      obtain zs where "lk_pc s u = L_Notify_All c zs" "set ys \<subseteq> set zs" "x \<notin> set ys" using pcs [OF h(1)] by blast
      with D(4) [of u c zs y] h(2) keep [of y] show ?thesis by auto
    qed
    show "set ys \<inter> set zs = {}" if "lk_pc ?s u = L_Notify_All c ys" "lk_pc ?s v = L_Notify_All d zs" "u \<noteq> v" for u v c d ys zs
      using pcs [OF that(1)] pcs [OF that(2)] that(3) D(5) by blast
  qed
next
  case (notify_all_done s t b)
  then show ?case by (intro cond_frame [OF notify_all_done(4), of t "if b then L_In else L_Out"]) auto
qed

text \<open>
  No waiter of the condition variable is forgotten: it is in the queue, or a \<open>notify_all\<close> is about to notify it;
  and the queue is first come, first served.
\<close>

definition cond_kept :: "lock_sys \<Rightarrow> bool" where
  "cond_kept s \<longleftrightarrow>
     (\<forall>x. lk_pc s x = L_Cond \<longrightarrow> x \<in> set (lk_cond s) \<or> (\<exists>t b xs. lk_pc s t = L_Notify_All b xs \<and> x \<in> set xs)) \<and>
     lk_waited s = lk_woken s @ lk_cond s"

lemma kept_frame:
  assumes "cond_kept s" and "lk_pc s' = (lk_pc s)(t := pc)" and "pc \<noteq> L_Cond" and "\<forall>b x xs. lk_pc s t \<noteq> L_Notify_All b (x # xs)"
    and "lk_cond s' = lk_cond s \<and> lk_waited s' = lk_waited s \<and> lk_woken s' = lk_woken s"
  shows "cond_kept s'"
proof -
  have "x \<in> set (lk_cond s') \<or> (\<exists>u b xs. lk_pc s' u = L_Notify_All b xs \<and> x \<in> set xs)" if "lk_pc s' x = L_Cond" for x
  proof -
    have "lk_pc s x = L_Cond" using that assms(2,3) by (auto split: if_splits)
    moreover have "u \<noteq> t" if "lk_pc s u = L_Notify_All b xs" "x \<in> set xs" for u b xs
      using assms(4) that by (cases xs) auto
    ultimately show ?thesis using assms(1,2,5) unfolding cond_kept_def by (metis fun_upd_other)
  qed
  with assms(1,5) show ?thesis by (simp add: cond_kept_def)
qed

lemma kept_cong:
  "cond_kept s \<Longrightarrow> lk_pc s' = lk_pc s \<Longrightarrow> lk_cond s' = lk_cond s \<Longrightarrow> lk_waited s' = lk_waited s \<Longrightarrow> lk_woken s' = lk_woken s \<Longrightarrow>
   cond_kept s'"
  by (simp add: cond_kept_def)

lemma cond_keptE:
  assumes "cond_kept s" and "lk_pc s x = L_Cond"
  obtains "x \<in> set (lk_cond s)" | t b xs where "lk_pc s t = L_Notify_All b xs" "x \<in> set xs"
  using assms by (auto simp: cond_kept_def)

lemma do_unlock_kept:
  "do_unlock s = (r, s') \<Longrightarrow>
   lk_pc s' = lk_pc s \<and> lk_cond s' = lk_cond s \<and> lk_waited s' = lk_waited s \<and> lk_woken s' = lk_woken s"
  by (auto simp: do_unlock_def split: prod.splits option.splits)

lemma kept_step:
  assumes "lock_step s s'" and "owner_ok ow s" and "waiters_ok ow s" and "cond_ok s" and "cond_kept s"
  shows "cond_kept s'"
  using assms
proof induction
  case (want s t)
  then show ?case by (intro kept_frame [OF want(5), of _ t L_Want]) auto
next
  case (lock s t)
  then show ?case
    by (cases "ms_locked (lk_mutex s)"; intro kept_frame [OF lock(5), of _ t "if ms_locked (lk_mutex s) then L_Wait else L_In"])
      (auto simp: do_lock_def mutex_lock_def)
next
  case (unlock s t r s')
  then show ?case
    using do_unlock_kept [OF unlock(2)]
    by (intro kept_frame [OF unlock(6), of _ t "case r of None \<Rightarrow> L_Out | Some x \<Rightarrow> L_Notify x"]) (auto split: option.splits)
next
  case (notify s t x)
  then have x: "lk_pc s x = L_Wait" by (simp add: owner_ok_def waiters_ok_def) (metis flying.simps(1))
  then have "cond_kept (lgoto x L_In s)" by (intro kept_frame [OF notify(5), of _ x L_In]) auto
  then show ?case by (rule kept_frame [of _ _ t L_Out]) (use notify(1) x in auto)
next
  case (wait s t)
  have "x \<in> set (lk_cond (cond_wait t s)) \<or> (\<exists>u b xs. lk_pc (cond_wait t s) u = L_Notify_All b xs \<and> x \<in> set xs)"
    if "lk_pc (cond_wait t s) x = L_Cond" for x
  proof (cases "x = t")
    case False
    then have "lk_pc s x = L_Cond" using that by (simp add: cond_wait_def)
    from wait(5) this show ?thesis
    proof (cases rule: cond_keptE)
      case (2 u b xs)
      then have "lk_pc (cond_wait t s) u = L_Notify_All b xs" using wait(1) by (auto simp: cond_wait_def)
      with 2(2) show ?thesis by blast
    qed (simp add: cond_wait_def)
  qed (simp add: cond_wait_def)
  with wait(5) show ?case by (simp add: cond_kept_def) (simp add: cond_wait_def)
next
  case (callback_unlock s r s')
  then show ?case using do_unlock_kept [OF callback_unlock(2)] by (intro kept_cong [OF callback_unlock(6)]) auto
next
  case (callback_notify x s)
  then have "ow = Flying_Callback x" by (cases ow) (auto simp: owner_ok_def)
  then have "lk_pc s x = L_Wait" using callback_notify by (simp add: waiters_ok_def)
  then show ?case by (intro kept_frame [OF callback_notify(5), of _ x L_In]) auto
next
  case (notify_one s t)
  show ?case
  proof (cases "lk_cond s")
    case (Cons x xs)
    have x: "lk_pc s x = L_Cond" using cond_okD(2) [OF notify_one(4), of x] Cons by simp
    let ?s = "cond_notify_one s"
    have "y \<in> set (lk_cond ?s) \<or> (\<exists>u b ys. lk_pc ?s u = L_Notify_All b ys \<and> y \<in> set ys)" if y: "lk_pc ?s y = L_Cond" for y
    proof -
      have "lk_pc s y = L_Cond" "y \<noteq> x" using y Cons by (auto simp: cond_notify_one_def split: if_splits)
      from notify_one(5) this(1) show ?thesis
      proof (cases rule: cond_keptE)
        case (2 u b ys)
        then have "lk_pc ?s u = L_Notify_All b ys" using x Cons by (auto simp: cond_notify_one_def)
        with 2(2) show ?thesis by blast
      qed (use \<open>y \<noteq> x\<close> Cons in \<open>simp add: cond_notify_one_def\<close>)
    qed
    with notify_one(5) Cons show ?thesis by (simp add: cond_kept_def) (simp add: cond_notify_one_def)
  qed (use notify_one(5) in \<open>simp add: cond_notify_one_def\<close>)
next
  case (notify_all s t)
  have "\<exists>u b xs. lk_pc (cond_notify_all t s) u = L_Notify_All b xs \<and> x \<in> set xs"
    if x: "lk_pc (cond_notify_all t s) x = L_Cond" for x
  proof -
    have "lk_pc s x = L_Cond" using x by (auto simp: cond_notify_all_def split: if_splits)
    from notify_all(5) this show ?thesis
    proof (cases rule: cond_keptE)
      case (2 u b xs)
      then have "lk_pc (cond_notify_all t s) u = L_Notify_All b xs" using notify_all(1) by (auto simp: cond_notify_all_def)
      with 2(2) show ?thesis by blast
    qed (auto simp: cond_notify_all_def)
  qed
  with notify_all(5) show ?case by (simp add: cond_kept_def) (simp add: cond_notify_all_def)
next
  case (notify_all_next s t b x xs)
  let ?s = "lgoto t (L_Notify_All b xs) (lgoto x L_Want s)"
  have tx: "lk_pc s x = L_Cond" using cond_okD(4) [OF notify_all_next(4,1), of x] by simp
  have "y \<in> set (lk_cond ?s) \<or> (\<exists>u c ys. lk_pc ?s u = L_Notify_All c ys \<and> y \<in> set ys)" if y: "lk_pc ?s y = L_Cond" for y
  proof -
    have "lk_pc s y = L_Cond" "y \<noteq> x" using y notify_all_next(1) by (auto split: if_splits)
    from notify_all_next(5) this(1) show ?thesis
    proof (cases rule: cond_keptE)
      case (2 u c ys)
      show ?thesis
      proof (cases "u = t")
        case True
        then have "y \<in> set xs" using 2 notify_all_next(1) \<open>y \<noteq> x\<close> by auto
        then show ?thesis by (intro disjI2 exI [of _ t] exI [of _ b] exI [of _ xs]) simp
      next
        case False
        then have "lk_pc ?s u = L_Notify_All c ys" using 2(1) tx by auto
        with 2(2) show ?thesis by blast
      qed
    qed simp
  qed
  with notify_all_next(5) show ?case by (simp add: cond_kept_def)
next
  case (notify_all_done s t b)
  then show ?case by (intro kept_frame [OF notify_all_done(5), of _ t "if b then L_In else L_Out"]) auto
qed

lemma lock_inv:
  assumes "lock_reachable s"
  obtains ow where "owner_ok ow s" and "waiters_ok ow s" and "cond_ok s" and "cond_kept s"
proof -
  have "\<exists>ow. owner_ok ow s \<and> waiters_ok ow s \<and> cond_ok s \<and> cond_kept s"
    using assms
  proof induction
    case lock_init
    have "owner_ok Nobody lock_start \<and> waiters_ok Nobody lock_start \<and> cond_ok lock_start \<and> cond_kept lock_start"
      by (simp add: owner_ok_def waiters_ok_def cond_ok_def cond_kept_def lock_start_def mutex_new_def)
    then show ?case by blast
  next
    case (lock_next s s')
    then show ?case using owner_step cond_step kept_step by blast
  qed
  then show thesis using that by blast
qed

text \<open>
  C10: the mutex, with threads that lock, unlock, and wait on and notify its condition variable in
  any interleaving: at most one thread holds the guard, and only while the mutex is locked; the lock is
  granted in the order in which it was asked for; as long as a thread waits for it, the thread is
  still queued or about to be notified, and the guard is with a thread or being passed on.  A thread is parked on
  the condition variable exactly as long as it is in its queue or a \<open>notify_all\<close> is about to notify it, and the threads
  are taken out of that queue in the order they parked.
\<close>

theorem mutex_exclusive_fifo:
  assumes "lock_reachable s"
  shows "(\<nexists>t u. t \<noteq> u \<and> holds (lk_pc s t) \<and> holds (lk_pc s u)) \<and>
    (\<nexists>t. holds (lk_pc s t) \<and> \<not> ms_locked (lk_mutex s)) \<and>
    lk_arrived s = lk_granted s @ ms_waiters (lk_mutex s) \<and>
    (\<forall>x. lk_pc s x = L_Wait \<longrightarrow> ms_locked (lk_mutex s) \<and>
       (x \<in> set (ms_waiters (lk_mutex s)) \<or> C_Notify x \<in># lk_callbacks s \<or> (\<exists>t. lk_pc s t = L_Notify x)) \<and>
       ((\<exists>t. holds (lk_pc s t)) \<or> (\<exists>t y. lk_pc s t = L_Notify y) \<or> lk_callbacks s \<noteq> {#})) \<and>
    (\<forall>x. lk_pc s x = L_Cond \<longleftrightarrow> x \<in> set (lk_cond s) \<or> (\<exists>t b xs. lk_pc s t = L_Notify_All b xs \<and> x \<in> set xs)) \<and>
    lk_waited s = lk_woken s @ lk_cond s \<and> distinct (lk_cond s)"
proof -
  obtain ow where ok: "owner_ok ow s" "waiters_ok ow s" and cond: "cond_ok s" "cond_kept s" by (rule lock_inv [OF assms])
  have parked: "lk_pc s x = L_Cond \<longleftrightarrow> x \<in> set (lk_cond s) \<or> (\<exists>t b xs. lk_pc s t = L_Notify_All b xs \<and> x \<in> set xs)" for x
    using cond cond_okD(2,4) [OF cond(1)] unfolding cond_kept_def by metis
  have hold: "holds (lk_pc s t) \<longleftrightarrow> ow = Holder t" and fly: "lk_pc s t = L_Notify x \<longleftrightarrow> ow = Flying t x" for t x
    using ok(1) by (simp_all add: owner_ok_def)
  have locked: "ms_locked (lk_mutex s) \<longleftrightarrow> ow \<noteq> Nobody" and cb: "lk_callbacks s = owner_callbacks ow"
    using ok(1) by (simp_all add: owner_ok_def)
  have wait: "lk_pc s x = L_Wait \<longleftrightarrow> x \<in> set (ms_waiters (lk_mutex s)) \<or> flying ow = Some x"
    and order: "lk_arrived s = lk_granted s @ ms_waiters (lk_mutex s)"
    and busy: "ms_waiters (lk_mutex s) \<noteq> [] \<longrightarrow> ow \<noteq> Nobody" for x
    using ok(2) by (simp_all add: waiters_ok_def)
  have "ms_locked (lk_mutex s) \<and>
       (x \<in> set (ms_waiters (lk_mutex s)) \<or> C_Notify x \<in># lk_callbacks s \<or> (\<exists>t. lk_pc s t = L_Notify x)) \<and>
       ((\<exists>t. holds (lk_pc s t)) \<or> (\<exists>t y. lk_pc s t = L_Notify y) \<or> lk_callbacks s \<noteq> {#})" if "lk_pc s x = L_Wait" for x
    unfolding hold fly locked cb using that busy unfolding wait by (cases ow) auto
  then show ?thesis unfolding hold locked parked using order cond cond_okD(1) [OF cond(1)] unfolding cond_kept_def by blast
qed


text \<open>Thread 0 has the lock and thread 1 waits for it; then thread 0 waits on the condition variable.\<close>

definition lock_example :: lock_sys where
  "lock_example = do_lock 1 (lgoto 1 L_Want (do_lock 0 (lgoto 0 L_Want lock_start)))"

lemma lock_example_reachable: "lock_reachable lock_example" "lock_reachable (cond_wait 0 lock_example)"
proof -
  show "lock_reachable lock_example"
    unfolding lock_example_def
    by (intro lock_next [OF _ lock] lock_next [OF _ want] lock_init)
      (simp_all add: lock_start_def do_lock_def mutex_lock_def mutex_new_def)
  then show "lock_reachable (cond_wait 0 lock_example)"
    by (rule lock_next [OF _ wait])
      (simp add: lock_example_def lock_start_def do_lock_def mutex_lock_def mutex_new_def)
qed

theorem mutex_exclusive_fifo_witness:
  "lk_arrived lock_example = lk_granted lock_example @ ms_waiters (lk_mutex lock_example) \<and>
   lk_arrived lock_example = [0, 1] \<and> ms_waiters (lk_mutex lock_example) = [1] \<and>
   lk_waited (cond_wait 0 lock_example) = lk_woken (cond_wait 0 lock_example) @ lk_cond (cond_wait 0 lock_example) \<and>
   lk_waited (cond_wait 0 lock_example) = [0]"
proof -
  have "lk_waited (cond_wait 0 lock_example) = [0]"
    by (simp add: cond_wait_def lock_example_def lock_start_def do_lock_def mutex_lock_def mutex_new_def)
  then show ?thesis
    using mutex_exclusive_fifo [OF lock_example_reachable(1)] mutex_exclusive_fifo [OF lock_example_reachable(2)]
    by (simp add: lock_example_def lock_start_def do_lock_def mutex_lock_def mutex_new_def)
qed

section \<open>Barrier\<close>

record barrier_state =
  br_count :: usize
  br_waiters :: "nat list"

definition barrier_new :: "usize \<Rightarrow> barrier_state option" where
  "barrier_new n = (if n > 0 then Some \<lparr>br_count = 0, br_waiters = []\<rparr> else None)"

text \<open>The last thread to arrive gets the waiters to notify; any other one parks.\<close>

definition barrier_wait :: "usize \<Rightarrow> nat \<Rightarrow> barrier_state \<Rightarrow> nat list option \<times> barrier_state" where
  "barrier_wait n t b =
     (let b = b\<lparr>br_count := br_count b + 1\<rparr>
      in if br_count b = n then (Some (br_waiters b), b\<lparr>br_count := 0, br_waiters := []\<rparr>)
         else (None, b\<lparr>br_waiters := br_waiters b @ [t]\<rparr>))"

text \<open>
  Threads arrive any number of times.  \<open>bs_gen\<close> counts the times the barrier has opened, which is the
  number of threads that were told they lead; a parked thread remembers it; \<open>bs_arrived g\<close> counts the
  arrivals while it was \<open>g\<close>.
\<close>

datatype barrier_pc = B_Out | B_Parked nat | B_Waking "nat list"

record barrier_sys =
  bs_barrier :: barrier_state
  bs_pc :: "nat \<Rightarrow> barrier_pc"
  bs_gen :: nat
  bs_arrived :: "nat \<Rightarrow> nat"

definition barrier_start :: "barrier_state \<Rightarrow> barrier_sys" where
  "barrier_start b = \<lparr>bs_barrier = b, bs_pc = (\<lambda>_. B_Out), bs_gen = 0, bs_arrived = (\<lambda>_. 0)\<rparr>"

definition barrier_arrive :: "usize \<Rightarrow> nat \<Rightarrow> barrier_sys \<Rightarrow> barrier_sys" where
  "barrier_arrive n t s =
     (let s = s\<lparr>bs_arrived := (bs_arrived s)(bs_gen s := bs_arrived s (bs_gen s) + 1)\<rparr>
      in case barrier_wait n t (bs_barrier s) of
           (Some ws, b) \<Rightarrow> s\<lparr>bs_barrier := b, bs_pc := (bs_pc s)(t := B_Waking ws), bs_gen := bs_gen s + 1\<rparr>
         | (None, b) \<Rightarrow> s\<lparr>bs_barrier := b, bs_pc := (bs_pc s)(t := B_Parked (bs_gen s))\<rparr>)"

inductive barrier_step :: "usize \<Rightarrow> barrier_sys \<Rightarrow> barrier_sys \<Rightarrow> bool" for n where
  arrive: "bs_pc s t = B_Out \<Longrightarrow> barrier_step n s (barrier_arrive n t s)"
| wake: "bs_pc s t = B_Waking (x # xs) \<Longrightarrow>
    barrier_step n s (s\<lparr>bs_pc := (bs_pc s)(x := B_Out, t := B_Waking xs)\<rparr>)"
| lead: "bs_pc s t = B_Waking [] \<Longrightarrow> barrier_step n s (s\<lparr>bs_pc := (bs_pc s)(t := B_Out)\<rparr>)"

inductive barrier_reachable :: "usize \<Rightarrow> barrier_sys \<Rightarrow> bool" for n where
  barrier_init: "barrier_new n = Some b \<Longrightarrow> barrier_reachable n (barrier_start b)"
| barrier_next: "barrier_reachable n s \<Longrightarrow> barrier_step n s s' \<Longrightarrow> barrier_reachable n s'"

definition barrier_counts :: "usize \<Rightarrow> barrier_sys \<Rightarrow> bool" where
  "barrier_counts n s \<longleftrightarrow>
     unat (br_count (bs_barrier s)) = length (br_waiters (bs_barrier s)) \<and> br_count (bs_barrier s) < n \<and>
     (\<forall>g < bs_gen s. bs_arrived s g = unat n) \<and> bs_arrived s (bs_gen s) = unat (br_count (bs_barrier s)) \<and>
     (\<forall>g > bs_gen s. bs_arrived s g = 0)"

definition barrier_parked :: "barrier_sys \<Rightarrow> bool" where
  "barrier_parked s \<longleftrightarrow>
     (\<forall>x. x \<in> set (br_waiters (bs_barrier s)) \<longleftrightarrow> bs_pc s x = B_Parked (bs_gen s)) \<and>
     distinct (br_waiters (bs_barrier s)) \<and>
     (\<forall>t xs. bs_pc s t = B_Waking xs \<longrightarrow> distinct xs \<and> (\<forall>x \<in> set xs. \<exists>g < bs_gen s. bs_pc s x = B_Parked g)) \<and>
     (\<forall>t u xs ys. bs_pc s t = B_Waking xs \<longrightarrow> bs_pc s u = B_Waking ys \<longrightarrow> t \<noteq> u \<longrightarrow> set xs \<inter> set ys = {}) \<and>
     (\<forall>x g. bs_pc s x = B_Parked g \<longrightarrow> g \<le> bs_gen s \<and> (g < bs_gen s \<longrightarrow> (\<exists>t xs. bs_pc s t = B_Waking xs \<and> x \<in> set xs)))"

lemma count_suc:
  fixes c n :: usize
  assumes "c < n"
  shows "unat (c + 1) = unat c + 1"
proof -
  have "unat n < 2 ^ LENGTH(64)" by (rule unsigned_less)
  then have "unat c + unat (1 :: usize) < 2 ^ LENGTH(64)" using assms by (simp add: word_less_nat_alt)
  then show ?thesis using unat_add_lem [of c 1] by simp
qed

lemma count_below:
  fixes c n :: usize
  assumes "c < n" and "c + 1 \<noteq> n"
  shows "c + 1 < n \<and> unat (c + 1) = unat c + 1"
proof -
  have "unat c + 1 \<noteq> unat n" using assms(2) count_suc [OF assms(1)] word_unat_eq_iff [of "c + 1" n] by auto
  then show ?thesis using assms(1) count_suc [OF assms(1)] by (simp add: word_less_nat_alt)
qed

lemma barrier_counts_step:
  assumes "barrier_step n s s'" and "barrier_counts n s"
  shows "barrier_counts n s'"
  using assms
proof induction
  case (arrive s t)
  show ?case
  proof (cases "br_count (bs_barrier s) + 1 = n")
    case True
    then have "unat n = unat (br_count (bs_barrier s)) + 1 \<and> 0 < n"
      using arrive(2) count_suc [of "br_count (bs_barrier s)" n] by (auto simp: barrier_counts_def word_less_nat_alt)
    then show ?thesis
      using arrive(2) True by (auto simp: barrier_counts_def barrier_arrive_def barrier_wait_def Let_def less_Suc_eq)
  next
    case False
    with count_below [of "br_count (bs_barrier s)" n] arrive(2) show ?thesis
      by (auto simp: barrier_counts_def barrier_arrive_def barrier_wait_def Let_def)
  qed
qed (simp_all add: barrier_counts_def)


lemma barrier_parkedD:
  assumes "barrier_parked s"
  shows "\<And>x. x \<in> set (br_waiters (bs_barrier s)) \<longleftrightarrow> bs_pc s x = B_Parked (bs_gen s)"
    and "distinct (br_waiters (bs_barrier s))"
    and "\<And>t xs. bs_pc s t = B_Waking xs \<Longrightarrow> distinct xs"
    and "\<And>t xs x. bs_pc s t = B_Waking xs \<Longrightarrow> x \<in> set xs \<Longrightarrow> \<exists>g < bs_gen s. bs_pc s x = B_Parked g"
    and "\<And>t u xs ys. bs_pc s t = B_Waking xs \<Longrightarrow> bs_pc s u = B_Waking ys \<Longrightarrow> t \<noteq> u \<Longrightarrow> set xs \<inter> set ys = {}"
    and "\<And>x g. bs_pc s x = B_Parked g \<Longrightarrow> g \<le> bs_gen s"
    and "\<And>x g. bs_pc s x = B_Parked g \<Longrightarrow> g < bs_gen s \<Longrightarrow> \<exists>t xs. bs_pc s t = B_Waking xs \<and> x \<in> set xs"
  using assms unfolding barrier_parked_def by blast+

lemma barrier_parkedI:
  assumes "\<And>x. x \<in> set (br_waiters (bs_barrier s)) \<longleftrightarrow> bs_pc s x = B_Parked (bs_gen s)"
    and "distinct (br_waiters (bs_barrier s))"
    and "\<And>t xs. bs_pc s t = B_Waking xs \<Longrightarrow> distinct xs"
    and "\<And>t xs x. bs_pc s t = B_Waking xs \<Longrightarrow> x \<in> set xs \<Longrightarrow> \<exists>g < bs_gen s. bs_pc s x = B_Parked g"
    and "\<And>t u xs ys. bs_pc s t = B_Waking xs \<Longrightarrow> bs_pc s u = B_Waking ys \<Longrightarrow> t \<noteq> u \<Longrightarrow> set xs \<inter> set ys = {}"
    and "\<And>x g. bs_pc s x = B_Parked g \<Longrightarrow> g \<le> bs_gen s"
    and "\<And>x g. bs_pc s x = B_Parked g \<Longrightarrow> g < bs_gen s \<Longrightarrow> \<exists>t xs. bs_pc s t = B_Waking xs \<and> x \<in> set xs"
  shows "barrier_parked s"
  using assms unfolding barrier_parked_def by blast

lemma barrier_parked_step:
  assumes "barrier_step n s s'" and "barrier_parked s"
  shows "barrier_parked s'"
  using assms
proof induction
  case (arrive s t)
  note D = barrier_parkedD [OF arrive(2)]
  let ?s = "barrier_arrive n t s"
  show ?case
  proof (cases "br_count (bs_barrier s) + 1 = n")
    case True
    then have e: "bs_gen ?s = bs_gen s + 1" "bs_pc ?s = (bs_pc s)(t := B_Waking (br_waiters (bs_barrier s)))"
      "br_waiters (bs_barrier ?s) = []"
      by (simp_all add: barrier_arrive_def barrier_wait_def Let_def)
    have old: "bs_pc ?s u = B_Waking xs \<Longrightarrow> u \<noteq> t \<Longrightarrow> bs_pc s u = B_Waking xs" for u xs by (simp add: e)
    have new: "bs_pc ?s t = B_Waking xs \<Longrightarrow> xs = br_waiters (bs_barrier s)" for xs by (simp add: e)
    have parked: "bs_pc ?s x = B_Parked g \<longleftrightarrow> bs_pc s x = B_Parked g" for x g using arrive(1) by (auto simp: e)
    show ?thesis
    proof (rule barrier_parkedI)
      show "x \<in> set (br_waiters (bs_barrier ?s)) \<longleftrightarrow> bs_pc ?s x = B_Parked (bs_gen ?s)" for x
        using D(6) [of x "bs_gen s + 1"] by (auto simp: parked e(1,3))
      show "distinct (br_waiters (bs_barrier ?s))" by (simp add: e)
      show "distinct xs" if "bs_pc ?s u = B_Waking xs" for u xs
        using old [OF that] new D(2) D(3) [of u xs] that by (cases "u = t") auto
      show "\<exists>g < bs_gen ?s. bs_pc ?s x = B_Parked g" if "bs_pc ?s u = B_Waking xs" "x \<in> set xs" for u xs x
      proof (cases "u = t")
        case True
        then have "bs_pc s x = B_Parked (bs_gen s)" using new that D(1) by metis
        then show ?thesis by (auto simp: parked e(1))
      next
        case False
        from D(4) [OF old [OF that(1) False] that(2)] obtain g where "g < bs_gen s" "bs_pc s x = B_Parked g" by blast
        then show ?thesis unfolding parked e(1) by (intro exI [of _ g]) simp
      qed
      show "set xs \<inter> set ys = {}" if h: "bs_pc ?s u = B_Waking xs" "bs_pc ?s v = B_Waking ys" "u \<noteq> v" for u v xs ys
      proof -
        have dis: "set (br_waiters (bs_barrier s)) \<inter> set zs = {}" if "bs_pc s w = B_Waking zs" for w zs
          using D(4) [OF that] unfolding disjoint_iff D(1) by fastforce
        show ?thesis
        proof (cases "u = t \<or> v = t")
          case True
          then show ?thesis using h new old dis by (metis Int_commute)
        next
          case False
          then show ?thesis using D(5) [OF old [OF h(1)] old [OF h(2)] h(3)] by simp
        qed
      qed
      show "g \<le> bs_gen ?s" if "bs_pc ?s x = B_Parked g" for x g using D(6) [of x g] that unfolding parked e(1) by simp
      show "\<exists>u xs. bs_pc ?s u = B_Waking xs \<and> x \<in> set xs" if "bs_pc ?s x = B_Parked g" "g < bs_gen ?s" for x g
      proof (cases "g = bs_gen s")
        case True
        then have "x \<in> set (br_waiters (bs_barrier s))" using that(1) unfolding parked D(1) by simp
        then show ?thesis by (intro exI [of _ t] exI) (simp add: e)
      next
        case False
        then have "g < bs_gen s" using that(2) by (simp add: e)
        from D(7) [OF that(1) [unfolded parked] this] obtain u xs where u: "bs_pc s u = B_Waking xs" "x \<in> set xs" by blast
        then have "u \<noteq> t" using arrive(1) by auto
        with u show ?thesis by (intro exI [of _ u] exI [of _ xs]) (simp add: e)
      qed
    qed
  next
    case False
    then have e: "bs_gen ?s = bs_gen s" "bs_pc ?s = (bs_pc s)(t := B_Parked (bs_gen s))"
      "br_waiters (bs_barrier ?s) = br_waiters (bs_barrier s) @ [t]"
      by (simp_all add: barrier_arrive_def barrier_wait_def Let_def)
    have wk: "bs_pc ?s u = B_Waking xs \<longleftrightarrow> bs_pc s u = B_Waking xs" for u xs using arrive(1) by (auto simp: e)
    have parked: "bs_pc ?s x = B_Parked g \<longleftrightarrow> bs_pc s x = B_Parked g \<or> x = t \<and> g = bs_gen s" for x g
      using arrive(1) by (auto simp: e)
    have t: "t \<notin> set (br_waiters (bs_barrier s))" unfolding D(1) using arrive(1) by simp
    show ?thesis
    proof (rule barrier_parkedI)
      show "x \<in> set (br_waiters (bs_barrier ?s)) \<longleftrightarrow> bs_pc ?s x = B_Parked (bs_gen ?s)" for x
        unfolding parked e(1,3) using D(1) [of x] by auto
      show "distinct (br_waiters (bs_barrier ?s))" using D(2) t by (simp add: e(3))
      show "distinct xs" if "bs_pc ?s u = B_Waking xs" for u xs using D(3) that unfolding wk by blast
      show "\<exists>g < bs_gen ?s. bs_pc ?s x = B_Parked g" if "bs_pc ?s u = B_Waking xs" "x \<in> set xs" for u xs x
        using D(4) [OF that(1) [unfolded wk] that(2)] unfolding parked e(1) by blast
      show "set xs \<inter> set ys = {}" if "bs_pc ?s u = B_Waking xs" "bs_pc ?s v = B_Waking ys" "u \<noteq> v" for u v xs ys
        using D(5) that unfolding wk by blast
      show "g \<le> bs_gen ?s" if "bs_pc ?s x = B_Parked g" for x g using D(6) [of x g] that unfolding parked e(1) by auto
      show "\<exists>u xs. bs_pc ?s u = B_Waking xs \<and> x \<in> set xs" if "bs_pc ?s x = B_Parked g" "g < bs_gen ?s" for x g
        using D(7) [of x g] that unfolding parked wk e(1) by auto
    qed
  qed
next
  case (wake s t x xs)
  note D = barrier_parkedD [OF wake(2)]
  let ?s = "s\<lparr>bs_pc := (bs_pc s)(x := B_Out, t := B_Waking xs)\<rparr>"
  obtain g where g: "g < bs_gen s" "bs_pc s x = B_Parked g" using D(4) [OF wake(1), of x] by auto
  have tx: "t \<noteq> x" "x \<notin> set xs" using g wake(1) D(3) [OF wake(1)] by auto
  have wk: "bs_pc ?s u = B_Waking ys \<Longrightarrow> \<exists>zs. bs_pc s u = B_Waking zs \<and> distinct ys \<and> set ys = set zs - {x}" for u ys
  proof -
    assume u: "bs_pc ?s u = B_Waking ys"
    show ?thesis
    proof (cases "u = t")
      case True
      then show ?thesis using u wake(1) tx D(3) [OF wake(1)] by auto
    next
      case False
      then have o: "bs_pc s u = B_Waking ys" using u by (auto split: if_splits)
      moreover have "x \<notin> set ys" using D(5) [OF wake(1) o] False by auto
      ultimately show ?thesis using D(3) [OF o] by auto
    qed
  qed
  have parked: "bs_pc ?s y = B_Parked h \<longleftrightarrow> bs_pc s y = B_Parked h \<and> y \<noteq> x" for y h using tx wake(1) by auto
  show ?case
  proof (rule barrier_parkedI)
    show "y \<in> set (br_waiters (bs_barrier ?s)) \<longleftrightarrow> bs_pc ?s y = B_Parked (bs_gen ?s)" for y
      unfolding parked using D(1) [of y] g by auto
    show "distinct (br_waiters (bs_barrier ?s))" using D(2) by simp
    show "distinct ys" if "bs_pc ?s u = B_Waking ys" for u ys using wk [OF that] by blast
    show "\<exists>h < bs_gen ?s. bs_pc ?s y = B_Parked h" if "bs_pc ?s u = B_Waking ys" "y \<in> set ys" for u ys y
      using wk [OF that(1)] that(2) D(4) unfolding parked by fastforce
    show "set ys \<inter> set zs = {}" if h: "bs_pc ?s u = B_Waking ys" "bs_pc ?s v = B_Waking zs" "u \<noteq> v" for u v ys zs
    proof -
      obtain ys' where 1: "bs_pc s u = B_Waking ys'" "set ys = set ys' - {x}" using wk [OF h(1)] by blast
      obtain zs' where 2: "bs_pc s v = B_Waking zs'" "set zs = set zs' - {x}" using wk [OF h(2)] by blast
      show ?thesis using D(5) [OF 1(1) 2(1) h(3)] 1(2) 2(2) by blast
    qed
    show "h \<le> bs_gen ?s" if "bs_pc ?s y = B_Parked h" for y h using D(6) [of y h] that unfolding parked by simp
    show "\<exists>u ys. bs_pc ?s u = B_Waking ys \<and> y \<in> set ys" if "bs_pc ?s y = B_Parked h" "h < bs_gen ?s" for y h
    proof -
      have y: "bs_pc s y = B_Parked h" "y \<noteq> x" "h < bs_gen s" using that unfolding parked by simp_all
      from D(7) [OF y(1,3)] obtain u ys where u: "bs_pc s u = B_Waking ys" "y \<in> set ys" by blast
      show ?thesis
      proof (cases "u = t")
        case True
        then show ?thesis using u wake(1) y by (intro exI [of _ t] exI [of _ xs]) auto
      next
        case False
        then show ?thesis using u g by (intro exI [of _ u] exI [of _ ys]) auto
      qed
    qed
  qed
next
  case (lead s t)
  note D = barrier_parkedD [OF lead(2)]
  let ?s = "s\<lparr>bs_pc := (bs_pc s)(t := B_Out)\<rparr>"
  have wk: "bs_pc ?s u = B_Waking ys \<Longrightarrow> bs_pc s u = B_Waking ys" for u ys by (auto split: if_splits)
  have wk': "bs_pc s u = B_Waking ys \<Longrightarrow> y \<in> set ys \<Longrightarrow> bs_pc ?s u = B_Waking ys" for u ys y using lead(1) by auto
  have parked: "bs_pc ?s y = B_Parked h \<longleftrightarrow> bs_pc s y = B_Parked h" for y h using lead(1) by auto
  show ?case
  proof (rule barrier_parkedI)
    show "y \<in> set (br_waiters (bs_barrier ?s)) \<longleftrightarrow> bs_pc ?s y = B_Parked (bs_gen ?s)" for y
      unfolding parked using D(1) by simp
    show "\<exists>h < bs_gen ?s. bs_pc ?s y = B_Parked h" if "bs_pc ?s u = B_Waking ys" "y \<in> set ys" for u ys y
      using D(4) [OF wk [OF that(1)] that(2)] unfolding parked by simp
    show "\<exists>u ys. bs_pc ?s u = B_Waking ys \<and> y \<in> set ys" if "bs_pc ?s y = B_Parked h" "h < bs_gen ?s" for y h
    proof -
      have "bs_pc s y = B_Parked h" "h < bs_gen s" using that unfolding parked by simp_all
      from D(7) [OF this] wk' show ?thesis by blast
    qed
    show "set ys \<inter> set zs = {}" if "bs_pc ?s u = B_Waking ys" "bs_pc ?s v = B_Waking zs" "u \<noteq> v" for u v ys zs
      using D(5) [OF wk [OF that(1)] wk [OF that(2)] that(3)] .
    show "distinct ys" if "bs_pc ?s u = B_Waking ys" for u ys using D(3) [OF wk [OF that]] .
    show "h \<le> bs_gen ?s" if "bs_pc ?s y = B_Parked h" for y h using D(6) [of y h] that unfolding parked by simp
  qed (use D(2) in simp)
qed

lemma barrier_inv: "barrier_reachable n s \<Longrightarrow> barrier_counts n s \<and> barrier_parked s"
proof (induction rule: barrier_reachable.induct)
  case (barrier_init b)
  then show ?case
    by (auto simp: barrier_new_def barrier_start_def barrier_counts_def barrier_parked_def split: if_splits)
next
  case (barrier_next s s')
  then show ?case using barrier_counts_step barrier_parked_step by blast
qed

text \<open>
  The barrier for \<open>n\<close> threads, used any number of times, in any interleaving: it opens exactly
  when \<open>n\<close> threads have arrived since it last opened, each time with one leader; a thread that parked
  before the barrier opened is going to be woken by that leader, and by nobody else; one that parked
  since is still queued, and no leader wakes it.
\<close>

lemma barrier_opens_together:
  assumes "barrier_reachable n s"
  shows "(\<forall>g < bs_gen s. bs_arrived s g = unat n) \<and> bs_arrived s (bs_gen s) < unat n \<and>
    (\<forall>x g. bs_pc s x = B_Parked g \<longrightarrow>
       (if g < bs_gen s then (\<exists>!t. \<exists>xs. bs_pc s t = B_Waking xs \<and> x \<in> set xs)
        else g = bs_gen s \<and> x \<in> set (br_waiters (bs_barrier s)) \<and> (\<nexists>t xs. bs_pc s t = B_Waking xs \<and> x \<in> set xs)))"
proof -
  have C: "barrier_counts n s" and P: "barrier_parked s" using barrier_inv [OF assms] by blast+
  note D = barrier_parkedD [OF P]
  have "if g < bs_gen s then (\<exists>!t. \<exists>xs. bs_pc s t = B_Waking xs \<and> x \<in> set xs)
        else g = bs_gen s \<and> x \<in> set (br_waiters (bs_barrier s)) \<and> (\<nexists>t xs. bs_pc s t = B_Waking xs \<and> x \<in> set xs)"
    if x: "bs_pc s x = B_Parked g" for x g
  proof (cases "g < bs_gen s")
    case True
    then have "\<exists>!t. \<exists>xs. bs_pc s t = B_Waking xs \<and> x \<in> set xs" using D(5) D(7) [OF x True] by blast
    then show ?thesis using True by simp
  next
    case False
    then have "g = bs_gen s" using D(6) [OF x] by simp
    moreover have "\<nexists>t xs. bs_pc s t = B_Waking xs \<and> x \<in> set xs" using D(4) x False by fastforce
    ultimately show ?thesis using False D(1) [of x] x by simp
  qed
  then show ?thesis using C by (auto simp: barrier_counts_def word_less_nat_alt)
qed

text \<open>Two threads: the first parks, the second leads.\<close>

definition barrier_example :: barrier_sys where
  "barrier_example = barrier_arrive 2 1 (barrier_arrive 2 0 (barrier_start \<lparr>br_count = 0, br_waiters = []\<rparr>))"

lemma barrier_opens_together_example:
  "bs_gen barrier_example = 1 \<and> bs_arrived barrier_example 0 = 2 \<and> bs_pc barrier_example 0 = B_Parked 0 \<and>
   (\<exists>!t. \<exists>xs. bs_pc barrier_example t = B_Waking xs \<and> 0 \<in> set xs)"
proof -
  have r: "barrier_reachable 2 barrier_example"
    unfolding barrier_example_def
    by (intro barrier_next [OF _ arrive] barrier_init)
      (simp_all add: barrier_new_def barrier_start_def barrier_arrive_def barrier_wait_def)
  have "bs_gen barrier_example = 1" "bs_pc barrier_example 0 = B_Parked 0"
    by (simp_all add: barrier_example_def barrier_start_def barrier_arrive_def barrier_wait_def)
  then show ?thesis using barrier_opens_together [OF r] by (auto simp: split: if_splits)
qed


end
