(* ===== verification/Mcs_Lock.thy ===== *)
theory Mcs_Lock
  imports Cmpth_Prelude
begin

text \<open>
  The MCS mutex (\<open>stackful/sync/mcs_mutex.rs\<close>; \<open>common/sync/dual_mutex.rs\<close> is the same algorithm over
  any wait slot): a queue of nodes linked from the holder to the tail.  A thread enters it with a swap
  of the tail, and its callback then publishes the link from its predecessor, so the links lag behind
  the swaps.  Every access to an atomic is a step.  A node is named by its address, which may be used
  again once the node is freed.
\<close>

section \<open>The operations\<close>

record mcs_mutex =
  mc_tail :: "nat option"
  mc_next :: "nat \<Rightarrow> nat option"

definition mcs_new :: mcs_mutex where
  "mcs_new = \<lparr>mc_tail = None, mc_next = (\<lambda>_. None)\<rparr>"

text \<open>\<open>start_lock\<close> makes the node \<open>a\<close> the tail and returns the node before it.\<close>

definition start_lock :: "nat \<Rightarrow> mcs_mutex \<Rightarrow> nat option \<times> mcs_mutex" where
  "start_lock a m = (mc_tail m, m\<lparr>mc_tail := Some a, mc_next := (mc_next m)(a := None)\<rparr>)"

definition mcs_link :: "nat \<Rightarrow> nat \<Rightarrow> mcs_mutex \<Rightarrow> mcs_mutex" where
  "mcs_link prev a m = m\<lparr>mc_next := (mc_next m)(prev := Some a)\<rparr>"

definition mcs_try_release :: "nat \<Rightarrow> mcs_mutex \<Rightarrow> bool \<times> mcs_mutex" where
  "mcs_try_release a m = (if mc_tail m = Some a then (True, m\<lparr>mc_tail := None\<rparr>) else (False, m))"

section \<open>Threads\<close>

datatype mcs_pc =
    M_Out
  | M_Linking nat nat     \<comment> \<open>parked, with its node; about to link it behind that one\<close>
  | M_Parked nat
  | M_In nat              \<comment> \<open>holds the guard, with its node\<close>
  | M_Unlocking nat       \<comment> \<open>has a successor, waits for its link\<close>

record mcs_sys =
  my_mutex :: mcs_mutex
  my_pc :: "nat \<Rightarrow> mcs_pc"
  my_live :: "nat set"    \<comment> \<open>the nodes allocated\<close>

definition mcs_start :: mcs_sys where
  "mcs_start = \<lparr>my_mutex = mcs_new, my_pc = (\<lambda>_. M_Out), my_live = {}\<rparr>"

abbreviation mgoto :: "nat \<Rightarrow> mcs_pc \<Rightarrow> mcs_sys \<Rightarrow> mcs_sys" where
  "mgoto t pc s \<equiv> s\<lparr>my_pc := (my_pc s)(t := pc)\<rparr>"

definition mcs_enter :: "nat \<Rightarrow> nat \<Rightarrow> mcs_sys \<Rightarrow> mcs_sys" where
  "mcs_enter t a s =
     (case start_lock a (my_mutex s) of
        (prev, m) \<Rightarrow>
          mgoto t (case prev of None \<Rightarrow> M_In a | Some p \<Rightarrow> M_Linking a p)
            (s\<lparr>my_mutex := m, my_live := insert a (my_live s)\<rparr>))"

definition mcs_drop :: "nat \<Rightarrow> nat \<Rightarrow> mcs_sys \<Rightarrow> mcs_sys" where
  "mcs_drop t a s =
     (case mcs_try_release a (my_mutex s) of
        (True, m) \<Rightarrow> mgoto t M_Out (s\<lparr>my_mutex := m, my_live := my_live s - {a}\<rparr>)
      | (False, m) \<Rightarrow> mgoto t (M_Unlocking a) (s\<lparr>my_mutex := m\<rparr>))"

text \<open>Notifying the thread \<open>u\<close> parked with the node \<open>b\<close>, and freeing the own node.\<close>

definition mcs_hand_over :: "nat \<Rightarrow> nat \<Rightarrow> nat \<Rightarrow> nat \<Rightarrow> mcs_sys \<Rightarrow> mcs_sys" where
  "mcs_hand_over t a u b s = (mgoto t M_Out (mgoto u (M_In b) s))\<lparr>my_live := my_live s - {a}\<rparr>"

inductive mcs_step :: "mcs_sys \<Rightarrow> mcs_sys \<Rightarrow> bool" where
  enter: "my_pc s t = M_Out \<Longrightarrow> a \<notin> my_live s \<Longrightarrow> mcs_step s (mcs_enter t a s)"
| link: "my_pc s t = M_Linking a p \<Longrightarrow> mcs_step s (mgoto t (M_Parked a) (s\<lparr>my_mutex := mcs_link p a (my_mutex s)\<rparr>))"
| release: "my_pc s t = M_In a \<Longrightarrow> mcs_step s (mcs_drop t a s)"
| spin: "my_pc s t = M_Unlocking a \<Longrightarrow> mc_next (my_mutex s) a = None \<Longrightarrow> mcs_step s s"
| hand_over: "my_pc s t = M_Unlocking a \<Longrightarrow> mc_next (my_mutex s) a = Some b \<Longrightarrow> my_pc s u = M_Parked b \<Longrightarrow>
    mcs_step s (mcs_hand_over t a u b s)"

inductive mcs_reachable :: "mcs_sys \<Rightarrow> bool" where
  mcs_init: "mcs_reachable mcs_start"
| mcs_next: "mcs_reachable s \<Longrightarrow> mcs_step s s' \<Longrightarrow> mcs_reachable s'"

section \<open>The queue it implements\<close>

text \<open>
  The abstract lock is a queue of threads, each with its node: the head holds the lock, a thread joins
  at the end, and the head leaves.
\<close>

type_synonym lock_queue = "(nat \<times> nat) list"

definition lock_spec :: "lock_queue \<Rightarrow> lock_queue \<Rightarrow> bool" where
  "lock_spec q q' \<longleftrightarrow> q' = q \<or> (\<exists>x. fst x \<notin> fst ` set q \<and> q' = q @ [x]) \<or> (q \<noteq> [] \<and> q' = tl q)"

text \<open>Of two neighbours the second is linked behind the first and parked, or still about to link.\<close>

definition link_ok :: "(nat \<Rightarrow> mcs_pc) \<Rightarrow> (nat \<Rightarrow> nat option) \<Rightarrow> nat \<times> nat \<Rightarrow> nat \<times> nat \<Rightarrow> bool" where
  "link_ok pc nxt x y \<longleftrightarrow>
     pc (fst y) = M_Linking (snd y) (snd x) \<and> nxt (snd x) = None \<or>
     pc (fst y) = M_Parked (snd y) \<and> nxt (snd x) = Some (snd y)"

definition links_ok :: "(nat \<Rightarrow> mcs_pc) \<Rightarrow> (nat \<Rightarrow> nat option) \<Rightarrow> lock_queue \<Rightarrow> bool" where
  "links_ok pc nxt q \<longleftrightarrow>
     (\<forall>i. Suc i < length q \<longrightarrow> link_ok pc nxt (q ! i) (q ! Suc i)) \<and> (q = [] \<or> nxt (snd (last q)) = None)"

fun head_ok :: "(nat \<Rightarrow> mcs_pc) \<Rightarrow> lock_queue \<Rightarrow> bool" where
  "head_ok pc [] = True"
| "head_ok pc ((t, a) # q) = (pc t = M_In a \<or> pc t = M_Unlocking a \<and> q \<noteq> [])"

definition queue_ok :: "mcs_sys \<Rightarrow> lock_queue \<Rightarrow> bool" where
  "queue_ok s q \<longleftrightarrow>
     mc_tail (my_mutex s) = (if q = [] then None else Some (snd (last q))) \<and>
     my_live s = snd ` set q \<and> distinct (map fst q) \<and> distinct (map snd q) \<and>
     (\<forall>t. t \<notin> fst ` set q \<longrightarrow> my_pc s t = M_Out)"

definition mcs_rep :: "mcs_sys \<Rightarrow> lock_queue \<Rightarrow> bool" where
  "mcs_rep s q \<longleftrightarrow> queue_ok s q \<and> head_ok (my_pc s) q \<and> links_ok (my_pc s) (mc_next (my_mutex s)) q"

lemma links_cong:
  assumes "links_ok pc nxt q" and "\<forall>t \<in> fst ` set (tl q). pc' t = pc t" and "\<forall>a \<in> snd ` set q. nxt' a = nxt a"
  shows "links_ok pc' nxt' q"
proof -
  have "pc' (fst (q ! Suc i)) = pc (fst (q ! Suc i)) \<and> nxt' (snd (q ! i)) = nxt (snd (q ! i))" if "Suc i < length q" for i
  proof -
    have "q ! Suc i \<in> set (tl q)" using that by (cases q) auto
    moreover have "q ! i \<in> set q" using that by simp
    ultimately show ?thesis using assms(2,3) by blast
  qed
  then have "\<forall>i. Suc i < length q \<longrightarrow> link_ok pc' nxt' (q ! i) (q ! Suc i)"
    using assms(1) by (simp add: links_ok_def link_ok_def)
  moreover have "q = [] \<or> nxt' (snd (last q)) = None"
    using assms(1,3) last_in_set [of q] by (cases "q = []") (auto simp: links_ok_def)
  ultimately show ?thesis by (simp add: links_ok_def)
qed

lemma links_append:
  assumes "links_ok pc nxt q" and "q \<noteq> [] \<Longrightarrow> link_ok pc nxt (last q) (t, a)" and "nxt a = None"
  shows "links_ok pc nxt (q @ [(t, a)])"
proof -
  have "link_ok pc nxt ((q @ [(t, a)]) ! i) ((q @ [(t, a)]) ! Suc i)" if "Suc i < length (q @ [(t, a)])" for i
  proof (cases "Suc i = length q")
    case True
    then have "q \<noteq> []" "i = length q - 1" by auto
    then show ?thesis using assms(2) by (simp add: nth_append last_conv_nth)
  next
    case False
    then show ?thesis using that assms(1) by (simp add: nth_append links_ok_def)
  qed
  then show ?thesis using assms(3) by (simp add: links_ok_def)
qed

text \<open>A thread other than \<open>M_Out\<close> is in the queue with its node, and its position there fits what it does.\<close>

lemma in_queue:
  assumes "mcs_rep s q" and "my_pc s t \<noteq> M_Out"
  obtains i a where "i < length q" and "q ! i = (t, a)"
proof -
  have "t \<in> fst ` set q" using assms by (auto simp: mcs_rep_def queue_ok_def)
  then obtain a where "(t, a) \<in> set q" by force
  then show thesis using that by (auto simp: in_set_conv_nth)
qed

lemma behind:
  assumes "mcs_rep s q" and "q ! Suc i = (t, a)" and "Suc i < length q"
  shows "link_ok (my_pc s) (mc_next (my_mutex s)) (q ! i) (t, a)"
  using assms by (auto simp: mcs_rep_def links_ok_def)

lemma holder_is_head:
  assumes "mcs_rep s q" and "my_pc s t = M_In a \<or> my_pc s t = M_Unlocking a"
  shows "\<exists>q'. q = (t, a) # q'"
proof -
  have "my_pc s t \<noteq> M_Out" using assms(2) by auto
  then obtain i b where i: "i < length q" "q ! i = (t, b)" by (rule in_queue [OF assms(1)])
  show ?thesis
  proof (cases i)
    case 0
    then obtain q' where "q = (t, b) # q'" using i by (cases q) auto
    then show ?thesis using assms by (auto simp: mcs_rep_def)
  next
    case (Suc j)
    then show ?thesis using behind [OF assms(1), of j t b] i assms(2) by (auto simp: link_ok_def)
  qed
qed

lemma waiter_is_behind:
  assumes "mcs_rep s q" and "my_pc s t = M_Linking a p \<or> my_pc s t = M_Parked a"
  obtains i where "Suc i < length q" and "q ! Suc i = (t, a)"
    and "my_pc s t = M_Linking a p \<longrightarrow> snd (q ! i) = p"
    and "my_pc s t = M_Parked a \<longrightarrow> mc_next (my_mutex s) (snd (q ! i)) = Some a"
proof -
  have "my_pc s t \<noteq> M_Out" using assms(2) by auto
  then obtain i b where i: "i < length q" "q ! i = (t, b)" by (rule in_queue [OF assms(1)])
  show thesis
  proof (cases i)
    case 0
    then obtain q' where "q = (t, b) # q'" using i by (cases q) auto
    then show ?thesis using assms by (auto simp: mcs_rep_def)
  next
    case (Suc j)
    then show ?thesis using behind [OF assms(1), of j t b] i assms(2) that [of j] by (auto simp: link_ok_def)
  qed
qed

section \<open>The refinement\<close>

text \<open>Entering is joining the queue at its end.\<close>

lemma enter_rep:
  assumes "mcs_rep s q" and "my_pc s t = M_Out" and "a \<notin> my_live s"
  shows "mcs_rep (mcs_enter t a s) (q @ [(t, a)])" and "t \<notin> fst ` set q"
proof -
  have Q: "queue_ok s q" "links_ok (my_pc s) (mc_next (my_mutex s)) q" "head_ok (my_pc s) q"
    using assms(1) by (simp_all add: mcs_rep_def)
  show t: "t \<notin> fst ` set q"
  proof
    assume "t \<in> fst ` set q"
    then obtain b where "(t, b) \<in> set q" by force
    then obtain i where i: "i < length q" "q ! i = (t, b)" by (auto simp: in_set_conv_nth)
    show False
    proof (cases i)
      case 0
      then obtain q' where "q = (t, b) # q'" using i by (cases q) auto
      then show False using Q(3) assms(2) by simp
    next
      case (Suc j)
      then show False using behind [OF assms(1), of j t b] i assms(2) by (auto simp: link_ok_def)
    qed
  qed
  have a: "a \<notin> snd ` set q" using Q(1) assms(3) by (simp add: queue_ok_def)
  let ?pc = "(my_pc s)(t := (case mc_tail (my_mutex s) of None \<Rightarrow> M_In a | Some p \<Rightarrow> M_Linking a p))"
  let ?nx = "(mc_next (my_mutex s))(a := None)"
  have e: "my_pc (mcs_enter t a s) = ?pc" "mc_next (my_mutex (mcs_enter t a s)) = ?nx"
    "mc_tail (my_mutex (mcs_enter t a s)) = Some a" "my_live (mcs_enter t a s) = insert a (my_live s)"
    by (simp_all add: mcs_enter_def start_lock_def)
  have tl: "mc_tail (my_mutex s) = (if q = [] then None else Some (snd (last q)))" using Q(1) by (simp add: queue_ok_def)
  have "t \<notin> fst ` set (tl q)" using t by (cases q) auto
  then have "links_ok ?pc ?nx q" by (intro links_cong [OF Q(2)]) (use a in auto)
  moreover have "q \<noteq> [] \<Longrightarrow> link_ok ?pc ?nx (last q) (t, a)"
    using tl a Q(2) last_in_set [of q] by (auto simp: link_ok_def links_ok_def)
  ultimately have "links_ok ?pc ?nx (q @ [(t, a)])" by (rule links_append) simp_all
  moreover have "head_ok ?pc (q @ [(t, a)])"
    using Q(3) t tl by (cases q) auto
  moreover have "queue_ok (mcs_enter t a s) (q @ [(t, a)])"
    using Q(1) t a assms(2) by (auto simp: queue_ok_def e)
  ultimately show "mcs_rep (mcs_enter t a s) (q @ [(t, a)])" by (simp add: mcs_rep_def e)
qed

lemma link_rep:
  assumes "mcs_rep s q" and "my_pc s t = M_Linking a p"
  shows "mcs_rep (mgoto t (M_Parked a) (s\<lparr>my_mutex := mcs_link p a (my_mutex s)\<rparr>)) q"
proof -
  have Q: "queue_ok s q" "links_ok (my_pc s) (mc_next (my_mutex s)) q" "head_ok (my_pc s) q"
    using assms(1) by (simp_all add: mcs_rep_def)
  obtain i where i: "Suc i < length q" "q ! Suc i = (t, a)" "snd (q ! i) = p"
    using waiter_is_behind [OF assms(1), of t a p] assms(2) by blast
  let ?pc = "(my_pc s)(t := M_Parked a)" and ?nx = "(mc_next (my_mutex s))(p := Some a)"
  have d: "distinct (map fst q)" "distinct (map snd q)" using Q(1) by (simp_all add: queue_ok_def)
  have fst_inj: "fst (q ! j) = fst (q ! k) \<Longrightarrow> j < length q \<Longrightarrow> k < length q \<Longrightarrow> j = k" for j k
    using nth_eq_iff_index_eq [OF d(1), of j k] by simp
  have snd_inj: "snd (q ! j) = snd (q ! k) \<Longrightarrow> j < length q \<Longrightarrow> k < length q \<Longrightarrow> j = k" for j k
    using nth_eq_iff_index_eq [OF d(2), of j k] by simp
  have "link_ok ?pc ?nx (q ! j) (q ! Suc j)" if j: "Suc j < length q" for j
  proof (cases "j = i")
    case True
    then show ?thesis using i by (simp add: link_ok_def)
  next
    case False
    have "fst (q ! Suc j) \<noteq> t" using fst_inj [of "Suc j" "Suc i"] i j False by auto
    moreover have "snd (q ! j) \<noteq> p" using snd_inj [of j i] i j False by auto
    ultimately show ?thesis using Q(2) j by (auto simp: links_ok_def link_ok_def)
  qed
  moreover have "q \<noteq> [] \<Longrightarrow> snd (last q) \<noteq> p"
    using snd_inj [of "length q - 1" i] i by (auto simp: last_conv_nth)
  ultimately have L: "links_ok ?pc ?nx q" using Q(2) by (auto simp: links_ok_def)
  have "head_ok ?pc q"
  proof (cases q)
    case (Cons x q')
    then have "fst x \<noteq> t" using fst_inj [of 0 "Suc i"] i by auto
    then show ?thesis using Q(3) Cons by (cases x) auto
  qed simp
  moreover have "t \<in> fst ` set q" using i nth_mem [OF i(1)] by force
  then have "queue_ok (mgoto t (M_Parked a) (s\<lparr>my_mutex := mcs_link p a (my_mutex s)\<rparr>)) q"
    using Q(1) by (auto simp: queue_ok_def mcs_link_def)
  ultimately show ?thesis using L by (simp add: mcs_rep_def mcs_link_def)
qed

lemma release_rep:
  assumes "mcs_rep s q" and "my_pc s t = M_In a"
  shows "mcs_rep (mcs_drop t a s) (if q = [(t, a)] then [] else q)"
proof -
  have Q: "queue_ok s q" "links_ok (my_pc s) (mc_next (my_mutex s)) q"
    using assms(1) by (simp_all add: mcs_rep_def)
  obtain q' where q: "q = (t, a) # q'" using holder_is_head [OF assms(1), of t a] assms(2) by blast
  show ?thesis
  proof (cases "q' = []")
    case True
    then show ?thesis
      using Q(1) q by (auto simp: mcs_drop_def mcs_try_release_def mcs_rep_def queue_ok_def links_ok_def)
  next
    case False
    then have "snd (last q') \<noteq> a" "t \<notin> fst ` set q'" using Q(1) q last_in_set [OF False] by (auto simp: queue_ok_def)
    then have tail: "mc_tail (my_mutex s) \<noteq> Some a" using Q(1) q False by (auto simp: queue_ok_def)
    then have e: "mcs_drop t a s = mgoto t (M_Unlocking a) s" by (simp add: mcs_drop_def mcs_try_release_def)
    have "links_ok ((my_pc s)(t := M_Unlocking a)) (mc_next (my_mutex s)) q"
      by (rule links_cong [OF Q(2)]) (use q \<open>t \<notin> fst ` set q'\<close> in auto)
    then show ?thesis using Q(1) q False by (auto simp: e mcs_rep_def queue_ok_def)
  qed
qed

lemma hand_over_rep:
  assumes "mcs_rep s q" and "my_pc s t = M_Unlocking a" and "mc_next (my_mutex s) a = Some b" and "my_pc s u = M_Parked b"
  shows "mcs_rep (mcs_hand_over t a u b s) (tl q) \<and> (\<exists>q'. q = (t, a) # (u, b) # q')"
proof -
  have Q: "queue_ok s q" "links_ok (my_pc s) (mc_next (my_mutex s)) q" "head_ok (my_pc s) q"
    using assms(1) by (simp_all add: mcs_rep_def)
  obtain q' where q1: "q = (t, a) # q'" using holder_is_head [OF assms(1), of t a] assms(2) by blast
  then have "q' \<noteq> []" using Q(3) assms(2) by simp
  with q1 have q: "q = (t, a) # q'" "q' \<noteq> []" by simp_all
  obtain v c q'' where q': "q' = (v, c) # q''" using q(2) by (cases q') auto
  have "link_ok (my_pc s) (mc_next (my_mutex s)) (t, a) (v, c)" using Q(2) q q' by (force simp: links_ok_def)
  then have c: "c = b" "my_pc s v = M_Parked b" using assms(3) by (auto simp: link_ok_def)
  obtain i where i: "Suc i < length q" "q ! Suc i = (u, b)" using waiter_is_behind [OF assms(1), of u b 0] assms(4) by blast
  have ds: "distinct (map snd q)" using Q(1) by (simp add: queue_ok_def)
  have "(map snd q) ! Suc i = b" using i by simp
  moreover have "(map snd q) ! 1 = b" using q q' c by simp
  ultimately have same: "(map snd q) ! Suc i = (map snd q) ! 1" by (simp only:)
  have "Suc i = 1" using iffD1 [OF nth_eq_iff_index_eq [OF ds, of "Suc i" 1] same] i q q' by simp
  then have uv: "u = v" using i q q' by simp
  have qq: "q = (t, a) # (u, b) # q''" using q q' c uv by simp
  have d: "t \<noteq> u" "t \<notin> fst ` set q''" "u \<notin> fst ` set q''" "a \<noteq> b" "a \<notin> snd ` set q''" "b \<notin> snd ` set q''"
    using Q(1) qq by (auto simp: queue_ok_def)
  have L: "links_ok (my_pc s) (mc_next (my_mutex s)) (tl q)"
    using Q(2) qq by (auto simp: links_ok_def)
  have "links_ok ((my_pc s)(u := M_In b, t := M_Out)) (mc_next (my_mutex s)) (tl q)"
    by (rule links_cong [OF L]) (use qq d in auto)
  moreover have "queue_ok (mcs_hand_over t a u b s) (tl q)"
    using Q(1) qq d by (auto simp: queue_ok_def mcs_hand_over_def)
  ultimately show ?thesis using qq d by (simp add: mcs_rep_def mcs_hand_over_def)
qed

text \<open>Every step of the code is a step of the abstract lock.\<close>

lemma mcs_simulates:
  assumes "mcs_step s s'" and "mcs_rep s q"
  shows "\<exists>q'. mcs_rep s' q' \<and> lock_spec q q'"
  using assms
proof induction
  case (enter s t a)
  then show ?case using enter_rep [OF enter(3,1,2)] by (auto simp: lock_spec_def)
next
  case (link s t a p)
  then show ?case using link_rep [OF link(2,1)] by (auto simp: lock_spec_def)
next
  case (release s t a)
  then show ?case
    using release_rep [OF release(2,1)] by (cases "q = [(t, a)]") (auto simp: lock_spec_def)
next
  case (spin s t a)
  then show ?case by (auto simp: lock_spec_def)
next
  case (hand_over s t a b u)
  then show ?case using hand_over_rep [OF hand_over(4,1-3)] by (auto simp: lock_spec_def)
qed

lemma mcs_start_rep: "mcs_rep mcs_start []"
  by (simp add: mcs_rep_def queue_ok_def mcs_start_def mcs_new_def links_ok_def)

lemma mcs_reachable_rep: "mcs_reachable s \<Longrightarrow> \<exists>q. mcs_rep s q"
  by (induction rule: mcs_reachable.induct) (use mcs_start_rep mcs_simulates in blast)+

text \<open>
  C13: the MCS mutex implements a fair lock: in every reachable state there is a queue of threads
  that represents it, and every step leaves it alone, appends a thread not in it, or removes its head;
  a thread with the guard is its head, so there is one at most.
\<close>

theorem mcs_refines_queue:
  assumes "mcs_reachable s" and "mcs_step s s'"
  shows "\<exists>q q'. mcs_rep s q \<and> mcs_rep s' q' \<and> lock_spec q q' \<and>
    (\<forall>t a. my_pc s t = M_In a \<longrightarrow> (\<exists>r. q = (t, a) # r)) \<and>
    (\<forall>t u a b. my_pc s t = M_In a \<longrightarrow> my_pc s u = M_In b \<longrightarrow> t = u)"
proof -
  obtain q where q: "mcs_rep s q" using mcs_reachable_rep [OF assms(1)] by blast
  obtain q' where q': "mcs_rep s' q'" "lock_spec q q'" using mcs_simulates [OF assms(2) q] by blast
  have h: "\<exists>r. q = (t, a) # r" if "my_pc s t = M_In a" for t a using holder_is_head [OF q, of t a] that by blast
  have "t = u" if "my_pc s t = M_In a" "my_pc s u = M_In b" for t u a b using h [OF that(1)] h [OF that(2)] by auto
  with h q q' show ?thesis by blast
qed

text \<open>A thread that could not release the tail has a successor.\<close>

lemma mcs_unlocking_successor:
  assumes "mcs_reachable s" and h: "my_pc s t = M_Unlocking a"
  shows "\<exists>u b. my_pc s u = M_Linking b a \<and> mc_next (my_mutex s) a = None \<or>
             my_pc s u = M_Parked b \<and> mc_next (my_mutex s) a = Some b"
proof -
  obtain q where q: "mcs_rep s q" using mcs_reachable_rep [OF assms(1)] by blast
  then have Q: "links_ok (my_pc s) (mc_next (my_mutex s)) q" "head_ok (my_pc s) q"
    by (simp_all add: mcs_rep_def)
  obtain r where r: "q = (t, a) # r" using holder_is_head [OF q, of t a] h by blast
  then have "r \<noteq> []" using Q(2) h by simp
  then obtain u b r' where r': "r = (u, b) # r'" by (cases r) auto
  have "link_ok (my_pc s) (mc_next (my_mutex s)) (t, a) (u, b)" using Q(1) r r' by (force simp: links_ok_def)
  then show ?thesis by (auto simp: link_ok_def)
qed

text \<open>
  Nobody waits for a lost link: when a thread has failed to release the tail, its successor is
  there, either about to publish the link, into a node that is still allocated, or linked and parked; and
  as long as any thread waits, some thread holds the guard or is unlocking.
\<close>

lemma mcs_successor_comes:
  assumes "mcs_reachable s"
  shows "(\<forall>t a. my_pc s t = M_Unlocking a \<longrightarrow>
      (\<exists>u b. my_pc s u = M_Linking b a \<and> mc_next (my_mutex s) a = None \<or>
             my_pc s u = M_Parked b \<and> mc_next (my_mutex s) a = Some b)) \<and>
    (\<forall>t a p. my_pc s t = M_Linking a p \<longrightarrow> p \<in> my_live s \<and> a \<in> my_live s) \<and>
    (\<forall>t a p. my_pc s t = M_Linking a p \<or> my_pc s t = M_Parked a \<longrightarrow>
      (\<exists>u b. my_pc s u = M_In b \<or> my_pc s u = M_Unlocking b))"
proof -
  obtain q where q: "mcs_rep s q" using mcs_reachable_rep [OF assms(1)] by blast
  then have Q: "queue_ok s q" "links_ok (my_pc s) (mc_next (my_mutex s)) q" "head_ok (my_pc s) q"
    by (simp_all add: mcs_rep_def)
  have 2: "p \<in> my_live s \<and> a \<in> my_live s" if h: "my_pc s t = M_Linking a p" for t a p
  proof -
    obtain i where i: "Suc i < length q" "q ! Suc i = (t, a)" "snd (q ! i) = p"
      using waiter_is_behind [OF q, of t a p] h by blast
    have "q ! i \<in> set q" "q ! Suc i \<in> set q" using i(1) by (simp_all add: nth_mem)
    then show ?thesis using i Q(1) by (auto simp: queue_ok_def intro: rev_image_eqI)
  qed
  have 3: "\<exists>u b. my_pc s u = M_In b \<or> my_pc s u = M_Unlocking b"
    if "my_pc s t = M_Linking a p \<or> my_pc s t = M_Parked a" for t a p
  proof -
    have "q \<noteq> []" by (rule waiter_is_behind [OF q that]) auto
    then obtain u b r where "q = (u, b) # r" by (cases q) auto
    with Q(3) have "my_pc s u = M_In b \<or> my_pc s u = M_Unlocking b" by auto
    then show ?thesis by blast
  qed
  show ?thesis using mcs_unlocking_successor [OF assms] 2 3 by blast
qed

text \<open>Thread 0 holds the lock with the node 100, thread 1 has swapped its node 101 in.\<close>

definition mcs_example :: mcs_sys where
  "mcs_example = mcs_drop 0 100 (mcs_enter 1 101 (mcs_enter 0 100 mcs_start))"

lemma mcs_example_reachable: "mcs_reachable mcs_example"
  unfolding mcs_example_def
  by (intro mcs_next [OF _ release] mcs_next [OF _ enter] mcs_init)
    (simp_all add: mcs_start_def mcs_new_def mcs_enter_def start_lock_def)

theorem mcs_refines_queue_witness:
  "\<exists>q q'. mcs_rep mcs_example q \<and>
     mcs_rep (mgoto 1 (M_Parked 101) (mcs_example\<lparr>my_mutex := mcs_link 100 101 (my_mutex mcs_example)\<rparr>)) q' \<and> lock_spec q q'"
proof -
  have "my_pc mcs_example 1 = M_Linking 101 100"
    by (simp add: mcs_example_def mcs_drop_def mcs_try_release_def mcs_enter_def start_lock_def mcs_start_def mcs_new_def)
  from mcs_refines_queue [OF mcs_example_reachable link [OF this]] show ?thesis by blast
qed

lemma mcs_successor_comes_example:
  "my_pc mcs_example 0 = M_Unlocking 100 \<and> 100 \<in> my_live mcs_example"
proof -
  have pc: "my_pc mcs_example 0 = M_Unlocking 100" "my_pc mcs_example 1 = M_Linking 101 100"
    by (simp_all add: mcs_example_def mcs_drop_def mcs_try_release_def mcs_enter_def start_lock_def mcs_start_def mcs_new_def)
  then show ?thesis using mcs_successor_comes [OF mcs_example_reachable] by blast
qed

end
