(* ===== verification/Combining.thy ===== *)
theory Combining
  imports Cmpth_Prelude
begin

text \<open>
  The combining delegator (\<open>stackful/sync/combining_delegator.rs\<close>, with the call slots of
  \<open>traits/component/delegation.rs\<close>): an MCS queue of the callers' nodes, whose holder runs the requests
  queued behind it.  A node lives in the frame of one call, so it is named by the calling thread.  Every
  access to the tail, to a link and to the consumer is a step.  The consumer finishes a request at once or
  defers it, and its \<open>progress\<close> hands back any deferred call, as \<open>DelegatorConsumer\<close> allows.
\<close>

section \<open>The operations\<close>

text \<open>Where a thread is; in \<open>drain\<close> with \<open>cur\<close>, \<open>cur_wake\<close>, and whether its own call is pending.\<close>

datatype drain_phase = Ph_Progress | Ph_Load | Ph_Release | Ph_Spin | Ph_Next nat call_kind

datatype comb_pc =
    D_Out
  | D_Linking call_kind nat      \<comment> \<open>in \<open>wait_with\<close>, about to link behind that node\<close>
  | D_Asleep call_kind
  | D_Exec                       \<comment> \<open>found the queue empty, about to run its own request\<close>
  | D_Body                       \<comment> \<open>in the closure of \<open>with_lock\<close>\<close>
  | D_Drain nat "nat option" bool drain_phase
  | D_Hand nat bool              \<comment> \<open>drained up to a lock waiter, about to wake it\<close>
  | D_Hand_Asleep nat            \<comment> \<open>the same, asleep on its own slot already\<close>
  | D_Ret                        \<comment> \<open>about to return\<close>

record combining =
  cd_tail :: "nat option"
  cd_next :: "nat \<Rightarrow> (nat \<times> call_kind) option"
  cd_deferred :: "nat set"       \<comment> \<open>the consumer's deferred calls\<close>
  cd_pc :: "nat \<Rightarrow> comb_pc"
  cd_kind :: "nat \<Rightarrow> call_kind"  \<comment> \<open>what the thread's call is\<close>
  cd_runs :: "nat \<Rightarrow> nat"        \<comment> \<open>how often the request of its call was run\<close>
  cd_done :: "nat \<Rightarrow> bool"       \<comment> \<open>whether its response is in its slot\<close>
  cd_order :: "nat list"         \<comment> \<open>the calls in the order of their swaps\<close>
  cd_served :: "nat list"        \<comment> \<open>the calls in the order they were run, or got the lock\<close>

definition comb_new :: combining where
  "comb_new = \<lparr>cd_tail = None, cd_next = (\<lambda>_. None), cd_deferred = {}, cd_pc = (\<lambda>_. D_Out), cd_kind = (\<lambda>_. Call),
     cd_runs = (\<lambda>_. 0), cd_done = (\<lambda>_. False), cd_order = [], cd_served = []\<rparr>"

abbreviation cgoto :: "nat \<Rightarrow> comb_pc \<Rightarrow> combining \<Rightarrow> combining" where
  "cgoto t pc s \<equiv> s\<lparr>cd_pc := (cd_pc s)(t := pc)\<rparr>"

text \<open>\<open>enqueue\<close> of a fresh node; the caller that finds the queue empty holds the lock.\<close>

definition comb_enqueue :: "nat \<Rightarrow> call_kind \<Rightarrow> combining \<Rightarrow> combining" where
  "comb_enqueue t k s =
     (let prev = cd_tail s;
          s = s\<lparr>cd_tail := Some t, cd_next := (cd_next s)(t := None), cd_kind := (cd_kind s)(t := k),
                cd_runs := (cd_runs s)(t := 0), cd_done := (cd_done s)(t := False), cd_order := cd_order s @ [t]\<rparr>
      in case prev of
           None \<Rightarrow> cgoto t (case k of Call \<Rightarrow> D_Exec | Lock \<Rightarrow> D_Body) (s\<lparr>cd_served := cd_served s @ [t]\<rparr>)
         | Some p \<Rightarrow> cgoto t (D_Linking k p) s)"

definition comb_link :: "nat \<Rightarrow> call_kind \<Rightarrow> nat \<Rightarrow> combining \<Rightarrow> combining" where
  "comb_link t k prev s = cgoto t (D_Asleep k) (s\<lparr>cd_next := (cd_next s)(prev := Some (t, k))\<rparr>)"

text \<open>\<open>execute\<close> on the request of \<open>t\<close>: finished (\<open>ready\<close>), or deferred.\<close>

definition comb_execute :: "nat \<Rightarrow> bool \<Rightarrow> combining \<Rightarrow> combining" where
  "comb_execute t ready s =
     (let s = s\<lparr>cd_runs := (cd_runs s)(t := cd_runs s t + 1)\<rparr>
      in if ready then s\<lparr>cd_done := (cd_done s)(t := True)\<rparr> else s\<lparr>cd_deferred := insert t (cd_deferred s)\<rparr>)"

text \<open>What \<open>progress\<close> hands back has its response in place; \<open>drain\<close> forgets it, keeps it, or wakes it.\<close>

definition comb_progress :: "nat \<Rightarrow> nat \<Rightarrow> combining \<Rightarrow> combining" where
  "comb_progress me r s =
     (let s = s\<lparr>cd_deferred := cd_deferred s - {r}, cd_done := (cd_done s)(r := True)\<rparr>
      in case cd_pc s me of
           D_Drain cur w own ph \<Rightarrow>
             (if own \<and> r = me then cgoto me (D_Drain cur w False ph) s
              else if cur \<noteq> me \<and> r = cur then cgoto me (D_Drain cur (Some r) own ph) s
              else cgoto r D_Ret s)
         | _ \<Rightarrow> s)"

definition comb_wake :: "nat option \<Rightarrow> combining \<Rightarrow> combining" where
  "comb_wake w s = (case w of None \<Rightarrow> s | Some r \<Rightarrow> cgoto r D_Ret s)"

definition comb_load :: "nat \<Rightarrow> combining \<Rightarrow> combining" where
  "comb_load me s =
     (case cd_pc s me of
        D_Drain cur w own ph \<Rightarrow>
          cgoto me (D_Drain cur w own
            (case cd_next s cur of
               None \<Rightarrow> if own \<or> cd_deferred s \<noteq> {} then Ph_Progress else Ph_Release
             | Some (n, k) \<Rightarrow> Ph_Next n k)) s
      | _ \<Rightarrow> s)"

definition comb_release :: "nat \<Rightarrow> combining \<Rightarrow> combining" where
  "comb_release me s =
     (case cd_pc s me of
        D_Drain cur w own ph \<Rightarrow>
          (if cd_tail s = Some cur then cgoto me D_Ret (comb_wake w (s\<lparr>cd_tail := None\<rparr>))
           else cgoto me (D_Drain cur w own Ph_Spin) s)
      | _ \<Rightarrow> s)"

definition comb_spin :: "nat \<Rightarrow> combining \<Rightarrow> combining" where
  "comb_spin me s =
     (case cd_pc s me of
        D_Drain cur w own ph \<Rightarrow> (case cd_next s cur of None \<Rightarrow> s | Some (n, k) \<Rightarrow> cgoto me (D_Drain cur w own (Ph_Next n k)) s)
      | _ \<Rightarrow> s)"

text \<open>The successor \<open>n\<close> is known: \<open>cur\<close> may return, and \<open>n\<close> is run or handed the lock.\<close>

definition comb_next :: "nat \<Rightarrow> bool \<Rightarrow> combining \<Rightarrow> combining" where
  "comb_next me ready s =
     (case cd_pc s me of
        D_Drain cur w own (Ph_Next n k) \<Rightarrow>
          (let s = (comb_wake w s)\<lparr>cd_served := cd_served s @ [n]\<rparr>
           in case k of
                Lock \<Rightarrow> cgoto me (D_Hand n own) s
              | Call \<Rightarrow> cgoto me (D_Drain n (if ready then Some n else None) own Ph_Progress) (comb_execute n ready s))
      | _ \<Rightarrow> s)"

text \<open>\<open>hold\<close> wakes the lock waiter: at once, or from the callback that runs once the holder is asleep.\<close>

definition comb_hand :: "nat \<Rightarrow> combining \<Rightarrow> combining" where
  "comb_hand me s =
     (case cd_pc s me of
        D_Hand n True \<Rightarrow> cgoto me (D_Hand_Asleep n) s
      | D_Hand n False \<Rightarrow> cgoto me D_Ret (cgoto n D_Body s)
      | D_Hand_Asleep n \<Rightarrow> cgoto me (D_Asleep Call) (cgoto n D_Body s)
      | _ \<Rightarrow> s)"

inductive comb_step :: "combining \<Rightarrow> combining \<Rightarrow> bool" where
  swap: "cd_pc s t = D_Out \<Longrightarrow> comb_step s (comb_enqueue t k s)"
| link: "cd_pc s t = D_Linking k prev \<Longrightarrow> comb_step s (comb_link t k prev s)"
| execute_own: "cd_pc s t = D_Exec \<Longrightarrow> comb_step s (cgoto t (D_Drain t None (\<not> ready) Ph_Progress) (comb_execute t ready s))"
| body_done: "cd_pc s t = D_Body \<Longrightarrow> comb_step s (cgoto t (D_Drain t None False Ph_Progress) s)"
| progress: "cd_pc s t = D_Drain cur w own Ph_Progress \<Longrightarrow> r \<in> cd_deferred s \<Longrightarrow> comb_step s (comb_progress t r s)"
| progress_none: "cd_pc s t = D_Drain cur w own Ph_Progress \<Longrightarrow> comb_step s (cgoto t (D_Drain cur w own Ph_Load) s)"
| load: "cd_pc s t = D_Drain cur w own Ph_Load \<Longrightarrow> comb_step s (comb_load t s)"
| release: "cd_pc s t = D_Drain cur w own Ph_Release \<Longrightarrow> comb_step s (comb_release t s)"
| spin: "cd_pc s t = D_Drain cur w own Ph_Spin \<Longrightarrow> comb_step s (comb_spin t s)"
| nxt: "cd_pc s t = D_Drain cur w own (Ph_Next n k) \<Longrightarrow> comb_step s (comb_next t ready s)"
| hand: "cd_pc s t = D_Hand n own \<Longrightarrow> comb_step s (comb_hand t s)"
| hand_asleep: "cd_pc s t = D_Hand_Asleep n \<Longrightarrow> comb_step s (comb_hand t s)"
| return: "cd_pc s t = D_Ret \<Longrightarrow> comb_step s (cgoto t D_Out s)"

inductive comb_reachable :: "combining \<Rightarrow> bool" where
  comb_init: "comb_reachable comb_new"
| comb_step_on: "comb_reachable s \<Longrightarrow> comb_step s s' \<Longrightarrow> comb_reachable s'"

section \<open>What holds in every reachable state\<close>

text \<open>The thread \<open>h\<close> with the lock, the node it stands at, whom it is about to wake.\<close>

fun holding :: "comb_pc \<Rightarrow> bool" where
  "holding D_Exec = True" | "holding D_Body = True" | "holding (D_Drain _ _ _ _) = True"
| "holding (D_Hand _ _) = True" | "holding (D_Hand_Asleep _) = True" | "holding _ = False"

fun stands_at :: "nat \<Rightarrow> comb_pc \<Rightarrow> nat" where
  "stands_at h (D_Drain cur _ _ _) = cur" | "stands_at h (D_Hand n _) = n" | "stands_at h (D_Hand_Asleep n) = n"
| "stands_at h _ = h"

fun to_wake :: "comb_pc \<Rightarrow> nat option" where
  "to_wake (D_Drain _ w _ _) = w" | "to_wake _ = None"

fun handed :: "comb_pc \<Rightarrow> nat option" where
  "handed (D_Hand n _) = Some n" | "handed (D_Hand_Asleep n) = Some n" | "handed _ = None"

text \<open>Of two neighbours in the queue the second is about to link itself behind the first, or is linked and asleep.\<close>

definition comb_linked :: "combining \<Rightarrow> nat \<Rightarrow> nat \<Rightarrow> bool" where
  "comb_linked s x y \<longleftrightarrow>
     cd_pc s y = D_Linking (cd_kind s y) x \<and> cd_next s x = None \<or>
     cd_pc s y = D_Asleep (cd_kind s y) \<and> cd_next s x = Some (y, cd_kind s y)"

definition comb_queue :: "combining \<Rightarrow> nat \<Rightarrow> nat list \<Rightarrow> bool" where
  "comb_queue s h q \<longleftrightarrow>
     distinct q \<and> cd_tail s = (if q = [] then None else Some (last q)) \<and>
     (\<forall>t. holding (cd_pc s t) \<longleftrightarrow> q \<noteq> [] \<and> t = h) \<and>
     (q \<noteq> [] \<longrightarrow> hd q = stands_at h (cd_pc s h) \<and> cd_next s (last q) = None) \<and>
     successively (comb_linked s) q \<and> cd_order s = cd_served s @ tl q \<and>
     (q = [] \<longrightarrow> cd_deferred s = {})"

text \<open>
  What a thread's place says of its call: \<open>runs\<close>, \<open>done\<close>, whether it is deferred, whether it is in the
  queue, behind the first, about to be woken, about to be handed the lock.
\<close>

fun person_ok :: "comb_pc \<Rightarrow> call_kind \<Rightarrow> nat \<Rightarrow> bool \<Rightarrow> bool \<Rightarrow> bool \<Rightarrow> bool \<Rightarrow> bool \<Rightarrow> bool \<Rightarrow> bool" where
  "person_ok D_Out k runs done df in_q behind wk hn \<longleftrightarrow> \<not> df \<and> \<not> in_q \<and> \<not> wk \<and> \<not> hn"
| "person_ok (D_Linking k' p) k runs done df in_q behind wk hn \<longleftrightarrow>
     k' = k \<and> behind \<and> runs = 0 \<and> \<not> done \<and> \<not> df \<and> \<not> wk \<and> \<not> hn"
| "person_ok (D_Asleep k') k runs done df in_q behind wk hn \<longleftrightarrow> k' = k \<and>
     (if behind then runs = 0 \<and> \<not> done \<and> \<not> df \<and> \<not> wk \<and> \<not> hn
      else if k = Call then runs = 1 \<and> df = (\<not> done) \<and> wk = done \<and> \<not> hn
      else hn \<and> \<not> df \<and> \<not> wk)"
| "person_ok D_Exec k runs done df in_q behind wk hn \<longleftrightarrow> k = Call \<and> runs = 0 \<and> \<not> done \<and> \<not> df \<and> \<not> behind \<and> \<not> wk \<and> \<not> hn"
| "person_ok D_Body k runs done df in_q behind wk hn \<longleftrightarrow> k = Lock \<and> \<not> df \<and> \<not> behind \<and> \<not> wk \<and> \<not> hn"
| "person_ok (D_Drain c w own ph) k runs done df in_q behind wk hn \<longleftrightarrow>
     (if k = Call then runs = 1 \<and> df = own \<and> done = (\<not> own) else \<not> df \<and> \<not> own) \<and> \<not> behind \<and> \<not> wk \<and> \<not> hn"
| "person_ok (D_Hand n own) k runs done df in_q behind wk hn \<longleftrightarrow>
     (if k = Call then runs = 1 \<and> df = own \<and> done = (\<not> own) else \<not> df \<and> \<not> own) \<and> \<not> in_q \<and> \<not> wk \<and> \<not> hn"
| "person_ok (D_Hand_Asleep n) k runs done df in_q behind wk hn \<longleftrightarrow>
     k = Call \<and> runs = 1 \<and> df \<and> \<not> done \<and> \<not> in_q \<and> \<not> wk \<and> \<not> hn"
| "person_ok D_Ret k runs done df in_q behind wk hn \<longleftrightarrow>
     \<not> df \<and> \<not> in_q \<and> \<not> wk \<and> \<not> hn \<and> (k = Call \<longrightarrow> runs = 1 \<and> done)"

definition comb_person :: "combining \<Rightarrow> nat \<Rightarrow> nat list \<Rightarrow> nat \<Rightarrow> bool" where
  "comb_person s h q t \<longleftrightarrow>
     person_ok (cd_pc s t) (cd_kind s t) (cd_runs s t) (cd_done s t) (t \<in> cd_deferred s) (t \<in> set q) (t \<in> set (tl q))
       (to_wake (cd_pc s h) = Some t) (handed (cd_pc s h) = Some t)"

definition comb_drain :: "combining \<Rightarrow> nat \<Rightarrow> nat list \<Rightarrow> bool" where
  "comb_drain s h q \<longleftrightarrow>
     (case cd_pc s h of
        D_Drain c w own ph \<Rightarrow>
          (if c = h then w = None else cd_pc s c = D_Asleep Call \<and> (w = None \<or> w = Some c)) \<and>
          (case ph of
             Ph_Next n k \<Rightarrow> cd_next s c = Some (n, k)
           | Ph_Release \<Rightarrow> \<not> own \<and> cd_deferred s = {}
           | Ph_Spin \<Rightarrow> tl q \<noteq> []
           | _ \<Rightarrow> True)
      | D_Hand n own \<Rightarrow> cd_pc s n = D_Asleep Lock
      | D_Hand_Asleep n \<Rightarrow> cd_pc s n = D_Asleep Lock
      | _ \<Rightarrow> True)"

definition comb_rep :: "combining \<Rightarrow> nat \<Rightarrow> nat list \<Rightarrow> bool" where
  "comb_rep s h q \<longleftrightarrow> comb_queue s h q \<and> (\<forall>t. comb_person s h q t) \<and> comb_drain s h q"

lemma comb_repD:
  assumes "comb_rep s h q"
  shows "comb_queue s h q" and "comb_person s h q t" and "comb_drain s h q"
  using assms by (simp_all add: comb_rep_def)

lemma comb_chain_mono:
  "successively P q \<Longrightarrow> (\<And>x y. x \<in> set (butlast q) \<Longrightarrow> y \<in> set (tl q) \<Longrightarrow> P x y \<Longrightarrow> P' x y) \<Longrightarrow> successively P' q"
  by (induction q rule: induct_list012) auto

lemma comb_queueD:
  assumes "comb_queue s h q"
  shows "distinct q" and "cd_tail s = (if q = [] then None else Some (last q))"
    and "holding (cd_pc s t) \<longleftrightarrow> q \<noteq> [] \<and> t = h" and "q \<noteq> [] \<Longrightarrow> hd q = stands_at h (cd_pc s h)"
    and "q \<noteq> [] \<Longrightarrow> cd_next s (last q) = None" and "successively (comb_linked s) q"
    and "cd_order s = cd_served s @ tl q" and "q = [] \<Longrightarrow> cd_deferred s = {}"
  using assms by (simp_all add: comb_queue_def)

text \<open>A thread that holds the lock is the holder, and the queue starts with the node it stands at.\<close>

lemma holder_at:
  assumes "comb_rep s h q" and "holding (cd_pc s t)"
  shows "t = h \<and> (\<exists>r. q = stands_at h (cd_pc s h) # r)"
  using comb_queueD(3,4) [OF comb_repD(1) [OF assms(1)]] assms(2) by (metis list.collapse)

text \<open>A chain stays one if the threads behind its head and the links of its nodes do not change.\<close>

lemma comb_chain_frame:
  assumes "successively (comb_linked s) q"
    and "\<forall>y \<in> set (tl q). cd_pc s' y = cd_pc s y \<and> cd_kind s' y = cd_kind s y" and "\<forall>x \<in> set q. cd_next s' x = cd_next s x"
  shows "successively (comb_linked s') q"
  by (rule comb_chain_mono [OF assms(1)]) (use assms(2,3) in \<open>auto simp: comb_linked_def dest: in_set_butlastD\<close>)


section \<open>Every step keeps it\<close>

lemma swap_rep:
  assumes "comb_rep s h q" and "cd_pc s t = D_Out"
  shows "comb_rep (comb_enqueue t k s) (if q = [] then t else h) (q @ [t])"
proof -
  note Q = comb_queueD [OF comb_repD(1) [OF assms(1)]]
  note P = comb_repD(2) [OF assms(1)] and D = comb_repD(3) [OF assms(1)]
  have t: "t \<notin> set q" "t \<notin> cd_deferred s" using P [of t] assms(2) by (simp_all add: comb_person_def)
  have tw: "to_wake (cd_pc s h) \<noteq> Some t" "handed (cd_pc s h) \<noteq> Some t" using P [of t] assms(2) by (simp_all add: comb_person_def)
  show ?thesis
  proof (cases q)
    case Nil
    then have e: "comb_enqueue t k s = cgoto t (case k of Call \<Rightarrow> D_Exec | Lock \<Rightarrow> D_Body)
        (s\<lparr>cd_tail := Some t, cd_next := (cd_next s)(t := None), cd_kind := (cd_kind s)(t := k),
           cd_runs := (cd_runs s)(t := 0), cd_done := (cd_done s)(t := False), cd_order := cd_order s @ [t],
           cd_served := cd_served s @ [t]\<rparr>)"
      using Q(2) by (simp add: comb_enqueue_def Let_def)
    have nh: "\<not> holding (cd_pc s u)" for u using Q(3) [of u] Nil by simp
    then have w: "to_wake (cd_pc s h) = None" "handed (cd_pc s h) = None" by (cases "cd_pc s h"; use nh [of h] in auto)+
    have "comb_person (comb_enqueue t k s) t [t] u" for u
      using P [of u] Nil w Q(8) [OF Nil] nh [of u] unfolding comb_person_def e
      by (cases k; cases "cd_pc s u") (auto split: if_splits)
    then show ?thesis
      using Nil Q(7,8) nh unfolding comb_rep_def comb_queue_def comb_drain_def e by (cases k) auto
  next
    case (Cons c r)
    let ?s = "comb_enqueue t k s"
    have e: "?s = cgoto t (D_Linking k (last q))
        (s\<lparr>cd_tail := Some t, cd_next := (cd_next s)(t := None), cd_kind := (cd_kind s)(t := k),
           cd_runs := (cd_runs s)(t := 0), cd_done := (cd_done s)(t := False), cd_order := cd_order s @ [t]\<rparr>)"
      using Q(2) Cons by (simp add: comb_enqueue_def Let_def)
    have ht: "h \<noteq> t" using Q(3) [of h] Cons assms(2) by auto
    have "successively (comb_linked ?s) q"
      by (rule comb_chain_frame [OF Q(6)]) (use t Cons in \<open>auto simp: e\<close>)
    moreover have "comb_linked ?s (last q) t" using Q(5) Cons t by (auto simp: comb_linked_def e)
    ultimately have "successively (comb_linked ?s) (q @ [t])" unfolding successively_append_iff by simp
    then have "comb_queue ?s h (q @ [t])"
      using Q(1,3,4,7) t Cons ht by (auto simp: comb_queue_def e)
    moreover have "comb_person ?s h (q @ [t]) u" for u
      using P [of u] Cons t tw ht by (cases "u = t") (auto simp: comb_person_def e)
    moreover have "comb_drain ?s h (q @ [t])"
      using D ht t Q(4) Cons P [of c] tw by (cases "cd_pc s h") (auto simp: comb_drain_def e assms(2) split: drain_phase.splits)
    ultimately show ?thesis using Cons by (simp add: comb_rep_def)
  qed
qed

lemma link_keeps:
  assumes "comb_rep s h q" and "cd_pc s t = D_Linking k p"
  shows "comb_rep (comb_link t k p s) h q"
proof -
  note Q = comb_queueD [OF comb_repD(1) [OF assms(1)]]
  note P = comb_repD(2) [OF assms(1)] and D = comb_repD(3) [OF assms(1)]
  have t: "k = cd_kind s t" "t \<in> set (tl q)" using P [of t] assms(2) by (simp_all add: comb_person_def)
  then obtain c r where q: "q = c # r" "t \<in> set r" by (cases q) auto
  obtain us vs where r: "r = us @ t # vs" using split_list [OF q(2)] by blast
  let ?s = "comb_link t k p s"
  have e: "cd_pc ?s = (cd_pc s)(t := D_Asleep k)" "cd_next ?s = (cd_next s)(p := Some (t, k))" "cd_kind ?s = cd_kind s"
    "cd_deferred ?s = cd_deferred s" "cd_runs ?s = cd_runs s" "cd_done ?s = cd_done s" "cd_tail ?s = cd_tail s"
    "cd_order ?s = cd_order s" "cd_served ?s = cd_served s"
    by (simp_all add: comb_link_def)
  have c: "successively (comb_linked s) ((c # us) @ t # vs)" using Q(6) q r by simp
  then have "comb_linked s (last (c # us)) t" unfolding successively_append_iff by simp
  then have p: "p = last (c # us)" "cd_next s p = None" using assms(2) by (auto simp: comb_linked_def)
  have d: "distinct (c # us @ t # vs)" using Q(1) q r by simp
  then have pin: "p \<notin> set (t # vs)" using p(1) last_in_set [of "c # us"] by auto
  have th: "t \<noteq> h" using Q(3) [of h] q(1) assms(2) by auto
  have pb: "p \<notin> set (butlast (c # us))"
    using d p(1) append_butlast_last_id [of "c # us"] by (metis append_Cons distinct_append distinct_butlast list.distinct(1) not_distinct_conv_prefix)
  have "successively (comb_linked ?s) (c # us)"
  proof (rule comb_chain_mono [of "comb_linked s"])
    show "successively (comb_linked s) (c # us)" using c unfolding successively_append_iff by blast
    fix x y assume xy: "x \<in> set (butlast (c # us))" "y \<in> set (tl (c # us))" "comb_linked s x y"
    then have "y \<noteq> t" "x \<noteq> p" using d pb by auto
    then show "comb_linked ?s x y" using xy(3) by (simp add: comb_linked_def e)
  qed
  moreover have "successively (comb_linked ?s) (t # vs)"
  proof (rule comb_chain_mono [of "comb_linked s"])
    show "successively (comb_linked s) (t # vs)" using c unfolding successively_append_iff by blast
    fix x y assume xy: "x \<in> set (butlast (t # vs))" "y \<in> set (tl (t # vs))" "comb_linked s x y"
    then have "y \<noteq> t" "x \<noteq> p" using d pin in_set_butlastD by fastforce+
    then show "comb_linked ?s x y" using xy(3) by (simp add: comb_linked_def e)
  qed
  moreover have "comb_linked ?s (last (c # us)) t" unfolding p(1) [symmetric] comb_linked_def e using t(1) by simp
  ultimately have "successively (comb_linked ?s) ((c # us) @ t # vs)" unfolding successively_append_iff by simp
  then have "successively (comb_linked ?s) q" using q r by simp
  moreover have "cd_next ?s (last q) = None" using Q(5) pin q r by (auto simp: e)
  moreover have "holding (cd_pc ?s u) \<longleftrightarrow> q \<noteq> [] \<and> u = h" for u
    using Q(3) [of u] th assms(2) by (simp add: e)
  moreover have "cd_pc ?s h = cd_pc s h" using th by (simp add: e)
  ultimately have "comb_queue ?s h q"
    using Q(1,2,4,7,8) unfolding comb_queue_def by (simp add: e(3-9))
  moreover have "comb_person ?s h q u" for u
    using P [of u] t th assms(2) unfolding comb_person_def e by (cases "u = t") auto
  moreover have "comb_drain ?s h q"
    using D th assms(2) p(2) unfolding comb_drain_def e
    by (auto split: comb_pc.splits drain_phase.splits if_splits)
  ultimately show ?thesis by (simp add: comb_rep_def)
qed


text \<open>Moves of the holder at the node where it stands.\<close>

lemma behind_waits:
  assumes "comb_rep s h q" and "y \<in> set (tl q)"
  shows "y \<noteq> h" and "\<not> holding (cd_pc s y)" and "y \<noteq> stands_at h (cd_pc s h)" and "y \<notin> cd_deferred s"
    and "to_wake (cd_pc s h) \<noteq> Some y" and "handed (cd_pc s h) \<noteq> Some y"
proof -
  note Q = comb_queueD [OF comb_repD(1) [OF assms(1)]] and P = comb_repD(2) [OF assms(1), of y]
  obtain c r where q: "q = c # r" "y \<in> set r" using assms(2) by (cases q) auto
  show "y \<noteq> stands_at h (cd_pc s h)" using Q(1,4) q by auto
  have b: "y \<in> set q" "y \<in> set (tl q)" using q by auto
  show nh: "\<not> holding (cd_pc s y)" using P b by (cases "cd_pc s y") (auto simp: comb_person_def)
  then show "y \<noteq> h" using Q(3) [of h] q(1) by auto
  show "y \<notin> cd_deferred s" "to_wake (cd_pc s h) \<noteq> Some y" "handed (cd_pc s h) \<noteq> Some y"
    using P b nh by (cases "cd_pc s y"; auto simp: comb_person_def split: if_splits)+
qed

lemma holder_moves:
  assumes "comb_rep s h q" and "holding (cd_pc s h)" and "cd_pc s' = (cd_pc s)(h := pc)" and "holding pc"
    and "stands_at h pc = stands_at h (cd_pc s h)" and "to_wake pc = to_wake (cd_pc s h)" and "handed pc = handed (cd_pc s h)"
    and "cd_tail s' = cd_tail s" and "cd_next s' = cd_next s" and "cd_kind s' = cd_kind s"
    and "cd_order s' = cd_order s" and "cd_served s' = cd_served s"
    and "\<forall>u. u \<noteq> h \<longrightarrow> cd_runs s' u = cd_runs s u \<and> cd_done s' u = cd_done s u \<and> (u \<in> cd_deferred s' \<longleftrightarrow> u \<in> cd_deferred s)"
    and "comb_person s' h q h" and "comb_drain s' h q"
  shows "comb_rep s' h q"
proof -
  note Q = comb_queueD [OF comb_repD(1) [OF assms(1)]] and P = comb_repD(2) [OF assms(1)]
  have q: "q \<noteq> []" using Q(3) [of h] assms(2) by simp
  have "successively (comb_linked s') q"
    by (rule comb_chain_frame [OF Q(6)]) (use behind_waits [OF assms(1)] assms(3,9,10) in auto)
  moreover have "holding (cd_pc s' u) \<longleftrightarrow> q \<noteq> [] \<and> u = h" for u using Q(3) [of u] assms(3,4) q by simp
  moreover have "hd q = stands_at h (cd_pc s' h)" using Q(4) q assms(3,5) by simp
  ultimately have "comb_queue s' h q"
    using Q(1,2,5,7) q assms(8-12) unfolding comb_queue_def by simp
  moreover have "comb_person s' h q u" for u
    using P [of u] assms(3,6,7,10,13,14) by (cases "u = h") (simp_all add: comb_person_def)
  ultimately show ?thesis using assms(15) by (simp add: comb_rep_def)
qed

lemma execute_own_keeps:
  assumes "comb_rep s h q" and "cd_pc s t = D_Exec"
  shows "comb_rep (cgoto t (D_Drain t None (\<not> ready) Ph_Progress) (comb_execute t ready s)) h q"
proof -
  have th: "t = h" using holder_at [OF assms(1), of t] assms(2) by simp
  have p: "comb_person s h q h" by (rule comb_repD(2) [OF assms(1)])
  show ?thesis unfolding th
    by (rule holder_moves [OF assms(1), where pc = "D_Drain h None (\<not> ready) Ph_Progress"])
      (use assms(2) p in \<open>auto simp: th comb_execute_def comb_person_def comb_drain_def Let_def\<close>)
qed

lemma body_done_keeps:
  assumes "comb_rep s h q" and "cd_pc s t = D_Body"
  shows "comb_rep (cgoto t (D_Drain t None False Ph_Progress) s) h q"
proof -
  have th: "t = h" using holder_at [OF assms(1), of t] assms(2) by simp
  have p: "comb_person s h q h" by (rule comb_repD(2) [OF assms(1)])
  show ?thesis unfolding th
    by (rule holder_moves [OF assms(1), where pc = "D_Drain h None False Ph_Progress"])
      (use assms(2) p in \<open>auto simp: th comb_person_def comb_drain_def\<close>)
qed

text \<open>A change of the phase alone.\<close>

lemma phase_keeps:
  assumes "comb_rep s h q" and "cd_pc s h = D_Drain c w own ph"
    and "case ph' of Ph_Next n k \<Rightarrow> cd_next s c = Some (n, k) | Ph_Release \<Rightarrow> \<not> own \<and> cd_deferred s = {}
      | Ph_Spin \<Rightarrow> tl q \<noteq> [] | _ \<Rightarrow> True"
  shows "comb_rep (cgoto h (D_Drain c w own ph') s) h q"
proof (rule holder_moves [OF assms(1), where pc = "D_Drain c w own ph'"])
  have p: "comb_person s h q h" and d: "comb_drain s h q" using comb_repD(2,3) [OF assms(1)] by simp_all
  show "comb_person (cgoto h (D_Drain c w own ph') s) h q h"
    using p assms(2) by (simp add: comb_person_def)
  have "if c = h then w = None else cd_pc s c = D_Asleep Call \<and> (w = None \<or> w = Some c)"
    using d assms(2) by (simp add: comb_drain_def)
  then show "comb_drain (cgoto h (D_Drain c w own ph') s) h q"
    using assms(3) by (cases ph') (simp_all add: comb_drain_def split: if_splits)
qed (simp_all add: assms(2))

lemma drain_holder: "comb_rep s h q \<Longrightarrow> cd_pc s t = D_Drain c w own ph \<Longrightarrow> t = h"
  using holder_at [of s h q t] by simp

lemma load_keeps:
  assumes "comb_rep s h q" and "cd_pc s t = D_Drain c w own Ph_Load"
  shows "comb_rep (comb_load t s) h q"
proof -
  have th: "t = h" by (rule drain_holder [OF assms])
  have h: "cd_pc s h = D_Drain c w own Ph_Load" using assms(2) th by simp
  show ?thesis
  proof (cases "cd_next s c")
    case None
    let ?ph = "if own \<or> cd_deferred s \<noteq> {} then Ph_Progress else Ph_Release"
    have e: "comb_load h s = cgoto h (D_Drain c w own ?ph) s" by (simp only: comb_load_def h None comb_pc.case option.case)
    have "case ?ph of Ph_Next n k \<Rightarrow> cd_next s c = Some (n, k) | Ph_Release \<Rightarrow> \<not> own \<and> cd_deferred s = {}
      | Ph_Spin \<Rightarrow> tl q \<noteq> [] | _ \<Rightarrow> True"
      by (cases "own \<or> cd_deferred s \<noteq> {}") simp_all
    then show ?thesis unfolding th e by (rule phase_keeps [OF assms(1) h])
  next
    case (Some nk)
    then show ?thesis
      unfolding th comb_load_def h by (cases nk) (simp add: phase_keeps [OF assms(1) h])
  qed
qed

lemma spin_keeps:
  assumes "comb_rep s h q" and "cd_pc s t = D_Drain c w own Ph_Spin"
  shows "comb_rep (comb_spin t s) h q"
proof -
  have th: "t = h" by (rule drain_holder [OF assms])
  have h: "cd_pc s h = D_Drain c w own Ph_Spin" using assms(2) th by simp
  show ?thesis
    unfolding th comb_spin_def h using assms(1)
    by (cases "cd_next s c") (auto simp: phase_keeps [OF assms(1) h])
qed


text \<open>Steps that wake somebody: the queue stays, or loses its first node.\<close>

lemma rep_step:
  assumes "comb_rep s h q" and "q' = q \<or> q' = tl q" and "cd_next s' = cd_next s"
    and "\<forall>y \<in> set (tl q'). cd_pc s' y = cd_pc s y \<and> cd_kind s' y = cd_kind s y"
    and "cd_tail s' = (if q' = [] then None else Some (last q'))"
    and "\<forall>t. holding (cd_pc s' t) \<longleftrightarrow> q' \<noteq> [] \<and> t = h'" and "q' \<noteq> [] \<longrightarrow> hd q' = stands_at h' (cd_pc s' h')"
    and "cd_order s' = cd_served s' @ tl q'" and "q' = [] \<longrightarrow> cd_deferred s' = {}"
    and "\<forall>u. comb_person s' h' q' u" and "comb_drain s' h' q'"
  shows "comb_rep s' h' q'"
proof -
  note Q = comb_queueD [OF comb_repD(1) [OF assms(1)]]
  have "successively (comb_linked s) q'" using Q(6) assms(2) by (cases q) (auto simp: successively_Cons)
  then have "successively (comb_linked s') q'"
    by (rule comb_chain_frame) (use assms(3,4) in auto)
  moreover have "distinct q'" using Q(1) assms(2) distinct_tl by auto
  moreover have "q' \<noteq> [] \<longrightarrow> cd_next s' (last q') = None"
    using Q(5) assms(2,3) by (cases q) (auto split: if_splits)
  ultimately show ?thesis using assms(5-11) by (simp add: comb_rep_def comb_queue_def)
qed

lemma person_same:
  assumes "comb_person s h q u" and "cd_pc s' u = cd_pc s u" and "cd_kind s' u = cd_kind s u" and "cd_runs s' u = cd_runs s u"
    and "cd_done s' u = cd_done s u" and "u \<in> cd_deferred s' \<longleftrightarrow> u \<in> cd_deferred s" and "u \<in> set q' \<longleftrightarrow> u \<in> set q"
    and "u \<in> set (tl q') \<longleftrightarrow> u \<in> set (tl q)" and "to_wake (cd_pc s' h') = Some u \<longleftrightarrow> to_wake (cd_pc s h) = Some u"
    and "handed (cd_pc s' h') = Some u \<longleftrightarrow> handed (cd_pc s h) = Some u"
  shows "comb_person s' h' q' u"
  using assms by (simp add: comb_person_def)

lemma release_keeps:
  assumes "comb_rep s h q" and "cd_pc s t = D_Drain c w own Ph_Release"
  shows "\<exists>h' q'. comb_rep (comb_release t s) h' q'"
proof -
  have th: "t = h" by (rule drain_holder [OF assms])
  have h: "cd_pc s h = D_Drain c w own Ph_Release" using assms(2) th by simp
  note Q = comb_queueD [OF comb_repD(1) [OF assms(1)]] and P = comb_repD(2) [OF assms(1)]
  have q: "q \<noteq> []" "hd q = c" using Q(3) [of h] Q(4) h by auto
  have D: "if c = h then w = None else cd_pc s c = D_Asleep Call \<and> (w = None \<or> w = Some c)" "\<not> own" "cd_deferred s = {}"
    using comb_repD(3) [OF assms(1)] h by (simp_all add: comb_drain_def)
  show ?thesis
  proof (cases "cd_tail s = Some c")
    case True
    then have qc: "q = [c]" using Q(1,2) q by (cases q) (auto split: if_splits)
    have w: "c \<noteq> h \<Longrightarrow> w = Some c" using D P [of c] h qc by (cases w) (auto simp: comb_person_def)
    let ?s = "comb_release t s"
    have e: "?s = cgoto h D_Ret (comb_wake w (s\<lparr>cd_tail := None\<rparr>))" by (simp add: comb_release_def th h True)
    have nw: "w = (if c = h then None else Some c)" using D(1) w by auto
    have pc: "cd_pc ?s = (cd_pc s)(h := D_Ret, c := D_Ret)"
      unfolding e nw comb_wake_def by (auto simp: fun_eq_iff)
    have f: "cd_next ?s = cd_next s" "cd_tail ?s = None" "cd_kind ?s = cd_kind s" "cd_deferred ?s = cd_deferred s"
      "cd_runs ?s = cd_runs s" "cd_done ?s = cd_done s" "cd_order ?s = cd_order s" "cd_served ?s = cd_served s"
      unfolding e nw comb_wake_def by simp_all
    have per: "comb_person ?s h [] u" for u
    proof -
      consider "u = h" | "u = c" "u \<noteq> h" | "u \<noteq> h" "u \<noteq> c" by blast
      then show ?thesis
      proof cases
        case 1
        then show ?thesis using P [of h] h D(2,3) unfolding comb_person_def pc f by (auto split: if_splits)
      next
        case 2
        then show ?thesis using P [of c] h D(1,3) nw qc unfolding comb_person_def pc f by (auto split: if_splits)
      next
        case 3
        then show ?thesis by (intro person_same [OF P [of u]]) (use h nw qc in \<open>auto simp: pc f\<close>)
      qed
    qed
    have "comb_rep ?s h []"
      by (rule rep_step [OF assms(1)])
        (use qc per Q(3,7) D(3) h in \<open>auto simp: pc f comb_drain_def split: if_splits\<close>)
    then show ?thesis by blast
  next
    case False
    then have "tl q \<noteq> []" using Q(2) q by (cases q) auto
    then have "comb_rep (cgoto h (D_Drain c w own Ph_Spin) s) h q" by (intro phase_keeps [OF assms(1) h]) simp
    moreover have "comb_release t s = cgoto h (D_Drain c w own Ph_Spin) s" using False by (simp add: comb_release_def th h)
    ultimately show ?thesis by auto
  qed
qed


lemma progress_keeps:
  assumes "comb_rep s h q" and "cd_pc s t = D_Drain c w own Ph_Progress" and r: "r \<in> cd_deferred s"
  shows "comb_rep (comb_progress t r s) h q"
proof -
  have th: "t = h" by (rule drain_holder [OF assms(1,2)])
  have h: "cd_pc s h = D_Drain c w own Ph_Progress" using assms(2) th by simp
  note Q = comb_queueD [OF comb_repD(1) [OF assms(1)]] and P = comb_repD(2) [OF assms(1)]
  have q: "q \<noteq> []" "hd q = c" using Q(3) [of h] Q(4) h by auto
  have D: "if c = h then w = None else cd_pc s c = D_Asleep Call \<and> (w = None \<or> w = Some c)"
    using comb_repD(3) [OF assms(1)] h by (simp add: comb_drain_def)
  have rb: "r \<notin> set (tl q)" using behind_waits(4) [OF assms(1)] r by blast
  let ?d = "s\<lparr>cd_deferred := cd_deferred s - {r}, cd_done := (cd_done s)(r := True)\<rparr>"
  let ?s = "comb_progress t r s"
  have wr: "w \<noteq> Some r" using P [of r] r h by (cases "cd_pc s r") (auto simp: comb_person_def split: if_splits)
  consider (own) "own" "r = h" | (cur) "c \<noteq> h" "r = c" "\<not> (own \<and> r = h)" | (other) "\<not> (own \<and> r = h)" "\<not> (c \<noteq> h \<and> r = c)" by blast
  then show ?thesis
  proof cases
    case own
    then have e: "?s = cgoto h (D_Drain c w False Ph_Progress) ?d" by (simp add: comb_progress_def th h)
    show ?thesis unfolding e
    proof (rule holder_moves [OF assms(1), where pc = "D_Drain c w False Ph_Progress"])
      show "comb_person (cgoto h (D_Drain c w False Ph_Progress) ?d) h q h"
        using P [of h] own h by (auto simp: comb_person_def split: if_splits)
      show "comb_drain (cgoto h (D_Drain c w False Ph_Progress) ?d) h q" using D by (auto simp: comb_drain_def)
    qed (use own h in auto)
  next
    case cur
    then have e: "?s = cgoto h (D_Drain c (Some c) own Ph_Progress) ?d" by (simp add: comb_progress_def th h)
    let ?t = "cgoto h (D_Drain c (Some c) own Ph_Progress) ?d"
    have per: "comb_person ?t h q u" for u
    proof -
      consider "u = h" | "u = c" "u \<noteq> h" | "u \<noteq> h" "u \<noteq> c" by blast
      then show ?thesis
      proof cases
        case 1
        then show ?thesis using P [of h] h cur unfolding comb_person_def by (auto split: if_splits)
      next
        case 2
        then show ?thesis using P [of c] h D cur rb unfolding comb_person_def by (auto split: if_splits)
      next
        case 3
        then show ?thesis by (intro person_same [OF P [of u]]) (use h cur D in \<open>auto split: if_splits\<close>)
      qed
    qed
    show ?thesis unfolding e
    proof (rule rep_step [OF assms(1)])
      show "\<forall>y\<in>set (tl q). cd_pc ?t y = cd_pc s y \<and> cd_kind ?t y = cd_kind s y"
        using behind_waits(1) [OF assms(1)] by auto
      show "\<forall>t. holding (cd_pc ?t t) \<longleftrightarrow> q \<noteq> [] \<and> t = h" using Q(3) q by auto
      show "comb_drain ?t h q" using D cur by (auto simp: comb_drain_def)
    qed (use Q(2,4,7) q per h in auto)
  next
    case other
    have rh: "r \<noteq> h" using P [of h] h other r by (auto simp: comb_person_def split: if_splits)
    then have rc: "r \<noteq> c" using other by auto
    then have rq: "r \<notin> set q" using rb q by (cases q) auto
    have e: "?s = cgoto r D_Ret ?d" using other by (auto simp: comb_progress_def th h Let_def)
    have pr: "cd_runs s r = 1 \<and> \<not> holding (cd_pc s r)"
      using P [of r] r rh rq h Q(3) [of r] by (cases "cd_pc s r") (auto simp: comb_person_def split: if_splits)
    have per: "comb_person ?s h q u" for u
    proof (cases "u = r")
      case True
      then show ?thesis using pr rq rh h wr by (simp add: comb_person_def e)
    next
      case False
      then show ?thesis by (intro person_same [OF P [of u]]) (use h rh in \<open>auto simp: e\<close>)
    qed
    show ?thesis
    proof (rule rep_step [OF assms(1)])
      show "\<forall>y\<in>set (tl q). cd_pc ?s y = cd_pc s y \<and> cd_kind ?s y = cd_kind s y" using rb by (auto simp: e)
      show "\<forall>t. holding (cd_pc ?s t) \<longleftrightarrow> q \<noteq> [] \<and> t = h" using Q(3) q rh by (auto simp: e)
      show "comb_drain ?s h q" using D rc rh h by (auto simp: comb_drain_def e split: if_splits)
    qed (use Q(2,4,7) q per h rh in \<open>auto simp: e\<close>)
  qed
qed

lemma next_keeps:
  assumes "comb_rep s h q" and "cd_pc s t = D_Drain c w own (Ph_Next n k)"
  shows "comb_rep (comb_next t ready s) h (tl q) \<and> (\<exists>r. q = c # n # r)"
proof -
  have th: "t = h" by (rule drain_holder [OF assms(1,2)])
  have h: "cd_pc s h = D_Drain c w own (Ph_Next n k)" using assms(2) th by simp
  note Q = comb_queueD [OF comb_repD(1) [OF assms(1)]] and P = comb_repD(2) [OF assms(1)]
  have q0: "q \<noteq> []" "hd q = c" using Q(3) [of h] Q(4) h by auto
  have D: "if c = h then w = None else cd_pc s c = D_Asleep Call \<and> (w = None \<or> w = Some c)" "cd_next s c = Some (n, k)"
    using comb_repD(3) [OF assms(1)] h by (simp_all add: comb_drain_def)
  have "q \<noteq> [c]"
  proof
    assume "q = [c]"
    then have "cd_next s c = None" using Q(5) by simp
    then show False using D(2) by simp
  qed
  then obtain m r where q1: "q = c # m # r" using q0 by (cases q; cases "tl q") auto
  then have "comb_linked s c m" using Q(6) by simp
  then have m: "m = n" "cd_pc s n = D_Asleep k" "cd_kind s n = k" using D(2) by (auto simp: comb_linked_def)
  have q: "q = c # n # r" using q1 m by simp
  have nb: "n \<in> set (tl q)" using q by simp
  note N = behind_waits [OF assms(1) nb]
  have pn: "cd_runs s n = 0" "\<not> cd_done s n" "n \<notin> cd_deferred s" using P [of n] m(2) nb by (simp_all add: comb_person_def)
  have nd: "n \<noteq> c" "n \<notin> set r" "c \<notin> set r" using Q(1) q by auto
  have hr: "h \<notin> set r" "h \<noteq> n" using behind_waits(1) [OF assms(1)] q by auto
  have wc: "w = None \<or> c \<noteq> h \<and> w = Some c" using D(1) by (auto split: if_splits)
  let ?s = "comb_next t ready s"
  let ?pc = "if k = Lock then D_Hand n own else D_Drain n (if ready then Some n else None) own Ph_Progress"
  have pc: "cd_pc ?s = (if w = None then cd_pc s else (cd_pc s)(c := D_Ret))(h := ?pc)"
    using wc by (cases k) (auto simp: comb_next_def th h Let_def comb_wake_def comb_execute_def)
  have f: "cd_next ?s = cd_next s" "cd_tail ?s = cd_tail s" "cd_kind ?s = cd_kind s" "cd_order ?s = cd_order s"
    "cd_served ?s = cd_served s @ [n]"
    "cd_runs ?s = (if k = Call then (cd_runs s)(n := 1) else cd_runs s)"
    "cd_done ?s = (if k = Call \<and> ready then (cd_done s)(n := True) else cd_done s)"
    "cd_deferred ?s = (if k = Call \<and> \<not> ready then insert n (cd_deferred s) else cd_deferred s)"
    using pn(1) by (cases k; cases w; auto simp: comb_next_def th h Let_def comb_wake_def comb_execute_def fun_eq_iff)+
  have per: "comb_person ?s h (tl q) u" for u
  proof -
    consider "u = h" | "u = n" | "u = c" "u \<noteq> h" | "u \<noteq> h" "u \<noteq> n" "u \<noteq> c" by blast
    then show ?thesis
    proof cases
      case 1
      then show ?thesis using P [of h] h hr q unfolding comb_person_def pc f by (cases k) (auto split: if_splits)
    next
      case 2
      then show ?thesis using m pn nd hr q wc unfolding comb_person_def pc f by (cases k) (auto split: if_splits)
    next
      case 3
      then show ?thesis using P [of c] h D(1) hr nd q wc unfolding comb_person_def pc f by (cases k) (auto split: if_splits)
    next
      case 4
      then show ?thesis by (intro person_same [OF P [of u]]) (use h q wc in \<open>auto simp: pc f\<close>)
    qed
  qed
  have "comb_rep ?s h (tl q)"
  proof (rule rep_step [OF assms(1)])
    show "\<forall>y\<in>set (tl (tl q)). cd_pc ?s y = cd_pc s y \<and> cd_kind ?s y = cd_kind s y"
      using hr nd q by (auto simp: pc f)
    show "\<forall>t. holding (cd_pc ?s t) \<longleftrightarrow> tl q \<noteq> [] \<and> t = h" using Q(3) q wc by (auto simp: pc)
    show "comb_drain ?s h (tl q)" using m hr nd by (cases k) (auto simp: comb_drain_def pc)
    show "cd_tail ?s = (if tl q = [] then None else Some (last (tl q)))" using Q(2) q by (simp add: f)
    show "cd_order ?s = cd_served ?s @ tl (tl q)" using Q(7) q by (simp add: f)
  qed (use q per h in \<open>auto simp: pc f\<close>)
  then show ?thesis using q by simp
qed

lemma hand_keeps:
  assumes "comb_rep s h q" and "cd_pc s t = D_Hand n own \<or> cd_pc s t = D_Hand_Asleep n"
  shows "\<exists>h'. comb_rep (comb_hand t s) h' q"
proof -
  have th: "t = h" using holder_at [OF assms(1), of t] assms(2) by auto
  note Q = comb_queueD [OF comb_repD(1) [OF assms(1)]] and P = comb_repD(2) [OF assms(1)]
  have q: "q \<noteq> []" "hd q = n" using Q(3) [of h] Q(4) assms(2) th by auto
  have n: "cd_pc s n = D_Asleep Lock" using comb_repD(3) [OF assms(1)] assms(2) th by (auto simp: comb_drain_def)
  have nh: "n \<noteq> h" using n assms(2) th by auto
  have ntl: "n \<notin> set (tl q)" using Q(1) q by (cases q) auto
  have hq: "h \<notin> set q" using P [of h] assms(2) th by (auto simp: comb_person_def)
  show ?thesis
  proof (cases "cd_pc s h = D_Hand n True")
    case True
    then have e: "comb_hand t s = cgoto h (D_Hand_Asleep n) s" by (simp add: comb_hand_def th)
    have "comb_rep (cgoto h (D_Hand_Asleep n) s) h q"
      by (rule holder_moves [OF assms(1), where pc = "D_Hand_Asleep n"])
        (use True n nh P [of h] in \<open>auto simp: comb_person_def comb_drain_def split: if_splits\<close>)
    then show ?thesis unfolding e by blast
  next
    case False
    define pc where "pc = (if cd_pc s h = D_Hand_Asleep n then D_Asleep Call else D_Ret)"
    have e: "comb_hand t s = cgoto h pc (cgoto n D_Body s)"
      using False assms(2) th by (cases own) (auto simp: comb_hand_def pc_def)
    let ?s = "cgoto h pc (cgoto n D_Body s)"
    have per: "comb_person ?s n q u" for u
    proof -
      consider "u = h" | "u = n" | "u \<noteq> h" "u \<noteq> n" by blast
      then show ?thesis
      proof cases
        case 1
        then show ?thesis using P [of h] assms(2) th nh hq False list.set_sel(2) [of q h] q
          by (auto simp: comb_person_def pc_def split: if_splits)
      next
        case 2
        then show ?thesis using P [of n] n nh ntl by (auto simp: comb_person_def)
      next
        case 3
        then show ?thesis by (intro person_same [OF P [of u]]) (use assms(2) th nh in \<open>auto\<close>)
      qed
    qed
    have "comb_rep ?s n q"
    proof (rule rep_step [OF assms(1)])
      show "\<forall>y\<in>set (tl q). cd_pc ?s y = cd_pc s y \<and> cd_kind ?s y = cd_kind s y"
        using behind_waits(1) [OF assms(1)] ntl by auto
      show "\<forall>t. holding (cd_pc ?s t) \<longleftrightarrow> q \<noteq> [] \<and> t = n" using Q(3) q nh by (auto simp: pc_def)
      show "comb_drain ?s n q" using nh by (simp add: comb_drain_def)
    qed (use Q(2,7) q per nh in auto)
    then show ?thesis unfolding e by blast
  qed
qed

lemma return_keeps:
  assumes "comb_rep s h q" and "cd_pc s t = D_Ret"
  shows "comb_rep (cgoto t D_Out s) h q"
proof -
  note Q = comb_queueD [OF comb_repD(1) [OF assms(1)]] and P = comb_repD(2) [OF assms(1)]
  have t: "t \<notin> set q" "to_wake (cd_pc s h) \<noteq> Some t" "handed (cd_pc s h) \<noteq> Some t"
    using P [of t] assms(2) by (simp_all add: comb_person_def)
  have th: "q \<noteq> [] \<Longrightarrow> t \<noteq> h" using Q(3) [of h] assms(2) by auto
  have w: "to_wake (cd_pc (cgoto t D_Out s) h) = to_wake (cd_pc s h)" "handed (cd_pc (cgoto t D_Out s) h) = handed (cd_pc s h)"
    using assms(2) by auto
  have per: "comb_person (cgoto t D_Out s) h q u" for u
    using P [of u] assms(2) w t by (cases "u = t") (simp_all add: comb_person_def)
  show ?thesis
  proof (rule rep_step [OF assms(1)])
    show "\<forall>y\<in>set (tl q). cd_pc (cgoto t D_Out s) y = cd_pc s y \<and> cd_kind (cgoto t D_Out s) y = cd_kind s y"
      using t list.set_sel(2) [of q t] by (cases q) auto
    show "\<forall>u. holding (cd_pc (cgoto t D_Out s) u) \<longleftrightarrow> q \<noteq> [] \<and> u = h" using Q(3) assms(2) th by auto
    show "comb_drain (cgoto t D_Out s) h q"
      using comb_repD(3) [OF assms(1)] assms(2) t
      by (cases "cd_pc s h") (auto simp: comb_drain_def split: drain_phase.splits if_splits)
  qed (use Q(2,4,7,8) per th in auto)
qed

lemma comb_step_keeps: "comb_step s s' \<Longrightarrow> comb_rep s h q \<Longrightarrow> \<exists>h' q'. comb_rep s' h' q'"
proof (induction rule: comb_step.induct)
  case (progress_none s t c w own)
  have "t = h" by (rule drain_holder [OF progress_none(2,1)])
  then show ?case using phase_keeps [OF progress_none(2), of c w own Ph_Progress Ph_Load] progress_none(1) by auto
next
  case (hand s t n own)
  then show ?case using hand_keeps [of s h q t n own] by blast
next
  case (hand_asleep s t n)
  then show ?case using hand_keeps [of s h q t n False] by blast
next
  case (return s t)
  then show ?case using return_keeps by blast
qed (blast intro: swap_rep link_keeps execute_own_keeps body_done_keeps progress_keeps load_keeps release_keeps spin_keeps
  dest: next_keeps)+

lemma comb_new_rep: "comb_rep comb_new h []"
  by (simp add: comb_rep_def comb_queue_def comb_person_def comb_drain_def comb_new_def)

lemma comb_reachable_rep: "comb_reachable s \<Longrightarrow> \<exists>h q. comb_rep s h q"
  by (induction rule: comb_reachable.induct) (use comb_new_rep comb_step_keeps in blast)+


section \<open>What the delegator promises\<close>

lemma comb_chain_pred: "successively P q \<Longrightarrow> y \<in> set (tl q) \<Longrightarrow> \<exists>x \<in> set q. P x y"
  by (induction q rule: induct_list012) auto

lemma tl_in: "y \<in> set (tl q) \<Longrightarrow> y \<in> set q"
  by (cases q) auto

text \<open>
  C18: the combining delegator serialises its callers: at most one thread at a time holds the consumer; the
  calls are run, or given the lock, in the order of their swaps; and when a call returns its request
  was run exactly once and its response is in its slot, whether it finished at once, was deferred, or ran
  on the caller's own thread.
\<close>

theorem combining_serialises:
  assumes "comb_reachable s"
  shows "(\<nexists>t u. t \<noteq> u \<and> holding (cd_pc s t) \<and> holding (cd_pc s u)) \<and>
    (\<exists>waiting. cd_order s = cd_served s @ waiting \<and>
       (\<forall>t \<in> set waiting. cd_runs s t = 0 \<and> ((\<exists>p. cd_pc s t = D_Linking (cd_kind s t) p) \<or> cd_pc s t = D_Asleep (cd_kind s t)))) \<and>
    (\<forall>t. cd_pc s t = D_Ret \<and> cd_kind s t = Call \<longrightarrow> cd_runs s t = 1 \<and> cd_done s t) \<and>
    (\<forall>t. cd_pc s t \<noteq> D_Out \<and> cd_kind s t = Call \<longrightarrow> cd_runs s t \<le> 1)"
proof -
  obtain h q where R: "comb_rep s h q" using comb_reachable_rep [OF assms] by blast
  note Q = comb_queueD [OF comb_repD(1) [OF R]] and P = comb_repD(2) [OF R]
  have 1: "\<nexists>t u. t \<noteq> u \<and> holding (cd_pc s t) \<and> holding (cd_pc s u)" using Q(3) by auto
  have 2: "cd_runs s t = 0 \<and> ((\<exists>p. cd_pc s t = D_Linking (cd_kind s t) p) \<or> cd_pc s t = D_Asleep (cd_kind s t))"
    if "t \<in> set (tl q)" for t
    using P [of t] that tl_in [OF that] by (cases "cd_pc s t") (auto simp: comb_person_def)
  have 3: "cd_runs s t = 1 \<and> cd_done s t" if "cd_pc s t = D_Ret" "cd_kind s t = Call" for t
    using P [of t] that by (simp add: comb_person_def)
  have 4: "cd_runs s t \<le> 1" if "cd_pc s t \<noteq> D_Out" "cd_kind s t = Call" for t
    using P [of t] that by (cases "cd_pc s t") (auto simp: comb_person_def split: if_splits)
  show ?thesis using 1 2 3 4 Q(7) by blast
qed

text \<open>
  C19: no caller is forgotten, and the holder touches only the frames of calls that have not returned.  There is a queue that starts
  with the node the holder stands at, in which each caller is linked to from the one before it or about to set that link, and
  which ends at the tail; a caller that has not set its link is in it, and one that is asleep is in it, or its request is deferred,
  or the holder has it in hand to wake it or to give it the lock.  The
  node a draining holder stands at is its own or that of a sleeping caller, the node a caller links itself
  behind belongs to a call still in progress, somebody holds the lock as long as anyone waits, and once
  nobody does every call was served and none is deferred.
\<close>

theorem combining_forgets_nobody:
  assumes "comb_reachable s"
  shows "(\<exists>h q. comb_queue s h q \<and> (\<forall>t k p. cd_pc s t = D_Linking k p \<longrightarrow> t \<in> set (tl q)) \<and>
      (\<forall>t k. cd_pc s t = D_Asleep k \<longrightarrow>
         t \<in> set (tl q) \<or> t \<in> cd_deferred s \<or> to_wake (cd_pc s h) = Some t \<or> handed (cd_pc s h) = Some t)) \<and>
    (\<forall>t c w own ph. cd_pc s t = D_Drain c w own ph \<longrightarrow> c = t \<or> cd_pc s c = D_Asleep Call) \<and>
    (\<forall>t k p. cd_pc s t = D_Linking k p \<longrightarrow> cd_pc s p \<noteq> D_Out \<and> cd_pc s p \<noteq> D_Ret) \<and>
    (\<forall>t k p. cd_pc s t = D_Linking k p \<or> cd_pc s t = D_Asleep k \<longrightarrow> (\<exists>h. holding (cd_pc s h))) \<and>
    ((\<nexists>h. holding (cd_pc s h)) \<longrightarrow> cd_order s = cd_served s \<and> cd_deferred s = {} \<and> cd_tail s = None)"
proof -
  obtain h q where R: "comb_rep s h q" using comb_reachable_rep [OF assms] by blast
  note Q = comb_queueD [OF comb_repD(1) [OF R]] and P = comb_repD(2) [OF R]
  have 1: "c = t \<or> cd_pc s c = D_Asleep Call" if d: "cd_pc s t = D_Drain c w own ph" for t c w own ph
    using comb_repD(3) [OF R] drain_holder [OF R d] d by (auto simp: comb_drain_def split: if_splits)
  have 2: "cd_pc s p \<noteq> D_Out \<and> cd_pc s p \<noteq> D_Ret" if l: "cd_pc s t = D_Linking k p" for t k p
  proof -
    have "t \<in> set (tl q)" using P [of t] l by (simp add: comb_person_def)
    then obtain x where x: "x \<in> set q" "comb_linked s x t" using comb_chain_pred [OF Q(6)] by blast
    then have "p \<in> set q" using l by (auto simp: comb_linked_def)
    then show ?thesis using P [of p] by (auto simp: comb_person_def)
  qed
  have 3: "\<exists>h. holding (cd_pc s h)" if l: "cd_pc s t = D_Linking k p \<or> cd_pc s t = D_Asleep k" for t k p
  proof (rule ccontr)
    assume n: "\<nexists>h. holding (cd_pc s h)"
    then have q: "q = []" using Q(3) by auto
    have nh: "\<not> holding (cd_pc s h)" using n by blast
    then have "to_wake (cd_pc s h) = None \<and> handed (cd_pc s h) = None" by (cases "cd_pc s h") simp_all
    then show False using P [of t] l q Q(8) [OF q] by (cases k) (auto simp: comb_person_def split: if_splits)
  qed
  have 4: "cd_order s = cd_served s \<and> cd_deferred s = {} \<and> cd_tail s = None" if n: "\<nexists>h. holding (cd_pc s h)"
  proof -
    have "q = []" using Q(3) n by auto
    then show ?thesis using Q(2,7,8) by simp
  qed
  have "t \<in> set (tl q)" if "cd_pc s t = D_Linking k p" for t k p
    using P [of t] that by (simp add: comb_person_def)
  moreover have "t \<in> set (tl q) \<or> t \<in> cd_deferred s \<or> to_wake (cd_pc s h) = Some t \<or> handed (cd_pc s h) = Some t"
    if "cd_pc s t = D_Asleep k" for t k
    using P [of t] that by (auto simp: comb_person_def split: if_splits)
  ultimately have 5: "\<exists>h q. comb_queue s h q \<and> (\<forall>t k p. cd_pc s t = D_Linking k p \<longrightarrow> t \<in> set (tl q)) \<and>
      (\<forall>t k. cd_pc s t = D_Asleep k \<longrightarrow>
         t \<in> set (tl q) \<or> t \<in> cd_deferred s \<or> to_wake (cd_pc s h) = Some t \<or> handed (cd_pc s h) = Some t)"
    using comb_repD(1) [OF R] by blast
  show ?thesis using 1 2 3 4 5 by blast
qed

text \<open>Thread 0 finds the queue empty and its request is deferred; thread 1 has swapped, not linked.\<close>

definition comb_example :: combining where
  "comb_example = comb_enqueue 1 Call
     (cgoto 0 (D_Drain 0 None (\<not> False) Ph_Progress) (comb_execute 0 False (comb_enqueue 0 Call comb_new)))"

lemma comb_example_reachable: "comb_reachable comb_example"
  unfolding comb_example_def
  by (intro comb_step_on [OF _ swap] comb_step_on [OF _ execute_own] comb_init)
    (simp_all add: comb_new_def comb_enqueue_def comb_execute_def Let_def)

theorem combining_serialises_witness:
  "cd_runs comb_example 0 \<le> 1 \<and> \<not> (holding (cd_pc comb_example 0) \<and> holding (cd_pc comb_example 1))"
proof -
  have "cd_pc comb_example 0 \<noteq> D_Out" "cd_kind comb_example 0 = Call"
    by (simp_all add: comb_example_def comb_new_def comb_enqueue_def comb_execute_def Let_def)
  moreover have "(0 :: nat) \<noteq> 1" by simp
  ultimately show ?thesis using combining_serialises [OF comb_example_reachable] by blast
qed

theorem combining_forgets_nobody_witness:
  "cd_pc comb_example 1 = D_Linking Call 0 \<and> (\<exists>h. holding (cd_pc comb_example h)) \<and>
   (\<exists>h q. comb_queue comb_example h q \<and> 1 \<in> set (tl q))"
proof -
  have "cd_pc comb_example 1 = D_Linking Call 0"
    by (simp add: comb_example_def comb_new_def comb_enqueue_def comb_execute_def Let_def)
  then show ?thesis using combining_forgets_nobody [OF comb_example_reachable] by blast
qed


end
