(* ===== verification/Sync_Queue.thy ===== *)
theory Sync_Queue
  imports Cmpth_Prelude
begin

text \<open>
  The queues behind the delegators with a consumer thread: the contract of \<open>SyncQueue\<close>
  (\<open>stackful/sync/delegator.rs\<close>) as a locale, and its two implementations, the MCS queue
  (\<open>mcs_delegator.rs\<close>) and the ring buffer (\<open>ring_delegator.rs\<close>), as interpretations of it.  Each
  operation has one access by which other threads see it (a swap, an exchange, a store or a load), and
  everything else it touches belongs to the holder of the lock or to its own node, so it is one step.
\<close>

section \<open>The contract\<close>

text \<open>
  The operations; \<open>'e\<close> is what the environment adds to a \<open>start_lock\<close>, which gives \<open>None\<close> for an attempt
  that has to be repeated, and else whether the lock is taken, the node before and the own node.
\<close>

record ('q, 'e) sync_ops =
  sq_start_lock :: "'e \<Rightarrow> 'q \<Rightarrow> ((bool \<times> nat option \<times> nat) \<times> 'q) option"
  sq_set_next :: "nat \<Rightarrow> nat \<Rightarrow> 'q \<Rightarrow> 'q"
  sq_get_head :: "'q \<Rightarrow> nat option"
  sq_try_unlock :: "nat \<Rightarrow> 'q \<Rightarrow> bool \<times> 'q"
  sq_try_follow_head :: "nat \<Rightarrow> 'q \<Rightarrow> nat option \<times> 'q"

text \<open>
  A client: callers arrive, publish themselves, and the holder releases the lock or moves on; \<open>xs\<close> and \<open>L\<close>
  are the nodes it has been given and has not yet left, and those published.  \<open>came\<close> are the nodes in the
  order of arrival, \<open>held\<close> those that became the holder's.
\<close>

datatype 'e sync_op = Arrive 'e | Publish nat | Release | Follow

type_synonym 'q sync_run = "nat list \<times> nat list \<times> nat list \<times> nat set \<times> 'q"

fun sync_do :: "('q, 'e) sync_ops \<Rightarrow> ('e \<Rightarrow> 'q \<Rightarrow> bool) \<Rightarrow> 'e sync_op \<Rightarrow> 'q sync_run \<Rightarrow> 'q sync_run" where
  "sync_do Q env (Arrive e) (came, held, xs, L, q) =
     (case (if env e q then sq_start_lock Q e q else None) of
        None \<Rightarrow> (came, held, xs, L, q)
      | Some ((locked, prev, cur), q') \<Rightarrow> (came @ [cur], if locked then held @ [cur] else held, xs @ [cur], L, q'))"
| "sync_do Q env (Publish i) (came, held, xs, L, q) =
     (if Suc i < length xs \<and> xs ! Suc i \<notin> L
      then (came, held, xs, insert (xs ! Suc i) L, sq_set_next Q (xs ! i) (xs ! Suc i) q) else (came, held, xs, L, q))"
| "sync_do Q env Release (came, held, xs, L, q) =
     (if xs = [] then (came, held, xs, L, q)
      else (case sq_try_unlock Q (the (sq_get_head Q q)) q of (ok, q') \<Rightarrow> (came, held, if ok then [] else xs, L, q')))"
| "sync_do Q env Follow (came, held, xs, L, q) =
     (if xs = [] then (came, held, xs, L, q)
      else (case sq_try_follow_head Q (the (sq_get_head Q q)) q of
              (None, q') \<Rightarrow> (came, held, xs, L, q')
            | (Some y, q') \<Rightarrow> (came, held @ [y], tl xs, L - {y}, q')))"

definition sync_client :: "('q, 'e) sync_ops \<Rightarrow> ('e \<Rightarrow> 'q \<Rightarrow> bool) \<Rightarrow> 'e sync_op list \<Rightarrow> 'q \<Rightarrow> 'q sync_run" where
  "sync_client Q env ops q = fold (sync_do Q env) ops ([], [], [], {}, q)"

text \<open>
  \<open>rep q xs L\<close>: the queue \<open>q\<close> stands for the nodes \<open>xs\<close>, first the holder's, of which those in \<open>L\<close> have published
  themselves to their predecessors.
\<close>

locale sync_queue =
  fixes Q :: "('q, 'e) sync_ops" and env :: "'e \<Rightarrow> 'q \<Rightarrow> bool" and rep :: "'q \<Rightarrow> nat list \<Rightarrow> nat set \<Rightarrow> bool"
  assumes rep_nodes: "rep q xs L \<Longrightarrow> distinct xs \<and> L \<subseteq> set (tl xs)"
    and start_law: "rep q xs L \<Longrightarrow> env e q \<Longrightarrow> sq_start_lock Q e q = Some ((locked, prev, cur), q') \<Longrightarrow>
      locked = (xs = []) \<and> prev = (if xs = [] then None else Some (last xs)) \<and> rep q' (xs @ [cur]) L"
    and link_law: "rep q xs L \<Longrightarrow> Suc i < length xs \<Longrightarrow> xs ! Suc i \<notin> L \<Longrightarrow>
      rep (sq_set_next Q (xs ! i) (xs ! Suc i) q) xs (insert (xs ! Suc i) L)"
    and head_law: "rep q (x # xs) L \<Longrightarrow> sq_get_head Q q = Some x"
    and unlock_law: "rep q (x # xs) L \<Longrightarrow> sq_try_unlock Q x q = (ok, q') \<Longrightarrow>
      ok = (xs = []) \<and> rep q' (if xs = [] then [] else x # xs) L"
    and follow_law: "rep q (x # xs) L \<Longrightarrow> sq_try_follow_head Q x q = (nxt, q') \<Longrightarrow>
      (if xs \<noteq> [] \<and> hd xs \<in> L then nxt = Some (hd xs) \<and> rep q' xs (L - {hd xs}) else nxt = None \<and> rep q' (x # xs) L)"
begin

text \<open>The lock is passed on in the order of arrival, to callers that have published themselves, and is free only if nobody is left.\<close>

lemma do_keeps:
  assumes "rep q xs L" and "came = held @ tl xs" and "sync_do Q env opr (came, held, xs, L, q) = (came', held', xs', L', q')"
  shows "rep q' xs' L' \<and> came' = held' @ tl xs'"
proof (cases opr)
  case (Arrive e)
  show ?thesis
  proof (cases "if env e q then sq_start_lock Q e q else None")
    case (Some r)
    obtain locked prev cur q1 where r: "r = ((locked, prev, cur), q1)" by (metis prod.exhaust)
    then have "locked = (xs = [])" "rep q1 (xs @ [cur]) L"
      using start_law [OF assms(1), of e locked prev cur q1] Some by (auto split: if_splits)
    then show ?thesis using assms Some r Arrive by (cases xs) auto
  qed (use assms Arrive in auto)
next
  case (Publish i)
  then show ?thesis using assms link_law [of q xs L i] by (auto split: if_splits)
next
  case Release
  show ?thesis
  proof (cases xs)
    case (Cons x ys)
    obtain ok q1 where u: "sq_try_unlock Q x q = (ok, q1)" by fastforce
    then have "ok = (ys = [])" "rep q1 (if ys = [] then [] else x # ys) L"
      using unlock_law [of q x ys L ok q1] Cons assms(1) by auto
    then show ?thesis using assms Cons Release head_law [of q x ys L] u by (auto split: if_splits)
  qed (use assms Release in auto)
next
  case Follow
  show ?thesis
  proof (cases xs)
    case (Cons x ys)
    obtain nxt q1 where u: "sq_try_follow_head Q x q = (nxt, q1)" by fastforce
    then have "if ys \<noteq> [] \<and> hd ys \<in> L then nxt = Some (hd ys) \<and> rep q1 ys (L - {hd ys}) else nxt = None \<and> rep q1 (x # ys) L"
      using follow_law [of q x ys L nxt q1] Cons assms(1) by simp
    then show ?thesis using assms Cons Follow head_law [of q x ys L] u by (cases ys) (auto split: if_splits)
  qed (use assms Follow in auto)
qed

lemma fold_keeps:
  assumes "fold (sync_do Q env) ops (came, held, xs, L, q) = (came', held', xs', L', q')" and "rep q xs L" and "came = held @ tl xs"
  shows "rep q' xs' L' \<and> came' = held' @ tl xs'"
  using assms
proof (induction ops arbitrary: came held xs L q)
  case (Cons opr ops)
  obtain came1 held1 xs1 L1 q1 where e: "sync_do Q env opr (came, held, xs, L, q) = (came1, held1, xs1, L1, q1)"
    by (metis prod.exhaust)
  then show ?case using Cons.IH [of came1 held1 xs1 L1 q1] Cons.prems do_keeps [OF Cons.prems(2,3) e] by simp
qed simp

lemma client_fifo:
  assumes "sync_client Q env ops q = (came, held, xs, L, q')" and "rep q [] {}"
  shows "came = held @ tl xs \<and> distinct xs \<and> sq_get_head Q q' = (if xs = [] then sq_get_head Q q' else Some (hd xs))"
proof -
  have "rep q' xs L \<and> came = held @ tl xs"
    using fold_keeps [OF assms(1) [unfolded sync_client_def] assms(2)] by simp
  then show ?thesis using rep_nodes [of q' xs L] head_law [of q' "hd xs" "tl xs" L] by (cases xs) auto
qed

end

section \<open>The MCS queue\<close>

text \<open>An entry is named by its address; the allocator gives one that is not live.\<close>

record mcs_queue =
  mq_tail :: "nat option"
  mq_head :: "nat option"
  mq_next :: "nat \<Rightarrow> nat option"
  mq_live :: "nat set"

definition mcs_queue_default :: mcs_queue where
  "mcs_queue_default = \<lparr>mq_tail = None, mq_head = None, mq_next = (\<lambda>_. None), mq_live = {}\<rparr>"

definition mcs_start_lock :: "nat \<Rightarrow> mcs_queue \<Rightarrow> ((bool \<times> nat option \<times> nat) \<times> mcs_queue) option" where
  "mcs_start_lock a q =
     (let prev = mq_tail q;
          q = q\<lparr>mq_live := insert a (mq_live q), mq_next := (mq_next q)(a := None), mq_tail := Some a\<rparr>;
          q = (if prev = None then q\<lparr>mq_head := Some a\<rparr> else q)
      in Some ((prev = None, prev, a), q))"

definition mcs_set_next :: "nat \<Rightarrow> nat \<Rightarrow> mcs_queue \<Rightarrow> mcs_queue" where
  "mcs_set_next prev cur q = q\<lparr>mq_next := (mq_next q)(prev := Some cur)\<rparr>"

definition mcs_try_unlock :: "nat \<Rightarrow> mcs_queue \<Rightarrow> bool \<times> mcs_queue" where
  "mcs_try_unlock h q =
     (let q = q\<lparr>mq_head := None\<rparr>
      in if mq_tail q = Some h then (True, q\<lparr>mq_tail := None\<rparr>) else (False, q\<lparr>mq_head := Some h\<rparr>))"

definition mcs_try_follow_head :: "nat \<Rightarrow> mcs_queue \<Rightarrow> nat option \<times> mcs_queue" where
  "mcs_try_follow_head h q =
     (case mq_next q h of
        None \<Rightarrow> (None, q)
      | Some n \<Rightarrow> (Some n, q\<lparr>mq_head := Some n, mq_live := mq_live q - {the (mq_head q)}\<rparr>))"

definition mcs_ops :: "(mcs_queue, nat) sync_ops" where
  "mcs_ops = \<lparr>sq_start_lock = mcs_start_lock, sq_set_next = mcs_set_next, sq_get_head = mq_head,
     sq_try_unlock = mcs_try_unlock, sq_try_follow_head = mcs_try_follow_head\<rparr>"

definition mcs_queue_rep :: "mcs_queue \<Rightarrow> nat list \<Rightarrow> nat set \<Rightarrow> bool" where
  "mcs_queue_rep q xs L \<longleftrightarrow>
     distinct xs \<and> L \<subseteq> set (tl xs) \<and> set xs \<subseteq> mq_live q \<and> mq_tail q = (if xs = [] then None else Some (last xs)) \<and>
     mq_head q = (if xs = [] then None else Some (hd xs)) \<and>
     (\<forall>i. Suc i < length xs \<longrightarrow> mq_next q (xs ! i) = (if xs ! Suc i \<in> L then Some (xs ! Suc i) else None)) \<and>
     (xs \<noteq> [] \<longrightarrow> mq_next q (last xs) = None)"

lemma inner_not_last: "distinct xs \<Longrightarrow> Suc i < length xs \<Longrightarrow> xs ! i \<noteq> last xs"
  by (cases "xs = []") (auto simp: last_conv_nth nth_eq_iff_index_eq)

lemma nth_in_tl: "Suc i < length xs \<Longrightarrow> xs ! Suc i \<in> set (tl xs)"
  by (cases xs) auto

lemma mcs_start_rep_ok:
  assumes R: "mcs_queue_rep q xs L" and "a \<notin> mq_live q"
    and "mcs_start_lock a q = Some ((locked, prev, cur), q')"
  shows "locked = (xs = []) \<and> prev = (if xs = [] then None else Some (last xs)) \<and> mcs_queue_rep q' (xs @ [cur]) L"
proof -
  have a: "cur = a" "a \<notin> set xs" using assms R by (auto simp: mcs_start_lock_def mcs_queue_rep_def Let_def)
  have e: "mq_tail q' = Some a" "mq_next q' = (mq_next q)(a := None)" "mq_live q' = insert a (mq_live q)"
    "mq_head q' = (if xs = [] then Some a else mq_head q)" "locked = (xs = [])" "prev = (if xs = [] then None else Some (last xs))"
    using assms(3) R by (auto simp: mcs_start_lock_def mcs_queue_rep_def Let_def split: if_splits)
  have "mq_next q' ((xs @ [a]) ! i) = (if (xs @ [a]) ! Suc i \<in> L then Some ((xs @ [a]) ! Suc i) else None)"
    if "Suc i < length (xs @ [a])" for i
  proof (cases "Suc i < length xs")
    case True
    then have "xs ! i \<noteq> a" using a by (metis Suc_lessD nth_mem)
    then show ?thesis using True R by (simp add: e nth_append mcs_queue_rep_def)
  next
    case False
    then have i: "Suc i = length xs" using that by simp
    then have "length xs - 1 = i" "xs \<noteq> []" by auto
    then have "xs \<noteq> []" "xs ! i = last xs" by (simp_all add: last_conv_nth)
    moreover have "last xs \<noteq> a" using a(2) \<open>xs \<noteq> []\<close> last_in_set by metis
    moreover have "a \<notin> L" using a(2) R by (cases xs) (auto simp: mcs_queue_rep_def)
    ultimately show ?thesis using i R by (simp add: e nth_append mcs_queue_rep_def)
  qed
  then show ?thesis using R a unfolding mcs_queue_rep_def e by (cases xs) (auto simp: e)
qed

lemma mcs_link_rep:
  assumes R: "mcs_queue_rep q xs L" and i: "Suc i < length xs"
  shows "mcs_queue_rep (mcs_set_next (xs ! i) (xs ! Suc i) q) xs (insert (xs ! Suc i) L)"
proof -
  have d: "distinct xs" using R by (simp add: mcs_queue_rep_def)
  show ?thesis
    using R i d nth_in_tl [OF i] inner_not_last [OF d i] by (auto simp: mcs_queue_rep_def mcs_set_next_def nth_eq_iff_index_eq)
qed

lemma mcs_unlock_rep:
  assumes R: "mcs_queue_rep q (x # xs) L" and "mcs_try_unlock x q = (ok, q')"
  shows "ok = (xs = []) \<and> mcs_queue_rep q' (if xs = [] then [] else x # xs) L"
proof (cases xs)
  case Nil
  then show ?thesis using assms by (auto simp: mcs_queue_rep_def mcs_try_unlock_def Let_def)
next
  case (Cons y ys)
  then have "last xs \<noteq> x" using R last_in_set [of xs] by (auto simp: mcs_queue_rep_def)
  then show ?thesis using assms Cons by (auto simp: mcs_queue_rep_def mcs_try_unlock_def Let_def)
qed

lemma mcs_follow_rep:
  assumes R: "mcs_queue_rep q (x # xs) L" and "mcs_try_follow_head x q = (nxt, q')"
  shows "if xs \<noteq> [] \<and> hd xs \<in> L then nxt = Some (hd xs) \<and> mcs_queue_rep q' xs (L - {hd xs})
    else nxt = None \<and> mcs_queue_rep q' (x # xs) L"
proof (cases xs)
  case Nil
  then show ?thesis using assms by (auto simp: mcs_queue_rep_def mcs_try_follow_head_def)
next
  case (Cons y ys)
  have n: "mq_next q ((x # xs) ! i) = (if (x # xs) ! Suc i \<in> L then Some ((x # xs) ! Suc i) else None)"
    if "Suc i < length (x # xs)" for i using R that by (simp add: mcs_queue_rep_def)
  have y: "mq_next q x = (if y \<in> L then Some y else None)" using n [of 0] Cons by simp
  show ?thesis
  proof (cases "y \<in> L")
    case True
    then have e: "nxt = Some y" "q' = q\<lparr>mq_head := Some y, mq_live := mq_live q - {x}\<rparr>"
      using assms y by (auto simp: mcs_try_follow_head_def mcs_queue_rep_def)
    have d: "distinct (x # xs)" "L \<subseteq> set xs" using R by (simp_all add: mcs_queue_rep_def)
    have "mq_next q (xs ! i) = (if xs ! Suc i \<in> L - {y} then Some (xs ! Suc i) else None)" if "Suc i < length xs" for i
    proof -
      have "xs ! Suc i \<noteq> y" using d Cons that by (auto simp: nth_eq_iff_index_eq [of xs "Suc i" 0, simplified])
      then show ?thesis using n [of "Suc i"] that by simp
    qed
    then show ?thesis using True R d Cons unfolding e mcs_queue_rep_def by auto
  next
    case False
    then show ?thesis using assms y Cons by (simp add: mcs_try_follow_head_def)
  qed
qed

interpretation mcs_sync: sync_queue mcs_ops "\<lambda>a q. a \<notin> mq_live q" mcs_queue_rep
proof
  fix q xs L i e locked prev cur q' x ok nxt
  show "mcs_queue_rep q xs L \<Longrightarrow> distinct xs \<and> L \<subseteq> set (tl xs)" by (simp add: mcs_queue_rep_def)
  show "mcs_queue_rep q xs L \<Longrightarrow> e \<notin> mq_live q \<Longrightarrow> sq_start_lock mcs_ops e q = Some ((locked, prev, cur), q') \<Longrightarrow>
      locked = (xs = []) \<and> prev = (if xs = [] then None else Some (last xs)) \<and> mcs_queue_rep q' (xs @ [cur]) L"
    by (rule mcs_start_rep_ok) (simp_all add: mcs_ops_def)
  show "mcs_queue_rep q xs L \<Longrightarrow> Suc i < length xs \<Longrightarrow> xs ! Suc i \<notin> L \<Longrightarrow>
      mcs_queue_rep (sq_set_next mcs_ops (xs ! i) (xs ! Suc i) q) xs (insert (xs ! Suc i) L)"
    using mcs_link_rep by (simp add: mcs_ops_def)
  show "mcs_queue_rep q (x # xs) L \<Longrightarrow> sq_get_head mcs_ops q = Some x" by (simp add: mcs_ops_def mcs_queue_rep_def)
  show "mcs_queue_rep q (x # xs) L \<Longrightarrow> sq_try_unlock mcs_ops x q = (ok, q') \<Longrightarrow>
      ok = (xs = []) \<and> mcs_queue_rep q' (if xs = [] then [] else x # xs) L"
    by (rule mcs_unlock_rep) (simp_all add: mcs_ops_def)
  show "mcs_queue_rep q (x # xs) L \<Longrightarrow> sq_try_follow_head mcs_ops x q = (nxt, q') \<Longrightarrow>
      if xs \<noteq> [] \<and> hd xs \<in> L then nxt = Some (hd xs) \<and> mcs_queue_rep q' xs (L - {hd xs})
      else nxt = None \<and> mcs_queue_rep q' (x # xs) L"
    by (rule mcs_follow_rep) (simp_all add: mcs_ops_def)
qed

section \<open>The ring buffer\<close>

text \<open>
  \<open>tail\<close> counts the slots claimed, shifted left by one, its low bit (\<open>FREE\<close>) says that nobody holds the lock.
  Indices are unbounded here (the code's have 64 bits, \<open>tail\<close>'s 63); a slot is named by its place in the array.
\<close>

record ring_queue =
  rb_size :: nat
  rb_head :: nat
  rb_tail :: nat
  rb_ready :: "nat \<Rightarrow> bool"

definition ring_default :: "nat \<Rightarrow> ring_queue option" where
  "ring_default n = (if \<exists>k < n. n = 2 ^ k then Some \<lparr>rb_size = n, rb_head = 0, rb_tail = 1, rb_ready = (\<lambda>_. False)\<rparr> else None)"

definition slot_node :: "ring_queue \<Rightarrow> nat \<Rightarrow> nat" where
  "slot_node q i = i mod rb_size q"

text \<open>\<open>start_lock\<close>, at the exchange that succeeds; \<open>head\<close> is what it read of \<open>rb_head\<close>, perhaps some time ago.\<close>

definition ring_start_lock :: "nat \<Rightarrow> ring_queue \<Rightarrow> ((bool \<times> nat option \<times> nat) \<times> ring_queue) option" where
  "ring_start_lock head q =
     (let idx = rb_tail q div 2; is_locked = odd (rb_tail q)
      in if \<not> is_locked \<and> rb_size q \<le> idx - head then None
         else let q = q\<lparr>rb_tail := (idx + 1) * 2\<rparr>
              in if is_locked then Some ((True, None, slot_node q idx), q\<lparr>rb_head := idx\<rparr>)
                 else Some ((False, Some (slot_node q (idx - 1)), slot_node q idx), q))"

definition ring_set_next :: "nat \<Rightarrow> nat \<Rightarrow> ring_queue \<Rightarrow> ring_queue" where
  "ring_set_next prev cur q = q\<lparr>rb_ready := (rb_ready q)(cur := True)\<rparr>"

definition ring_get_head :: "ring_queue \<Rightarrow> nat option" where
  "ring_get_head q = Some (slot_node q (rb_head q))"

definition ring_try_unlock :: "nat \<Rightarrow> ring_queue \<Rightarrow> bool \<times> ring_queue" where
  "ring_try_unlock h q =
     (let tail = (rb_head q + 1) * 2 in if rb_tail q = tail then (True, q\<lparr>rb_tail := tail + 1\<rparr>) else (False, q))"

definition ring_try_follow_head :: "nat \<Rightarrow> ring_queue \<Rightarrow> nat option \<times> ring_queue" where
  "ring_try_follow_head h q =
     (let next_idx = rb_head q + 1; slot = slot_node q next_idx
      in if rb_ready q slot then (Some slot, q\<lparr>rb_ready := (rb_ready q)(slot := False), rb_head := next_idx\<rparr>)
         else (None, q))"

definition ring_ops :: "(ring_queue, nat) sync_ops" where
  "ring_ops = \<lparr>sq_start_lock = ring_start_lock, sq_set_next = ring_set_next, sq_get_head = ring_get_head,
     sq_try_unlock = ring_try_unlock, sq_try_follow_head = ring_try_follow_head\<rparr>"

text \<open>The slots from \<open>head\<close> up to \<open>tail\<close> are in use, at most as many as there are.\<close>

definition ring_rep :: "ring_queue \<Rightarrow> nat list \<Rightarrow> nat set \<Rightarrow> bool" where
  "ring_rep q xs L \<longleftrightarrow>
     0 < rb_size q \<and> L \<subseteq> set (tl xs) \<and> (\<forall>i. rb_ready q i \<longleftrightarrow> i \<in> L) \<and>
     (if odd (rb_tail q) then xs = [] \<and> rb_head q \<le> rb_tail q div 2
      else rb_head q < rb_tail q div 2 \<and> rb_tail q div 2 - rb_head q \<le> rb_size q \<and>
           xs = map (slot_node q) [rb_head q..<rb_tail q div 2])"

lemma distinct_slots:
  assumes "b - a \<le> n"
  shows "distinct (map (\<lambda>i. i mod n) [a..<b])"
proof -
  have "i = j" if "i < b" "a \<le> i" "j < b" "a \<le> j" "i mod n = j mod n" "j \<le> i" for i j :: nat
  proof -
    have "n dvd i - j" using that mod_eq_dvd_iff_nat [of j i n] by simp
    moreover have "i - j < n" using that assms by linarith
    ultimately show ?thesis using that(6) by (metis dvd_imp_le diff_is_0_eq' le_antisym not_less zero_less_diff)
  qed
  then show ?thesis unfolding distinct_map by (auto simp: inj_on_def) (metis nat_le_linear)
qed

lemma ring_repD:
  assumes "ring_rep q xs L" and "xs \<noteq> []"
  shows "even (rb_tail q)" and "rb_head q < rb_tail q div 2" and "rb_tail q div 2 - rb_head q \<le> rb_size q"
    and "xs = slot_node q (rb_head q) # map (slot_node q) [Suc (rb_head q)..<rb_tail q div 2]"
  using assms by (auto simp: ring_rep_def upt_conv_Cons split: if_splits)

lemma ring_distinct: "ring_rep q xs L \<Longrightarrow> distinct xs"
  using distinct_slots [of "rb_tail q div 2" "rb_head q" "rb_size q"]
  by (auto simp: ring_rep_def slot_node_def [abs_def] split: if_splits)

lemma ring_start_rep:
  assumes R: "ring_rep q xs L" and "h \<le> rb_head q" and s: "ring_start_lock h q = Some ((locked, prev, cur), q')"
  shows "locked = (xs = []) \<and> prev = (if xs = [] then None else Some (last xs)) \<and> ring_rep q' (xs @ [cur]) L"
proof (cases "odd (rb_tail q)")
  case True
  let ?i = "rb_tail q div 2"
  have xs: "xs = []" "L = {}" "0 < rb_size q" using R True by (auto simp: ring_rep_def)
  have e: "locked" "prev = None" "cur = slot_node q ?i" "q' = q\<lparr>rb_tail := (?i + 1) * 2, rb_head := ?i\<rparr>"
    using s True by (auto simp: ring_start_lock_def Let_def slot_node_def)
  show ?thesis using R xs e by (auto simp: ring_rep_def slot_node_def)
next
  case False
  let ?i = "rb_tail q div 2"
  have r: "rb_head q < ?i" "xs = map (slot_node q) [rb_head q..<?i]" "xs \<noteq> []" using R False by (auto simp: ring_rep_def)
  have e: "\<not> locked" "prev = Some (slot_node q (?i - 1))" "cur = slot_node q ?i" "q' = q\<lparr>rb_tail := (?i + 1) * 2\<rparr>"
    "?i - h < rb_size q"
    using s False by (auto simp: ring_start_lock_def Let_def slot_node_def split: if_splits)
  have l: "last xs = slot_node q (?i - 1)" using r by (simp add: last_map)
  have "map (slot_node q') [rb_head q..<?i + 1] = xs @ [cur]"
    using r e(3) by (simp add: e(4) slot_node_def [abs_def])
  moreover have "set (tl xs) \<subseteq> set (tl (xs @ [cur]))" using r(3) by (cases xs) auto
  ultimately show ?thesis
    using R False r e(1,2,5) l assms(2) unfolding ring_rep_def e(4) by (auto simp: slot_node_def [abs_def])
qed

lemma ring_unlock_rep:
  assumes R: "ring_rep q (x # xs) L" and "ring_try_unlock x q = (ok, q')"
  shows "ok = (xs = []) \<and> ring_rep q' (if xs = [] then [] else x # xs) L"
proof -
  note D = ring_repD [OF R]
  have "xs = [] \<longleftrightarrow> rb_tail q div 2 = rb_head q + 1" using D(2,4) by auto
  moreover have "rb_tail q = (rb_head q + 1) * 2 \<longleftrightarrow> rb_tail q div 2 = rb_head q + 1" using D(1) by auto
  ultimately show ?thesis
    using assms D(2) by (auto simp: ring_rep_def ring_try_unlock_def Let_def split: if_splits)
qed

lemma ring_follow_rep:
  assumes R: "ring_rep q (x # xs) L" and f: "ring_try_follow_head x q = (nxt, q')"
  shows "if xs \<noteq> [] \<and> hd xs \<in> L then nxt = Some (hd xs) \<and> ring_rep q' xs (L - {hd xs})
    else nxt = None \<and> ring_rep q' (x # xs) L"
proof -
  note D = ring_repD [OF R, simplified]
  have rd: "rb_ready q i \<longleftrightarrow> i \<in> L" "L \<subseteq> set xs" for i using R by (auto simp: ring_rep_def)
  let ?n = "slot_node q (rb_head q + 1)"
  show ?thesis
  proof (cases "xs = []")
    case True
    then show ?thesis using R f rd by (auto simp: ring_try_follow_head_def Let_def)
  next
    case False
    then have h: "hd xs = ?n" "Suc (rb_head q) < rb_tail q div 2" using D(2,4) by (auto simp: upt_conv_Cons)
    have tl: "L - {hd xs} \<subseteq> set (tl xs)" using rd(2) False by (cases xs) auto
    show ?thesis
    proof (cases "hd xs \<in> L")
      case True
      then have "nxt = Some (hd xs)" "q' = q\<lparr>rb_ready := (rb_ready q)(?n := False), rb_head := rb_head q + 1\<rparr>"
        using f rd h by (auto simp: ring_try_follow_head_def Let_def)
      then show ?thesis
        using True False R D h rd tl by (auto simp: ring_rep_def slot_node_def [abs_def])
    qed (use R f rd h False in \<open>auto simp: ring_try_follow_head_def Let_def\<close>)
  qed
qed

interpretation ring_sync: sync_queue ring_ops "\<lambda>h q. h \<le> rb_head q" ring_rep
proof
  fix q xs L i e locked prev cur q' x ok nxt
  show "ring_rep q xs L \<Longrightarrow> distinct xs \<and> L \<subseteq> set (tl xs)" using ring_distinct by (simp add: ring_rep_def)
  show "ring_rep q xs L \<Longrightarrow> e \<le> rb_head q \<Longrightarrow> sq_start_lock ring_ops e q = Some ((locked, prev, cur), q') \<Longrightarrow>
      locked = (xs = []) \<and> prev = (if xs = [] then None else Some (last xs)) \<and> ring_rep q' (xs @ [cur]) L"
    by (rule ring_start_rep) (simp_all add: ring_ops_def)
  show "ring_rep q xs L \<Longrightarrow> Suc i < length xs \<Longrightarrow> xs ! Suc i \<notin> L \<Longrightarrow>
      ring_rep (sq_set_next ring_ops (xs ! i) (xs ! Suc i) q) xs (insert (xs ! Suc i) L)"
    using nth_in_tl [of i xs] by (auto simp: ring_ops_def ring_rep_def ring_set_next_def slot_node_def [abs_def] split: if_splits)
  show "ring_rep q (x # xs) L \<Longrightarrow> sq_get_head ring_ops q = Some x"
    using ring_repD(4) [of q "x # xs" L] by (simp add: ring_ops_def ring_get_head_def)
  show "ring_rep q (x # xs) L \<Longrightarrow> sq_try_unlock ring_ops x q = (ok, q') \<Longrightarrow>
      ok = (xs = []) \<and> ring_rep q' (if xs = [] then [] else x # xs) L"
    by (rule ring_unlock_rep) (simp_all add: ring_ops_def)
  show "ring_rep q (x # xs) L \<Longrightarrow> sq_try_follow_head ring_ops x q = (nxt, q') \<Longrightarrow>
      if xs \<noteq> [] \<and> hd xs \<in> L then nxt = Some (hd xs) \<and> ring_rep q' xs (L - {hd xs})
      else nxt = None \<and> ring_rep q' (x # xs) L"
    by (rule ring_follow_rep) (simp_all add: ring_ops_def)
qed

section \<open>What the queues promise\<close>

lemma mcs_default_rep: "mcs_queue_rep mcs_queue_default [] {}"
  by (simp add: mcs_queue_rep_def mcs_queue_default_def)

lemma ring_default_rep: "ring_default n = Some q \<Longrightarrow> ring_rep q [] {}"
  by (auto simp: ring_default_def ring_rep_def split: if_splits)

text \<open>
  C24: both queues are fair locks, whatever their clients do: the nodes that became the holder's are the first of those
  that arrived, in that order, the others still wait behind it, no two of them share a slot, and the head is
  the holder's.
\<close>

theorem sync_queues_fifo:
  "(sync_client mcs_ops (\<lambda>a q. a \<notin> mq_live q) ops mcs_queue_default = (came, held, xs, L, q) \<longrightarrow>
      came = held @ tl xs \<and> distinct xs \<and> (xs = [] \<or> mq_head q = Some (hd xs))) \<and>
   (ring_default n = Some r0 \<and> sync_client ring_ops (\<lambda>h q. h \<le> rb_head q) ops' r0 = (came', held', ys, M, r) \<longrightarrow>
      came' = held' @ tl ys \<and> distinct ys \<and> (ys = [] \<or> ring_get_head r = Some (hd ys)))"
proof (intro conjI impI)
  assume c: "sync_client mcs_ops (\<lambda>a q. a \<notin> mq_live q) ops mcs_queue_default = (came, held, xs, L, q)"
  note f = mcs_sync.client_fifo [OF c mcs_default_rep]
  show "came = held @ tl xs" "distinct xs" using f by blast+
  have "mq_head q = Some (hd xs)" if "xs \<noteq> []" using f that by (simp add: mcs_ops_def)
  then show "xs = [] \<or> mq_head q = Some (hd xs)" by blast
next
  assume r: "ring_default n = Some r0 \<and> sync_client ring_ops (\<lambda>h q. h \<le> rb_head q) ops' r0 = (came', held', ys, M, r)"
  note f = ring_sync.client_fifo [OF conjunct2 [OF r] ring_default_rep [OF conjunct1 [OF r]]]
  show "came' = held' @ tl ys" "distinct ys" using f by blast+
  have "ring_get_head r = Some (hd ys)" if "ys \<noteq> []" using f that by (simp add: ring_ops_def)
  then show "ys = [] \<or> ring_get_head r = Some (hd ys)" by blast
qed

text \<open>
  \<open>McsQueue\<close> never frees the entry of a holder that releases the lock with nobody behind it: after any number of uncontended
  calls the queue is empty and all their entries are still allocated, with no pointer to them left.
\<close>

lemma mcs_queue_leaks:
  assumes "distinct addrs"
  shows "\<exists>q. sync_client mcs_ops (\<lambda>a q. a \<notin> mq_live q) (concat (map (\<lambda>a. [Arrive a, Release]) addrs)) mcs_queue_default =
       (addrs, addrs, [], {}, q) \<and> mq_tail q = None \<and> mq_head q = None \<and> mq_live q = set addrs"
  using assms
proof (induction addrs rule: rev_induct)
  case Nil
  then show ?case by (simp add: sync_client_def mcs_queue_default_def)
next
  case (snoc a as)
  then obtain q where q: "sync_client mcs_ops (\<lambda>a q. a \<notin> mq_live q) (concat (map (\<lambda>a. [Arrive a, Release]) as)) mcs_queue_default =
       (as, as, [], {}, q)" "mq_tail q = None" "mq_head q = None" "mq_live q = set as" by auto
  then show ?case
    using snoc.prems
    by (auto simp: sync_client_def mcs_ops_def mcs_start_lock_def mcs_try_unlock_def Let_def)
qed

lemma mcs_queue_leaks_example:
  "\<exists>q. sync_client mcs_ops (\<lambda>a q. a \<notin> mq_live q) [Arrive 1, Release, Arrive 2, Release] mcs_queue_default =
     ([1, 2], [1, 2], [], {}, q) \<and> mq_live q = {1, 2}"
  using mcs_queue_leaks [of "[1, 2]"] by auto

theorem sync_queues_fifo_witness:
  "case sync_client ring_ops (\<lambda>h q. h \<le> rb_head q) [Arrive 0, Arrive 0, Publish 0, Arrive 0, Follow]
      \<lparr>rb_size = 2, rb_head = 0, rb_tail = 1, rb_ready = (\<lambda>_. False)\<rparr> of
     (came, held, xs, L, q) \<Rightarrow> came = [0, 1] \<and> held = [0, 1] \<and> xs = [1] \<and> came = held @ tl xs"
proof -
  let ?q = "\<lparr>rb_size = 2, rb_head = 0, rb_tail = 1, rb_ready = (\<lambda>_. False)\<rparr>"
  obtain came held xs L q where
    c: "sync_client ring_ops (\<lambda>h q. h \<le> rb_head q) [Arrive 0, Arrive 0, Publish 0, Arrive 0, Follow] ?q = (came, held, xs, L, q)"
    by (metis prod.exhaust)
  have d: "ring_default 2 = Some ?q" by (auto simp: ring_default_def intro: exI [of _ 1])
  have e: "came = [0, 1] \<and> held = [0, 1] \<and> xs = [1]"
    using c by (simp add: sync_client_def ring_ops_def ring_start_lock_def ring_set_next_def ring_get_head_def
      ring_try_unlock_def ring_try_follow_head_def slot_node_def Let_def) auto
  have "came = held @ tl xs" using sync_queues_fifo [where n = 2 and ?r0.0 = ?q and came' = came and held' = held and ys = xs and M = L and r = q] c d by blast
  then show ?thesis using c e by simp
qed

end
