(* ===== verification/Delegators.thy ===== *)
theory Delegators
  imports Cmpth_Prelude
begin

text \<open>
  The delegator with a consumer thread (\<open>stackful/sync/delegator.rs\<close>), over the contract of its queue
  (\<open>Sync_Queue\<close>): callers that find the lock free run their request themselves, the others leave it in their
  node and sleep; whoever releases the lock passes it to the next caller that wants the lock, or to the
  consumer thread, which runs the requests.  Every access to the queue, every wake-up and every run of the
  consumer's code is a step; what only the holder of the lock touches (\<open>is_executed\<close>, the queue's head) is
  read with the access beside it.  The end of a delegator (\<open>Drop\<close>) is not modelled.
\<close>

section \<open>The operations\<close>

text \<open>
  Where a calling thread is.  In \<open>unlock\<close> and \<open>unlock_and_wait\<close> (which have the flag \<open>True\<close>: the
  thread's own call is deferred and it ends asleep), with the head read.
\<close>

datatype deleg_pc =
    E_Out
  | E_Enter call_kind
  | E_Linking call_kind nat      \<comment> \<open>in the callback of \<open>wait_with\<close>, about to publish its node\<close>
  | E_Asleep call_kind
  | E_Exec
  | E_Body
  | E_Unlock bool
  | E_Try bool nat               \<comment> \<open>about to try to unlock\<close>
  | E_Follow bool nat            \<comment> \<open>about to look for a successor\<close>
  | E_Hand bool nat              \<comment> \<open>has made the node of a lock waiter the head, about to wake it\<close>
  | E_Wake bool                  \<comment> \<open>about to wake the consumer\<close>
  | E_Ret

datatype consumer_pc =
    C_Top                        \<comment> \<open>at the start of \<open>consume\<close>\<close>
  | C_At bool nat                \<comment> \<open>with its \<open>is_executed\<close> and head\<close>
  | C_Decide nat "nat option"    \<comment> \<open>with the caller that \<open>progress\<close> completed\<close>
  | C_Sleep nat                  \<comment> \<open>suspending, about to try to unlock\<close>
  | C_Parked

record delegator =
  dl_queue :: "nat list"         \<comment> \<open>the nodes, the holder's first; none if the lock is free\<close>
  dl_linked :: "nat set"
  dl_req :: "nat \<Rightarrow> nat option"   \<comment> \<open>a node's request, named by its thread\<close>
  dl_sth :: "nat \<Rightarrow> nat option"   \<comment> \<open>who sleeps in a node, for the lock\<close>
  dl_owner :: "nat \<Rightarrow> nat"        \<comment> \<open>the thread that enqueued a node\<close>
  dl_executed :: bool
  dl_started :: bool
  dl_deferred :: "nat set"       \<comment> \<open>the consumer's deferred calls\<close>
  dl_pc :: "nat \<Rightarrow> deleg_pc"
  dl_con :: consumer_pc
  dl_kind :: "nat \<Rightarrow> call_kind"
  dl_runs :: "nat \<Rightarrow> nat"
  dl_done :: "nat \<Rightarrow> bool"
  dl_order :: "nat list"         \<comment> \<open>the callers in the order of their \<open>start_lock\<close>\<close>
  dl_served :: "nat list"        \<comment> \<open>the callers in the order they got the lock or were run\<close>

text \<open>\<open>new\<close> and \<open>start\<close>: the lock is taken on behalf of the consumer, which the first call spawns.\<close>

definition deleg_start :: delegator where
  "deleg_start = \<lparr>dl_queue = [0], dl_linked = {}, dl_req = (\<lambda>_. None), dl_sth = (\<lambda>_. None), dl_owner = (\<lambda>_. 0),
     dl_executed = True, dl_started = False, dl_deferred = {}, dl_pc = (\<lambda>_. E_Out), dl_con = C_Top,
     dl_kind = (\<lambda>_. Call), dl_runs = (\<lambda>_. 0), dl_done = (\<lambda>_. False), dl_order = [], dl_served = []\<rparr>"

abbreviation egoto :: "nat \<Rightarrow> deleg_pc \<Rightarrow> delegator \<Rightarrow> delegator" where
  "egoto t pc s \<equiv> s\<lparr>dl_pc := (dl_pc s)(t := pc)\<rparr>"

definition ensure_consumer_started :: "nat \<Rightarrow> call_kind \<Rightarrow> delegator \<Rightarrow> delegator" where
  "ensure_consumer_started t k s = egoto t (E_Enter k) (s\<lparr>dl_started := True\<rparr>)"

text \<open>
  \<open>start_lock\<close> of a call or of \<open>lock_wait\<close>, with the node \<open>n\<close>.  A node that gets the lock at once keeps
  whatever its last user left in it.
\<close>

definition deleg_enqueue :: "nat \<Rightarrow> call_kind \<Rightarrow> nat \<Rightarrow> delegator \<Rightarrow> delegator" where
  "deleg_enqueue t k n s =
     (let free = (dl_queue s = []);
          s = s\<lparr>dl_queue := dl_queue s @ [n], dl_kind := (dl_kind s)(t := k), dl_runs := (dl_runs s)(t := 0),
                dl_done := (dl_done s)(t := False), dl_order := dl_order s @ [t]\<rparr>
      in if free then egoto t (case k of Call \<Rightarrow> E_Exec | Lock \<Rightarrow> E_Body) (s\<lparr>dl_served := dl_served s @ [t]\<rparr>)
         else egoto t (E_Linking k n)
                (s\<lparr>dl_owner := (dl_owner s)(n := t), dl_sth := (dl_sth s)(n := None),
                   dl_req := (dl_req s)(n := (case k of Call \<Rightarrow> Some t | Lock \<Rightarrow> None))\<rparr>))"

text \<open>Asleep, in the call's slot or in the node, and then published.\<close>

definition deleg_link :: "nat \<Rightarrow> call_kind \<Rightarrow> nat \<Rightarrow> delegator \<Rightarrow> delegator" where
  "deleg_link t k n s =
     egoto t (E_Asleep k)
       (s\<lparr>dl_sth := (case k of Call \<Rightarrow> dl_sth s | Lock \<Rightarrow> (dl_sth s)(n := Some t)), dl_linked := insert n (dl_linked s)\<rparr>)"

definition deleg_execute :: "nat \<Rightarrow> bool \<Rightarrow> delegator \<Rightarrow> delegator" where
  "deleg_execute t ready s =
     (let s = s\<lparr>dl_runs := (dl_runs s)(t := dl_runs s t + 1)\<rparr>
      in if ready then s\<lparr>dl_done := (dl_done s)(t := True)\<rparr> else s\<lparr>dl_deferred := insert t (dl_deferred s)\<rparr>)"

definition deleg_is_active :: "delegator \<Rightarrow> bool" where
  "deleg_is_active s \<longleftrightarrow> dl_deferred s \<noteq> {}"

definition deleg_unlock :: "nat \<Rightarrow> bool \<Rightarrow> delegator \<Rightarrow> delegator" where
  "deleg_unlock t wait s =
     (let s = s\<lparr>dl_executed := True\<rparr>; head = hd (dl_queue s)
      in egoto t (if deleg_is_active s then E_Follow wait head else E_Try wait head) s)"

text \<open>Where \<open>unlock\<close> and \<open>unlock_and_wait\<close> end.\<close>

definition unlocked :: "bool \<Rightarrow> deleg_pc" where
  "unlocked wait = (if wait then E_Asleep Call else E_Ret)"

definition deleg_try_unlock :: "nat \<Rightarrow> bool \<Rightarrow> nat \<Rightarrow> delegator \<Rightarrow> delegator" where
  "deleg_try_unlock t wait head s =
     (if dl_queue s = [head] then egoto t (unlocked wait) (s\<lparr>dl_queue := []\<rparr>) else egoto t (E_Follow wait head) s)"

text \<open>\<open>try_follow_head\<close>: the successor, if it has published itself, becomes the head.\<close>

definition follow_head :: "delegator \<Rightarrow> (nat \<times> delegator) option" where
  "follow_head s =
     (case dl_queue s of
        h # n # ns \<Rightarrow> if n \<in> dl_linked s then Some (n, s\<lparr>dl_queue := n # ns, dl_linked := dl_linked s - {n}\<rparr>) else None
      | _ \<Rightarrow> None)"

definition deleg_follow :: "nat \<Rightarrow> bool \<Rightarrow> delegator \<Rightarrow> delegator" where
  "deleg_follow t wait s =
     (case follow_head s of
        None \<Rightarrow> egoto t (E_Wake wait) s
      | Some (n, s) \<Rightarrow> egoto t (if dl_sth s n \<noteq> None then E_Hand wait n else E_Wake wait) (s\<lparr>dl_executed := False\<rparr>))"

text \<open>The thread asleep in the node \<open>n\<close> gets the lock.\<close>

definition wake_locker :: "nat \<Rightarrow> delegator \<Rightarrow> delegator" where
  "wake_locker n s =
     (case dl_sth s n of
        None \<Rightarrow> s
      | Some u \<Rightarrow> egoto u E_Body (s\<lparr>dl_sth := (dl_sth s)(n := None), dl_served := dl_served s @ [u]\<rparr>))"

definition deleg_hand :: "nat \<Rightarrow> bool \<Rightarrow> nat \<Rightarrow> delegator \<Rightarrow> delegator" where
  "deleg_hand t wait n s = wake_locker n (egoto t (unlocked wait) s)"

definition notify_consumer :: "delegator \<Rightarrow> delegator" where
  "notify_consumer s = (case dl_con s of C_Parked \<Rightarrow> s\<lparr>dl_con := C_Top\<rparr> | _ \<Rightarrow> s)"

text \<open>The consumer: \<open>consume\<close>, up to what it finds; a request run; a waiter given the lock; \<open>progress\<close>; sleep.\<close>

definition consume_begin :: "delegator \<Rightarrow> delegator" where
  "consume_begin s =
     (if dl_executed s
      then (case follow_head s of
              Some (n, s) \<Rightarrow> s\<lparr>dl_con := C_At False n\<rparr>
            | None \<Rightarrow> s\<lparr>dl_con := C_At True (hd (dl_queue s))\<rparr>)
      else s\<lparr>dl_con := C_At False (hd (dl_queue s))\<rparr>)"

definition consume_node :: "nat \<Rightarrow> bool \<Rightarrow> delegator \<Rightarrow> delegator" where
  "consume_node head ready s =
     (case dl_req s head of
        Some t \<Rightarrow>
          (let s = (deleg_execute t ready s)\<lparr>dl_executed := True, dl_con := C_Top, dl_served := dl_served s @ [t]\<rparr>
           in if ready then egoto t E_Ret s else s)
      | None \<Rightarrow> wake_locker head (s\<lparr>dl_con := C_Parked\<rparr>))"

definition consume_progress :: "nat \<Rightarrow> nat option \<Rightarrow> delegator \<Rightarrow> delegator" where
  "consume_progress head r s =
     (let s = (case r of None \<Rightarrow> s | Some t \<Rightarrow> s\<lparr>dl_deferred := dl_deferred s - {t}, dl_done := (dl_done s)(t := True)\<rparr>)
      in s\<lparr>dl_con := C_Decide head r, dl_executed := True\<rparr>)"

definition consume_decide :: "nat \<Rightarrow> nat option \<Rightarrow> delegator \<Rightarrow> delegator" where
  "consume_decide head awake s =
     (let s = s\<lparr>dl_con := (if deleg_is_active s then C_Top else C_Sleep head)\<rparr>
      in case awake of None \<Rightarrow> s | Some t \<Rightarrow> egoto t E_Ret s)"

definition consume_sleep :: "nat \<Rightarrow> delegator \<Rightarrow> delegator" where
  "consume_sleep head s =
     (if dl_queue s = [head] then s\<lparr>dl_queue := [], dl_con := C_Parked\<rparr> else s\<lparr>dl_con := C_Top\<rparr>)"

inductive deleg_step :: "delegator \<Rightarrow> delegator \<Rightarrow> bool" where
  call: "dl_pc s t = E_Out \<Longrightarrow> deleg_step s (ensure_consumer_started t k s)"
| start_lock: "dl_pc s t = E_Enter k \<Longrightarrow> n \<notin> set (dl_queue s) \<Longrightarrow> deleg_step s (deleg_enqueue t k n s)"
| link: "dl_pc s t = E_Linking k n \<Longrightarrow> deleg_step s (deleg_link t k n s)"
| execute: "dl_pc s t = E_Exec \<Longrightarrow> deleg_step s (egoto t (E_Unlock (\<not> ready)) (deleg_execute t ready s))"
| body: "dl_pc s t = E_Body \<Longrightarrow> deleg_step s (egoto t (E_Unlock False) s)"
| unlock: "dl_pc s t = E_Unlock w \<Longrightarrow> deleg_step s (deleg_unlock t w s)"
| try_unlock: "dl_pc s t = E_Try w h \<Longrightarrow> deleg_step s (deleg_try_unlock t w h s)"
| follow: "dl_pc s t = E_Follow w h \<Longrightarrow> deleg_step s (deleg_follow t w s)"
| hand: "dl_pc s t = E_Hand w n \<Longrightarrow> deleg_step s (deleg_hand t w n s)"
| wake: "dl_pc s t = E_Wake w \<Longrightarrow> deleg_step s (notify_consumer (egoto t (unlocked w) s))"
| return: "dl_pc s t = E_Ret \<Longrightarrow> deleg_step s (egoto t E_Out s)"
| consume: "dl_con s = C_Top \<Longrightarrow> dl_started s \<Longrightarrow> deleg_step s (consume_begin s)"
| node: "dl_con s = C_At False h \<Longrightarrow> deleg_step s (consume_node h ready s)"
| progress: "dl_con s = C_At True h \<Longrightarrow> r = None \<or> (\<exists>t \<in> dl_deferred s. r = Some t) \<Longrightarrow> deleg_step s (consume_progress h r s)"
| decide: "dl_con s = C_Decide h awake \<Longrightarrow> deleg_step s (consume_decide h awake s)"
| sleep: "dl_con s = C_Sleep h \<Longrightarrow> deleg_step s (consume_sleep h s)"

inductive deleg_reachable :: "delegator \<Rightarrow> bool" where
  deleg_init: "deleg_reachable deleg_start"
| deleg_next: "deleg_reachable s \<Longrightarrow> deleg_step s s' \<Longrightarrow> deleg_reachable s'"

section \<open>What holds in every reachable state\<close>

text \<open>
  The holder of the lock, if it is taken, is the consumer (\<open>None\<close>) or a thread.  The head of the queue is \<open>fresh\<close> while it
  has been followed to but not served yet; the callers that wait are the owners of the fresh head and of the
  nodes behind the head.
\<close>

fun e_holding :: "deleg_pc \<Rightarrow> bool" where
  "e_holding E_Exec = True" | "e_holding E_Body = True" | "e_holding (E_Unlock _) = True" | "e_holding (E_Try _ _) = True"
| "e_holding (E_Follow _ _) = True" | "e_holding (E_Hand _ _) = True" | "e_holding (E_Wake _) = True" | "e_holding _ = False"

fun c_fresh :: "consumer_pc \<Rightarrow> bool \<Rightarrow> bool" where
  "c_fresh C_Top ex = (\<not> ex)" | "c_fresh (C_At b _) ex = (\<not> b)" | "c_fresh _ ex = False"

fun e_fresh :: "deleg_pc \<Rightarrow> bool \<Rightarrow> bool" where
  "e_fresh (E_Hand _ _) ex = True" | "e_fresh (E_Wake _) ex = (\<not> ex)" | "e_fresh _ ex = False"

definition fresh_head :: "delegator \<Rightarrow> nat option \<Rightarrow> bool" where
  "fresh_head s a = (case a of None \<Rightarrow> c_fresh (dl_con s) (dl_executed s) | Some h \<Rightarrow> e_fresh (dl_pc s h) (dl_executed s))"

definition waiting :: "delegator \<Rightarrow> nat option \<Rightarrow> nat list" where
  "waiting s a = (if fresh_head s a then dl_queue s else tl (dl_queue s))"

text \<open>A waiting node: its owner sleeps, with its request in the node or itself parked there; or it is not linked yet.\<close>

definition node_ok :: "delegator \<Rightarrow> nat \<Rightarrow> bool" where
  "node_ok s n \<longleftrightarrow>
     (let t = dl_owner s n; k = dl_kind s t
      in dl_req s n = (case k of Call \<Rightarrow> Some t | Lock \<Rightarrow> None) \<and>
         (if n \<in> dl_linked s \<or> n \<notin> set (tl (dl_queue s))
          then dl_pc s t = E_Asleep k \<and> dl_sth s n = (case k of Call \<Rightarrow> None | Lock \<Rightarrow> Some t)
          else dl_pc s t = E_Linking k n \<and> dl_sth s n = None))"

fun caller_ok :: "deleg_pc \<Rightarrow> call_kind \<Rightarrow> nat \<Rightarrow> bool \<Rightarrow> bool \<Rightarrow> bool \<Rightarrow> bool \<Rightarrow> bool" where
  "caller_ok E_Out k runs done df waits wk \<longleftrightarrow> \<not> df \<and> \<not> waits \<and> \<not> wk"
| "caller_ok (E_Enter k') k runs done df waits wk \<longleftrightarrow> \<not> df \<and> \<not> waits \<and> \<not> wk"
| "caller_ok (E_Linking k' n) k runs done df waits wk \<longleftrightarrow> k' = k \<and> waits \<and> runs = 0 \<and> \<not> done \<and> \<not> df \<and> \<not> wk"
| "caller_ok (E_Asleep k') k runs done df waits wk \<longleftrightarrow> k' = k \<and>
     (if waits then runs = 0 \<and> \<not> done \<and> \<not> df \<and> \<not> wk else k = Call \<and> runs = 1 \<and> df = (\<not> done) \<and> wk = done)"
| "caller_ok E_Exec k runs done df waits wk \<longleftrightarrow> k = Call \<and> runs = 0 \<and> \<not> done \<and> \<not> df \<and> \<not> waits \<and> \<not> wk"
| "caller_ok E_Body k runs done df waits wk \<longleftrightarrow> k = Lock \<and> \<not> df \<and> \<not> waits \<and> \<not> wk"
| "caller_ok (E_Unlock w) k runs done df waits wk \<longleftrightarrow> \<not> waits \<and> \<not> wk \<and> (if k = Call then runs = 1 \<and> df = w \<and> done = (\<not> w) else \<not> df \<and> \<not> w)"
| "caller_ok (E_Try w h) k runs done df waits wk \<longleftrightarrow> \<not> waits \<and> \<not> wk \<and> (if k = Call then runs = 1 \<and> df = w \<and> done = (\<not> w) else \<not> df \<and> \<not> w)"
| "caller_ok (E_Follow w h) k runs done df waits wk \<longleftrightarrow> \<not> waits \<and> \<not> wk \<and> (if k = Call then runs = 1 \<and> df = w \<and> done = (\<not> w) else \<not> df \<and> \<not> w)"
| "caller_ok (E_Hand w n) k runs done df waits wk \<longleftrightarrow> \<not> waits \<and> \<not> wk \<and> (if k = Call then runs = 1 \<and> df = w \<and> done = (\<not> w) else \<not> df \<and> \<not> w)"
| "caller_ok (E_Wake w) k runs done df waits wk \<longleftrightarrow> \<not> waits \<and> \<not> wk \<and> (if k = Call then runs = 1 \<and> df = w \<and> done = (\<not> w) else \<not> df \<and> \<not> w)"
| "caller_ok E_Ret k runs done df waits wk \<longleftrightarrow> \<not> df \<and> \<not> waits \<and> \<not> wk \<and> (k = Call \<longrightarrow> runs = 1 \<and> done)"

fun c_wakes :: "consumer_pc \<Rightarrow> nat option" where
  "c_wakes (C_Decide _ w) = w" | "c_wakes _ = None"

definition deleg_caller :: "delegator \<Rightarrow> nat list \<Rightarrow> nat \<Rightarrow> bool" where
  "deleg_caller s ws t \<longleftrightarrow>
     caller_ok (dl_pc s t) (dl_kind s t) (dl_runs s t) (dl_done s t) (t \<in> dl_deferred s) (t \<in> dl_owner s ` set ws)
       (c_wakes (dl_con s) = Some t)"

text \<open>What the holder has read is right.\<close>

definition holder_ok :: "delegator \<Rightarrow> nat option \<Rightarrow> bool" where
  "holder_ok s a \<longleftrightarrow>
     (case a of
        None \<Rightarrow>
          (case dl_con s of
             C_At b h \<Rightarrow> h = hd (dl_queue s) \<and> (b \<longrightarrow> dl_executed s)
           | C_Decide h w \<Rightarrow> h = hd (dl_queue s) \<and> dl_executed s
           | C_Sleep h \<Rightarrow> h = hd (dl_queue s) \<and> dl_executed s \<and> dl_deferred s = {}
           | _ \<Rightarrow> True)
      | Some t \<Rightarrow>
          (case dl_pc s t of
             E_Try w h \<Rightarrow> h = hd (dl_queue s) \<and> dl_executed s \<and> dl_deferred s = {}
           | E_Follow w h \<Rightarrow> h = hd (dl_queue s) \<and> dl_executed s
           | E_Hand w n \<Rightarrow> n = hd (dl_queue s) \<and> dl_sth s n \<noteq> None
           | E_Wake w \<Rightarrow> \<not> dl_executed s \<longrightarrow> dl_sth s (hd (dl_queue s)) = None
           | _ \<Rightarrow> True))"

definition deleg_rep :: "delegator \<Rightarrow> nat option \<Rightarrow> bool" where
  "deleg_rep s a \<longleftrightarrow>
     (dl_con s \<noteq> C_Parked \<longleftrightarrow> dl_queue s \<noteq> [] \<and> a = None) \<and> (\<forall>t. e_holding (dl_pc s t) \<longleftrightarrow> dl_queue s \<noteq> [] \<and> a = Some t) \<and>
     distinct (dl_queue s) \<and> dl_linked s \<subseteq> set (tl (dl_queue s)) \<and>
     (\<forall>n \<in> set (waiting s a). node_ok s n) \<and> distinct (map (dl_owner s) (waiting s a)) \<and>
     (\<forall>t. deleg_caller s (waiting s a) t) \<and> dl_order s = dl_served s @ map (dl_owner s) (waiting s a) \<and>
     (dl_queue s = [] \<longrightarrow> dl_deferred s = {}) \<and> holder_ok s a \<and> (\<forall>t. dl_pc s t \<noteq> E_Out \<longrightarrow> dl_started s)"

lemma deleg_repD:
  assumes "deleg_rep s a"
  shows "dl_con s \<noteq> C_Parked \<longleftrightarrow> dl_queue s \<noteq> [] \<and> a = None" and "e_holding (dl_pc s t) \<longleftrightarrow> dl_queue s \<noteq> [] \<and> a = Some t"
    and "distinct (dl_queue s)" and "dl_linked s \<subseteq> set (tl (dl_queue s))" and "n \<in> set (waiting s a) \<Longrightarrow> node_ok s n"
    and "distinct (map (dl_owner s) (waiting s a))" and "deleg_caller s (waiting s a) t"
    and "dl_order s = dl_served s @ map (dl_owner s) (waiting s a)" and "dl_queue s = [] \<Longrightarrow> dl_deferred s = {}"
    and "holder_ok s a" and "dl_pc s t \<noteq> E_Out \<Longrightarrow> dl_started s"
  using assms unfolding deleg_rep_def by blast+

section \<open>Every step keeps it\<close>

lemma node_frame:
  assumes "node_ok s n" and "dl_owner s' n = dl_owner s n" "dl_kind s' (dl_owner s n) = dl_kind s (dl_owner s n)"
    "dl_req s' n = dl_req s n" "dl_sth s' n = dl_sth s n" "dl_pc s' (dl_owner s n) = dl_pc s (dl_owner s n)"
    and "n \<in> dl_linked s' \<or> n \<notin> set (tl (dl_queue s')) \<longleftrightarrow> n \<in> dl_linked s \<or> n \<notin> set (tl (dl_queue s))"
  shows "node_ok s' n"
  using assms(1) unfolding node_ok_def Let_def assms(2-7) .

lemma caller_frame:
  assumes "deleg_caller s ws t" and "dl_pc s' t = dl_pc s t" "dl_kind s' t = dl_kind s t" "dl_runs s' t = dl_runs s t"
    "dl_done s' t = dl_done s t" "t \<in> dl_deferred s' \<longleftrightarrow> t \<in> dl_deferred s"
    "t \<in> dl_owner s' ` set ws' \<longleftrightarrow> t \<in> dl_owner s ` set ws" "c_wakes (dl_con s') = Some t \<longleftrightarrow> c_wakes (dl_con s) = Some t"
  shows "deleg_caller s' ws' t"
  using assms(1) unfolding deleg_caller_def assms(2-8) .

fun settled :: "deleg_pc \<Rightarrow> bool" where
  "settled (E_Linking _ _) = False" | "settled (E_Asleep _) = False" | "settled _ = True"

lemma settled_not_waiting:
  assumes "deleg_rep s a" and "settled (dl_pc s t)"
  shows "t \<notin> dl_owner s ` set (waiting s a)"
  using deleg_repD(7) [OF assms(1), of t] assms(2) by (cases "dl_pc s t") (auto simp: deleg_caller_def)

text \<open>A step of a thread that leaves the queue and the others alone.\<close>

lemma solo_moves:
  assumes R: "deleg_rep s a" and t: "settled (dl_pc s t)"
    and same: "dl_queue s' = dl_queue s" "dl_linked s' = dl_linked s" "dl_req s' = dl_req s" "dl_sth s' = dl_sth s"
      "dl_owner s' = dl_owner s" "dl_kind s' = dl_kind s" "dl_order s' = dl_order s" "dl_served s' = dl_served s"
      "dl_con s' = dl_con s" "dl_pc s' = (dl_pc s)(t := pc)"
    and others: "\<And>u. u \<noteq> t \<Longrightarrow> dl_runs s' u = dl_runs s u \<and> dl_done s' u = dl_done s u \<and> (u \<in> dl_deferred s' \<longleftrightarrow> u \<in> dl_deferred s)"
    and pc: "e_holding pc = e_holding (dl_pc s t)" "fresh_head s' a = fresh_head s a" "holder_ok s' a"
      "deleg_caller s' (waiting s a) t" "dl_queue s = [] \<Longrightarrow> dl_deferred s' = {}"
      "dl_started s \<Longrightarrow> dl_started s'" "pc \<noteq> E_Out \<Longrightarrow> dl_started s'"
  shows "deleg_rep s' a"
proof -
  note D = deleg_repD [OF R]
  have w: "waiting s' a = waiting s a" by (simp add: waiting_def same pc(2))
  have nt: "dl_owner s n \<noteq> t" if "n \<in> set (waiting s a)" for n using settled_not_waiting [OF R t] that by blast
  have "node_ok s' n" if "n \<in> set (waiting s a)" for n
    using nt [OF that] by (intro node_frame [OF D(5) [OF that]]) (simp_all add: same)
  moreover have "deleg_caller s' (waiting s a) u" for u
  proof (cases "u = t")
    case False
    with others [OF False] show ?thesis by (intro caller_frame [OF D(7) [of u]]) (simp_all add: same)
  qed (use pc(4) in simp)
  moreover have "e_holding (dl_pc s' u) \<longleftrightarrow> dl_queue s \<noteq> [] \<and> a = Some u" for u
    using D(2) [of u] pc(1) by (cases "u = t") (simp_all add: same)
  moreover have "dl_started s'" if "dl_pc s' u \<noteq> E_Out" for u
    using D(11) [of u] pc(6,7) that by (cases "u = t") (auto simp: same)
  ultimately show ?thesis
    using D(1,3,4,6,8,9) pc(3,5) unfolding deleg_rep_def w same(1-9) by blast
qed

lemma thread_holds: "deleg_rep s a \<Longrightarrow> e_holding (dl_pc s t) \<Longrightarrow> a = Some t \<and> dl_queue s \<noteq> []"
  using deleg_repD(2) by blast

lemma consumer_holds: "deleg_rep s a \<Longrightarrow> dl_con s \<noteq> C_Parked \<Longrightarrow> a = None \<and> dl_queue s \<noteq> []"
  using deleg_repD(1) by blast

lemma holder_no_change: "holder_ok s a \<Longrightarrow> (a = None \<longrightarrow> dl_con s' = dl_con s) \<Longrightarrow> (\<forall>t. a = Some t \<longrightarrow> dl_pc s' t = dl_pc s t) \<Longrightarrow>
    dl_queue s' = dl_queue s \<Longrightarrow> dl_executed s' = dl_executed s \<Longrightarrow> dl_deferred s' = dl_deferred s \<Longrightarrow> dl_sth s' = dl_sth s \<Longrightarrow>
    holder_ok s' a"
  by (cases a) (auto simp: holder_ok_def split: consumer_pc.splits deleg_pc.splits)

lemma fresh_no_change: "(a = None \<longrightarrow> dl_con s' = dl_con s) \<Longrightarrow> (\<forall>t. a = Some t \<longrightarrow> dl_pc s' t = dl_pc s t) \<Longrightarrow>
    dl_executed s' = dl_executed s \<Longrightarrow> fresh_head s' a = fresh_head s a"
  by (cases a) (auto simp: fresh_head_def)

lemma call_rep:
  assumes R: "deleg_rep s a" and pc: "dl_pc s t = E_Out"
  shows "deleg_rep (ensure_consumer_started t k s) a"
proof -
  have at: "a \<noteq> Some t \<or> dl_queue s = []" using deleg_repD(2) [OF R, of t] pc by auto
  show ?thesis
  proof (cases "dl_queue s = [] \<and> a = Some t")
    case False
    then have "a \<noteq> Some t" using at by blast
    then show ?thesis
      by (intro solo_moves [OF R, of t _ "E_Enter k"])
        (use pc deleg_repD(7) [OF R, of t] deleg_repD(9) [OF R] holder_no_change [OF deleg_repD(10) [OF R]] fresh_no_change in
         \<open>auto simp: ensure_consumer_started_def deleg_caller_def\<close>)
  next
    case True
    then show ?thesis
      by (intro solo_moves [OF R, of t _ "E_Enter k"])
        (use pc deleg_repD(7) [OF R, of t] deleg_repD(9) [OF R] in
         \<open>auto simp: ensure_consumer_started_def deleg_caller_def fresh_head_def holder_ok_def\<close>)
  qed
qed

lemma execute_rep:
  assumes R: "deleg_rep s a" and pc: "dl_pc s t = E_Exec"
  shows "deleg_rep (egoto t (E_Unlock (\<not> ready)) (deleg_execute t ready s)) a"
proof -
  have a: "a = Some t" "dl_queue s \<noteq> []" using thread_holds [OF R, of t] pc by simp_all
  show ?thesis
    by (rule solo_moves [OF R, of t _ "E_Unlock (\<not> ready)"])
      (use pc a deleg_repD(7) [OF R, of t] deleg_repD(11) [OF R, of t] in
       \<open>auto simp: deleg_execute_def Let_def deleg_caller_def fresh_head_def holder_ok_def\<close>)
qed

lemma body_rep':
  assumes R: "deleg_rep s a" and pc: "dl_pc s t = E_Body"
  shows "deleg_rep (egoto t (E_Unlock False) s) a"
proof -
  have a: "a = Some t" "dl_queue s \<noteq> []" using thread_holds [OF R, of t] pc by simp_all
  show ?thesis
    by (rule solo_moves [OF R, of t _ "E_Unlock False"])
      (use pc a deleg_repD(7) [OF R, of t] deleg_repD(11) [OF R, of t] in
       \<open>auto simp: deleg_caller_def fresh_head_def holder_ok_def\<close>)
qed

lemma deleg_unlock_rep:
  assumes R: "deleg_rep s a" and pc: "dl_pc s t = E_Unlock w"
  shows "deleg_rep (deleg_unlock t w s) a"
proof -
  have a: "a = Some t" "dl_queue s \<noteq> []" using thread_holds [OF R, of t] pc by simp_all
  show ?thesis
    by (rule solo_moves [OF R, of t _ "if deleg_is_active s then E_Follow w (hd (dl_queue s)) else E_Try w (hd (dl_queue s))"])
      (use pc a deleg_repD(7) [OF R, of t] deleg_repD(11) [OF R, of t] in
       \<open>auto simp: deleg_unlock_def Let_def deleg_is_active_def deleg_caller_def fresh_head_def holder_ok_def\<close>)
qed

lemma return_rep:
  assumes R: "deleg_rep s a" and pc: "dl_pc s t = E_Ret"
  shows "deleg_rep (egoto t E_Out s) a"
proof -
  have at: "a \<noteq> Some t \<or> dl_queue s = []" using deleg_repD(2) [OF R, of t] pc by auto
  show ?thesis
  proof (cases "a = Some t")
    case False
    then show ?thesis
      by (intro solo_moves [OF R, of t _ E_Out])
        (use pc deleg_repD(7) [OF R, of t] deleg_repD(9) [OF R] holder_no_change [OF deleg_repD(10) [OF R]] fresh_no_change in
         \<open>auto simp: deleg_caller_def\<close>)
  next
    case True
    then show ?thesis
      by (intro solo_moves [OF R, of t _ E_Out])
        (use at pc deleg_repD(7) [OF R, of t] deleg_repD(9) [OF R] in
         \<open>auto simp: deleg_caller_def fresh_head_def holder_ok_def\<close>)
  qed
qed


lemma deleg_repI:
  assumes "waiting s a = ws" and "dl_con s \<noteq> C_Parked \<longleftrightarrow> dl_queue s \<noteq> [] \<and> a = None"
    and "\<And>t. e_holding (dl_pc s t) \<longleftrightarrow> dl_queue s \<noteq> [] \<and> a = Some t"
    and "distinct (dl_queue s)" and "dl_linked s \<subseteq> set (tl (dl_queue s))" and "\<And>n. n \<in> set ws \<Longrightarrow> node_ok s n"
    and "distinct (map (dl_owner s) ws)" and "\<And>t. deleg_caller s ws t"
    and "dl_order s = dl_served s @ map (dl_owner s) ws" and "dl_queue s = [] \<Longrightarrow> dl_deferred s = {}"
    and "holder_ok s a" and "\<And>t. dl_pc s t \<noteq> E_Out \<Longrightarrow> dl_started s"
  shows "deleg_rep s a"
  using assms(2-) unfolding deleg_rep_def assms(1) by blast

lemma free_start_rep:
  assumes R: "deleg_rep s a" and pc: "dl_pc s t = E_Enter k" and q: "dl_queue s = []"
  shows "deleg_rep (deleg_enqueue t k n s) (Some t)"
proof -
  note D = deleg_repD [OF R]
  let ?s = "deleg_enqueue t k n s"
  have e: "dl_queue ?s = [n]" "dl_con ?s = dl_con s" "dl_pc ?s = (dl_pc s)(t := (case k of Call \<Rightarrow> E_Exec | Lock \<Rightarrow> E_Body))"
    "dl_linked ?s = dl_linked s" "dl_owner ?s = dl_owner s" "dl_kind ?s = (dl_kind s)(t := k)" "dl_runs ?s = (dl_runs s)(t := 0)"
    "dl_done ?s = (dl_done s)(t := False)" "dl_order ?s = dl_order s @ [t]" "dl_served ?s = dl_served s @ [t]"
    "dl_deferred ?s = dl_deferred s" "dl_started ?s = dl_started s"
    by (simp_all add: deleg_enqueue_def Let_def q)
  have w: "waiting s a = []" "waiting ?s (Some t) = []" using q unfolding waiting_def fresh_head_def e by (simp, cases k) simp_all
  have "deleg_caller ?s [] u" for u
  proof (cases "u = t")
    case True
    have "t \<notin> dl_deferred s \<and> c_wakes (dl_con s) \<noteq> Some t" using D(7) [of t] pc by (simp add: deleg_caller_def)
    then show ?thesis unfolding True deleg_caller_def e by (cases k) simp_all
  next
    case False
    then show ?thesis using w(1) by (intro caller_frame [OF D(7) [of u]]) (simp_all add: e)
  qed
  moreover have "e_holding (dl_pc ?s u) \<longleftrightarrow> t = u" for u
    using D(2) [of u] q unfolding e by (cases k) auto
  moreover have "holder_ok ?s (Some t)" unfolding holder_ok_def e by (cases k) simp_all
  moreover have "dl_started s" using D(11) [of t] pc by simp
  ultimately show ?thesis
    by (intro deleg_repI [OF w(2)]) (use D(1,4,8) w(1) q in \<open>simp_all add: e\<close>)
qed

lemma busy_start_rep:
  assumes R: "deleg_rep s a" and pc: "dl_pc s t = E_Enter k" and q: "dl_queue s \<noteq> []" and n: "n \<notin> set (dl_queue s)"
  shows "deleg_rep (deleg_enqueue t k n s) a"
proof -
  note D = deleg_repD [OF R]
  let ?s = "deleg_enqueue t k n s"
  have e: "dl_queue ?s = dl_queue s @ [n]" "dl_con ?s = dl_con s" "dl_pc ?s = (dl_pc s)(t := E_Linking k n)"
    "dl_linked ?s = dl_linked s" "dl_owner ?s = (dl_owner s)(n := t)" "dl_kind ?s = (dl_kind s)(t := k)" "dl_runs ?s = (dl_runs s)(t := 0)"
    "dl_done ?s = (dl_done s)(t := False)" "dl_order ?s = dl_order s @ [t]" "dl_served ?s = dl_served s"
    "dl_deferred ?s = dl_deferred s" "dl_started ?s = dl_started s" "dl_sth ?s = (dl_sth s)(n := None)"
    "dl_req ?s = (dl_req s)(n := (case k of Call \<Rightarrow> Some t | Lock \<Rightarrow> None))" "dl_executed ?s = dl_executed s"
    using q by (simp_all add: deleg_enqueue_def Let_def)
  have at: "a \<noteq> Some t" using D(2) [of t] pc q by auto
  have nt: "t \<notin> dl_owner s ` set (waiting s a)" using settled_not_waiting [OF R, of t] pc by simp
  have f: "fresh_head ?s a = fresh_head s a" using at by (intro fresh_no_change) (auto simp: e)
  have w: "waiting ?s a = waiting s a @ [n]" using q by (simp add: waiting_def f e)
  have nw: "n \<notin> set (waiting s a)" using n list.set_sel(2) [OF q] by (auto simp: waiting_def split: if_splits)
  have nl: "n \<notin> dl_linked s" using D(4) n list.set_sel(2) [OF q] by blast
  have tl: "tl (dl_queue s @ [n]) = tl (dl_queue s) @ [n]" using q by simp
  have own: "dl_owner ?s ` set (waiting s a @ [n]) = insert t (dl_owner s ` set (waiting s a))"
    using nw by (auto simp: e)
  have "node_ok ?s m" if "m \<in> set (waiting s a @ [n])" for m
  proof (cases "m = n")
    case True
    then show ?thesis using nl tl by (simp add: node_ok_def Let_def e)
  next
    case False
    then have m: "m \<in> set (waiting s a)" "dl_owner s m \<noteq> t" using that nt by auto
    show ?thesis using False m(2) by (intro node_frame [OF D(5) [OF m(1)]]) (auto simp: e tl)
  qed
  moreover have "deleg_caller ?s (waiting s a @ [n]) u" for u
  proof (cases "u = t")
    case True
    then show ?thesis using D(7) [of t] pc own by (simp add: deleg_caller_def e(2,3,6-8,11))
  next
    case False
    then show ?thesis using own by (intro caller_frame [OF D(7) [of u]]) (auto simp: e(2,3,6-8,11))
  qed
  moreover have "e_holding (dl_pc ?s u) \<longleftrightarrow> a = Some u" for u using D(2) [of u] q at by (auto simp: e)
  moreover have "holder_ok ?s a"
  proof -
    have "hd (dl_queue ?s) = hd (dl_queue s)" using q by (simp add: e)
    moreover have "dl_sth ?s (hd (dl_queue s)) = dl_sth s (hd (dl_queue s))" using n hd_in_set [OF q] by (auto simp: e)
    ultimately show ?thesis using D(10) at
      by (cases a) (auto simp: holder_ok_def e(2,3,11,15) split: consumer_pc.splits deleg_pc.splits)
  qed
  moreover have "dl_linked s \<subseteq> set (tl (dl_queue s @ [n]))" using D(4) tl by auto
  moreover have mo: "map (dl_owner ?s) (waiting s a @ [n]) = map (dl_owner s) (waiting s a) @ [t]"
    using nw by (auto simp: e(5))
  moreover have "distinct (map (dl_owner s) (waiting s a) @ [t])" using D(6) nt by simp
  moreover have "dl_started s" using D(11) [of t] pc by simp
  ultimately show ?thesis
    by (intro deleg_repI [OF w], unfold mo) (use D(1,3,8) q n in \<open>simp_all add: e(1,2,4,9,10,12)\<close>)
qed

lemma linking_node:
  assumes R: "deleg_rep s a" and pc: "dl_pc s t = E_Linking k n"
  shows "n \<in> set (waiting s a)" and "dl_owner s n = t" and "n \<notin> dl_linked s" and "n \<in> set (tl (dl_queue s))" and "dl_kind s t = k"
    and "dl_req s n = (case k of Call \<Rightarrow> Some t | Lock \<Rightarrow> None)" and "dl_sth s n = None"
proof -
  obtain m where m: "m \<in> set (waiting s a)" "dl_owner s m = t" and k: "dl_kind s t = k"
    using deleg_repD(7) [OF R, of t] pc by (auto simp: deleg_caller_def)
  have "node_ok s m" by (rule deleg_repD(5) [OF R m(1)])
  then have "m = n \<and> n \<notin> dl_linked s \<and> n \<in> set (tl (dl_queue s)) \<and>
      dl_req s n = (case k of Call \<Rightarrow> Some t | Lock \<Rightarrow> None) \<and> dl_sth s n = None"
    using m k pc by (auto simp: node_ok_def Let_def split: if_splits)
  with m k show "n \<in> set (waiting s a)" "dl_owner s n = t" "n \<notin> dl_linked s" "n \<in> set (tl (dl_queue s))" "dl_kind s t = k"
    "dl_req s n = (case k of Call \<Rightarrow> Some t | Lock \<Rightarrow> None)" "dl_sth s n = None" by auto
qed

lemma deleg_link_rep:
  assumes R: "deleg_rep s a" and pc: "dl_pc s t = E_Linking k n"
  shows "deleg_rep (deleg_link t k n s) a"
proof -
  note D = deleg_repD [OF R] and N = linking_node [OF R pc]
  let ?s = "deleg_link t k n s"
  have e: "dl_queue ?s = dl_queue s" "dl_con ?s = dl_con s" "dl_pc ?s = (dl_pc s)(t := E_Asleep k)"
    "dl_linked ?s = insert n (dl_linked s)" "dl_owner ?s = dl_owner s" "dl_kind ?s = dl_kind s" "dl_runs ?s = dl_runs s"
    "dl_done ?s = dl_done s" "dl_order ?s = dl_order s" "dl_served ?s = dl_served s" "dl_req ?s = dl_req s"
    "dl_deferred ?s = dl_deferred s" "dl_started ?s = dl_started s" "dl_executed ?s = dl_executed s"
    "dl_sth ?s = (case k of Call \<Rightarrow> dl_sth s | Lock \<Rightarrow> (dl_sth s)(n := Some t))"
    by (simp_all add: deleg_link_def)
  have q: "dl_queue s \<noteq> []" using N(4) by auto
  have at: "a \<noteq> Some t" using D(2) [of t] pc q by auto
  have w: "waiting ?s a = waiting s a" using at fresh_no_change [of a ?s s] by (simp add: waiting_def e)
  have nh: "n \<noteq> hd (dl_queue s)" using N(4) D(3) by (cases "dl_queue s") auto
  have "node_ok ?s m" if "m \<in> set (waiting s a)" for m
  proof (cases "m = n")
    case True
    then show ?thesis using N unfolding node_ok_def Let_def e by (cases k) simp_all
  next
    case False
    then have "dl_owner s m \<noteq> t" using N(1,2) D(6) that by (auto simp: distinct_map inj_on_def)
    then show ?thesis using False by (intro node_frame [OF D(5) [OF that]]) (cases k; simp add: deleg_link_def)+
  qed
  moreover have "deleg_caller ?s (waiting s a) u" for u
  proof (cases "u = t")
    case True
    have "dl_runs s t = 0 \<and> \<not> dl_done s t \<and> t \<notin> dl_deferred s \<and> c_wakes (dl_con s) \<noteq> Some t"
      using D(7) [of t] pc by (simp add: deleg_caller_def)
    moreover have "t \<in> dl_owner s ` set (waiting s a)" using N(1,2) by auto
    ultimately show ?thesis unfolding True deleg_caller_def e using N(5) by simp
  next
    case False
    then show ?thesis by (intro caller_frame [OF D(7) [of u]]) (auto simp: e)
  qed
  moreover have "e_holding (dl_pc ?s u) \<longleftrightarrow> dl_queue s \<noteq> [] \<and> a = Some u" for u using D(2) [of u] q at by (auto simp: e)
  moreover have "holder_ok ?s a"
  proof -
    have "dl_sth ?s (hd (dl_queue s)) = dl_sth s (hd (dl_queue s))" using nh unfolding e by (cases k) auto
    then show ?thesis using D(10) at
      by (cases a) (auto simp: holder_ok_def e(1-3,12,14) split: consumer_pc.splits deleg_pc.splits)
  qed
  moreover have "dl_started s" using D(11) [of t] pc by simp
  ultimately show ?thesis
    by (intro deleg_repI [OF w]) (use D(1,3,4,6,8,9) N(4) in \<open>simp_all add: e(1,2,4,5,9,10,12,13)\<close>)
qed

lemma deleg_try_unlock_rep:
  assumes R: "deleg_rep s a" and pc: "dl_pc s t = E_Try w h"
  shows "deleg_rep (deleg_try_unlock t w h s) a"
proof -
  note D = deleg_repD [OF R]
  have a: "a = Some t" "dl_queue s \<noteq> []" using thread_holds [OF R, of t] pc by simp_all
  have H: "h = hd (dl_queue s)" "dl_executed s" "dl_deferred s = {}" using D(10) a pc by (simp_all add: holder_ok_def)
  show ?thesis
  proof (cases "dl_queue s = [h]")
    case False
    then have e: "deleg_try_unlock t w h s = egoto t (E_Follow w h) s" by (simp add: deleg_try_unlock_def)
    show ?thesis
      unfolding e
      by (rule solo_moves [OF R, of t _ "E_Follow w h"])
        (use pc a H D(7) [of t] D(11) [of t] in \<open>auto simp: deleg_caller_def fresh_head_def holder_ok_def\<close>)
  next
    case True
    have w: "\<not> w" using D(7) [of t] pc H by (auto simp: deleg_caller_def split: if_splits)
    then have e: "deleg_try_unlock t w h s = egoto t E_Ret (s\<lparr>dl_queue := []\<rparr>)" using True by (simp add: deleg_try_unlock_def unlocked_def)
    let ?s = "egoto t E_Ret (s\<lparr>dl_queue := []\<rparr>)"
    have ws: "waiting s a = []" "waiting ?s a = []" using True a pc by (simp_all add: waiting_def fresh_head_def)
    have "deleg_caller ?s [] u" for u
    proof (cases "u = t")
      case True
      then show ?thesis using D(7) [of t] pc w by (auto simp: deleg_caller_def split: if_splits)
    next
      case False
      then show ?thesis using ws by (intro caller_frame [OF D(7) [of u]]) auto
    qed
    moreover have "\<not> e_holding (dl_pc ?s u)" for u using D(2) [of u] a by auto
    moreover have "holder_ok ?s a" using a by (simp add: holder_ok_def)
    moreover have "dl_started s" using D(11) [of t] pc by simp
    ultimately show ?thesis
      unfolding e by (intro deleg_repI [OF ws(2)]) (use D(1,4,8) H(3) a ws(1) True in simp_all)
  qed
qed

lemma follow_head_Some:
  "follow_head s = Some (n, s') \<longleftrightarrow>
     (\<exists>h ns. dl_queue s = h # n # ns \<and> n \<in> dl_linked s \<and> s' = s\<lparr>dl_queue := n # ns, dl_linked := dl_linked s - {n}\<rparr>)"
  by (auto simp: follow_head_def split: list.splits if_splits)

text \<open>The successor becomes a fresh head; \<open>s'\<close> is the state after, where the holder has noted it.\<close>

lemma follow_rep:
  assumes R: "deleg_rep s a" and f: "follow_head s = Some (n, s1)" and nf: "\<not> fresh_head s a"
    and same: "dl_queue s' = dl_queue s1" "dl_linked s' = dl_linked s1" "dl_req s' = dl_req s" "dl_sth s' = dl_sth s"
      "dl_owner s' = dl_owner s" "dl_kind s' = dl_kind s" "dl_order s' = dl_order s" "dl_served s' = dl_served s"
      "dl_runs s' = dl_runs s" "dl_done s' = dl_done s" "dl_deferred s' = dl_deferred s" "dl_started s' = dl_started s"
    and con: "dl_con s' \<noteq> C_Parked \<longleftrightarrow> dl_con s \<noteq> C_Parked" "c_wakes (dl_con s') = c_wakes (dl_con s)"
    and pc: "\<And>u. dl_pc s' u = dl_pc s u \<or> a = Some u \<and> e_holding (dl_pc s' u) \<and> dl_pc s' u \<noteq> E_Out \<and> deleg_caller s' (waiting s a) u"
    and fresh: "fresh_head s' a" and holder: "holder_ok s' a"
  shows "deleg_rep s' a"
proof -
  note D = deleg_repD [OF R]
  obtain h ns where q: "dl_queue s = h # n # ns" "n \<in> dl_linked s"
    and s1: "s1 = s\<lparr>dl_queue := n # ns, dl_linked := dl_linked s - {n}\<rparr>"
    using f by (auto simp: follow_head_Some)
  have w: "waiting s a = n # ns" "waiting s' a = n # ns" using nf fresh q by (simp_all add: waiting_def same s1)
  have nn: "n \<notin> set ns" using D(3) q by simp
  have ow: "dl_pc s' (dl_owner s m) = dl_pc s (dl_owner s m)" if m: "m \<in> set (n # ns)" for m
  proof (rule ccontr)
    assume "dl_pc s' (dl_owner s m) \<noteq> dl_pc s (dl_owner s m)"
    then have "a = Some (dl_owner s m)" using pc by blast
    then have "e_holding (dl_pc s (dl_owner s m))" using D(2) q by simp
    moreover have "node_ok s m" using D(5) w m by simp
    ultimately show False by (auto simp: node_ok_def Let_def split: if_splits)
  qed
  have "node_ok s' m" if m: "m \<in> set (n # ns)" for m
  proof -
    have "node_ok s m" using D(5) w m by simp
    then show ?thesis by (rule node_frame) (use m ow [OF m] nn q in \<open>auto simp: same s1\<close>)
  qed
  moreover have "deleg_caller s' (n # ns) u" for u
  proof (cases "dl_pc s' u = dl_pc s u")
    case True
    then show ?thesis using w con(2) by (intro caller_frame [OF D(7) [of u]]) (simp_all add: same)
  next
    case False
    then show ?thesis using pc [of u] w by simp
  qed
  moreover have "e_holding (dl_pc s' u) \<longleftrightarrow> a = Some u" for u using D(2) [of u] pc [of u] q by auto
  moreover have "dl_pc s' u \<noteq> E_Out \<Longrightarrow> dl_started s'" for u
    using D(11) [of u] pc [of u] D(2) [of u] q same(12) by (cases "dl_pc s u = E_Out") auto
  moreover have "dl_linked s' \<subseteq> set ns" using D(4) q nn by (auto simp: same s1)
  ultimately show ?thesis
    by (intro deleg_repI [OF w(2)]) (use D(1,3,6,8) q con(1) holder w(1) in \<open>simp_all add: same s1\<close>)
qed

lemma deleg_follow_rep:
  assumes R: "deleg_rep s a" and pc: "dl_pc s t = E_Follow w h"
  shows "deleg_rep (deleg_follow t w s) a"
proof -
  note D = deleg_repD [OF R]
  have a: "a = Some t" "dl_queue s \<noteq> []" using thread_holds [OF R, of t] pc by simp_all
  have H: "dl_executed s" using D(10) a pc by (simp add: holder_ok_def)
  show ?thesis
  proof (cases "follow_head s")
    case None
    then have e: "deleg_follow t w s = egoto t (E_Wake w) s" by (simp add: deleg_follow_def)
    show ?thesis
      unfolding e
      by (rule solo_moves [OF R, of t _ "E_Wake w"])
        (use pc a H D(7) [of t] D(11) [of t] in \<open>auto simp: deleg_caller_def fresh_head_def holder_ok_def\<close>)
  next
    case (Some r)
    then obtain n s1 where f: "follow_head s = Some (n, s1)" by (cases r) auto
    then obtain k ns where q: "dl_queue s = k # n # ns" and s1: "s1 = s\<lparr>dl_queue := n # ns, dl_linked := dl_linked s - {n}\<rparr>"
      by (auto simp: follow_head_Some)
    have e: "deleg_follow t w s = egoto t (if dl_sth s n \<noteq> None then E_Hand w n else E_Wake w) (s1\<lparr>dl_executed := False\<rparr>)"
      using f s1 by (simp add: deleg_follow_def)
    show ?thesis
      unfolding e
      by (rule follow_rep [OF R f])
        (use pc a D(7) [of t] in \<open>auto simp: s1 fresh_head_def holder_ok_def deleg_caller_def\<close>)
  qed
qed


lemma unlocked_ok:
  assumes "deleg_caller s ws t" and "dl_pc s t = E_Hand w n \<or> dl_pc s t = E_Wake w" and "dl_pc s' t = unlocked w"
    and "dl_kind s' t = dl_kind s t" "dl_runs s' t = dl_runs s t" "dl_done s' t = dl_done s t" "t \<in> dl_deferred s' \<longleftrightarrow> t \<in> dl_deferred s"
    and "t \<notin> dl_owner s' ` set ws'" "c_wakes (dl_con s') \<noteq> Some t"
  shows "deleg_caller s' ws' t"
proof -
  have "if dl_kind s t = Call then dl_runs s t = 1 \<and> (t \<in> dl_deferred s) = w \<and> dl_done s t = (\<not> w) else t \<notin> dl_deferred s \<and> \<not> w"
    using assms(1,2) by (auto simp: deleg_caller_def)
  then show ?thesis
    using assms(8,9) unfolding deleg_caller_def assms(3-7) by (cases w) (auto simp: unlocked_def split: if_splits)
qed

text \<open>
  A lock waiter at a fresh head gets the lock; \<open>s'\<close> is the state after, with the old holder, a thread or the consumer, out of the way.
\<close>

lemma locker_rep:
  assumes R: "deleg_rep s a" and fr: "fresh_head s a" and q: "dl_queue s = n # ns" and u: "dl_sth s n = Some u"
    and same: "dl_queue s' = dl_queue s" "dl_linked s' = dl_linked s" "dl_req s' = dl_req s" "dl_sth s' = (dl_sth s)(n := None)"
      "dl_owner s' = dl_owner s" "dl_kind s' = dl_kind s" "dl_order s' = dl_order s" "dl_served s' = dl_served s @ [u]"
      "dl_runs s' = dl_runs s" "dl_done s' = dl_done s" "dl_deferred s' = dl_deferred s" "dl_started s' = dl_started s"
    and con: "dl_con s' = C_Parked" "c_wakes (dl_con s) = None"
    and pc: "dl_pc s' u = E_Body" "\<And>t. t \<noteq> u \<Longrightarrow> if a = Some t
      then \<not> e_holding (dl_pc s' t) \<and> (t \<notin> dl_owner s ` set ns \<longrightarrow> deleg_caller s' ns t) else dl_pc s' t = dl_pc s t"
  shows "deleg_rep s' (Some u)"
proof -
  note D = deleg_repD [OF R]
  have w: "waiting s a = n # ns" using fr q by (simp add: waiting_def)
  have w': "waiting s' (Some u) = ns" using q pc(1) by (simp add: waiting_def fresh_head_def same)
  have "node_ok s n" using D(5) w by simp
  moreover have "n \<notin> set (tl (dl_queue s))" using D(3) q by simp
  ultimately have n: "dl_owner s n = u" "dl_kind s u = Lock" "dl_pc s u = E_Asleep Lock"
    using u by (auto simp: node_ok_def Let_def split: call_kind.splits)
  have un: "u \<notin> dl_owner s ` set ns" using D(6) w n(1) by auto
  have au: "a \<noteq> Some u" using D(2) [of u] n(3) q by auto
  have own: "a \<noteq> Some (dl_owner s m)" if "m \<in> set ns" for m
  proof
    assume "a = Some (dl_owner s m)"
    then have "e_holding (dl_pc s (dl_owner s m))" using D(2) q by simp
    moreover have "node_ok s m" using D(5) w that by simp
    ultimately show False by (auto simp: node_ok_def Let_def split: if_splits)
  qed
  have ow: "dl_pc s' (dl_owner s m) = dl_pc s (dl_owner s m)" if m: "m \<in> set ns" for m
  proof -
    have "dl_owner s m \<noteq> u" using un m by auto
    then show ?thesis using pc(2) [of "dl_owner s m"] own [OF m] by simp
  qed
  have "node_ok s' m" if m: "m \<in> set ns" for m
  proof -
    have nd: "node_ok s m" using D(5) w m by simp
    have "m \<noteq> n" using D(3) q m by auto
    then show ?thesis using ow [OF m] by (intro node_frame [OF nd]) (simp_all add: same)
  qed
  moreover have "deleg_caller s' ns t" for t
  proof (cases "t = u")
    case True
    have "u \<notin> dl_deferred s" using D(7) [of u] w n by (auto simp: deleg_caller_def)
    then show ?thesis unfolding True deleg_caller_def pc(1) same con(1) using n un by simp
  next
    case False
    show ?thesis
    proof (cases "a = Some t")
      case True
      then have "e_holding (dl_pc s t)" using D(2) q by simp
      then have "settled (dl_pc s t)" by (cases "dl_pc s t") auto
      then have "t \<notin> dl_owner s ` set ns" using settled_not_waiting [OF R] w by auto
      then show ?thesis using pc(2) [OF False] True by simp
    next
      case a: False
      have "t \<in> dl_owner s ` set ns \<longleftrightarrow> t \<in> dl_owner s ` set (waiting s a)" using w n(1) False by auto
      then show ?thesis
        using pc(2) [OF False] a con by (intro caller_frame [OF D(7) [of t]]) (simp_all add: same)
    qed
  qed
  moreover have "e_holding (dl_pc s' t) \<longleftrightarrow> u = t" for t
    using D(2) [of t] q pc au by (cases "t = u"; cases "a = Some t") auto
  moreover have "holder_ok s' (Some u)" using pc(1) by (simp add: holder_ok_def)
  moreover have "dl_started s" using D(11) [of u] n(3) by simp
  moreover have "distinct (map (dl_owner s) ns)" using D(6) w by simp
  ultimately show ?thesis
    by (intro deleg_repI [OF w']) (use D(3,4,8) q w n(1) con in \<open>simp_all add: same\<close>)
qed

lemma deleg_hand_rep:
  assumes R: "deleg_rep s a" and pc: "dl_pc s t = E_Hand w n"
  shows "\<exists>a'. deleg_rep (deleg_hand t w n s) a'"
proof -
  note D = deleg_repD [OF R]
  have a: "a = Some t" "dl_queue s \<noteq> []" using thread_holds [OF R, of t] pc by simp_all
  have H: "n = hd (dl_queue s)" "dl_sth s n \<noteq> None" using D(10) pc by (auto simp: holder_ok_def a(1))
  then obtain ns u where q: "dl_queue s = n # ns" and u: "dl_sth s n = Some u" using a(2) by (cases "dl_queue s") auto
  have con: "dl_con s = C_Parked" using D(1) a by simp
  have fr: "fresh_head s a" using a pc by (simp add: fresh_head_def)
  have e: "deleg_hand t w n s =
      egoto u E_Body ((egoto t (unlocked w) s)\<lparr>dl_sth := (dl_sth s)(n := None), dl_served := dl_served s @ [u]\<rparr>)"
    using u by (simp add: deleg_hand_def wake_locker_def)
  have "deleg_rep (deleg_hand t w n s) (Some u)"
  proof (rule locker_rep [OF R fr q u])
    fix v assume v: "v \<noteq> u"
    show "if a = Some v then \<not> e_holding (dl_pc (deleg_hand t w n s) v) \<and>
        (v \<notin> dl_owner s ` set ns \<longrightarrow> deleg_caller (deleg_hand t w n s) ns v)
      else dl_pc (deleg_hand t w n s) v = dl_pc s v"
    proof (cases "v = t")
      case True
      have "deleg_caller (deleg_hand t w n s) ns t" if "t \<notin> dl_owner s ` set ns"
        by (rule unlocked_ok [OF D(7) [of t]]) (use pc v True that con in \<open>auto simp: e\<close>)
      then show ?thesis using True a v unfolding e unlocked_def by (cases w) auto
    next
      case False
      then show ?thesis using a v by (simp add: e)
    qed
  qed (simp_all add: e con)
  then show ?thesis by blast
qed

lemma wake_rep:
  assumes R: "deleg_rep s a" and pc: "dl_pc s t = E_Wake w"
  shows "deleg_rep (notify_consumer (egoto t (unlocked w) s)) None"
proof -
  note D = deleg_repD [OF R]
  have a: "a = Some t" "dl_queue s \<noteq> []" using thread_holds [OF R, of t] pc by simp_all
  have con: "dl_con s = C_Parked" using D(1) a by simp
  let ?s = "(egoto t (unlocked w) s)\<lparr>dl_con := C_Top\<rparr>"
  have e: "notify_consumer (egoto t (unlocked w) s) = ?s" using con by (simp add: notify_consumer_def)
  have w: "waiting ?s None = waiting s a" using a pc by (simp add: waiting_def fresh_head_def)
  have nt: "t \<notin> dl_owner s ` set (waiting s a)" using settled_not_waiting [OF R, of t] pc by simp
  have "node_ok ?s m" if "m \<in> set (waiting s a)" for m
  proof -
    have "dl_owner s m \<noteq> t" using nt that by auto
    then show ?thesis by (intro node_frame [OF D(5) [OF that]]) simp_all
  qed
  moreover have "deleg_caller ?s (waiting s a) u" for u
  proof (cases "u = t")
    case True
    show ?thesis unfolding True by (rule unlocked_ok [OF D(7) [of t]]) (use pc nt in auto)
  next
    case False
    then show ?thesis using con by (intro caller_frame [OF D(7) [of u]]) simp_all
  qed
  moreover have "\<not> e_holding (dl_pc ?s u)" for u using D(2) [of u] a by (cases w) (auto simp: unlocked_def)
  moreover have "holder_ok ?s None" by (simp add: holder_ok_def)
  moreover have "dl_started s" using D(11) [of t] pc by simp
  ultimately show ?thesis
    unfolding e by (intro deleg_repI [OF w]) (use D(3,4,6,8,9) a in simp_all)
qed

text \<open>A step of the consumer that leaves the queue alone and does not give up the lock; it may wake \<open>wk\<close>.\<close>

lemma consumer_moves:
  assumes R: "deleg_rep s a" and con: "dl_con s \<noteq> C_Parked" "dl_con s' \<noteq> C_Parked"
    and same: "dl_queue s' = dl_queue s" "dl_linked s' = dl_linked s" "dl_req s' = dl_req s" "dl_sth s' = dl_sth s"
      "dl_owner s' = dl_owner s" "dl_kind s' = dl_kind s" "dl_order s' = dl_order s" "dl_started s' = dl_started s"
    and pc: "\<And>t. dl_pc s' t = dl_pc s t \<or> t \<notin> dl_owner s ` set ws \<and> dl_pc s t \<noteq> E_Out \<and> \<not> e_holding (dl_pc s' t)"
    and w: "waiting s' a = ws" "set ws \<subseteq> set (waiting s a)" "distinct (map (dl_owner s) ws)"
    and served: "dl_served s @ map (dl_owner s) (waiting s a) = dl_served s' @ map (dl_owner s) ws"
    and caller: "\<And>t. deleg_caller s (waiting s a) t \<Longrightarrow> deleg_caller s' ws t" and holder: "holder_ok s' a"
  shows "deleg_rep s' a"
proof -
  note D = deleg_repD [OF R]
  have a: "a = None" "dl_queue s \<noteq> []" using consumer_holds [OF R con(1)] by simp_all
  have "node_ok s' m" if m: "m \<in> set ws" for m
  proof -
    have "dl_pc s' (dl_owner s m) = dl_pc s (dl_owner s m)" using pc [of "dl_owner s m"] m by auto
    moreover have nd: "node_ok s m" using D(5) w(2) m by blast
    ultimately show ?thesis by (intro node_frame [OF nd]) (simp_all add: same)
  qed
  moreover have "\<not> e_holding (dl_pc s' t)" for t using D(2) [of t] pc [of t] a by auto
  moreover have "dl_started s" if "dl_pc s' t \<noteq> E_Out" for t using D(11) [of t] pc [of t] that by auto
  ultimately show ?thesis
    by (intro deleg_repI [OF w(1)]) (use D(3,4,7,8) a con w(3) served caller holder in \<open>simp_all add: same\<close>)
qed

lemma consume_begin_rep:
  assumes R: "deleg_rep s a" and pc: "dl_con s = C_Top"
  shows "deleg_rep (consume_begin s) a"
proof -
  note D = deleg_repD [OF R]
  have a: "a = None" "dl_queue s \<noteq> []" using consumer_holds [OF R] pc by simp_all
  have cf: "deleg_caller (s\<lparr>dl_con := C_At b x\<rparr>) ws t" if "deleg_caller s ws t" for b x ws t
    by (rule caller_frame [OF that]) (simp_all add: pc)
  consider "\<not> dl_executed s" | "dl_executed s" "follow_head s = None" | n s1 where "dl_executed s" "follow_head s = Some (n, s1)"
    by (metis option.exhaust prod.exhaust)
  then show ?thesis
  proof cases
    case 1
    then have e: "consume_begin s = s\<lparr>dl_con := C_At False (hd (dl_queue s))\<rparr>" by (simp add: consume_begin_def)
    show ?thesis
      unfolding e by (rule consumer_moves [OF R, where ws = "waiting s a"])
        (use pc a 1 D(6) cf in \<open>simp_all add: waiting_def fresh_head_def holder_ok_def\<close>)
  next
    case 2
    then have e: "consume_begin s = s\<lparr>dl_con := C_At True (hd (dl_queue s))\<rparr>" by (simp add: consume_begin_def)
    show ?thesis
      unfolding e by (rule consumer_moves [OF R, where ws = "waiting s a"])
        (use pc a 2 D(6) cf in \<open>simp_all add: waiting_def fresh_head_def holder_ok_def\<close>)
  next
    case (3 n s1)
    obtain h ns where s1: "s1 = s\<lparr>dl_queue := n # ns, dl_linked := dl_linked s - {n}\<rparr>" using 3 by (auto simp: follow_head_Some)
    have e: "consume_begin s = s1\<lparr>dl_con := C_At False n\<rparr>" using 3 by (simp add: consume_begin_def)
    show ?thesis
      unfolding e by (rule follow_rep [OF R 3(2)])
        (use pc a 3 in \<open>simp_all add: s1 fresh_head_def holder_ok_def\<close>)
  qed
qed


lemma deferred_asleep:
  assumes R: "deleg_rep s a" and "a = None" and "t \<in> dl_deferred s \<or> c_wakes (dl_con s) = Some t"
  shows "dl_pc s t = E_Asleep Call" and "dl_kind s t = Call" and "t \<notin> dl_owner s ` set (waiting s a)" and "dl_runs s t = 1"
    and "t \<in> dl_deferred s \<longleftrightarrow> \<not> dl_done s t" and "c_wakes (dl_con s) = Some t \<longleftrightarrow> dl_done s t"
proof -
  have "deleg_caller s (waiting s a) t" "\<not> e_holding (dl_pc s t)" using deleg_repD(2,7) [OF R, of t] assms(2) by simp_all
  then show "dl_pc s t = E_Asleep Call" "dl_kind s t = Call" "t \<notin> dl_owner s ` set (waiting s a)" "dl_runs s t = 1"
    "t \<in> dl_deferred s \<longleftrightarrow> \<not> dl_done s t" "c_wakes (dl_con s) = Some t \<longleftrightarrow> dl_done s t"
    using assms(3) by (cases "dl_pc s t"; auto simp: deleg_caller_def split: if_splits)+
qed

lemma consume_progress_rep:
  assumes R: "deleg_rep s a" and pc: "dl_con s = C_At True h" and r: "r = None \<or> (\<exists>t \<in> dl_deferred s. r = Some t)"
  shows "deleg_rep (consume_progress h r s) a"
proof -
  note D = deleg_repD [OF R]
  have a: "a = None" "dl_queue s \<noteq> []" using consumer_holds [OF R] pc by simp_all
  have H: "h = hd (dl_queue s)" "dl_executed s" using D(10) pc by (auto simp: holder_ok_def a(1))
  let ?s = "consume_progress h r s"
  have e: "dl_queue ?s = dl_queue s" "dl_con ?s = C_Decide h r" "dl_pc ?s = dl_pc s"
    "dl_linked ?s = dl_linked s" "dl_owner ?s = dl_owner s" "dl_kind ?s = dl_kind s" "dl_runs ?s = dl_runs s"
    "dl_order ?s = dl_order s" "dl_served ?s = dl_served s" "dl_req ?s = dl_req s" "dl_sth ?s = dl_sth s"
    "dl_started ?s = dl_started s" "dl_executed ?s"
    "dl_deferred ?s = (case r of None \<Rightarrow> dl_deferred s | Some t \<Rightarrow> dl_deferred s - {t})"
    "dl_done ?s = (case r of None \<Rightarrow> dl_done s | Some t \<Rightarrow> (dl_done s)(t := True))"
    by (cases r; simp add: consume_progress_def Let_def)+
  have w: "waiting s a = tl (dl_queue s)" "waiting ?s a = tl (dl_queue s)" using a pc by (simp_all add: waiting_def fresh_head_def e)
  have cal: "deleg_caller ?s (tl (dl_queue s)) t" if c: "deleg_caller s (waiting s a) t" for t
  proof (cases "r = Some t")
    case True
    then have df: "t \<in> dl_deferred s" using r by auto
    note A = deferred_asleep [OF R a(1), of t, OF disjI1, OF df]
    have "t \<notin> dl_owner s ` set (tl (dl_queue s))" using A(3) w(1) by simp
    then show ?thesis unfolding deleg_caller_def e using A(1,2,4) True by simp
  next
    case False
    then have "t \<in> dl_deferred ?s \<longleftrightarrow> t \<in> dl_deferred s" "dl_done ?s t = dl_done s t" using e(14,15) by (cases r; simp)+
    then show ?thesis using False w(1) pc by (intro caller_frame [OF c]) (simp_all add: e(2,3,5-7))
  qed
  have "holder_ok ?s a" unfolding holder_ok_def a(1) e(1,2) using H(1) e(13) by simp
  then show ?thesis
    using cal w D(6) pc
    by (intro consumer_moves [OF R, where ws = "tl (dl_queue s)"]) (simp_all add: e(1-12))
qed

lemma consume_decide_rep:
  assumes R: "deleg_rep s a" and pc: "dl_con s = C_Decide h awake"
  shows "deleg_rep (consume_decide h awake s) a"
proof -
  note D = deleg_repD [OF R]
  have a: "a = None" "dl_queue s \<noteq> []" using consumer_holds [OF R] pc by simp_all
  have H: "h = hd (dl_queue s)" "dl_executed s" using D(10) pc by (auto simp: holder_ok_def a(1))
  let ?s = "consume_decide h awake s"
  let ?pc = "case awake of None \<Rightarrow> dl_pc s | Some t \<Rightarrow> (dl_pc s)(t := E_Ret)"
  have e: "dl_queue ?s = dl_queue s" "dl_con ?s = (if deleg_is_active s then C_Top else C_Sleep h)" "dl_pc ?s = ?pc"
    "dl_linked ?s = dl_linked s" "dl_owner ?s = dl_owner s" "dl_kind ?s = dl_kind s" "dl_runs ?s = dl_runs s"
    "dl_order ?s = dl_order s" "dl_served ?s = dl_served s" "dl_req ?s = dl_req s" "dl_sth ?s = dl_sth s"
    "dl_started ?s = dl_started s" "dl_executed ?s = dl_executed s" "dl_deferred ?s = dl_deferred s" "dl_done ?s = dl_done s"
    by (cases awake; simp add: consume_decide_def Let_def)+
  have w: "waiting s a = tl (dl_queue s)" "waiting ?s a = tl (dl_queue s)"
    unfolding waiting_def fresh_head_def a(1) e using pc H(2) by simp_all
  have pcs: "dl_pc ?s t = dl_pc s t \<or> t \<notin> dl_owner s ` set (tl (dl_queue s)) \<and> dl_pc s t \<noteq> E_Out \<and> \<not> e_holding (dl_pc ?s t)" for t
  proof (cases "awake = Some t")
    case True
    then show ?thesis unfolding e(3) using deferred_asleep [OF R a(1), of t, OF disjI2] pc w(1) by simp
  next
    case False
    then show ?thesis unfolding e(3) by (cases awake) simp_all
  qed
  have cal: "deleg_caller ?s (tl (dl_queue s)) t" if c: "deleg_caller s (waiting s a) t" for t
  proof (cases "awake = Some t")
    case True
    note A = deferred_asleep [OF R a(1), of t, OF disjI2]
    show ?thesis unfolding deleg_caller_def e using A True pc w(1) by simp
  next
    case False
    then have "dl_pc ?s t = dl_pc s t" unfolding e(3) by (cases awake) simp_all
    then show ?thesis using False w(1) pc by (intro caller_frame [OF c]) (simp_all add: e(2,5-7,14,15))
  qed
  have "holder_ok ?s a" unfolding holder_ok_def a(1) e(1,2,13,14) using H by (simp add: deleg_is_active_def)
  then show ?thesis
    using cal w D(6) pc pcs
    by (intro consumer_moves [OF R, where ws = "tl (dl_queue s)"]) (simp_all add: e(1,2,4-12))
qed

lemma consume_sleep_rep:
  assumes R: "deleg_rep s a" and pc: "dl_con s = C_Sleep h"
  shows "deleg_rep (consume_sleep h s) a"
proof -
  note D = deleg_repD [OF R]
  have a: "a = None" "dl_queue s \<noteq> []" using consumer_holds [OF R] pc by simp_all
  have H: "h = hd (dl_queue s)" "dl_executed s" "dl_deferred s = {}" using D(10) pc by (auto simp: holder_ok_def a(1))
  have ws: "waiting s a = tl (dl_queue s)" using a pc by (simp add: waiting_def fresh_head_def)
  show ?thesis
  proof (cases "dl_queue s = [h]")
    case False
    then have e: "consume_sleep h s = s\<lparr>dl_con := C_Top\<rparr>" by (simp add: consume_sleep_def)
    have "deleg_caller (s\<lparr>dl_con := C_Top\<rparr>) (waiting s a) t" if "deleg_caller s (waiting s a) t" for t
      by (rule caller_frame [OF that]) (simp_all add: pc)
    then show ?thesis
      unfolding e using a pc H(2) D(6) ws
      by (intro consumer_moves [OF R, where ws = "waiting s a"]) (simp_all add: waiting_def fresh_head_def holder_ok_def)
  next
    case True
    then have e: "consume_sleep h s = s\<lparr>dl_queue := [], dl_con := C_Parked\<rparr>" by (simp add: consume_sleep_def)
    have w: "waiting (s\<lparr>dl_queue := [], dl_con := C_Parked\<rparr>) a = []" by (simp add: waiting_def)
    have "deleg_caller (s\<lparr>dl_queue := [], dl_con := C_Parked\<rparr>) [] t" for t
      using ws True pc by (intro caller_frame [OF D(7) [of t]]) simp_all
    moreover have "\<not> e_holding (dl_pc s t)" for t using D(2) [of t] a by simp
    moreover have "holder_ok (s\<lparr>dl_queue := [], dl_con := C_Parked\<rparr>) a" using a by (simp add: holder_ok_def)
    ultimately show ?thesis
      unfolding e by (intro deleg_repI [OF w]) (use D(4,8,11) H(3) ws True in simp_all)
  qed
qed

lemma consume_node_rep:
  assumes R: "deleg_rep s a" and pc: "dl_con s = C_At False h"
  shows "\<exists>a'. deleg_rep (consume_node h ready s) a'"
proof -
  note D = deleg_repD [OF R]
  have a: "a = None" "dl_queue s \<noteq> []" using consumer_holds [OF R] pc by simp_all
  have H: "h = hd (dl_queue s)" using D(10) pc by (auto simp: holder_ok_def a(1))
  obtain ns where q: "dl_queue s = h # ns" using H a(2) by (cases "dl_queue s") auto
  have fr: "fresh_head s a" using a pc by (simp add: fresh_head_def)
  have w: "waiting s a = h # ns" using fr q by (simp add: waiting_def)
  define t where "t = dl_owner s h"
  have "node_ok s h" using D(5) w by simp
  moreover have "h \<notin> set (tl (dl_queue s))" using D(3) q by simp
  ultimately have n: "dl_req s h = (case dl_kind s t of Call \<Rightarrow> Some t | Lock \<Rightarrow> None)" "dl_pc s t = E_Asleep (dl_kind s t)"
    "dl_sth s h = (case dl_kind s t of Call \<Rightarrow> None | Lock \<Rightarrow> Some t)"
    unfolding t_def by (auto simp: node_ok_def Let_def)
  have tn: "t \<notin> dl_owner s ` set ns" using D(6) w by (auto simp: t_def)
  have tw: "t \<in> dl_owner s ` set (waiting s a)" using w by (simp add: t_def)
  show ?thesis
  proof (cases "dl_kind s t")
    case Lock
    let ?s = "egoto t E_Body (s\<lparr>dl_con := C_Parked, dl_sth := (dl_sth s)(h := None), dl_served := dl_served s @ [t]\<rparr>)"
    have e: "consume_node h ready s = ?s" using n Lock by (simp add: consume_node_def wake_locker_def)
    have u: "dl_sth s h = Some t" using n Lock by simp
    have "deleg_rep ?s (Some t)" by (rule locker_rep [OF R fr q u]) (simp_all add: a pc)
    then show ?thesis unfolding e by blast
  next
    case Call
    let ?s = "consume_node h ready s"
    have c: "dl_runs s t = 0" "\<not> dl_done s t" "t \<notin> dl_deferred s"
      using D(7) [of t] n(2) tw by (auto simp: deleg_caller_def)
    have e: "dl_queue ?s = dl_queue s" "dl_con ?s = C_Top" "dl_pc ?s = (if ready then (dl_pc s)(t := E_Ret) else dl_pc s)"
      "dl_linked ?s = dl_linked s" "dl_owner ?s = dl_owner s" "dl_kind ?s = dl_kind s" "dl_runs ?s = (dl_runs s)(t := 1)"
      "dl_order ?s = dl_order s" "dl_served ?s = dl_served s @ [t]" "dl_req ?s = dl_req s" "dl_sth ?s = dl_sth s"
      "dl_started ?s = dl_started s" "dl_executed ?s" "dl_deferred ?s = (if ready then dl_deferred s else insert t (dl_deferred s))"
      "dl_done ?s = (if ready then (dl_done s)(t := True) else dl_done s)"
      using n(1) Call c(1) by (simp_all add: consume_node_def deleg_execute_def Let_def)
    have w': "waiting ?s a = ns" using q a by (simp add: waiting_def fresh_head_def e)
    have cal: "deleg_caller ?s ns v" if v: "deleg_caller s (waiting s a) v" for v
    proof (cases "v = t")
      case True
      show ?thesis unfolding True deleg_caller_def e using n(2) Call c tn by simp
    next
      case False
      then show ?thesis
        using w pc by (intro caller_frame [OF v]) (auto simp: e t_def)
    qed
    have "holder_ok ?s a" using a by (simp add: holder_ok_def e(2))
    then have "deleg_rep ?s a"
      using cal w w' D(6) pc n(2) tn
      by (intro consumer_moves [OF R, where ws = ns]) (auto simp: e t_def)
    then show ?thesis by blast
  qed
qed

lemma deleg_step_keeps: "deleg_step s s' \<Longrightarrow> deleg_rep s a \<Longrightarrow> \<exists>a'. deleg_rep s' a'"
proof (induction rule: deleg_step.induct)
  case (start_lock s t k n)
  then show ?case using free_start_rep busy_start_rep by (cases "dl_queue s = []") blast+
qed (blast intro: call_rep deleg_link_rep execute_rep body_rep' deleg_unlock_rep deleg_try_unlock_rep deleg_follow_rep wake_rep
  return_rep consume_begin_rep consume_progress_rep consume_decide_rep consume_sleep_rep dest: deleg_hand_rep consume_node_rep)+

lemma deleg_start_rep: "deleg_rep deleg_start None"
  by (simp add: deleg_rep_def deleg_start_def waiting_def fresh_head_def deleg_caller_def holder_ok_def)

lemma deleg_reachable_rep: "deleg_reachable s \<Longrightarrow> \<exists>a. deleg_rep s a"
  by (induction rule: deleg_reachable.induct) (use deleg_start_rep deleg_step_keeps in blast)+


section \<open>The delegator keeps its promises\<close>

lemma waiting_thread:
  assumes R: "deleg_rep s a" and t: "t \<in> dl_owner s ` set (waiting s a)"
  shows "dl_runs s t = 0 \<and> ((\<exists>n. dl_pc s t = E_Linking (dl_kind s t) n) \<or> dl_pc s t = E_Asleep (dl_kind s t))"
  using deleg_repD(7) [OF R, of t] t by (cases "dl_pc s t") (auto simp: deleg_caller_def)

lemma waiting_iff:
  assumes R: "deleg_rep s a"
  shows "t \<in> dl_owner s ` set (waiting s a) \<longleftrightarrow>
    dl_runs s t = 0 \<and> ((\<exists>n. dl_pc s t = E_Linking (dl_kind s t) n) \<or> dl_pc s t = E_Asleep (dl_kind s t))"
proof (cases "t \<in> dl_owner s ` set (waiting s a)")
  case True
  then show ?thesis using waiting_thread [OF R True] by blast
next
  case False
  then show ?thesis using deleg_repD(7) [OF R, of t] by (cases "dl_pc s t") (simp_all add: deleg_caller_def)
qed

lemma sleeper_has_holder:
  assumes R: "deleg_rep s a" and pc: "\<not> settled (dl_pc s t)"
  shows "dl_queue s \<noteq> []"
proof
  assume q: "dl_queue s = []"
  have "waiting s a = []" using q by (simp add: waiting_def)
  moreover have "c_wakes (dl_con s) = None" using deleg_repD(1) [OF R] q by simp
  ultimately show False
    using deleg_repD(7) [OF R, of t] deleg_repD(9) [OF R q] pc by (cases "dl_pc s t") (auto simp: deleg_caller_def)
qed

text \<open>
  C20: a delegator with a consumer thread runs the requests one at a time and in order.  At most one thread holds the
  lock, and none while the consumer is awake; the requests and lock waiters are served in the order of their
  \<open>start_lock\<close>, those not served yet are exactly the threads about to publish their node or asleep with their
  request not run; a request runs at most once, and a call that returns has run and has its response.
\<close>

theorem delegator_serialises:
  assumes "deleg_reachable s"
  shows "(\<nexists>t u. t \<noteq> u \<and> e_holding (dl_pc s t) \<and> e_holding (dl_pc s u)) \<and>
    (\<forall>t. e_holding (dl_pc s t) \<longrightarrow> dl_con s = C_Parked) \<and>
    (\<exists>ws. dl_order s = dl_served s @ ws \<and> distinct ws \<and>
       (\<forall>t. t \<in> set ws \<longleftrightarrow>
          dl_runs s t = 0 \<and> ((\<exists>n. dl_pc s t = E_Linking (dl_kind s t) n) \<or> dl_pc s t = E_Asleep (dl_kind s t)))) \<and>
    (\<forall>t. dl_pc s t = E_Ret \<and> dl_kind s t = Call \<longrightarrow> dl_runs s t = 1 \<and> dl_done s t) \<and>
    (\<forall>t. dl_pc s t \<noteq> E_Out \<and> (\<forall>k. dl_pc s t \<noteq> E_Enter k) \<and> dl_kind s t = Call \<longrightarrow> dl_runs s t \<le> 1)"
proof -
  obtain a where R: "deleg_rep s a" using deleg_reachable_rep [OF assms] by blast
  note D = deleg_repD [OF R]
  have "dl_runs s t = 1 \<and> dl_done s t" if "dl_pc s t = E_Ret" "dl_kind s t = Call" for t
    using D(7) [of t] that by (simp add: deleg_caller_def)
  moreover have "dl_runs s t \<le> 1" if "dl_pc s t \<noteq> E_Out" "\<forall>k. dl_pc s t \<noteq> E_Enter k" "dl_kind s t = Call" for t
    using D(7) [of t] that by (cases "dl_pc s t") (auto simp: deleg_caller_def split: if_splits)
  moreover have "\<exists>ws. dl_order s = dl_served s @ ws \<and> distinct ws \<and>
      (\<forall>t. t \<in> set ws \<longleftrightarrow>
          dl_runs s t = 0 \<and> ((\<exists>n. dl_pc s t = E_Linking (dl_kind s t) n) \<or> dl_pc s t = E_Asleep (dl_kind s t)))"
    using D(6,8) waiting_iff [OF R] by (intro exI [of _ "map (dl_owner s) (waiting s a)"]) simp
  ultimately show ?thesis using D(1,2) by auto
qed

text \<open>
  C21: no caller of a delegator with a consumer thread is forgotten.  While any thread is about to publish its node or
  asleep, the consumer has been started and is awake, or a thread holds the lock; whoever is about to wake the consumer
  finds it parked, whoever is about to pass the lock on finds the waiter asleep in the node; and while nobody holds the
  lock every caller has been served and no call is deferred.
\<close>

theorem delegator_forgets_nobody:
  assumes "deleg_reachable s"
  shows "(\<forall>t k n. dl_pc s t = E_Linking k n \<or> dl_pc s t = E_Asleep k \<longrightarrow>
      dl_started s \<and> dl_con s \<noteq> C_Parked \<or> (\<exists>h. e_holding (dl_pc s h))) \<and>
    (\<forall>t w. dl_pc s t = E_Wake w \<longrightarrow> dl_con s = C_Parked) \<and>
    (\<forall>t w n. dl_pc s t = E_Hand w n \<longrightarrow> (\<exists>u. dl_sth s n = Some u \<and> dl_pc s u = E_Asleep Lock)) \<and>
    (dl_con s = C_Parked \<and> (\<nexists>h. e_holding (dl_pc s h)) \<longrightarrow>
      dl_queue s = [] \<and> dl_order s = dl_served s \<and> dl_deferred s = {})"
proof -
  obtain a where R: "deleg_rep s a" using deleg_reachable_rep [OF assms] by blast
  note D = deleg_repD [OF R]
  have 1: "dl_started s \<and> dl_con s \<noteq> C_Parked \<or> (\<exists>h. e_holding (dl_pc s h))"
    if pc: "dl_pc s t = E_Linking k n \<or> dl_pc s t = E_Asleep k" for t k n
  proof -
    have "dl_queue s \<noteq> []" by (rule sleeper_has_holder [OF R, of t]) (use pc in auto)
    then show ?thesis using D(1,2) D(11) [of t] pc by (cases a) auto
  qed
  have 2: "dl_con s = C_Parked" if "dl_pc s t = E_Wake w" for t w
    using thread_holds [OF R, of t] D(1) that by simp
  have 3: "\<exists>u. dl_sth s n = Some u \<and> dl_pc s u = E_Asleep Lock" if pc: "dl_pc s t = E_Hand w n" for t w n
  proof -
    have a: "a = Some t" "dl_queue s \<noteq> []" using thread_holds [OF R, of t] pc by simp_all
    then have n: "n = hd (dl_queue s)" "dl_sth s n \<noteq> None" using D(10) pc by (auto simp: holder_ok_def)
    have "n \<in> set (waiting s a)" using a pc n(1) by (simp add: waiting_def fresh_head_def)
    moreover have "n \<notin> set (tl (dl_queue s))" using D(3) n(1) a(2) by (cases "dl_queue s") auto
    ultimately show ?thesis using D(5) [of n] n(2) by (auto simp: node_ok_def Let_def split: call_kind.splits)
  qed
  have 4: "dl_queue s = [] \<and> dl_order s = dl_served s \<and> dl_deferred s = {}"
    if "dl_con s = C_Parked" "\<nexists>h. e_holding (dl_pc s h)"
  proof -
    have q: "dl_queue s = []" using D(1,2) that by (cases a) auto
    then show ?thesis using D(8,9) by (simp add: waiting_def)
  qed
  show ?thesis using 1 2 3 4 by blast
qed

text \<open>The request of thread 0 has been run by the consumer and deferred; thread 1 has queued a request.\<close>

definition deleg_example :: delegator where
  "deleg_example = deleg_enqueue 1 Call 2 (ensure_consumer_started 1 Call (consume_node 1 False (consume_begin
     (deleg_link 0 Call 1 (deleg_enqueue 0 Call 1 (ensure_consumer_started 0 Call deleg_start))))))"

lemmas deleg_example_defs = deleg_example_def deleg_start_def ensure_consumer_started_def deleg_enqueue_def deleg_link_def
  consume_begin_def follow_head_def consume_node_def deleg_execute_def


lemma deleg_example_reachable: "deleg_reachable deleg_example"
  unfolding deleg_example_def
  by (intro deleg_next [OF _ start_lock] deleg_next [OF _ call] deleg_next [OF _ node] deleg_next [OF _ consume]
      deleg_next [OF _ link] deleg_init)
    (simp_all add: deleg_example_defs Let_def)

theorem delegator_serialises_witness:
  "dl_runs deleg_example 0 \<le> 1 \<and> \<not> (e_holding (dl_pc deleg_example 0) \<and> e_holding (dl_pc deleg_example 1))"
proof -
  have "dl_pc deleg_example 0 \<noteq> E_Out" "\<forall>k. dl_pc deleg_example 0 \<noteq> E_Enter k" "dl_kind deleg_example 0 = Call"
    by (simp_all add: deleg_example_defs Let_def)
  moreover have "(0 :: nat) \<noteq> 1" by simp
  ultimately show ?thesis using delegator_serialises [OF deleg_example_reachable] by blast
qed

theorem delegator_forgets_nobody_witness:
  "dl_pc deleg_example 1 = E_Linking Call 2 \<and>
   (dl_started deleg_example \<and> dl_con deleg_example \<noteq> C_Parked \<or> (\<exists>h. e_holding (dl_pc deleg_example h)))"
proof -
  have "dl_pc deleg_example 1 = E_Linking Call 2" by (simp add: deleg_example_defs Let_def)
  then show ?thesis using delegator_forgets_nobody [OF deleg_example_reachable] by blast
qed


end
