(* ===== verification/Posting.thy ===== *)
theory Posting
  imports Cmpth_Prelude
begin

text \<open>
  Posting to a consumer (\<open>post.rs\<close>): a thread posts by bumping the count of its slot, and a server finds
  the slots with posts it has not covered: \<open>SlotPostDelegator\<close> looks at every slot registered,
  \<open>QueuePostDelegator\<close> keeps a list of the slots posted to.  Every access to a shared atomic is a step of
  its thread; the count of a slot and the batch of the server have one writer.  Counts are unbounded (the
  code's have 64 bits and are only incremented).
\<close>

section \<open>What both delegators keep\<close>

text \<open>
  A posting thread is named by the number its slot gets when it registers; before that it is nobody.  Where
  it is in \<open>post\<close>:
\<close>

datatype post_pc =
    P_New
  | P_Register          \<comment> \<open>has a slot, not yet in the registration list\<close>
  | P_Idle
  | P_Bump
  | P_Swap              \<comment> \<open>has bumped its count, about to swap \<open>queued\<close>\<close>
  | P_Load
  | P_Store "nat option"
  | P_Cas "nat option"
  | P_Ask

record producers =
  pr_count :: nat
  pr_list :: "nat list"         \<comment> \<open>the registration list from its head\<close>
  pr_mark :: "nat \<Rightarrow> nat"
  pr_pc :: "nat \<Rightarrow> post_pc"

abbreviation pgo :: "nat \<Rightarrow> post_pc \<Rightarrow> 'a producers_scheme \<Rightarrow> 'a producers_scheme" where
  "pgo i pc s \<equiv> s\<lparr>pr_pc := (pr_pc s)(i := pc)\<rparr>"

text \<open>\<open>Producers::register\<close>: take a number, then push the slot (the exchange that succeeds).\<close>

definition new_slot :: "'a producers_scheme \<Rightarrow> 'a producers_scheme" where
  "new_slot s = pgo (pr_count s) P_Register (s\<lparr>pr_count := pr_count s + 1\<rparr>)"

definition link_slot :: "nat \<Rightarrow> 'a producers_scheme \<Rightarrow> 'a producers_scheme" where
  "link_slot i s = pgo i P_Bump (s\<lparr>pr_list := i # pr_list s\<rparr>)"

definition bump :: "nat \<Rightarrow> 'a producers_scheme \<Rightarrow> 'a producers_scheme" where
  "bump i s = s\<lparr>pr_mark := (pr_mark s)(i := pr_mark s i + 1)\<rparr>"

text \<open>The server's part: its lock, what it has covered of each slot, the batch, and the batches served.\<close>

type_synonym post_ticket = "nat \<times> nat"

record server = producers +
  sv_busy :: bool
  sv_seen :: "nat \<Rightarrow> nat"
  sv_batch :: "post_ticket list"
  sv_served :: "post_ticket list list"

definition collect :: "nat \<Rightarrow> 'a server_scheme \<Rightarrow> 'a server_scheme" where
  "collect i s =
     (let m = pr_mark s i
      in if m \<noteq> sv_seen s i then s\<lparr>sv_seen := (sv_seen s)(i := m), sv_batch := sv_batch s @ [(i, m)]\<rparr> else s)"

definition begin_batch :: "'a server_scheme \<Rightarrow> 'a server_scheme" where
  "begin_batch s = s\<lparr>sv_batch := []\<rparr>"

definition serve_batch :: "'a server_scheme \<Rightarrow> 'a server_scheme" where
  "serve_batch s = (if sv_batch s \<noteq> [] then s\<lparr>sv_served := sv_served s @ [sv_batch s]\<rparr> else s)"

section \<open>The tickets served\<close>

definition seqs :: "nat \<Rightarrow> post_ticket list \<Rightarrow> nat list" where
  "seqs i ts = map snd (filter (\<lambda>t. fst t = i) ts)"

text \<open>
  The batches handed to the consumer, with the one being collected if it is \<open>open\<close>: they name each
  producer at most once each, its counts grow, and the last is what was seen of it.
\<close>

definition batches :: "bool \<Rightarrow> 'a server_scheme \<Rightarrow> post_ticket list list" where
  "batches open s = (if open then sv_served s @ [sv_batch s] else sv_served s)"

definition grows_to :: "nat \<Rightarrow> nat list \<Rightarrow> bool" where
  "grows_to n ms \<longleftrightarrow> sorted_wrt (<) (0 # ms) \<and> last (0 # ms) = n"

definition log_ok :: "bool \<Rightarrow> 'a server_scheme \<Rightarrow> bool" where
  "log_ok open s \<longleftrightarrow>
     (\<forall>i. sv_seen s i \<le> pr_mark s i \<and> grows_to (sv_seen s i) (seqs i (concat (batches open s)))) \<and>
     (\<forall>b \<in> set (batches open s). distinct (map fst b)) \<and> [] \<notin> set (sv_served s)"

lemma seqs_simps [simp]: "seqs i [] = []" "seqs i (xs @ ys) = seqs i xs @ seqs i ys"
  "seqs i ((j, m) # xs) = (if j = i then m # seqs i xs else seqs i xs)"
  by (simp_all add: seqs_def)

lemma sorted_snoc: "sorted_wrt (<) (xs @ [x]) \<longleftrightarrow> sorted_wrt (<) xs \<and> (xs = [] \<or> last xs < x)"
  for x :: nat
proof (induction xs)
  case (Cons a xs)
  then show ?case by (cases "xs = []") (auto dest: less_trans)
qed simp

lemma grows_snoc: "grows_to n ms \<Longrightarrow> n < m \<Longrightarrow> grows_to m (ms @ [m])"
  unfolding grows_to_def using sorted_snoc [of "0 # ms" m] by (simp del: last.simps add: last_snoc [of "0 # ms", simplified])

lemma tickets_cong:
  assumes "log_ok open s" and "batches open s' = batches open s" and "sv_served s' = sv_served s" and "sv_seen s' = sv_seen s"
    and "\<And>i. pr_mark s i \<le> pr_mark s' i"
  shows "log_ok open s'"
  using assms(1,5) order_trans unfolding log_ok_def assms(2-4) by blast

lemma bump_tickets: "log_ok open s \<Longrightarrow> log_ok open (bump i s)"
  by (erule tickets_cong) (simp_all add: batches_def bump_def)

lemma collect_tickets:
  assumes "log_ok True s" and "i \<notin> fst ` set (sv_batch s)"
  shows "log_ok True (collect i s)"
proof (cases "pr_mark s i = sv_seen s i")
  case True
  with assms(1) show ?thesis by (simp add: collect_def)
next
  case False
  have o: "grows_to (sv_seen s j) (seqs j (concat (batches True s)))" "sv_seen s j \<le> pr_mark s j"
    "b \<in> set (batches True s) \<Longrightarrow> distinct (map fst b)" for j b
    using assms(1) by (auto simp: log_ok_def)
  have e: "collect i s = s\<lparr>sv_seen := (sv_seen s)(i := pr_mark s i), sv_batch := sv_batch s @ [(i, pr_mark s i)]\<rparr>"
    using False by (simp add: collect_def Let_def)
  have "seqs j (concat (batches True (collect i s))) =
      (if j = i then seqs j (concat (batches True s)) @ [pr_mark s i] else seqs j (concat (batches True s)))" for j
    by (simp add: e batches_def)
  moreover have "sv_seen s i < pr_mark s i" using o(2) [of i] False by simp
  ultimately have "grows_to (sv_seen (collect i s) j) (seqs j (concat (batches True (collect i s))))" for j
    using o(1) [of j] grows_snoc [OF o(1) [of i], of "pr_mark s i"] by (simp add: e)
  moreover have "distinct (map fst b)" if "b \<in> set (batches True (collect i s))" for b
    using that o(3) assms(2) by (auto simp: e batches_def)
  ultimately show ?thesis
    using o(2) assms(1) by (auto simp: log_ok_def e)
qed

lemma begin_tickets: "log_ok False s \<Longrightarrow> log_ok True (begin_batch s)"
  by (simp add: log_ok_def batches_def begin_batch_def)

lemma serve_tickets: "log_ok True s \<Longrightarrow> log_ok False (serve_batch s)"
  by (cases "sv_batch s") (auto simp: log_ok_def batches_def serve_batch_def)

lemma seqs_in: "(i, m) \<in> set ts \<Longrightarrow> m \<in> set (seqs i ts)"
  by (force simp: seqs_def)

lemma sorted_le_last: "sorted_wrt (<) xs \<Longrightarrow> x \<in> set xs \<Longrightarrow> x \<le> last xs"
  for x :: nat
proof (induction xs)
  case (Cons a xs)
  then show ?case by (cases "xs = []") (auto intro: less_imp_le less_le_trans)
qed simp

lemma grows_bounds: "grows_to n ms \<Longrightarrow> m \<in> set ms \<Longrightarrow> 0 < m \<and> m \<le> n"
  using sorted_le_last [of "0 # ms" m] by (auto simp: grows_to_def)

text \<open>What the consumer sees of it.\<close>

lemma tickets_served:
  assumes "log_ok open s"
  shows "(\<forall>b \<in> set (sv_served s). b \<noteq> [] \<and> distinct (map fst b)) \<and>
    (\<forall>i. sorted_wrt (<) (seqs i (concat (sv_served s)))) \<and>
    (\<forall>b \<in> set (sv_served s). \<forall>t \<in> set b. 0 < snd t \<and> snd t \<le> pr_mark s (fst t))"
proof -
  have g: "grows_to (sv_seen s i) (seqs i (concat (batches open s)))" "sv_seen s i \<le> pr_mark s i" for i
    using assms by (simp_all add: log_ok_def)
  have e: "\<exists>ys. seqs i (concat (batches open s)) = seqs i (concat (sv_served s)) @ ys" for i
    by (auto simp: batches_def)
  have "sorted_wrt (<) (seqs i (concat (sv_served s)))" for i
    using g(1) [of i] e [of i] by (auto simp: grows_to_def sorted_wrt_append)
  moreover have "0 < m \<and> m \<le> pr_mark s i" if "b \<in> set (sv_served s)" "(i, m) \<in> set b" for b i m
  proof -
    have "(i, m) \<in> set (concat (batches open s))" using that by (auto simp: batches_def)
    from grows_bounds [OF g(1) seqs_in [OF this]] g(2) [of i] show ?thesis by simp
  qed
  ultimately show ?thesis using assms by (fastforce simp: log_ok_def batches_def)
qed

section \<open>The queue delegator\<close>

text \<open>
  A thread in \<open>serve_now\<close> or \<open>with_lock\<close>.  Thread \<open>0\<close> is whoever runs the duty's poll (a duty is run by
  one thread at a time): it serves and then looks whether to ask again.
\<close>

datatype queue_pc =
    V_Out
  | V_Look                          \<comment> \<open>about to look whether anything is pending\<close>
  | V_Try
  | V_Spin                          \<comment> \<open>in \<open>lock\<close>, for \<open>with_lock\<close>\<close>
  | V_Body
  | V_Take
  | V_Walk "nat option"
  | V_Clear nat "nat option"        \<comment> \<open>at a slot whose link has been read\<close>
  | V_Collect nat "nat option"
  | V_Serve
  | V_Unlock
  | V_Check                         \<comment> \<open>the poll, after its serve\<close>
  | V_Ask

record queue_post = server +
  qp_queued :: "nat \<Rightarrow> bool"
  qp_next :: "nat \<Rightarrow> nat option"    \<comment> \<open>the slots' \<open>next_pending\<close>\<close>
  qp_pending :: "nat option"
  qp_asked :: bool                  \<comment> \<open>the duty has a deadline\<close>
  qp_pc :: "nat \<Rightarrow> queue_pc"
  qp_owed :: "nat \<Rightarrow> nat"            \<comment> \<open>the posts the last serve had to cover: those done when it took the list\<close>

definition queue_post_start :: queue_post where
  "queue_post_start = \<lparr>pr_count = 0, pr_list = [], pr_mark = (\<lambda>_. 0), pr_pc = (\<lambda>_. P_New), sv_busy = False,
     sv_seen = (\<lambda>_. 0), sv_batch = [], sv_served = [], qp_queued = (\<lambda>_. False), qp_next = (\<lambda>_. None),
     qp_pending = None, qp_asked = False, qp_pc = (\<lambda>_. V_Out), qp_owed = (\<lambda>_. 0)\<rparr>"

abbreviation vgoto :: "nat \<Rightarrow> queue_pc \<Rightarrow> queue_post \<Rightarrow> queue_post" where
  "vgoto t pc s \<equiv> s\<lparr>qp_pc := (qp_pc s)(t := pc)\<rparr>"

text \<open>Threads between bumping their count and the end of the push.\<close>

fun pushing :: "post_pc \<Rightarrow> bool" where
  "pushing P_Load = True" | "pushing (P_Store _) = True" | "pushing (P_Cas _) = True" | "pushing _ = False"

definition posting :: "post_pc \<Rightarrow> bool" where
  "posting pc \<longleftrightarrow> pc = P_Swap \<or> pushing pc"

text \<open>\<open>post\<close>: the swap of \<open>queued\<close>, and the push on the pending list; \<open>weak\<close> is a spurious failure.\<close>

definition post_swap :: "nat \<Rightarrow> queue_post \<Rightarrow> queue_post" where
  "post_swap i s = pgo i (if qp_queued s i then P_Idle else P_Load) (s\<lparr>qp_queued := (qp_queued s)(i := True)\<rparr>)"

definition post_load :: "nat \<Rightarrow> queue_post \<Rightarrow> queue_post" where
  "post_load i s = pgo i (P_Store (qp_pending s)) s"

definition post_store :: "nat \<Rightarrow> nat option \<Rightarrow> queue_post \<Rightarrow> queue_post" where
  "post_store i h s = pgo i (P_Cas h) (s\<lparr>qp_next := (qp_next s)(i := h)\<rparr>)"

definition post_cas :: "nat \<Rightarrow> nat option \<Rightarrow> bool \<Rightarrow> queue_post \<Rightarrow> queue_post" where
  "post_cas i h weak s =
     (if qp_pending s = h \<and> \<not> weak
      then pgo i (if h = None then P_Ask else P_Idle) (s\<lparr>qp_pending := Some i\<rparr>)
      else pgo i (P_Store (qp_pending s)) s)"

definition ask :: "queue_post \<Rightarrow> queue_post" where
  "ask s = s\<lparr>qp_asked := True\<rparr>"

text \<open>Where \<open>serve_now\<close> returns to: the poll goes on to look for posts made meanwhile.\<close>

definition serve_return :: "nat \<Rightarrow> queue_pc" where
  "serve_return t = (if t = 0 then V_Check else V_Out)"

definition serve_look :: "nat \<Rightarrow> queue_post \<Rightarrow> queue_post" where
  "serve_look t s = vgoto t (if qp_pending s = None then serve_return t else V_Try) s"

definition server_try_lock :: "nat \<Rightarrow> queue_pc \<Rightarrow> queue_pc \<Rightarrow> queue_post \<Rightarrow> queue_post" where
  "server_try_lock t locked missed s =
     (if sv_busy s then vgoto t missed s else vgoto t locked (s\<lparr>sv_busy := True\<rparr>))"

definition serve_take :: "nat \<Rightarrow> queue_post \<Rightarrow> queue_post" where
  "serve_take t s =
     vgoto t (V_Walk (qp_pending s)) ((begin_batch s)\<lparr>qp_pending := None,
       qp_owed := (\<lambda>i. if posting (pr_pc s i) then sv_seen s i else pr_mark s i)\<rparr>)"

definition serve_walk :: "nat \<Rightarrow> nat option \<Rightarrow> queue_post \<Rightarrow> queue_post" where
  "serve_walk t p s = vgoto t (case p of None \<Rightarrow> V_Serve | Some i \<Rightarrow> V_Clear i (qp_next s i)) s"

definition serve_clear :: "nat \<Rightarrow> nat \<Rightarrow> nat option \<Rightarrow> queue_post \<Rightarrow> queue_post" where
  "serve_clear t i p s = vgoto t (V_Collect i p) (s\<lparr>qp_queued := (qp_queued s)(i := False)\<rparr>)"

definition server_unlock :: "nat \<Rightarrow> queue_post \<Rightarrow> queue_post" where
  "server_unlock t s = vgoto t (serve_return t) (s\<lparr>sv_busy := False\<rparr>)"

inductive queue_step :: "queue_post \<Rightarrow> queue_post \<Rightarrow> bool" where
  new_slot: "queue_step s (new_slot s)"
| link_slot: "pr_pc s i = P_Register \<Longrightarrow> queue_step s (link_slot i s)"
| post: "pr_pc s i = P_Idle \<Longrightarrow> queue_step s (pgo i P_Bump s)"
| bump: "pr_pc s i = P_Bump \<Longrightarrow> queue_step s (pgo i P_Swap (bump i s))"
| swap: "pr_pc s i = P_Swap \<Longrightarrow> queue_step s (post_swap i s)"
| load: "pr_pc s i = P_Load \<Longrightarrow> queue_step s (post_load i s)"
| store: "pr_pc s i = P_Store p \<Longrightarrow> queue_step s (post_store i p s)"
| cas: "pr_pc s i = P_Cas p \<Longrightarrow> queue_step s (post_cas i p weak s)"
| ask: "pr_pc s i = P_Ask \<Longrightarrow> queue_step s (pgo i P_Idle (ask s))"
| poll: "qp_pc s 0 = V_Out \<Longrightarrow> queue_step s (vgoto 0 V_Look (s\<lparr>qp_asked := False\<rparr>))"
| serve_now: "qp_pc s t = V_Out \<Longrightarrow> t \<noteq> 0 \<Longrightarrow> queue_step s (vgoto t V_Look s)"
| with_lock: "qp_pc s t = V_Out \<Longrightarrow> t \<noteq> 0 \<Longrightarrow> queue_step s (vgoto t V_Spin s)"
| look: "qp_pc s t = V_Look \<Longrightarrow> queue_step s (serve_look t s)"
| try_lock: "qp_pc s t = V_Try \<Longrightarrow> queue_step s (server_try_lock t V_Take (serve_return t) s)"
| lock: "qp_pc s t = V_Spin \<Longrightarrow> queue_step s (server_try_lock t V_Body V_Spin s)"
| body: "qp_pc s t = V_Body \<Longrightarrow> queue_step s (vgoto t V_Unlock s)"
| take: "qp_pc s t = V_Take \<Longrightarrow> queue_step s (serve_take t s)"
| walk: "qp_pc s t = V_Walk p \<Longrightarrow> queue_step s (serve_walk t p s)"
| clear: "qp_pc s t = V_Clear i p \<Longrightarrow> queue_step s (serve_clear t i p s)"
| collect: "qp_pc s t = V_Collect i p \<Longrightarrow> queue_step s (vgoto t (V_Walk p) (collect i s))"
| serve: "qp_pc s t = V_Serve \<Longrightarrow> queue_step s (vgoto t V_Unlock (serve_batch s))"
| unlock: "qp_pc s t = V_Unlock \<Longrightarrow> queue_step s (server_unlock t s)"
| check: "qp_pc s t = V_Check \<Longrightarrow> queue_step s (vgoto t (if qp_pending s = None then V_Out else V_Ask) s)"
| ask_again: "qp_pc s t = V_Ask \<Longrightarrow> queue_step s (vgoto t V_Out (ask s))"

inductive queue_reachable :: "queue_post \<Rightarrow> bool" where
  queue_init: "queue_reachable queue_post_start"
| queue_next: "queue_reachable s \<Longrightarrow> queue_step s s' \<Longrightarrow> queue_reachable s'"

section \<open>What holds in every reachable state\<close>

text \<open>
  The holder \<open>h\<close> of the server lock, the pending list \<open>L\<close> and what is left of the list being walked, \<open>W\<close>:
  a slot is \<open>queued\<close> while it is in one of them or its thread is about to push it, and a slot with posts not
  covered is in one of them, or being collected, or its thread is still in \<open>post\<close>.
\<close>

fun inside :: "queue_pc \<Rightarrow> bool" where
  "inside V_Body = True" | "inside V_Take = True" | "inside (V_Walk _) = True" | "inside (V_Clear _ _) = True"
| "inside (V_Collect _ _) = True" | "inside V_Serve = True" | "inside V_Unlock = True" | "inside _ = False"

fun walking :: "queue_pc \<Rightarrow> bool" where
  "walking (V_Walk _) = True" | "walking (V_Clear _ _) = True" | "walking (V_Collect _ _) = True"
| "walking V_Serve = True" | "walking _ = False"

fun collecting :: "queue_pc \<Rightarrow> nat option" where
  "collecting (V_Collect i _) = Some i" | "collecting _ = None"

fun walk_left :: "(nat \<Rightarrow> nat option) \<Rightarrow> queue_pc \<Rightarrow> nat list \<Rightarrow> bool" where
  "walk_left nx (V_Walk p) W \<longleftrightarrow> chain nx p W"
| "walk_left nx (V_Clear i p) W \<longleftrightarrow> (\<exists>W'. W = i # W' \<and> chain nx p W')"
| "walk_left nx (V_Collect i p) W \<longleftrightarrow> chain nx p W"
| "walk_left nx _ W \<longleftrightarrow> W = []"

definition slot_fine :: "post_pc \<Rightarrow> bool \<Rightarrow> nat option \<Rightarrow> bool \<Rightarrow> bool \<Rightarrow> bool \<Rightarrow> bool \<Rightarrow> bool \<Rightarrow> bool \<Rightarrow> bool \<Rightarrow> bool" where
  "slot_fine pc queued nx covered paid numbered in_L in_W col noted \<longleftrightarrow>
     queued = (in_L \<or> in_W \<or> pushing pc) \<and> (pushing pc \<longrightarrow> \<not> in_L \<and> \<not> in_W) \<and> (\<forall>p. pc = P_Cas p \<longrightarrow> nx = p) \<and>
     (covered \<or> in_L \<or> in_W \<or> col \<or> posting pc) \<and> (paid \<or> in_W \<or> col) \<and> (noted \<longrightarrow> \<not> in_W \<and> \<not> col) \<and>
     (col \<longrightarrow> \<not> in_W) \<and> (numbered \<or> pc = P_New) \<and>
     (pc = P_New \<or> pc = P_Register \<longrightarrow> \<not> in_L \<and> \<not> in_W \<and> covered)"

definition slot_ok :: "queue_post \<Rightarrow> queue_pc \<Rightarrow> nat list \<Rightarrow> nat list \<Rightarrow> nat \<Rightarrow> bool" where
  "slot_ok s hpc L W i \<longleftrightarrow>
     slot_fine (pr_pc s i) (qp_queued s i) (qp_next s i) (pr_mark s i = sv_seen s i)
       (qp_owed s i \<le> sv_seen s i) (i < pr_count s)
       (i \<in> set L) (i \<in> set W) (collecting hpc = Some i) (walking hpc \<and> i \<in> fst ` set (sv_batch s)) \<and>
     qp_owed s i \<le> pr_mark s i"

definition queue_rep :: "queue_post \<Rightarrow> nat \<Rightarrow> nat list \<Rightarrow> nat list \<Rightarrow> bool" where
  "queue_rep s h L W \<longleftrightarrow>
     chain (qp_next s) (qp_pending s) L \<and> distinct (L @ W) \<and>
     (\<forall>t. inside (qp_pc s t) \<longleftrightarrow> sv_busy s \<and> t = h) \<and> walk_left (qp_next s) (qp_pc s h) W \<and>
     (\<forall>i. slot_ok s (qp_pc s h) L W i) \<and> log_ok (walking (qp_pc s h)) s \<and>
     (qp_pending s \<noteq> None \<longrightarrow> qp_asked s \<or> (\<exists>i. pr_pc s i = P_Ask) \<or> qp_pc s 0 \<noteq> V_Out)"

lemma queue_repD:
  assumes "queue_rep s h L W"
  shows "chain (qp_next s) (qp_pending s) L" and "distinct (L @ W)" and "inside (qp_pc s t) \<longleftrightarrow> sv_busy s \<and> t = h"
    and "walk_left (qp_next s) (qp_pc s h) W" and "slot_ok s (qp_pc s h) L W i" and "log_ok (walking (qp_pc s h)) s"
    and "qp_pending s \<noteq> None \<Longrightarrow> qp_asked s \<or> (\<exists>i. pr_pc s i = P_Ask) \<or> qp_pc s 0 \<noteq> V_Out"
  using assms by (simp_all add: queue_rep_def)

section \<open>Every step keeps it\<close>

text \<open>The tickets do not depend on where the threads are or on the lists.\<close>

lemma tickets_frame [simp]:
  "log_ok b (s\<lparr>qp_pc := v\<rparr>) = log_ok b s" "log_ok b (s\<lparr>qp_queued := q\<rparr>) = log_ok b s"
  "log_ok b (s\<lparr>qp_next := x\<rparr>) = log_ok b s" "log_ok b (s\<lparr>qp_pending := p\<rparr>) = log_ok b s"
  "log_ok b (s\<lparr>qp_asked := a\<rparr>) = log_ok b s" "log_ok b (s\<lparr>sv_busy := a\<rparr>) = log_ok b s"
  "log_ok b (s\<lparr>pr_pc := c\<rparr>) = log_ok b s" "log_ok b (s\<lparr>qp_owed := w\<rparr>) = log_ok b s"
  by (simp_all add: log_ok_def batches_def)

lemma walk_left_frame: "i \<notin> set W \<Longrightarrow> walk_left (nx(i := v)) pc W \<longleftrightarrow> walk_left nx pc W"
  by (cases pc) (auto simp: chain_frame simp del: fun_upd_apply)

lemma slot_fine_numbered:
  "slot_fine pc q nx c pd n l w co b \<Longrightarrow> (n \<Longrightarrow> n') \<Longrightarrow> slot_fine pc q nx c pd n' l w co b"
  by (simp add: slot_fine_def) blast

text \<open>A step of the producer \<open>i\<close> off the lists.\<close>

lemma producer_moves:
  assumes R: "queue_rep s h L W"
    and same: "qp_pc s' = qp_pc s" "sv_busy s' = sv_busy s" "sv_seen s' = sv_seen s" "sv_batch s' = sv_batch s"
      "sv_served s' = sv_served s" "qp_pending s' = qp_pending s" "qp_owed s' = qp_owed s" "pr_count s \<le> pr_count s'"
    and others: "\<And>j. j \<noteq> i \<Longrightarrow> pr_pc s' j = pr_pc s j \<and> pr_mark s' j = pr_mark s j \<and> qp_queued s' j = qp_queued s j"
    and mark: "pr_mark s i \<le> pr_mark s' i"
    and nxt: "qp_next s' = qp_next s \<or> i \<notin> set (L @ W) \<and> (\<exists>v. qp_next s' = (qp_next s)(i := v))"
    and slot: "slot_ok s' (qp_pc s h) L W i"
    and asked: "qp_asked s \<Longrightarrow> qp_asked s'" "pr_pc s i = P_Ask \<Longrightarrow> qp_asked s'"
  shows "queue_rep s' h L W"
proof -
  note Q = queue_repD [OF R]
  have c: "chain (qp_next s') (qp_pending s') L" "walk_left (qp_next s') (qp_pc s' h) W"
    using nxt Q(1,4) by (auto simp: same chain_frame walk_left_frame simp del: fun_upd_apply)
  have nx: "qp_next s' j = qp_next s j" if "j \<noteq> i" for j using nxt that by auto
  have sl: "slot_ok s' (qp_pc s' h) L W j" for j
  proof (cases "j = i")
    case False
    have "slot_ok s (qp_pc s h) L W j" by (rule Q(5))
    then show ?thesis
      using others [OF False] nx [OF False] same(8) slot_fine_numbered [of _ _ _ _ _ "j < pr_count s" _ _ _ _ "j < pr_count s'"]
      unfolding slot_ok_def same by simp
  qed (use slot same(1) in simp)
  have mk: "pr_mark s j \<le> pr_mark s' j" for j using mark others [of j] by (cases "j = i") auto
  have tk: "log_ok (walking (qp_pc s' h)) s'"
    using Q(6) mk by (auto intro: tickets_cong simp: same batches_def)
  have pd: "qp_asked s' \<or> (\<exists>j. pr_pc s' j = P_Ask) \<or> qp_pc s' 0 \<noteq> V_Out" if "qp_pending s' \<noteq> None"
  proof -
    consider "qp_asked s" | j where "pr_pc s j = P_Ask" | "qp_pc s 0 \<noteq> V_Out" using Q(7) \<open>qp_pending s' \<noteq> None\<close> same by auto
    then show ?thesis
    proof cases
      case (2 j)
      then show ?thesis using asked(2) others [of j] by (cases "j = i") auto
    qed (use asked(1) same(1) in auto)
  qed
  show ?thesis using c Q(2,3) sl tk pd unfolding queue_rep_def same by blast
qed

lemma queued_not_linking:
  assumes "queue_rep s h L W"
  shows "\<not> pushing (pr_pc s i) \<Longrightarrow> qp_queued s i = (i \<in> set (L @ W))"
  using queue_repD(5) [OF assms, of i] by (simp add: slot_ok_def slot_fine_def)

lemma new_slot_rep:
  assumes "queue_rep s h L W"
  shows "queue_rep (new_slot s) h L W"
  by (rule producer_moves [OF assms, where i = "pr_count s"])
    (use queue_repD(5) [OF assms, of "pr_count s"] in \<open>auto simp: new_slot_def slot_ok_def slot_fine_def\<close>)

lemma pushed_rep:
  assumes R: "queue_rep s h L W" and pc: "pr_pc s i = P_Cas p" and pd: "qp_pending s = p"
  shows "queue_rep (pgo i (if p = None then P_Ask else P_Idle) (s\<lparr>qp_pending := Some i\<rparr>)) h (i # L) W"
    (is "queue_rep ?s h _ W")
proof -
  note Q = queue_repD [OF R]
  have i: "i \<notin> set (L @ W)" "qp_next s i = p" "qp_queued s i" "i < pr_count s" using Q(5) [of i] pc by (auto simp: slot_ok_def slot_fine_def)
  have sl: "slot_ok ?s (qp_pc ?s h) (i # L) W j" for j
    using Q(5) [of j] pc i by (cases "j = i") (auto simp: slot_ok_def slot_fine_def)
  have "log_ok (walking (qp_pc ?s h)) ?s"
    using tickets_cong [OF Q(6), of ?s] by (simp add: batches_def)
  moreover have "qp_asked ?s \<or> (\<exists>j. pr_pc ?s j = P_Ask) \<or> qp_pc ?s 0 \<noteq> V_Out"
  proof (cases p)
    case None
    then have "pr_pc ?s i = P_Ask" by simp
    then show ?thesis by blast
  next
    case (Some k)
    then consider "qp_asked s" | j where "pr_pc s j = P_Ask" | "qp_pc s 0 \<noteq> V_Out" using Q(7) pd by auto
    then show ?thesis
    proof cases
      case (2 j)
      then have "pr_pc ?s j = P_Ask" using pc by auto
      then show ?thesis by blast
    qed simp_all
  qed
  ultimately show ?thesis using Q(1-4) i pd sl unfolding queue_rep_def by auto
qed

lemma post_cas_rep:
  assumes "queue_rep s h L W" and "pr_pc s i = P_Cas p"
  shows "\<exists>L'. queue_rep (post_cas i p weak s) h L' W"
proof (cases "qp_pending s = p \<and> \<not> weak")
  case True
  then show ?thesis using pushed_rep [OF assms] by (auto simp: post_cas_def)
next
  case False
  have "queue_rep (pgo i (P_Store (qp_pending s)) s) h L W"
    by (rule producer_moves [OF assms(1), where i = i])
      (use queue_repD(5) [OF assms(1), of i] assms(2) in \<open>auto simp: slot_ok_def slot_fine_def posting_def\<close>)
  then show ?thesis using False by (auto simp: post_cas_def)
qed

text \<open>A step of the thread \<open>t\<close> outside the lock.\<close>

lemma outside_moves:
  assumes R: "queue_rep s h L W" and pc: "\<not> inside (qp_pc s t)" "\<not> inside pc"
    and asked: "t = 0 \<Longrightarrow> pc = V_Out \<Longrightarrow> qp_pending s = None \<or> b"
    and b: "b = qp_asked s \<or> t = 0 \<and> pc \<noteq> V_Out \<or> b"
  shows "queue_rep (vgoto t pc (s\<lparr>qp_asked := b\<rparr>)) h L W"
proof -
  note Q = queue_repD [OF R]
  let ?s = "vgoto t pc (s\<lparr>qp_asked := b\<rparr>)"
  have no: "\<not> walking c \<and> collecting c = None \<and> walk_left nx c = (\<lambda>W. W = [])" if "\<not> inside c" for c nx
    using that by (cases c) auto
  have e: "walking (qp_pc ?s h) = walking (qp_pc s h)" "collecting (qp_pc ?s h) = collecting (qp_pc s h)"
    "walk_left (qp_next s) (qp_pc ?s h) W = walk_left (qp_next s) (qp_pc s h) W"
    using no [OF pc(1)] no [OF pc(2)] by (cases "t = h"; simp)+
  have "slot_ok ?s (qp_pc ?s h) L W i" for i using Q(5) [of i] unfolding slot_ok_def e by simp
  moreover have "log_ok (walking (qp_pc ?s h)) ?s" unfolding e using Q(6) by (rule tickets_cong) (simp_all add: batches_def)
  moreover have "inside (qp_pc ?s u) = inside (qp_pc s u)" for u using pc by simp
  moreover have "walk_left (qp_next ?s) (qp_pc ?s h) W" using Q(4) e(3) by (simp del: fun_upd_apply)
  ultimately show ?thesis using Q(1-3,7) asked b unfolding queue_rep_def by auto
qed

text \<open>A step of the thread \<open>t\<close> that gets the lock, or holds it.\<close>

lemma server_moves:
  assumes R: "queue_rep s h L W" and t: "inside (qp_pc s t) \<or> \<not> sv_busy s"
    and same: "qp_pc s' = (qp_pc s)(t := pc)" "pr_pc s' = pr_pc s" "pr_mark s' = pr_mark s" "pr_count s' = pr_count s"
      "qp_next s' = qp_next s" "qp_asked s' = qp_asked s"
    and pc: "inside pc = sv_busy s'" "pc \<noteq> V_Out \<or> t \<noteq> 0" "qp_pending s' = None \<or> qp_pending s' = qp_pending s"
    and lists: "chain (qp_next s) (qp_pending s') L'" "distinct (L' @ W')" "walk_left (qp_next s) pc W'"
    and slots: "\<And>i. slot_ok s (qp_pc s h) L W i \<Longrightarrow> slot_ok s' pc L' W' i" and tk: "log_ok (walking pc) s'"
  shows "queue_rep s' t L' W'"
proof -
  note Q = queue_repD [OF R]
  have pd: "qp_asked s' \<or> (\<exists>i. pr_pc s' i = P_Ask) \<or> qp_pc s' 0 \<noteq> V_Out" if "qp_pending s' \<noteq> None"
    using Q(7) pc(2,3) that by (auto simp: same)
  have ins: "inside (qp_pc s' u) \<longleftrightarrow> sv_busy s' \<and> u = t" for u
    using Q(3) t pc(1) by (auto simp: same)
  show ?thesis using lists ins slots Q(5) tk pd unfolding queue_rep_def same by auto
qed

lemma holder_is: "queue_rep s h L W \<Longrightarrow> inside (qp_pc s t) \<Longrightarrow> t = h"
  using queue_repD(3) by blast

lemma free_lists:
  assumes "queue_rep s h L W" and "\<not> sv_busy s"
  shows "W = []" and "\<not> walking (qp_pc s h)" and "collecting (qp_pc s h) = None"
  using queue_repD(3) [OF assms(1), of h] queue_repD(4) [OF assms(1)] assms(2) by (cases "qp_pc s h"; simp)+

lemma lock_rep:
  assumes R: "queue_rep s h L W" and "\<not> sv_busy s" and "pc = V_Take \<or> pc = V_Body"
  shows "queue_rep (vgoto t pc (s\<lparr>sv_busy := True\<rparr>)) t L []"
  by (rule server_moves [OF R])
    (use assms(2,3) queue_repD(1,2,6) [OF R] free_lists [OF R assms(2)] in \<open>auto simp: slot_ok_def slot_fine_def\<close>)

lemma server_try_lock_rep:
  assumes R: "queue_rep s h L W" and "\<not> inside (qp_pc s t)" and "pc = V_Take \<or> pc = V_Body" and "\<not> inside pc'"
    and "pc' \<noteq> V_Out \<or> t \<noteq> 0"
  shows "\<exists>h' W'. queue_rep (server_try_lock t pc pc' s) h' L W'"
proof (cases "sv_busy s")
  case True
  have "queue_rep (vgoto t pc' (s\<lparr>qp_asked := qp_asked s\<rparr>)) h L W"
    by (rule outside_moves [OF R]) (use assms in auto)
  then show ?thesis using True by (auto simp: server_try_lock_def)
next
  case False
  then show ?thesis using lock_rep [OF R False assms(3), of t] by (auto simp: server_try_lock_def)
qed

lemma body_rep:
  assumes R: "queue_rep s h L W" and pc: "qp_pc s t = V_Body"
  shows "queue_rep (vgoto t V_Unlock s) t L W"
proof -
  have h: "h = t" using holder_is [OF R, of t] pc by simp
  show ?thesis
    by (rule server_moves [OF R])
      (use queue_repD(1,2,4,6) [OF R] queue_repD(3) [OF R, of t] pc h in \<open>auto simp: slot_ok_def slot_fine_def\<close>)
qed

lemma take_rep:
  assumes R: "queue_rep s h L W" and pc: "qp_pc s t = V_Take"
  shows "queue_rep (serve_take t s) t [] L"
proof -
  have h: "h = t" using holder_is [OF R, of t] pc by simp
  have b: "sv_busy s" using queue_repD(3) [OF R, of t] pc by simp
  have W: "W = []" using queue_repD(4) [OF R] pc h by simp
  have sn: "sv_seen s i \<le> pr_mark s i" for i using queue_repD(6) [OF R] by (simp add: log_ok_def)
  have "log_ok True (serve_take t s)"
    using begin_tickets [of s] queue_repD(6) [OF R] pc h
    by (auto simp: serve_take_def begin_batch_def batches_def elim!: tickets_cong)
  then show ?thesis
    by (intro server_moves [OF R, where pc = "V_Walk (qp_pending s)"])
      (use queue_repD(1,2) [OF R] sn pc h W b in \<open>auto simp: slot_ok_def slot_fine_def serve_take_def begin_batch_def posting_def\<close>)
qed

lemma walk_rep:
  assumes R: "queue_rep s h L W" and pc: "qp_pc s t = V_Walk p"
  shows "queue_rep (serve_walk t p s) t L W"
proof -
  have h: "h = t" using holder_is [OF R, of t] pc by simp
  have b: "sv_busy s" using queue_repD(3) [OF R, of t] pc by simp
  have W: "chain (qp_next s) p W" using queue_repD(4) [OF R] pc h by simp
  define pc' where "pc' = (case p of None \<Rightarrow> V_Serve | Some i \<Rightarrow> V_Clear i (qp_next s i))"
  have pc': "inside pc'" "pc' \<noteq> V_Out" "walking pc'" "collecting pc' = None" "walk_left (qp_next s) pc' W"
    using W by (auto simp: pc'_def chain_Some split: option.splits)
  have "log_ok True (serve_walk t p s)"
    using queue_repD(6) [OF R] pc h by (auto simp: serve_walk_def batches_def elim!: tickets_cong)
  then show ?thesis
    by (intro server_moves [OF R, where pc = pc'])
      (use queue_repD(1,2) [OF R] pc h W b pc' in \<open>auto simp: slot_ok_def slot_fine_def serve_walk_def pc'_def [symmetric]\<close>)
qed

lemma clear_rep:
  assumes R: "queue_rep s h L W" and pc: "qp_pc s t = V_Clear i p"
  shows "queue_rep (serve_clear t i p s) t L (tl W)"
proof -
  have h: "h = t" using holder_is [OF R, of t] pc by simp
  have b: "sv_busy s" using queue_repD(3) [OF R, of t] pc by simp
  obtain W' where W: "W = i # W'" "chain (qp_next s) p W'" using queue_repD(4) [OF R] pc h by auto
  have "log_ok True (serve_clear t i p s)"
    using queue_repD(6) [OF R] pc h by (auto simp: serve_clear_def batches_def elim!: tickets_cong)
  then show ?thesis
    by (intro server_moves [OF R, where pc = "V_Collect i p"])
      (use queue_repD(1,2) [OF R] pc h W b in \<open>auto simp: slot_ok_def slot_fine_def serve_clear_def\<close>)
qed

lemma collect_rep:
  assumes R: "queue_rep s h L W" and pc: "qp_pc s t = V_Collect i p"
  shows "queue_rep (vgoto t (V_Walk p) (collect i s)) t L W"
proof -
  have h: "h = t" using holder_is [OF R, of t] pc by simp
  have b: "sv_busy s" using queue_repD(3) [OF R, of t] pc by simp
  have W: "chain (qp_next s) p W" using queue_repD(4) [OF R] pc h by simp
  have i: "i \<notin> fst ` set (sv_batch s)" "i \<notin> set W" using queue_repD(5) [OF R, of i] pc h by (auto simp: slot_ok_def slot_fine_def)
  have "log_ok True (collect i s)"
    using queue_repD(6) [OF R] pc h i by (intro collect_tickets) auto
  then have tk: "log_ok True (vgoto t (V_Walk p) (collect i s))"
    by (rule tickets_cong) (simp_all add: batches_def)
  have f: "qp_pc (collect i s) = qp_pc s" "pr_pc (collect i s) = pr_pc s" "pr_mark (collect i s) = pr_mark s"
    "pr_count (collect i s) = pr_count s" "qp_next (collect i s) = qp_next s" "qp_asked (collect i s) = qp_asked s"
    "qp_owed (collect i s) = qp_owed s"
    "sv_busy (collect i s) = sv_busy s" "qp_pending (collect i s) = qp_pending s" "qp_queued (collect i s) = qp_queued s"
    "sv_seen (collect i s) = (sv_seen s)(i := pr_mark s i)" "fst ` set (sv_batch (collect i s)) \<subseteq> insert i (fst ` set (sv_batch s))"
    by (auto simp: collect_def Let_def)
  show ?thesis
  proof (rule server_moves [OF R, where pc = "V_Walk p"])
    fix j assume "slot_ok s (qp_pc s h) L W j"
    then show "slot_ok (vgoto t (V_Walk p) (collect i s)) (V_Walk p) L W j"
      using pc h i f(12) by (cases "j = i") (auto simp: slot_ok_def slot_fine_def f(1-11))
  qed (use queue_repD(1,2) [OF R] pc h W b tk in \<open>auto simp: f(1-11)\<close>)
qed

lemma serve_rep:
  assumes R: "queue_rep s h L W" and pc: "qp_pc s t = V_Serve"
  shows "queue_rep (vgoto t V_Unlock (serve_batch s)) t L W"
proof -
  have h: "h = t" using holder_is [OF R, of t] pc by simp
  have b: "sv_busy s" using queue_repD(3) [OF R, of t] pc by simp
  have "log_ok False (serve_batch s)" using queue_repD(6) [OF R] pc h by (intro serve_tickets) simp
  then have "log_ok False (vgoto t V_Unlock (serve_batch s))"
    by (rule tickets_cong) (simp_all add: batches_def)
  then show ?thesis
    by (intro server_moves [OF R, where pc = V_Unlock])
      (use queue_repD(1,2,4) [OF R] pc h b in \<open>auto simp: slot_ok_def slot_fine_def serve_batch_def\<close>)
qed

lemma unlock_rep:
  assumes R: "queue_rep s h L W" and pc: "qp_pc s t = V_Unlock"
  shows "queue_rep (server_unlock t s) t L W"
proof -
  have h: "h = t" using holder_is [OF R, of t] pc by simp
  have "log_ok False (server_unlock t s)"
    using queue_repD(6) [OF R] pc h by (auto simp: server_unlock_def batches_def elim!: tickets_cong)
  then show ?thesis
    by (intro server_moves [OF R, where pc = "serve_return t"])
      (use queue_repD(1,2,4) [OF R] pc h in \<open>auto simp: slot_ok_def slot_fine_def server_unlock_def serve_return_def\<close>)
qed

lemma queue_step_keeps: "queue_step s s' \<Longrightarrow> queue_rep s h L W \<Longrightarrow> \<exists>h L W. queue_rep s' h L W"
proof (induction rule: queue_step.induct)
  case (new_slot s)
  then show ?case using new_slot_rep by blast
next
  case (link_slot s i)
  have "queue_rep (link_slot i s) h L W"
    by (rule producer_moves [OF link_slot(2), where i = i])
      (use link_slot(1) queue_repD(5) [OF link_slot(2), of i] in \<open>auto simp: link_slot_def slot_ok_def slot_fine_def\<close>)
  then show ?case by blast
next
  case (post s i)
  have "queue_rep (pgo i P_Bump s) h L W"
    by (rule producer_moves [OF post(2), where i = i])
      (use post(1) queue_repD(5) [OF post(2), of i] in \<open>auto simp: slot_ok_def slot_fine_def posting_def\<close>)
  then show ?case by blast
next
  case (bump s i)
  have "queue_rep (pgo i P_Swap (bump i s)) h L W"
    by (rule producer_moves [OF bump(2), where i = i])
      (use bump(1) queue_repD(5) [OF bump(2), of i] in \<open>auto simp: bump_def slot_ok_def slot_fine_def posting_def\<close>)
  then show ?case by blast
next
  case (swap s i)
  have "queue_rep (post_swap i s) h L W"
    by (rule producer_moves [OF swap(2), where i = i])
      (use swap(1) queue_repD(5) [OF swap(2), of i] in \<open>auto simp: post_swap_def slot_ok_def slot_fine_def posting_def\<close>)
  then show ?case by blast
next
  case (load s i)
  have "queue_rep (post_load i s) h L W"
    by (rule producer_moves [OF load(2), where i = i])
      (use load(1) queue_repD(5) [OF load(2), of i] in \<open>auto simp: post_load_def slot_ok_def slot_fine_def posting_def\<close>)
  then show ?case by blast
next
  case (store s i p)
  have "queue_rep (post_store i p s) h L W"
    by (rule producer_moves [OF store(2), where i = i])
      (use store(1) queue_repD(5) [OF store(2), of i] in \<open>auto simp: post_store_def slot_ok_def slot_fine_def posting_def\<close>)
  then show ?case by blast
next
  case (cas s i p weak)
  then show ?case using post_cas_rep by blast
next
  case (ask s i)
  have "queue_rep (pgo i P_Idle (ask s)) h L W"
    by (rule producer_moves [OF ask(2), where i = i])
      (use ask(1) queue_repD(5) [OF ask(2), of i] in \<open>auto simp: ask_def slot_ok_def slot_fine_def posting_def\<close>)
  then show ?case by blast
next
  case (poll s)
  then show ?case using outside_moves [OF poll(2), of 0 V_Look False] by auto
next
  case (serve_now s t)
  then show ?case using outside_moves [OF serve_now(3), of t V_Look "qp_asked s"] by auto
next
  case (with_lock s t)
  then show ?case using outside_moves [OF with_lock(3), of t V_Spin "qp_asked s"] by auto
next
  case (look s t)
  define pc where "pc = (if qp_pending s = None then serve_return t else V_Try)"
  have "\<not> inside pc" "t = 0 \<Longrightarrow> pc \<noteq> V_Out" by (auto simp: pc_def serve_return_def)
  then have "queue_rep (serve_look t s) h L W"
    using outside_moves [OF look(2), of t pc "qp_asked s"] look(1) by (auto simp: serve_look_def pc_def [symmetric])
  then show ?case by blast
next
  case (try_lock s t)
  have "\<not> inside (serve_return t)" "serve_return t \<noteq> V_Out \<or> t \<noteq> 0" by (simp_all add: serve_return_def)
  then show ?case using server_try_lock_rep [OF try_lock(2), of t V_Take "serve_return t"] try_lock(1) by simp blast
next
  case (lock s t)
  then show ?case using server_try_lock_rep [OF lock(2), of t V_Body V_Spin] by simp blast
next
  case (check s t)
  define pc where "pc = (if qp_pending s = None then V_Out else V_Ask)"
  have "\<not> inside pc" "pc = V_Out \<Longrightarrow> qp_pending s = None" by (auto simp: pc_def split: if_splits)
  then have "queue_rep (vgoto t pc s) h L W"
    using outside_moves [OF check(2), of t pc "qp_asked s"] check(1) by auto
  then have "queue_rep (vgoto t (if qp_pending s = None then V_Out else V_Ask) s) h L W" unfolding pc_def .
  then show ?case by blast
next
  case (ask_again s t)
  then show ?case using outside_moves [OF ask_again(2), of t V_Out True] by (auto simp: ask_def)
qed (blast dest: body_rep take_rep walk_rep clear_rep collect_rep serve_rep unlock_rep)+

lemma queue_start_rep: "queue_rep queue_post_start 0 [] []"
  by (simp add: queue_rep_def slot_ok_def slot_fine_def log_ok_def grows_to_def batches_def queue_post_start_def)

lemma queue_reachable_rep: "queue_reachable s \<Longrightarrow> \<exists>h L W. queue_rep s h L W"
  by (induction rule: queue_reachable.induct) (use queue_start_rep queue_step_keeps in blast)+

section \<open>What the queue delegator promises\<close>

text \<open>
  C25: posts to a queue delegator are not lost, in every interleaving.  A slot with posts not covered is in the
  pending list, or a serve is under way, or its thread is still in \<open>post\<close>; while the list is not empty a poll
  of the duty is asked for, about to be, or running; so when nobody is in the middle of anything and no
  poll is asked for, every post is covered.  And a serve that has walked its list covers every post that was
  done when it took the list.
\<close>

theorem queue_posts_not_lost:
  assumes "queue_reachable s"
  shows "(\<forall>i. pr_mark s i \<noteq> sv_seen s i \<longrightarrow> posting (pr_pc s i) \<or> (\<exists>t. walking (qp_pc s t)) \<or>
            (\<exists>L. chain (qp_next s) (qp_pending s) L \<and> i \<in> set L)) \<and>
    (qp_pending s \<noteq> None \<longrightarrow> qp_asked s \<or> (\<exists>i. pr_pc s i = P_Ask) \<or> qp_pc s 0 \<noteq> V_Out) \<and>
    ((\<forall>i. \<not> posting (pr_pc s i) \<and> pr_pc s i \<noteq> P_Ask) \<and> (\<forall>t. \<not> walking (qp_pc s t)) \<and> qp_pc s 0 = V_Out \<and> \<not> qp_asked s \<longrightarrow>
       (\<forall>i. pr_mark s i = sv_seen s i)) \<and>
    ((\<exists>t. qp_pc s t = V_Serve \<or> qp_pc s t = V_Unlock) \<longrightarrow> (\<forall>i. qp_owed s i \<le> sv_seen s i))"
proof -
  obtain h L W where R: "queue_rep s h L W" using queue_reachable_rep [OF assms] by blast
  note Q = queue_repD [OF R]
  have W: "W = []" "collecting (qp_pc s h) = None" if "\<not> walking (qp_pc s h) \<or> qp_pc s h = V_Serve"
    using Q(4) that by (cases "qp_pc s h"; simp)+
  have un: "i \<in> set L" if "pr_mark s i \<noteq> sv_seen s i" "\<not> posting (pr_pc s i)" "\<not> walking (qp_pc s h)" for i
    using Q(5) [of i] W that by (auto simp: slot_ok_def slot_fine_def)
  have paid: "qp_owed s i \<le> sv_seen s i" if "qp_pc s t = V_Serve \<or> qp_pc s t = V_Unlock" for i t
  proof -
    have "h = t" using holder_is [OF R, of t] that by auto
    then show ?thesis using Q(5) [of i] W that by (auto simp: slot_ok_def slot_fine_def)
  qed
  have all: "pr_mark s i = sv_seen s i"
    if "\<not> posting (pr_pc s i)" "\<not> walking (qp_pc s h)" "qp_pending s = None" for i
    using un [OF _ that(1,2)] Q(1) that(3) by auto
  show ?thesis using un paid all Q(1,7) by blast
qed

text \<open>
  C26: the contract of \<open>PostConsumer::serve\<close>.  At most one thread is at the consumer at a time; no batch is empty or names
  a producer twice, the counts served for a producer grow from batch to batch, and they never exceed
  what it has posted.
\<close>

theorem queue_serves_in_order:
  assumes "queue_reachable s"
  shows "(\<nexists>t u. t \<noteq> u \<and> inside (qp_pc s t) \<and> inside (qp_pc s u)) \<and>
    (\<forall>b \<in> set (sv_served s). b \<noteq> [] \<and> distinct (map fst b)) \<and>
    (\<forall>i. sorted_wrt (<) (seqs i (concat (sv_served s)))) \<and>
    (\<forall>b \<in> set (sv_served s). \<forall>t \<in> set b. 0 < snd t \<and> snd t \<le> pr_mark s (fst t))"
proof -
  obtain h L W where R: "queue_rep s h L W" using queue_reachable_rep [OF assms] by blast
  have "\<nexists>t u. t \<noteq> u \<and> inside (qp_pc s t) \<and> inside (qp_pc s u)" using holder_is [OF R] by blast
  then show ?thesis using tickets_served [OF queue_repD(6) [OF R]] by blast
qed

text \<open>Producer 0 posts and goes on to ask; a server takes the list and walks it.\<close>

definition queue_example :: queue_post where
  "queue_example =
     serve_clear 1 0 None (serve_walk 1 (Some 0) (serve_take 1 (server_try_lock 1 V_Take (serve_return 1) (serve_look 1 (vgoto 1 V_Look
       (post_cas 0 None False (post_store 0 None (post_load 0 (post_swap 0 (pgo 0 P_Swap (bump 0
         (link_slot 0 (new_slot queue_post_start)))))))))))))"

lemmas queue_example_defs = queue_example_def queue_post_start_def new_slot_def link_slot_def bump_def post_swap_def post_load_def
  post_store_def post_cas_def serve_look_def server_try_lock_def serve_take_def serve_walk_def serve_clear_def
  begin_batch_def serve_return_def posting_def

lemma queue_example_reachable: "queue_reachable queue_example"
proof -
  let ?s1 = "pgo 0 P_Swap (bump 0 (link_slot 0 (new_slot queue_post_start)))"
  have 1: "queue_reachable ?s1"
    by (intro queue_next [OF _ queue_step.bump] queue_next [OF _ queue_step.link_slot] queue_next [OF _ queue_step.new_slot]
        queue_init) (simp_all add: queue_example_defs)
  let ?s2 = "post_cas 0 None False (post_store 0 None (post_load 0 (post_swap 0 ?s1)))"
  have 2: "queue_reachable ?s2"
    by (intro queue_next [OF _ queue_step.cas] queue_next [OF _ queue_step.store] queue_next [OF _ queue_step.load]
        queue_next [OF 1 queue_step.swap]) (simp_all add: queue_example_defs)
  show ?thesis
    unfolding queue_example_def
    by (intro queue_next [OF _ queue_step.clear] queue_next [OF _ queue_step.walk] queue_next [OF _ queue_step.take]
        queue_next [OF _ queue_step.try_lock] queue_next [OF _ queue_step.look] queue_next [OF _ queue_step.serve_now] 2)
      (simp_all add: queue_example_defs)
qed

theorem queue_posts_not_lost_witness:
  "queue_reachable (vgoto 1 V_Serve (vgoto 1 (V_Walk None) (collect 0 queue_example))) \<and>
   qp_owed (vgoto 1 V_Serve (vgoto 1 (V_Walk None) (collect 0 queue_example))) 0
     \<le> sv_seen (vgoto 1 V_Serve (vgoto 1 (V_Walk None) (collect 0 queue_example))) 0"
proof -
  let ?s = "vgoto 1 V_Serve (vgoto 1 (V_Walk None) (collect 0 queue_example))"
  have "qp_pc queue_example 1 = V_Collect 0 None" by (simp add: queue_example_defs)
  then have "queue_reachable (vgoto 1 (V_Walk None) (collect 0 queue_example))"
    by (intro queue_next [OF queue_example_reachable queue_step.collect])
  then have r: "queue_reachable ?s"
    using queue_next [OF _ queue_step.walk [of _ 1 None], of "vgoto 1 (V_Walk None) (collect 0 queue_example)"]
    by (simp add: serve_walk_def)
  have "qp_pc ?s 1 = V_Serve" by simp
  then show ?thesis using queue_posts_not_lost [OF r] r by blast
qed

theorem queue_serves_in_order_witness:
  "inside (qp_pc queue_example 1) \<and> \<not> inside (qp_pc queue_example 0)"
proof -
  have "inside (qp_pc queue_example 1)" by (simp add: queue_example_defs)
  moreover have "(0 :: nat) \<noteq> 1" by simp
  ultimately show ?thesis using queue_serves_in_order [OF queue_example_reachable] by blast
qed

end
