(* ===== verification/Slot_Posting.thy ===== *)
theory Slot_Posting
  imports Posting
begin

text \<open>
  The slot delegator of \<open>post.rs\<close>: a post only bumps the count of its thread's slot, and a serve looks at every
  slot of the registration list.  The producers, the server and the tickets are those of \<open>Posting\<close>.
\<close>

section \<open>The slot delegator\<close>

datatype slot_pc =
    S_Out | S_Try | S_Spin | S_Body
  | S_Head                 \<comment> \<open>about to read the head of the registration list\<close>
  | S_Walk "nat list"
  | S_Serve | S_Unlock

record slot_post = server +
  sp_pc :: "nat \<Rightarrow> slot_pc"
  sp_owed :: "nat \<Rightarrow> nat"   \<comment> \<open>the counts when the last serve read the head\<close>

definition slot_post_start :: slot_post where
  "slot_post_start = \<lparr>pr_count = 0, pr_list = [], pr_mark = (\<lambda>_. 0), pr_pc = (\<lambda>_. P_New), sv_busy = False,
     sv_seen = (\<lambda>_. 0), sv_batch = [], sv_served = [], sp_pc = (\<lambda>_. S_Out), sp_owed = (\<lambda>_. 0)\<rparr>"

abbreviation sgoto :: "nat \<Rightarrow> slot_pc \<Rightarrow> slot_post \<Rightarrow> slot_post" where
  "sgoto t pc s \<equiv> s\<lparr>sp_pc := (sp_pc s)(t := pc)\<rparr>"

definition slot_try_lock :: "nat \<Rightarrow> slot_pc \<Rightarrow> slot_pc \<Rightarrow> slot_post \<Rightarrow> slot_post" where
  "slot_try_lock t locked missed s =
     (if sv_busy s then sgoto t missed s else sgoto t locked (s\<lparr>sv_busy := True\<rparr>))"

definition slot_head :: "nat \<Rightarrow> slot_post \<Rightarrow> slot_post" where
  "slot_head t s = sgoto t (S_Walk (pr_list s)) ((begin_batch s)\<lparr>sp_owed := pr_mark s\<rparr>)"

definition slot_walk :: "nat \<Rightarrow> nat list \<Rightarrow> slot_post \<Rightarrow> slot_post" where
  "slot_walk t xs s = (case xs of [] \<Rightarrow> sgoto t S_Serve s | i # xs \<Rightarrow> sgoto t (S_Walk xs) (collect i s))"

inductive slot_step :: "slot_post \<Rightarrow> slot_post \<Rightarrow> bool" where
  new_slot: "slot_step s (new_slot s)"
| link_slot: "pr_pc s i = P_Register \<Longrightarrow> slot_step s (link_slot i s)"
| post: "pr_pc s i = P_Idle \<Longrightarrow> slot_step s (pgo i P_Bump s)"
| bump: "pr_pc s i = P_Bump \<Longrightarrow> slot_step s (pgo i P_Idle (bump i s))"
| serve_now: "sp_pc s t = S_Out \<Longrightarrow> slot_step s (sgoto t S_Try s)"
| with_lock: "sp_pc s t = S_Out \<Longrightarrow> slot_step s (sgoto t S_Spin s)"
| try_lock: "sp_pc s t = S_Try \<Longrightarrow> slot_step s (slot_try_lock t S_Head S_Out s)"
| lock: "sp_pc s t = S_Spin \<Longrightarrow> slot_step s (slot_try_lock t S_Body S_Spin s)"
| body: "sp_pc s t = S_Body \<Longrightarrow> slot_step s (sgoto t S_Unlock s)"
| head: "sp_pc s t = S_Head \<Longrightarrow> slot_step s (slot_head t s)"
| walk: "sp_pc s t = S_Walk xs \<Longrightarrow> slot_step s (slot_walk t xs s)"
| serve: "sp_pc s t = S_Serve \<Longrightarrow> slot_step s (sgoto t S_Unlock (serve_batch s))"
| unlock: "sp_pc s t = S_Unlock \<Longrightarrow> slot_step s (sgoto t S_Out (s\<lparr>sv_busy := False\<rparr>))"

inductive slot_reachable :: "slot_post \<Rightarrow> bool" where
  slot_init: "slot_reachable slot_post_start"
| slot_next: "slot_reachable s \<Longrightarrow> slot_step s s' \<Longrightarrow> slot_reachable s'"

fun s_inside :: "slot_pc \<Rightarrow> bool" where
  "s_inside S_Out = False" | "s_inside S_Try = False" | "s_inside S_Spin = False" | "s_inside _ = True"

fun s_open :: "slot_pc \<Rightarrow> bool" where
  "s_open (S_Walk _) = True" | "s_open S_Serve = True" | "s_open _ = False"

fun s_left :: "slot_pc \<Rightarrow> nat list" where
  "s_left (S_Walk xs) = xs" | "s_left _ = []"

text \<open>Whether the slot \<open>i\<close> is fit: in the registration list once it has a post, and covered or still to be looked at.\<close>

definition s_fit :: "slot_post \<Rightarrow> slot_pc \<Rightarrow> nat \<Rightarrow> bool" where
  "s_fit s pc i \<longleftrightarrow>
     (i \<in> set (pr_list s) \<or> pr_mark s i = 0 \<and> (pr_pc s i = P_New \<or> pr_pc s i = P_Register)) \<and>
     (i \<in> set (pr_list s) \<longrightarrow> pr_pc s i \<noteq> P_New \<and> pr_pc s i \<noteq> P_Register) \<and>
     (i < pr_count s \<or> pr_pc s i = P_New) \<and>
     (sp_owed s i \<le> sv_seen s i \<or> i \<in> set (s_left pc)) \<and> sp_owed s i \<le> pr_mark s i \<and>
     (s_open pc \<and> i \<in> fst ` set (sv_batch s) \<longrightarrow> i \<notin> set (s_left pc))"

definition slot_rep :: "slot_post \<Rightarrow> nat \<Rightarrow> bool" where
  "slot_rep s h \<longleftrightarrow>
     (\<forall>t. s_inside (sp_pc s t) \<longleftrightarrow> sv_busy s \<and> t = h) \<and> (\<forall>i. s_fit s (sp_pc s h) i) \<and>
     distinct (pr_list s) \<and> distinct (s_left (sp_pc s h)) \<and> log_ok (s_open (sp_pc s h)) s"

lemma slot_repD:
  assumes "slot_rep s h"
  shows "s_inside (sp_pc s t) \<longleftrightarrow> sv_busy s \<and> t = h" and "s_fit s (sp_pc s h) i" and "distinct (pr_list s)"
    and "distinct (s_left (sp_pc s h))" and "log_ok (s_open (sp_pc s h)) s"
  using assms by (simp_all add: slot_rep_def)

lemma slot_tickets_frame [simp]:
  "log_ok b (s\<lparr>sp_pc := v\<rparr>) = log_ok b s" "log_ok b (s\<lparr>sp_owed := q\<rparr>) = log_ok b s"
  "log_ok b (s\<lparr>sv_busy := a\<rparr>) = log_ok b s" "log_ok b (s\<lparr>pr_pc := c\<rparr>) = log_ok b s"
  "log_ok b (s\<lparr>pr_count := n\<rparr>) = log_ok b s" "log_ok b (s\<lparr>pr_list := l\<rparr>) = log_ok b s"
  for s :: slot_post
  by (simp_all add: log_ok_def batches_def)

lemma slot_closed: "\<not> s_inside pc \<Longrightarrow> s_left pc = [] \<and> \<not> s_open pc"
  by (cases pc) auto

text \<open>A thread at the server moves from \<open>pc\<close> to \<open>pc'\<close>.\<close>

lemma slot_server_moves:
  assumes "slot_rep s h" and "s_inside (sp_pc s t) \<or> \<not> sv_busy s \<and> s_inside pc" and "sp_pc s' = (sp_pc s)(t := pc)"
    and "s_inside pc = sv_busy s'" and "pr_list s' = pr_list s"
    and "\<And>i. s_fit s (sp_pc s h) i \<Longrightarrow> s_fit s' pc i" and "distinct (s_left pc)" and "log_ok (s_open pc) s'"
  shows "slot_rep s' t"
  using assms slot_repD [OF assms(1)] unfolding slot_rep_def by auto

lemma slot_outside_moves:
  assumes "slot_rep s h" and "\<not> s_inside (sp_pc s t)" and "\<not> s_inside pc"
  shows "slot_rep (sgoto t pc s) h"
  using slot_repD [OF assms(1)] slot_closed [OF assms(2)] slot_closed [OF assms(3)] assms(2,3)
  unfolding slot_rep_def s_fit_def by (cases "t = h") simp_all

lemma slot_producer_moves:
  assumes "slot_rep s h" and "sp_pc s' = sp_pc s" and "sv_busy s' = sv_busy s"
    and "\<And>i. s_fit s (sp_pc s h) i \<Longrightarrow> s_fit s' (sp_pc s h) i" and "distinct (pr_list s')" and "log_ok (s_open (sp_pc s h)) s'"
  shows "slot_rep s' h"
  using assms(5,6) assms(4) [OF slot_repD(2) [OF assms(1)]] slot_repD(1,4) [OF assms(1)]
  unfolding slot_rep_def assms(2,3) by blast

lemma slot_lock_rep:
  assumes R: "slot_rep s h" and "\<not> s_inside (sp_pc s t)" and "s_inside pc" "s_left pc = []" "\<not> s_open pc" and "\<not> s_inside pc'"
  shows "\<exists>h. slot_rep (slot_try_lock t pc pc' s) h"
proof (cases "sv_busy s")
  case True
  then show ?thesis using slot_outside_moves [OF R assms(2,6)] by (auto simp: slot_try_lock_def)
next
  case False
  then have c: "s_left (sp_pc s h) = [] \<and> \<not> s_open (sp_pc s h)" using slot_closed slot_repD(1) [OF R, of h] by simp
  have "slot_rep (sgoto t pc (s\<lparr>sv_busy := True\<rparr>)) t"
    by (rule slot_server_moves [OF R]) (use False c assms(3-5) slot_repD(5) [OF R] in \<open>auto simp: s_fit_def\<close>)
  then show ?thesis using False by (auto simp: slot_try_lock_def)
qed

lemma slot_walk_rep:
  assumes R: "slot_rep s h" and pc: "sp_pc s t = S_Walk xs"
  shows "slot_rep (slot_walk t xs s) t"
proof -
  have h: "h = t" and b: "sv_busy s" using slot_repD(1) [OF R, of t] pc by auto
  show ?thesis
  proof (cases xs)
    case Nil
    show ?thesis
      by (rule slot_server_moves [OF R, where pc = S_Serve])
        (use pc h b Nil slot_repD(5) [OF R] in \<open>auto simp: slot_walk_def s_fit_def\<close>)
  next
    case (Cons i ys)
    have d: "i \<notin> set ys" "distinct ys" using slot_repD(4) [OF R] pc h Cons by auto
    have i: "i \<notin> fst ` set (sv_batch s)" using slot_repD(2) [OF R, of i] pc h Cons by (auto simp: s_fit_def)
    have tk: "log_ok True (collect i s)" using slot_repD(5) [OF R] pc h i by (intro collect_tickets) auto
    have f: "sp_pc (collect i s) = sp_pc s" "pr_pc (collect i s) = pr_pc s" "pr_mark (collect i s) = pr_mark s"
      "pr_count (collect i s) = pr_count s" "pr_list (collect i s) = pr_list s" "sp_owed (collect i s) = sp_owed s"
      "sv_busy (collect i s) = sv_busy s" "sv_seen (collect i s) = (sv_seen s)(i := pr_mark s i)"
      and sub: "fst ` set (sv_batch (collect i s)) \<subseteq> insert i (fst ` set (sv_batch s))"
      by (auto simp: collect_def Let_def)
    have "s_fit (sgoto t (S_Walk ys) (collect i s)) (S_Walk ys) j" if "s_fit s (sp_pc s h) j" for j
      using that sub d pc h Cons by (cases "j = i") (auto simp: s_fit_def f)
    then have "slot_rep (sgoto t (S_Walk ys) (collect i s)) t"
      by (intro slot_server_moves [OF R, where pc = "S_Walk ys"]) (use pc b d tk in \<open>auto simp: f\<close>)
    then show ?thesis using Cons by (simp add: slot_walk_def)
  qed
qed

lemma slot_step_keeps: "slot_step s s' \<Longrightarrow> slot_rep s h \<Longrightarrow> \<exists>h. slot_rep s' h"
proof (induction rule: slot_step.induct)
  case (new_slot s)
  have n: "pr_pc s (pr_count s) = P_New" "pr_count s \<notin> set (pr_list s)" "pr_mark s (pr_count s) = 0"
    using slot_repD(2) [OF new_slot, of "pr_count s"] by (auto simp: s_fit_def)
  have "slot_rep (new_slot s) h"
    by (rule slot_producer_moves [OF new_slot])
      (use slot_repD(3,5) [OF new_slot] n in \<open>auto simp: new_slot_def s_fit_def\<close>)
  then show ?case by blast
next
  case (link_slot s i)
  have "i \<notin> set (pr_list s)" using slot_repD(2) [OF link_slot(2), of i] link_slot(1) by (auto simp: s_fit_def)
  then have "slot_rep (link_slot i s) h"
    by (intro slot_producer_moves [OF link_slot(2)])
      (use link_slot(1) slot_repD(3,5) [OF link_slot(2)] in \<open>auto simp: link_slot_def s_fit_def\<close>)
  then show ?case by blast
next
  case (post s i)
  have "slot_rep (pgo i P_Bump s) h"
    by (rule slot_producer_moves [OF post(2)])
      (use post(1) slot_repD(3,5) [OF post(2)] in \<open>auto simp: s_fit_def\<close>)
  then show ?case by blast
next
  case (bump s i)
  have "slot_rep (pgo i P_Idle (bump i s)) h"
    by (rule slot_producer_moves [OF bump(2)])
      (use bump(1) slot_repD(3) [OF bump(2)] bump_tickets [OF slot_repD(5) [OF bump(2)], of i]
        in \<open>auto simp: bump_def s_fit_def\<close>)
  then show ?case by blast
next
  case (serve_now s t)
  then show ?case using slot_outside_moves [OF serve_now(2), of t S_Try] by auto
next
  case (with_lock s t)
  then show ?case using slot_outside_moves [OF with_lock(2), of t S_Spin] by auto
next
  case (try_lock s t)
  then show ?case using slot_lock_rep [OF try_lock(2), of t S_Head S_Out] by simp
next
  case (lock s t)
  then show ?case using slot_lock_rep [OF lock(2), of t S_Body S_Spin] by simp
next
  case (body s t)
  have h: "h = t" and b: "sv_busy s" using slot_repD(1) [OF body(2), of t] body(1) by auto
  have "slot_rep (sgoto t S_Unlock s) t"
    by (rule slot_server_moves [OF body(2), where pc = S_Unlock])
      (use body(1) h b slot_repD(5) [OF body(2)] in \<open>auto simp: s_fit_def\<close>)
  then show ?case by blast
next
  case (head s t)
  have h: "h = t" and b: "sv_busy s" using slot_repD(1) [OF head(2), of t] head(1) by auto
  have "log_ok True (slot_head t s)"
    using begin_tickets [of s] slot_repD(5) [OF head(2)] head(1) h by (simp add: slot_head_def)
  then have "slot_rep (slot_head t s) t"
    by (intro slot_server_moves [OF head(2), where pc = "S_Walk (pr_list s)"])
      (use head(1) h b slot_repD(3) [OF head(2)] in \<open>auto simp: s_fit_def slot_head_def begin_batch_def\<close>)
  then show ?case by blast
next
  case (walk s t xs)
  then show ?case using slot_walk_rep by blast
next
  case (serve s t)
  have h: "h = t" and b: "sv_busy s" using slot_repD(1) [OF serve(2), of t] serve(1) by auto
  have tk: "log_ok False (serve_batch s)" using slot_repD(5) [OF serve(2)] serve(1) h by (intro serve_tickets) simp
  have "slot_rep (sgoto t S_Unlock (serve_batch s)) t"
    by (rule slot_server_moves [OF serve(2), where pc = S_Unlock])
      (use serve(1) h b tk in \<open>auto simp: s_fit_def serve_batch_def\<close>)
  then show ?case by blast
next
  case (unlock s t)
  have h: "h = t" using slot_repD(1) [OF unlock(2), of t] unlock(1) by auto
  have "slot_rep (sgoto t S_Out (s\<lparr>sv_busy := False\<rparr>)) t"
    by (rule slot_server_moves [OF unlock(2), where pc = S_Out])
      (use unlock(1) h slot_repD(5) [OF unlock(2)] in \<open>auto simp: s_fit_def\<close>)
  then show ?case by blast
qed

lemma slot_start_rep: "slot_rep slot_post_start 0"
  by (simp add: slot_rep_def s_fit_def log_ok_def grows_to_def batches_def slot_post_start_def)

lemma slot_reachable_rep: "slot_reachable s \<Longrightarrow> \<exists>h. slot_rep s h"
  by (induction rule: slot_reachable.induct) (use slot_start_rep slot_step_keeps in blast)+

text \<open>
  C27: a serve of a slot delegator covers every post made before it read the head of the registration list, also
  those of threads that registered while others did, and it keeps the contract of \<open>PostConsumer::serve\<close>:
  one thread at a time, no batch empty or naming a producer twice, growing counts that the producer has reached.
\<close>

theorem slot_serve_covers:
  assumes "slot_reachable s"
  shows "((\<exists>t. sp_pc s t = S_Serve \<or> sp_pc s t = S_Unlock) \<longrightarrow> (\<forall>i. sp_owed s i \<le> sv_seen s i)) \<and>
    (\<nexists>t u. t \<noteq> u \<and> s_inside (sp_pc s t) \<and> s_inside (sp_pc s u)) \<and>
    (\<forall>b \<in> set (sv_served s). b \<noteq> [] \<and> distinct (map fst b)) \<and>
    (\<forall>i. sorted_wrt (<) (seqs i (concat (sv_served s)))) \<and>
    (\<forall>b \<in> set (sv_served s). \<forall>t \<in> set b. 0 < snd t \<and> snd t \<le> pr_mark s (fst t))"
proof -
  obtain h where R: "slot_rep s h" using slot_reachable_rep [OF assms] by blast
  have "sp_owed s i \<le> sv_seen s i" if "sp_pc s t = S_Serve \<or> sp_pc s t = S_Unlock" for i t
  proof -
    have "t = h" using slot_repD(1) [OF R, of t] that by auto
    then show ?thesis using slot_repD(2) [OF R, of i] that by (auto simp: s_fit_def)
  qed
  moreover have "\<nexists>t u. t \<noteq> u \<and> s_inside (sp_pc s t) \<and> s_inside (sp_pc s u)" using slot_repD(1) [OF R] by auto
  ultimately show ?thesis using tickets_served [OF slot_repD(5) [OF R]] by blast
qed

definition slot_example :: slot_post where
  "slot_example =
     slot_walk 0 [] (slot_walk 0 [0] (slot_head 0 (slot_try_lock 0 S_Head S_Out (sgoto 0 S_Try
       (pgo 0 P_Idle (bump 0 (link_slot 0 (new_slot slot_post_start))))))))"

lemmas slot_example_defs = slot_example_def slot_post_start_def new_slot_def link_slot_def bump_def slot_try_lock_def
  slot_head_def slot_walk_def begin_batch_def collect_def Let_def

lemma slot_example_reachable: "slot_reachable slot_example"
  unfolding slot_example_def
  by (intro slot_next [OF _ slot_step.walk] slot_next [OF _ slot_step.head] slot_next [OF _ slot_step.try_lock]
      slot_next [OF _ slot_step.serve_now] slot_next [OF _ slot_step.bump] slot_next [OF _ slot_step.link_slot]
      slot_next [OF _ slot_step.new_slot] slot_init) (simp_all add: slot_example_defs)

theorem slot_serve_covers_witness: "sp_owed slot_example 0 = 1 \<and> sp_owed slot_example 0 \<le> sv_seen slot_example 0"
proof -
  have "sp_pc slot_example 0 = S_Serve" "sp_owed slot_example 0 = 1" by (simp_all add: slot_example_defs)
  then show ?thesis using slot_serve_covers [OF slot_example_reachable] by blast
qed

end
