(* ===== verification/Duty.thy ===== *)
theory Duty
  imports Cmpth_Prelude
begin

text \<open>
  Duties (\<open>duty.rs\<close>): work that someone must check every so often.  A duty has a period that backs off
  while its poll finds nothing, waiters that shorten it, and perhaps a deadline; the idle workers run a
  duty once it is half due, the keeper thread once it is due.  All times are \<open>u64\<close> nanoseconds, with
  the saturating and wrapping arithmetic of the code.  A duty is named by a number (its \<open>Arc\<close>); a
  clock reading and the outcome of a poll are arguments.  This theory has each operation as it runs when no other thread is at
  the same fields meanwhile; \<open>Duty_Keeper\<close> takes those that run without a lock, and the keeper, apart into their single
  accesses to the atomics, and lets all threads interleave.
\<close>

section \<open>One duty\<close>

definition IDLE_POLLS :: u32 where "IDLE_POLLS = 50"

abbreviation NEVER :: u64 where "NEVER \<equiv> u64_max"

definition EAGER_NS :: u64 where "EAGER_NS = 1000"

definition TIMED_SLACK :: u64 where "TIMED_SLACK = 1000000"

datatype duty_place = Anywhere | Keeper

record duty =
  du_place :: duty_place
  du_last :: u64           \<comment> \<open>time of the last poll or touch\<close>
  du_period :: u64
  du_min :: u64
  du_max :: u64
  du_wait_period :: u64
  du_waiters :: nat
  du_deadline :: u64
  du_idle_polls :: u32
  du_keeper_polls :: nat
  du_worker_polls :: nat

definition effective_period :: "duty \<Rightarrow> u64" where
  "effective_period d = (if du_waiters d \<noteq> 0 then min (du_period d) (du_wait_period d) else du_period d)"

definition due :: "duty \<Rightarrow> u64" where
  "due d = min (sat_add (du_last d) (effective_period d)) (du_deadline d)"

definition half_due :: "duty \<Rightarrow> u64" where
  "half_due d =
     (let gap = (if du_waiters d \<noteq> 0 then EAGER_NS else effective_period d div 2)
      in min (sat_add (du_last d) gap) (du_deadline d))"

definition touch :: "u64 \<Rightarrow> duty \<Rightarrow> duty" where
  "touch now d =
     (let grain = min (du_min d) (du_wait_period d) div 4
      in if now - du_last d > grain then
           (let d = d\<lparr>du_last := now\<rparr>
            in if du_period d \<noteq> du_min d then d\<lparr>du_period := du_min d, du_idle_polls := 0\<rparr> else d)
         else d)"

text \<open>
  Running a duty: the outcome of its poll is whether it did something, the deadline it asked for
  (\<open>fire_timers\<close> sets its own by \<open>fetch_min\<close>; \<open>NEVER\<close> if it asks for none) and the
  time after it.
\<close>

record poll_outcome =
  po_did :: bool
  po_deadline :: u64
  po_end :: u64

definition run_duty :: "bool \<Rightarrow> poll_outcome \<Rightarrow> duty \<Rightarrow> duty" where
  "run_duty by_keeper po d =
     (let d = d\<lparr>du_deadline := NEVER\<rparr>;
          d = d\<lparr>du_deadline := min (du_deadline d) (po_deadline po)\<rparr>;
          d = d\<lparr>du_last := po_end po\<rparr>;
          d = (if po_did po then d\<lparr>du_period := du_min d, du_idle_polls := 0\<rparr>
               else if du_max d > du_min d then
                 (let n = du_idle_polls d + 1
                  in if n \<ge> IDLE_POLLS
                     then d\<lparr>du_period := min (sat_double (du_period d)) (du_max d), du_idle_polls := 0\<rparr>
                     else d\<lparr>du_idle_polls := n\<rparr>)
               else d)
      in if by_keeper then d\<lparr>du_keeper_polls := du_keeper_polls d + 1\<rparr>
         else d\<lparr>du_worker_polls := du_worker_polls d + 1\<rparr>)"

text \<open>A new duty; \<open>Duration\<close>s are numbers of nanoseconds.\<close>

definition ns :: "nat \<Rightarrow> u64" where
  "ns d = of_nat (min d (unat NEVER - 1))"

definition new_duty :: "u64 \<Rightarrow> u64 \<Rightarrow> u64 \<Rightarrow> u64 \<Rightarrow> duty_place \<Rightarrow> duty" where
  "new_duty now mn mx wait place =
     \<lparr>du_place = place, du_last = now, du_period = mn, du_min = mn, du_max = mx, du_wait_period = wait,
      du_waiters = 0, du_deadline = NEVER, du_idle_polls = 0, du_keeper_polls = 0, du_worker_polls = 0\<rparr>"

definition duty_every :: "u64 \<Rightarrow> nat \<Rightarrow> nat \<Rightarrow> duty_place \<Rightarrow> duty" where
  "duty_every now period max_period place =
     (let mn = max (ns period) 1000 in new_duty now mn (max (ns max_period) mn) mn place)"

definition duty_on_demand :: "u64 \<Rightarrow> nat \<Rightarrow> duty_place \<Rightarrow> duty" where
  "duty_on_demand now wait_period place = new_duty now NEVER NEVER (max (ns wait_period) 1000) place"

definition period_bounds :: "(nat \<times> nat) option \<Rightarrow> u64 \<times> u64" where
  "period_bounds period =
     (case period of
        Some (p, m) \<Rightarrow> (let mn = max (ns p) 1000 in (mn, max (ns m) mn))
      | None \<Rightarrow> (NEVER, NEVER))"

definition set_period :: "(nat \<times> nat) option \<Rightarrow> duty \<Rightarrow> duty" where
  "set_period period d =
     (case period_bounds period of (mn, mx) \<Rightarrow> d\<lparr>du_min := mn, du_max := mx, du_period := mn, du_idle_polls := 0\<rparr>)"

definition set_wait_period :: "nat \<Rightarrow> duty \<Rightarrow> duty" where
  "set_wait_period p d = d\<lparr>du_wait_period := max (ns p) 1000\<rparr>"

text \<open>\<open>at\<close> is the instant, in nanoseconds since the epoch.\<close>

definition set_deadline :: "nat option \<Rightarrow> duty \<Rightarrow> duty" where
  "set_deadline at d = d\<lparr>du_deadline := (case at of None \<Rightarrow> NEVER | Some t \<Rightarrow> ns t)\<rparr>"

section \<open>The registry\<close>

record duty_registry =
  rg_duty :: "nat \<Rightarrow> duty"
  rg_reg :: "nat list"
  rg_active :: nat
  rg_waiters :: nat
  rg_half_due :: u64
  rg_planned :: u64
  rg_timed :: bool
  rg_timed_until :: u64
  rg_keeper :: bool        \<comment> \<open>the keeper thread was started\<close>
  rg_token :: bool         \<comment> \<open>the keeper's unpark token\<close>

definition new_registry :: duty_registry where
  "new_registry =
     \<lparr>rg_duty = (\<lambda>_. new_duty 0 NEVER NEVER NEVER Anywhere), rg_reg = [], rg_active = 0, rg_waiters = 0, rg_half_due = 0,
      rg_planned = NEVER, rg_timed = False, rg_timed_until = NEVER, rg_keeper = False, rg_token = False\<rparr>"

abbreviation upd_duty :: "nat \<Rightarrow> (duty \<Rightarrow> duty) \<Rightarrow> duty_registry \<Rightarrow> duty_registry" where
  "upd_duty i f g \<equiv> g\<lparr>rg_duty := (rg_duty g)(i := f (rg_duty g i))\<rparr>"

definition unpark_keeper :: "duty_registry \<Rightarrow> duty_registry" where
  "unpark_keeper g = (if rg_keeper g then g\<lparr>rg_token := True\<rparr> else g)"

definition replan :: "nat \<Rightarrow> duty_registry \<Rightarrow> duty_registry" where
  "replan i g =
     (let d = rg_duty g i;
          g = (if du_place d = Anywhere then g\<lparr>rg_half_due := min (rg_half_due g) (half_due d)\<rparr> else g)
      in if due d < rg_planned g then unpark_keeper g else g)"

text \<open>\<open>DutyWaiter\<close>: the result tells whether \<open>replan\<close> follows.\<close>

definition waiter_new :: "nat \<Rightarrow> duty_registry \<Rightarrow> bool \<times> duty_registry" where
  "waiter_new i g =
     (du_waiters (rg_duty g i) = 0,
      upd_duty i (\<lambda>d. d\<lparr>du_waiters := du_waiters d + 1\<rparr>) (g\<lparr>rg_waiters := rg_waiters g + 1\<rparr>))"

definition waiter_drop :: "nat \<Rightarrow> duty_registry \<Rightarrow> duty_registry" where
  "waiter_drop i g =
     (upd_duty i (\<lambda>d. d\<lparr>du_waiters := du_waiters d - 1\<rparr>) g)\<lparr>rg_waiters := rg_waiters g - 1\<rparr>"

definition register :: "nat \<Rightarrow> duty \<Rightarrow> duty_registry \<Rightarrow> duty_registry" where
  "register i d g =
     g\<lparr>rg_duty := (rg_duty g)(i := d), rg_reg := rg_reg g @ [i], rg_active := rg_active g + 1, rg_keeper := True\<rparr>"

definition duty_drop :: "nat \<Rightarrow> duty_registry \<Rightarrow> duty_registry" where
  "duty_drop i g = g\<lparr>rg_reg := filter (\<lambda>j. j \<noteq> i) (rg_reg g), rg_active := rg_active g - 1\<rparr>"

definition min_of :: "u64 list \<Rightarrow> u64" where
  "min_of xs = foldr min xs NEVER"

definition update_half_due :: "duty_registry \<Rightarrow> duty_registry" where
  "update_half_due g =
     g\<lparr>rg_half_due := min_of (map (\<lambda>i. half_due (rg_duty g i)) (filter (\<lambda>i. du_place (rg_duty g i) = Anywhere) (rg_reg g)))\<rparr>"

section \<open>Idle workers\<close>

text \<open>\<open>run_idle\<close> at the time \<open>now\<close>; \<open>free\<close> tells whether the registry's lock was taken.\<close>

definition idle_visit :: "u64 \<Rightarrow> (nat \<Rightarrow> poll_outcome) \<Rightarrow> nat \<Rightarrow> duty_registry \<Rightarrow> duty_registry" where
  "idle_visit now po i g =
     (if du_place (rg_duty g i) = Anywhere \<and> now \<ge> half_due (rg_duty g i)
      then upd_duty i (run_duty False (po i)) g else g)"

definition idle_slow :: "u64 \<Rightarrow> bool \<Rightarrow> (nat \<Rightarrow> poll_outcome) \<Rightarrow> duty_registry \<Rightarrow> duty_registry" where
  "idle_slow now free po g =
     (if now < rg_half_due g then g
      else if \<not> free then g
      else update_half_due (fold (idle_visit now po) (rg_reg g) g))"

definition run_idle :: "u64 \<Rightarrow> bool \<Rightarrow> (nat \<Rightarrow> poll_outcome) \<Rightarrow> duty_registry \<Rightarrow> duty_registry" where
  "run_idle now free po g = (if rg_active g \<noteq> 0 then idle_slow now free po g else g)"

definition wait_spin_ns :: "nat \<Rightarrow> duty_registry \<Rightarrow> u64" where
  "wait_spin_ns wait_spin g = (if rg_waiters g = 0 then 0 else ns wait_spin)"

definition release_timed :: "duty_registry \<Rightarrow> duty_registry" where
  "release_timed g = unpark_keeper (g\<lparr>rg_timed_until := NEVER, rg_timed := False\<rparr>)"

text \<open>The flag \<open>timed\<close> is the worker's own; the result is its park timeout, if any.\<close>

definition idle_done :: "bool \<Rightarrow> duty_registry \<Rightarrow> bool \<times> duty_registry" where
  "idle_done timed g = (False, release_timed g)"

definition park_timeout :: "u64 \<Rightarrow> bool \<Rightarrow> bool \<Rightarrow> duty_registry \<Rightarrow> u64 option \<times> bool \<times> duty_registry" where
  "park_timeout now free timed g =
     (if rg_active g = 0 then (None, timed, g)
      else if \<not> free then
        (if \<not> timed then (None, timed, g)
         else (Some (max (sat_sub (rg_timed_until g) now) 1000), timed, g))
      else
        (let nxt = min_of (map (\<lambda>i. due (rg_duty g i)) (filter (\<lambda>i. du_place (rg_duty g i) = Anywhere) (rg_reg g)))
         in if nxt = NEVER then
              (if timed then (case idle_done timed g of (timed, g) \<Rightarrow> (None, timed, g)) else (None, timed, g))
            else if \<not> timed \<and> rg_timed g \<and>
                    (rg_timed_until g = NEVER \<or> now < sat_add (rg_timed_until g) TIMED_SLACK)
            then (None, timed, g)
            else (Some (max (sat_sub nxt now) 1000), True, g\<lparr>rg_timed := True, rg_timed_until := nxt\<rparr>)))"

section \<open>Running a duty\<close>

lemma run_fields [simp]:
  "du_place (run_duty k po d) = du_place d" "du_waiters (run_duty k po d) = du_waiters d" "du_max (run_duty k po d) = du_max d"
  "du_min (run_duty k po d) = du_min d" "du_wait_period (run_duty k po d) = du_wait_period d"
  "du_deadline (run_duty k po d) = po_deadline po" "du_last (run_duty k po d) = po_end po"
  by (simp_all add: run_duty_def Let_def min_absorb2)

lemma run_period:
  "du_period (run_duty k po d) =
     (if po_did po then du_min d
      else if du_max d > du_min d \<and> du_idle_polls d + 1 \<ge> IDLE_POLLS then min (sat_double (du_period d)) (du_max d)
      else du_period d)"
  by (simp add: run_duty_def Let_def)

lemma run_idle_polls:
  "du_idle_polls (run_duty k po d) =
     (if po_did po then 0
      else if du_max d > du_min d then (if du_idle_polls d + 1 \<ge> IDLE_POLLS then 0 else du_idle_polls d + 1)
      else du_idle_polls d)"
  by (simp add: run_duty_def Let_def)

section \<open>An idle worker's round\<close>

lemma idle_visit_fields [simp]:
  "rg_reg (idle_visit now po i g) = rg_reg g" "rg_active (idle_visit now po i g) = rg_active g" "rg_keeper (idle_visit now po i g) = rg_keeper g"
  "rg_token (idle_visit now po i g) = rg_token g" "rg_planned (idle_visit now po i g) = rg_planned g"
  by (simp_all add: idle_visit_def)

lemma idle_visit_duty:
  "rg_duty (idle_visit now po i g) j =
     (if j = i \<and> du_place (rg_duty g i) = Anywhere \<and> now \<ge> half_due (rg_duty g i)
      then run_duty False (po i) (rg_duty g i) else rg_duty g j)"
  by (simp add: idle_visit_def)

lemma idle_fold_fields [simp]:
  "rg_reg (fold (idle_visit now po) is g) = rg_reg g" "rg_active (fold (idle_visit now po) is g) = rg_active g" "rg_keeper (fold (idle_visit now po) is g) = rg_keeper g"
  "rg_token (fold (idle_visit now po) is g) = rg_token g" "rg_planned (fold (idle_visit now po) is g) = rg_planned g"
  by (induction "is" arbitrary: g) simp_all

lemma idle_fold_duty:
  "distinct is \<Longrightarrow> rg_duty (fold (idle_visit now po) is g) j =
     (if j \<in> set is \<and> du_place (rg_duty g j) = Anywhere \<and> now \<ge> half_due (rg_duty g j)
      then run_duty False (po j) (rg_duty g j) else rg_duty g j)"
  by (induction "is" arbitrary: g) (auto simp: idle_visit_duty)

lemma ns_small: "d < 2 ^ 64 - 1 \<Longrightarrow> ns d = of_nat d"
  by (simp add: ns_def)

lemma duty_every_example:
  "duty_every 0 1000000 8000000 p =
     \<lparr>du_place = p, du_last = 0, du_period = 1000000, du_min = 1000000, du_max = 8000000, du_wait_period = 1000000,
      du_waiters = 0, du_deadline = NEVER, du_idle_polls = 0, du_keeper_polls = 0, du_worker_polls = 0\<rparr>"
  by (simp add: duty_every_def new_duty_def ns_small Let_def max_def)

section \<open>Backing off\<close>

lemma u32_succ: "unat n < 50 \<Longrightarrow> unat (n + 1 :: u32) = unat n + 1"
  by (simp add: unat_word_ariths)

lemma min_scaled: "1 \<le> k \<Longrightarrow> min (min a m * k) m = min (a * k) m"
  for a k m :: nat
  using mult_le_mono [of m m 1 k] mult_le_mono [of m a 1 k] by (cases "a \<le> m") simp_all

lemma idle_polls_count:
  assumes "\<forall>po \<in> set pos. \<not> po_did po" and "unat (du_idle_polls d) + length pos < 50" and "du_min d < du_max d"
  shows "du_period (fold (run_duty k) pos d) = du_period d \<and>
    unat (du_idle_polls (fold (run_duty k) pos d)) = unat (du_idle_polls d) + length pos"
  using assms
proof (induction pos arbitrary: d)
  case (Cons po pos)
  have u: "unat (du_idle_polls d + 1) = unat (du_idle_polls d) + 1"
    using Cons.prems(2) by (intro u32_succ) simp
  have n: "\<not> IDLE_POLLS \<le> du_idle_polls d + 1"
    using u Cons.prems(2) by (simp add: word_le_nat_alt IDLE_POLLS_def)
  have "du_period (run_duty k po d) = du_period d" "du_idle_polls (run_duty k po d) = du_idle_polls d + 1"
    using Cons.prems(1,3) n by (simp_all add: run_period run_idle_polls)
  then show ?case using Cons.IH [of "run_duty k po d"] Cons.prems u by simp
qed simp

lemma fold_run_fields [simp]:
  "du_min (fold (run_duty k) pos d) = du_min d" "du_max (fold (run_duty k) pos d) = du_max d"
  by (induction pos arbitrary: d) simp_all

lemma fifty_idle_polls:
  assumes "\<forall>po \<in> set pos. \<not> po_did po" and "length pos = 50" and "du_idle_polls d = 0" and "du_min d < du_max d"
  shows "unat (du_period (fold (run_duty k) pos d)) = min (2 * unat (du_period d)) (unat (du_max d)) \<and>
    du_idle_polls (fold (run_duty k) pos d) = 0"
proof -
  obtain ps p where pos: "pos = ps @ [p]" using assms(2) by (cases pos rule: rev_cases) auto
  let ?d = "fold (run_duty k) ps d"
  have c: "du_period ?d = du_period d" "unat (du_idle_polls ?d) = 49"
    using idle_polls_count [of ps d k] assms pos by auto
  have "unat (du_idle_polls ?d + 1) = 50" using c(2) u32_succ [of "du_idle_polls ?d"] by simp
  then have "IDLE_POLLS \<le> du_idle_polls ?d + 1" by (simp add: word_le_nat_alt IDLE_POLLS_def)
  then have "du_period (run_duty k p ?d) = min (sat_double (du_period d)) (du_max d)"
    "du_idle_polls (run_duty k p ?d) = 0"
    using assms(1,4) pos c(1) by (simp_all add: run_period run_idle_polls)
  moreover have "unat (du_max d) \<le> 2 ^ 64 - 1" using unat_u64_bound [of "du_max d"] by simp
  ultimately show ?thesis using pos by (simp add: unat_min unat_sat_double)
qed

text \<open>
  The back-off: after \<open>50 n\<close> polls in a row that did nothing, by whomever, the period is
  \<open>2 ^ n\<close> times what it was, or the maximum; and one poll that did something brings it back to the
  minimum.
\<close>

lemma backoff_doubles:
  assumes "\<forall>po \<in> set pos. \<not> po_did po" and "length pos = 50 * n" and "du_idle_polls d = 0" and "du_min d < du_max d"
    and "du_period d \<le> du_max d" and "po_did found"
  shows "unat (du_period (fold (run_duty k) pos d)) = min (unat (du_period d) * 2 ^ n) (unat (du_max d)) \<and>
    du_period (run_duty k found (fold (run_duty k) pos d)) = du_min d"
proof -
  have "unat (du_period (fold (run_duty k) pos d)) = min (unat (du_period d) * 2 ^ n) (unat (du_max d))"
    using assms(1-5)
  proof (induction n arbitrary: pos d)
    case 0
    then show ?case by (simp add: word_le_nat_alt)
  next
    case (Suc n)
    let ?d = "fold (run_duty k) (take 50 pos) d"
    have f: "unat (du_period ?d) = min (2 * unat (du_period d)) (unat (du_max d))" "du_idle_polls ?d = 0"
      using fifty_idle_polls [of "take 50 pos" d k] Suc.prems set_take_subset [of 50 pos] by auto
    have e: "fold (run_duty k) pos d = fold (run_duty k) (drop 50 pos) ?d"
      using fold_append [of "run_duty k" "take 50 pos" "drop 50 pos"] by (simp add: o_def)
    have le: "du_period ?d \<le> du_max ?d" using f(1) by (simp add: word_le_nat_alt)
    have "unat (du_period (fold (run_duty k) (drop 50 pos) ?d)) = min (unat (du_period ?d) * 2 ^ n) (unat (du_max ?d))"
      by (rule Suc.IH) (use Suc.prems set_drop_subset [of 50 pos] f(2) le in auto)
    also have "\<dots> = min (min (2 * unat (du_period d)) (unat (du_max d)) * 2 ^ n) (unat (du_max d))"
      by (simp add: f(1))
    also have "\<dots> = min (unat (du_period d) * 2 ^ Suc n) (unat (du_max d))"
      using min_scaled [of "2 ^ n" "2 * unat (du_period d)"] by (simp add: mult_ac)
    finally show ?case by (simp add: e)
  qed
  then show ?thesis using assms(6) by (simp add: run_period)
qed

lemma backoff_doubles_example:
  "unat (du_period (fold (run_duty True) (replicate 50 \<lparr>po_did = False, po_deadline = NEVER, po_end = 0\<rparr>)
     (duty_every 0 1000000 8000000 Anywhere))) = 2000000"
proof -
  have "unat (du_period (fold (run_duty True) (replicate 50 \<lparr>po_did = False, po_deadline = NEVER, po_end = 0\<rparr>)
      (duty_every 0 1000000 8000000 Anywhere))) =
      min (unat (du_period (duty_every 0 1000000 8000000 Anywhere)) * 2 ^ 1) (unat (du_max (duty_every 0 1000000 8000000 Anywhere)))"
    by (rule conjunct1 [OF backoff_doubles [where found = "\<lparr>po_did = True, po_deadline = NEVER, po_end = 0\<rparr>"]])
      (simp_all add: duty_every_example)
  then show ?thesis by (simp add: duty_every_example)
qed


section \<open>Idle workers and touches\<close>

text \<open>
  An idle worker that gets the lock once a registered duty may be half due runs exactly the duties that
  are: each one for any thread, once; none that only the keeper may run, none that is not half due.
\<close>

lemma idle_runs_the_due:
  assumes "distinct (rg_reg g)" and "rg_active g \<noteq> 0" and "rg_half_due g \<le> now" and "i \<in> set (rg_reg g)"
  shows "rg_duty (run_idle now True po g) i =
      (if du_place (rg_duty g i) = Anywhere \<and> half_due (rg_duty g i) \<le> now
       then run_duty False (po i) (rg_duty g i) else rg_duty g i) \<and>
    du_worker_polls (rg_duty (run_idle now True po g) i) =
      du_worker_polls (rg_duty g i) + (if du_place (rg_duty g i) = Anywhere \<and> half_due (rg_duty g i) \<le> now then 1 else 0) \<and>
    du_keeper_polls (rg_duty (run_idle now True po g) i) = du_keeper_polls (rg_duty g i)"
proof -
  have "rg_duty (run_idle now True po g) i =
      (if du_place (rg_duty g i) = Anywhere \<and> half_due (rg_duty g i) \<le> now
       then run_duty False (po i) (rg_duty g i) else rg_duty g i)"
    using assms by (simp add: run_idle_def idle_slow_def idle_fold_duty not_less update_half_due_def)
  then show ?thesis by (simp add: run_duty_def Let_def)
qed

lemma fold_run_replicate:
  "du_waiters (fold (run_duty k) (replicate n po) d) = du_waiters d"
  "du_wait_period (fold (run_duty k) (replicate n po) d) = du_wait_period d"
  "du_last (fold (run_duty k) (replicate n po) d) = (if n = 0 then du_last d else po_end po)"
  "du_deadline (fold (run_duty k) (replicate n po) d) = (if n = 0 then du_deadline d else po_deadline po)"
  by (induction n arbitrary: d) simp_all

text \<open>
  A touch may bring a duty's next run forward: it resets a period that has backed off to the minimum and
  tells nobody.  With a period of 1 ms to 8 ms, backed off once, a touch 0.3 ms after the last run
  makes the duty due at 1.3 ms, but the keeper and the idle workers keep the 2 ms and 1 ms of before.
\<close>

lemma touch_brings_forward:
  "let d = fold (run_duty True) (replicate 50 \<lparr>po_did = False, po_deadline = NEVER, po_end = 0\<rparr>)
             (duty_every 0 1000000 8000000 Anywhere)
   in due d = 2000000 \<and> half_due d = 1000000 \<and> due (touch 300000 d) = 1300000 \<and> half_due (touch 300000 d) = 800000"
proof -
  let ?po = "\<lparr>po_did = False, po_deadline = NEVER, po_end = 0\<rparr>"
  let ?d = "fold (run_duty True) (replicate 50 ?po) (duty_every 0 1000000 8000000 Anywhere)"
  have p: "unat (du_period ?d) = 2000000"
    using fifty_idle_polls [of "replicate 50 ?po" "duty_every 0 1000000 8000000 Anywhere" True] by (simp add: duty_every_example)
  then have "du_period ?d = 2000000" by (simp add: word_unat_eq_iff)
  moreover have "du_last ?d = 0 \<and> du_deadline ?d = NEVER \<and> du_waiters ?d = 0 \<and> du_wait_period ?d = 1000000 \<and> du_min ?d = 1000000"
    unfolding fold_run_replicate fold_run_fields duty_every_example by simp
  ultimately show ?thesis
    unfolding Let_def due_def half_due_def touch_def effective_period_def by (simp add: sat_add_def min_absorb1 del: fold_replicate)
qed

end
