(* ===== verification/Duty_Keeper.thy ===== *)
theory Duty_Keeper
  imports Duty
begin

text \<open>
  The keeper of \<open>duty.rs\<close> among the threads that touch, change, register, wait for and run duties.  A duty's fields are atomics
  that most of them read and write without a lock, so every access to one of them is a step here: the operations
  of \<open>Duty\<close> are programs of accesses, and all threads interleave.  What only decides when an idle
  worker looks (\<open>half_due\<close>, \<open>timed\<close>, \<open>timed_until\<close>) is arbitrary: a worker may take the lock and run a duty at any time, and
  the keeper may read any value there.  Memory is sequentially consistent, which the fences of \<open>replan\<close> and \<open>keep\<close> are there
  for.  A keeper whose plan has passed parks for 1 us all the same, and a park may return at any time.
\<close>

section \<open>The operations as programs of accesses\<close>

text \<open>\<open>due\<close>: with the last time, the period, the effective period; then the due time.\<close>

datatype due_pc =
    Due_Last | Due_Period u64 | Due_Waiters u64 u64 | Due_Wait u64 u64 | Due_Deadline u64 u64 | Due_Is u64

fun due_access :: "due_pc \<Rightarrow> duty \<Rightarrow> due_pc" where
  "due_access Due_Last d = Due_Period (du_last d)"
| "due_access (Due_Period l) d = Due_Waiters l (du_period d)"
| "due_access (Due_Waiters l p) d = (if du_waiters d \<noteq> 0 then Due_Wait l p else Due_Deadline l p)"
| "due_access (Due_Wait l p) d = Due_Deadline l (min p (du_wait_period d))"
| "due_access (Due_Deadline l e) d = Due_Is (min (sat_add l e) (du_deadline d))"
| "due_access (Due_Is v) d = Due_Is v"

text \<open>\<open>touch\<close>: the clock, the minimum, the wait period, the last time; then the two stores, and a reset.\<close>

datatype touch_pc =
    Touch_Clock | Touch_Min u64 | Touch_Wait u64 u64 | Touch_Last u64 u64 | Touch_Store u64
  | Touch_Reload | Touch_Period u64 | Touch_Reset u64 | Touch_Polls

fun touch_access :: "u64 \<Rightarrow> touch_pc \<Rightarrow> duty \<Rightarrow> touch_pc option \<times> duty" where
  "touch_access now Touch_Clock d = (Some (Touch_Min now), d)"
| "touch_access now (Touch_Min n) d = (Some (Touch_Wait n (du_min d)), d)"
| "touch_access now (Touch_Wait n m) d = (Some (Touch_Last n (min m (du_wait_period d) div 4)), d)"
| "touch_access now (Touch_Last n grain) d = (if n - du_last d > grain then Some (Touch_Store n) else None, d)"
| "touch_access now (Touch_Store n) d = (Some Touch_Reload, d\<lparr>du_last := n\<rparr>)"
| "touch_access now Touch_Reload d = (Some (Touch_Period (du_min d)), d)"
| "touch_access now (Touch_Period m) d = (if du_period d \<noteq> m then Some (Touch_Reset m) else None, d)"
| "touch_access now (Touch_Reset m) d = (Some Touch_Polls, d\<lparr>du_period := m\<rparr>)"
| "touch_access now Touch_Polls d = (None, d\<lparr>du_idle_polls := 0\<rparr>)"

text \<open>The stores of \<open>Duty::set_period\<close>.\<close>

datatype set_pc = Set_Min u64 u64 | Set_Max u64 u64 | Set_Period u64 | Set_Polls

fun set_access :: "set_pc \<Rightarrow> duty \<Rightarrow> set_pc option \<times> duty" where
  "set_access (Set_Min mn mx) d = (Some (Set_Max mn mx), d\<lparr>du_min := mn\<rparr>)"
| "set_access (Set_Max mn mx) d = (Some (Set_Period mn), d\<lparr>du_max := mx\<rparr>)"
| "set_access (Set_Period mn) d = (Some Set_Polls, d\<lparr>du_period := mn\<rparr>)"
| "set_access Set_Polls d = (None, d\<lparr>du_idle_polls := 0\<rparr>)"

text \<open>\<open>run\<close>, under the registry's lock, which the other operations do not take; \<open>did\<close> is what the poll returns.\<close>

datatype run_pc =
    Run_Clear | Run_Poll | Run_Clock bool | Run_Last bool u64 | Run_Min bool | Run_Max bool u64
  | Run_Found u64 | Run_Polls u64 | Run_Period u64 | Run_Double u64 u64 | Run_Count u32 | Run_Reset | Run_Stat

fun run_access :: "bool \<Rightarrow> u64 \<Rightarrow> bool \<Rightarrow> run_pc \<Rightarrow> duty \<Rightarrow> run_pc option \<times> duty" where
  "run_access by_keeper now did Run_Clear d = (Some Run_Poll, d\<lparr>du_deadline := NEVER\<rparr>)"
| "run_access by_keeper now did Run_Poll d = (Some (Run_Clock did), d)"
| "run_access by_keeper now did (Run_Clock b) d = (Some (Run_Last b now), d)"
| "run_access by_keeper now did (Run_Last b n) d = (Some (Run_Min b), d\<lparr>du_last := n\<rparr>)"
| "run_access by_keeper now did (Run_Min b) d = (Some (Run_Max b (du_min d)), d)"
| "run_access by_keeper now did (Run_Max b mn) d =
     (Some (if b then Run_Found mn else if du_max d > mn then Run_Polls (du_max d) else Run_Stat), d)"
| "run_access by_keeper now did (Run_Found mn) d = (Some Run_Reset, d\<lparr>du_period := mn\<rparr>)"
| "run_access by_keeper now did (Run_Polls mx) d =
     (let n = du_idle_polls d + 1 in (Some (if n \<ge> IDLE_POLLS then Run_Period mx else Run_Count n), d))"
| "run_access by_keeper now did (Run_Period mx) d = (Some (Run_Double mx (du_period d)), d)"
| "run_access by_keeper now did (Run_Double mx p) d = (Some Run_Reset, d\<lparr>du_period := min (sat_double p) mx\<rparr>)"
| "run_access by_keeper now did (Run_Count n) d = (Some Run_Stat, d\<lparr>du_idle_polls := n\<rparr>)"
| "run_access by_keeper now did Run_Reset d = (Some Run_Stat, d\<lparr>du_idle_polls := 0\<rparr>)"
| "run_access by_keeper now did Run_Stat d =
     (None, if by_keeper then d\<lparr>du_keeper_polls := du_keeper_polls d + 1\<rparr> else d\<lparr>du_worker_polls := du_worker_polls d + 1\<rparr>)"

text \<open>Without interference the programs are the operations of \<open>Duty\<close>; the fuel is the length of the longest path.\<close>

fun run_through :: "('p \<Rightarrow> duty \<Rightarrow> 'p option \<times> duty) \<Rightarrow> nat \<Rightarrow> 'p \<Rightarrow> duty \<Rightarrow> duty option" where
  "run_through access 0 p d = None"
| "run_through access (Suc n) p d =
     (case access p d of (None, d') \<Rightarrow> Some d' | (Some q, d') \<Rightarrow> run_through access n q d')"

lemma touch_alone: "run_through (touch_access now) 9 Touch_Clock d = Some (touch now d)"
  by (simp add: numeral_eq_Suc touch_def Let_def)

lemma set_alone: "period_bounds p = (mn, mx) \<Longrightarrow> run_through set_access 4 (Set_Min mn mx) d = Some (set_period p d)"
  by (simp add: numeral_eq_Suc set_period_def)

lemma run_alone:
  "run_through (run_access k now did) 12 Run_Clear d = Some (run_duty k \<lparr>po_did = did, po_deadline = NEVER, po_end = now\<rparr> d)"
  by (simp add: numeral_eq_Suc run_duty_def Let_def)

lemma due_alone: "((\<lambda>e. due_access e d) ^^ 5) Due_Last = Due_Is (due d)"
  by (simp add: numeral_eq_Suc due_def effective_period_def min.commute)

section \<open>The threads\<close>

text \<open>
  A thread is in one operation at a time; what a duty's poll does besides its result is done by further threads.  A worker
  holds the lock with the duties it has yet to look at.
\<close>

datatype duty_pc =
    Th_Out
  | Th_Touch nat touch_pc
  | Th_Set nat set_pc
  | Th_Due nat due_pc        \<comment> \<open>in \<open>replan\<close>, past its fence\<close>
  | Th_Unpark nat
  | Th_Push nat              \<comment> \<open>in \<open>register\<close>\<close>
  | Th_Start nat
  | Th_Worker "nat list"
  | Th_Run nat run_pc "nat list"

text \<open>The keeper: the duties to visit, the earliest due time of those only it runs and of the others, its clock reading.\<close>

datatype keeper_pc =
    Kp_Top
  | Kp_Lock
  | Kp_Clock
  | Kp_Next "nat list" u64 u64 u64
  | Kp_Due bool nat due_pc "nat list" u64 u64 u64     \<comment> \<open>whether it may still run it\<close>
  | Kp_Run nat run_pc "nat list" u64 u64 u64
  | Kp_Until u64 u64
  | Kp_Timed u64 u64 u64
  | Kp_Plan u64
  | Kp_Unlock u64
  | Kp_Sleep u64
  | Kp_Parked u64

text \<open>
  Three fields are histories, for the proofs: \<open>kq_latest\<close>, the latest time the duty was run or touched; \<open>kq_cap\<close>, the largest
  maximum period it was ever given; \<open>kq_asked\<close>, the deadline, but for what a poll run by a worker asks for.
\<close>

record keeper_sys =
  kq_duty :: "nat \<Rightarrow> duty"
  kq_latest :: "nat \<Rightarrow> u64"
  kq_cap :: "nat \<Rightarrow> u64"
  kq_asked :: "nat \<Rightarrow> u64"
  kq_made :: "nat set"
  kq_reg :: "nat list"
  kq_locked :: bool
  kq_planned :: u64
  kq_started :: bool         \<comment> \<open>the keeper thread was started\<close>
  kq_token :: bool           \<comment> \<open>its unpark token\<close>
  kq_keeper :: keeper_pc
  kq_pc :: "nat \<Rightarrow> duty_pc"
  kq_now :: u64

definition kq_start :: keeper_sys where
  "kq_start =
     \<lparr>kq_duty = (\<lambda>_. new_duty 0 0 0 0 Anywhere), kq_latest = (\<lambda>_. 0), kq_cap = (\<lambda>_. 0), kq_asked = (\<lambda>_. NEVER), kq_made = {},
      kq_reg = [], kq_locked = False, kq_planned = NEVER, kq_started = False, kq_token = False, kq_keeper = Kp_Top,
      kq_pc = (\<lambda>_. Th_Out), kq_now = 0\<rparr>"

definition kq_goto :: "nat \<Rightarrow> duty_pc \<Rightarrow> keeper_sys \<Rightarrow> keeper_sys" where
  "kq_goto t pc s = s\<lparr>kq_pc := (kq_pc s)(t := pc)\<rparr>"

definition kq_write :: "nat \<Rightarrow> duty \<Rightarrow> keeper_sys \<Rightarrow> keeper_sys" where
  "kq_write i d s =
     s\<lparr>kq_duty := (kq_duty s)(i := d), kq_latest := (kq_latest s)(i := max (kq_latest s i) (du_last d)),
       kq_cap := (kq_cap s)(i := max (kq_cap s i) (max (du_min d) (du_max d)))\<rparr>"

definition kq_ask :: "nat \<Rightarrow> u64 \<Rightarrow> keeper_sys \<Rightarrow> keeper_sys" where
  "kq_ask i v s = s\<lparr>kq_asked := (kq_asked s)(i := v)\<rparr>"

definition kq_unpark :: "keeper_sys \<Rightarrow> keeper_sys" where
  "kq_unpark s = s\<lparr>kq_token := (kq_token s \<or> kq_started s)\<rparr>"

text \<open>An access of a run; the store that clears the deadline serves what was asked for.\<close>

definition kq_run :: "nat \<Rightarrow> run_pc \<Rightarrow> duty \<Rightarrow> keeper_sys \<Rightarrow> keeper_sys" where
  "kq_run i p d s = (if p = Run_Clear then kq_ask i NEVER (kq_write i d s) else kq_write i d s)"

text \<open>\<open>set_deadline\<close>, and a new sleeper's \<open>fetch_min\<close>, after which it replans if its time is earlier.\<close>

definition kq_set_deadline :: "nat \<Rightarrow> nat \<Rightarrow> nat option \<Rightarrow> keeper_sys \<Rightarrow> keeper_sys" where
  "kq_set_deadline t i at s =
     (let d = set_deadline at (kq_duty s i) in kq_goto t (Th_Due i Due_Last) (kq_ask i (du_deadline d) (kq_write i d s)))"

definition kq_sleeper :: "nat \<Rightarrow> nat \<Rightarrow> u64 \<Rightarrow> keeper_sys \<Rightarrow> keeper_sys" where
  "kq_sleeper t i at s =
     (let d = kq_duty s i
      in if at < du_deadline d then
           kq_goto t (Th_Due i Due_Last) (kq_ask i at (kq_write i (d\<lparr>du_deadline := at\<rparr>) s))
         else s)"

definition kq_waiter_new :: "nat \<Rightarrow> nat \<Rightarrow> keeper_sys \<Rightarrow> keeper_sys" where
  "kq_waiter_new t i s =
     (let d = kq_duty s i
      in kq_goto t (if du_waiters d = 0 then Th_Due i Due_Last else Th_Out)
           (kq_write i (d\<lparr>du_waiters := du_waiters d + 1\<rparr>) s))"

text \<open>The end of \<open>replan\<close>: the due time is compared with the keeper's plan.\<close>

definition kq_test :: "nat \<Rightarrow> nat \<Rightarrow> u64 \<Rightarrow> keeper_sys \<Rightarrow> keeper_sys" where
  "kq_test t i v s = kq_goto t (if v < kq_planned s then Th_Unpark i else Th_Out) s"

text \<open>\<open>register\<close>: a new duty, its place in the registry, and the keeper's start.\<close>

definition kq_make :: "nat \<Rightarrow> nat \<Rightarrow> duty \<Rightarrow> keeper_sys \<Rightarrow> keeper_sys" where
  "kq_make t i d s = kq_goto t (Th_Push i) (kq_ask i NEVER (kq_write i d (s\<lparr>kq_made := insert i (kq_made s)\<rparr>)))"

definition kq_push :: "nat \<Rightarrow> nat \<Rightarrow> keeper_sys \<Rightarrow> keeper_sys" where
  "kq_push t i s = kq_goto t (Th_Start i) (s\<lparr>kq_reg := kq_reg s @ [i]\<rparr>)"

definition kq_start_keeper :: "nat \<Rightarrow> nat \<Rightarrow> keeper_sys \<Rightarrow> keeper_sys" where
  "kq_start_keeper t i s = kq_goto t (Th_Due i Due_Last) (s\<lparr>kq_started := True\<rparr>)"

text \<open>The keeper with the due time of a duty: it runs it, or goes on with the next one.\<close>

definition kq_decide :: "bool \<Rightarrow> nat \<Rightarrow> u64 \<Rightarrow> nat list \<Rightarrow> u64 \<Rightarrow> u64 \<Rightarrow> u64 \<Rightarrow> keeper_sys \<Rightarrow> keeper_sys" where
  "kq_decide may_run i v rest mine any now s =
     s\<lparr>kq_keeper :=
       (if may_run \<and> v \<le> now then Kp_Run i Run_Clear rest mine any now
        else (case du_place (kq_duty s i) of
                Keeper \<Rightarrow> Kp_Next rest (min mine v) any now
              | Anywhere \<Rightarrow> Kp_Next rest mine (min any v) now))\<rparr>"

definition kq_plan :: "u64 \<Rightarrow> u64 \<Rightarrow> u64 \<Rightarrow> bool \<Rightarrow> u64" where
  "kq_plan mine any until timed =
     min mine (if timed \<and> any \<ge> until \<and> until \<noteq> NEVER then sat_add until TIMED_SLACK else any)"

inductive kq_keeper_step :: "keeper_sys \<Rightarrow> keeper_sys \<Rightarrow> bool" where
  k_top: "kq_keeper s = Kp_Top \<Longrightarrow> kq_started s \<Longrightarrow> kq_keeper_step s (s\<lparr>kq_planned := NEVER, kq_keeper := Kp_Lock\<rparr>)"
| k_lock: "kq_keeper s = Kp_Lock \<Longrightarrow> \<not> kq_locked s \<Longrightarrow> kq_keeper_step s (s\<lparr>kq_locked := True, kq_keeper := Kp_Clock\<rparr>)"
| k_clock: "kq_keeper s = Kp_Clock \<Longrightarrow> kq_keeper_step s (s\<lparr>kq_keeper := Kp_Next (kq_reg s) NEVER NEVER (kq_now s)\<rparr>)"
| k_next: "kq_keeper s = Kp_Next (i # rest) mine any now \<Longrightarrow>
    kq_keeper_step s (s\<lparr>kq_keeper := Kp_Due True i Due_Last rest mine any now\<rparr>)"
| k_due: "kq_keeper s = Kp_Due may_run i e rest mine any now \<Longrightarrow> \<forall>v. e \<noteq> Due_Is v \<Longrightarrow>
    kq_keeper_step s (s\<lparr>kq_keeper := Kp_Due may_run i (due_access e (kq_duty s i)) rest mine any now\<rparr>)"
| k_decide: "kq_keeper s = Kp_Due may_run i (Due_Is v) rest mine any now \<Longrightarrow>
    kq_keeper_step s (kq_decide may_run i v rest mine any now s)"
| k_run: "kq_keeper s = Kp_Run i p rest mine any now \<Longrightarrow> run_access True (kq_now s) did p (kq_duty s i) = (q, d) \<Longrightarrow>
    kq_keeper_step s ((kq_run i p d s)\<lparr>kq_keeper :=
      (case q of None \<Rightarrow> Kp_Due False i Due_Last rest mine any now | Some p' \<Rightarrow> Kp_Run i p' rest mine any now)\<rparr>)"
| k_asks: "kq_keeper s = Kp_Run i Run_Poll rest mine any now \<Longrightarrow>
    kq_keeper_step s (kq_ask i (min (kq_asked s i) at)
      (kq_write i ((kq_duty s i)\<lparr>du_deadline := min (du_deadline (kq_duty s i)) at\<rparr>) s))"
| k_until: "kq_keeper s = Kp_Next [] mine any now \<Longrightarrow> kq_keeper_step s (s\<lparr>kq_keeper := Kp_Until mine any\<rparr>)"
| k_timed: "kq_keeper s = Kp_Until mine any \<Longrightarrow> kq_keeper_step s (s\<lparr>kq_keeper := Kp_Timed mine any until\<rparr>)"
| k_plan: "kq_keeper s = Kp_Timed mine any until \<Longrightarrow> kq_keeper_step s (s\<lparr>kq_keeper := Kp_Plan (kq_plan mine any until timed)\<rparr>)"
| k_store: "kq_keeper s = Kp_Plan nxt \<Longrightarrow> kq_keeper_step s (s\<lparr>kq_planned := nxt, kq_keeper := Kp_Unlock nxt\<rparr>)"
| k_unlock: "kq_keeper s = Kp_Unlock nxt \<Longrightarrow> kq_keeper_step s (s\<lparr>kq_locked := False, kq_keeper := Kp_Sleep nxt\<rparr>)"
| k_park: "kq_keeper s = Kp_Sleep nxt \<Longrightarrow>
    kq_keeper_step s (if kq_token s then s\<lparr>kq_token := False, kq_keeper := Kp_Top\<rparr> else s\<lparr>kq_keeper := Kp_Parked nxt\<rparr>)"
| k_unparked: "kq_keeper s = Kp_Parked nxt \<Longrightarrow> kq_token s \<Longrightarrow> kq_keeper_step s (s\<lparr>kq_token := False, kq_keeper := Kp_Top\<rparr>)"
| k_returns: "kq_keeper s = Kp_Parked nxt \<Longrightarrow> kq_keeper_step s (s\<lparr>kq_keeper := Kp_Top\<rparr>)"

inductive kq_thread_step :: "nat \<Rightarrow> keeper_sys \<Rightarrow> keeper_sys \<Rightarrow> bool" for t :: nat where
  touches: "kq_pc s t = Th_Out \<Longrightarrow> i \<in> kq_made s \<Longrightarrow> kq_thread_step t s (kq_goto t (Th_Touch i Touch_Clock) s)"
| touch_goes: "kq_pc s t = Th_Touch i p \<Longrightarrow> touch_access (kq_now s) p (kq_duty s i) = (q, d) \<Longrightarrow>
    kq_thread_step t s (kq_goto t (case q of None \<Rightarrow> Th_Out | Some p' \<Rightarrow> Th_Touch i p') (kq_write i d s))"
| sets: "kq_pc s t = Th_Out \<Longrightarrow> i \<in> kq_made s \<Longrightarrow> period_bounds p = (mn, mx) \<Longrightarrow>
    kq_thread_step t s (kq_goto t (Th_Set i (Set_Min mn mx)) s)"
| set_goes: "kq_pc s t = Th_Set i p \<Longrightarrow> set_access p (kq_duty s i) = (q, d) \<Longrightarrow>
    kq_thread_step t s (kq_goto t (case q of None \<Rightarrow> Th_Due i Due_Last | Some p' \<Rightarrow> Th_Set i p') (kq_write i d s))"
| sets_wait: "kq_pc s t = Th_Out \<Longrightarrow> i \<in> kq_made s \<Longrightarrow>
    kq_thread_step t s (kq_goto t (Th_Due i Due_Last) (kq_write i (set_wait_period p (kq_duty s i)) s))"
| sets_deadline: "kq_pc s t = Th_Out \<Longrightarrow> i \<in> kq_made s \<Longrightarrow> kq_thread_step t s (kq_set_deadline t i at s)"
| sleeps: "kq_pc s t = Th_Out \<Longrightarrow> i \<in> kq_made s \<Longrightarrow> kq_thread_step t s (kq_sleeper t i v s)"
| waits: "kq_pc s t = Th_Out \<Longrightarrow> i \<in> kq_made s \<Longrightarrow> kq_thread_step t s (kq_waiter_new t i s)"
| unwaits: "kq_pc s t = Th_Out \<Longrightarrow> du_waiters (kq_duty s i) > 0 \<Longrightarrow>
    kq_thread_step t s (kq_write i ((kq_duty s i)\<lparr>du_waiters := du_waiters (kq_duty s i) - 1\<rparr>) s)"
| replans: "kq_pc s t = Th_Due i e \<Longrightarrow> \<forall>v. e \<noteq> Due_Is v \<Longrightarrow>
    kq_thread_step t s (kq_goto t (Th_Due i (due_access e (kq_duty s i))) s)"
| tests: "kq_pc s t = Th_Due i (Due_Is v) \<Longrightarrow> kq_thread_step t s (kq_test t i v s)"
| unparks: "kq_pc s t = Th_Unpark i \<Longrightarrow> kq_thread_step t s (kq_goto t Th_Out (kq_unpark s))"
| makes: "kq_pc s t = Th_Out \<Longrightarrow> i \<notin> kq_made s \<Longrightarrow>
    d = duty_every (kq_now s) p m place \<or> d = duty_on_demand (kq_now s) p place \<Longrightarrow> kq_thread_step t s (kq_make t i d s)"
| pushes: "kq_pc s t = Th_Push i \<Longrightarrow> \<not> kq_locked s \<Longrightarrow> kq_thread_step t s (kq_push t i s)"
| starts: "kq_pc s t = Th_Start i \<Longrightarrow> kq_thread_step t s (kq_start_keeper t i s)"
| drops: "kq_pc s t = Th_Out \<Longrightarrow> \<not> kq_locked s \<Longrightarrow> kq_thread_step t s (s\<lparr>kq_reg := filter (\<lambda>j. j \<noteq> i) (kq_reg s)\<rparr>)"
| works: "kq_pc s t = Th_Out \<Longrightarrow> \<not> kq_locked s \<Longrightarrow> kq_thread_step t s (kq_goto t (Th_Worker (kq_reg s)) (s\<lparr>kq_locked := True\<rparr>))"
| skips: "kq_pc s t = Th_Worker (i # rest) \<Longrightarrow> kq_thread_step t s (kq_goto t (Th_Worker rest) s)"
| runs: "kq_pc s t = Th_Worker (i # rest) \<Longrightarrow> du_place (kq_duty s i) = Anywhere \<Longrightarrow>
    kq_thread_step t s (kq_goto t (Th_Run i Run_Clear rest) s)"
| run_goes: "kq_pc s t = Th_Run i p rest \<Longrightarrow> run_access False (kq_now s) did p (kq_duty s i) = (q, d) \<Longrightarrow>
    kq_thread_step t s (kq_goto t (case q of None \<Rightarrow> Th_Worker rest | Some p' \<Rightarrow> Th_Run i p' rest) (kq_run i p d s))"
| run_asks: "kq_pc s t = Th_Run i Run_Poll rest \<Longrightarrow>
    kq_thread_step t s (kq_write i ((kq_duty s i)\<lparr>du_deadline := min (du_deadline (kq_duty s i)) v\<rparr>) s)"
| worked: "kq_pc s t = Th_Worker [] \<Longrightarrow> kq_thread_step t s (kq_goto t Th_Out (s\<lparr>kq_locked := False\<rparr>))"
| releases: "kq_pc s t = Th_Out \<Longrightarrow> kq_thread_step t s (kq_unpark s)"

inductive kq_step :: "keeper_sys \<Rightarrow> keeper_sys \<Rightarrow> bool" where
  ticks: "kq_now s \<le> now \<Longrightarrow> kq_step s (s\<lparr>kq_now := now\<rparr>)"
| keeper_goes: "kq_keeper_step s s' \<Longrightarrow> kq_step s s'"
| thread_goes: "kq_thread_step t s s' \<Longrightarrow> kq_step s s'"

inductive kq_reachable :: "keeper_sys \<Rightarrow> bool" where
  kq_init: "kq_reachable kq_start"
| kq_next: "kq_reachable s \<Longrightarrow> kq_step s s' \<Longrightarrow> kq_reachable s'"

section \<open>What bounds the keeper's sleep\<close>

text \<open>
  A duty obliges the keeper in three ways: by its period, by the deadline asked for and, while it has waiters, by its
  wait period.  Each gives a latest time for its next run.
\<close>

datatype obligation = Obliged | Asked | Waited

fun latest_run :: "obligation \<Rightarrow> u64 \<Rightarrow> u64 \<Rightarrow> u64 \<Rightarrow> duty \<Rightarrow> u64" where
  "latest_run Obliged la ca asked d = sat_add la ca"
| "latest_run Asked la ca asked d = asked"
| "latest_run Waited la ca asked d = (if du_waiters d \<noteq> 0 then sat_add la (du_wait_period d) else NEVER)"

abbreviation kq_limit :: "obligation \<Rightarrow> keeper_sys \<Rightarrow> nat \<Rightarrow> u64" where
  "kq_limit x s i \<equiv> latest_run x (kq_latest s i) (kq_cap s i) (kq_asked s i) (kq_duty s i)"

text \<open>What has been read so far will give a due time that is early enough.\<close>

fun reads_ok :: "u64 \<Rightarrow> u64 \<Rightarrow> due_pc \<Rightarrow> bool" where
  "reads_ok la ca (Due_Period l) = (l \<le> la)"
| "reads_ok la ca (Due_Waiters l p) = (l \<le> la \<and> p \<le> ca)"
| "reads_ok la ca (Due_Wait l p) = (l \<le> la \<and> p \<le> ca)"
| "reads_ok la ca (Due_Deadline l p) = (l \<le> la \<and> p \<le> ca)"
| "reads_ok la ca _ = True"

fun sound :: "obligation \<Rightarrow> u64 \<Rightarrow> due_pc \<Rightarrow> bool" where
  "sound x lim (Due_Deadline l e) = (x = Asked \<or> sat_add l e \<le> lim)"
| "sound x lim (Due_Is v) = (v \<le> lim)"
| "sound x lim _ = True"

definition values_ok :: "u64 \<Rightarrow> u64 \<Rightarrow> u64 \<Rightarrow> duty \<Rightarrow> bool" where
  "values_ok la ca asked d =
     (du_last d \<le> la \<and> du_min d \<le> ca \<and> du_max d \<le> ca \<and> du_period d \<le> ca \<and> du_deadline d \<le> asked)"

fun touch_ok :: "u64 \<Rightarrow> touch_pc \<Rightarrow> bool" where
  "touch_ok ca (Touch_Period m) = (m \<le> ca)"
| "touch_ok ca (Touch_Reset m) = (m \<le> ca)"
| "touch_ok ca _ = True"

fun set_ok :: "u64 \<Rightarrow> set_pc \<Rightarrow> bool" where
  "set_ok ca (Set_Max mn _) = (mn \<le> ca)"
| "set_ok ca (Set_Period mn) = (mn \<le> ca)"
| "set_ok ca _ = True"

fun run_ok :: "u64 \<Rightarrow> run_pc \<Rightarrow> bool" where
  "run_ok ca (Run_Max _ mn) = (mn \<le> ca)"
| "run_ok ca (Run_Found mn) = (mn \<le> ca)"
| "run_ok ca (Run_Polls mx) = (mx \<le> ca)"
| "run_ok ca (Run_Period mx) = (mx \<le> ca)"
| "run_ok ca (Run_Double mx _) = (mx \<le> ca)"
| "run_ok ca _ = True"

fun thread_ok :: "keeper_sys \<Rightarrow> duty_pc \<Rightarrow> bool" where
  "thread_ok s (Th_Touch i p) = touch_ok (kq_cap s i) p"
| "thread_ok s (Th_Set i p) = set_ok (kq_cap s i) p"
| "thread_ok s (Th_Due i e) = reads_ok (kq_latest s i) (kq_cap s i) e"
| "thread_ok s (Th_Run i p _) = run_ok (kq_cap s i) p"
| "thread_ok s (Th_Push i) = (i \<in> kq_made s)"
| "thread_ok s _ = True"

fun keeper_ok :: "keeper_sys \<Rightarrow> keeper_pc \<Rightarrow> bool" where
  "keeper_ok s (Kp_Due _ i e _ _ _ _) = reads_ok (kq_latest s i) (kq_cap s i) e"
| "keeper_ok s (Kp_Run i p _ _ _ _) = run_ok (kq_cap s i) p"
| "keeper_ok s _ = True"

fun plan_ok :: "u64 \<Rightarrow> keeper_pc \<Rightarrow> bool" where
  "plan_ok planned Kp_Top = True"
| "plan_ok planned (Kp_Unlock nxt) = (planned = nxt)"
| "plan_ok planned (Kp_Sleep nxt) = (planned = nxt)"
| "plan_ok planned (Kp_Parked nxt) = (planned = nxt)"
| "plan_ok planned _ = (planned = NEVER)"

text \<open>A thread that will still tell the keeper, and what the keeper has or will have seen itself.\<close>

fun will_tell :: "obligation \<Rightarrow> u64 \<Rightarrow> nat \<Rightarrow> duty_pc \<Rightarrow> bool" where
  "will_tell x lim i (Th_Due j e) = (j = i \<and> sound x lim e)"
| "will_tell x lim i (Th_Unpark j) = (j = i)"
| "will_tell x lim i (Th_Start j) = (j = i)"
| "will_tell x lim i _ = False"

fun will_see :: "obligation \<Rightarrow> u64 \<Rightarrow> nat \<Rightarrow> keeper_pc \<Rightarrow> bool" where
  "will_see x lim i (Kp_Next rest mine any now) = (i \<in> set rest \<or> min mine any \<le> lim)"
| "will_see x lim i (Kp_Due _ j e rest mine any now) = (i \<in> set rest \<or> i = j \<and> sound x lim e \<or> min mine any \<le> lim)"
| "will_see x lim i (Kp_Run j p rest mine any now) = (i \<in> set rest \<or> i = j \<or> min mine any \<le> lim)"
| "will_see x lim i (Kp_Until mine any) = (min mine any \<le> lim)"
| "will_see x lim i (Kp_Timed mine any _) = (min mine any \<le> lim)"
| "will_see x lim i (Kp_Plan nxt) = (nxt \<le> sat_add lim TIMED_SLACK)"
| "will_see x lim i (Kp_Unlock nxt) = (nxt \<le> sat_add lim TIMED_SLACK)"
| "will_see x lim i (Kp_Sleep nxt) = (nxt \<le> sat_add lim TIMED_SLACK)"
| "will_see x lim i (Kp_Parked nxt) = (nxt \<le> sat_add lim TIMED_SLACK)"
| "will_see x lim i _ = True"

definition kept_in_view :: "obligation \<Rightarrow> keeper_sys \<Rightarrow> nat \<Rightarrow> bool" where
  "kept_in_view x s i =
     (kq_token s \<or> (\<exists>t. will_tell x (kq_limit x s i) i (kq_pc s t)) \<or> will_see x (kq_limit x s i) i (kq_keeper s))"

definition kq_inv :: "keeper_sys \<Rightarrow> bool" where
  "kq_inv s =
     ((\<forall>i. values_ok (kq_latest s i) (kq_cap s i) (kq_asked s i) (kq_duty s i)) \<and> (\<forall>t. thread_ok s (kq_pc s t)) \<and>
      keeper_ok s (kq_keeper s) \<and> plan_ok (kq_planned s) (kq_keeper s) \<and> (\<not> kq_started s \<longrightarrow> kq_keeper s = Kp_Top) \<and>
      set (kq_reg s) \<subseteq> kq_made s \<and> (\<forall>i \<in> set (kq_reg s). \<forall>x. kept_in_view x s i))"

section \<open>Readings keep what they found\<close>

lemma reads_access: "values_ok la ca asked d \<Longrightarrow> reads_ok la ca e \<Longrightarrow> reads_ok la ca (due_access e d)"
  by (cases e) (auto simp: values_ok_def min_def)

lemma sound_access:
  "values_ok la ca asked d \<Longrightarrow> reads_ok la ca e \<Longrightarrow> sound x (latest_run x la ca asked d) e \<Longrightarrow>
   sound x (latest_run x la ca asked d) (due_access e d)"
  by (cases e; cases x) (auto simp: values_ok_def sat_add_mono min.coboundedI1 min.coboundedI2)

lemma sound_mono: "sound x lim e \<Longrightarrow> lim \<le> lim' \<Longrightarrow> sound x lim' e"
  by (cases e) auto

lemma tell_mono: "will_tell x lim i pc \<Longrightarrow> lim \<le> lim' \<Longrightarrow> will_tell x lim' i pc"
  by (cases pc) (auto simp: sound_mono)

lemma see_mono: "will_see x lim i kp \<Longrightarrow> lim \<le> lim' \<Longrightarrow> will_see x lim' i kp"
  by (cases kp) (auto simp: sound_mono intro: order_trans sat_add_mono)

lemma touch_ok_mono: "touch_ok ca p \<Longrightarrow> ca \<le> ca' \<Longrightarrow> touch_ok ca' p"
  by (cases p) auto

lemma set_ok_mono: "set_ok ca p \<Longrightarrow> ca \<le> ca' \<Longrightarrow> set_ok ca' p"
  by (cases p) auto

lemma run_ok_mono: "run_ok ca p \<Longrightarrow> ca \<le> ca' \<Longrightarrow> run_ok ca' p"
  by (cases p) auto

lemma reads_ok_mono: "reads_ok la ca e \<Longrightarrow> la \<le> la' \<Longrightarrow> ca \<le> ca' \<Longrightarrow> reads_ok la' ca' e"
  by (cases e) auto

lemmas ok_mono = touch_ok_mono set_ok_mono run_ok_mono reads_ok_mono

definition grows :: "keeper_sys \<Rightarrow> keeper_sys \<Rightarrow> bool" where
  "grows s s' = ((\<forall>i. kq_latest s i \<le> kq_latest s' i \<and> kq_cap s i \<le> kq_cap s' i) \<and> kq_made s \<subseteq> kq_made s')"

lemma thread_ok_grows: "thread_ok s pc \<Longrightarrow> grows s s' \<Longrightarrow> thread_ok s' pc"
  by (cases pc) (auto simp: grows_def intro: ok_mono)

lemma keeper_ok_grows: "keeper_ok s kp \<Longrightarrow> grows s s' \<Longrightarrow> keeper_ok s' kp"
  by (cases kp) (auto simp: grows_def intro: ok_mono)

section \<open>The accesses keep the values in bounds\<close>

abbreviation bounded :: "u64 \<Rightarrow> duty \<Rightarrow> bool" where
  "bounded ca d \<equiv> du_period d \<le> max ca (max (du_min d) (du_max d))"

lemma touch_step:
  assumes "touch_access now p d = (q, d')" and "values_ok la ca asked d" and "touch_ok ca p"
  shows "bounded ca d' \<and> du_deadline d' = du_deadline d \<and> du_waiters d' = du_waiters d \<and> du_wait_period d' = du_wait_period d \<and>
    (case q of None \<Rightarrow> True | Some p' \<Rightarrow> touch_ok (max ca (max (du_min d') (du_max d'))) p')"
  using assms by (cases p) (auto simp: values_ok_def le_max_iff_disj split: if_splits)

lemma set_step:
  assumes "set_access p d = (q, d')" and "values_ok la ca asked d" and "set_ok ca p"
  shows "bounded ca d' \<and> du_deadline d' = du_deadline d \<and> du_waiters d' = du_waiters d \<and> du_wait_period d' = du_wait_period d \<and>
    (case q of None \<Rightarrow> True | Some p' \<Rightarrow> set_ok (max ca (max (du_min d') (du_max d'))) p')"
  using assms by (cases p) (auto simp: values_ok_def le_max_iff_disj split: if_splits)

lemma run_step:
  assumes "run_access k now did p d = (q, d')" and "values_ok la ca asked d" and "run_ok ca p"
  shows "bounded ca d' \<and> du_deadline d' \<le> (if p = Run_Clear then NEVER else asked) \<and>
    du_waiters d' = du_waiters d \<and> du_wait_period d' = du_wait_period d \<and>
    (case q of None \<Rightarrow> True | Some p' \<Rightarrow> run_ok (max ca (max (du_min d') (du_max d'))) p')"
  using assms by (cases p) (auto simp: values_ok_def le_max_iff_disj Let_def min.coboundedI2 split: if_splits)

lemma kq_fields [simp]:
  "kq_duty (kq_goto t pc s) = kq_duty s" "kq_latest (kq_goto t pc s) = kq_latest s" "kq_cap (kq_goto t pc s) = kq_cap s"
  "kq_asked (kq_goto t pc s) = kq_asked s" "kq_made (kq_goto t pc s) = kq_made s" "kq_reg (kq_goto t pc s) = kq_reg s"
  "kq_planned (kq_goto t pc s) = kq_planned s" "kq_started (kq_goto t pc s) = kq_started s" "kq_token (kq_goto t pc s) = kq_token s"
  "kq_keeper (kq_goto t pc s) = kq_keeper s" "kq_pc (kq_goto t pc s) = (kq_pc s)(t := pc)"
  "kq_duty (kq_ask i v s) = kq_duty s" "kq_latest (kq_ask i v s) = kq_latest s" "kq_cap (kq_ask i v s) = kq_cap s"
  "kq_asked (kq_ask i v s) = (kq_asked s)(i := v)" "kq_made (kq_ask i v s) = kq_made s" "kq_reg (kq_ask i v s) = kq_reg s"
  "kq_planned (kq_ask i v s) = kq_planned s" "kq_started (kq_ask i v s) = kq_started s" "kq_token (kq_ask i v s) = kq_token s"
  "kq_keeper (kq_ask i v s) = kq_keeper s" "kq_pc (kq_ask i v s) = kq_pc s"
  "kq_duty (kq_write i d s) = (kq_duty s)(i := d)" "kq_latest (kq_write i d s) = (kq_latest s)(i := max (kq_latest s i) (du_last d))"
  "kq_cap (kq_write i d s) = (kq_cap s)(i := max (kq_cap s i) (max (du_min d) (du_max d)))"
  "kq_asked (kq_write i d s) = kq_asked s" "kq_made (kq_write i d s) = kq_made s" "kq_reg (kq_write i d s) = kq_reg s"
  "kq_planned (kq_write i d s) = kq_planned s" "kq_started (kq_write i d s) = kq_started s" "kq_token (kq_write i d s) = kq_token s"
  "kq_keeper (kq_write i d s) = kq_keeper s" "kq_pc (kq_write i d s) = kq_pc s"
  by (simp_all add: kq_goto_def kq_ask_def kq_write_def)

lemma kq_run_fields [simp]:
  "kq_duty (kq_run i p d s) = (kq_duty s)(i := d)" "kq_latest (kq_run i p d s) = (kq_latest s)(i := max (kq_latest s i) (du_last d))"
  "kq_cap (kq_run i p d s) = (kq_cap s)(i := max (kq_cap s i) (max (du_min d) (du_max d)))"
  "kq_asked (kq_run i p d s) = (kq_asked s)(i := if p = Run_Clear then NEVER else kq_asked s i)" "kq_made (kq_run i p d s) = kq_made s"
  "kq_reg (kq_run i p d s) = kq_reg s" "kq_planned (kq_run i p d s) = kq_planned s" "kq_started (kq_run i p d s) = kq_started s"
  "kq_token (kq_run i p d s) = kq_token s" "kq_keeper (kq_run i p d s) = kq_keeper s" "kq_pc (kq_run i p d s) = kq_pc s"
  by (simp_all add: kq_run_def)

section \<open>The keeper keeps every obligation in sight\<close>

lemma kq_invD:
  assumes "kq_inv s"
  shows "values_ok (kq_latest s i) (kq_cap s i) (kq_asked s i) (kq_duty s i)" "thread_ok s (kq_pc s t)" "keeper_ok s (kq_keeper s)"
    "plan_ok (kq_planned s) (kq_keeper s)" "\<not> kq_started s \<Longrightarrow> kq_keeper s = Kp_Top" "j \<in> set (kq_reg s) \<Longrightarrow> j \<in> kq_made s"
    "j \<in> set (kq_reg s) \<Longrightarrow> kept_in_view x s j"
  using assms by (auto simp: kq_inv_def)

lemma thread_frame:
  assumes inv: "kq_inv s" and g: "grows s s'"
    and v: "\<And>i. values_ok (kq_latest s' i) (kq_cap s' i) (kq_asked s' i) (kq_duty s' i)"
    and pc: "kq_pc s' = (kq_pc s)(t := pc')" "thread_ok s' pc'"
    and same: "kq_keeper s' = kq_keeper s" "kq_planned s' = kq_planned s" "kq_started s \<longrightarrow> kq_started s'" "kq_token s \<longrightarrow> kq_token s'"
    and reg: "set (kq_reg s') \<subseteq> kq_made s'"
    and c: "\<And>x i. i \<in> set (kq_reg s') \<Longrightarrow> will_tell x (kq_limit x s' i) i pc' \<or> kq_token s' \<or>
      i \<in> set (kq_reg s) \<and> kq_limit x s i \<le> kq_limit x s' i \<and>
      (will_tell x (kq_limit x s i) i (kq_pc s t) \<longrightarrow> will_tell x (kq_limit x s' i) i pc' \<or> will_see x (kq_limit x s' i) i (kq_keeper s))"
  shows "kq_inv s'"
proof -
  have "kept_in_view x s' i" if r: "i \<in> set (kq_reg s')" for x i
  proof (cases "will_tell x (kq_limit x s' i) i pc' \<or> kq_token s'")
    case True
    then show ?thesis using pc(1) by (auto simp: kept_in_view_def)
  next
    case False
    then have i: "i \<in> set (kq_reg s)" "kq_limit x s i \<le> kq_limit x s' i"
      and h: "will_tell x (kq_limit x s i) i (kq_pc s t) \<Longrightarrow> will_see x (kq_limit x s' i) i (kq_keeper s)"
      using c [OF r, of x] by auto
    from kq_invD(7) [OF inv i(1), of x] consider (k) "kq_token s" | (t) u where "will_tell x (kq_limit x s i) i (kq_pc s u)"
      | (s) "will_see x (kq_limit x s i) i (kq_keeper s)" by (auto simp: kept_in_view_def)
    then show ?thesis
    proof cases
      case k then show ?thesis using same(4) by (simp add: kept_in_view_def)
    next
      case t
      then show ?thesis
        using h tell_mono [OF t i(2)] pc(1) same(1) by (cases "u = t") (auto simp: kept_in_view_def fun_upd_def)
    next
      case s then show ?thesis using see_mono [OF s i(2)] same(1) by (simp add: kept_in_view_def)
    qed
  qed
  moreover have "thread_ok s' (kq_pc s' u)" for u
    using kq_invD(2) [OF inv, of u] pc g by (simp add: thread_ok_grows)
  ultimately show ?thesis
    using v reg same kq_invD(3-5) [OF inv] g keeper_ok_grows by (auto simp: kq_inv_def)
qed

lemma keeper_frame:
  assumes inv: "kq_inv s" and g: "grows s s'"
    and v: "\<And>i. values_ok (kq_latest s' i) (kq_cap s' i) (kq_asked s' i) (kq_duty s' i)"
    and kp: "kq_keeper s' = kp'" "keeper_ok s' kp'" "plan_ok (kq_planned s') kp'"
    and same: "kq_pc s' = kq_pc s" "kq_started s' = kq_started s" "kq_reg s' = kq_reg s" "kq_made s' = kq_made s"
      "kq_started s \<or> kp' = Kp_Top" "kq_token s \<longrightarrow> kq_token s' \<or> kp' = Kp_Top"
    and c: "\<And>x i. i \<in> set (kq_reg s) \<Longrightarrow> will_see x (kq_limit x s' i) i kp' \<or> kq_limit x s i \<le> kq_limit x s' i \<and>
      (will_see x (kq_limit x s i) i (kq_keeper s) \<longrightarrow> will_see x (kq_limit x s' i) i kp')"
  shows "kq_inv s'"
proof -
  have "kept_in_view x s' i" if r: "i \<in> set (kq_reg s)" for x i
    using kq_invD(7) [OF inv r, of x] c [OF r, of x] same(1,6) kp(1) tell_mono by (fastforce simp: kept_in_view_def)
  moreover have "thread_ok s' (kq_pc s' u)" for u
    using thread_ok_grows [OF kq_invD(2) [OF inv, of u] g] same(1) by simp
  ultimately show ?thesis
    using v kp same kq_invD(6) [OF inv] by (auto simp: kq_inv_def)
qed

lemma limit_mono:
  assumes "la \<le> la'" and "ca \<le> ca'" and "asked \<le> asked'"
    and "du_waiters d' \<noteq> 0 \<Longrightarrow> du_waiters d \<noteq> 0 \<and> du_wait_period d' = du_wait_period d"
  shows "latest_run x la ca asked d \<le> latest_run x la' ca' asked' d'"
  using assms by (cases x) (auto simp: sat_add_mono)

text \<open>A thread that is not about to tell the keeper anything writes to a duty.\<close>

lemma thread_write:
  assumes inv: "kq_inv s"
    and s': "kq_duty s' = (kq_duty s)(i := d)" "kq_latest s' = (kq_latest s)(i := max (kq_latest s i) (du_last d))"
      "kq_cap s' = (kq_cap s)(i := max (kq_cap s i) (max (du_min d) (du_max d)))" "kq_asked s' = (kq_asked s)(i := asked)"
      "kq_made s \<subseteq> kq_made s'" "kq_reg s' = kq_reg s" "kq_planned s' = kq_planned s" "kq_started s' = kq_started s"
      "kq_token s' = kq_token s" "kq_keeper s' = kq_keeper s" "kq_pc s' = (kq_pc s)(t := pc')"
    and d: "bounded (kq_cap s i) d" "du_deadline d \<le> asked" and pc: "thread_ok s' pc'" "\<And>x lim j. \<not> will_tell x lim j (kq_pc s t)"
    and c: "pc' = Th_Due i Due_Last \<or> kq_asked s i \<le> asked \<and>
      (du_waiters d \<noteq> 0 \<longrightarrow> du_waiters (kq_duty s i) \<noteq> 0 \<and> du_wait_period d = du_wait_period (kq_duty s i))"
  shows "kq_inv s'"
proof (rule thread_frame [OF inv, where t = t and pc' = pc'])
  show "grows s s'" using s'(5) by (simp add: grows_def s')
  show "values_ok (kq_latest s' j) (kq_cap s' j) (kq_asked s' j) (kq_duty s' j)" for j
    using kq_invD(1) [OF inv, of j] d by (simp add: s' values_ok_def le_max_iff_disj)
  show "set (kq_reg s') \<subseteq> kq_made s'" using kq_invD(6) [OF inv] s' by auto
  show "will_tell x (kq_limit x s' j) j pc' \<or> kq_token s' \<or> j \<in> set (kq_reg s) \<and> kq_limit x s j \<le> kq_limit x s' j \<and>
      (will_tell x (kq_limit x s j) j (kq_pc s t) \<longrightarrow> will_tell x (kq_limit x s' j) j pc' \<or> will_see x (kq_limit x s' j) j (kq_keeper s))"
    if "j \<in> set (kq_reg s')" for x j
  proof (cases "j = i \<and> pc' = Th_Due i Due_Last")
    case False
    then have "kq_limit x s j \<le> kq_limit x s' j"
      using c by (auto simp: s' intro: limit_mono)
    then show ?thesis using that pc(2) s'(6) by simp
  qed simp
qed (use s' pc in simp_all)

lemma thread_stays:
  assumes inv: "kq_inv s"
    and s': "kq_duty s' = kq_duty s" "kq_latest s' = kq_latest s" "kq_cap s' = kq_cap s" "kq_asked s' = kq_asked s"
      "kq_made s' = kq_made s" "set (kq_reg s') \<subseteq> set (kq_reg s)" "kq_planned s' = kq_planned s" "kq_started s \<longrightarrow> kq_started s'"
      "kq_token s \<longrightarrow> kq_token s'" "kq_keeper s' = kq_keeper s" "kq_pc s' = (kq_pc s)(t := pc')"
    and pc: "thread_ok s' pc'"
    and c: "\<And>x i. i \<in> set (kq_reg s) \<Longrightarrow> will_tell x (kq_limit x s i) i (kq_pc s t) \<Longrightarrow>
      will_tell x (kq_limit x s i) i pc' \<or> kq_token s' \<or> will_see x (kq_limit x s i) i (kq_keeper s)"
  shows "kq_inv s'"
proof (rule thread_frame [OF inv, where t = t and pc' = pc'])
  show "values_ok (kq_latest s' j) (kq_cap s' j) (kq_asked s' j) (kq_duty s' j)" for j
    using kq_invD(1) [OF inv, of j] by (simp add: s')
  show "set (kq_reg s') \<subseteq> kq_made s'" using kq_invD(6) [OF inv] s' by auto
  show "will_tell x (kq_limit x s' j) j pc' \<or> kq_token s' \<or> j \<in> set (kq_reg s) \<and> kq_limit x s j \<le> kq_limit x s' j \<and>
      (will_tell x (kq_limit x s j) j (kq_pc s t) \<longrightarrow> will_tell x (kq_limit x s' j) j pc' \<or> will_see x (kq_limit x s' j) j (kq_keeper s))"
    if "j \<in> set (kq_reg s')" for x j
    using that s'(1-4,6) c [of j x] by auto
qed (use s' pc in \<open>simp_all add: grows_def\<close>)

lemma test_hands_over:
  assumes "plan_ok planned kp" and "\<not> v < planned" and "v \<le> lim"
  shows "will_see x lim i kp"
proof -
  have "planned \<le> lim" using assms(2,3) by (meson le_less_linear order_trans)
  moreover have "a \<le> NEVER" for a :: u64 by simp
  ultimately show ?thesis using assms(1) by (cases kp) (auto intro: order_trans sat_add_ge1 simp del: u64_le_max)
qed

lemma thread_inv:
  assumes "kq_thread_step t s s'" and inv: "kq_inv s"
  shows "kq_inv s'"
  using assms(1)
proof cases
  case (touch_goes i p q d)
  note a = touch_step [OF touch_goes(3) kq_invD(1) [OF inv]] kq_invD(2) [OF inv, of t]
  show ?thesis unfolding touch_goes(1)
    by (rule thread_write [OF inv, where i = i and d = d and t = t and asked = "kq_asked s i"])
      (use a touch_goes kq_invD(1) [OF inv, of i] in \<open>auto simp: values_ok_def split: option.splits\<close>)
next
  case (set_goes i p q d)
  note a = set_step [OF set_goes(3) kq_invD(1) [OF inv]] kq_invD(2) [OF inv, of t]
  show ?thesis unfolding set_goes(1)
    by (rule thread_write [OF inv, where i = i and d = d and t = t and asked = "kq_asked s i"])
      (use a set_goes kq_invD(1) [OF inv, of i] in \<open>auto simp: values_ok_def split: option.splits\<close>)
next
  case (run_goes i p rest did q d)
  note a = run_step [OF run_goes(3) kq_invD(1) [OF inv]] kq_invD(2) [OF inv, of t]
  show ?thesis unfolding run_goes(1)
    by (rule thread_write [OF inv, where i = i and d = d and t = t and asked = "if p = Run_Clear then NEVER else kq_asked s i"])
      (use a run_goes kq_invD(1) [OF inv, of i] in \<open>auto simp: values_ok_def split: option.splits if_splits\<close>)
next
  case (touches i)
  show ?thesis unfolding touches(1)
    by (rule thread_stays [OF inv, where t = t]) (use touches in auto)
next
  case (sets i p mn mx)
  show ?thesis unfolding sets(1)
    by (rule thread_stays [OF inv, where t = t]) (use sets in auto)
next
  case (sets_wait i p)
  show ?thesis unfolding sets_wait(1)
    by (rule thread_write [OF inv, where i = i and t = t and asked = "kq_asked s i" and d = "set_wait_period p (kq_duty s i)"])
      (use sets_wait kq_invD(1) [OF inv, of i] in \<open>auto simp: values_ok_def set_wait_period_def le_max_iff_disj\<close>)
next
  case (sets_deadline i at)
  show ?thesis unfolding sets_deadline(1) kq_set_deadline_def Let_def
    by (rule thread_write [OF inv, where i = i and t = t and d = "set_deadline at (kq_duty s i)" and
          asked = "du_deadline (set_deadline at (kq_duty s i))"])
      (use sets_deadline kq_invD(1) [OF inv, of i] in \<open>auto simp: values_ok_def set_deadline_def le_max_iff_disj\<close>)
next
  case (sleeps i v)
  show ?thesis
  proof (cases "v < du_deadline (kq_duty s i)")
    case True
    show ?thesis unfolding sleeps(1) kq_sleeper_def Let_def
      by (simp add: True, rule thread_write [OF inv, where i = i and t = t and asked = v and d = "kq_duty s i\<lparr>du_deadline := v\<rparr>"])
        (use sleeps kq_invD(1) [OF inv, of i] in \<open>auto simp: values_ok_def le_max_iff_disj\<close>)
  qed (use sleeps inv in \<open>simp add: kq_sleeper_def\<close>)
next
  case (waits i)
  show ?thesis unfolding waits(1) kq_waiter_new_def Let_def
    by (rule thread_write [OF inv, where i = i and t = t and asked = "kq_asked s i" and
          d = "kq_duty s i\<lparr>du_waiters := du_waiters (kq_duty s i) + 1\<rparr>"])
      (use waits kq_invD(1) [OF inv, of i] in \<open>auto simp: values_ok_def le_max_iff_disj\<close>)
next
  case (unwaits i)
  show ?thesis unfolding unwaits(1)
    by (rule thread_write [OF inv, where i = i and t = t and asked = "kq_asked s i" and pc' = Th_Out and
          d = "kq_duty s i\<lparr>du_waiters := du_waiters (kq_duty s i) - 1\<rparr>"])
      (use unwaits kq_invD(1) [OF inv, of i] in \<open>auto simp: values_ok_def le_max_iff_disj fun_upd_idem\<close>)
next
  case (replans i e)
  note v = kq_invD(1) [OF inv, of i] and r = kq_invD(2) [OF inv, of t]
  show ?thesis unfolding replans(1)
    by (rule thread_stays [OF inv, where t = t]) (use replans v r in \<open>auto simp: reads_access intro: sound_access\<close>)
next
  case (tests i v)
  show ?thesis unfolding tests(1) kq_test_def
    by (rule thread_stays [OF inv, where t = t]) (use tests test_hands_over [OF kq_invD(4) [OF inv]] in \<open>auto split: if_splits\<close>)
next
  case (unparks i)
  show ?thesis unfolding unparks(1)
    by (rule thread_stays [OF inv, where t = t]; cases "kq_started s")
      (use unparks kq_invD(5) [OF inv] in \<open>auto simp: kq_unpark_def kq_goto_def\<close>)
next
  case (makes i d p m place)
  show ?thesis unfolding makes(1) kq_make_def
    by (rule thread_write [OF inv, where i = i and t = t and asked = NEVER and d = d])
      (use makes in \<open>auto simp: duty_every_def duty_on_demand_def new_duty_def Let_def le_max_iff_disj\<close>)
next
  case (pushes i)
  have "i \<in> kq_made s" using kq_invD(2) [OF inv, of t] pushes by simp
  then show ?thesis unfolding pushes(1) kq_push_def
    by (intro thread_frame [OF inv, where t = t and pc' = "Th_Start i"])
      (use pushes kq_invD(1,6) [OF inv] in \<open>auto simp: grows_def\<close>)
next
  case (starts i)
  show ?thesis unfolding starts(1) kq_start_keeper_def
    by (rule thread_stays [OF inv, where t = t]) (use starts in auto)
next
  case (drops i)
  show ?thesis unfolding drops(1)
    by (rule thread_stays [OF inv, where t = t and pc' = Th_Out]) (use drops in \<open>auto simp: fun_upd_idem\<close>)
next
  case works
  show ?thesis unfolding works(1)
    by (rule thread_stays [OF inv, where t = t]) (use works in auto)
next
  case (skips i rest)
  show ?thesis unfolding skips(1)
    by (rule thread_stays [OF inv, where t = t]) (use skips in auto)
next
  case (runs i rest)
  show ?thesis unfolding runs(1)
    by (rule thread_stays [OF inv, where t = t]) (use runs in auto)
next
  case (run_asks i rest v)
  show ?thesis unfolding run_asks(1)
    by (rule thread_write [OF inv, where i = i and t = t and asked = "kq_asked s i" and pc' = "Th_Run i Run_Poll rest" and
          d = "kq_duty s i\<lparr>du_deadline := min (du_deadline (kq_duty s i)) v\<rparr>"])
      (use run_asks kq_invD(1) [OF inv, of i] in \<open>auto simp: values_ok_def le_max_iff_disj fun_upd_idem min.coboundedI1\<close>)
next
  case worked
  show ?thesis unfolding worked(1)
    by (rule thread_stays [OF inv, where t = t]) (use worked in auto)
next
  case releases
  show ?thesis unfolding releases(1)
    by (rule thread_stays [OF inv, where t = t and pc' = Th_Out]) (use releases in \<open>auto simp: kq_unpark_def fun_upd_idem\<close>)
qed

text \<open>The keeper writes to a duty, and moves on without it only once it has seen it.\<close>

lemma keeper_write:
  assumes inv: "kq_inv s"
    and s': "kq_duty s' = (kq_duty s)(i := d)" "kq_latest s' = (kq_latest s)(i := max (kq_latest s i) (du_last d))"
      "kq_cap s' = (kq_cap s)(i := max (kq_cap s i) (max (du_min d) (du_max d)))" "kq_asked s' = (kq_asked s)(i := asked)"
      "kq_made s' = kq_made s" "kq_reg s' = kq_reg s" "kq_planned s' = kq_planned s" "kq_started s' = kq_started s"
      "kq_token s' = kq_token s" "kq_pc s' = kq_pc s"
    and d: "bounded (kq_cap s i) d" "du_deadline d \<le> asked" and w: "du_waiters d = du_waiters (kq_duty s i)" "du_wait_period d = du_wait_period (kq_duty s i)"
    and kp: "kq_keeper s = Kp_Run i p rest mine any now" "keeper_ok s' (kq_keeper s')"
      "kq_keeper s' = Kp_Due False i Due_Last rest mine any now \<or> (\<exists>p'. kq_keeper s' = Kp_Run i p' rest mine any now)"
  shows "kq_inv s'"
proof (rule keeper_frame [OF inv, where kp' = "kq_keeper s'"])
  show "grows s s'" by (simp add: grows_def s')
  show "values_ok (kq_latest s' j) (kq_cap s' j) (kq_asked s' j) (kq_duty s' j)" for j
    using kq_invD(1) [OF inv, of j] d by (simp add: s' values_ok_def le_max_iff_disj)
  show "plan_ok (kq_planned s') (kq_keeper s')" using kq_invD(4) [OF inv] kp s'(7) by auto
  show "kq_started s \<or> kq_keeper s' = Kp_Top" using kq_invD(5) [OF inv] kp(1) by auto
  show "will_see x (kq_limit x s' j) j (kq_keeper s') \<or> kq_limit x s j \<le> kq_limit x s' j \<and>
      (will_see x (kq_limit x s j) j (kq_keeper s) \<longrightarrow> will_see x (kq_limit x s' j) j (kq_keeper s'))" for x j
    using kp(1,3) by (cases "j = i") (auto simp: s')
qed (use s' kp in simp_all)

text \<open>The keeper reads, or changes its own fields.\<close>

lemma keeper_stays:
  assumes inv: "kq_inv s"
    and s': "kq_duty s' = kq_duty s" "kq_latest s' = kq_latest s" "kq_cap s' = kq_cap s" "kq_asked s' = kq_asked s"
      "kq_made s' = kq_made s" "kq_reg s' = kq_reg s" "kq_started s' = kq_started s" "kq_pc s' = kq_pc s"
      "kq_token s \<longrightarrow> kq_token s' \<or> kq_keeper s' = Kp_Top" "kq_started s \<or> kq_keeper s' = Kp_Top"
    and kp: "keeper_ok s' (kq_keeper s')" "plan_ok (kq_planned s') (kq_keeper s')"
    and c: "\<And>x i. i \<in> set (kq_reg s) \<Longrightarrow> will_see x (kq_limit x s i) i (kq_keeper s) \<Longrightarrow> will_see x (kq_limit x s i) i (kq_keeper s')"
  shows "kq_inv s'"
proof (rule keeper_frame [OF inv, where kp' = "kq_keeper s'"])
  show "values_ok (kq_latest s' j) (kq_cap s' j) (kq_asked s' j) (kq_duty s' j)" for j
    using kq_invD(1) [OF inv, of j] by (simp add: s')
  show "will_see x (kq_limit x s' j) j (kq_keeper s') \<or> kq_limit x s j \<le> kq_limit x s' j \<and>
      (will_see x (kq_limit x s j) j (kq_keeper s) \<longrightarrow> will_see x (kq_limit x s' j) j (kq_keeper s'))"
    if "j \<in> set (kq_reg s)" for x j
    using c [OF that, of x] by (simp add: s'(1-4))
qed (use s' kp in \<open>simp_all add: grows_def\<close>)

lemma plan_le:
  assumes "min mine any \<le> lim"
  shows "kq_plan mine any until timed \<le> sat_add lim TIMED_SLACK"
proof -
  have "sat_add until TIMED_SLACK \<le> sat_add lim TIMED_SLACK" if "until \<le> lim"
    using that by (intro sat_add_mono) simp_all
  moreover have "mine \<le> lim \<or> any \<le> lim" using assms by (simp add: min_le_iff_disj)
  ultimately show ?thesis
    unfolding kq_plan_def by (auto simp: min_le_iff_disj intro: order_trans sat_add_ge1)
qed

lemma keeper_inv:
  assumes "kq_keeper_step s s'" and inv: "kq_inv s"
  shows "kq_inv s'"
proof -
  note started = kq_invD(5) [OF inv] and plan = kq_invD(4) [OF inv] and kok = kq_invD(3) [OF inv]
  from assms(1) show ?thesis
  proof cases
    case k_top
    show ?thesis by (rule keeper_stays [OF inv]) (use k_top in auto)
  next
    case k_lock
    show ?thesis by (rule keeper_stays [OF inv]) (use k_lock plan started in auto)
  next
    case k_clock
    show ?thesis by (rule keeper_stays [OF inv]) (use k_clock plan started in auto)
  next
    case (k_next i rest mine any now)
    show ?thesis by (rule keeper_stays [OF inv]) (use k_next plan started in auto)
  next
    case (k_due may_run i e rest mine any now)
    note v = kq_invD(1) [OF inv, of i]
    show ?thesis
      by (rule keeper_stays [OF inv])
        (use k_due plan started kok reads_access [OF v] sound_access [OF v] in auto)
  next
    case (k_decide may_run i v rest mine any now)
    show ?thesis
      by (rule keeper_stays [OF inv])
        (use k_decide plan started in \<open>auto simp: kq_decide_def min_le_iff_disj split: duty_place.splits if_splits\<close>)
  next
    case (k_run i p rest mine any now did q d)
    note a = run_step [OF k_run(3) kq_invD(1) [OF inv]]
    show ?thesis
      by (rule keeper_write [OF inv, where i = i and d = d and asked = "if p = Run_Clear then NEVER else kq_asked s i" and
            p = p and rest = rest and mine = mine and any = any and now = now])
        (use a k_run kok in \<open>auto split: option.splits if_splits\<close>)
  next
    case (k_asks i rest mine any now at)
    show ?thesis
      by (rule keeper_write [OF inv, where i = i and asked = "min (kq_asked s i) at" and
            p = Run_Poll and rest = rest and mine = mine and any = any and now = now and
            d = "kq_duty s i\<lparr>du_deadline := min (du_deadline (kq_duty s i)) at\<rparr>"])
        (use k_asks kok kq_invD(1) [OF inv, of i] in \<open>auto simp: values_ok_def le_max_iff_disj min.coboundedI1 intro: min.mono\<close>)
  next
    case (k_until mine any now)
    show ?thesis by (rule keeper_stays [OF inv]) (use k_until plan started in auto)
  next
    case (k_timed mine any until)
    show ?thesis by (rule keeper_stays [OF inv]) (use k_timed plan started in auto)
  next
    case (k_plan mine any until timed)
    show ?thesis by (rule keeper_stays [OF inv]) (use k_plan plan started plan_le in auto)
  next
    case (k_store nxt)
    show ?thesis by (rule keeper_stays [OF inv]) (use k_store started in auto)
  next
    case (k_unlock nxt)
    show ?thesis by (rule keeper_stays [OF inv]) (use k_unlock plan started in auto)
  next
    case (k_park nxt)
    show ?thesis by (rule keeper_stays [OF inv]) (use k_park plan started in \<open>auto split: if_splits\<close>)
  next
    case (k_unparked nxt)
    show ?thesis by (rule keeper_stays [OF inv]) (use k_unparked in auto)
  next
    case (k_returns nxt)
    show ?thesis by (rule keeper_stays [OF inv]) (use k_returns in auto)
  qed
qed

lemma kq_reachable_inv: "kq_reachable s \<Longrightarrow> kq_inv s"
proof (induction rule: kq_reachable.induct)
  case kq_init
  show ?case by (simp add: kq_inv_def kq_start_def values_ok_def new_duty_def)
next
  case (kq_next s s')
  from kq_next(2) show ?case
  proof cases
    case (ticks now)
    show ?thesis by (rule thread_stays [OF kq_next.IH, where t = 0 and pc' = "kq_pc s 0"])
      (use ticks kq_invD(2) [OF kq_next.IH, of 0] in \<open>auto intro: thread_ok_grows simp: grows_def\<close>)
  qed (use kq_next.IH keeper_inv thread_inv in blast)+
qed

text \<open>
  C34: In every interleaving of the single accesses to the duties' fields (touches, changes of periods and deadlines, waiters,
  sleepers, runs by workers and by the keeper, registrations), while the keeper is parked without an unpark
  pending and no thread is about to tell it of a registered duty, its plan is the time it parks until: at most
  the timed slack of 1 ms after the duty's last run or touch plus the largest maximum period it was ever given, after the
  deadline announced for it, and, while it has waiters, after that last time plus the wait period.
\<close>

theorem keeper_never_oversleeps:
  assumes "kq_reachable s" and "kq_keeper s = Kp_Parked nxt" and "\<not> kq_token s" and "i \<in> set (kq_reg s)"
    and "\<And>t e. kq_pc s t \<notin> {Th_Start i, Th_Unpark i, Th_Due i e}"
  shows "kq_planned s = nxt \<and> unat nxt \<le> unat (kq_latest s i) + unat (kq_cap s i) + 1000000 \<and>
    unat nxt \<le> unat (kq_asked s i) + 1000000 \<and>
    (du_waiters (kq_duty s i) \<noteq> 0 \<longrightarrow> unat nxt \<le> unat (kq_latest s i) + unat (du_wait_period (kq_duty s i)) + 1000000)"
proof -
  note inv = kq_reachable_inv [OF assms(1)]
  have quiet: "\<not> will_tell x lim i (kq_pc s t)" for x lim t
    using assms(5) [of t] by (cases "kq_pc s t") auto
  have see: "nxt \<le> sat_add (kq_limit x s i) TIMED_SLACK" for x
    using kq_invD(7) [OF inv assms(4), of x] quiet assms(2,3) by (simp add: kept_in_view_def)
  have "unat nxt \<le> unat (kq_limit x s i) + 1000000" for x
    using see [of x] by (simp add: word_le_nat_alt unat_sat_add TIMED_SLACK_def)
  note bound = this [of Obliged] this [of Asked] this [of Waited]
  show ?thesis
    using bound kq_invD(4) [OF inv] assms(2) by (auto simp: unat_sat_add)
qed

section \<open>A run\<close>

text \<open>Thread 0 registers a duty of 1 ms to 8 ms; the keeper looks at it and parks.\<close>

definition kq_example :: "keeper_pc \<Rightarrow> u64 \<Rightarrow> bool \<Rightarrow> duty_pc \<Rightarrow> keeper_sys" where
  "kq_example kp planned locked pc =
     kq_start\<lparr>kq_duty := (kq_duty kq_start)(0 := duty_every 0 1000000 8000000 Anywhere), kq_cap := (\<lambda>_. 0)(0 := 8000000),
       kq_made := {0}, kq_reg := [0], kq_locked := locked, kq_planned := planned, kq_started := True, kq_keeper := kp,
       kq_pc := (\<lambda>_. Th_Out)(0 := pc)\<rparr>"

lemma kq_example_fields [simp]:
  "kq_duty (kq_example kp planned locked pc) 0 = duty_every 0 1000000 8000000 Anywhere"
  "kq_latest (kq_example kp planned locked pc) = (\<lambda>_. 0)" "kq_cap (kq_example kp planned locked pc) 0 = 8000000"
  "kq_asked (kq_example kp planned locked pc) = (\<lambda>_. NEVER)" "kq_reg (kq_example kp planned locked pc) = [0]"
  "kq_locked (kq_example kp planned locked pc) = locked" "kq_planned (kq_example kp planned locked pc) = planned"
  "kq_started (kq_example kp planned locked pc)" "\<not> kq_token (kq_example kp planned locked pc)"
  "kq_keeper (kq_example kp planned locked pc) = kp" "kq_pc (kq_example kp planned locked pc) = (\<lambda>_. Th_Out)(0 := pc)"
  "kq_now (kq_example kp planned locked pc) = 0"
  by (simp_all add: kq_example_def kq_start_def)

lemma kq_example_upd [simp]:
  "(kq_example kp planned locked pc)\<lparr>kq_keeper := kp'\<rparr> = kq_example kp' planned locked pc"
  "(kq_example kp planned locked pc)\<lparr>kq_planned := planned', kq_keeper := kp'\<rparr> = kq_example kp' planned' locked pc"
  "(kq_example kp planned locked pc)\<lparr>kq_locked := locked', kq_keeper := kp'\<rparr> = kq_example kp' planned locked' pc"
  "kq_goto 0 pc' (kq_example kp planned locked pc) = kq_example kp planned locked pc'"
  by (simp_all add: kq_example_def kq_goto_def)

lemma keeper_steps: "kq_reachable s \<Longrightarrow> kq_keeper_step s s' \<Longrightarrow> kq_reachable s'"
  by (blast intro: kq_reachable.intros kq_step.intros)

lemma thread_steps: "kq_reachable s \<Longrightarrow> kq_thread_step t s s' \<Longrightarrow> kq_reachable s'"
  by (blast intro: kq_reachable.intros kq_step.intros)

lemma example_reads: "((\<lambda>e. due_access e (duty_every 0 1000000 8000000 Anywhere)) ^^ 5) Due_Last = Due_Is 1000000"
  by (subst due_alone) (simp add: due_def effective_period_def duty_every_example sat_add_def min_absorb1)

lemma due_access_done: "(\<exists>v. e = Due_Is v) \<Longrightarrow> due_access e d = e"
  by auto

lemma example_keeper_reads:
  assumes "kq_reachable (kq_example (Kp_Due b 0 e rest mine any now) planned locked pc)"
  shows "kq_reachable (kq_example (Kp_Due b 0 (((\<lambda>e. due_access e (duty_every 0 1000000 8000000 Anywhere)) ^^ n) e) rest mine any now) planned locked pc)"
proof (induction n)
  case (Suc n)
  then show ?case
    using keeper_steps [OF Suc k_due] due_access_done by (cases "\<exists>v. ((\<lambda>e. due_access e (duty_every 0 1000000 8000000 Anywhere)) ^^ n) e = Due_Is v") auto
qed (use assms in simp)

lemma example_thread_reads:
  assumes "kq_reachable (kq_example kp planned locked (Th_Due 0 e))"
  shows "kq_reachable (kq_example kp planned locked (Th_Due 0 (((\<lambda>e. due_access e (duty_every 0 1000000 8000000 Anywhere)) ^^ n) e)))"
proof (induction n)
  case (Suc n)
  then show ?case
    using thread_steps [OF Suc replans [where t = 0 and i = 0]] due_access_done by (cases "\<exists>v. ((\<lambda>e. due_access e (duty_every 0 1000000 8000000 Anywhere)) ^^ n) e = Due_Is v") auto
qed (use assms in simp)

lemma example_registered: "kq_reachable (kq_example Kp_Top NEVER False (Th_Due 0 Due_Last))"
proof -
  let ?d = "duty_every 0 1000000 8000000 Anywhere"
  have 1: "kq_reachable (kq_make 0 0 ?d kq_start)"
    by (rule thread_steps [OF kq_init makes [where d = ?d]]) (auto simp: kq_start_def)
  have 2: "kq_reachable (kq_push 0 0 (kq_make 0 0 ?d kq_start))"
    by (rule thread_steps [OF 1 pushes]) (simp_all add: kq_make_def, simp add: kq_goto_def kq_ask_def kq_write_def kq_start_def)
  have 3: "kq_reachable (kq_start_keeper 0 0 (kq_push 0 0 (kq_make 0 0 ?d kq_start)))"
    by (rule thread_steps [OF 2 starts]) (simp add: kq_push_def)
  have "kq_start_keeper 0 0 (kq_push 0 0 (kq_make 0 0 ?d kq_start)) = kq_example Kp_Top NEVER False (Th_Due 0 Due_Last)"
    by (simp add: kq_start_keeper_def kq_push_def kq_make_def kq_goto_def kq_ask_def kq_write_def kq_example_def kq_start_def
        duty_every_example fun_eq_iff max_def)
  with 3 show ?thesis by simp
qed

lemma example_parked: "kq_reachable (kq_example (Kp_Parked 1000000) 1000000 False Th_Out)"
proof -
  have "kq_reachable (kq_example Kp_Lock NEVER False (Th_Due 0 Due_Last))"
    using keeper_steps [OF example_registered k_top] by simp
  then have "kq_reachable (kq_example Kp_Clock NEVER True (Th_Due 0 Due_Last))"
    using keeper_steps [OF _ k_lock] by fastforce
  then have "kq_reachable (kq_example (Kp_Next [0] NEVER NEVER 0) NEVER True (Th_Due 0 Due_Last))"
    using keeper_steps [OF _ k_clock] by fastforce
  then have "kq_reachable (kq_example (Kp_Due True 0 Due_Last [] NEVER NEVER 0) NEVER True (Th_Due 0 Due_Last))"
    using keeper_steps [OF _ k_next] by fastforce
  from example_keeper_reads [OF this, of 5]
  have r: "kq_reachable (kq_example (Kp_Due True 0 (Due_Is 1000000) [] NEVER NEVER 0) NEVER True (Th_Due 0 Due_Last))"
    by (simp only: example_reads)
  have "kq_reachable (kq_decide True 0 1000000 [] NEVER NEVER 0
      (kq_example (Kp_Due True 0 (Due_Is 1000000) [] NEVER NEVER 0) NEVER True (Th_Due 0 Due_Last)))"
    by (rule keeper_steps [OF r k_decide]) simp
  then have "kq_reachable (kq_example (Kp_Next [] NEVER 1000000 0) NEVER True (Th_Due 0 Due_Last))"
    by (simp add: kq_decide_def duty_every_example min_absorb2)
  then have "kq_reachable (kq_example (Kp_Until NEVER 1000000) NEVER True (Th_Due 0 Due_Last))"
    using keeper_steps [OF _ k_until] by fastforce
  then have "kq_reachable (kq_example (Kp_Timed NEVER 1000000 NEVER) NEVER True (Th_Due 0 Due_Last))"
    using keeper_steps [OF _ k_timed [where until = NEVER]] by fastforce
  then have "kq_reachable (kq_example (Kp_Plan (kq_plan NEVER 1000000 NEVER False)) NEVER True (Th_Due 0 Due_Last))"
    using keeper_steps [OF _ k_plan [where timed = False]] by fastforce
  then have "kq_reachable (kq_example (Kp_Plan 1000000) NEVER True (Th_Due 0 Due_Last))"
    by (simp add: kq_plan_def min_absorb2)
  then have "kq_reachable (kq_example (Kp_Unlock 1000000) 1000000 True (Th_Due 0 Due_Last))"
    using keeper_steps [OF _ k_store] by fastforce
  then have "kq_reachable (kq_example (Kp_Sleep 1000000) 1000000 False (Th_Due 0 Due_Last))"
    using keeper_steps [OF _ k_unlock] by fastforce
  then have s: "kq_reachable (kq_example (Kp_Parked 1000000) 1000000 False (Th_Due 0 Due_Last))"
    using keeper_steps [OF _ k_park] by fastforce
  from example_thread_reads [OF this, of 5]
  have t: "kq_reachable (kq_example (Kp_Parked 1000000) 1000000 False (Th_Due 0 (Due_Is 1000000)))"
    by (simp only: example_reads)
  have "kq_reachable (kq_test 0 0 1000000 (kq_example (Kp_Parked 1000000) 1000000 False (Th_Due 0 (Due_Is 1000000))))"
    by (rule thread_steps [OF t tests]) simp
  then show ?thesis by (simp add: kq_test_def)
qed

text \<open>The theorem at this state: the keeper, parked until 1 ms, is not late for the first run, due by 9 ms.\<close>

theorem keeper_never_oversleeps_witness:
  "unat (1000000::u64) \<le> unat (kq_latest (kq_example (Kp_Parked 1000000) 1000000 False Th_Out) 0) +
     unat (kq_cap (kq_example (Kp_Parked 1000000) 1000000 False Th_Out) 0) + 1000000"
  using keeper_never_oversleeps [OF example_parked, of 1000000 0] by simp

section \<open>A touch against a change of the period\<close>

text \<open>
  \<open>touch\<close> stores a minimum that it has loaded before, without a lock.  A \<open>set_period\<close> between the two is
  undone for the period alone, which stays above the new maximum until the duty runs: here a duty of 5 ms is given 1 ms, and
  its period is 5 ms again.  This is why the theorem above has the largest maximum the duty was ever given.
\<close>

definition touch_race :: "duty_pc \<Rightarrow> duty_pc \<Rightarrow> duty \<Rightarrow> keeper_sys" where
  "touch_race toucher setter d =
     kq_start\<lparr>kq_duty := (kq_duty kq_start)(0 := d), kq_latest := (\<lambda>_. 0)(0 := du_last d), kq_cap := (\<lambda>_. 0)(0 := 5000000),
       kq_made := {0}, kq_now := 2000000, kq_pc := (\<lambda>_. Th_Out)(0 := Th_Push 0, 1 := toucher, 2 := setter)\<rparr>"

lemma touch_race_fields [simp]:
  "kq_pc (touch_race a b d) 1 = a" "kq_pc (touch_race a b d) (Suc 0) = a" "kq_pc (touch_race a b d) 2 = b"
  "kq_duty (touch_race a b d) 0 = d" "kq_made (touch_race a b d) = {0}" "kq_now (touch_race a b d) = 2000000"
  by (simp_all add: touch_race_def)

lemma race_touches:
  assumes "kq_reachable (touch_race (Th_Touch 0 p) b d)" and "touch_access 2000000 p d = (Some p', d')"
    and "du_last d \<le> du_last d'" and "du_min d' \<le> 5000000" and "du_max d' \<le> 5000000"
  shows "kq_reachable (touch_race (Th_Touch 0 p') b d')"
proof -
  have "kq_reachable (kq_goto 1 (Th_Touch 0 p') (kq_write 0 d' (touch_race (Th_Touch 0 p) b d)))"
    using thread_steps [OF assms(1) touch_goes [where t = 1 and i = 0]] assms(2) by fastforce
  also have "kq_goto 1 (Th_Touch 0 p') (kq_write 0 d' (touch_race (Th_Touch 0 p) b d)) = touch_race (Th_Touch 0 p') b d'"
    using assms(3-5) by (simp add: touch_race_def kq_goto_def kq_write_def fun_eq_iff max_def)
  finally show ?thesis .
qed

lemma race_sets:
  assumes "kq_reachable (touch_race a (Th_Set 0 p) d)" and "set_access p d = (Some p', d')"
    and "du_last d' = du_last d" and "du_min d' \<le> 5000000" and "du_max d' \<le> 5000000"
  shows "kq_reachable (touch_race a (Th_Set 0 p') d')"
proof -
  have "kq_reachable (kq_goto 2 (Th_Set 0 p') (kq_write 0 d' (touch_race a (Th_Set 0 p) d)))"
    using thread_steps [OF assms(1) set_goes [where t = 2 and i = 0]] assms(2) by fastforce
  also have "kq_goto 2 (Th_Set 0 p') (kq_write 0 d' (touch_race a (Th_Set 0 p) d)) = touch_race a (Th_Set 0 p') d'"
    using assms(3-5) by (simp add: touch_race_def kq_goto_def kq_write_def fun_eq_iff max_def)
  finally show ?thesis .
qed

lemma race_start: "kq_reachable (touch_race (Th_Touch 0 Touch_Clock) (Th_Set 0 (Set_Min 1000000 1000000)) (duty_every 0 5000000 5000000 Anywhere))"
proof -
  let ?d = "duty_every 0 5000000 5000000 Anywhere"
  have 1: "kq_reachable (kq_make 0 0 ?d kq_start)"
    by (rule thread_steps [OF kq_init makes [where d = ?d]]) (auto simp: kq_start_def)
  have "kq_reachable ((kq_make 0 0 ?d kq_start)\<lparr>kq_now := 2000000\<rparr>)"
    using kq_next [OF 1 ticks [where now = 2000000]] by (simp add: kq_make_def kq_goto_def kq_ask_def kq_write_def kq_start_def)
  also have "(kq_make 0 0 ?d kq_start)\<lparr>kq_now := 2000000\<rparr> = touch_race Th_Out Th_Out ?d"
    by (simp add: touch_race_def kq_make_def kq_goto_def kq_ask_def kq_write_def kq_start_def fun_eq_iff max_def
        duty_every_def new_duty_def ns_def Let_def)
  finally have 2: "kq_reachable (touch_race Th_Out Th_Out ?d)" .
  have "kq_reachable (kq_goto 1 (Th_Touch 0 Touch_Clock) (touch_race Th_Out Th_Out ?d))"
    by (rule thread_steps [OF 2 touches]) simp_all
  also have "kq_goto 1 (Th_Touch 0 Touch_Clock) (touch_race Th_Out Th_Out ?d) = touch_race (Th_Touch 0 Touch_Clock) Th_Out ?d"
    by (simp add: touch_race_def kq_goto_def fun_eq_iff)
  finally have 3: "kq_reachable (touch_race (Th_Touch 0 Touch_Clock) Th_Out ?d)" .
  have "kq_reachable (kq_goto 2 (Th_Set 0 (Set_Min 1000000 1000000)) (touch_race (Th_Touch 0 Touch_Clock) Th_Out ?d))"
    by (rule thread_steps [OF 3 sets [where p = "Some (1000000, 1000000)"]]) (simp_all add: period_bounds_def ns_small Let_def max_def)
  also have "kq_goto 2 (Th_Set 0 (Set_Min 1000000 1000000)) (touch_race (Th_Touch 0 Touch_Clock) Th_Out ?d) =
      touch_race (Th_Touch 0 Touch_Clock) (Th_Set 0 (Set_Min 1000000 1000000)) ?d"
    by (simp add: touch_race_def kq_goto_def fun_eq_iff)
  finally show ?thesis .
qed

lemma late_reset_exceeds_max:
  "\<exists>s. kq_reachable s \<and> du_max (kq_duty s 0) = 1000000 \<and> du_period (kq_duty s 0) = 5000000 \<and>
     kq_pc s 1 = Th_Touch 0 Touch_Polls \<and> kq_pc s 2 = Th_Set 0 Set_Polls"
proof -
  let ?d = "duty_every 0 5000000 5000000 Anywhere"
  let ?s = "Th_Set 0 (Set_Min 1000000 1000000)"
  have d: "?d = \<lparr>du_place = Anywhere, du_last = 0, du_period = 5000000, du_min = 5000000, du_max = 5000000, du_wait_period = 5000000,
      du_waiters = 0, du_deadline = NEVER, du_idle_polls = 0, du_keeper_polls = 0, du_worker_polls = 0\<rparr>"
    by (simp add: duty_every_def new_duty_def ns_small Let_def max_def)
  have "kq_reachable (touch_race (Th_Touch 0 (Touch_Min 2000000)) ?s ?d)"
    by (rule race_touches [OF race_start]) (simp_all add: d)
  from race_touches [OF this] have "kq_reachable (touch_race (Th_Touch 0 (Touch_Wait 2000000 5000000)) ?s ?d)" by (simp add: d)
  from race_touches [OF this] have "kq_reachable (touch_race (Th_Touch 0 (Touch_Last 2000000 1250000)) ?s ?d)" by (simp add: d)
  from race_touches [OF this] have "kq_reachable (touch_race (Th_Touch 0 (Touch_Store 2000000)) ?s ?d)" by (simp add: d)
  from race_touches [OF this] have "kq_reachable (touch_race (Th_Touch 0 Touch_Reload) ?s (?d\<lparr>du_last := 2000000\<rparr>))" by (simp add: d)
  from race_touches [OF this] have "kq_reachable (touch_race (Th_Touch 0 (Touch_Period 5000000)) ?s (?d\<lparr>du_last := 2000000\<rparr>))"
    by (simp add: d)
  from race_sets [OF this] have "kq_reachable (touch_race (Th_Touch 0 (Touch_Period 5000000)) (Th_Set 0 (Set_Max 1000000 1000000))
      (?d\<lparr>du_last := 2000000, du_min := 1000000\<rparr>))" by (simp add: d)
  from race_sets [OF this] have "kq_reachable (touch_race (Th_Touch 0 (Touch_Period 5000000)) (Th_Set 0 (Set_Period 1000000))
      (?d\<lparr>du_last := 2000000, du_min := 1000000, du_max := 1000000\<rparr>))" by (simp add: d)
  from race_sets [OF this] have "kq_reachable (touch_race (Th_Touch 0 (Touch_Period 5000000)) (Th_Set 0 Set_Polls)
      (?d\<lparr>du_last := 2000000, du_period := 1000000, du_min := 1000000, du_max := 1000000\<rparr>))" by (simp add: d)
  from race_touches [OF this] have "kq_reachable (touch_race (Th_Touch 0 (Touch_Reset 5000000)) (Th_Set 0 Set_Polls)
      (?d\<lparr>du_last := 2000000, du_period := 1000000, du_min := 1000000, du_max := 1000000\<rparr>))" by (simp add: d)
  from race_touches [OF this] have "kq_reachable (touch_race (Th_Touch 0 Touch_Polls) (Th_Set 0 Set_Polls)
      (?d\<lparr>du_last := 2000000, du_period := 5000000, du_min := 1000000, du_max := 1000000\<rparr>))" by (simp add: d)
  then show ?thesis by (intro exI conjI, assumption) (simp_all add: d)
qed

end
