(* ===== verification/Timers.thy ===== *)
theory Timers
  imports Duty
begin

text \<open>
  The timers of \<open>duty.rs\<close>: a \<open>Sleep\<close> future registers an entry in the timer queue and lowers the deadline of
  the timer duty, whose poll \<open>fire_timers\<close> wakes the sleepers whose time has come.  The critical sections of
  the queue's lock are one step where they hold no other lock; in \<open>fire_timers\<close>, which keeps it for the whole
  loop, every access to a sleeper's slot is a step, as a sleeper looks at its slot without that lock.
\<close>

section \<open>The operations\<close>

text \<open>
  \<open>BinaryHeap<Reverse<(u64, u64)>>\<close>, the heap of times and numbers, as the list in the order in which it
  is popped.
\<close>

fun heap_push :: "u64 \<times> nat \<Rightarrow> (u64 \<times> nat) list \<Rightarrow> (u64 \<times> nat) list" where
  "heap_push x [] = [x]"
| "heap_push x (y # ys) = (if fst x < fst y \<or> fst x = fst y \<and> snd x \<le> snd y then x # y # ys else y # heap_push x ys)"

text \<open>
  A sleeper is named by its number, which it takes at its first pending poll; before that nothing of it is
  shared.  Its task passes a new waker at each poll; a waker is named by the sleeper and a count.
\<close>

datatype sleep_pc =
    Z_None
  | Z_Insert            \<comment> \<open>has a number and a slot\<close>
  | Z_Replan            \<comment> \<open>about to replan the duty, as its time is the earliest\<close>
  | Z_Pending           \<comment> \<open>not polled; its task waits for the waker of the last poll\<close>
  | Z_Check             \<comment> \<open>polled again, about to look whether it has fired\<close>
  | Z_Store
  | Z_Recheck
  | Z_Ready
  | Z_Drop              \<comment> \<open>dropped, about to take the waker out of its slot\<close>
  | Z_Remove
  | Z_Gone

datatype fire_pc =
    F_Idle
  | F_Poll                                \<comment> \<open>\<open>run\<close> has cleared the deadline\<close>
  | F_Lock u64                            \<comment> \<open>with the time it read\<close>
  | F_Loop u64 "(nat \<times> nat) list"         \<comment> \<open>with the wakers taken so far\<close>
  | F_Store nat u64 "(nat \<times> nat) list"
  | F_Take nat u64 "(nat \<times> nat) list"
  | F_Wake "(nat \<times> nat) list"

record timers =
  tm_now :: u64
  tm_seq :: nat
  tm_heap :: "(u64 \<times> nat) list"
  tm_slots :: "nat set"                   \<comment> \<open>the numbers in the map\<close>
  tm_deadline :: u64                      \<comment> \<open>of the timer duty\<close>
  tm_at :: "nat \<Rightarrow> u64"
  tm_fired :: "nat \<Rightarrow> bool"
  tm_waker :: "nat \<Rightarrow> nat option"
  tm_pc :: "nat \<Rightarrow> sleep_pc"
  tm_gen :: "nat \<Rightarrow> nat"                  \<comment> \<open>the waker of the last poll\<close>
  tm_fire :: fire_pc
  tm_woken :: "(nat \<times> nat) set"           \<comment> \<open>the wakers woken\<close>
  tm_at_once :: "(u64 \<times> u64) set"         \<comment> \<open>the sleeps that were done at their first poll: their time, and that of the poll\<close>

definition timers_start :: timers where
  "timers_start = \<lparr>tm_now = 0, tm_seq = 0, tm_heap = [], tm_slots = {}, tm_deadline = NEVER, tm_at = (\<lambda>_. 0),
     tm_fired = (\<lambda>_. False), tm_waker = (\<lambda>_. None), tm_pc = (\<lambda>_. Z_None), tm_gen = (\<lambda>_. 0), tm_fire = F_Idle,
     tm_woken = {}, tm_at_once = {}\<rparr>"

abbreviation zgoto :: "nat \<Rightarrow> sleep_pc \<Rightarrow> timers \<Rightarrow> timers" where
  "zgoto i pc s \<equiv> s\<lparr>tm_pc := (tm_pc s)(i := pc)\<rparr>"

definition queue_free :: "timers \<Rightarrow> bool" where
  "queue_free s \<longleftrightarrow> (case tm_fire s of F_Loop _ _ \<Rightarrow> False | F_Store _ _ _ \<Rightarrow> False | F_Take _ _ _ \<Rightarrow> False | _ \<Rightarrow> True)"

text \<open>\<open>sleep\<close>, and the first poll: it is done if its time has come, or takes a number and a slot.\<close>

definition sleep_until :: "u64 \<Rightarrow> nat \<Rightarrow> u64" where
  "sleep_until now d = sat_add now (ns d)"

definition sleep_first_poll :: "u64 \<Rightarrow> timers \<Rightarrow> timers" where
  "sleep_first_poll at s =
     (if at \<le> tm_now s then s\<lparr>tm_at_once := insert (at, tm_now s) (tm_at_once s)\<rparr>
      else (let k = tm_seq s
            in zgoto k Z_Insert (s\<lparr>tm_seq := k + 1, tm_at := (tm_at s)(k := at), tm_fired := (tm_fired s)(k := False),
                 tm_waker := (tm_waker s)(k := Some (tm_gen s k))\<rparr>)))"

definition sleep_insert :: "nat \<Rightarrow> timers \<Rightarrow> timers" where
  "sleep_insert i s =
     (let earlier = (tm_at s i < tm_deadline s)
      in zgoto i (if earlier then Z_Replan else Z_Pending)
           (s\<lparr>tm_slots := insert i (tm_slots s), tm_heap := heap_push (tm_at s i, i) (tm_heap s),
              tm_deadline := min (tm_deadline s) (tm_at s i)\<rparr>))"

text \<open>A later poll.\<close>

definition sleep_poll :: "nat \<Rightarrow> timers \<Rightarrow> timers" where
  "sleep_poll i s = zgoto i Z_Check (s\<lparr>tm_gen := (tm_gen s)(i := tm_gen s i + 1)\<rparr>)"

definition sleep_check :: "nat \<Rightarrow> timers \<Rightarrow> timers" where
  "sleep_check i s = zgoto i (if tm_fired s i then Z_Ready else Z_Store) s"

definition sleep_store :: "nat \<Rightarrow> timers \<Rightarrow> timers" where
  "sleep_store i s = zgoto i Z_Recheck (s\<lparr>tm_waker := (tm_waker s)(i := Some (tm_gen s i))\<rparr>)"

definition sleep_recheck :: "nat \<Rightarrow> timers \<Rightarrow> timers" where
  "sleep_recheck i s = zgoto i (if tm_fired s i then Z_Ready else Z_Pending) s"

definition sleep_drop :: "nat \<Rightarrow> timers \<Rightarrow> timers" where
  "sleep_drop i s = zgoto i Z_Remove (s\<lparr>tm_waker := (tm_waker s)(i := None)\<rparr>)"

definition sleep_remove :: "nat \<Rightarrow> timers \<Rightarrow> timers" where
  "sleep_remove i s = zgoto i Z_Gone (s\<lparr>tm_slots := tm_slots s - {i}\<rparr>)"

text \<open>\<open>fire_timers\<close>: a round of its loop, a slot fired, the waker taken, and a waker woken.\<close>

definition fire_round :: "u64 \<Rightarrow> (nat \<times> nat) list \<Rightarrow> timers \<Rightarrow> timers" where
  "fire_round now woken s =
     (case tm_heap s of
        [] \<Rightarrow> s\<lparr>tm_fire := F_Wake woken\<rparr>
      | (at, k) # rest \<Rightarrow>
          (if now < at then s\<lparr>tm_deadline := min (tm_deadline s) at, tm_fire := F_Wake woken\<rparr>
           else if k \<in> tm_slots s
             then s\<lparr>tm_heap := rest, tm_slots := tm_slots s - {k}, tm_fire := F_Store k now woken\<rparr>
             else s\<lparr>tm_heap := rest\<rparr>))"

definition fire_store :: "nat \<Rightarrow> u64 \<Rightarrow> (nat \<times> nat) list \<Rightarrow> timers \<Rightarrow> timers" where
  "fire_store k now woken s = s\<lparr>tm_fired := (tm_fired s)(k := True), tm_fire := F_Take k now woken\<rparr>"

definition fire_take :: "nat \<Rightarrow> u64 \<Rightarrow> (nat \<times> nat) list \<Rightarrow> timers \<Rightarrow> timers" where
  "fire_take k now woken s =
     s\<lparr>tm_waker := (tm_waker s)(k := None),
       tm_fire := F_Loop now (case tm_waker s k of None \<Rightarrow> woken | Some w \<Rightarrow> woken @ [(k, w)])\<rparr>"

definition fire_wake :: "(nat \<times> nat) list \<Rightarrow> timers \<Rightarrow> timers" where
  "fire_wake woken s =
     (case woken of [] \<Rightarrow> s\<lparr>tm_fire := F_Idle\<rparr> | w # ws \<Rightarrow> s\<lparr>tm_woken := insert w (tm_woken s), tm_fire := F_Wake ws\<rparr>)"

inductive timer_step :: "timers \<Rightarrow> timers \<Rightarrow> bool" where
  tick: "tm_now s \<le> now \<Longrightarrow> timer_step s (s\<lparr>tm_now := now\<rparr>)"
| first_poll: "timer_step s (sleep_first_poll (sleep_until t d) s)"
| insert_it: "tm_pc s i = Z_Insert \<Longrightarrow> queue_free s \<Longrightarrow> timer_step s (sleep_insert i s)"
| replan_it: "tm_pc s i = Z_Replan \<Longrightarrow> timer_step s (zgoto i Z_Pending s)"
| poll_it: "tm_pc s i = Z_Pending \<Longrightarrow> timer_step s (sleep_poll i s)"
| check: "tm_pc s i = Z_Check \<Longrightarrow> timer_step s (sleep_check i s)"
| store: "tm_pc s i = Z_Store \<Longrightarrow> timer_step s (sleep_store i s)"
| recheck: "tm_pc s i = Z_Recheck \<Longrightarrow> timer_step s (sleep_recheck i s)"
| drop_it: "tm_pc s i = Z_Pending \<or> tm_pc s i = Z_Ready \<Longrightarrow> timer_step s (zgoto i Z_Drop s)"
| drop_take: "tm_pc s i = Z_Drop \<Longrightarrow> timer_step s (sleep_drop i s)"
| drop_remove: "tm_pc s i = Z_Remove \<Longrightarrow> queue_free s \<Longrightarrow> timer_step s (sleep_remove i s)"
| run_it: "tm_fire s = F_Idle \<Longrightarrow> timer_step s (s\<lparr>tm_deadline := NEVER, tm_fire := F_Poll\<rparr>)"
| read_clock: "tm_fire s = F_Poll \<Longrightarrow> timer_step s (s\<lparr>tm_fire := F_Lock (tm_now s)\<rparr>)"
| lock_queue: "tm_fire s = F_Lock now \<Longrightarrow> timer_step s (s\<lparr>tm_fire := F_Loop now []\<rparr>)"
| round: "tm_fire s = F_Loop now woken \<Longrightarrow> timer_step s (fire_round now woken s)"
| fire: "tm_fire s = F_Store i now woken \<Longrightarrow> timer_step s (fire_store i now woken s)"
| take: "tm_fire s = F_Take i now woken \<Longrightarrow> timer_step s (fire_take i now woken s)"
| wake: "tm_fire s = F_Wake woken \<Longrightarrow> timer_step s (fire_wake woken s)"

inductive timer_reachable :: "timers \<Rightarrow> bool" where
  timer_init: "timer_reachable timers_start"
| timer_next: "timer_reachable s \<Longrightarrow> timer_step s s' \<Longrightarrow> timer_reachable s'"

section \<open>What holds in every reachable state\<close>

text \<open>
  What the sleeper's place, its slot and its entry have to do with each other: \<open>lst\<close>, it has an entry and is in the map;
  \<open>dl\<close>, it is being fired; \<open>tk\<close>, its slot has fired and its waker is being taken; \<open>cur\<close>, the waker in its slot is
  that of its last poll; \<open>sent\<close>, that waker is woken or about to be; \<open>free\<close>, its number is not taken yet.
\<close>

fun sleeper_fine :: "sleep_pc \<Rightarrow> bool \<Rightarrow> bool \<Rightarrow> bool \<Rightarrow> bool \<Rightarrow> bool \<Rightarrow> bool \<Rightarrow> bool \<Rightarrow> bool" where
  "sleeper_fine Z_None fired lst dl tk cur sent free \<longleftrightarrow> \<not> dl \<and> \<not> tk \<and> \<not> lst"
| "sleeper_fine Z_Insert fired lst dl tk cur sent free \<longleftrightarrow> \<not> free \<and> \<not> fired \<and> cur \<and> \<not> dl \<and> \<not> tk \<and> \<not> lst"
| "sleeper_fine Z_Replan fired lst dl tk cur sent free \<longleftrightarrow> \<not> free \<and> (if fired then tk \<and> cur \<or> sent else cur \<and> (lst \<or> dl))"
| "sleeper_fine Z_Pending fired lst dl tk cur sent free \<longleftrightarrow> \<not> free \<and> (if fired then tk \<and> cur \<or> sent else cur \<and> (lst \<or> dl))"
| "sleeper_fine Z_Recheck fired lst dl tk cur sent free \<longleftrightarrow> \<not> free \<and> (fired \<or> cur \<and> (lst \<or> dl))"
| "sleeper_fine Z_Check fired lst dl tk cur sent free \<longleftrightarrow> \<not> free \<and> (fired \<or> lst \<or> dl)"
| "sleeper_fine Z_Store fired lst dl tk cur sent free \<longleftrightarrow> \<not> free \<and> (fired \<or> lst \<or> dl)"
| "sleeper_fine Z_Ready fired lst dl tk cur sent free \<longleftrightarrow> \<not> free \<and> fired"
| "sleeper_fine _ fired lst dl tk cur sent free \<longleftrightarrow> \<not> free"

fun firing :: "fire_pc \<Rightarrow> nat option" where
  "firing (F_Store i _ _) = Some i" | "firing _ = None"

fun taking :: "fire_pc \<Rightarrow> nat option" where
  "taking (F_Take i _ _) = Some i" | "taking _ = None"

fun to_send :: "fire_pc \<Rightarrow> (nat \<times> nat) list" where
  "to_send (F_Loop _ ws) = ws" | "to_send (F_Store _ _ ws) = ws" | "to_send (F_Take _ _ ws) = ws"
| "to_send (F_Wake ws) = ws" | "to_send _ = []"

fun fire_time :: "fire_pc \<Rightarrow> u64 option" where
  "fire_time (F_Lock now) = Some now" | "fire_time (F_Loop now _) = Some now" | "fire_time (F_Store _ now _) = Some now"
| "fire_time (F_Take _ now _) = Some now" | "fire_time _ = None"

definition will_look :: "fire_pc \<Rightarrow> bool" where
  "will_look f \<longleftrightarrow> f = F_Poll \<or> fire_time f \<noteq> None"

definition sleeper_ok :: "timers \<Rightarrow> nat \<Rightarrow> bool" where
  "sleeper_ok s i \<longleftrightarrow>
     sleeper_fine (tm_pc s i) (tm_fired s i) ((tm_at s i, i) \<in> set (tm_heap s) \<and> i \<in> tm_slots s) (firing (tm_fire s) = Some i)
       (taking (tm_fire s) = Some i) (tm_waker s i = Some (tm_gen s i))
       ((i, tm_gen s i) \<in> set (to_send (tm_fire s)) \<union> tm_woken s) (tm_seq s \<le> i) \<and>
     (tm_seq s \<le> i \<longrightarrow> tm_pc s i = Z_None) \<and> (tm_fired s i \<longrightarrow> tm_at s i \<le> tm_now s) \<and>
     (firing (tm_fire s) = Some i \<longrightarrow> tm_at s i \<le> tm_now s) \<and> (taking (tm_fire s) = Some i \<longrightarrow> tm_fired s i) \<and>
     (\<forall>a. (a, i) \<in> set (tm_heap s) \<longrightarrow> a = tm_at s i \<and> i < tm_seq s)"

definition timers_inv :: "timers \<Rightarrow> bool" where
  "timers_inv s \<longleftrightarrow>
     (\<forall>i. sleeper_ok s i) \<and> sorted_wrt (\<lambda>x y. fst x \<le> fst y) (tm_heap s) \<and>
     (\<forall>now. fire_time (tm_fire s) = Some now \<longrightarrow> now \<le> tm_now s) \<and>
     (\<forall>x \<in> set (tm_heap s). tm_deadline s \<le> fst x \<or> will_look (tm_fire s)) \<and>
     (\<forall>x \<in> tm_at_once s. fst x \<le> snd x)"

section \<open>Every step keeps it\<close>

lemma heap_push_set [simp]: "set (heap_push x xs) = insert x (set xs)"
  by (induction xs) auto

lemma heap_push_sorted: "sorted_wrt (\<lambda>x y. fst x \<le> fst y) xs \<Longrightarrow> sorted_wrt (\<lambda>x y. fst x \<le> fst y) (heap_push x xs)"
proof (induction xs)
  case (Cons y ys)
  then show ?case by (auto intro: order_trans less_imp_le simp: not_less)
qed simp

lemma timers_invD:
  assumes "timers_inv s"
  shows "sleeper_ok s i" and "sorted_wrt (\<lambda>x y. fst x \<le> fst y) (tm_heap s)"
    and "fire_time (tm_fire s) = Some now \<Longrightarrow> now \<le> tm_now s"
    and "x \<in> set (tm_heap s) \<Longrightarrow> tm_deadline s \<le> fst x \<or> will_look (tm_fire s)"
    and "y \<in> tm_at_once s \<Longrightarrow> fst y \<le> snd y"
  using assms by (auto simp: timers_inv_def)

text \<open>A step of the sleeper \<open>i\<close> that leaves the queue alone.\<close>

lemma sleeper_moves:
  assumes I: "timers_inv s"
    and same: "tm_heap s' = tm_heap s" "tm_slots s' = tm_slots s" "tm_deadline s' = tm_deadline s" "tm_fire s' = tm_fire s"
      "tm_now s' = tm_now s" "tm_woken s' = tm_woken s" "tm_fired s' = tm_fired s" "tm_at s' = tm_at s" "tm_seq s' = tm_seq s"
      "tm_at_once s' = tm_at_once s"
    and others: "\<And>j. j \<noteq> i \<Longrightarrow> tm_pc s' j = tm_pc s j \<and> tm_waker s' j = tm_waker s j \<and> tm_gen s' j = tm_gen s j"
    and i: "sleeper_ok s i \<Longrightarrow> sleeper_ok s' i"
  shows "timers_inv s'"
proof -
  have "sleeper_ok s' j" for j
    using timers_invD(1) [OF I, of j] others [of j] i by (cases "j = i") (simp_all add: sleeper_ok_def same)
  then show ?thesis using I by (simp add: timers_inv_def same)
qed

lemma sleep_steps:
  assumes I: "timers_inv s"
  shows "tm_pc s i = Z_Replan \<Longrightarrow> timers_inv (zgoto i Z_Pending s)"
    and "tm_pc s i = Z_Pending \<Longrightarrow> timers_inv (sleep_poll i s)"
    and "tm_pc s i = Z_Check \<Longrightarrow> timers_inv (sleep_check i s)"
    and "tm_pc s i = Z_Store \<Longrightarrow> timers_inv (sleep_store i s)"
    and "tm_pc s i = Z_Recheck \<Longrightarrow> timers_inv (sleep_recheck i s)"
    and "tm_pc s i = Z_Pending \<or> tm_pc s i = Z_Ready \<Longrightarrow> timers_inv (zgoto i Z_Drop s)"
    and "tm_pc s i = Z_Drop \<Longrightarrow> timers_inv (sleep_drop i s)"
  by (rule sleeper_moves [OF I, where i = i];
      auto simp: sleeper_ok_def sleep_poll_def sleep_check_def sleep_store_def sleep_recheck_def sleep_drop_def split: if_splits)+

lemma sleep_remove_inv:
  assumes "timers_inv s" and "tm_pc s i = Z_Remove"
  shows "timers_inv (sleep_remove i s)"
proof -
  have "sleeper_ok (sleep_remove i s) j" for j
    using timers_invD(1) [OF assms(1), of j] assms(2) by (cases "j = i") (auto simp: sleeper_ok_def sleep_remove_def)
  then show ?thesis using assms(1) by (simp add: timers_inv_def sleep_remove_def)
qed

lemma first_poll_inv:
  assumes "timers_inv s"
  shows "timers_inv (sleep_first_poll at s)"
proof (cases "at \<le> tm_now s")
  case False
  have n: "tm_pc s (tm_seq s) = Z_None" using timers_invD(1) [OF assms, of "tm_seq s"] by (simp add: sleeper_ok_def)
  have e: "sleep_first_poll at s = zgoto (tm_seq s) Z_Insert (s\<lparr>tm_seq := tm_seq s + 1, tm_at := (tm_at s)(tm_seq s := at),
      tm_fired := (tm_fired s)(tm_seq s := False), tm_waker := (tm_waker s)(tm_seq s := Some (tm_gen s (tm_seq s)))\<rparr>)"
    using False by (simp add: sleep_first_poll_def Let_def)
  have "sleeper_ok (sleep_first_poll at s) (tm_seq s)"
    using timers_invD(1) [OF assms, of "tm_seq s"] n unfolding e sleeper_ok_def by auto
  moreover have "sleeper_ok (sleep_first_poll at s) j" if "j \<noteq> tm_seq s" for j
  proof -
    have "(tm_seq s + 1 \<le> j) = (tm_seq s \<le> j)" "(j < tm_seq s + 1) = (j < tm_seq s)" using that by auto
    with timers_invD(1) [OF assms, of j] that show ?thesis
      unfolding e sleeper_ok_def by (simp del: One_nat_def add_Suc_right)
  qed
  ultimately have "sleeper_ok (sleep_first_poll at s) j" for j by (cases "j = tm_seq s") simp_all
  then show ?thesis using assms False by (simp add: timers_inv_def sleep_first_poll_def Let_def)
qed (use assms in \<open>simp add: sleep_first_poll_def timers_inv_def sleeper_ok_def\<close>)

lemma insert_inv:
  assumes "timers_inv s" and "tm_pc s i = Z_Insert"
  shows "timers_inv (sleep_insert i s)"
proof -
  have "sleeper_ok (sleep_insert i s) i"
    using timers_invD(1) [OF assms(1), of i] assms(2) by (simp add: sleeper_ok_def sleep_insert_def Let_def)
  moreover have "sleeper_ok (sleep_insert i s) j" if "j \<noteq> i" for j
    using timers_invD(1) [OF assms(1), of j] that by (simp add: sleeper_ok_def sleep_insert_def Let_def)
  ultimately have "sleeper_ok (sleep_insert i s) j" for j by (cases "j = i") simp_all
  moreover have "tm_deadline (sleep_insert i s) \<le> fst x \<or> will_look (tm_fire s)" if "x \<in> set (tm_heap (sleep_insert i s))" for x
    using that timers_invD(4) [OF assms(1), of x] by (auto simp: sleep_insert_def Let_def min.coboundedI1)
  ultimately show ?thesis
    using assms(1) heap_push_sorted by (auto simp: timers_inv_def sleep_insert_def Let_def)
qed

lemma tick_inv: "timers_inv s \<Longrightarrow> tm_now s \<le> now \<Longrightarrow> timers_inv (s\<lparr>tm_now := now\<rparr>)"
  by (auto simp: timers_inv_def sleeper_ok_def intro: order_trans)

text \<open>A step of \<open>fire_timers\<close> that looks at no slot.\<close>

lemma fire_moves:
  assumes I: "timers_inv s" and "firing f = firing (tm_fire s)" "taking f = taking (tm_fire s)"
    and "set (to_send f) \<union> w = set (to_send (tm_fire s)) \<union> tm_woken s"
    and "\<And>now. fire_time f = Some now \<Longrightarrow> now \<le> tm_now s"
    and "\<And>x. x \<in> set (tm_heap s) \<Longrightarrow> d \<le> fst x \<or> will_look f"
  shows "timers_inv (s\<lparr>tm_deadline := d, tm_woken := w, tm_fire := f\<rparr>)"
proof -
  have "sleeper_ok (s\<lparr>tm_deadline := d, tm_woken := w, tm_fire := f\<rparr>) i" for i
    using timers_invD(1) [OF I, of i] by (simp add: sleeper_ok_def assms(2-4))
  then show ?thesis using I assms(5,6) by (simp add: timers_inv_def)
qed

lemma fire_round_inv:
  assumes I: "timers_inv s" and f: "tm_fire s = F_Loop now woken"
  shows "timers_inv (fire_round now woken s)"
proof (cases "tm_heap s")
  case Nil
  then show ?thesis
    using fire_moves [OF I, of "F_Wake woken" "tm_woken s" "tm_deadline s"] f by (simp add: fire_round_def)
next
  case (Cons x rest)
  obtain at i where x: "x = (at, i)" by (cases x)
  have all: "at \<le> fst y" if "y \<in> set (tm_heap s)" for y using timers_invD(2) [OF I] that Cons x by auto
  have now: "now \<le> tm_now s" using timers_invD(3) [OF I, of now] f by simp
  have a: "at = tm_at s i" using timers_invD(1) [OF I, of i] Cons x by (simp add: sleeper_ok_def)
  consider "now < at" | "\<not> now < at" "i \<in> tm_slots s" | "\<not> now < at" "i \<notin> tm_slots s" by blast
  then show ?thesis
  proof cases
    case 1
    then show ?thesis
      using fire_moves [OF I, of "F_Wake woken" "tm_woken s" "min (tm_deadline s) at"] all f x Cons
      by (simp add: fire_round_def min.coboundedI2)
  next
    case 2
    have "sleeper_ok (fire_round now woken s) i"
      using timers_invD(1) [OF I, of i] 2 now f x Cons unfolding a
      by (cases "tm_pc s i") (simp_all add: sleeper_ok_def fire_round_def split: if_splits)
    moreover have "sleeper_ok (fire_round now woken s) j" if "j \<noteq> i" for j
      using timers_invD(1) [OF I, of j] 2 f x Cons that by (simp add: sleeper_ok_def fire_round_def)
    ultimately have "sleeper_ok (fire_round now woken s) j" for j by (cases "j = i") simp_all
    then show ?thesis using I 2 f x Cons by (simp add: timers_inv_def fire_round_def will_look_def)
  next
    case 3
    have "sleeper_ok (fire_round now woken s) j" for j
      using timers_invD(1) [OF I, of j] 3 f x Cons unfolding a by (cases "j = i") (simp_all add: sleeper_ok_def fire_round_def)
    then show ?thesis using I 3 f x Cons by (simp add: timers_inv_def fire_round_def will_look_def)
  qed
qed

lemma fire_store_inv:
  assumes I: "timers_inv s" and f: "tm_fire s = F_Store i now woken"
  shows "timers_inv (fire_store i now woken s)"
proof -
  have "sleeper_ok (fire_store i now woken s) i"
    using timers_invD(1) [OF I, of i] f
    by (cases "tm_pc s i") (simp_all add: sleeper_ok_def fire_store_def split: if_splits)
  moreover have "sleeper_ok (fire_store i now woken s) j" if "j \<noteq> i" for j
    using timers_invD(1) [OF I, of j] f that by (simp add: sleeper_ok_def fire_store_def)
  ultimately have "sleeper_ok (fire_store i now woken s) j" for j by (cases "j = i") simp_all
  then show ?thesis using I f by (simp add: timers_inv_def fire_store_def will_look_def)
qed

lemma fire_take_inv:
  assumes I: "timers_inv s" and f: "tm_fire s = F_Take i now woken"
  shows "timers_inv (fire_take i now woken s)"
proof -
  have "sleeper_ok (fire_take i now woken s) i"
    using timers_invD(1) [OF I, of i] f
    by (cases "tm_pc s i"; cases "tm_waker s i") (auto simp: sleeper_ok_def fire_take_def split: if_splits)
  moreover have "sleeper_ok (fire_take i now woken s) j" if "j \<noteq> i" for j
    using timers_invD(1) [OF I, of j] f that by (cases "tm_waker s i") (simp_all add: sleeper_ok_def fire_take_def)
  ultimately have "sleeper_ok (fire_take i now woken s) j" for j by (cases "j = i") simp_all
  then show ?thesis using I f by (cases "tm_waker s i") (simp_all add: timers_inv_def fire_take_def will_look_def)
qed

lemma timer_step_inv: "timer_step s s' \<Longrightarrow> timers_inv s \<Longrightarrow> timers_inv s'"
proof (induction rule: timer_step.induct)
  case (run_it s)
  then show ?case using fire_moves [of s F_Poll "tm_woken s" NEVER] by (simp add: will_look_def)
next
  case (read_clock s)
  then show ?case using fire_moves [of s "F_Lock (tm_now s)" "tm_woken s" "tm_deadline s"] by (simp add: will_look_def)
next
  case (lock_queue s now)
  then show ?case
    using fire_moves [of s "F_Loop now []" "tm_woken s" "tm_deadline s"] timers_invD(3) [of s now] by (simp add: will_look_def)
next
  case (wake s woken)
  then show ?case
    using fire_moves [of s F_Idle "tm_woken s" "tm_deadline s"]
      fire_moves [of s "F_Wake (tl woken)" "insert (hd woken) (tm_woken s)" "tm_deadline s"] timers_invD(4) [of s]
    by (cases woken) (auto simp: fire_wake_def will_look_def)
next
  case (first_poll s t d)
  then show ?case by (rule first_poll_inv)
qed (simp_all add: tick_inv insert_inv sleep_steps sleep_remove_inv fire_round_inv fire_store_inv fire_take_inv)

lemma timers_start_inv: "timers_inv timers_start"
  by (simp add: timers_inv_def sleeper_ok_def timers_start_def)

lemma timer_reachable_inv: "timer_reachable s \<Longrightarrow> timers_inv s"
  by (induction rule: timer_reachable.induct) (simp_all add: timers_start_inv timer_step_inv)


section \<open>What the timers promise\<close>

text \<open>
  C35: no sleeper is lost, in every interleaving of sleepers, drops and the timer duty's poll.  The waker of a pending sleeper's last
  poll is woken, or about to be, or still in its slot with the sleeper's entry in the queue, which the
  duty's deadline does not pass unless the poll is yet to look at it.  No sleeper is ready before its time: a poll
  that is ready, the first one (which takes no number) or a later one, is not earlier than the time slept for.
\<close>

theorem sleepers_never_lost:
  assumes "timer_reachable s"
  shows "(\<forall>i. tm_pc s i = Z_Pending \<longrightarrow>
      (i, tm_gen s i) \<in> tm_woken s \<or> (i, tm_gen s i) \<in> set (to_send (tm_fire s)) \<or>
      tm_waker s i = Some (tm_gen s i) \<and>
        (firing (tm_fire s) = Some i \<or> taking (tm_fire s) = Some i \<or>
         (tm_at s i, i) \<in> set (tm_heap s) \<and> i \<in> tm_slots s \<and> (tm_deadline s \<le> tm_at s i \<or> will_look (tm_fire s)))) \<and>
    (\<forall>i. tm_pc s i = Z_Ready \<longrightarrow> tm_at s i \<le> tm_now s) \<and>
    (\<forall>at polled. (at, polled) \<in> tm_at_once s \<longrightarrow> at \<le> polled)"
proof -
  note I = timer_reachable_inv [OF assms]
  have p: "sleeper_fine (tm_pc s i) (tm_fired s i) ((tm_at s i, i) \<in> set (tm_heap s) \<and> i \<in> tm_slots s) (firing (tm_fire s) = Some i)
       (taking (tm_fire s) = Some i) (tm_waker s i = Some (tm_gen s i))
       ((i, tm_gen s i) \<in> set (to_send (tm_fire s)) \<union> tm_woken s) (tm_seq s \<le> i)"
    "tm_fired s i \<Longrightarrow> tm_at s i \<le> tm_now s" for i
    using timers_invD(1) [OF I, of i] by (simp_all add: sleeper_ok_def)
  have d: "tm_deadline s \<le> tm_at s i \<or> will_look (tm_fire s)" if "(tm_at s i, i) \<in> set (tm_heap s)" for i
    using timers_invD(4) [OF I that] by simp
  have "(i, tm_gen s i) \<in> tm_woken s \<or> (i, tm_gen s i) \<in> set (to_send (tm_fire s)) \<or>
      tm_waker s i = Some (tm_gen s i) \<and>
        (firing (tm_fire s) = Some i \<or> taking (tm_fire s) = Some i \<or>
         (tm_at s i, i) \<in> set (tm_heap s) \<and> i \<in> tm_slots s \<and> (tm_deadline s \<le> tm_at s i \<or> will_look (tm_fire s)))"
    if "tm_pc s i = Z_Pending" for i
    using p(1) [of i] d [of i] that by (auto split: if_splits)
  moreover have "tm_at s i \<le> tm_now s" if "tm_pc s i = Z_Ready" for i
    using p [of i] that by simp
  moreover have "at \<le> polled" if "(at, polled) \<in> tm_at_once s" for at polled
    using timers_invD(5) [OF I that] by simp
  ultimately show ?thesis by blast
qed

text \<open>The deadline \<open>fire_timers\<close> asks for is later than the time at which it ran.\<close>

lemma fire_asks_later:
  assumes "tm_deadline s = NEVER" and "tm_fire (fire_round now woken s) = F_Wake woken" and "now < NEVER"
  shows "now < tm_deadline (fire_round now woken s)"
  using assms by (auto simp: fire_round_def split: list.splits if_splits)

text \<open>
  A sleeper that fires at 1: registered, and the poll has taken its waker when the task drops it.
\<close>

definition timer_example_1 :: timers where
  "timer_example_1 = (zgoto 0 Z_Pending (sleep_insert 0 (sleep_first_poll (sleep_until 0 1) timers_start)))\<lparr>tm_now := 1\<rparr>"

definition timer_example_2 :: timers where
  "timer_example_2 =
     fire_round 1 [(0, 0)] (fire_take 0 1 [] (fire_store 0 1 [] (fire_round 1 []
       (timer_example_1\<lparr>tm_deadline := NEVER, tm_fire := F_Loop 1 []\<rparr>))))"

definition timer_example_3 :: timers where
  "timer_example_3 = sleep_remove 0 (sleep_drop 0 (zgoto 0 Z_Drop timer_example_2))"

lemma sleep_until_example: "sleep_until 0 (Suc 0) = 1"
  by (simp add: sleep_until_def sat_add_def ns_def)

lemma timer_example_1_eq:
  "timer_example_1 = \<lparr>tm_now = 1, tm_seq = 1, tm_heap = [(1, 0)], tm_slots = {0}, tm_deadline = 1, tm_at = (\<lambda>_. 0)(0 := 1),
     tm_fired = (\<lambda>_. False), tm_waker = (\<lambda>_. None)(0 := Some 0), tm_pc = (\<lambda>_. Z_None)(0 := Z_Pending), tm_gen = (\<lambda>_. 0), tm_fire = F_Idle,
     tm_woken = {}, tm_at_once = {}\<rparr>"
  by (simp add: timer_example_1_def sleep_insert_def sleep_first_poll_def timers_start_def Let_def sleep_until_example
      fun_eq_iff min_absorb2)

lemma timer_example_2_eq:
  "timer_example_2 = \<lparr>tm_now = 1, tm_seq = 1, tm_heap = [], tm_slots = {}, tm_deadline = NEVER, tm_at = (\<lambda>_. 0)(0 := 1),
     tm_fired = (\<lambda>_. False)(0 := True), tm_waker = (\<lambda>_. None), tm_pc = (\<lambda>_. Z_None)(0 := Z_Pending), tm_gen = (\<lambda>_. 0),
     tm_fire = F_Wake [(0, 0)], tm_woken = {}, tm_at_once = {}\<rparr>"
  by (simp add: timer_example_2_def timer_example_1_eq fire_round_def fire_store_def fire_take_def fun_eq_iff)

lemma timer_example_1_reachable: "timer_reachable timer_example_1"
proof -
  let ?s = "sleep_insert 0 (sleep_first_poll (sleep_until 0 1) timers_start)"
  have i: "tm_pc (sleep_first_poll (sleep_until 0 1) timers_start) 0 = Z_Insert" "tm_pc ?s 0 = Z_Replan"
    "queue_free (sleep_first_poll (sleep_until 0 1) timers_start)" "tm_now (zgoto 0 Z_Pending ?s) \<le> 1"
    by (simp_all add: sleep_first_poll_def sleep_insert_def timers_start_def Let_def sleep_until_example queue_free_def
        word_less_nat_alt)
  show ?thesis
    unfolding timer_example_1_def
    by (intro timer_next [OF _ tick] timer_next [OF _ replan_it] timer_next [OF _ insert_it] timer_next [OF _ first_poll]
        timer_init i)
qed

lemma timer_example_2_reachable: "timer_reachable timer_example_2"
proof -
  let ?s = "timer_example_1\<lparr>tm_deadline := NEVER, tm_fire := F_Loop 1 []\<rparr>"
  have "timer_reachable (timer_example_1\<lparr>tm_deadline := NEVER, tm_fire := F_Poll\<rparr>)"
    by (rule timer_next [OF timer_example_1_reachable run_it]) (simp add: timer_example_1_eq)
  from timer_next [OF timer_next [OF this read_clock] lock_queue] have "timer_reachable ?s"
    by (simp add: timer_example_1_eq)
  then show ?thesis
    unfolding timer_example_2_def
    by (intro timer_next [OF _ round] timer_next [OF _ take] timer_next [OF _ fire])
      (simp_all add: timer_example_1_eq fire_round_def fire_store_def fire_take_def)
qed

text \<open>
  A task whose \<open>Sleep\<close> has been dropped can still be woken by it: \<open>fire_timers\<close> takes the waker out of the slot
  under the locks but wakes it later without them, and the drop, which finds neither waker nor map entry,
  does not wait for that.
\<close>

lemma dropped_sleeper_woken:
  "\<exists>s i w. timer_reachable s \<and> tm_pc s i = Z_Gone \<and> (i, w) \<notin> tm_woken s \<and> timer_step s (fire_wake [(i, w)] s) \<and>
     (i, w) \<in> tm_woken (fire_wake [(i, w)] s)"
proof (intro exI conjI)
  show "timer_reachable timer_example_3"
    unfolding timer_example_3_def
    by (intro timer_next [OF _ drop_remove] timer_next [OF _ drop_take] timer_next [OF _ drop_it] timer_example_2_reachable)
      (simp_all add: timer_example_2_eq sleep_drop_def queue_free_def)
  show "tm_pc timer_example_3 0 = Z_Gone" "(0, 0) \<notin> tm_woken timer_example_3"
    by (simp_all add: timer_example_3_def sleep_remove_def sleep_drop_def timer_example_2_eq)
  show "timer_step timer_example_3 (fire_wake [(0, 0)] timer_example_3)"
    by (rule wake) (simp add: timer_example_3_def sleep_remove_def sleep_drop_def timer_example_2_eq)
  show "(0, 0) \<in> tm_woken (fire_wake [(0, 0)] timer_example_3)" by (simp add: fire_wake_def)
qed

text \<open>Another sleep for 1 is done at its first poll at the time 1.\<close>

lemma timer_example_at_once:
  "timer_reachable (sleep_first_poll (sleep_until 0 1) timer_example_1)"
  "(1, 1) \<in> tm_at_once (sleep_first_poll (sleep_until 0 1) timer_example_1)"
  using timer_next [OF timer_example_1_reachable first_poll, of 0 1]
  by (simp_all add: sleep_first_poll_def sleep_until_example timer_example_1_eq)

theorem sleepers_never_lost_witness:
  "tm_pc timer_example_1 0 = Z_Pending \<and> tm_deadline timer_example_1 \<le> tm_at timer_example_1 0 \<and>
   (1, 1) \<in> tm_at_once (sleep_first_poll (sleep_until 0 1) timer_example_1) \<and> (1 :: u64) \<le> 1"
proof -
  have "tm_pc timer_example_1 0 = Z_Pending" "(0, tm_gen timer_example_1 0) \<notin> tm_woken timer_example_1"
    "tm_fire timer_example_1 = F_Idle"
    by (simp_all add: timer_example_1_eq)
  then show ?thesis
    using sleepers_never_lost [OF timer_example_1_reachable] sleepers_never_lost [OF timer_example_at_once(1)] timer_example_at_once(2)
    by (auto simp: will_look_def)
qed


end
