(* ===== verification/Os_Wait.thy ===== *)
theory Os_Wait
  imports Cmpth_Prelude
begin

text \<open>
  \<open>OsSuspendedThread\<close> of \<open>os.rs\<close>: an OS thread parks on a parker, a flag \<open>ready\<close> under a mutex with a condition
  variable, which it has put into the slot \<open>inner\<close>, itself under a mutex; a notifier takes the parker out and signals it.
  The mutexes and the condition variable are those of the standard library: a mutex has one owner,
  a wait releases its mutex and sleeps in one step and may wake for no reason.  \<open>notify\<close> holds \<open>inner\<close> for all of
  its body, the other operations only for one access, so that these are one step each, taken while nobody holds it; what runs
  under \<open>ready\<close> is one step as well.
\<close>

section \<open>The operations\<close>

text \<open>
  The thread that waits, now and again, by \<open>wait_with\<close> or \<open>wait_with_cond\<close> (the flag): before
  it has put its parker into the slot, in the closure \<open>f\<close>, cancelling, about to look at \<open>ready\<close>, asleep,
  about to empty the slot.  It makes a new parker for each wait.
\<close>

datatype os_wait_pc = Ow_Out | Ow_Store bool | Ow_Body bool | Ow_Cancel | Ow_Check bool | Ow_Asleep bool | Ow_Clear

text \<open>A notifier that has found a parker: before it sets \<open>ready\<close>, before it signals, before it lets go of \<open>inner\<close>.\<close>

datatype os_notify_pc = On_Out | On_Ready nat | On_Signal nat | On_Unlock

record os_slot =
  ow_owner :: "nat option"
  ow_inner :: "nat option"
  ow_ready :: "nat set"
  ow_parker :: nat
  ow_wpc :: os_wait_pc
  ow_npc :: "nat \<Rightarrow> os_notify_pc"

definition os_wgoto :: "os_wait_pc \<Rightarrow> os_slot \<Rightarrow> os_slot" where
  "os_wgoto pc s = s\<lparr>ow_wpc := pc\<rparr>"

definition os_ngoto :: "nat \<Rightarrow> os_notify_pc \<Rightarrow> os_slot \<Rightarrow> os_slot" where
  "os_ngoto i pc s = s\<lparr>ow_npc := (ow_npc s)(i := pc)\<rparr>"

definition os_park_new :: "bool \<Rightarrow> os_slot \<Rightarrow> os_slot" where
  "os_park_new cond s = os_wgoto (Ow_Store cond) (s\<lparr>ow_parker := ow_parker s + 1\<rparr>)"

definition os_park_store :: "bool \<Rightarrow> os_slot \<Rightarrow> os_slot" where
  "os_park_store cond s = os_wgoto (Ow_Body cond) (s\<lparr>ow_inner := Some (ow_parker s)\<rparr>)"

text \<open>\<open>f\<close> returns; the value counts in \<open>wait_with_cond\<close> only.\<close>

definition os_body_end :: "bool \<Rightarrow> bool \<Rightarrow> os_slot \<Rightarrow> os_slot" where
  "os_body_end cond v s = os_wgoto (if cond \<and> \<not> v then Ow_Cancel else Ow_Check cond) s"

definition os_park_cancel :: "os_slot \<Rightarrow> os_slot" where
  "os_park_cancel s =
     (if ow_inner s = Some (ow_parker s) then os_wgoto Ow_Out (s\<lparr>ow_inner := None\<rparr>) else os_wgoto (Ow_Check True) s)"

definition os_park_check :: "bool \<Rightarrow> os_slot \<Rightarrow> os_slot" where
  "os_park_check cond s =
     os_wgoto (if ow_parker s \<in> ow_ready s then (if cond then Ow_Out else Ow_Clear) else Ow_Asleep cond) s"

definition os_park_clear :: "os_slot \<Rightarrow> os_slot" where
  "os_park_clear s = os_wgoto Ow_Out (s\<lparr>ow_inner := None\<rparr>)"

definition os_notify :: "nat \<Rightarrow> os_slot \<Rightarrow> os_slot" where
  "os_notify i s =
     (case ow_inner s of None \<Rightarrow> s
      | Some p \<Rightarrow> os_ngoto i (On_Ready p) (s\<lparr>ow_owner := Some i, ow_inner := None\<rparr>))"

definition os_set_ready :: "nat \<Rightarrow> nat \<Rightarrow> os_slot \<Rightarrow> os_slot" where
  "os_set_ready i p s = os_ngoto i (On_Signal p) (s\<lparr>ow_ready := insert p (ow_ready s)\<rparr>)"

definition os_signal :: "nat \<Rightarrow> nat \<Rightarrow> os_slot \<Rightarrow> os_slot" where
  "os_signal i p s =
     os_ngoto i On_Unlock
       (if ow_parker s = p then (case ow_wpc s of Ow_Asleep cond \<Rightarrow> os_wgoto (Ow_Check cond) s | _ \<Rightarrow> s) else s)"

definition os_unlock :: "nat \<Rightarrow> os_slot \<Rightarrow> os_slot" where
  "os_unlock i s = os_ngoto i On_Out (s\<lparr>ow_owner := None\<rparr>)"

definition os_is_set :: "os_slot \<Rightarrow> bool" where
  "os_is_set s \<longleftrightarrow> ow_inner s \<noteq> None"

text \<open>\<open>conds\<close> tells whether the thread also waits by \<open>wait_with_cond\<close>.\<close>

inductive os_slot_step :: "bool \<Rightarrow> os_slot \<Rightarrow> os_slot \<Rightarrow> bool" for conds where
  "ow_wpc s = Ow_Out \<Longrightarrow> conds \<or> \<not> cond \<Longrightarrow> os_slot_step conds s (os_park_new cond s)"
| "ow_wpc s = Ow_Store cond \<Longrightarrow> ow_owner s = None \<Longrightarrow> os_slot_step conds s (os_park_store cond s)"
| "ow_wpc s = Ow_Body cond \<Longrightarrow> os_slot_step conds s (os_body_end cond v s)"
| "ow_wpc s = Ow_Cancel \<Longrightarrow> ow_owner s = None \<Longrightarrow> os_slot_step conds s (os_park_cancel s)"
| "ow_wpc s = Ow_Check cond \<Longrightarrow> os_slot_step conds s (os_park_check cond s)"
| "ow_wpc s = Ow_Asleep cond \<Longrightarrow> os_slot_step conds s (os_wgoto (Ow_Check cond) s)"
| "ow_wpc s = Ow_Clear \<Longrightarrow> ow_owner s = None \<Longrightarrow> os_slot_step conds s (os_park_clear s)"
| "ow_npc s i = On_Out \<Longrightarrow> ow_owner s = None \<Longrightarrow> os_slot_step conds s (os_notify i s)"
| "ow_npc s i = On_Ready p \<Longrightarrow> os_slot_step conds s (os_set_ready i p s)"
| "ow_npc s i = On_Signal p \<Longrightarrow> os_slot_step conds s (os_signal i p s)"
| "ow_npc s i = On_Unlock \<Longrightarrow> os_slot_step conds s (os_unlock i s)"

definition os_slot_new :: os_slot where
  "os_slot_new =
     \<lparr>ow_owner = None, ow_inner = None, ow_ready = {}, ow_parker = 0, ow_wpc = Ow_Out, ow_npc = (\<lambda>_. On_Out)\<rparr>"

inductive os_slot_reachable :: "bool \<Rightarrow> os_slot \<Rightarrow> bool" for conds where
  os_slot_init: "os_slot_reachable conds os_slot_new"
| os_slot_next: "os_slot_reachable conds s \<Longrightarrow> os_slot_step conds s s' \<Longrightarrow> os_slot_reachable conds s'"

lemmas os_slot_defs = os_wgoto_def os_ngoto_def os_park_new_def os_park_store_def os_body_end_def os_park_cancel_def
  os_park_check_def os_park_clear_def os_notify_def os_set_ready_def os_signal_def os_unlock_def

section \<open>What the protocol keeps\<close>

text \<open>The notifier that owns \<open>inner\<close> is the only one that is at work.\<close>

definition os_holder :: "os_slot \<Rightarrow> os_notify_pc" where
  "os_holder s = (if ow_owner s = None then On_Out else ow_npc s (the (ow_owner s)))"

definition os_one_notifier :: "os_slot \<Rightarrow> bool" where
  "os_one_notifier s \<longleftrightarrow> (\<forall>i. ow_npc s i \<noteq> On_Out \<longleftrightarrow> ow_owner s = Some i)"

lemma signal_selectors [simp]:
  "ow_owner (os_signal i p s) = ow_owner s" "ow_npc (os_signal i p s) = (ow_npc s)(i := On_Unlock)"
  "ow_inner (os_signal i p s) = ow_inner s" "ow_parker (os_signal i p s) = ow_parker s" "ow_ready (os_signal i p s) = ow_ready s"
  by (simp_all add: os_signal_def os_ngoto_def os_wgoto_def split: os_wait_pc.splits)

lemma os_one_notifierI:
  "(\<And>i. ow_npc s i \<noteq> On_Out \<Longrightarrow> ow_owner s = Some i) \<Longrightarrow> (\<And>i. ow_owner s = Some i \<Longrightarrow> ow_npc s i \<noteq> On_Out) \<Longrightarrow> os_one_notifier s"
  unfolding os_one_notifier_def by blast

lemma os_one_notifierD:
  "os_one_notifier s \<Longrightarrow> ow_npc s i \<noteq> On_Out \<Longrightarrow> ow_owner s = Some i"
  "os_one_notifier s \<Longrightarrow> ow_owner s = Some i \<Longrightarrow> ow_npc s i \<noteq> On_Out"
  unfolding os_one_notifier_def by blast+

lemma os_one_notifier_frame:
  "os_one_notifier s \<Longrightarrow> ow_npc s' = ow_npc s \<Longrightarrow> ow_owner s' = ow_owner s \<Longrightarrow> os_one_notifier s'"
  by (simp add: os_one_notifier_def)

lemma os_one_notifier_move:
  assumes "os_one_notifier s" "ow_npc s' = (ow_npc s)(i := pc)" "ow_owner s' = (if pc = On_Out then None else Some i)"
    and "ow_owner s = None \<or> ow_owner s = Some i"
  shows "os_one_notifier s'"
proof (rule os_one_notifierI)
  fix j
  note D = os_one_notifierD [OF assms(1), of j]
  show "ow_owner s' = Some j" if "ow_npc s' j \<noteq> On_Out"
    using that D(1) assms(2-4) by (cases "j = i") (simp_all split: if_splits)
  show "ow_npc s' j \<noteq> On_Out" if "ow_owner s' = Some j"
    using that assms(2,3) by (simp split: if_splits)
qed

lemma os_one_notifier_step:
  assumes "os_slot_step conds s s'" "os_one_notifier s"
  shows "os_one_notifier s'"
  using assms(1)
proof cases
  case (8 i)
  show ?thesis
  proof (cases "ow_inner s")
    case None
    with 8(1) have "s' = s" by (simp add: os_notify_def)
    then show ?thesis using assms(2) by simp
  next
    case (Some p)
    show ?thesis
      by (rule os_one_notifier_move [OF assms(2), of _ i "On_Ready p"]) (simp_all add: 8 Some os_notify_def os_ngoto_def)
  qed
next
  case (9 i p)
  with os_one_notifierD(1) [OF assms(2), of i] show ?thesis
    by (intro os_one_notifier_move [OF assms(2), of _ i "On_Signal p"]) (simp_all add: os_set_ready_def os_ngoto_def)
next
  case (10 i p)
  with os_one_notifierD(1) [OF assms(2), of i] show ?thesis
    by (intro os_one_notifier_move [OF assms(2), of _ i On_Unlock]) simp_all
next
  case (11 i)
  with os_one_notifierD(1) [OF assms(2), of i] show ?thesis
    by (intro os_one_notifier_move [OF assms(2), of _ i On_Out]) (simp_all add: os_unlock_def os_ngoto_def)
qed (rule os_one_notifier_frame [OF assms(2)]; simp add: os_slot_defs)+

lemma holder_at_work: "os_one_notifier s \<Longrightarrow> ow_npc s i \<noteq> On_Out \<Longrightarrow> ow_owner s = Some i \<and> os_holder s = ow_npc s i"
  by (simp add: os_one_notifier_def os_holder_def)

text \<open>
  The parker in the slot, or that a notifier has found, is the waiter's and not signalled; while the waiter is parked
  its parker is one or the other or ready; and it sleeps only if it is yet to be signalled.
\<close>

fun waits_parked :: "os_wait_pc \<Rightarrow> bool" where
  "waits_parked (Ow_Body c) = True" | "waits_parked Ow_Cancel = True" | "waits_parked (Ow_Check c) = True"
| "waits_parked (Ow_Asleep c) = True" | "waits_parked _ = False"

fun sleeps :: "os_wait_pc \<Rightarrow> bool" where
  "sleeps (Ow_Asleep c) = True" | "sleeps _ = False"

fun storing :: "os_wait_pc \<Rightarrow> bool" where
  "storing (Ow_Store c) = True" | "storing _ = False"

fun os_signals :: "os_notify_pc \<Rightarrow> nat option" where
  "os_signals (On_Signal p) = Some p" | "os_signals _ = None"

fun os_found :: "os_notify_pc \<Rightarrow> nat option" where
  "os_found (On_Ready p) = Some p" | "os_found _ = None"

definition os_parker_ok :: "os_notify_pc \<Rightarrow> os_wait_pc \<Rightarrow> nat option \<Rightarrow> nat \<Rightarrow> nat set \<Rightarrow> bool" where
  "os_parker_ok h w inner k R \<longleftrightarrow>
     (inner = None \<or> h = On_Out \<and> inner = Some k \<and> k \<notin> R \<and> waits_parked w) \<and>
     (os_found h = None \<or> os_found h = Some k \<and> k \<notin> R \<and> waits_parked w) \<and>
     (\<forall>p \<in> R. p \<le> k) \<and>
     (waits_parked w \<longrightarrow> inner = Some k \<or> os_found h = Some k \<or> k \<in> R) \<and>
     (sleeps w \<longrightarrow> inner = Some k \<or> os_found h = Some k \<or> os_signals h = Some k) \<and>
     (w = Ow_Clear \<longrightarrow> k \<in> R) \<and> (storing w \<longrightarrow> k \<notin> R)"

definition os_slot_inv :: "os_slot \<Rightarrow> bool" where
  "os_slot_inv s \<longleftrightarrow>
     os_one_notifier s \<and> os_parker_ok (os_holder s) (ow_wpc s) (ow_inner s) (ow_parker s) (ow_ready s)"

lemmas os_ok_simps = os_slot_defs os_holder_def os_parker_ok_def

lemma os_slot_step_inv:
  assumes "os_slot_step conds s s'" "os_slot_inv s"
  shows "os_slot_inv s'"
proof -
  have one: "os_one_notifier s" "os_one_notifier s'"
    using assms os_one_notifier_step by (simp_all add: os_slot_inv_def)
  have ok: "os_parker_ok (os_holder s) (ow_wpc s) (ow_inner s) (ow_parker s) (ow_ready s)"
    using assms(2) by (simp add: os_slot_inv_def)
  note work = holder_at_work [OF one(1)]
  from assms(1) have "os_parker_ok (os_holder s') (ow_wpc s') (ow_inner s') (ow_parker s') (ow_ready s')"
  proof cases
    case (1 cond)
    then have "os_holder s' = os_holder s" by (simp add: os_slot_defs os_holder_def)
    with ok 1 show ?thesis unfolding os_parker_ok_def by (force simp: os_slot_defs)
  next
    case (2 cond)
    then have "os_holder s' = On_Out" "os_holder s = On_Out" by (simp_all add: os_slot_defs os_holder_def)
    with ok 2 show ?thesis unfolding os_parker_ok_def by (simp add: os_slot_defs)
  next
    case (3 cond v)
    then have "os_holder s' = os_holder s" by (simp add: os_slot_defs os_holder_def)
    with ok 3 show ?thesis unfolding os_parker_ok_def by (cases "cond \<and> \<not> v") (auto simp: os_slot_defs)
  next
    case 4
    then have "os_holder s' = On_Out" "os_holder s = On_Out" by (simp_all add: os_slot_defs os_holder_def)
    with ok 4 show ?thesis unfolding os_parker_ok_def by (auto simp: os_slot_defs)
  next
    case (5 cond)
    then have "os_holder s' = os_holder s" by (simp add: os_slot_defs os_holder_def)
    with ok 5 show ?thesis unfolding os_parker_ok_def by (auto simp: os_slot_defs)
  next
    case (6 cond)
    then have "os_holder s' = os_holder s" by (simp add: os_slot_defs os_holder_def)
    with ok 6 show ?thesis unfolding os_parker_ok_def by (simp add: os_slot_defs)
  next
    case 7
    then have "os_holder s' = On_Out" "os_holder s = On_Out" by (simp_all add: os_slot_defs os_holder_def)
    with ok 7 show ?thesis unfolding os_parker_ok_def by (simp add: os_slot_defs)
  next
    case (8 i)
    then have h: "os_holder s = On_Out" by (simp add: os_holder_def)
    show ?thesis
    proof (cases "ow_inner s")
      case None
      with 8 have "s' = s" by (simp add: os_notify_def)
      then show ?thesis using ok by simp
    next
      case (Some p)
      with 8 have "os_holder s' = On_Ready p" by (simp add: os_slot_defs os_holder_def)
      with ok 8 Some show ?thesis unfolding os_parker_ok_def by (auto simp: os_slot_defs)
    qed
  next
    case (9 i p)
    with work [of i] have "os_holder s' = On_Signal p" "os_holder s = On_Ready p" by (simp_all add: os_slot_defs os_holder_def)
    with ok 9 show ?thesis unfolding os_parker_ok_def by (cases "ow_wpc s") (auto simp: os_slot_defs)
  next
    case (10 i p)
    with work [of i] have "os_holder s' = On_Unlock" "os_holder s = On_Signal p" by (simp_all add: os_holder_def)
    with ok 10 show ?thesis unfolding os_parker_ok_def
      by (cases "ow_wpc s") (auto simp: os_signal_def os_ngoto_def os_wgoto_def)
  next
    case (11 i)
    with work [of i] have "os_holder s' = On_Out" "os_holder s = On_Unlock" by (simp_all add: os_slot_defs os_holder_def)
    with ok 11 show ?thesis unfolding os_parker_ok_def by (auto simp: os_slot_defs)
  qed
  with one(2) show ?thesis by (simp add: os_slot_inv_def)
qed

lemma os_slot_reachable_inv: "os_slot_reachable conds s \<Longrightarrow> os_slot_inv s"
proof (induction rule: os_slot_reachable.induct)
  case os_slot_init
  show ?case by (simp add: os_slot_inv_def os_one_notifier_def os_parker_ok_def os_holder_def os_slot_new_def)
qed (rule os_slot_step_inv)

text \<open>
  Without \<open>wait_with_cond\<close> no notifier is at work on the slot while the thread is out of its wait: it gets out through
  the mutex \<open>inner\<close>.
\<close>

definition os_quiet :: "os_slot \<Rightarrow> bool" where
  "os_quiet s \<longleftrightarrow>
     (ow_wpc s = Ow_Out \<or> ow_wpc s = Ow_Store False \<longrightarrow> ow_owner s = None \<and> ow_inner s = None) \<and>
     ow_wpc s \<notin> {Ow_Store True, Ow_Body True, Ow_Check True, Ow_Asleep True, Ow_Cancel}"

lemma os_quiet_step:
  assumes "os_slot_step False s s'" "os_one_notifier s" "os_quiet s"
  shows "os_quiet s'"
  using assms(1)
proof cases
  case (8 i)
  with assms(3) show ?thesis by (cases "ow_inner s") (auto simp: os_quiet_def os_slot_defs)
next
  case (9 i p)
  with assms(3) os_one_notifierD(1) [OF assms(2), of i] show ?thesis by (auto simp: os_quiet_def os_slot_defs)
next
  case (10 i p)
  with assms(3) os_one_notifierD(1) [OF assms(2), of i] show ?thesis
    by (cases "ow_wpc s") (auto simp: os_quiet_def os_signal_def os_ngoto_def os_wgoto_def)
next
  case (11 i)
  with assms(3) os_one_notifierD(1) [OF assms(2), of i] show ?thesis by (auto simp: os_quiet_def os_slot_defs)
qed (use assms(3) in \<open>auto simp: os_quiet_def os_slot_defs split: if_splits\<close>)

lemma os_quiet_reachable: "os_slot_reachable False s \<Longrightarrow> os_quiet s"
proof (induction rule: os_slot_reachable.induct)
  case os_slot_init
  show ?case by (simp add: os_quiet_def os_slot_new_def)
next
  case (os_slot_next s s')
  then show ?case using os_quiet_step os_slot_reachable_inv by (blast dest: os_slot_inv_def [THEN iffD1])
qed

text \<open>
  A thread parked on an \<open>OsSuspendedThread\<close> is never forgotten: while it sleeps its parker is in the slot for the next notifier, or one
  is about to set its flag or to signal it; and when \<open>wait_with\<close> returns no notifier is still at work on
  the slot, so that it may be freed.
\<close>

lemma os_wait_safe:
  assumes "os_slot_reachable conds s"
  shows "(ow_wpc s = Ow_Asleep cond \<longrightarrow>
       os_is_set s \<or> (\<exists>i. ow_npc s i = On_Ready (ow_parker s) \<or> ow_npc s i = On_Signal (ow_parker s))) \<and>
    (\<not> conds \<and> ow_wpc s = Ow_Out \<longrightarrow> \<not> os_is_set s \<and> ow_npc s i = On_Out)"
proof -
  have inv: "os_one_notifier s" "os_parker_ok (os_holder s) (ow_wpc s) (ow_inner s) (ow_parker s) (ow_ready s)"
    using os_slot_reachable_inv [OF assms] by (simp_all add: os_slot_inv_def)
  have "os_is_set s \<or> (\<exists>i. ow_npc s i = On_Ready (ow_parker s) \<or> ow_npc s i = On_Signal (ow_parker s))"
    if "ow_wpc s = Ow_Asleep cond"
  proof -
    have "os_is_set s \<or> os_found (os_holder s) = Some (ow_parker s) \<or> os_signals (os_holder s) = Some (ow_parker s)"
      using inv(2) that by (auto simp: os_parker_ok_def os_is_set_def)
    then have "os_is_set s \<or> os_holder s = On_Ready (ow_parker s) \<or> os_holder s = On_Signal (ow_parker s)"
      by (cases "os_holder s") auto
    then show ?thesis by (auto simp: os_holder_def split: if_splits)
  qed
  moreover have "\<not> os_is_set s \<and> ow_npc s i = On_Out" if "\<not> conds" "ow_wpc s = Ow_Out"
    using os_quiet_reachable [of s] os_one_notifierD(1) [OF inv(1), of i] that assms by (auto simp: os_quiet_def os_is_set_def)
  ultimately show ?thesis by blast
qed

text \<open>
  \<open>wait_with_cond\<close> can return while the notifier that woke it still holds the mutex of the slot: its unlock then accesses memory
  that the caller may have freed.
\<close>

lemma os_wait_cond_returns_early:
  "\<exists>s. os_slot_reachable True s \<and> ow_wpc s = Ow_Out \<and> ow_npc s 0 = On_Signal (ow_parker s) \<and> ow_owner s = Some 0"
proof -
  define s1 where "s1 = os_park_store True (os_park_new True os_slot_new)"
  define s2 where "s2 = os_set_ready 0 1 (os_notify 0 (os_body_end True True s1))"
  note d = s1_def s2_def os_slot_defs os_slot_new_def
  note stp = os_slot_step.intros [where conds = True]
  have "os_slot_reachable True (os_park_new True os_slot_new)"
    by (rule os_slot_next [OF os_slot_init stp(1)]) (simp_all add: d)
  then have "os_slot_reachable True s1" unfolding s1_def by (rule os_slot_next [OF _ stp(2)]) (simp_all add: d)
  then have "os_slot_reachable True (os_body_end True True s1)" by (rule os_slot_next [OF _ stp(3)]) (simp_all add: d)
  then have "os_slot_reachable True (os_notify 0 (os_body_end True True s1))" by (rule os_slot_next [OF _ stp(8)]) (simp_all add: d)
  then have "os_slot_reachable True s2" unfolding s2_def by (rule os_slot_next [OF _ stp(9)]) (simp_all add: d)
  then have "os_slot_reachable True (os_park_check True s2)" by (rule os_slot_next [OF _ stp(5)]) (simp_all add: d)
  then show ?thesis by (intro exI [of _ "os_park_check True s2"]) (simp add: d)
qed

text \<open>A thread asleep, with its parker in the slot.\<close>

definition os_slot_example :: os_slot where
  "os_slot_example = os_park_check False (os_body_end False True (os_park_store False (os_park_new False os_slot_new)))"

lemma os_slot_example_reachable: "os_slot_reachable False os_slot_example" "ow_wpc os_slot_example = Ow_Asleep False"
proof -
  note stp = os_slot_step.intros [where conds = False]
  have "os_slot_reachable False (os_park_new False os_slot_new)"
    by (rule os_slot_next [OF os_slot_init stp(1)]) (simp_all add: os_slot_new_def)
  then have "os_slot_reachable False (os_park_store False (os_park_new False os_slot_new))"
    by (rule os_slot_next [OF _ stp(2)]) (simp_all add: os_slot_defs os_slot_new_def)
  then have "os_slot_reachable False (os_body_end False True (os_park_store False (os_park_new False os_slot_new)))"
    by (rule os_slot_next [OF _ stp(3)]) (simp_all add: os_slot_defs os_slot_new_def)
  then show "os_slot_reachable False os_slot_example" unfolding os_slot_example_def
    by (rule os_slot_next [OF _ stp(5)]) (simp_all add: os_slot_defs os_slot_new_def)
  show "ow_wpc os_slot_example = Ow_Asleep False" by (simp add: os_slot_example_def os_slot_defs os_slot_new_def)
qed

lemma os_wait_safe_witness:
  "os_is_set os_slot_example \<or>
    (\<exists>i. ow_npc os_slot_example i = On_Ready (ow_parker os_slot_example) \<or> ow_npc os_slot_example i = On_Signal (ow_parker os_slot_example))"
  using os_wait_safe [OF os_slot_example_reachable(1), of False] os_slot_example_reachable(2) by blast

end
