(* ===== verification/Tls.thy ===== *)
theory Tls
  imports Cmpth_Prelude
begin

text \<open>
  Thread-local variables: \<open>OsTls\<close> of \<open>os.rs\<close>, one array of sixteen pointers per OS thread, and \<open>UltTls\<close> of
  \<open>stackful/tls.rs\<close>, one map per user-level thread.  Both name a variable by the index that its anchor gets, from
  a counter, when it is first used, by whichever thread is first.  Anchors and threads are numbers here;
  \<open>limit\<close> is the size of the array, or nothing for the map.
\<close>

definition TLS_ANCHOR_UNASSIGNED :: usize where
  "TLS_ANCHOR_UNASSIGNED = - 1"

definition OS_TLS_MAX_SLOTS :: usize where
  "OS_TLS_MAX_SLOTS = 16"

text \<open>
  Where a thread is in its access to the variable of anchor \<open>k\<close>: about to load the index, to take a number,
  to publish it; with the index in hand; panicked.
\<close>

datatype tls_pc = T_Idle | T_Load nat | T_Fetch nat | T_Cas nat usize | T_Have nat usize | T_Panic

text \<open>\<open>tl_last\<close> is for the proofs: what the thread last set the anchor's variable to.\<close>

record tls =
  tl_next :: usize
  tl_index :: "nat \<Rightarrow> usize"
  tl_slots :: "nat \<Rightarrow> usize \<Rightarrow> usize"
  tl_pc :: "nat \<Rightarrow> tls_pc"
  tl_last :: "nat \<Rightarrow> nat \<Rightarrow> usize"

definition tls_goto :: "nat \<Rightarrow> tls_pc \<Rightarrow> tls \<Rightarrow> tls" where
  "tls_goto w pc s = s\<lparr>tl_pc := (tl_pc s)(w := pc)\<rparr>"

text \<open>\<open>slot\<close>, \<open>key\<close>, and the load in the loop of \<open>assign_slot\<close>.\<close>

definition tls_load :: "nat \<Rightarrow> nat \<Rightarrow> tls \<Rightarrow> tls" where
  "tls_load w k s = tls_goto w (if tl_index s k \<noteq> TLS_ANCHOR_UNASSIGNED then T_Have k (tl_index s k) else T_Fetch k) s"

definition tls_fetch :: "usize option \<Rightarrow> nat \<Rightarrow> nat \<Rightarrow> tls \<Rightarrow> tls" where
  "tls_fetch limit w k s =
     (let candidate = tl_next s; s' = s\<lparr>tl_next := candidate + 1\<rparr>
      in case limit of
           Some n \<Rightarrow> tls_goto w (if candidate < n then T_Cas k candidate else T_Panic) s'
         | None \<Rightarrow> tls_goto w (T_Cas k candidate) s')"

definition tls_cas :: "nat \<Rightarrow> nat \<Rightarrow> usize \<Rightarrow> tls \<Rightarrow> tls" where
  "tls_cas w k candidate s =
     (if tl_index s k = TLS_ANCHOR_UNASSIGNED
      then tls_goto w (T_Have k candidate) (s\<lparr>tl_index := (tl_index s)(k := candidate)\<rparr>)
      else tls_goto w (T_Load k) s)"

definition tls_get :: "nat \<Rightarrow> usize \<Rightarrow> tls \<Rightarrow> usize" where
  "tls_get w i s = tl_slots s w i"

definition tls_set :: "nat \<Rightarrow> nat \<Rightarrow> usize \<Rightarrow> usize \<Rightarrow> tls \<Rightarrow> tls" where
  "tls_set w k i p s =
     s\<lparr>tl_slots := (tl_slots s)(w := (tl_slots s w)(i := p)), tl_last := (tl_last s)(w := (tl_last s w)(k := p))\<rparr>"

inductive tls_step :: "usize option \<Rightarrow> tls \<Rightarrow> tls \<Rightarrow> bool" for limit where
  "tl_pc s w = T_Idle \<Longrightarrow> tls_step limit s (tls_goto w (T_Load k) s)"
| "tl_pc s w = T_Load k \<Longrightarrow> tls_step limit s (tls_load w k s)"
| "tl_pc s w = T_Fetch k \<Longrightarrow> tls_step limit s (tls_fetch limit w k s)"
| "tl_pc s w = T_Cas k candidate \<Longrightarrow> tls_step limit s (tls_cas w k candidate s)"
| "tl_pc s w = T_Have k i \<Longrightarrow> tls_step limit s (tls_goto w T_Idle (tls_set w k i p s))"
| "tl_pc s w = T_Have k i \<Longrightarrow> tls_step limit s (tls_goto w T_Idle s)"

definition tls_start :: tls where
  "tls_start =
     \<lparr>tl_next = 0, tl_index = (\<lambda>_. TLS_ANCHOR_UNASSIGNED), tl_slots = (\<lambda>_ _. 0), tl_pc = (\<lambda>_. T_Idle), tl_last = (\<lambda>_ _. 0)\<rparr>"

text \<open>Runs with the number of their steps, so that the counter, which wraps, can be bounded.\<close>

inductive tls_reaches :: "usize option \<Rightarrow> nat \<Rightarrow> tls \<Rightarrow> bool" for limit where
  tls_init: "tls_reaches limit 0 tls_start"
| tls_next: "tls_reaches limit n s \<Longrightarrow> tls_step limit s s' \<Longrightarrow> tls_reaches limit (Suc n) s'"

lemmas tls_defs = tls_goto_def tls_load_def tls_fetch_def tls_cas_def tls_set_def

text \<open>
  Indices that are assigned, or in the hands of a thread about to publish one, come from the counter and are all different;
  a thread with an index has the anchor's; and the word there is what the thread last set.
\<close>

definition tls_taken :: "tls \<Rightarrow> usize \<Rightarrow> bool" where
  "tls_taken s i \<longleftrightarrow> i < tl_next s"

lemma tls_goto_selectors [simp]:
  "tls_taken (tls_goto w pc s) i = tls_taken s i" "tl_next (tls_goto w pc s) = tl_next s" "tl_index (tls_goto w pc s) = tl_index s"
  "tl_slots (tls_goto w pc s) = tl_slots s" "tl_last (tls_goto w pc s) = tl_last s" "tl_pc (tls_goto w pc s) = (tl_pc s)(w := pc)"
  by (simp_all add: tls_taken_def tls_goto_def)

definition tls_inv_index :: "usize option \<Rightarrow> tls \<Rightarrow> bool" where
  "tls_inv_index limit s \<longleftrightarrow>
     (\<forall>k. tl_index s k \<noteq> TLS_ANCHOR_UNASSIGNED \<longrightarrow> tls_taken s (tl_index s k) \<and> (limit \<noteq> None \<longrightarrow> tl_index s k < the limit)) \<and>
     (\<forall>k k'. tl_index s k = tl_index s k' \<and> k \<noteq> k' \<longrightarrow> tl_index s k = TLS_ANCHOR_UNASSIGNED)"

definition tls_inv_cas :: "usize option \<Rightarrow> tls \<Rightarrow> bool" where
  "tls_inv_cas limit s \<longleftrightarrow>
     (\<forall>w k c. tl_pc s w = T_Cas k c \<longrightarrow> tls_taken s c \<and> (limit \<noteq> None \<longrightarrow> c < the limit)) \<and>
     (\<forall>w k c k'. tl_pc s w = T_Cas k c \<longrightarrow> tl_index s k' \<noteq> c) \<and>
     (\<forall>w w' k k' c. tl_pc s w = T_Cas k c \<and> tl_pc s w' = T_Cas k' c \<longrightarrow> w = w')"

definition tls_inv_have :: "tls \<Rightarrow> bool" where
  "tls_inv_have s \<longleftrightarrow> (\<forall>w k i. tl_pc s w = T_Have k i \<longrightarrow> i = tl_index s k \<and> i \<noteq> TLS_ANCHOR_UNASSIGNED)"

definition tls_inv_slots :: "tls \<Rightarrow> bool" where
  "tls_inv_slots s \<longleftrightarrow>
     (\<forall>w k. tl_index s k = TLS_ANCHOR_UNASSIGNED \<longrightarrow> tl_last s w k = 0) \<and>
     (\<forall>w k. tl_index s k \<noteq> TLS_ANCHOR_UNASSIGNED \<longrightarrow> tl_slots s w (tl_index s k) = tl_last s w k) \<and>
     (\<forall>w i. tl_slots s w i \<noteq> 0 \<longrightarrow> i \<noteq> TLS_ANCHOR_UNASSIGNED \<and> (\<exists>k. tl_index s k = i))"

definition tls_inv :: "usize option \<Rightarrow> nat \<Rightarrow> tls \<Rightarrow> bool" where
  "tls_inv limit n s \<longleftrightarrow>
     unat (tl_next s) \<le> n \<and> tls_inv_index limit s \<and> tls_inv_cas limit s \<and> tls_inv_have s \<and> tls_inv_slots s"

lemma tls_inv_start: "tls_inv limit 0 tls_start"
  by (simp add: tls_inv_def tls_inv_index_def tls_inv_cas_def tls_inv_have_def tls_inv_slots_def tls_start_def)

text \<open>A thread that moves without publishing an index.\<close>

definition plain_pc :: "tls_pc \<Rightarrow> bool" where
  "plain_pc pc \<longleftrightarrow> (\<forall>k c. pc \<noteq> T_Cas k c) \<and> (\<forall>k i. pc \<noteq> T_Have k i)"

lemma tls_goto_inv:
  assumes "tls_inv limit n s" "plain_pc pc"
  shows "tls_inv limit (Suc n) (tls_goto w pc s)"
proof -
  have "tls_inv_index limit (tls_goto w pc s)" "tls_inv_slots (tls_goto w pc s)"
    using assms(1) by (simp_all add: tls_inv_def tls_inv_index_def tls_inv_slots_def tls_taken_def)
  moreover have "tls_inv_cas limit (tls_goto w pc s)"
    using assms by (auto simp: tls_inv_def tls_inv_cas_def plain_pc_def tls_taken_def)
  moreover have "tls_inv_have (tls_goto w pc s)"
    using assms by (auto simp: tls_inv_def tls_inv_have_def plain_pc_def)
  ultimately show ?thesis using assms(1) by (simp add: tls_inv_def)
qed

lemma tls_have_inv:
  assumes "tls_inv limit n s" "tl_index s k = i" "i \<noteq> TLS_ANCHOR_UNASSIGNED"
  shows "tls_inv limit (Suc n) (tls_goto w (T_Have k i) s)"
proof -
  have "tls_inv_index limit (tls_goto w (T_Have k i) s)" "tls_inv_slots (tls_goto w (T_Have k i) s)"
    using assms(1) by (simp_all add: tls_inv_def tls_inv_index_def tls_inv_slots_def tls_taken_def)
  moreover have "tls_inv_cas limit (tls_goto w (T_Have k i) s)"
    using assms(1) by (auto simp: tls_inv_def tls_inv_cas_def tls_taken_def)
  moreover have "tls_inv_have (tls_goto w (T_Have k i) s)"
    using assms by (auto simp: tls_inv_def tls_inv_have_def)
  ultimately show ?thesis using assms(1) by (simp add: tls_inv_def)
qed

text \<open>A number is taken: nobody has it.\<close>

lemma tls_fetch_inv:
  assumes "tls_inv limit n s" "n < 2 ^ 64 - 1"
  shows "tls_inv limit (Suc n) (tls_fetch limit w k s)"
proof -
  let ?c = "tl_next s" and ?s = "s\<lparr>tl_next := tl_next s + 1\<rparr>"
  have n: "unat ?c \<le> n" using assms(1) by (simp add: tls_inv_def)
  then have succ: "unat (?c + 1) = unat ?c + 1" using assms(2) by (simp add: unat_word_ariths)
  have old: "tls_taken ?s i" if "tls_taken s i" for i using that succ by (simp add: tls_taken_def word_less_nat_alt)
  have new: "tls_taken ?s ?c" "\<not> tls_taken s ?c" using succ by (simp_all add: tls_taken_def word_less_nat_alt)
  have un: "?c \<noteq> TLS_ANCHOR_UNASSIGNED"
    using n assms(2) by (auto simp: TLS_ANCHOR_UNASSIGNED_def unsigned_minus_1_eq_mask mask_eq_exp_minus_1)
  have s: "tls_inv limit (Suc n) ?s"
    using assms(1) old succ by (auto simp: tls_inv_def tls_inv_index_def tls_inv_cas_def tls_inv_have_def tls_inv_slots_def)
  have cas: "tls_inv limit (Suc n) (tls_goto w (T_Cas k ?c) ?s)" if "limit \<noteq> None \<longrightarrow> ?c < the limit"
  proof -
    have "tls_inv_index limit s" "tls_inv_cas limit s" using assms(1) by (simp_all add: tls_inv_def)
    then have fresh: "tl_index s k' \<noteq> ?c" "tl_pc s w' \<noteq> T_Cas k' ?c" for k' w'
      unfolding tls_inv_index_def tls_inv_cas_def using new(2) un by metis+
    have "tls_inv_cas limit (tls_goto w (T_Cas k ?c) ?s)"
      using \<open>tls_inv_cas limit s\<close> that new(1) fresh old by (auto simp: tls_inv_cas_def)
    moreover have "tls_inv_index limit (tls_goto w (T_Cas k ?c) ?s)" "tls_inv_slots (tls_goto w (T_Cas k ?c) ?s)"
      using s by (simp_all add: tls_inv_def tls_inv_index_def tls_inv_slots_def tls_taken_def)
    moreover have "tls_inv_have (tls_goto w (T_Cas k ?c) ?s)"
      using assms(1) by (auto simp: tls_inv_def tls_inv_have_def)
    ultimately show ?thesis using s by (simp add: tls_inv_def)
  qed
  have panic: "tls_inv limit (Suc n) (tls_goto w T_Panic ?s)"
    using s by (auto simp: tls_inv_def tls_inv_index_def tls_inv_slots_def tls_taken_def tls_inv_cas_def tls_inv_have_def)
  show ?thesis using cas panic by (auto simp: tls_fetch_def Let_def split: option.splits)
qed

lemma tls_cas_inv:
  assumes "tls_inv limit n s" "tl_pc s w = T_Cas k c"
  shows "tls_inv limit (Suc n) (tls_cas w k c s)"
proof (cases "tl_index s k = TLS_ANCHOR_UNASSIGNED")
  case True
  let ?s = "tls_goto w (T_Have k c) (s\<lparr>tl_index := (tl_index s)(k := c)\<rparr>)"
  have inv: "tls_inv_index limit s" "tls_inv_cas limit s" "tls_inv_have s" "tls_inv_slots s"
    using assms(1) by (simp_all add: tls_inv_def)
  have c: "tls_taken s c" "limit \<noteq> None \<longrightarrow> c < the limit" "tl_index s k' \<noteq> c" for k'
    using inv(2) assms(2) unfolding tls_inv_cas_def by blast+
  then have un: "c \<noteq> TLS_ANCHOR_UNASSIGNED" using True by metis
  have "tls_inv_index limit ?s" using inv(1) c un by (auto simp: tls_inv_index_def tls_taken_def)
  moreover have "tls_inv_cas limit ?s" using inv(2) assms(2) un by (auto simp: tls_inv_cas_def tls_taken_def)
  moreover have "tls_inv_have ?s" using inv(3) un True by (auto simp: tls_inv_have_def)
  moreover have "tls_inv_slots ?s"
  proof -
    have "tl_slots s u c = 0" "tl_last s u k = 0" for u
      using inv(4) c(3) True unfolding tls_inv_slots_def by metis+
    moreover have "\<exists>k'. ((tl_index s)(k := c)) k' = i" if "tl_slots s u i \<noteq> 0" for u i
      using inv(4) True that unfolding tls_inv_slots_def by (metis fun_upd_apply)
    ultimately show ?thesis using inv(4) un by (auto simp: tls_inv_slots_def)
  qed
  ultimately show ?thesis using True assms(1) by (simp add: tls_inv_def tls_cas_def)
next
  case False
  then show ?thesis using tls_goto_inv [OF assms(1), of "T_Load k" w] by (simp add: tls_cas_def plain_pc_def)
qed

lemma tls_set_inv:
  assumes "tls_inv limit n s" "tl_pc s w = T_Have k i"
  shows "tls_inv limit n (tls_set w k i p s)"
proof -
  have inv: "tls_inv_index limit s" "tls_inv_have s" "tls_inv_slots s" using assms(1) by (simp_all add: tls_inv_def)
  have i: "tl_index s k = i" "i \<noteq> TLS_ANCHOR_UNASSIGNED" using inv(2) assms(2) by (auto simp: tls_inv_have_def)
  have "tl_index s k' \<noteq> i" if "k' \<noteq> k" for k' using inv(1) i that by (auto simp: tls_inv_index_def)
  with inv(3) i have "tls_inv_slots (tls_set w k i p s)" by (auto simp: tls_inv_slots_def tls_set_def)
  with assms(1) show ?thesis
    by (simp add: tls_inv_def tls_inv_index_def tls_inv_cas_def tls_inv_have_def tls_taken_def tls_set_def)
qed

lemma tls_step_inv:
  assumes "tls_step limit s s'" "tls_inv limit n s" "n < 2 ^ 64 - 1"
  shows "tls_inv limit (Suc n) s'"
  using assms(1)
proof cases
  case (1 w k)
  then show ?thesis using tls_goto_inv [OF assms(2), of "T_Load k" w] by (simp add: plain_pc_def)
next
  case (2 w k)
  then show ?thesis
    using tls_have_inv [OF assms(2) refl] tls_goto_inv [OF assms(2), of "T_Fetch k" w] by (auto simp: tls_load_def plain_pc_def)
next
  case (3 w k)
  then show ?thesis using tls_fetch_inv [OF assms(2,3)] by simp
next
  case (4 w k c)
  then show ?thesis using tls_cas_inv [OF assms(2)] by simp
next
  case (5 w k i p)
  then show ?thesis using tls_goto_inv [OF tls_set_inv [OF assms(2) 5(2)], of T_Idle w] by (simp add: plain_pc_def)
next
  case (6 w k i)
  then show ?thesis using tls_goto_inv [OF assms(2), of T_Idle w] by (simp add: plain_pc_def)
qed

lemma tls_reaches_inv: "tls_reaches limit n s \<Longrightarrow> n < 2 ^ 64 \<Longrightarrow> tls_inv limit n s"
proof (induction rule: tls_reaches.induct)
  case tls_init
  show ?case by (rule tls_inv_start)
next
  case (tls_next n s s')
  then show ?case using tls_step_inv [OF tls_next(2)] by simp
qed

text \<open>
  A thread-local slot is a variable of its own for each thread and anchor: in any run of fewer than \<open>2 ^ 64\<close> steps a thread that
  accesses it has the index of the anchor, which is no other anchor's and inside the array, and finds there
  what it stored last, however threads raced for the first assignment.
\<close>

lemma tls_variables:
  assumes "tls_reaches limit n s" and "n < 2 ^ 64"
  shows "(tl_pc s w = T_Have k i \<longrightarrow>
       i = tl_index s k \<and> tls_get w i s = tl_last s w k \<and> (limit = Some m \<longrightarrow> i < m)) \<and>
    (tl_index s k = tl_index s k' \<longrightarrow> tl_index s k = TLS_ANCHOR_UNASSIGNED \<or> k = k') \<and>
    (tls_step limit s s' \<and> tl_index s k \<noteq> TLS_ANCHOR_UNASSIGNED \<longrightarrow> tl_index s' k = tl_index s k)"
proof -
  have inv: "tls_inv_index limit s" "tls_inv_have s" "tls_inv_slots s"
    using tls_reaches_inv [OF assms] by (simp_all add: tls_inv_def)
  have "i = tl_index s k \<and> tls_get w i s = tl_last s w k \<and> (limit = Some m \<longrightarrow> i < m)" if "tl_pc s w = T_Have k i"
  proof -
    have i: "i = tl_index s k" "i \<noteq> TLS_ANCHOR_UNASSIGNED" using inv(2) that by (auto simp: tls_inv_have_def)
    then have "limit \<noteq> None \<longrightarrow> i < the limit" using inv(1) by (simp add: tls_inv_index_def)
    then have "limit = Some m \<longrightarrow> i < m" by auto
    with i inv(3) show ?thesis by (simp add: tls_inv_slots_def tls_get_def)
  qed
  moreover have "k = k'" if "tl_index s k = tl_index s k'" "tl_index s k \<noteq> TLS_ANCHOR_UNASSIGNED"
    using inv(1) that unfolding tls_inv_index_def by metis
  moreover have "tl_index s' k = tl_index s k" if "tls_step limit s s'" "tl_index s k \<noteq> TLS_ANCHOR_UNASSIGNED"
    using that by cases (auto simp: tls_defs Let_def split: option.splits)
  ultimately show ?thesis by blast
qed

text \<open>Two threads race for the index of an anchor; the loser finds the winner's.\<close>

definition tls_example :: tls where
  "tls_example =
     tls_load 2 5 (tls_cas 2 5 1 (tls_cas 1 5 0 (tls_fetch (Some 16) 2 5 (tls_fetch (Some 16) 1 5 (tls_load 2 5 (tls_load 1 5
       (tls_goto 2 (T_Load 5) (tls_goto 1 (T_Load 5) tls_start))))))))"

lemma tls_example_reachable:
  "tls_reaches (Some 16) 9 tls_example" "tl_pc tls_example 2 = T_Have 5 0" "tl_next tls_example = 2"
proof -
  note d = tls_defs tls_start_def TLS_ANCHOR_UNASSIGNED_def Let_def
  note st = tls_step.intros [where limit = "Some 16"]
  have "tls_reaches (Some 16) (Suc 0) (tls_goto 1 (T_Load 5) tls_start)"
    by (rule tls_next [OF tls_init st(1)]) (simp add: d)
  then have "tls_reaches (Some 16) (Suc (Suc 0)) (tls_goto 2 (T_Load 5) (tls_goto 1 (T_Load 5) tls_start))"
    by (rule tls_next [OF _ st(1)]) (simp add: d)
  note r = tls_next [OF this st(2) [of _ 1 5]]
  have "tls_reaches (Some 16) (Suc (Suc (Suc 0))) (tls_load 1 5 (tls_goto 2 (T_Load 5) (tls_goto 1 (T_Load 5) tls_start)))"
    by (rule r) (simp add: d)
  note r = tls_next [OF this st(2) [of _ 2 5]]
  have "tls_reaches (Some 16) (Suc (Suc (Suc (Suc 0))))
      (tls_load 2 5 (tls_load 1 5 (tls_goto 2 (T_Load 5) (tls_goto 1 (T_Load 5) tls_start))))"
    by (rule r) (simp add: d)
  note r = tls_next [OF tls_next [OF this st(3) [of _ 1 5]] st(3) [of _ 2 5]]
  have "tls_reaches (Some 16) (Suc (Suc (Suc (Suc (Suc (Suc 0))))))
      (tls_fetch (Some 16) 2 5 (tls_fetch (Some 16) 1 5
        (tls_load 2 5 (tls_load 1 5 (tls_goto 2 (T_Load 5) (tls_goto 1 (T_Load 5) tls_start))))))"
    by (rule r) (simp_all add: d)
  note r = tls_next [OF tls_next [OF tls_next [OF this st(4) [of _ 1 5 0]] st(4) [of _ 2 5 1]] st(2) [of _ 2 5]]
  have "tls_reaches (Some 16) (Suc (Suc (Suc (Suc (Suc (Suc (Suc (Suc (Suc 0))))))))) tls_example"
    unfolding tls_example_def by (rule r) (simp_all add: d)
  then show "tls_reaches (Some 16) 9 tls_example" by (simp add: numeral_eq_Suc)
  show "tl_pc tls_example 2 = T_Have 5 0" "tl_next tls_example = 2" by (simp_all add: tls_example_def d)
qed

lemma tls_variables_witness:
  "(0 :: usize) = tl_index tls_example 5 \<and> tls_get 2 0 tls_example = tl_last tls_example 2 5"
  using tls_variables [OF tls_example_reachable(1), of 2 5 0 16 5] tls_example_reachable(2) by simp

end
