(* ===== verification/Fork_Join.thy ===== *)
theory Fork_Join
  imports Run_Queue
begin

text \<open>
  Scoped fork-join on OS threads (\<open>scoped/sync_engine.rs\<close>, \<open>scoped/task.rs\<close>): \<open>parallel_call\<close> pushes its second
  branch, which lives in its own stack frame, onto the deque of its worker, runs the first, and then takes the second
  back or, if a thief has it, runs other branches until the thief is done.  The worker's deque is the list that
  \<open>HybridRunQueue\<close> is while nothing is deferred (\<open>Run_Queue\<close>): the owner works at its end, thieves at its front.
\<close>

section \<open>Programs\<close>

text \<open>
  The closures, as what they compute: a value, a panic, or a \<open>parallel_call\<close> of two closures and what is done with
  their results.  \<open>seq\<close> is what they compute when every call is two ordinary calls (\<open>None\<close> is a panic).
\<close>

datatype 'v prog = Leaf 'v | Boom | Par "'v prog" "'v prog" "'v \<Rightarrow> 'v \<Rightarrow> 'v prog"

primrec seq :: "'v prog \<Rightarrow> 'v option" where
  "seq (Leaf v) = Some v"
| "seq Boom = None"
| "seq (Par a b k) =
     (case seq a of None \<Rightarrow> None | Some x \<Rightarrow> (case seq b of None \<Rightarrow> None | Some y \<Rightarrow> (\<lambda>u v. seq (k u v)) x y))"

section \<open>Workers and branches\<close>

text \<open>
  \<open>StackTask\<close>, at the address of its frame.  The last four fields are not in the code: the branch's closure, the
  worker whose frame it is in, the worker that executes it, and when it was made.
\<close>

record 'v branch =
  br_func :: "'v prog option"
  br_result :: "'v option"
  br_latch :: bool
  br_prog :: "'v prog"
  br_owner :: nat
  br_thief :: "nat option"
  br_born :: nat

definition branch_new :: "'v prog \<Rightarrow> nat \<Rightarrow> nat \<Rightarrow> 'v branch" where
  "branch_new f w now =
     \<lparr>br_func = Some f, br_result = None, br_latch = False, br_prog = f, br_owner = w, br_thief = None, br_born = now\<rparr>"

text \<open>The frames of a worker's stack, the newest first, and what it is doing on top of them.\<close>

datatype 'v frame =
    F_Call nat "'v \<Rightarrow> 'v \<Rightarrow> 'v prog"       \<comment> \<open>\<open>parallel_call\<close>, in its first branch\<close>
  | F_Inline nat 'v "'v \<Rightarrow> 'v \<Rightarrow> 'v prog"  \<comment> \<open>in its second, taken back\<close>
  | F_Wait nat 'v "'v \<Rightarrow> 'v \<Rightarrow> 'v prog"    \<comment> \<open>waiting for the second, stolen\<close>
  | F_Exec nat                           \<comment> \<open>\<open>execute_trampoline\<close>\<close>

datatype 'v control =
    Run "'v prog"
  | Returned 'v
  | Written                              \<comment> \<open>the trampoline has written the result\<close>
  | Idle                                 \<comment> \<open>in the waiting loop or in \<open>idle_loop\<close>\<close>
  | Unwinding
  | Dead

record 'v fj =
  fj_workers :: nat
  fj_heap :: "nat \<Rightarrow> 'v branch option"
  fj_deque :: "nat \<Rightarrow> nat list"
  fj_stack :: "nat \<Rightarrow> 'v frame list"
  fj_ctl :: "nat \<Rightarrow> 'v control"
  fj_clock :: nat

text \<open>\<open>run\<close>: the calling thread becomes worker 0 and executes the root, at address 0; the others are idle.\<close>

definition fj_start :: "nat \<Rightarrow> 'v prog \<Rightarrow> 'v fj" where
  "fj_start n p = \<lparr>fj_workers = n, fj_heap = [0 \<mapsto> (branch_new p 0 0)\<lparr>br_func := None, br_thief := Some 0\<rparr>], fj_deque = (\<lambda>_. []),
     fj_stack = (\<lambda>_. [])(0 := [F_Exec 0]), fj_ctl = (\<lambda>_. Idle)(0 := Run p), fj_clock = 1\<rparr>"

text \<open>The result of \<open>run\<close>, once worker 0 has executed the root.\<close>

definition fj_finished :: "'v fj \<Rightarrow> bool" where
  "fj_finished s \<longleftrightarrow> fj_stack s 0 = [] \<and> fj_ctl s 0 = Idle"

definition run_result :: "'v fj \<Rightarrow> 'v option" where
  "run_result s = (case fj_heap s 0 of None \<Rightarrow> None | Some t \<Rightarrow> br_result t)"

section \<open>The operations\<close>

abbreviation at_work :: "nat \<Rightarrow> 'v control \<Rightarrow> 'v frame list \<Rightarrow> 'v fj \<Rightarrow> 'v fj" where
  "at_work w c fs s \<equiv> s\<lparr>fj_ctl := (fj_ctl s)(w := c), fj_stack := (fj_stack s)(w := fs)\<rparr>"

definition par_call :: "nat \<Rightarrow> nat \<Rightarrow> 'v prog \<Rightarrow> 'v prog \<Rightarrow> ('v \<Rightarrow> 'v \<Rightarrow> 'v prog) \<Rightarrow> 'v fj \<Rightarrow> 'v fj" where
  "par_call w r a b k s =
     at_work w (Run a) (F_Call r k # fj_stack s w)
       (s\<lparr>fj_heap := (fj_heap s)(r \<mapsto> branch_new b w (fj_clock s)), fj_deque := (fj_deque s)(w := fj_deque s w @ [r]),
          fj_clock := fj_clock s + 1\<rparr>)"

text \<open>The results are \<open>None\<close> where an \<open>expect\<close> fails or the branch read is gone.\<close>

definition run_inline :: "nat \<Rightarrow> nat \<Rightarrow> 'v \<Rightarrow> ('v \<Rightarrow> 'v \<Rightarrow> 'v prog) \<Rightarrow> 'v frame list \<Rightarrow> 'v fj \<Rightarrow> 'v fj option" where
  "run_inline w r v k fs s =
     (case fj_heap s r of
        None \<Rightarrow> None
      | Some t \<Rightarrow>
          (case br_func t of
             None \<Rightarrow> None
           | Some f \<Rightarrow> Some (at_work w (Run f) (F_Inline r v k # fs) (s\<lparr>fj_heap := (fj_heap s)(r \<mapsto> t\<lparr>br_func := None\<rparr>)\<rparr>))))"

definition par_join :: "nat \<Rightarrow> nat \<Rightarrow> 'v \<Rightarrow> ('v \<Rightarrow> 'v \<Rightarrow> 'v prog) \<Rightarrow> 'v frame list \<Rightarrow> 'v fj \<Rightarrow> 'v fj option" where
  "par_join w r v k fs s =
     (case pop_back (fj_deque s w) of
        (Some x, d) \<Rightarrow>
          if x = r then run_inline w r v k fs (s\<lparr>fj_deque := (fj_deque s)(w := d)\<rparr>)
          else Some (at_work w Idle (F_Wait r v k # fs) (s\<lparr>fj_deque := (fj_deque s)(w := d @ [x])\<rparr>))
      | (None, d) \<Rightarrow> Some (at_work w Idle (F_Wait r v k # fs) s))"

text \<open>The end of a \<open>parallel_call\<close>: its frame, with the branch in it, goes.\<close>

definition par_end :: "nat \<Rightarrow> nat \<Rightarrow> 'v \<Rightarrow> 'v \<Rightarrow> ('v \<Rightarrow> 'v \<Rightarrow> 'v prog) \<Rightarrow> 'v frame list \<Rightarrow> 'v fj \<Rightarrow> 'v fj" where
  "par_end w r ra rb k fs s = at_work w (Run (k ra rb)) fs (s\<lparr>fj_heap := (fj_heap s)(r := None)\<rparr>)"

definition take_branch_result :: "nat \<Rightarrow> nat \<Rightarrow> 'v \<Rightarrow> ('v \<Rightarrow> 'v \<Rightarrow> 'v prog) \<Rightarrow> 'v frame list \<Rightarrow> 'v fj \<Rightarrow> 'v fj option" where
  "take_branch_result w r ra k fs s =
     (case fj_heap s r of
        None \<Rightarrow> None
      | Some t \<Rightarrow> (case br_result t of None \<Rightarrow> None | Some rb \<Rightarrow> Some (par_end w r ra rb k fs s)))"

text \<open>\<open>execute_trampoline\<close>, up to the call; writing the result; setting the latch.\<close>

definition execute :: "nat \<Rightarrow> nat \<Rightarrow> 'v fj \<Rightarrow> 'v fj option" where
  "execute w r s =
     (case fj_heap s r of
        None \<Rightarrow> None
      | Some t \<Rightarrow>
          (case br_func t of
             None \<Rightarrow> None
           | Some f \<Rightarrow> Some (at_work w (Run f) (F_Exec r # fj_stack s w)
                         (s\<lparr>fj_heap := (fj_heap s)(r \<mapsto> t\<lparr>br_func := None, br_thief := Some w\<rparr>)\<rparr>))))"

definition write_result :: "nat \<Rightarrow> nat \<Rightarrow> 'v \<Rightarrow> 'v fj \<Rightarrow> 'v fj option" where
  "write_result w r v s =
     (case fj_heap s r of
        None \<Rightarrow> None
      | Some t \<Rightarrow> Some (s\<lparr>fj_heap := (fj_heap s)(r \<mapsto> t\<lparr>br_result := Some v\<rparr>), fj_ctl := (fj_ctl s)(w := Written)\<rparr>))"

definition set_latch :: "nat \<Rightarrow> nat \<Rightarrow> 'v frame list \<Rightarrow> 'v fj \<Rightarrow> 'v fj option" where
  "set_latch w r fs s =
     (case fj_heap s r of
        None \<Rightarrow> None
      | Some t \<Rightarrow> Some (at_work w Idle fs (s\<lparr>fj_heap := (fj_heap s)(r \<mapsto> t\<lparr>br_latch := True, br_thief := None\<rparr>)\<rparr>)))"

text \<open>A panic unwinds the frames one by one; each drops the branch it holds.  A thread whose stack is gone is dead.\<close>

fun frame_branch :: "'v frame \<Rightarrow> nat option" where
  "frame_branch (F_Call r _) = Some r" | "frame_branch (F_Inline r _ _) = Some r"
| "frame_branch (F_Wait r _ _) = Some r" | "frame_branch (F_Exec _) = None"

definition unwind :: "nat \<Rightarrow> 'v fj \<Rightarrow> 'v fj" where
  "unwind w s =
     (case fj_stack s w of
        [] \<Rightarrow> at_work w Dead [] s
      | f # fs \<Rightarrow> at_work w Unwinding fs
          (case frame_branch f of None \<Rightarrow> s | Some r \<Rightarrow> s\<lparr>fj_heap := (fj_heap s)(r := None)\<rparr>))"

text \<open>Who looks for work: a waiting \<open>parallel_call\<close>, and \<open>idle_loop\<close> of the workers but the first.\<close>

definition helping :: "nat \<Rightarrow> 'v fj \<Rightarrow> bool" where
  "helping w s \<longleftrightarrow> w < fj_workers s \<and> fj_ctl s w = Idle \<and>
     (case fj_stack s w of [] \<Rightarrow> w \<noteq> 0 | F_Wait r v k # fs \<Rightarrow> True | _ \<Rightarrow> False)"

definition latch_seen :: "nat \<Rightarrow> 'v fj \<Rightarrow> bool" where
  "latch_seen r s \<longleftrightarrow> (case fj_heap s r of None \<Rightarrow> True | Some t \<Rightarrow> br_latch t)"

text \<open>A step of a worker, with its outcome: the next state, or \<open>None\<close> for a failed \<open>expect\<close> or a read of freed memory.\<close>

inductive fj_step :: "'v fj \<Rightarrow> 'v fj option \<Rightarrow> bool" where
  fork: "fj_ctl s w = Run (Par a b k) \<Longrightarrow> fj_heap s r = None \<Longrightarrow> fj_step s (Some (par_call w r a b k s))"
| leaf: "fj_ctl s w = Run (Leaf v) \<Longrightarrow> fj_step s (Some (at_work w (Returned v) (fj_stack s w) s))"
| boom: "fj_ctl s w = Run Boom \<Longrightarrow> fj_step s (Some (at_work w Unwinding (fj_stack s w) s))"
| join: "fj_ctl s w = Returned v \<Longrightarrow> fj_stack s w = F_Call r k # fs \<Longrightarrow> fj_step s (par_join w r v k fs s)"
| inline_end: "fj_ctl s w = Returned v \<Longrightarrow> fj_stack s w = F_Inline r ra k # fs \<Longrightarrow> fj_step s (Some (par_end w r ra v k fs s))"
| exec_end: "fj_ctl s w = Returned v \<Longrightarrow> fj_stack s w = F_Exec r # fs \<Longrightarrow> fj_step s (write_result w r v s)"
| signal: "fj_ctl s w = Written \<Longrightarrow> fj_stack s w = F_Exec r # fs \<Longrightarrow> fj_step s (set_latch w r fs s)"
| probe: "fj_ctl s w = Idle \<Longrightarrow> fj_stack s w = F_Wait r ra k # fs \<Longrightarrow> latch_seen r s \<Longrightarrow> fj_step s (take_branch_result w r ra k fs s)"
| local: "helping w s \<Longrightarrow> pop_back (fj_deque s w) = (Some r, d) \<Longrightarrow> fj_step s (execute w r (s\<lparr>fj_deque := (fj_deque s)(w := d)\<rparr>))"
| steal: "helping w s \<Longrightarrow> fj_deque s w = [] \<Longrightarrow> pop_front (fj_deque s u) = (Some r, d) \<Longrightarrow>
    fj_step s (execute w r (s\<lparr>fj_deque := (fj_deque s)(u := d)\<rparr>))"
| unwind: "fj_ctl s w = Unwinding \<Longrightarrow> fj_step s (Some (unwind w s))"

inductive fj_reaches :: "'v fj \<Rightarrow> nat \<Rightarrow> 'v fj \<Rightarrow> bool" where
  fj_here: "fj_reaches s 0 s"
| fj_on: "fj_reaches s m s' \<Longrightarrow> fj_step s' (Some s'') \<Longrightarrow> fj_reaches s (Suc m) s''"

section \<open>What holds in every reachable state\<close>

text \<open>The branches whose frames are on a stack, and those it executes, the newest first.\<close>

fun owned :: "'v frame list \<Rightarrow> nat list" where
  "owned [] = []"
| "owned (f # fs) = (case frame_branch f of None \<Rightarrow> owned fs | Some r \<Rightarrow> r # owned fs)"

fun execs :: "'v frame list \<Rightarrow> nat list" where
  "execs [] = []"
| "execs (F_Exec r # fs) = r # execs fs"
| "execs (_ # fs) = execs fs"

text \<open>A branch that a thief executes or has executed.\<close>

definition br_out :: "'v branch \<Rightarrow> bool" where
  "br_out t \<longleftrightarrow> br_func t = None \<and> (br_thief t \<noteq> None \<or> br_latch t)"

text \<open>
  What a stack makes of a value returned to it (\<open>yields\<close>) or of a worker that looks for work on it (\<open>waits\<close>):
  every frame gets the value its closure has in \<open>seq\<close>.
\<close>

fun yields :: "(nat \<Rightarrow> 'v branch option) \<Rightarrow> 'v frame list \<Rightarrow> 'v \<Rightarrow> bool"
  and waits :: "(nat \<Rightarrow> 'v branch option) \<Rightarrow> 'v frame list \<Rightarrow> bool" where
  "yields h [] v = False"
| "yields h (F_Call r k # fs) v =
     (\<exists>t x y. h r = Some t \<and> (br_func t \<noteq> None \<or> br_out t) \<and> seq (br_prog t) = Some x \<and> seq (k v x) = Some y \<and> yields h fs y)"
| "yields h (F_Inline r u k # fs) v =
     (\<exists>t y. h r = Some t \<and> br_func t = None \<and> \<not> br_out t \<and> seq (br_prog t) = Some v \<and> seq (k u v) = Some y \<and> yields h fs y)"
| "yields h (F_Wait r u k # fs) v = False"
| "yields h (F_Exec r # fs) v = (\<exists>t. h r = Some t \<and> seq (br_prog t) = Some v \<and> waits h fs)"
| "waits h [] = True"
| "waits h (F_Wait r u k # fs) =
     (\<exists>t x y. h r = Some t \<and> br_out t \<and> seq (br_prog t) = Some x \<and> seq (k u x) = Some y \<and> yields h fs y)"
| "waits h (F_Call r k # fs) = False"
| "waits h (F_Inline r u k # fs) = False"
| "waits h (F_Exec r # fs) = False"

definition ctl_ok :: "(nat \<Rightarrow> 'v branch option) \<Rightarrow> 'v control \<Rightarrow> 'v frame list \<Rightarrow> bool" where
  "ctl_ok h c fs \<longleftrightarrow>
     (case c of
        Run p \<Rightarrow> (\<exists>v. seq p = Some v \<and> yields h fs v)
      | Returned v \<Rightarrow> yields h fs v
      | Written \<Rightarrow> (\<exists>r gs t v. fs = F_Exec r # gs \<and> h r = Some t \<and> br_result t = Some v \<and> seq (br_prog t) = Some v \<and> waits h gs)
      | Idle \<Rightarrow> waits h fs
      | Unwinding \<Rightarrow> False
      | Dead \<Rightarrow> False)"

text \<open>The deque, its end first: the branches of the newest calls, those of the older ones having been stolen before.\<close>

fun nested :: "'v frame list \<Rightarrow> nat list \<Rightarrow> bool" where
  "nested [] d \<longleftrightarrow> d = []"
| "nested (F_Call r k # fs) d \<longleftrightarrow> d = [] \<or> (\<exists>d'. d = r # d' \<and> nested fs d')"
| "nested (F_Inline r u k # fs) d \<longleftrightarrow> nested fs d"
| "nested (F_Wait r u k # fs) d \<longleftrightarrow> d = []"
| "nested (F_Exec r # fs) d \<longleftrightarrow> nested fs d"

definition born :: "(nat \<Rightarrow> 'v branch option) \<Rightarrow> nat \<Rightarrow> nat" where
  "born h r = (case h r of None \<Rightarrow> 0 | Some t \<Rightarrow> br_born t)"

text \<open>A call is younger than everything below it on its stack.\<close>

fun ages :: "(nat \<Rightarrow> 'v branch option) \<Rightarrow> 'v frame list \<Rightarrow> bool" where
  "ages h [] \<longleftrightarrow> True"
| "ages h (f # fs) \<longleftrightarrow> ages h fs \<and>
     (case frame_branch f of None \<Rightarrow> True | Some r \<Rightarrow> \<forall>x \<in> set (owned fs) \<union> set (execs fs). born h x < born h r)"

definition branch_ok :: "nat \<Rightarrow> 'v branch \<Rightarrow> bool" where
  "branch_ok now t \<longleftrightarrow>
     (br_func t \<noteq> None \<longrightarrow> br_func t = Some (br_prog t) \<and> br_thief t = None \<and> \<not> br_latch t) \<and>
     (br_thief t \<noteq> None \<longrightarrow> \<not> br_latch t) \<and> (br_latch t \<longrightarrow> br_result t = seq (br_prog t)) \<and>
     seq (br_prog t) \<noteq> None \<and> br_born t < now"

definition worker_ok :: "'v fj \<Rightarrow> nat \<Rightarrow> bool" where
  "worker_ok s w \<longleftrightarrow>
     distinct (owned (fj_stack s w)) \<and> distinct (execs (fj_stack s w)) \<and> distinct (fj_deque s w) \<and>
     ctl_ok (fj_heap s) (fj_ctl s w) (fj_stack s w) \<and> nested (fj_stack s w) (rev (fj_deque s w)) \<and>
     ages (fj_heap s) (fj_stack s w) \<and> (fj_workers s \<le> w \<longrightarrow> fj_stack s w = [])"

text \<open>Every branch but the root is in one frame of its owner, in its owner's deque while its closure is, and on its thief's stack.\<close>

definition placed :: "'v fj \<Rightarrow> nat \<Rightarrow> nat \<Rightarrow> bool" where
  "placed s w r \<longleftrightarrow>
     (r \<in> set (owned (fj_stack s w)) \<longleftrightarrow> r \<noteq> 0 \<and> (\<exists>t. fj_heap s r = Some t \<and> br_owner t = w)) \<and>
     (r \<in> set (execs (fj_stack s w)) \<longleftrightarrow> (\<exists>t. fj_heap s r = Some t \<and> br_thief t = Some w)) \<and>
     (r \<in> set (fj_deque s w) \<longleftrightarrow> (\<exists>t. fj_heap s r = Some t \<and> br_func t \<noteq> None \<and> br_owner t = w))"

definition root_ok :: "'v prog \<Rightarrow> 'v fj \<Rightarrow> bool" where
  "root_ok p s \<longleftrightarrow> (\<exists>t. fj_heap s 0 = Some t \<and> br_prog t = p \<and> br_func t = None \<and> (br_thief t = Some 0 \<or> br_latch t))"

definition fj_inv :: "'v prog \<Rightarrow> 'v fj \<Rightarrow> bool" where
  "fj_inv p s \<longleftrightarrow> (\<forall>w. worker_ok s w) \<and> (\<forall>w r. placed s w r) \<and> (\<forall>r t. fj_heap s r = Some t \<longrightarrow> branch_ok (fj_clock s) t) \<and>
     root_ok p s"

section \<open>Every step keeps it\<close>

text \<open>What the steps of others may do to a branch whose frame is on a stack.\<close>

definition evolves :: "'v branch \<Rightarrow> 'v branch \<Rightarrow> bool" where
  "evolves t t' \<longleftrightarrow> br_prog t' = br_prog t \<and> br_born t' = br_born t \<and> (br_func t = None \<longrightarrow> br_func t' = None) \<and>
     (br_out t' \<longleftrightarrow> br_out t \<or> br_func t \<noteq> None \<and> br_func t' = None)"

definition frames_kept :: "(nat \<Rightarrow> 'v branch option) \<Rightarrow> (nat \<Rightarrow> 'v branch option) \<Rightarrow> 'v frame list \<Rightarrow> bool" where
  "frames_kept h h' fs \<longleftrightarrow>
     (\<forall>r \<in> set (owned fs). \<forall>t. h r = Some t \<longrightarrow> (\<exists>t'. h' r = Some t' \<and> evolves t t')) \<and>
     (\<forall>r \<in> set (execs fs). \<forall>t. h r = Some t \<longrightarrow> (\<exists>t'. h' r = Some t' \<and> br_prog t' = br_prog t \<and> br_result t' = br_result t))"

lemma frames_kept_tl: "frames_kept h h' (f # fs) \<Longrightarrow> frames_kept h h' fs"
  by (cases f) (auto simp: frames_kept_def)

lemma frames_kept_top: "frames_kept h h' (f # fs) \<Longrightarrow> frame_branch f = Some r \<Longrightarrow> h r = Some t \<Longrightarrow> \<exists>t'. h' r = Some t' \<and> evolves t t'"
  by (cases f) (auto simp: frames_kept_def)

lemma frames_kept_exec: "frames_kept h h' (F_Exec r # fs) \<Longrightarrow> h r = Some t \<Longrightarrow>
    \<exists>t'. h' r = Some t' \<and> br_prog t' = br_prog t \<and> br_result t' = br_result t"
  by (auto simp: frames_kept_def)

lemma evolves_call: "evolves t t' \<Longrightarrow> br_func t \<noteq> None \<or> br_out t \<Longrightarrow> br_func t' \<noteq> None \<or> br_out t'"
  by (auto simp: evolves_def)

lemma stacks_kept:
  "frames_kept h h' fs \<Longrightarrow> yields h fs v \<Longrightarrow> yields h' fs v"
  "frames_kept h h' fs \<Longrightarrow> waits h fs \<Longrightarrow> waits h' fs"
proof (induction h fs v and h fs rule: yields_waits.induct)
  case (2 h r k fs v)
  then obtain t x y where t: "h r = Some t" "br_func t \<noteq> None \<or> br_out t" "seq (br_prog t) = Some x" "seq (k v x) = Some y" "yields h fs y"
    by auto
  obtain t' where t': "h' r = Some t'" "evolves t t'" using frames_kept_top [OF 2(2) _ t(1)] by auto
  have "yields h' fs y" by (rule 2(1) [OF frames_kept_tl [OF 2(2)] t(5)])
  moreover have "seq (br_prog t') = Some x" using t'(2) t(3) by (simp add: evolves_def)
  ultimately show ?case using t' t(4) evolves_call [OF t'(2) t(2)] by auto
next
  case (3 h r u k fs v)
  then obtain t y where t: "h r = Some t" "br_func t = None" "\<not> br_out t" "seq (br_prog t) = Some v" "seq (k u v) = Some y" "yields h fs y"
    by auto
  obtain t' where t': "h' r = Some t'" "evolves t t'" using frames_kept_top [OF 3(2) _ t(1)] by auto
  have "yields h' fs y" by (rule 3(1) [OF frames_kept_tl [OF 3(2)] t(6)])
  then show ?case using t' t by (auto simp: evolves_def)
next
  case (5 h r fs v)
  then obtain t where t: "h r = Some t" "seq (br_prog t) = Some v" "waits h fs" by auto
  obtain t' where "h' r = Some t'" "br_prog t' = br_prog t" using frames_kept_exec [OF 5(2) t(1)] by auto
  moreover have "waits h' fs" by (rule 5(1) [OF frames_kept_tl [OF 5(2)] t(3)])
  ultimately show ?case using t by auto
next
  case (7 h r u k fs)
  then obtain t x y where t: "h r = Some t" "br_out t" "seq (br_prog t) = Some x" "seq (k u x) = Some y" "yields h fs y" by auto
  obtain t' where t': "h' r = Some t'" "evolves t t'" using frames_kept_top [OF 7(2) _ t(1)] by auto
  have "yields h' fs y" by (rule 7(1) [OF frames_kept_tl [OF 7(2)] t(5)])
  then show ?case using t' t by (auto simp: evolves_def)
qed simp_all


lemma ctl_kept: "frames_kept h h' fs \<Longrightarrow> ctl_ok h c fs \<Longrightarrow> ctl_ok h' c fs"
proof (cases c)
  case Written
  assume k: "frames_kept h h' fs" and c: "ctl_ok h c fs"
  then obtain r gs t v where t: "fs = F_Exec r # gs" "h r = Some t" "br_result t = Some v" "seq (br_prog t) = Some v" "waits h gs"
    using Written by (auto simp: ctl_ok_def)
  obtain t' where "h' r = Some t'" "br_prog t' = br_prog t" "br_result t' = br_result t"
    using frames_kept_exec [of h h' r gs t] k t by auto
  moreover have "waits h' gs" using stacks_kept(2) [OF frames_kept_tl] k t by blast
  ultimately show ?thesis using t Written by (auto simp: ctl_ok_def)
qed (auto simp: ctl_ok_def intro: stacks_kept)

lemma ages_kept: "ages h fs \<Longrightarrow> (\<And>x. x \<in> set (owned fs) \<union> set (execs fs) \<Longrightarrow> born h' x = born h x) \<Longrightarrow> ages h' fs"
proof (induction fs)
  case (Cons f fs)
  then show ?case by (cases f) auto
qed simp

lemma nested_prefix: "nested fs (d @ e) \<Longrightarrow> nested fs d"
proof (induction fs d rule: nested.induct)
  case (2 r k fs d)
  then show ?case by (cases d) auto
qed auto

lemma fj_invD:
  assumes "fj_inv p s"
  shows "worker_ok s w" and "placed s w r" and "fj_heap s r = Some t \<Longrightarrow> branch_ok (fj_clock s) t" and "root_ok p s"
  using assms by (simp_all add: fj_inv_def)

lemma worker_okD:
  assumes "worker_ok s w"
  shows "distinct (owned (fj_stack s w))" and "distinct (execs (fj_stack s w))" and "distinct (fj_deque s w)"
    and "ctl_ok (fj_heap s) (fj_ctl s w) (fj_stack s w)" and "nested (fj_stack s w) (rev (fj_deque s w))"
    and "ages (fj_heap s) (fj_stack s w)" and "fj_workers s \<le> w \<Longrightarrow> fj_stack s w = []"
  using assms by (simp_all add: worker_ok_def)

lemma placedD:
  assumes "fj_inv p s"
  shows "r \<in> set (owned (fj_stack s w)) \<longleftrightarrow> r \<noteq> 0 \<and> (\<exists>t. fj_heap s r = Some t \<and> br_owner t = w)"
    and "r \<in> set (execs (fj_stack s w)) \<longleftrightarrow> (\<exists>t. fj_heap s r = Some t \<and> br_thief t = Some w)"
    and "r \<in> set (fj_deque s w) \<longleftrightarrow> (\<exists>t. fj_heap s r = Some t \<and> br_func t \<noteq> None \<and> br_owner t = w)"
  using fj_invD(2) [OF assms, of w r] by (simp_all add: placed_def)

text \<open>A step of the worker \<open>w\<close> that touches only the branch \<open>r\<close>.\<close>

lemma fj_keep:
  assumes inv: "fj_inv p s"
    and same: "\<And>u. u \<noteq> w \<Longrightarrow> fj_stack s' u = fj_stack s u" "\<And>u. u \<noteq> w \<Longrightarrow> fj_ctl s' u = fj_ctl s u"
      "\<And>x. x \<noteq> r \<Longrightarrow> fj_heap s' x = fj_heap s x" "fj_workers s' = fj_workers s" "fj_clock s \<le> fj_clock s'"
    and deques: "\<And>u. u \<noteq> w \<Longrightarrow> \<exists>ys. fj_deque s u = ys @ fj_deque s' u \<and> set ys \<subseteq> {r}"
    and r: "\<And>t. fj_heap s r = Some t \<Longrightarrow> br_thief t = None \<or> br_thief t = Some w"
      "\<And>t. fj_heap s r = Some t \<Longrightarrow> br_owner t \<noteq> w \<Longrightarrow> \<exists>t'. fj_heap s' r = Some t' \<and> evolves t t'"
      "\<And>t'. fj_heap s' r = Some t' \<Longrightarrow> branch_ok (fj_clock s') t'"
    and me: "worker_ok s' w" "\<And>x. placed s' w x" and others: "\<And>u. u \<noteq> w \<Longrightarrow> placed s' u r" and root: "root_ok p s'"
  shows "fj_inv p s'"
proof -
  note I = fj_invD [OF inv] and P = placedD [OF inv]
  have "worker_ok s' u" if u: "u \<noteq> w" for u
  proof -
    note W = worker_okD [OF I(1) [of u]]
    obtain ys where ys: "fj_deque s u = ys @ fj_deque s' u" using deques [OF u] by blast
    have ne: "r \<notin> set (execs (fj_stack s u))" using r(1) u P(2) by fastforce
    have ow: "\<exists>t'. fj_heap s' r = Some t' \<and> evolves t t'" if "r \<in> set (owned (fj_stack s u))" "fj_heap s r = Some t" for t
      using P(1) [of r u] r(2) [OF that(2)] that u by auto
    have kept: "frames_kept (fj_heap s) (fj_heap s') (fj_stack s u)"
      unfolding frames_kept_def
    proof (intro conjI ballI allI impI)
      fix x t assume x: "x \<in> set (owned (fj_stack s u))" "fj_heap s x = Some t"
      show "\<exists>t'. fj_heap s' x = Some t' \<and> evolves t t'"
        using ow x same(3) [of x] by (cases "x = r") (auto simp: evolves_def)
    next
      fix x t assume x: "x \<in> set (execs (fj_stack s u))" "fj_heap s x = Some t"
      then have "x \<noteq> r" using ne by blast
      then show "\<exists>t'. fj_heap s' x = Some t' \<and> br_prog t' = br_prog t \<and> br_result t' = br_result t" using same(3) x by simp
    qed
    have "born (fj_heap s') x = born (fj_heap s) x" if x: "x \<in> set (owned (fj_stack s u)) \<union> set (execs (fj_stack s u))" for x
    proof (cases "x = r")
      case True
      then obtain t where t: "r \<in> set (owned (fj_stack s u))" "fj_heap s r = Some t" using ne x P(1) [of r u] by auto
      then show ?thesis using ow True by (auto simp: born_def evolves_def)
    next
      case False
      then show ?thesis using same(3) by (simp add: born_def)
    qed
    then have "ages (fj_heap s') (fj_stack s u)" by (rule ages_kept [OF W(6)])
    moreover have "nested (fj_stack s u) (rev (fj_deque s' u))"
      using W(5) nested_prefix [of "fj_stack s u" "rev (fj_deque s' u)" "rev ys"] ys by simp
    ultimately show ?thesis
      using W(1,2,3,7) ctl_kept [OF kept W(4)] same(1,2,4) u ys unfolding worker_ok_def by simp
  qed
  moreover have "placed s' u x" for u x
  proof (cases "u = w \<or> x = r")
    case True
    then show ?thesis using me(2) [of x] others [of u] by (cases "u = w") auto
  next
    case False
    obtain ys where ys: "fj_deque s u = ys @ fj_deque s' u" "set ys \<subseteq> {r}" using deques False by blast
    then have "x \<in> set (fj_deque s' u) \<longleftrightarrow> x \<in> set (fj_deque s u)" using False by auto
    then show ?thesis using I(2) [of u x] same(1,3) False by (simp add: placed_def)
  qed
  moreover have "branch_ok (fj_clock s') t" if t: "fj_heap s' x = Some t" for x t
  proof (cases "x = r")
    case False
    then have "branch_ok (fj_clock s) t" using I(3) t same(3) by simp
    then show ?thesis using same(5) by (simp add: branch_ok_def)
  qed (use r(3) t in simp)
  moreover have "worker_ok s' u" for u using me(1) calculation(1) by (cases "u = w") simp_all
  ultimately show ?thesis using root unfolding fj_inv_def by blast
qed


lemma evolves_refl [simp]: "evolves t t"
  by (auto simp: evolves_def)

lemma rest_kept:
  assumes "\<And>x. x \<noteq> r \<Longrightarrow> h' x = h x" and "r \<notin> set (owned fs)" and "r \<notin> set (execs fs)"
  shows "yields h fs v \<Longrightarrow> yields h' fs v" and "waits h fs \<Longrightarrow> waits h' fs" and "ages h fs \<Longrightarrow> ages h' fs"
proof -
  have same: "h' x = h x" if "x \<in> set (owned fs) \<union> set (execs fs)" for x using assms(1) [of x] assms(2,3) that by auto
  then have k: "frames_kept h h' fs" by (simp add: frames_kept_def)
  show "yields h fs v \<Longrightarrow> yields h' fs v" "waits h fs \<Longrightarrow> waits h' fs" using stacks_kept [OF k] by blast+
  show "ages h fs \<Longrightarrow> ages h' fs"
    by (rule ages_kept) (use same in \<open>auto simp: born_def\<close>)
qed

lemma placedI:
  assumes "r \<in> set (owned (fj_stack s w)) \<longleftrightarrow> r \<noteq> 0 \<and> (\<exists>t. fj_heap s r = Some t \<and> br_owner t = w)"
    and "r \<in> set (execs (fj_stack s w)) \<longleftrightarrow> (\<exists>t. fj_heap s r = Some t \<and> br_thief t = Some w)"
    and "r \<in> set (fj_deque s w) \<longleftrightarrow> (\<exists>t. fj_heap s r = Some t \<and> br_func t \<noteq> None \<and> br_owner t = w)"
  shows "placed s w r"
  using assms unfolding placed_def by blast

lemma calm_keeps:
  assumes inv: "fj_inv p s" and c: "ctl_ok (fj_heap s) c (fj_stack s w)"
  shows "fj_inv p (at_work w c (fj_stack s w) s)"
proof -
  have "worker_ok (at_work w c (fj_stack s w) s) u" for u
    using worker_okD [OF fj_invD(1) [OF inv, of u]] c by (cases "u = w") (simp_all add: worker_ok_def)
  moreover have "placed (at_work w c (fj_stack s w) s) u x" for u x
    using fj_invD(2) [OF inv, of u x] by (simp add: placed_def)
  ultimately show ?thesis using fj_invD(3,4) [OF inv] by (simp add: fj_inv_def root_ok_def)
qed

lemma fork_keeps:
  assumes inv: "fj_inv p s" and c: "fj_ctl s w = Run (Par a b k)" and r: "fj_heap s r = None"
  shows "fj_inv p (par_call w r a b k s)"
proof -
  note I = fj_invD [OF inv] and P = placedD [OF inv] and W = worker_okD [OF fj_invD(1) [OF inv, of w]]
  let ?s = "par_call w r a b k s"
  have e: "fj_stack ?s = (fj_stack s)(w := F_Call r k # fj_stack s w)" "fj_ctl ?s = (fj_ctl s)(w := Run a)"
    "fj_heap ?s = (fj_heap s)(r \<mapsto> branch_new b w (fj_clock s))" "fj_deque ?s = (fj_deque s)(w := fj_deque s w @ [r])"
    "fj_workers ?s = fj_workers s" "fj_clock ?s = fj_clock s + 1"
    by (simp_all add: par_call_def)
  obtain v where v: "seq (Par a b k) = Some v" "yields (fj_heap s) (fj_stack s w) v" using W(4) c by (auto simp: ctl_ok_def)
  then obtain x y where xy: "seq a = Some x" "seq b = Some y" "seq (k x y) = Some v" by (auto split: option.splits)
  have nr: "r \<notin> set (owned (fj_stack s u))" "r \<notin> set (execs (fj_stack s u))" "r \<notin> set (fj_deque s u)" for u using P r by auto
  have r0: "r \<noteq> 0" using I(4) r by (metis option.distinct(1) root_ok_def)
  have n: "br_func (branch_new b w (fj_clock s)) = Some b" "br_prog (branch_new b w (fj_clock s)) = b"
    "br_thief (branch_new b w (fj_clock s)) = None" "br_owner (branch_new b w (fj_clock s)) = w"
    "\<not> br_latch (branch_new b w (fj_clock s))" "br_born (branch_new b w (fj_clock s)) = fj_clock s"
    by (simp_all add: branch_new_def)
  have k: "yields (fj_heap ?s) (fj_stack s w) v" "ages (fj_heap ?s) (fj_stack s w)"
    by (rule rest_kept [of r _ "fj_heap s"]; use nr v(2) W(6) in \<open>simp add: e\<close>)+
  have old: "born (fj_heap ?s) z < fj_clock s" if z: "z \<in> set (owned (fj_stack s w)) \<union> set (execs (fj_stack s w))" for z
  proof -
    obtain t where t: "fj_heap s z = Some t" using P(1,2) [of z w] z by auto
    then show ?thesis using I(3) [OF t] r by (auto simp: born_def e branch_ok_def)
  qed
  have "fj_stack s w \<noteq> []" using v(2) by (cases "fj_stack s w") auto
  then have wk: "w < fj_workers s" using W(7) not_le by blast
  have top: "fj_heap ?s r = Some (branch_new b w (fj_clock s))" by (simp add: e)
  have "ctl_ok (fj_heap ?s) (Run a) (F_Call r k # fj_stack s w)" using top n xy k(1) by (simp add: ctl_ok_def)
  moreover have "ages (fj_heap ?s) (F_Call r k # fj_stack s w)" using old k(2) top n(6) by (simp add: born_def)
  ultimately have "worker_ok ?s w"
    unfolding worker_ok_def e(1,2,4,5) using nr W(1-3,5) wk by simp
  moreover have "placed ?s w x" for x
    using I(2) [of w x] r r0 n by (cases "x = r") (simp_all add: placed_def e nr)
  moreover have "placed ?s u r" if "u \<noteq> w" for u using that nr n by (simp add: placed_def e)
  moreover have "root_ok p ?s" using I(4) r0 by (simp add: root_ok_def e)
  moreover have "branch_ok (fj_clock ?s) (branch_new b w (fj_clock s))" using n xy by (simp add: branch_ok_def e)
  ultimately show ?thesis
    by (intro fj_keep [OF inv, of w ?s r]) (simp_all add: e r)
qed


text \<open>The branch in the top frame.\<close>

lemma top_branch:
  assumes inv: "fj_inv p s" and fs: "fj_stack s w = f # fs" "frame_branch f = Some r"
  obtains t where "fj_heap s r = Some t" "br_owner t = w" "r \<noteq> 0" "r \<notin> set (owned fs)"
    "\<And>u. r \<in> set (execs (fj_stack s u)) \<longleftrightarrow> br_thief t = Some u" "\<And>u. r \<in> set (owned (fj_stack s u)) \<longleftrightarrow> u = w"
    "\<And>u. r \<in> set (fj_deque s u) \<longleftrightarrow> br_func t \<noteq> None \<and> u = w" "branch_ok (fj_clock s) t" "w < fj_workers s" "execs fs = execs (fj_stack s w)"
proof -
  note P = placedD [OF inv] and W = worker_okD [OF fj_invD(1) [OF inv, of w]]
  have "r \<in> set (owned (fj_stack s w))" using fs by simp
  then obtain t where t: "fj_heap s r = Some t" "br_owner t = w" "r \<noteq> 0" using P(1) by blast
  moreover have "r \<notin> set (owned fs)" using W(1) fs by simp
  moreover have "r \<in> set (execs (fj_stack s u)) \<longleftrightarrow> br_thief t = Some u" for u using P(2) t by simp
  moreover have "r \<in> set (owned (fj_stack s u)) \<longleftrightarrow> u = w" for u using P(1) [of r u] t by auto
  moreover have "r \<in> set (fj_deque s u) \<longleftrightarrow> br_func t \<noteq> None \<and> u = w" for u using P(3) [of r u] t by auto
  moreover have "w < fj_workers s" using W(7) fs(1) not_le by fastforce
  moreover have "execs fs = execs (fj_stack s w)" using fs by (cases f) auto
  ultimately show ?thesis using that fj_invD(3) [OF inv t(1)] by blast
qed

lemma join_wait_keeps:
  assumes inv: "fj_inv p s" and c: "fj_ctl s w = Returned v" "fj_stack s w = F_Call r k # fs" and d: "fj_deque s w = []"
  shows "fj_inv p (at_work w Idle (F_Wait r v k # fs) s)"
proof -
  note W = worker_okD [OF fj_invD(1) [OF inv, of w]]
  obtain t where t: "fj_heap s r = Some t" "br_owner t = w" "r \<in> set (fj_deque s w) \<longleftrightarrow> br_func t \<noteq> None"
    by (rule top_branch [OF inv c(2)]) auto
  have fo: "br_func t = None" using t(3) d by simp
  have y: "yields (fj_heap s) (F_Call r k # fs) v" using W(4) c by (simp add: ctl_ok_def)
  let ?s = "at_work w Idle (F_Wait r v k # fs) s"
  have "waits (fj_heap s) (F_Wait r v k # fs)" using y t(1) fo by auto
  then have "worker_ok ?s u" for u
    using worker_okD [OF fj_invD(1) [OF inv, of u]] c d by (cases "u = w") (auto simp: worker_ok_def ctl_ok_def)
  moreover have "placed ?s u x" for u x using fj_invD(2) [OF inv, of u x] c by (cases "u = w") (simp_all add: placed_def)
  ultimately show ?thesis using fj_invD(3,4) [OF inv] by (simp add: fj_inv_def root_ok_def)
qed

lemma join_inline_keeps:
  assumes inv: "fj_inv p s" and c: "fj_ctl s w = Returned v" "fj_stack s w = F_Call r k # fs" and d: "fj_deque s w = d @ [r]"
  shows "\<exists>s'. run_inline w r v k fs (s\<lparr>fj_deque := (fj_deque s)(w := d)\<rparr>) = Some s' \<and> fj_inv p s'"
proof -
  note I = fj_invD [OF inv] and W = worker_okD [OF fj_invD(1) [OF inv, of w]]
  obtain t where t: "fj_heap s r = Some t" "br_owner t = w" "r \<noteq> 0" "r \<notin> set (owned fs)" "\<And>u. r \<in> set (execs (fj_stack s u)) \<longleftrightarrow> br_thief t = Some u"
    "\<And>u. r \<in> set (owned (fj_stack s u)) \<longleftrightarrow> u = w" "\<And>u. r \<in> set (fj_deque s u) \<longleftrightarrow> br_func t \<noteq> None \<and> u = w" "branch_ok (fj_clock s) t"
    "w < fj_workers s" "execs fs = execs (fj_stack s w)"
    by (rule top_branch [OF inv c(2)]) auto
  have fn: "br_func t \<noteq> None" using t(7) [of w] d by simp
  then have f: "br_func t = Some (br_prog t)" "br_thief t = None" "\<not> br_latch t" using t(8) by (auto simp: branch_ok_def)
  obtain x y where xy: "seq (br_prog t) = Some x" "seq (k v x) = Some y" "yields (fj_heap s) fs y"
    using W(4) c t(1) by (auto simp: ctl_ok_def)
  let ?t = "t\<lparr>br_func := None\<rparr>"
  let ?s = "at_work w (Run (br_prog t)) (F_Inline r v k # fs) (s\<lparr>fj_deque := (fj_deque s)(w := d), fj_heap := (fj_heap s)(r \<mapsto> ?t)\<rparr>)"
  have e: "run_inline w r v k fs (s\<lparr>fj_deque := (fj_deque s)(w := d)\<rparr>) = Some ?s" using t(1) f(1) by (simp add: run_inline_def)
  have ne: "r \<notin> set (execs fs)" using t(5,10) f(2) by simp
  have hp: "fj_heap ?s x = fj_heap s x" if "x \<noteq> r" for x using that by simp
  have k: "yields (fj_heap ?s) fs y" "ages (fj_heap ?s) fs"
    using rest_kept [of r "fj_heap ?s" "fj_heap s" fs, OF hp t(4) ne] xy(3) W(6) c(2) by auto
  have bn: "born (fj_heap ?s) z = born (fj_heap s) z" for z using t(1) by (simp add: born_def)
  have "ctl_ok (fj_heap ?s) (Run (br_prog t)) (F_Inline r v k # fs)" using k(1) xy f by (simp add: ctl_ok_def br_out_def)
  moreover have "ages (fj_heap ?s) (F_Inline r v k # fs)" using k(2) W(6) c(2) unfolding ages.simps bn by simp
  moreover have "r \<notin> set d" "distinct d" "nested fs (rev d)" using W(3,5) d c(2) by auto
  ultimately have "worker_ok ?s w" unfolding worker_ok_def using W(1,2) c(2) t(9) by simp
  moreover have "placed ?s w x" for x
    using I(2) [of w x] t(1-3) c(2) d \<open>r \<notin> set d\<close> by (cases "x = r") (auto simp: placed_def)
  moreover have "placed ?s u r" if "u \<noteq> w" for u
    using that I(2) [of u r] t(1,2) by (simp add: placed_def)
  moreover have "root_ok p ?s" using I(4) t(3) by (simp add: root_ok_def)
  moreover have "branch_ok (fj_clock s) ?t" using t(8) f by (simp add: branch_ok_def)
  ultimately have "fj_inv p ?s" using t(1,2) f(2) by (intro fj_keep [OF inv, of w ?s r]) simp_all
  then show ?thesis unfolding e by blast
qed

lemma join_keeps:
  assumes inv: "fj_inv p s" and c: "fj_ctl s w = Returned v" "fj_stack s w = F_Call r k # fs"
  shows "\<exists>s'. par_join w r v k fs s = Some s' \<and> fj_inv p s'"
proof (cases "fj_deque s w = []")
  case True
  then show ?thesis using join_wait_keeps [OF inv c True] by (simp add: par_join_def)
next
  case False
  then obtain d' where "rev (fj_deque s w) = r # d'"
    using worker_okD(5) [OF fj_invD(1) [OF inv, of w]] c(2) by auto
  then have d: "fj_deque s w = rev d' @ [r]" by (metis rev.simps(2) rev_rev_ident)
  show ?thesis using join_inline_keeps [OF inv c d] d by (simp add: par_join_def)
qed

lemma end_keeps:
  assumes inv: "fj_inv p s" and f: "fj_stack s w = f # fs" "frame_branch f = Some r" and nw: "nested fs (rev (fj_deque s w))"
    and t: "fj_heap s r = Some t" "br_func t = None" "br_thief t = None" and y: "seq (k ra rb) = Some y" "yields (fj_heap s) fs y"
  shows "fj_inv p (par_end w r ra rb k fs s)"
proof -
  note I = fj_invD [OF inv] and W = worker_okD [OF fj_invD(1) [OF inv, of w]]
  obtain t' where t': "fj_heap s r = Some t'" "br_owner t' = w" "r \<noteq> 0" "r \<notin> set (owned fs)" "\<And>u. r \<in> set (execs (fj_stack s u)) \<longleftrightarrow> br_thief t' = Some u"
    "\<And>u. r \<in> set (owned (fj_stack s u)) \<longleftrightarrow> u = w" "\<And>u. r \<in> set (fj_deque s u) \<longleftrightarrow> br_func t' \<noteq> None \<and> u = w"
    "w < fj_workers s" "execs fs = execs (fj_stack s w)"
    by (rule top_branch [OF inv f]) auto
  have tt: "t' = t" using t(1) t'(1) by simp
  let ?s = "par_end w r ra rb k fs s"
  have e: "fj_stack ?s = (fj_stack s)(w := fs)" "fj_ctl ?s = (fj_ctl s)(w := Run (k ra rb))" "fj_heap ?s = (fj_heap s)(r := None)"
    "fj_deque ?s = fj_deque s" "fj_workers ?s = fj_workers s" "fj_clock ?s = fj_clock s"
    by (simp_all add: par_end_def)
  have nr: "r \<notin> set (execs (fj_stack s u))" "r \<notin> set (fj_deque s u)" for u using t'(5,7) t(2,3) tt by auto
  have ne: "r \<notin> set (execs fs)" using nr(1) [of w] t'(9) by simp
  have k: "yields (fj_heap ?s) fs y" "ages (fj_heap ?s) fs"
    using rest_kept [of r "fj_heap ?s" "fj_heap s" fs, OF _ t'(4) ne] y(2) W(6) f(1) by (auto simp: e)
  have ow: "owned (fj_stack s w) = r # owned fs" using f by simp
  have "worker_ok ?s w"
    unfolding worker_ok_def e(1,2,4,5) using W(1-3) ow t'(8,9) nw k y(1) by (simp add: ctl_ok_def)
  moreover have "placed ?s w x" for x
    using I(2) [of w x] t'(4) ow ne nr(2) [of w] t'(9) by (cases "x = r") (simp_all add: placed_def e)
  moreover have "placed ?s u r" if "u \<noteq> w" for u using that nr t'(6) by (simp add: placed_def e)
  moreover have "root_ok p ?s" using I(4) t'(3) by (simp add: root_ok_def e)
  ultimately show ?thesis using t t'(2) tt by (intro fj_keep [OF inv, of w ?s r]) (simp_all add: e)
qed


lemma nested_Nil [simp]: "nested fs []"
  by (induction fs "[] :: nat list" rule: nested.induct) auto

lemma inline_end_keeps:
  assumes inv: "fj_inv p s" and c: "fj_ctl s w = Returned v" "fj_stack s w = F_Inline r ra k # fs"
  shows "fj_inv p (par_end w r ra v k fs s)"
proof -
  note W = worker_okD [OF fj_invD(1) [OF inv, of w]]
  obtain t y where t: "fj_heap s r = Some t" "br_func t = None" "\<not> br_out t" "seq (k ra v) = Some y" "yields (fj_heap s) fs y"
    using W(4) c by (auto simp: ctl_ok_def)
  show ?thesis
    by (rule end_keeps [OF inv c(2), where k = k and ra = ra and rb = v]) (use t W(5) c(2) in \<open>auto simp: br_out_def\<close>)
qed

lemma probe_keeps:
  assumes inv: "fj_inv p s" and c: "fj_ctl s w = Idle" "fj_stack s w = F_Wait r ra k # fs" and l: "latch_seen r s"
  shows "\<exists>s'. take_branch_result w r ra k fs s = Some s' \<and> fj_inv p s'"
proof -
  note W = worker_okD [OF fj_invD(1) [OF inv, of w]]
  obtain t x y where t: "fj_heap s r = Some t" "br_out t" "seq (br_prog t) = Some x" "seq (k ra x) = Some y" "yields (fj_heap s) fs y"
    using W(4) c by (auto simp: ctl_ok_def)
  have "br_latch t" using l t(1) by (simp add: latch_seen_def)
  then have b: "br_result t = Some x" "br_thief t = None" "br_func t = None"
    using fj_invD(3) [OF inv t(1)] t(2,3) by (auto simp: branch_ok_def br_out_def)
  have "fj_inv p (par_end w r ra x k fs s)"
    by (rule end_keeps [OF inv c(2), where k = k and ra = ra and rb = x]) (use t b W(5) c(2) in simp_all)
  then show ?thesis using t(1) b(1) by (simp add: take_branch_result_def)
qed

lemma exec_branch:
  assumes inv: "fj_inv p s" and fs: "fj_stack s w = F_Exec r # fs"
  obtains t where "fj_heap s r = Some t" "br_thief t = Some w" "br_func t = None" "\<not> br_latch t" "r \<notin> set (execs fs)"
    "br_out t" "branch_ok (fj_clock s) t"
proof -
  have "r \<in> set (execs (fj_stack s w))" using fs by simp
  then obtain t where t: "fj_heap s r = Some t" "br_thief t = Some w" using placedD(2) [OF inv] by blast
  moreover have "r \<notin> set (execs fs)" using worker_okD(2) [OF fj_invD(1) [OF inv, of w]] fs by simp
  moreover have "branch_ok (fj_clock s) t" by (rule fj_invD(3) [OF inv t(1)])
  ultimately show ?thesis by (intro that [of t]) (auto simp: branch_ok_def br_out_def)
qed

text \<open>The thief \<open>w\<close> changes the branch \<open>r\<close> that it executes.\<close>

lemma exec_kept:
  assumes "\<And>x. x \<noteq> r \<Longrightarrow> h' x = h x" and "h r = Some t" "h' r = Some t'" "evolves t t'" and "r \<notin> set (execs fs)"
  shows "waits h fs \<Longrightarrow> waits h' fs" and "ages h fs \<Longrightarrow> ages h' fs"
proof -
  have "frames_kept h h' fs"
    unfolding frames_kept_def
  proof (intro conjI ballI allI impI)
    fix x u assume "x \<in> set (owned fs)" "h x = Some u"
    then show "\<exists>t'. h' x = Some t' \<and> evolves u t'" using assms(1) [of x] assms(2-4) by (cases "x = r") simp_all
  next
    fix x u assume "x \<in> set (execs fs)" "h x = Some u"
    then show "\<exists>t'. h' x = Some t' \<and> br_prog t' = br_prog u \<and> br_result t' = br_result u"
      using assms(1) [of x] assms(5) by (cases "x = r") simp_all
  qed
  then show "waits h fs \<Longrightarrow> waits h' fs" by (rule stacks_kept)
  have "born h' x = born h x" for x using assms(1) [of x] assms(2-4) by (cases "x = r") (simp_all add: born_def evolves_def)
  then show "ages h fs \<Longrightarrow> ages h' fs" using ages_kept [of h fs h'] by blast
qed

lemma exec_end_keeps:
  assumes inv: "fj_inv p s" and c: "fj_ctl s w = Returned v" "fj_stack s w = F_Exec r # fs"
  shows "\<exists>s'. write_result w r v s = Some s' \<and> fj_inv p s'"
proof -
  note I = fj_invD [OF inv] and W = worker_okD [OF fj_invD(1) [OF inv, of w]]
  obtain t where t: "fj_heap s r = Some t" "br_thief t = Some w" "br_func t = None" "\<not> br_latch t" "r \<notin> set (execs fs)" "br_out t"
    "branch_ok (fj_clock s) t"
    by (rule exec_branch [OF inv c(2)])
  have y: "seq (br_prog t) = Some v" "waits (fj_heap s) fs" using W(4) c t(1) by (auto simp: ctl_ok_def)
  let ?t = "t\<lparr>br_result := Some v\<rparr>"
  let ?s = "s\<lparr>fj_heap := (fj_heap s)(r \<mapsto> ?t), fj_ctl := (fj_ctl s)(w := Written)\<rparr>"
  have e: "write_result w r v s = Some ?s" using t(1) by (simp add: write_result_def)
  have ev: "evolves t ?t" by (auto simp: evolves_def br_out_def)
  have hp: "fj_heap ?s x = fj_heap s x" if "x \<noteq> r" for x using that by simp
  have top: "fj_heap ?s r = Some ?t" by simp
  note k = exec_kept [of r "fj_heap ?s" "fj_heap s" t ?t fs, OF hp t(1) top ev t(5)]
  have "ctl_ok (fj_heap ?s) Written (F_Exec r # fs)" using k(1) y by (simp add: ctl_ok_def)
  moreover have "ages (fj_heap ?s) (F_Exec r # fs)" using k(2) W(6) c(2) by simp
  moreover have "\<not> fj_workers s \<le> w" using W(7) c(2) by auto
  ultimately have "worker_ok ?s w" unfolding worker_ok_def using W(1-3,5) c(2) by simp
  moreover have "placed ?s u x" for u x using I(2) [of u x] t(1) by (cases "x = r") (simp_all add: placed_def)
  moreover have "root_ok p ?s" using I(4) t(1) by (auto simp: root_ok_def)
  moreover have "branch_ok (fj_clock s) ?t" using t(3,4,7) by (simp add: branch_ok_def)
  ultimately have "fj_inv p ?s" using t(1,2) ev by (intro fj_keep [OF inv, of w ?s r]) simp_all
  then show ?thesis unfolding e by blast
qed

lemma signal_keeps:
  assumes inv: "fj_inv p s" and c: "fj_ctl s w = Written" "fj_stack s w = F_Exec r # fs"
  shows "\<exists>s'. set_latch w r fs s = Some s' \<and> fj_inv p s'"
proof -
  note I = fj_invD [OF inv] and W = worker_okD [OF fj_invD(1) [OF inv, of w]]
  obtain t where t: "fj_heap s r = Some t" "br_thief t = Some w" "br_func t = None" "\<not> br_latch t" "r \<notin> set (execs fs)" "br_out t"
    "branch_ok (fj_clock s) t"
    by (rule exec_branch [OF inv c(2)])
  obtain v where y: "br_result t = Some v" "seq (br_prog t) = Some v" "waits (fj_heap s) fs" using W(4) c t(1) by (auto simp: ctl_ok_def)
  let ?t = "t\<lparr>br_latch := True, br_thief := None\<rparr>"
  let ?s = "at_work w Idle fs (s\<lparr>fj_heap := (fj_heap s)(r \<mapsto> ?t)\<rparr>)"
  have e: "set_latch w r fs s = Some ?s" using t(1) by (simp add: set_latch_def)
  have ev: "evolves t ?t" using t(3,6) by (simp add: evolves_def br_out_def)
  have hp: "fj_heap ?s x = fj_heap s x" if "x \<noteq> r" for x using that by simp
  have top: "fj_heap ?s r = Some ?t" by simp
  note k = exec_kept [of r "fj_heap ?s" "fj_heap s" t ?t fs, OF hp t(1) top ev t(5)]
  have "ctl_ok (fj_heap ?s) Idle fs" using k(1) y by (simp add: ctl_ok_def)
  moreover have "ages (fj_heap ?s) fs" using k(2) W(6) c(2) by simp
  moreover have "nested fs (rev (fj_deque s w))" using W(5) c(2) by simp
  moreover have "\<not> fj_workers s \<le> w" using W(7) c(2) by auto
  ultimately have "worker_ok ?s w" unfolding worker_ok_def using W(1-3) c(2) by simp
  moreover have "placed ?s w x" for x using I(2) [of w x] t(1,3,5) c(2) by (cases "x = r") (simp_all add: placed_def)
  moreover have "placed ?s u r" if "u \<noteq> w" for u using that I(2) [of u r] t(1-3) by (simp add: placed_def)
  moreover have "root_ok p ?s" using I(4) t(1) by (auto simp: root_ok_def)
  moreover have "branch_ok (fj_clock s) ?t" using t(3,7) y(1,2) by (simp add: branch_ok_def)
  ultimately have "fj_inv p ?s" using t(1,2) ev by (intro fj_keep [OF inv, of w ?s r]) simp_all
  then show ?thesis unfolding e by blast
qed

lemma steal_keeps:
  assumes inv: "fj_inv p s" and h: "helping w s" and dw: "fj_deque s w = []" and du: "fj_deque s u = r # d"
  shows "\<exists>s'. execute w r (s\<lparr>fj_deque := (fj_deque s)(u := d)\<rparr>) = Some s' \<and> fj_inv p s'"
proof -
  note I = fj_invD [OF inv] and W = worker_okD [OF fj_invD(1) [OF inv, of w]]
  have uw: "u \<noteq> w" using dw du by auto
  have "r \<in> set (fj_deque s u)" using du by simp
  then obtain t where t: "fj_heap s r = Some t" "br_func t \<noteq> None" "br_owner t = u" using placedD(3) [OF inv] by blast
  have b: "br_func t = Some (br_prog t)" "br_thief t = None" "\<not> br_latch t" "branch_ok (fj_clock s) t"
    using I(3) [OF t(1)] t(2) by (auto simp: branch_ok_def)
  obtain x where x: "seq (br_prog t) = Some x" using b(4) by (auto simp: branch_ok_def)
  have r0: "r \<noteq> 0" using I(4) t(1,2) by (metis option.inject root_ok_def)
  have hw: "w < fj_workers s" "fj_ctl s w = Idle" using h by (simp_all add: helping_def)
  let ?t = "t\<lparr>br_func := None, br_thief := Some w\<rparr>"
  let ?s = "at_work w (Run (br_prog t)) (F_Exec r # fj_stack s w) (s\<lparr>fj_deque := (fj_deque s)(u := d), fj_heap := (fj_heap s)(r \<mapsto> ?t)\<rparr>)"
  have e: "execute w r (s\<lparr>fj_deque := (fj_deque s)(u := d)\<rparr>) = Some ?s" using t(1) b(1) by (simp add: execute_def)
  have ev: "evolves t ?t" using b by (simp add: evolves_def br_out_def)
  have ne: "r \<notin> set (execs (fj_stack s v))" for v using placedD(2) [OF inv] t(1) b(2) by simp
  have hp: "fj_heap ?s x = fj_heap s x" if "x \<noteq> r" for x using that by simp
  have top: "fj_heap ?s r = Some ?t" by simp
  note k = exec_kept [of r "fj_heap ?s" "fj_heap s" t ?t "fj_stack s w", OF hp t(1) top ev ne]
  have "ctl_ok (fj_heap ?s) (Run (br_prog t)) (F_Exec r # fj_stack s w)" using k(1) W(4) hw(2) x by (simp add: ctl_ok_def)
  moreover have "ages (fj_heap ?s) (F_Exec r # fj_stack s w)" using k(2) W(6) by simp
  ultimately have "worker_ok ?s w" unfolding worker_ok_def using W(1-3,5) ne uw hw(1) by simp
  moreover have "placed ?s w x" for x using I(2) [of w x] t b(2) uw ne by (cases "x = r") (simp_all add: placed_def)
  moreover have nd: "r \<notin> set d" using worker_okD(3) [OF I(1) [of u]] du by simp
  then have "placed ?s v r" if "v \<noteq> w" for v using that I(2) [of v r] t b(2) by (cases "v = u") (simp_all add: placed_def)
  moreover have "root_ok p ?s" using I(4) r0 by (simp add: root_ok_def)
  moreover have "branch_ok (fj_clock s) ?t" using b by (simp add: branch_ok_def)
  ultimately have "fj_inv p ?s" using t(1) b(2) ev du by (intro fj_keep [OF inv, of w ?s r]) simp_all
  then show ?thesis unfolding e by blast
qed

lemma no_local:
  assumes inv: "fj_inv p s" and h: "helping w s"
  shows "fj_deque s w = []"
  using worker_okD(5) [OF fj_invD(1) [OF inv, of w]] h by (auto simp: helping_def split: list.splits frame.splits)

lemma fj_step_keeps: "fj_step s out \<Longrightarrow> fj_inv p s \<Longrightarrow> \<exists>s'. out = Some s' \<and> fj_inv p s'"
proof (induction rule: fj_step.induct)
  case (fork s w a b k r)
  then show ?case using fork_keeps [OF fork(3,1,2)] by simp
next
  case (leaf s w v)
  then have "ctl_ok (fj_heap s) (Returned v) (fj_stack s w)"
    using worker_okD(4) [OF fj_invD(1), of p s w] by (simp add: ctl_ok_def)
  then show ?case using calm_keeps [OF leaf(2)] by simp
next
  case (boom s w)
  then show ?case using worker_okD(4) [OF fj_invD(1), of p s w] by (simp add: ctl_ok_def)
next
  case (local w s r d)
  then show ?case using no_local by fastforce
next
  case (steal w s u r d)
  then show ?case using steal_keeps by (simp add: pop_front_Some)
next
  case (unwind s w)
  then show ?case using worker_okD(4) [OF fj_invD(1), of p s w] by (simp add: ctl_ok_def)
next
  case (join s w v r k fs)
  show ?case by (rule join_keeps [OF join(3) join(1,2)])
next
  case (inline_end s w v r ra k fs)
  then show ?case using inline_end_keeps [OF inline_end(3,1,2)] by simp
next
  case (exec_end s w v r fs)
  show ?case by (rule exec_end_keeps [OF exec_end(3) exec_end(1,2)])
next
  case (signal s w r fs)
  show ?case by (rule signal_keeps [OF signal(3) signal(1,2)])
next
  case (probe s w r ra k fs)
  show ?case by (rule probe_keeps [OF probe(4) probe(1-3)])
qed

lemma fj_start_inv: "0 < n \<Longrightarrow> seq p = Some v \<Longrightarrow> fj_inv p (fj_start n p)"
  by (simp add: fj_inv_def fj_start_def worker_ok_def placed_def root_ok_def branch_ok_def branch_new_def ctl_ok_def)

lemma fj_reaches_inv: "fj_reaches s m s' \<Longrightarrow> fj_inv p s \<Longrightarrow> fj_inv p s'"
  by (induction rule: fj_reaches.induct) (use fj_step_keeps in blast)+

end
