(* ===== verification/Fork_Join_Results.thy ===== *)
theory Fork_Join_Results
  imports Fork_Join
begin

text \<open>
  What scoped fork-join promises, from the invariant of \<open>Fork_Join\<close>: it computes what the sequential program does, it always goes
  on and it ends; and what a panic does to it.
\<close>

section \<open>Somebody can always go on\<close>

lemma address_free:
  assumes inv: "fj_inv p s"
  shows "\<exists>r. fj_heap s r = None"
proof -
  let ?A = "insert 0 (\<Union>w < fj_workers s. set (owned (fj_stack s w)))"
  have "r \<in> ?A" if t: "fj_heap s r \<noteq> None" for r
  proof (cases "r = 0")
    case False
    then obtain w where w: "r \<in> set (owned (fj_stack s w))" using placedD(1) [OF inv] t by blast
    then have "w < fj_workers s" using worker_okD(7) [OF fj_invD(1) [OF inv, of w]] by (cases "fj_workers s \<le> w") auto
    with w show ?thesis by blast
  qed simp
  moreover have "finite ?A" by simp
  then obtain r where "r \<notin> ?A" using ex_new_if_finite infinite_UNIV_nat by blast
  ultimately show ?thesis by blast
qed

lemma busy_steps:
  assumes inv: "fj_inv p s" and b: "fj_ctl s w \<noteq> Idle"
  shows "\<exists>out. fj_step s out"
proof -
  have c: "ctl_ok (fj_heap s) (fj_ctl s w) (fj_stack s w)" by (rule worker_okD(4) [OF fj_invD(1) [OF inv]])
  show ?thesis
  proof (cases "fj_ctl s w")
    case (Run p')
    obtain r where "fj_heap s r = None" using address_free [OF inv] ..
    then show ?thesis using Run by (cases p') (blast intro: fj_step.intros)+
  next
    case (Returned v)
    then have y: "yields (fj_heap s) (fj_stack s w) v" using c by (simp add: ctl_ok_def)
    show ?thesis
    proof (cases "fj_stack s w")
      case (Cons f fs)
      then show ?thesis using y Returned by (cases f) (auto intro: fj_step.join fj_step.inline_end fj_step.exec_end)
    qed (use y in simp)
  next
    case Written
    then show ?thesis using c by (auto simp: ctl_ok_def intro: fj_step.signal)
  qed (use c b in \<open>auto simp: ctl_ok_def\<close>)
qed

lemma exec_younger: "ages h (f # fs) \<Longrightarrow> frame_branch f = Some r' \<Longrightarrow> r \<in> set (execs fs) \<Longrightarrow> born h r < born h r'"
  by simp

lemma stuck_finished:
  assumes inv: "fj_inv p s" and stuck: "\<nexists>out. fj_step s out"
  shows "fj_finished s"
proof (rule ccontr)
  assume nf: "\<not> fj_finished s"
  note W = worker_okD [OF fj_invD(1) [OF inv]] and P = placedD [OF inv]
  have idle: "fj_ctl s w = Idle" for w using busy_steps [OF inv] stuck by blast
  then have wt: "waits (fj_heap s) (fj_stack s w)" for w using W(4) [of w] by (simp add: ctl_ok_def)
  have top: "\<exists>r u k fs t. fj_stack s w = F_Wait r u k # fs \<and> fj_heap s r = Some t \<and> br_out t \<and> w < fj_workers s" if ne: "fj_stack s w \<noteq> []" for w
  proof -
    obtain f fs where f: "fj_stack s w = f # fs" using ne by (cases "fj_stack s w") auto
    moreover have "w < fj_workers s" using W(7) [of w] ne not_le by blast
    ultimately show ?thesis using wt [of w] by (cases f) auto
  qed
  let ?A = "{w. w < fj_workers s \<and> fj_stack s w \<noteq> []}"
  let ?f = "\<lambda>w. born (fj_heap s) (hd (owned (fj_stack s w)))"
  have fin: "finite (?f ` ?A)" by simp
  have "fj_stack s 0 \<noteq> []" using nf idle by (simp add: fj_finished_def)
  then have "?f ` ?A \<noteq> {}" using top [of 0] by auto
  then have "Max (?f ` ?A) \<in> ?f ` ?A" by (rule Max_in [OF fin])
  then obtain w where "w \<in> ?A" and w: "Max (?f ` ?A) = ?f w" by (rule imageE)
  then have "fj_stack s w \<noteq> []" by simp
  then obtain r u k fs t where r: "fj_stack s w = F_Wait r u k # fs" "fj_heap s r = Some t" "br_out t" using top [of w] by auto
  have "\<not> latch_seen r s" using stuck fj_step.probe [OF idle r(1)] by blast
  then obtain v where v: "br_thief t = Some v" using r(2,3) by (auto simp: latch_seen_def br_out_def)
  have ex: "r \<in> set (execs (fj_stack s v))" using P(2) [of r v] r(2) v by simp
  then have ne: "fj_stack s v \<noteq> []" by auto
  then obtain r' u' k' gs where r': "fj_stack s v = F_Wait r' u' k' # gs" "v < fj_workers s" using top [of v] by auto
  have "born (fj_heap s) r < born (fj_heap s) r'"
    using exec_younger [of "fj_heap s" "F_Wait r' u' k'" gs r' r] W(6) [of v] ex r' by simp
  then have "?f w < ?f v" using r(1) r'(1) by simp
  moreover have "?f v \<le> Max (?f ` ?A)" by (rule Max_ge [OF fin]) (use r'(2) ne in blast)
  ultimately show False using w by simp
qed

section \<open>How long it takes\<close>

text \<open>An upper bound for the steps a program needs: six for a call and its branches' own.\<close>

primrec cost :: "'v prog \<Rightarrow> nat" where
  "cost (Leaf v) = 1"
| "cost Boom = 0"
| "cost (Par a b k) = 6 + cost a + cost b + (\<lambda>u v. cost (k u v)) (the (seq a)) (the (seq b))"

text \<open>What is left to do on a stack, counting a branch with the call that made it until it is taken.\<close>

fun ywork :: "(nat \<Rightarrow> 'v branch option) \<Rightarrow> 'v frame list \<Rightarrow> 'v \<Rightarrow> nat"
  and wwork :: "(nat \<Rightarrow> 'v branch option) \<Rightarrow> 'v frame list \<Rightarrow> nat" where
  "ywork h [] v = 0"
| "ywork h (F_Call r k # fs) v =
     (let t = the (h r); p = k v (the (seq (br_prog t)))
      in 2 + (if br_func t = None then 0 else cost (br_prog t) + 3) + cost p + ywork h fs (the (seq p)))"
| "ywork h (F_Inline r u k # fs) v = 1 + cost (k u v) + ywork h fs (the (seq (k u v)))"
| "ywork h (F_Wait r u k # fs) v = 0"
| "ywork h (F_Exec r # fs) v = 2 + wwork h fs"
| "wwork h (F_Wait r u k # fs) =
     (let p = k u (the (seq (br_prog (the (h r))))) in 1 + cost p + ywork h fs (the (seq p)))"
| "wwork h _ = 0"

definition work :: "(nat \<Rightarrow> 'v branch option) \<Rightarrow> 'v control \<Rightarrow> 'v frame list \<Rightarrow> nat" where
  "work h c fs =
     (case c of
        Run p \<Rightarrow> cost p + ywork h fs (the (seq p))
      | Returned v \<Rightarrow> ywork h fs v
      | Written \<Rightarrow> 1 + wwork h (tl fs)
      | Idle \<Rightarrow> wwork h fs
      | _ \<Rightarrow> 0)"

definition total_work :: "'v fj \<Rightarrow> nat" where
  "total_work s = (\<Sum>w < fj_workers s. work (fj_heap s) (fj_ctl s w) (fj_stack s w))"

text \<open>A stack's work depends on the closures of its own calls only.\<close>

definition tasks_same :: "(nat \<Rightarrow> 'v branch option) \<Rightarrow> (nat \<Rightarrow> 'v branch option) \<Rightarrow> 'v frame list \<Rightarrow> bool" where
  "tasks_same h h' fs \<longleftrightarrow>
     (\<forall>r \<in> set (owned fs). br_prog (the (h' r)) = br_prog (the (h r)) \<and> (br_func (the (h' r)) = None \<longleftrightarrow> br_func (the (h r)) = None))"

lemma work_same_stack:
  "tasks_same h h' fs \<Longrightarrow> ywork h' fs v = ywork h fs v" "tasks_same h h' fs \<Longrightarrow> wwork h' fs = wwork h fs"
  by (induction h fs v and h fs rule: ywork_wwork.induct) (auto simp: tasks_same_def Let_def)

lemma tasks_same_tl: "tasks_same h h' fs \<Longrightarrow> tasks_same h h' (tl fs)"
  by (cases fs; cases "hd fs") (auto simp: tasks_same_def)

lemma work_same: "tasks_same h h' fs \<Longrightarrow> work h' c fs = work h c fs"
  by (cases c) (simp_all add: work_def work_same_stack tasks_same_tl)

lemma sum_change:
  fixes f g :: "nat \<Rightarrow> nat"
  assumes "w < n" and "\<And>u. u < n \<Longrightarrow> u \<noteq> w \<Longrightarrow> g u = f u"
  shows "sum g {..<n} + f w = sum f {..<n} + g w"
proof -
  have "sum g ({..<n} - {w}) = sum f ({..<n} - {w})" by (rule sum.cong) (use assms(2) in auto)
  then show ?thesis using assms(1) by (simp add: sum.remove [of "{..<n}" w])
qed


lemma work_drops:
  assumes w: "w < fj_workers s" and wk: "fj_workers s' = fj_workers s"
    and same: "\<And>u. u \<noteq> w \<Longrightarrow> fj_stack s' u = fj_stack s u" "\<And>u. u \<noteq> w \<Longrightarrow> fj_ctl s' u = fj_ctl s u"
      "\<And>u. u \<noteq> w \<Longrightarrow> tasks_same (fj_heap s) (fj_heap s') (fj_stack s u)"
    and less: "work (fj_heap s') (fj_ctl s' w) (fj_stack s' w) < work (fj_heap s) (fj_ctl s w) (fj_stack s w)"
  shows "total_work s' < total_work s"
proof -
  let ?f = "\<lambda>u. work (fj_heap s) (fj_ctl s u) (fj_stack s u)" and ?g = "\<lambda>u. work (fj_heap s') (fj_ctl s' u) (fj_stack s' u)"
  have "sum ?g {..<fj_workers s} + ?f w = sum ?f {..<fj_workers s} + ?g w"
    by (rule sum_change [OF w]) (simp add: same(1,2) work_same [OF same(3)])
  then show ?thesis using less by (simp add: total_work_def wk)
qed

lemma tasks_sameI:
  assumes "\<And>x. x \<noteq> r \<Longrightarrow> h' x = h x" and "r \<notin> set (owned fs)"
  shows "tasks_same h h' fs"
  using assms by (auto simp: tasks_same_def) metis+

lemma leaf_work:
  assumes "fj_ctl s w = Run (Leaf v)" and "w < fj_workers s"
  shows "total_work (at_work w (Returned v) (fj_stack s w) s) < total_work s"
  by (rule work_drops [OF assms(2)]) (use assms in \<open>simp_all add: tasks_same_def work_def\<close>)

lemma stack_worker: "fj_inv p s \<Longrightarrow> fj_stack s w \<noteq> [] \<Longrightarrow> w < fj_workers s"
  using worker_okD(7) [OF fj_invD(1), of p s w] not_le by blast

lemma running_worker:
  assumes "fj_inv p s" and "fj_ctl s w \<noteq> Idle"
  shows "w < fj_workers s"
proof -
  have "ctl_ok (fj_heap s) (fj_ctl s w) (fj_stack s w)" by (rule worker_okD(4) [OF fj_invD(1) [OF assms(1)]])
  then have "fj_stack s w \<noteq> []" using assms(2) by (cases "fj_ctl s w") (auto simp: ctl_ok_def)
  then show ?thesis by (rule stack_worker [OF assms(1)])
qed

lemma fork_work:
  assumes inv: "fj_inv p s" and c: "fj_ctl s w = Run (Par a b k)" and r: "fj_heap s r = None"
  shows "total_work (par_call w r a b k s) < total_work s"
proof -
  let ?s = "par_call w r a b k s"
  have e: "fj_stack ?s = (fj_stack s)(w := F_Call r k # fj_stack s w)" "fj_ctl ?s = (fj_ctl s)(w := Run a)"
    "fj_heap ?s = (fj_heap s)(r \<mapsto> branch_new b w (fj_clock s))" "fj_workers ?s = fj_workers s"
    by (simp_all add: par_call_def)
  have nr: "r \<notin> set (owned (fj_stack s u))" for u using placedD(1) [OF inv] r by simp
  have ts: "tasks_same (fj_heap s) (fj_heap ?s) (fj_stack s u)" for u by (rule tasks_sameI [OF _ nr]) (simp add: e)
  obtain v where "seq (Par a b k) = Some v" using worker_okD(4) [OF fj_invD(1) [OF inv, of w]] c by (auto simp: ctl_ok_def)
  then obtain x y where xy: "seq a = Some x" "seq b = Some y" "seq (k x y) = Some v" by (auto split: option.splits)
  have n: "br_func (branch_new b w (fj_clock s)) = Some b" "br_prog (branch_new b w (fj_clock s)) = b" by (simp_all add: branch_new_def)
  have t: "fj_heap ?s r = Some (branch_new b w (fj_clock s))" by (simp add: e)
  have "work (fj_heap ?s) (Run a) (F_Call r k # fj_stack s w) < work (fj_heap s) (fj_ctl s w) (fj_stack s w)"
    unfolding work_def c using xy n t by (simp add: Let_def work_same_stack [OF ts])
  then show ?thesis
    by (intro work_drops [OF running_worker [OF inv, of w]]) (use c ts in \<open>simp_all add: e(1,2,4)\<close>)
qed

lemma join_work:
  assumes inv: "fj_inv p s" and c: "fj_ctl s w = Returned v" "fj_stack s w = F_Call r k # fs" and s': "par_join w r v k fs s = Some s'"
  shows "total_work s' < total_work s"
proof -
  note W = worker_okD [OF fj_invD(1) [OF inv, of w]]
  obtain t where t: "fj_heap s r = Some t" "r \<notin> set (owned fs)" "\<And>u. r \<in> set (owned (fj_stack s u)) \<longleftrightarrow> u = w"
    "\<And>u. r \<in> set (fj_deque s u) \<longleftrightarrow> br_func t \<noteq> None \<and> u = w" "branch_ok (fj_clock s) t"
    by (rule top_branch [OF inv c(2)]) auto
  have w: "w < fj_workers s" by (rule stack_worker [OF inv]) (simp add: c)
  obtain x y where xy: "seq (br_prog t) = Some x" "seq (k v x) = Some y" using W(4) c t(1) by (auto simp: ctl_ok_def)
  show ?thesis
  proof (cases "fj_deque s w = []")
    case True
    then have s: "s' = at_work w Idle (F_Wait r v k # fs) s" using s' by (simp add: par_join_def)
    show ?thesis
      unfolding s by (rule work_drops [OF w]) (use c t(1) in \<open>simp_all add: tasks_same_def work_def Let_def\<close>)
  next
    case False
    then obtain d' where "rev (fj_deque s w) = r # d'" using W(5) c(2) by auto
    then have d: "fj_deque s w = rev d' @ [r]" by (metis rev.simps(2) rev_rev_ident)
    then have f: "br_func t = Some (br_prog t)" using t(4) [of w] t(5) by (auto simp: branch_ok_def)
    have s: "s' = at_work w (Run (br_prog t)) (F_Inline r v k # fs)
        (s\<lparr>fj_deque := (fj_deque s)(w := rev d'), fj_heap := (fj_heap s)(r \<mapsto> t\<lparr>br_func := None\<rparr>)\<rparr>)"
      using s' d t(1) f by (simp add: par_join_def run_inline_def)
    have ts: "tasks_same (fj_heap s) (fj_heap s') fs" by (rule tasks_sameI [OF _ t(2)]) (simp add: s)
    have "work (fj_heap s') (Run (br_prog t)) (F_Inline r v k # fs) < work (fj_heap s) (fj_ctl s w) (fj_stack s w)"
      unfolding work_def c using xy t(1) f by (simp add: Let_def work_same_stack [OF ts])
    moreover have "tasks_same (fj_heap s) (fj_heap s') (fj_stack s u)" if u: "u \<noteq> w" for u
      by (rule tasks_sameI [of r]) (use u t(3) in \<open>simp_all add: s\<close>)
    ultimately show ?thesis by (intro work_drops [OF w]) (simp_all add: s)
  qed
qed

lemma end_work:
  assumes inv: "fj_inv p s" and f: "fj_stack s w = f # fs" "frame_branch f = Some r"
    and less: "cost (k ra rb) + ywork (fj_heap s) fs (the (seq (k ra rb))) < work (fj_heap s) (fj_ctl s w) (fj_stack s w)"
  shows "total_work (par_end w r ra rb k fs s) < total_work s"
proof -
  obtain t where t: "r \<notin> set (owned fs)" "\<And>u. r \<in> set (owned (fj_stack s u)) \<longleftrightarrow> u = w" by (rule top_branch [OF inv f]) auto
  let ?s = "par_end w r ra rb k fs s"
  have w: "w < fj_workers s" by (rule stack_worker [OF inv]) (simp add: f)
  have ts: "tasks_same (fj_heap s) (fj_heap ?s) fs" by (rule tasks_sameI [OF _ t(1)]) (simp add: par_end_def)
  have "tasks_same (fj_heap s) (fj_heap ?s) (fj_stack s u)" if u: "u \<noteq> w" for u
    by (rule tasks_sameI [of r]) (use u t(2) in \<open>simp_all add: par_end_def\<close>)
  moreover have "work (fj_heap ?s) (Run (k ra rb)) fs < work (fj_heap s) (fj_ctl s w) (fj_stack s w)"
    using less by (simp add: work_def work_same_stack [OF ts])
  ultimately show ?thesis by (intro work_drops [OF w]) (simp_all add: par_end_def)
qed

lemma exec_work:
  assumes inv: "fj_inv p s" and f: "fj_stack s w = F_Exec r # fs" and t: "fj_heap s r = Some t" "br_prog t' = br_prog t" "br_func t' = br_func t"
    and s': "fj_heap s' = (fj_heap s)(r \<mapsto> t')" "fj_workers s' = fj_workers s" "\<And>u. u \<noteq> w \<Longrightarrow> fj_stack s' u = fj_stack s u"
      "\<And>u. u \<noteq> w \<Longrightarrow> fj_ctl s' u = fj_ctl s u"
    and less: "work (fj_heap s) (fj_ctl s' w) (fj_stack s' w) < work (fj_heap s) (fj_ctl s w) (fj_stack s w)"
  shows "total_work s' < total_work s"
proof -
  have w: "w < fj_workers s" by (rule stack_worker [OF inv]) (simp add: f)
  have ts: "tasks_same (fj_heap s) (fj_heap s') gs" for gs using t by (simp add: tasks_same_def s'(1))
  show ?thesis by (rule work_drops [OF w s'(2-4) ts]) (use less in \<open>simp_all add: work_same [OF ts]\<close>)
qed

text \<open>Stealing a branch moves its cost from the stack of its call to the thief's.\<close>

lemma stolen_work:
  assumes t: "h r = Some t" "br_func t \<noteq> None" "br_prog t' = br_prog t" "br_func t' = None"
  shows "yields h fs v \<Longrightarrow> distinct (owned fs) \<Longrightarrow> r \<in> set (owned fs) \<Longrightarrow>
      ywork h fs v = ywork (h(r \<mapsto> t')) fs v + cost (br_prog t) + 3"
    and "waits h fs \<Longrightarrow> distinct (owned fs) \<Longrightarrow> r \<in> set (owned fs) \<Longrightarrow>
      wwork h fs = wwork (h(r \<mapsto> t')) fs + cost (br_prog t) + 3"
  using t
proof (induction h fs v and h fs rule: yields_waits.induct)
  case (2 h x k fs v)
  then obtain u a b where u: "h x = Some u" "seq (br_prog u) = Some a" "seq (k v a) = Some b" "yields h fs b" by auto
  show ?case
  proof (cases "x = r")
    case True
    then have "tasks_same h (h(r \<mapsto> t')) fs" using 2(3) by (intro tasks_sameI [of r]) simp_all
    then have e: "ywork (h(r \<mapsto> t')) fs b = ywork h fs b" by (rule work_same_stack)
    show ?thesis using True 2(5-) u e by (simp add: Let_def fun_upd_same del: fun_upd_apply)
  next
    case False
    then have "ywork h fs b = ywork (h(r \<mapsto> t')) fs b + cost (br_prog t) + 3" using 2(3-) u by (intro 2(1)) simp_all
    then show ?thesis using False u by (simp add: Let_def fun_upd_other del: fun_upd_apply)
  qed
next
  case (3 h x u k fs v)
  then obtain z b where z: "h x = Some z" "br_func z = None" "seq (k u v) = Some b" "yields h fs b" by auto
  then have ne: "x \<noteq> r" using 3(5,6) by auto
  then have "ywork h fs b = ywork (h(r \<mapsto> t')) fs b + cost (br_prog t) + 3" using 3(3-) z by (intro 3(1)) simp_all
  then show ?case using z by (simp del: fun_upd_apply)
next
  case (7 h x u k fs)
  then obtain z a b where z: "h x = Some z" "br_out z" "seq (br_prog z) = Some a" "seq (k u a) = Some b" "yields h fs b" by auto
  then have ne: "x \<noteq> r" using 7(5,6) by (auto simp: br_out_def)
  then have "ywork h fs b = ywork (h(r \<mapsto> t')) fs b + cost (br_prog t) + 3" using 7(3-) z by (intro 7(1)) simp_all
  then show ?case using z ne by (simp add: Let_def fun_upd_other del: fun_upd_apply)
qed auto

lemma stolen_stack_work:
  assumes c: "ctl_ok h c fs" and d: "distinct (owned fs)" "r \<in> set (owned fs)"
    and t: "h r = Some t" "br_func t \<noteq> None" "br_prog t' = br_prog t" "br_func t' = None"
  shows "work h c fs = work (h(r \<mapsto> t')) c fs + cost (br_prog t) + 3"
proof (cases c)
  case (Run p)
  then obtain v where "seq p = Some v" "yields h fs v" using c by (auto simp: ctl_ok_def)
  then show ?thesis using stolen_work(1) [of h r t t' fs v] t d Run by (simp add: work_def)
next
  case (Returned v)
  then show ?thesis using stolen_work(1) [of h r t t' fs v] t d c by (simp add: work_def ctl_ok_def)
next
  case Written
  then obtain x gs where "fs = F_Exec x # gs" "waits h gs" using c by (auto simp: ctl_ok_def)
  then show ?thesis using stolen_work(2) [of h r t t' gs] t d Written by (simp add: work_def)
next
  case Idle
  then show ?thesis using stolen_work(2) [of h r t t' fs] t d c by (simp add: work_def ctl_ok_def)
qed (use c in \<open>simp_all add: ctl_ok_def\<close>)

lemma steal_work:
  assumes inv: "fj_inv p s" and h: "helping w s" and dw: "fj_deque s w = []" and du: "fj_deque s u = r # d"
    and s': "execute w r (s\<lparr>fj_deque := (fj_deque s)(u := d)\<rparr>) = Some s'"
  shows "total_work s' < total_work s"
proof -
  note I = fj_invD [OF inv] and P = placedD [OF inv]
  have uw: "u \<noteq> w" using dw du by auto
  have "r \<in> set (fj_deque s u)" using du by simp
  then obtain t where t: "fj_heap s r = Some t" "br_func t \<noteq> None" "br_owner t = u" using P(3) by blast
  then have f: "br_func t = Some (br_prog t)" using I(3) [OF t(1)] by (auto simp: branch_ok_def)
  have r0: "r \<noteq> 0" using I(4) t(1,2) by (metis option.inject root_ok_def)
  have ow: "r \<in> set (owned (fj_stack s v)) \<longleftrightarrow> v = u" for v using P(1) [of r v] t r0 by auto
  let ?t = "t\<lparr>br_func := None, br_thief := Some w\<rparr>" and ?h = "(fj_heap s)(r \<mapsto> t\<lparr>br_func := None, br_thief := Some w\<rparr>)"
  have s: "s' = at_work w (Run (br_prog t)) (F_Exec r # fj_stack s w) (s\<lparr>fj_deque := (fj_deque s)(u := d), fj_heap := ?h\<rparr>)"
    using s' t(1) f by (simp add: execute_def)
  have ts: "tasks_same (fj_heap s) ?h (fj_stack s v)" if "v \<noteq> u" for v
    by (rule tasks_sameI [of r]) (use that ow in simp_all)
  have hw: "w < fj_workers s" "fj_ctl s w = Idle" using h by (simp_all add: helping_def)
  have uu: "u < fj_workers s" by (rule stack_worker [OF inv]) (use ow [of u] in auto)
  let ?f = "\<lambda>v. work (fj_heap s) (fj_ctl s v) (fj_stack s v)" and ?g = "\<lambda>v. work ?h (fj_ctl s v) (fj_stack s v)"
    and ?k = "\<lambda>v. work ?h (fj_ctl s' v) (fj_stack s' v)"
  have "sum ?g {..<fj_workers s} + ?f u = sum ?f {..<fj_workers s} + ?g u"
    by (rule sum_change [OF uu]) (simp add: work_same [OF ts])
  moreover have "sum ?k {..<fj_workers s} + ?g w = sum ?g {..<fj_workers s} + ?k w"
    by (rule sum_change [OF hw(1)]) (simp add: s)
  moreover have "?f u = ?g u + cost (br_prog t) + 3" 
    by (rule stolen_stack_work [OF worker_okD(4,1) [OF I(1)] _ t(1,2)]) (use ow in simp_all)
  moreover have "?k w = cost (br_prog t) + 2 + ?g w" using hw(2) by (simp add: s work_def)
  moreover have "total_work s' = sum ?k {..<fj_workers s}" "total_work s = sum ?f {..<fj_workers s}"
    by (simp_all add: total_work_def s)
  ultimately show ?thesis by linarith
qed


lemma step_work:
  assumes st: "fj_step s out" and inv: "fj_inv p s" and s': "out = Some s'"
  shows "total_work s' < total_work s"
  using st
proof cases
  case (fork w a b k r)
  then show ?thesis using fork_work [OF inv] s' by simp
next
  case (leaf w v)
  then show ?thesis using leaf_work [OF _ running_worker [OF inv, of w]] s' by simp
next
  case (join w v r k fs)
  then show ?thesis using join_work [OF inv] s' by simp
next
  case (inline_end w v r ra k fs)
  have "total_work (par_end w r ra v k fs s) < total_work s"
    by (rule end_work [OF inv inline_end(3)]) (use inline_end in \<open>simp_all add: work_def\<close>)
  then show ?thesis using inline_end(1) s' by simp
next
  case (exec_end w v r fs)
  obtain t where t: "fj_heap s r = Some t" by (rule exec_branch [OF inv exec_end(3)])
  have s: "s' = s\<lparr>fj_heap := (fj_heap s)(r \<mapsto> t\<lparr>br_result := Some v\<rparr>), fj_ctl := (fj_ctl s)(w := Written)\<rparr>"
    using exec_end(1) s' t by (simp add: write_result_def)
  show ?thesis
    by (rule exec_work [OF inv exec_end(3) t, where t' = "t\<lparr>br_result := Some v\<rparr>"]) (use exec_end(2,3) in \<open>simp_all add: s work_def\<close>)
next
  case (signal w r fs)
  obtain t where t: "fj_heap s r = Some t" by (rule exec_branch [OF inv signal(3)])
  have s: "s' = at_work w Idle fs (s\<lparr>fj_heap := (fj_heap s)(r \<mapsto> t\<lparr>br_latch := True, br_thief := None\<rparr>)\<rparr>)"
    using signal(1) s' t by (simp add: set_latch_def)
  show ?thesis
    by (rule exec_work [OF inv signal(3) t, where t' = "t\<lparr>br_latch := True, br_thief := None\<rparr>"]) (use signal(2,3) in \<open>simp_all add: s work_def\<close>)
next
  case (probe w r ra k fs)
  obtain t x where t: "fj_heap s r = Some t" "br_out t" "seq (br_prog t) = Some x"
    using worker_okD(4) [OF fj_invD(1) [OF inv, of w]] probe by (auto simp: ctl_ok_def)
  then have "br_result t = Some x" using probe(4) fj_invD(3) [OF inv t(1)] by (simp add: latch_seen_def branch_ok_def)
  then have s: "s' = par_end w r ra x k fs s" using probe(1) s' t(1) by (simp add: take_branch_result_def)
  show ?thesis unfolding s
    by (rule end_work [OF inv probe(3)]) (use probe t in \<open>simp_all add: work_def Let_def\<close>)
next
  case (local w r d)
  then show ?thesis using no_local [OF inv] by simp
next
  case (steal w u r d)
  then show ?thesis using steal_work [OF inv steal(2,3)] s' by (simp add: pop_front_Some)
next
  case (boom w)
  then show ?thesis using worker_okD(4) [OF fj_invD(1) [OF inv, of w]] by (simp add: ctl_ok_def)
next
  case (unwind w)
  then show ?thesis using worker_okD(4) [OF fj_invD(1) [OF inv, of w]] by (simp add: ctl_ok_def)
qed

lemma reaches_work: "fj_reaches s m s' \<Longrightarrow> fj_inv p s \<Longrightarrow> total_work s' + m \<le> total_work s"
proof (induction rule: fj_reaches.induct)
  case (fj_on s m s' s'')
  then show ?case using step_work [OF fj_on(2) fj_reaches_inv [OF fj_on(1,4)]] by fastforce
qed simp

lemma start_work: "0 < n \<Longrightarrow> total_work (fj_start n p) = cost p + 2"
proof -
  assume n: "0 < n"
  have "work (fj_heap (fj_start n p)) (fj_ctl (fj_start n p) w) (fj_stack (fj_start n p) w) = (if w = 0 then cost p + 2 else 0)" for w
    by (simp add: fj_start_def work_def)
  then show ?thesis using n by (simp add: total_work_def) (simp add: fj_start_def)
qed

section \<open>Fork-join is sequential\<close>

text \<open>
  C11: a program of scoped \<open>parallel_call\<close>s whose closures do not panic does what it does when every call is two ordinary
  ones, whatever the workers steal.  No \<open>expect\<close> fails (no branch is executed twice, no latch is set without a
  result) and no freed branch is read; a call that takes its branch back finds it at the end of its deque or finds the deque
  empty; a worker that waits has an empty deque; and when the root has been executed, its result is the sequential one.
\<close>

theorem fork_join_sequential:
  assumes "seq p = Some v" and "0 < n" and "fj_reaches (fj_start n p) m s"
  shows "\<not> fj_step s None \<and>
    (\<forall>w r x k fs. fj_ctl s w = Returned x \<and> fj_stack s w = F_Call r k # fs \<longrightarrow> fj_deque s w = [] \<or> last (fj_deque s w) = r) \<and>
    (\<forall>w. helping w s \<longrightarrow> fj_deque s w = []) \<and>
    (\<forall>w r. r \<in> set (fj_deque s w) \<longrightarrow> (\<exists>t. fj_heap s r = Some t \<and> br_func t = Some (br_prog t))) \<and>
    (fj_finished s \<longrightarrow> run_result s = Some v)"
proof -
  have inv: "fj_inv p s" by (rule fj_reaches_inv [OF assms(3) fj_start_inv [OF assms(2,1)]])
  have 1: "\<not> fj_step s None" using fj_step_keeps [OF _ inv] by blast
  have 2: "fj_deque s w = [] \<or> last (fj_deque s w) = r" if "fj_stack s w = F_Call r k # fs" for w r k fs
    using worker_okD(5) [OF fj_invD(1) [OF inv, of w]] that by auto
  have 4: "\<exists>t. fj_heap s r = Some t \<and> br_func t = Some (br_prog t)" if "r \<in> set (fj_deque s w)" for w r
    using placedD(3) [OF inv, of r w] that fj_invD(3) [OF inv, of r] by (auto simp: branch_ok_def)
  have 5: "run_result s = Some v" if f: "fj_finished s"
  proof -
    obtain t where t: "fj_heap s 0 = Some t" "br_prog t = p" "br_thief t = Some 0 \<or> br_latch t" using fj_invD(4) [OF inv] by (auto simp: root_ok_def)
    have "br_thief t \<noteq> Some 0" using placedD(2) [OF inv, of 0 0] t(1) f by (simp add: fj_finished_def)
    then show ?thesis using t fj_invD(3) [OF inv t(1)] assms(1) by (simp add: run_result_def branch_ok_def)
  qed
  show ?thesis using 1 2 4 5 no_local [OF inv] by auto
qed

text \<open>
  C12: it also ends.  However the workers are scheduled, a program whose closures do not panic takes at most
  \<open>cost p + 2\<close> steps (a round of the waiting loop that finds nothing is no step), and as long as the root has not been executed
  some worker has a step to make: no set of workers wait for each other's branches.
\<close>

theorem fork_join_finishes:
  assumes "seq p = Some v" and "0 < n" and "fj_reaches (fj_start n p) m s"
  shows "m \<le> cost p + 2 \<and> (fj_finished s \<or> (\<exists>s'. fj_step s (Some s')))"
proof -
  have start: "fj_inv p (fj_start n p)" by (rule fj_start_inv [OF assms(2,1)])
  have inv: "fj_inv p s" by (rule fj_reaches_inv [OF assms(3) start])
  have "m \<le> cost p + 2" using reaches_work [OF assms(3) start] start_work [OF assms(2), of p] by simp
  moreover have "fj_finished s \<or> (\<exists>s'. fj_step s (Some s'))" using stuck_finished [OF inv] fj_step_keeps [OF _ inv] by blast
  ultimately show ?thesis by blast
qed

lemma fj_on_out: "fj_reaches s m s' \<Longrightarrow> fj_step s' out \<Longrightarrow> out = Some s'' \<Longrightarrow> fj_reaches s (Suc m) s''"
  using fj_on by simp

lemma waits_forever:
  assumes "\<And>w. fj_ctl s w = (if w = 1 then Dead else Idle)" "\<And>w. fj_stack s w = (if w = 0 then [F_Wait 1 v k, F_Exec 0] else [])"
    "\<And>w. fj_deque s w = []" "fj_workers s = 2" "\<not> latch_seen 1 s"
  shows "\<not> fj_step s out" and "\<not> fj_finished s"
proof -
  show "\<not> fj_step s out" by (rule notI, erule fj_step.cases) (use assms in \<open>auto simp: pop_simps split: if_splits\<close>)
qed (use assms in \<open>simp add: fj_finished_def\<close>)

text \<open>
  C40: a closure that panics breaks this.  If the first branch of a call panics, unwinding frees the frame that holds the second
  while its reference is still in the deque, and a worker that steals it reads freed memory.  If a stolen branch panics, its thief dies without
  setting the latch, and the call waits for ever.
\<close>

theorem fork_join_panic:
  "(\<exists>m s. fj_reaches (fj_start 2 (Par Boom b k)) m s \<and> fj_step s None) \<and>
   (\<exists>m s. fj_reaches (fj_start 2 (Par (Leaf v) Boom k)) m s \<and> \<not> fj_finished s \<and> (\<nexists>out. fj_step s out))"
proof
  let ?s0 = "fj_start 2 (Par Boom b k)"
  let ?s1 = "par_call 0 1 Boom b k ?s0"
  let ?s2 = "at_work 0 Unwinding (fj_stack ?s1 0) ?s1"
  have "fj_reaches ?s0 (Suc 0) ?s1" by (rule fj_on [OF fj_here fork]) (simp_all add: fj_start_def)
  then have "fj_reaches ?s0 (Suc (Suc 0)) ?s2" by (rule fj_on [OF _ boom]) (simp add: par_call_def)
  then have r: "fj_reaches ?s0 (Suc (Suc (Suc 0))) (unwind 0 ?s2)" by (rule fj_on [OF _ fj_step.unwind]) simp
  have q: "fj_step (unwind 0 ?s2) (execute 1 1 ((unwind 0 ?s2)\<lparr>fj_deque := (fj_deque (unwind 0 ?s2))(0 := [])\<rparr>))"
    by (rule fj_step.steal) (simp_all add: helping_def unwind_def par_call_def fj_start_def)
  have e: "execute 1 1 ((unwind 0 ?s2)\<lparr>fj_deque := (fj_deque (unwind 0 ?s2))(0 := [])\<rparr>) = None"
    by (simp add: execute_def unwind_def par_call_def fj_start_def)
  have "fj_step (unwind 0 ?s2) None" using q unfolding e .
  with r show "\<exists>m s. fj_reaches ?s0 m s \<and> fj_step s None" by blast
next
  let ?s0 = "fj_start 2 (Par (Leaf v) Boom k)"
  let ?s1 = "par_call 0 1 (Leaf v) Boom k ?s0"
  let ?s2 = "at_work 1 (Run Boom) [F_Exec 1] (?s1\<lparr>fj_deque := (fj_deque ?s1)(0 := []),
      fj_heap := (fj_heap ?s1)(1 \<mapsto> (branch_new Boom 0 1)\<lparr>br_func := None, br_thief := Some 1\<rparr>)\<rparr>)"
  let ?s3 = "at_work 1 Unwinding (fj_stack ?s2 1) ?s2"
  let ?s4 = "unwind 1 (unwind 1 ?s3)"
  let ?s5 = "at_work 0 (Returned v) (fj_stack ?s4 0) ?s4"
  let ?s6 = "at_work 0 Idle [F_Wait 1 v k, F_Exec 0] ?s5"
  have r1: "fj_reaches ?s0 (Suc 0) ?s1" by (rule fj_on [OF fj_here fork]) (simp_all add: fj_start_def)
  have q1: "fj_step ?s1 (execute 1 1 (?s1\<lparr>fj_deque := (fj_deque ?s1)(0 := [])\<rparr>))"
    by (rule fj_step.steal) (simp_all add: helping_def par_call_def fj_start_def)
  have e1: "execute 1 1 (?s1\<lparr>fj_deque := (fj_deque ?s1)(0 := [])\<rparr>) = Some ?s2"
    by (simp add: execute_def par_call_def fj_start_def branch_new_def)
  have "fj_reaches ?s0 (Suc (Suc 0)) ?s2" by (rule fj_on_out [OF r1 q1 e1])
  then have "fj_reaches ?s0 (Suc (Suc (Suc 0))) ?s3" by (rule fj_on [OF _ boom]) simp
  then have "fj_reaches ?s0 (Suc (Suc (Suc (Suc 0)))) (unwind 1 ?s3)" by (rule fj_on [OF _ fj_step.unwind]) simp
  then have "fj_reaches ?s0 (Suc (Suc (Suc (Suc (Suc 0))))) ?s4" by (rule fj_on [OF _ fj_step.unwind]) (simp add: unwind_def)
  then have r5: "fj_reaches ?s0 (Suc (Suc (Suc (Suc (Suc (Suc 0)))))) ?s5"
    by (rule fj_on [OF _ leaf]) (simp add: unwind_def par_call_def)
  have q5: "fj_step ?s5 (par_join 0 1 v k [F_Exec 0] ?s5)"
    by (rule fj_step.join) (simp_all add: unwind_def par_call_def fj_start_def)
  have e5: "par_join 0 1 v k [F_Exec 0] ?s5 = Some ?s6"
    by (simp add: par_join_def unwind_def par_call_def fj_start_def)
  have r6: "fj_reaches ?s0 (Suc (Suc (Suc (Suc (Suc (Suc (Suc 0))))))) ?s6" by (rule fj_on_out [OF r5 q5 e5])
  have "fj_ctl ?s6 w = (if w = 1 then Dead else Idle)" "fj_stack ?s6 w = (if w = 0 then [F_Wait 1 v k, F_Exec 0] else [])"
    "fj_deque ?s6 w = []" "fj_workers ?s6 = 2" "\<not> latch_seen 1 ?s6" for w
    by (simp_all add: unwind_def par_call_def fj_start_def latch_seen_def branch_new_def)
  then have "\<not> fj_step ?s6 out" "\<not> fj_finished ?s6" for out by (rule waits_forever)+
  with r6 show "\<exists>m s. fj_reaches ?s0 m s \<and> \<not> fj_finished s \<and> (\<nexists>out. fj_step s out)" by blast
qed

text \<open>One worker adds two numbers.\<close>

lemma fork_join_example:
  "\<exists>m s. fj_reaches (fj_start 1 (Par (Leaf 1) (Leaf 2) (\<lambda>x y. Leaf (x + y :: nat)))) m s \<and> fj_finished s"
proof -
  let ?k = "\<lambda>x y. Leaf (x + y :: nat)"
  let ?s0 = "fj_start 1 (Par (Leaf 1) (Leaf 2) ?k)"
  let ?s1 = "par_call 0 1 (Leaf 1) (Leaf 2) ?k ?s0"
  let ?s2 = "at_work 0 (Returned 1) (fj_stack ?s1 0) ?s1"
  let ?s3 = "at_work 0 (Run (Leaf 2)) [F_Inline 1 1 ?k, F_Exec 0]
      (?s2\<lparr>fj_deque := (fj_deque ?s2)(0 := []), fj_heap := (fj_heap ?s2)(1 \<mapsto> (branch_new (Leaf 2) 0 1)\<lparr>br_func := None\<rparr>)\<rparr>)"
  let ?s4 = "at_work 0 (Returned 2) (fj_stack ?s3 0) ?s3"
  let ?root = "branch_new (Par (Leaf 1) (Leaf 2) ?k) 0 0"
  let ?s5 = "?s0\<lparr>fj_ctl := (fj_ctl ?s0)(0 := Run (Leaf 3)), fj_clock := 2\<rparr>"
  let ?s6 = "?s0\<lparr>fj_ctl := (fj_ctl ?s0)(0 := Returned 3), fj_clock := 2\<rparr>"
  let ?s7 = "?s0\<lparr>fj_ctl := (fj_ctl ?s0)(0 := Written), fj_clock := 2,
      fj_heap := [0 \<mapsto> ?root\<lparr>br_func := None, br_result := Some 3, br_thief := Some 0\<rparr>]\<rparr>"
  let ?s8 = "?s0\<lparr>fj_ctl := (fj_ctl ?s0)(0 := Idle), fj_clock := 2, fj_stack := (\<lambda>_. []),
      fj_heap := [0 \<mapsto> ?root\<lparr>br_func := None, br_result := Some 3, br_latch := True, br_thief := None\<rparr>]\<rparr>"
  have "fj_reaches ?s0 (Suc 0) ?s1" by (rule fj_on [OF fj_here fork]) (simp_all add: fj_start_def)
  then have r2: "fj_reaches ?s0 (Suc (Suc 0)) ?s2" by (rule fj_on [OF _ leaf]) (simp add: par_call_def)
  have q2: "fj_step ?s2 (par_join 0 1 1 ?k [F_Exec 0] ?s2)" by (rule fj_step.join) (simp_all add: par_call_def fj_start_def)
  have e2: "par_join 0 1 1 ?k [F_Exec 0] ?s2 = Some ?s3"
    by (simp add: par_join_def run_inline_def par_call_def fj_start_def branch_new_def pop_back_def)
  have "fj_reaches ?s0 (Suc (Suc (Suc 0))) ?s3" by (rule fj_on_out [OF r2 q2 e2])
  then have "fj_reaches ?s0 (Suc (Suc (Suc (Suc 0)))) ?s4" by (rule fj_on [OF _ leaf]) simp
  then have r4: "fj_reaches ?s0 (Suc (Suc (Suc (Suc 0)))) ?s4" .
  have q4: "fj_step ?s4 (Some (par_end 0 1 1 2 ?k [F_Exec 0] ?s4))" by (rule inline_end) simp_all
  have e4: "Some (par_end 0 1 1 2 ?k [F_Exec 0] ?s4) = Some ?s5"
    by (simp add: par_end_def par_call_def fj_start_def fun_eq_iff)
  note r5 = fj_on_out [OF r4 q4 e4]
  have q5: "fj_step ?s5 (Some (at_work 0 (Returned 3) (fj_stack ?s5 0) ?s5))" by (rule leaf) simp
  have e5: "Some (at_work 0 (Returned 3) (fj_stack ?s5 0) ?s5) = Some ?s6" by (simp add: fj_start_def)
  note r6 = fj_on_out [OF r5 q5 e5]
  have q6: "fj_step ?s6 (write_result 0 0 3 ?s6)" by (rule fj_step.exec_end [where fs = "[]"]) (simp_all add: fj_start_def)
  have e6: "write_result 0 0 3 ?s6 = Some ?s7" by (simp add: write_result_def fj_start_def branch_new_def)
  note r7 = fj_on_out [OF r6 q6 e6]
  have q7: "fj_step ?s7 (set_latch 0 0 [] ?s7)" by (rule fj_step.signal) (simp_all add: fj_start_def)
  have e7: "set_latch 0 0 [] ?s7 = Some ?s8" by (simp add: set_latch_def fj_start_def branch_new_def fun_eq_iff)
  have "fj_finished ?s8" by (simp add: fj_finished_def)
  then show ?thesis using fj_on_out [OF r7 q7 e7] by blast
qed

theorem fork_join_sequential_witness:
  "\<exists>m s. fj_reaches (fj_start 1 (Par (Leaf 1) (Leaf 2) (\<lambda>x y. Leaf (x + y :: nat)))) m s \<and> run_result s = Some 3"
proof -
  obtain m s where s: "fj_reaches (fj_start 1 (Par (Leaf 1) (Leaf 2) (\<lambda>x y. Leaf (x + y :: nat)))) m s" "fj_finished s"
    using fork_join_example by blast
  have "seq (Par (Leaf 1) (Leaf 2) (\<lambda>x y. Leaf (x + y :: nat))) = Some 3" by simp
  then show ?thesis using fork_join_sequential [OF _ _ s(1), of 3] s by fastforce
qed

theorem fork_join_finishes_witness:
  "\<exists>m s. fj_reaches (fj_start 1 (Par (Leaf 1) (Leaf 2) (\<lambda>x y. Leaf (x + y :: nat)))) m s \<and> m \<le> 11"
proof -
  obtain m s where s: "fj_reaches (fj_start 1 (Par (Leaf 1) (Leaf 2) (\<lambda>x y. Leaf (x + y :: nat)))) m s"
    using fork_join_example by blast
  have "seq (Par (Leaf 1) (Leaf 2) (\<lambda>x y. Leaf (x + y :: nat))) = Some 3" by simp
  from fork_join_finishes [OF this _ s] s show ?thesis by auto
qed

end
