(* ===== verification/Scoped_Async.thy ===== *)
theory Scoped_Async
  imports Cmpth_Prelude
begin

text \<open>
  The asynchronous scoped engine (\<open>scoped/async_engine.rs\<close>): one \<open>parallel_call\<close>, that is its future \<open>ParallelInvoke\<close>, the
  reference-counted \<open>AsyncTask\<close> of the second branch, its \<open>AsyncLatch\<close>, and the worker that takes the branch from the
  deque, a thief or the caller's own driver.  Every atomic access of the latch and the deque is a step.  Every call has
  these to itself; that a branch is in one deque once is \<open>Run_Queue\<close>.
\<close>

section \<open>The state\<close>

datatype latch = L_Pending | L_Done | L_Waker nat   \<comment> \<open>the box with the waker\<close>

text \<open>Where the future is: between polls (\<open>I_New\<close>, \<open>I_A\<close>, \<open>I_B\<close>, \<open>I_Done\<close>), inside one, or dropped.\<close>

datatype invoke_pc =
    I_New
  | I_A                       \<comment> \<open>the second branch pushed, the first not complete\<close>
  | I_Pop                     \<comment> \<open>about to try to take the second branch back\<close>
  | I_Body | I_Drive | I_Set  \<comment> \<open>\<open>drive_to_completion\<close> of the branch taken back\<close>
  | I_Wake nat
  | I_Load                    \<comment> \<open>in \<open>register\<close>\<close>
  | I_Cas latch nat
  | I_Take
  | I_B                       \<comment> \<open>returned \<open>Pending\<close> with its waker registered\<close>
  | I_Done
  | I_Dropped

datatype runner_pc = T_None | T_Body | T_Drive | T_Set | T_Wake nat | T_Drop | T_End

record par_invoke =
  iv_pc :: invoke_pc
  iv_run :: runner_pc         \<comment> \<open>the worker that took the branch from a deque\<close>
  iv_pushed :: bool
  iv_queued :: bool           \<comment> \<open>the reference is in a deque\<close>
  iv_strong :: nat            \<comment> \<open>references to the \<open>AsyncTask\<close>; freed at 0\<close>
  iv_body :: bool
  iv_result :: bool
  iv_latch :: latch
  iv_polls :: nat             \<comment> \<open>polls that found the first branch complete; names their wakers\<close>
  iv_boxes :: "nat set"       \<comment> \<open>the boxes allocated\<close>
  iv_waker :: "nat \<Rightarrow> nat"    \<comment> \<open>whose waker is in a box\<close>
  iv_woken :: "nat set"

definition invoke_new :: par_invoke where
  "invoke_new = \<lparr>iv_pc = I_New, iv_run = T_None, iv_pushed = False, iv_queued = False, iv_strong = 1, iv_body = True, iv_result = False,
     iv_latch = L_Pending, iv_polls = 0, iv_boxes = {}, iv_waker = (\<lambda>_. 0), iv_woken = {}\<rparr>"

section \<open>The operations\<close>

text \<open>An operation on the task: \<open>None\<close> where it is gone or its \<open>expect\<close> or \<open>unreachable\<close> is reached.\<close>

definition on_task :: "bool \<Rightarrow> par_invoke \<Rightarrow> par_invoke option" where
  "on_task ok s = (if 0 < iv_strong s \<and> ok then Some s else None)"

definition push_branch :: "par_invoke \<Rightarrow> par_invoke option" where
  "push_branch s = on_task True (s\<lparr>iv_pushed := True, iv_queued := True, iv_strong := iv_strong s + 1, iv_pc := I_A\<rparr>)"

text \<open>A poll that finds the first branch complete.\<close>

definition poll_b :: "par_invoke \<Rightarrow> par_invoke" where
  "poll_b s = s\<lparr>iv_polls := iv_polls s + 1, iv_pc := I_Pop\<rparr>"

definition reclaim :: "par_invoke \<Rightarrow> par_invoke" where
  "reclaim s = s\<lparr>iv_queued := False, iv_strong := iv_strong s - 1, iv_pc := I_Body\<rparr>"

definition take_body :: "par_invoke \<Rightarrow> par_invoke option" where
  "take_body s = map_option (\<lambda>s. s\<lparr>iv_body := False\<rparr>) (on_task (iv_body s) s)"

definition store_result :: "par_invoke \<Rightarrow> par_invoke option" where
  "store_result s = on_task True (s\<lparr>iv_result := True\<rparr>)"

text \<open>\<open>set\<close>: the swap, with the box to wake.\<close>

definition latch_swap :: "par_invoke \<Rightarrow> nat option \<times> par_invoke" where
  "latch_swap s = (case iv_latch s of L_Waker b \<Rightarrow> Some b | _ \<Rightarrow> None, s\<lparr>iv_latch := L_Done\<rparr>)"

definition wake_box :: "nat \<Rightarrow> par_invoke \<Rightarrow> par_invoke" where
  "wake_box b s = s\<lparr>iv_boxes := iv_boxes s - {b}, iv_woken := insert (iv_waker s b) (iv_woken s)\<rparr>"

text \<open>\<open>register\<close>, with the latch as last read: finished, or a new box to put there.\<close>

definition latch_try :: "nat \<Rightarrow> par_invoke \<Rightarrow> par_invoke" where
  "latch_try b s =
     (if iv_latch s = L_Done then s\<lparr>iv_pc := I_Take\<rparr>
      else s\<lparr>iv_boxes := insert b (iv_boxes s), iv_waker := (iv_waker s)(b := iv_polls s), iv_pc := I_Cas (iv_latch s) b\<rparr>)"

definition latch_install :: "latch \<Rightarrow> nat \<Rightarrow> par_invoke \<Rightarrow> par_invoke" where
  "latch_install cur b s =
     s\<lparr>iv_latch := L_Waker b, iv_boxes := (case cur of L_Waker c \<Rightarrow> iv_boxes s - {c} | _ \<Rightarrow> iv_boxes s), iv_pc := I_B\<rparr>"

definition take_output :: "par_invoke \<Rightarrow> par_invoke option" where
  "take_output s = map_option (\<lambda>s. s\<lparr>iv_result := False, iv_pc := I_Done\<rparr>) (on_task (iv_result s) s)"

definition drop_invoke :: "par_invoke \<Rightarrow> par_invoke" where
  "drop_invoke s = s\<lparr>iv_pc := I_Dropped, iv_strong := iv_strong s - 1\<rparr>"

definition run_taken :: "par_invoke \<Rightarrow> par_invoke" where
  "run_taken s = s\<lparr>iv_queued := False, iv_run := T_Body\<rparr>"

definition runner_drop :: "par_invoke \<Rightarrow> par_invoke" where
  "runner_drop s = s\<lparr>iv_run := T_End, iv_strong := iv_strong s - 1\<rparr>"

text \<open>
  The steps, with their outcome.  \<open>compare_exchange_weak\<close> may fail at any time.  A poll that finds the first branch
  pending changes nothing here.
\<close>

inductive iv_step :: "par_invoke \<Rightarrow> par_invoke option \<Rightarrow> bool" where
  push: "iv_pc s = I_New \<Longrightarrow> iv_step s (push_branch s)"
| poll: "iv_pc s = I_A \<or> iv_pc s = I_B \<Longrightarrow> iv_step s (Some (poll_b s))"
| pop_own: "iv_pc s = I_Pop \<Longrightarrow> iv_queued s \<Longrightarrow> iv_step s (Some (reclaim s))"
| pop_other: "iv_pc s = I_Pop \<Longrightarrow> iv_step s (Some (s\<lparr>iv_pc := I_Load\<rparr>))"
| own_body: "iv_pc s = I_Body \<Longrightarrow> iv_step s (map_option (\<lambda>s. s\<lparr>iv_pc := I_Drive\<rparr>) (take_body s))"
| own_store: "iv_pc s = I_Drive \<Longrightarrow> iv_step s (map_option (\<lambda>s. s\<lparr>iv_pc := I_Set\<rparr>) (store_result s))"
| own_set: "iv_pc s = I_Set \<Longrightarrow> latch_swap s = (w, s') \<Longrightarrow>
    iv_step s (on_task True (s'\<lparr>iv_pc := (case w of None \<Rightarrow> I_Take | Some b \<Rightarrow> I_Wake b)\<rparr>))"
| own_wake: "iv_pc s = I_Wake b \<Longrightarrow> iv_step s (Some ((wake_box b s)\<lparr>iv_pc := I_Take\<rparr>))"
| load: "iv_pc s = I_Load \<Longrightarrow> b \<notin> iv_boxes s \<Longrightarrow> iv_step s (on_task True (latch_try b s))"
| cas: "iv_pc s = I_Cas cur b \<Longrightarrow> iv_latch s = cur \<Longrightarrow> iv_step s (on_task True (latch_install cur b s))"
| cas_fails: "iv_pc s = I_Cas cur b \<Longrightarrow> c \<notin> iv_boxes s \<Longrightarrow> iv_step s (on_task True (latch_try c s))"
| take: "iv_pc s = I_Take \<Longrightarrow> iv_step s (take_output s)"
| dropped: "iv_pc s \<in> {I_New, I_A, I_B, I_Done} \<Longrightarrow> iv_step s (Some (drop_invoke s))"
| taken: "iv_queued s \<Longrightarrow> iv_step s (Some (run_taken s))"
| run_body: "iv_run s = T_Body \<Longrightarrow> iv_step s (map_option (\<lambda>s. s\<lparr>iv_run := T_Drive\<rparr>) (take_body s))"
| run_store: "iv_run s = T_Drive \<Longrightarrow> iv_step s (map_option (\<lambda>s. s\<lparr>iv_run := T_Set\<rparr>) (store_result s))"
| run_set: "iv_run s = T_Set \<Longrightarrow> latch_swap s = (w, s') \<Longrightarrow>
    iv_step s (on_task True (s'\<lparr>iv_run := (case w of None \<Rightarrow> T_Drop | Some b \<Rightarrow> T_Wake b)\<rparr>))"
| run_wake: "iv_run s = T_Wake b \<Longrightarrow> iv_step s (Some ((wake_box b s)\<lparr>iv_run := T_Drop\<rparr>))"
| run_drop: "iv_run s = T_Drop \<Longrightarrow> iv_step s (Some (runner_drop s))"

inductive iv_reachable :: "par_invoke \<Rightarrow> bool" where
  iv_init: "iv_reachable invoke_new"
| iv_next: "iv_reachable s \<Longrightarrow> iv_step s (Some s') \<Longrightarrow> iv_reachable s'"

section \<open>What holds in every reachable state\<close>

text \<open>The future's own run of the branch; the references it and the runner hold.\<close>

fun inline_pc :: "invoke_pc \<Rightarrow> bool" where
  "inline_pc I_Body = True" | "inline_pc I_Drive = True" | "inline_pc I_Set = True" | "inline_pc (I_Wake b) = True" | "inline_pc _ = False"

fun runner_holds :: "runner_pc \<Rightarrow> bool" where
  "runner_holds T_None = False" | "runner_holds T_End = False" | "runner_holds _ = True"

definition references :: "par_invoke \<Rightarrow> nat" where
  "references s = of_bool (iv_pc s \<noteq> I_Dropped) + of_bool (iv_queued s) + of_bool (runner_holds (iv_run s))"

text \<open>How far the branch is: not taken, being run, its result stored, its latch set.\<close>

fun run_stage :: "runner_pc \<Rightarrow> nat" where
  "run_stage T_None = 0" | "run_stage T_Body = 0" | "run_stage T_Drive = 1" | "run_stage T_Set = 2" | "run_stage _ = 3"

fun own_stage :: "invoke_pc \<Rightarrow> nat" where
  "own_stage I_Body = 0" | "own_stage I_Drive = 1" | "own_stage I_Set = 2" | "own_stage _ = 3"

definition stage :: "par_invoke \<Rightarrow> nat" where
  "stage s = (if \<not> iv_pushed s \<or> iv_queued s then 0 else if iv_run s \<noteq> T_None then run_stage (iv_run s) else own_stage (iv_pc s))"

fun pc_ok :: "par_invoke \<Rightarrow> invoke_pc \<Rightarrow> bool" where
  "pc_ok s (I_Cas cur b) \<longleftrightarrow> iv_pushed s \<and> cur \<noteq> L_Done \<and> cur \<noteq> L_Waker b \<and> b \<in> iv_boxes s \<and> iv_latch s \<noteq> L_Waker b \<and>
     iv_waker s b = iv_polls s \<and> (iv_latch s = cur \<or> iv_latch s = L_Done)"
| "pc_ok s (I_Wake b) \<longleftrightarrow> iv_pushed s \<and> b \<in> iv_boxes s"
| "pc_ok s I_Take \<longleftrightarrow> iv_pushed s \<and> stage s = 3 \<and> iv_result s"
| "pc_ok s I_B \<longleftrightarrow> iv_pushed s \<and>
     ((case iv_latch s of L_Waker b \<Rightarrow> iv_waker s b = iv_polls s | _ \<Rightarrow> False) \<or>
      (case iv_run s of T_Wake b \<Rightarrow> iv_waker s b = iv_polls s | _ \<Rightarrow> False) \<or> iv_polls s \<in> iv_woken s)"
| "pc_ok s I_New \<longleftrightarrow> \<not> iv_pushed s"
| "pc_ok s I_Dropped \<longleftrightarrow> True"
| "pc_ok s _ \<longleftrightarrow> iv_pushed s"

definition iv_inv :: "par_invoke \<Rightarrow> bool" where
  "iv_inv s \<longleftrightarrow>
     iv_strong s = references s \<and> pc_ok s (iv_pc s) \<and>
     (\<not> iv_pushed s \<longrightarrow> \<not> iv_queued s \<and> iv_run s = T_None) \<and> (iv_queued s \<longrightarrow> iv_run s = T_None \<and> \<not> inline_pc (iv_pc s)) \<and>
     (iv_run s \<noteq> T_None \<longrightarrow> \<not> inline_pc (iv_pc s)) \<and>
     (iv_pushed s \<and> \<not> iv_queued s \<and> iv_run s = T_None \<longrightarrow> inline_pc (iv_pc s) \<or> iv_pc s \<in> {I_Take, I_Done, I_Dropped}) \<and>
     (iv_body s \<longleftrightarrow> stage s = 0) \<and> (iv_latch s = L_Done \<longleftrightarrow> stage s = 3) \<and>
     (iv_result s \<longrightarrow> 2 \<le> stage s) \<and> (2 \<le> stage s \<and> iv_pc s \<noteq> I_Done \<and> iv_pc s \<noteq> I_Dropped \<longrightarrow> iv_result s) \<and>
     (\<forall>b. iv_latch s = L_Waker b \<longrightarrow> b \<in> iv_boxes s) \<and> (\<forall>b. iv_run s = T_Wake b \<longrightarrow> b \<in> iv_boxes s \<and> (\<forall>c. iv_pc s = I_Cas c b \<longrightarrow> False)) \<and>
     (iv_pc s = I_Done \<longrightarrow> stage s = 3)"


section \<open>Every step keeps it\<close>

lemmas iv_defs = on_task_def push_branch_def poll_b_def reclaim_def take_body_def store_result_def latch_swap_def wake_box_def latch_try_def
  latch_install_def take_output_def drop_invoke_def run_taken_def runner_drop_def

lemma iv_running: "iv_inv s \<Longrightarrow> iv_run s \<noteq> T_None \<Longrightarrow> iv_pushed s \<and> \<not> iv_queued s \<and> \<not> inline_pc (iv_pc s)"
  by (auto simp: iv_inv_def)

lemma iv_inline: "iv_inv s \<Longrightarrow> inline_pc (iv_pc s) \<Longrightarrow> iv_pushed s \<and> \<not> iv_queued s \<and> iv_run s = T_None"
  by (cases "iv_pc s") (auto simp: iv_inv_def)

lemma iv_polling: "iv_inv s \<Longrightarrow> iv_pc s \<noteq> I_New \<Longrightarrow> iv_pc s \<noteq> I_Dropped \<Longrightarrow> iv_pushed s"
  by (cases "iv_pc s") (auto simp: iv_inv_def)

lemma iv_step_keeps: "iv_step s out \<Longrightarrow> iv_inv s \<Longrightarrow> \<exists>s'. out = Some s' \<and> iv_inv s'"
proof (induction rule: iv_step.induct)
  case (push s)
  then show ?case by (cases "iv_run s"; cases "iv_queued s") (auto simp: iv_inv_def iv_defs references_def stage_def)
next
  case (pop_own s)
  then have "iv_pushed s" using iv_polling [OF pop_own(3)] by simp
  with pop_own show ?case by (cases "iv_run s"; cases "iv_queued s") (auto simp: iv_inv_def iv_defs references_def stage_def)
next
  case (pop_other s)
  then have "iv_pushed s" using iv_polling [OF pop_other(2)] by simp
  with pop_other show ?case by (cases "iv_run s"; cases "iv_queued s") (auto simp: iv_inv_def iv_defs references_def stage_def)
next
  case (load s b)
  then have "iv_pushed s" using iv_polling [OF load(3)] by simp
  with load show ?case by (cases "iv_run s"; cases "iv_queued s") (auto simp: iv_inv_def iv_defs references_def stage_def)
next
  case (cas_fails s cur b c)
  then have "iv_pushed s" using iv_polling [OF cas_fails(3)] by simp
  with cas_fails show ?case by (cases "iv_run s"; cases "iv_queued s") (auto simp: iv_inv_def iv_defs references_def stage_def)
next
  case (take s)
  then have "iv_pushed s" using iv_polling [OF take(2)] by simp
  with take show ?case by (cases "iv_run s"; cases "iv_queued s") (auto simp: iv_inv_def iv_defs references_def stage_def)
next
  case (poll s)
  then have "iv_pushed s" using iv_polling [OF poll(2)] by auto
  with poll show ?case by (elim disjE; cases "iv_run s"; cases "iv_queued s") (auto simp: iv_inv_def iv_defs references_def stage_def)
next
  case (cas s cur b)
  then have "iv_pushed s" using iv_polling [OF cas(3)] by auto
  with cas show ?case by (cases cur; cases "iv_run s"; cases "iv_queued s") (auto simp: iv_inv_def iv_defs references_def stage_def)
next
  case (own_body s)
  then have "iv_pushed s" "\<not> iv_queued s" "iv_run s = T_None" using iv_inline [OF own_body(2)] by simp_all
  with own_body show ?case by (auto simp: iv_inv_def iv_defs references_def stage_def)
next
  case (own_store s)
  then have "iv_pushed s" "\<not> iv_queued s" "iv_run s = T_None" using iv_inline [OF own_store(2)] by simp_all
  with own_store show ?case by (auto simp: iv_inv_def iv_defs references_def stage_def)
next
  case (own_wake s b)
  then have "iv_pushed s" "\<not> iv_queued s" "iv_run s = T_None" using iv_inline [OF own_wake(2)] by simp_all
  with own_wake show ?case by (auto simp: iv_inv_def iv_defs references_def stage_def)
next
  case (own_set s w s')
  then have "iv_pushed s" "\<not> iv_queued s" "iv_run s = T_None" using iv_inline [OF own_set(3)] by simp_all
  note r = this
  have e: "w = (case iv_latch s of L_Waker b \<Rightarrow> Some b | _ \<Rightarrow> None)" "s' = s\<lparr>iv_latch := L_Done\<rparr>"
    using own_set(2) by (simp_all add: latch_swap_def)
  show ?case unfolding e using r own_set(1,3) by (cases "iv_latch s") (simp_all add: iv_inv_def on_task_def references_def stage_def)
next
  case (dropped s)
  from dropped(1) consider "iv_pc s = I_New" | "iv_pc s = I_A" | "iv_pc s = I_B" | "iv_pc s = I_Done" by blast
  then show ?case
    using dropped(2) by cases (cases "iv_run s"; cases "iv_queued s"; simp add: iv_inv_def drop_invoke_def references_def stage_def; force)+
next
  case (taken s)
  then have "iv_pushed s" "iv_run s = T_None" "\<not> inline_pc (iv_pc s)" by (auto simp: iv_inv_def)
  with taken show ?case by (cases "iv_pc s"; cases "iv_latch s") (auto simp: iv_inv_def iv_defs references_def stage_def)
next
  case (run_body s)
  then have "iv_pushed s" "\<not> iv_queued s" "\<not> inline_pc (iv_pc s)" using iv_running [OF run_body(2)] by simp_all
  with run_body show ?case by (cases "iv_pc s"; cases "iv_latch s") (auto simp: iv_inv_def iv_defs references_def stage_def)
next
  case (run_store s)
  then have "iv_pushed s" "\<not> iv_queued s" "\<not> inline_pc (iv_pc s)" using iv_running [OF run_store(2)] by simp_all
  with run_store show ?case by (cases "iv_pc s"; cases "iv_latch s") (auto simp: iv_inv_def iv_defs references_def stage_def)
next
  case (run_set s w s')
  then have "iv_pushed s" "\<not> iv_queued s" "\<not> inline_pc (iv_pc s)" using iv_running [OF run_set(3)] by simp_all
  note r = this
  have e: "w = (case iv_latch s of L_Waker b \<Rightarrow> Some b | _ \<Rightarrow> None)" "s' = s\<lparr>iv_latch := L_Done\<rparr>"
    using run_set(2) by (simp_all add: latch_swap_def)
  show ?case unfolding e using r run_set(1,3) by (cases "iv_latch s"; cases "iv_pc s") (simp_all add: iv_inv_def on_task_def references_def stage_def)
next
  case (run_wake s b)
  then have "iv_pushed s" "\<not> iv_queued s" "\<not> inline_pc (iv_pc s)" using iv_running [OF run_wake(2)] by simp_all
  with run_wake show ?case by (cases "iv_pc s") (auto simp: iv_inv_def iv_defs references_def stage_def)
next
  case (run_drop s)
  then have "iv_pushed s" "\<not> iv_queued s" "\<not> inline_pc (iv_pc s)" using iv_running [OF run_drop(2)] by simp_all
  with run_drop show ?case by (cases "iv_pc s") (auto simp: iv_inv_def iv_defs references_def stage_def)
qed

lemma iv_reachable_inv: "iv_reachable s \<Longrightarrow> iv_inv s"
proof (induction rule: iv_reachable.induct)
  case iv_init
  then show ?case by (simp add: iv_inv_def invoke_new_def references_def stage_def)
qed (use iv_step_keeps in blast)


section \<open>What an asynchronous call promises\<close>

lemma iv_invD:
  assumes "iv_inv s"
  shows "iv_strong s = references s" and "pc_ok s (iv_pc s)" and "iv_latch s = L_Waker b \<Longrightarrow> b \<in> iv_boxes s"
    and "iv_run s = T_Wake b \<Longrightarrow> b \<in> iv_boxes s"
  using assms by (simp_all add: iv_inv_def)

text \<open>
  C22: the task of an asynchronous \<open>parallel_call\<close> is used safely, also when the future is dropped between two polls.  No
  step reads a freed task, finds the branch already taken (\<open>unreachable!\<close>) or a set latch without a result (\<open>expect\<close>); the
  number of references is that of their holders, so the task is freed once, after the last of them; and a
  box is unknown to the latch before it is installed and freed only after it has been replaced or woken.
\<close>

theorem async_call_safe:
  assumes "iv_reachable s"
  shows "\<not> iv_step s None \<and> iv_strong s = references s \<and>
    (iv_strong s = 0 \<longrightarrow> iv_pc s = I_Dropped \<and> \<not> iv_queued s \<and> \<not> runner_holds (iv_run s)) \<and>
    (\<forall>b. iv_latch s = L_Waker b \<or> iv_run s = T_Wake b \<or> iv_pc s = I_Wake b \<longrightarrow> b \<in> iv_boxes s)"
proof -
  have inv: "iv_inv s" by (rule iv_reachable_inv [OF assms])
  have 1: "\<not> iv_step s None"
  proof
    assume "iv_step s None"
    then have "\<exists>s'. None = Some s' \<and> iv_inv s'" by (rule iv_step_keeps [OF _ inv])
    then show False by simp
  qed
  have 2: "iv_strong s = references s" by (rule iv_invD(1) [OF inv])
  have 3: "b \<in> iv_boxes s" if "iv_pc s = I_Wake b" for b using iv_invD(2) [OF inv] that by simp
  have 4: "iv_pc s = I_Dropped \<and> \<not> iv_queued s \<and> \<not> runner_holds (iv_run s)" if "iv_strong s = 0"
    using 2 that by (simp add: references_def split: if_splits)
  have 5: "\<forall>b. iv_latch s = L_Waker b \<or> iv_run s = T_Wake b \<or> iv_pc s = I_Wake b \<longrightarrow> b \<in> iv_boxes s"
    using 3 iv_invD(3,4) [OF inv] by blast
  from 4 have 6: "iv_strong s = 0 \<longrightarrow> iv_pc s = I_Dropped \<and> \<not> iv_queued s \<and> \<not> runner_holds (iv_run s)" by (rule impI)
  show ?thesis by (intro conjI 1 2 5 6)
qed

text \<open>
  C23: a future that returned \<open>Pending\<close> is woken.  While it waits for its second branch, the waker of its last poll is in
  the latch, about to be woken or woken; the branch is in a deque or a worker has it until then; and when that worker is done, the waker has been woken
  and a poll finds the result.
\<close>

theorem async_call_woken:
  assumes "iv_reachable s" and "iv_pc s = I_B"
  shows "((\<exists>b. (iv_latch s = L_Waker b \<or> iv_run s = T_Wake b) \<and> iv_waker s b = iv_polls s) \<or> iv_polls s \<in> iv_woken s) \<and>
    (iv_queued s \<or> runner_holds (iv_run s) \<or> iv_polls s \<in> iv_woken s) \<and>
    (iv_run s = T_End \<longrightarrow> iv_polls s \<in> iv_woken s \<and> iv_latch s = L_Done \<and> iv_result s)"
proof -
  have inv: "iv_inv s" by (rule iv_reachable_inv [OF assms(1)])
  then have p: "iv_pushed s" "pc_ok s I_B" using iv_polling iv_invD(2) assms(2) by fastforce+
  have 1: "(\<exists>b. (iv_latch s = L_Waker b \<or> iv_run s = T_Wake b) \<and> iv_waker s b = iv_polls s) \<or> iv_polls s \<in> iv_woken s"
    using p(2) by (cases "iv_latch s"; cases "iv_run s") auto
  have 2: "iv_queued s \<or> iv_run s \<noteq> T_None" by (rule ccontr) (use inv p(1) assms(2) in \<open>simp add: iv_inv_def\<close>)
  have 3: "iv_polls s \<in> iv_woken s \<and> iv_latch s = L_Done \<and> iv_result s" if e: "iv_run s = T_End"
  proof -
    have q: "\<not> iv_queued s" using iv_running [OF inv] e by simp
    then have "stage s = 3" using p(1) e by (simp add: stage_def)
    then have "iv_latch s = L_Done" "iv_result s" using inv assms(2) by (simp_all add: iv_inv_def)
    with p(2) e show ?thesis by simp
  qed
  have 4: "iv_queued s \<or> runner_holds (iv_run s) \<or> iv_polls s \<in> iv_woken s" using 2 3 by (cases "iv_run s") simp_all
  show ?thesis using 1 3 4 by simp
qed

lemma failed_tries:
  "\<exists>s. iv_reachable s \<and> iv_pc s = I_Cas L_Pending n \<and> iv_boxes s = {..n} \<and> iv_queued s \<and> iv_latch s = L_Pending \<and> iv_strong s = 2"
proof (induction n)
  case 0
  let ?s = "(the (push_branch invoke_new))"
  have "iv_reachable ?s" using iv_next [OF iv_init, of ?s] push [of invoke_new] by (simp add: push_branch_def on_task_def invoke_new_def)
  then have "iv_reachable (poll_b ?s)" by (rule iv_next [OF _ poll]) (simp add: push_branch_def on_task_def)
  then have "iv_reachable ((poll_b ?s)\<lparr>iv_pc := I_Load\<rparr>)" by (rule iv_next [OF _ pop_other]) (simp add: poll_b_def)
  moreover have "iv_step ((poll_b ?s)\<lparr>iv_pc := I_Load\<rparr>) (Some (latch_try 0 ((poll_b ?s)\<lparr>iv_pc := I_Load\<rparr>)))"
    using load [of "(poll_b ?s)\<lparr>iv_pc := I_Load\<rparr>" 0]
    by (simp add: push_branch_def on_task_def poll_b_def invoke_new_def latch_try_def)
  ultimately have "iv_reachable (latch_try 0 ((poll_b ?s)\<lparr>iv_pc := I_Load\<rparr>))" by (rule iv_next)
  then show ?case
    by (intro exI [of _ "latch_try 0 ((poll_b ?s)\<lparr>iv_pc := I_Load\<rparr>)"]) (simp add: push_branch_def on_task_def poll_b_def invoke_new_def latch_try_def)
next
  case (Suc n)
  then obtain s where s: "iv_reachable s" "iv_pc s = I_Cas L_Pending n" "iv_boxes s = {..n}" "iv_queued s" "iv_latch s = L_Pending" "iv_strong s = 2"
    by blast
  have "iv_step s (Some (latch_try (Suc n) s))" using cas_fails [OF s(2), of "Suc n"] s by (simp add: on_task_def latch_try_def)
  then have "iv_reachable (latch_try (Suc n) s)" by (rule iv_next [OF s(1)])
  moreover have "insert (Suc n) {..n} = {..Suc n}" by auto
  ultimately show ?case using s by (intro exI [of _ "latch_try (Suc n) s"]) (simp add: latch_try_def)
qed

lemma iv_on: "iv_reachable s \<Longrightarrow> iv_step s out \<Longrightarrow> out = Some s' \<Longrightarrow> iv_reachable s'"
  using iv_next by simp

text \<open>
  \<open>register\<close> loses the box of every \<open>compare_exchange_weak\<close> that fails: for every \<open>n\<close> there is a run after which the future
  is dropped, the branch has run and the task is freed, and \<open>n\<close> boxes with a waker each are still allocated.
\<close>

lemma latch_register_leaks:
  "\<exists>s. iv_reachable s \<and> iv_pc s = I_Dropped \<and> iv_run s = T_End \<and> iv_strong s = 0 \<and> iv_latch s = L_Done \<and> card (iv_boxes s) = n"
proof -
  obtain s where s: "iv_reachable s" "iv_pc s = I_Cas L_Pending n" "iv_boxes s = {..n}" "iv_queued s" "iv_latch s = L_Pending" "iv_strong s = 2"
    using failed_tries by blast
  have b: "iv_body s" using iv_reachable_inv [OF s(1)] s(4) by (simp add: iv_inv_def stage_def)
  let ?s1 = "s\<lparr>iv_latch := L_Waker n, iv_pc := I_B\<rparr>"
  let ?s2 = "?s1\<lparr>iv_pc := I_Dropped, iv_strong := 1\<rparr>"
  let ?s3 = "?s2\<lparr>iv_queued := False, iv_run := T_Body\<rparr>"
  let ?s4 = "?s3\<lparr>iv_body := False, iv_run := T_Drive\<rparr>"
  let ?s5 = "?s4\<lparr>iv_result := True, iv_run := T_Set\<rparr>"
  let ?s6 = "?s5\<lparr>iv_latch := L_Done, iv_run := T_Wake n\<rparr>"
  let ?s7 = "(wake_box n ?s6)\<lparr>iv_run := T_Drop\<rparr>"
  have 1: "iv_reachable ?s1" by (rule iv_on [OF s(1) cas [OF s(2,5)]]) (use s in \<open>simp add: latch_install_def on_task_def\<close>)
  have 2: "iv_reachable ?s2" by (rule iv_on [OF 1 dropped]) (use s in \<open>simp_all add: drop_invoke_def\<close>)
  have 3: "iv_reachable ?s3" by (rule iv_on [OF 2 taken]) (use s in \<open>simp_all add: run_taken_def\<close>)
  have 4: "iv_reachable ?s4" by (rule iv_on [OF 3 run_body]) (use b in \<open>simp_all add: take_body_def on_task_def\<close>)
  have 5: "iv_reachable ?s5" by (rule iv_on [OF 4 run_store]) (simp_all add: store_result_def on_task_def)
  have sw: "latch_swap ?s5 = (Some n, ?s5\<lparr>iv_latch := L_Done\<rparr>)" by (simp add: latch_swap_def)
  have 6: "iv_reachable ?s6" by (rule iv_on [OF 5 run_set [OF _ sw]]) (simp_all add: on_task_def)
  have 7: "iv_reachable ?s7" by (rule iv_on [OF 6 run_wake]) simp_all
  have 8: "iv_reachable (runner_drop ?s7)" by (rule iv_on [OF 7 run_drop]) simp_all
  have "{..n} - {n} = {..<n}" by auto
  then show ?thesis using s by (intro exI [of _ "runner_drop ?s7"] conjI 8) (simp_all add: runner_drop_def wake_box_def)
qed

text \<open>The branch is pushed, the first one complete, and the waker registered.\<close>

lemma async_call_example: "\<exists>s. iv_reachable s \<and> iv_pc s = I_B \<and> iv_queued s \<and> iv_strong s = 2"
proof -
  obtain s where s: "iv_reachable s" "iv_pc s = I_Cas L_Pending 0" "iv_queued s" "iv_latch s = L_Pending" "iv_strong s = 2"
    using failed_tries [of 0] by blast
  have "iv_reachable (latch_install L_Pending 0 s)"
    by (rule iv_on [OF s(1) cas [OF s(2,4)]]) (use s in \<open>simp add: latch_install_def on_task_def\<close>)
  then show ?thesis using s by (intro exI [of _ "latch_install L_Pending 0 s"]) (simp add: latch_install_def)
qed

theorem async_call_safe_witness: "\<exists>s. iv_reachable s \<and> iv_strong s = 2 \<and> references s = 2"
proof -
  obtain s where s: "iv_reachable s" "iv_strong s = 2" using async_call_example by blast
  have "iv_strong s = references s" using async_call_safe [OF s(1)] by blast
  with s show ?thesis by auto
qed

theorem async_call_woken_witness:
  "\<exists>s. iv_reachable s \<and> iv_pc s = I_B \<and> (iv_queued s \<or> runner_holds (iv_run s) \<or> iv_polls s \<in> iv_woken s)"
proof -
  obtain s where s: "iv_reachable s" "iv_pc s = I_B" using async_call_example by blast
  then show ?thesis using async_call_woken [OF s] by blast
qed

section \<open>Driving a future\<close>

text \<open>
  \<open>drive\<close>, over what happens in each of its rounds: whether the waker is called before the flag is read, what a poll would
  return, and whether the waker is called after the flag was read.  The result, and in which rounds it polled.
\<close>

fun drive :: "bool \<Rightarrow> (bool \<times> 'v option \<times> bool) list \<Rightarrow> 'v option \<times> bool list" where
  "drive woken [] = (None, [])"
| "drive woken ((early, out, late) # rs) =
     (let polled = woken \<or> early
      in if polled \<and> out \<noteq> None then (out, [True])
         else (let (r, ps) = drive late rs in (r, polled # ps)))"

text \<open>It polls in its first round, and then exactly in the rounds before whose read the waker was called since the last read.\<close>

lemma drive_polls:
  "i < length (snd (drive w rs)) \<Longrightarrow>
    snd (drive w rs) ! i \<longleftrightarrow> fst (rs ! i) \<or> (if i = 0 then w else snd (snd (rs ! (i - 1))))"
proof (induction w rs arbitrary: i rule: drive.induct)
  case (2 w early out late rs)
  show ?case
  proof (cases "(w \<or> early) \<and> out \<noteq> None")
    case True
    then show ?thesis using 2(2) by auto
  next
    case False
    show ?thesis
    proof (cases i)
      case 0
      then show ?thesis using False by (auto simp: Let_def split_def)
    next
      case (Suc j)
      then have "j < length (snd (drive late rs))" using 2(2) False by (simp add: Let_def split_def split: if_splits)
      with 2(1) [OF refl False, of j] show ?thesis using Suc False by (cases j) (auto simp: Let_def split_def)
    qed
  qed
qed simp

end
