(* ===== verification/Wait_Slot.thy ===== *)
theory Wait_Slot
  imports Interchange
begin

text \<open>
  \<open>dual/dual_wait.rs\<close> and \<open>stackless/async_wait.rs\<close>: the wait slots.  A \<open>DualResumable\<close> is one tagged
  word that holds nothing, the continuation of a ULT, a boxed waker or the parker of an OS thread; its
  operations depend on who calls them.  First the operations on the word, then the slot they implement,
  which holds at most one waiter, and the refinement between the two.
\<close>

section \<open>The operations on the word\<close>

definition ASYNC_TAG :: usize where "ASYNC_TAG = 1"
definition OS_TAG :: usize where "OS_TAG = 2"

text \<open>What can wait in a slot, by the address of the pointee: a task descriptor, a box, a frame.\<close>

datatype waiter = W_Cont usize | W_Waker usize | W_Parker usize

fun waiter_ptr :: "waiter \<Rightarrow> usize" where
  "waiter_ptr (W_Cont a) = a"
| "waiter_ptr (W_Waker a) = a"
| "waiter_ptr (W_Parker a) = a"

fun waiter_tag :: "waiter \<Rightarrow> usize" where
  "waiter_tag (W_Cont a) = 0"
| "waiter_tag (W_Waker a) = ASYNC_TAG"
| "waiter_tag (W_Parker a) = OS_TAG"

text \<open>All three pointees are aligned to 8 bytes, and the slot has two tag bits.\<close>

definition dual_publish :: "waiter \<Rightarrow> tagged_slot \<Rightarrow> tagged_slot" where
  "dual_publish x w = the (slot_publish 2 3 (waiter_ptr x) (waiter_tag x) w)"

definition dual_take :: "tagged_slot \<Rightarrow> (usize \<times> usize) option \<times> tagged_slot" where
  "dual_take w = slot_take 2 w"

text \<open>What a wake does: it wakes the boxed waker, unparks the thread or queues the continuation.\<close>

datatype slot_effect = E_Wake usize | E_Unpark usize | E_Push usize

fun wake_raw :: "(usize \<times> usize) option \<Rightarrow> slot_effect list" where
  "wake_raw None = []"
| "wake_raw (Some (tag, raw)) =
     (if tag = ASYNC_TAG then [E_Wake (into_typed 2 raw)]
      else if tag = OS_TAG then [E_Unpark (into_typed 2 raw)]
      else [E_Push (into_typed 2 raw)])"

definition dual_notify :: "tagged_slot \<Rightarrow> slot_effect list \<times> tagged_slot" where
  "dual_notify w = (case dual_take w of (v, w') \<Rightarrow> (wake_raw v, w'))"

definition dual_is_set :: "tagged_slot \<Rightarrow> bool" where
  "dual_is_set w = slot_is_set w"

text \<open>
  The caller: an OS thread, with the parker in its frame; the worker's root task, which polls tasks
  and must not suspend; or a ULT, with its continuation.  A call panics, or has effects and leaves
  its caller waiting, running on, or jumped into the continuation it found (for a cancelled
  suspension: the continuation that was handed back).
\<close>

datatype caller = C_Os usize | C_Root | C_Ult usize

datatype slot_panic = Not_On_Ult | Cancel_Raced | Wrong_Waiter | Already_Set

datatype after_call = A_Waits | A_Returns | A_Resumes usize

type_synonym 'w slot_result = "slot_panic + (slot_effect list \<times> after_call \<times> 'w)"

text \<open>
  The closures: what they do to this slot, other threads in the meantime included, and their effects.
\<close>

definition dual_os_wait_with :: "usize \<Rightarrow> ('w \<times> tagged_slot \<Rightarrow> slot_effect list \<times> 'w \<times> tagged_slot) \<Rightarrow>
    'w \<times> tagged_slot \<Rightarrow> ('w \<times> tagged_slot) slot_result" where
  "dual_os_wait_with p f s =
     (case s of (x, w) \<Rightarrow> (case f (x, dual_publish (W_Parker p) w) of (es, s') \<Rightarrow> Inr (es, A_Waits, s')))"

definition dual_wait_with :: "caller \<Rightarrow> ('w \<times> tagged_slot \<Rightarrow> slot_effect list \<times> 'w \<times> tagged_slot) \<Rightarrow>
    'w \<times> tagged_slot \<Rightarrow> ('w \<times> tagged_slot) slot_result" where
  "dual_wait_with caller f s =
     (case caller of
        C_Os p \<Rightarrow> dual_os_wait_with p f s
      | C_Root \<Rightarrow> Inl Not_On_Ult
      | C_Ult c \<Rightarrow> (case s of (x, w) \<Rightarrow> (case f (x, dual_publish (W_Cont c) w) of (es, s') \<Rightarrow> Inr (es, A_Waits, s'))))"

definition dual_os_wait_with_cond :: "usize \<Rightarrow> (tagged_slot \<Rightarrow> bool \<times> slot_effect list \<times> tagged_slot) \<Rightarrow>
    tagged_slot \<Rightarrow> tagged_slot slot_result" where
  "dual_os_wait_with_cond p f w =
     (case f (dual_publish (W_Parker p) w) of
        (True, es, w') \<Rightarrow> Inr (es, A_Waits, w')
      | (False, es, w') \<Rightarrow>
          (case dual_take w' of (v, w'') \<Rightarrow> Inr (es, if v \<noteq> None then A_Returns else A_Waits, w'')))"

definition dual_wait_with_cond :: "caller \<Rightarrow> (tagged_slot \<Rightarrow> bool \<times> slot_effect list \<times> tagged_slot) \<Rightarrow>
    tagged_slot \<Rightarrow> tagged_slot slot_result" where
  "dual_wait_with_cond caller f w =
     (case caller of
        C_Os p \<Rightarrow> dual_os_wait_with_cond p f w
      | C_Root \<Rightarrow> Inl Not_On_Ult
      | C_Ult c \<Rightarrow>
          (case f (dual_publish (W_Cont c) w) of
             (True, es, w') \<Rightarrow> Inr (es, A_Waits, w')
           | (False, es, w') \<Rightarrow>
               (case dual_take w' of
                  (None, w'') \<Rightarrow> Inl Cancel_Raced
                | (Some (tag, raw), w'') \<Rightarrow>
                    if tag \<noteq> 0 then Inl Wrong_Waiter else Inr (es, A_Resumes (into_typed 2 raw), w''))))"

definition dual_enter :: "caller \<Rightarrow> tagged_slot \<Rightarrow> tagged_slot slot_result" where
  "dual_enter caller w =
     (case caller of
        C_Os p \<Rightarrow> (case dual_take w of (v, w') \<Rightarrow> Inr (wake_raw v, A_Returns, w'))
      | C_Root \<Rightarrow> Inl Not_On_Ult
      | C_Ult c \<Rightarrow>
          (case dual_take w of (v, w') \<Rightarrow>
             (case v of
                Some (tag, raw) \<Rightarrow>
                  if tag = 0 then Inr ([E_Push c], A_Resumes (into_typed 2 raw), w') else Inr (wake_raw v, A_Returns, w')
              | None \<Rightarrow> Inr (wake_raw v, A_Returns, w'))))"

text \<open>\<open>swap\<close> on two slots: the caller's own, then the one to jump to.\<close>

definition dual_swap :: "caller \<Rightarrow> tagged_slot \<Rightarrow> tagged_slot \<Rightarrow> (tagged_slot \<times> tagged_slot) slot_result" where
  "dual_swap caller w next =
     (if dual_is_set w then Inl Already_Set else
      (case caller of
         C_Os p \<Rightarrow>
           (case dual_os_wait_with p (\<lambda>(n, w'). case dual_take n of (v, n') \<Rightarrow> (wake_raw v, n', w')) (next, w) of
              Inl e \<Rightarrow> Inl e
            | Inr (es, a, n', w') \<Rightarrow> Inr (es, a, w', n'))
       | C_Root \<Rightarrow> Inl Not_On_Ult
       | C_Ult c \<Rightarrow>
           (case dual_take next of (v, n') \<Rightarrow>
              (case v of
                 None \<Rightarrow> Inr ([], A_Returns, w, n')
               | Some (tag, raw) \<Rightarrow>
                   if tag = 0 then Inr ([], A_Resumes (into_typed 2 raw), dual_publish (W_Cont c) w, n')
                   else
                     (case dual_wait_with caller (\<lambda>(u :: unit, w'). (wake_raw v, u, w')) ((), w) of
                        Inl e \<Rightarrow> Inl e
                      | Inr (es, a, _, w') \<Rightarrow> Inr (es, a, w', n'))))))"

definition dual_register :: "usize \<Rightarrow> tagged_slot \<Rightarrow> tagged_slot option" where
  "dual_register waker w = (if slot_is_set w then None else Some (dual_publish (W_Waker waker) w))"

text \<open>\<open>SuspendedFuture\<close>: only boxed wakers, an untagged word.\<close>

definition suspended_notify :: "usize \<Rightarrow> slot_effect list \<times> usize" where
  "suspended_notify w = (if w \<noteq> 0 then [E_Wake w] else [], 0)"

definition suspended_is_set :: "usize \<Rightarrow> bool" where
  "suspended_is_set w = (w \<noteq> 0)"

definition suspended_register :: "usize \<Rightarrow> usize \<Rightarrow> usize option" where
  "suspended_register waker old = (if old \<noteq> 0 then None else Some waker)"

section \<open>The slot they implement\<close>

text \<open>The same operations on a slot that holds at most one waiter, with nothing encoded.\<close>

fun wake_of :: "waiter option \<Rightarrow> slot_effect list" where
  "wake_of None = []"
| "wake_of (Some (W_Cont c)) = [E_Push c]"
| "wake_of (Some (W_Waker a)) = [E_Wake a]"
| "wake_of (Some (W_Parker p)) = [E_Unpark p]"

definition spec_notify :: "waiter option \<Rightarrow> slot_effect list \<times> waiter option" where
  "spec_notify v = (wake_of v, None)"

fun self_waiter :: "caller \<Rightarrow> waiter option" where
  "self_waiter (C_Os p) = Some (W_Parker p)"
| "self_waiter C_Root = None"
| "self_waiter (C_Ult c) = Some (W_Cont c)"

text \<open>The closure of a wait finds the caller in the slot.\<close>

definition spec_wait_with :: "caller \<Rightarrow> ('x \<times> waiter option \<Rightarrow> slot_effect list \<times> 'x \<times> waiter option) \<Rightarrow>
    'x \<Rightarrow> ('x \<times> waiter option) slot_result" where
  "spec_wait_with caller g x =
     (if caller = C_Root then Inl Not_On_Ult
      else case g (x, self_waiter caller) of (es, s') \<Rightarrow> Inr (es, A_Waits, s'))"

definition spec_wait_with_cond :: "caller \<Rightarrow> (waiter option \<Rightarrow> bool \<times> slot_effect list \<times> waiter option) \<Rightarrow>
    waiter option slot_result" where
  "spec_wait_with_cond caller g =
     (if caller = C_Root then Inl Not_On_Ult else
      (case g (self_waiter caller) of
         (True, es, v) \<Rightarrow> Inr (es, A_Waits, v)
       | (False, es, v) \<Rightarrow>
           (case caller of
              C_Os p \<Rightarrow> Inr (es, if v = None then A_Waits else A_Returns, None)
            | _ \<Rightarrow>
               (case v of
                  None \<Rightarrow> Inl Cancel_Raced
                | Some (W_Cont c) \<Rightarrow> Inr (es, A_Resumes c, None)
                | Some _ \<Rightarrow> Inl Wrong_Waiter))))"

definition spec_enter :: "caller \<Rightarrow> waiter option \<Rightarrow> waiter option slot_result" where
  "spec_enter caller v =
     (case (caller, v) of
        (C_Root, _) \<Rightarrow> Inl Not_On_Ult
      | (C_Ult c, Some (W_Cont d)) \<Rightarrow> Inr ([E_Push c], A_Resumes d, None)
      | _ \<Rightarrow> Inr (wake_of v, A_Returns, None))"

definition spec_swap :: "caller \<Rightarrow> waiter option \<Rightarrow> (waiter option \<times> waiter option) slot_result" where
  "spec_swap caller n =
     (case (caller, n) of
        (C_Root, _) \<Rightarrow> Inl Not_On_Ult
      | (C_Ult c, Some (W_Cont d)) \<Rightarrow> Inr ([], A_Resumes d, Some (W_Cont c), None)
      | (C_Ult c, None) \<Rightarrow> Inr ([], A_Returns, None, None)
      | _ \<Rightarrow> Inr (wake_of n, A_Waits, self_waiter caller, None))"

section \<open>The refinement\<close>

text \<open>A waiter whose address is aligned and not null, and the word that holds it.\<close>

definition waiter_ok :: "waiter \<Rightarrow> bool" where
  "waiter_ok x \<longleftrightarrow> aligned_ptr 3 (waiter_ptr x) \<and> waiter_ptr x \<noteq> 0"

definition holds_ok :: "waiter option \<Rightarrow> bool" where
  "holds_ok v \<longleftrightarrow> pred_option waiter_ok v"

fun slot_word :: "waiter option \<Rightarrow> tagged_slot" where
  "slot_word None = slot_empty"
| "slot_word (Some x) = (waiter_ptr x OR waiter_tag x)"

declare slot_word.simps(2) [simp del]

definition caller_holds :: "caller \<Rightarrow> bool" where
  "caller_holds caller \<longleftrightarrow> holds_ok (self_waiter caller)"

lemma waiter_tag_fits: "waiter_tag x \<le> TAG_MASK 2"
  by (cases x) (simp_all add: TAG_MASK_def ASYNC_TAG_def OS_TAG_def)

lemma dual_publish_word: "dual_publish x w = slot_word (Some x)"
  by (simp add: slot_word.simps(2) dual_publish_def slot_publish_def align_covers_def waiter_tag_fits)

lemma waiter_bits:
  assumes "waiter_ok x"
  shows "slot_word (Some x) AND TAG_MASK 2 = waiter_tag x" "into_typed 2 (slot_word (Some x)) = waiter_ptr x"
    "slot_word (Some x) \<noteq> 0"
proof -
  have a: "aligned_ptr 3 (waiter_ptr x)" and n: "waiter_ptr x \<noteq> 0" using assms by (simp_all add: waiter_ok_def)
  note b = publish_bits [OF a _ waiter_tag_fits [of x]]
  show "slot_word (Some x) AND TAG_MASK 2 = waiter_tag x" "into_typed 2 (slot_word (Some x)) = waiter_ptr x"
    using b by (simp_all add: into_typed_def slot_word.simps(2))
  then show "slot_word (Some x) \<noteq> 0" using n by (auto simp: into_typed_def)
qed

lemma dual_take_word:
  "holds_ok v \<Longrightarrow> dual_take (slot_word v) = (map_option (\<lambda>x. (waiter_tag x, slot_word (Some x))) v, slot_empty)"
  by (cases v) (simp_all add: dual_take_def slot_take_def slot_empty_def holds_ok_def waiter_bits)

lemma wake_raw_word: "holds_ok v \<Longrightarrow> wake_raw (map_option (\<lambda>x. (waiter_tag x, slot_word (Some x))) v) = wake_of v"
proof (cases v)
  case (Some x)
  assume "holds_ok v"
  then have "waiter_ok x" using Some by (simp add: holds_ok_def)
  from waiter_bits(2) [OF this] show ?thesis
    using Some by (cases x) (simp_all add: ASYNC_TAG_def OS_TAG_def)
qed simp

lemma dual_is_set_word: "holds_ok v \<Longrightarrow> dual_is_set (slot_word v) \<longleftrightarrow> v \<noteq> None"
  by (cases v) (simp_all add: dual_is_set_def slot_is_set_def slot_empty_def holds_ok_def waiter_bits(3))

fun result_word :: "('v \<Rightarrow> 'w) \<Rightarrow> 'v slot_result \<Rightarrow> 'w slot_result" where
  "result_word h (Inl e) = Inl e"
| "result_word h (Inr (es, a, v)) = Inr (es, a, h v)"

text \<open>A closure on the word that does what another does to the waiter.\<close>

definition closure_ok :: "(tagged_slot \<Rightarrow> bool \<times> slot_effect list \<times> tagged_slot) \<Rightarrow>
    (waiter option \<Rightarrow> bool \<times> slot_effect list \<times> waiter option) \<Rightarrow> bool" where
  "closure_ok f g \<longleftrightarrow> (\<forall>v. holds_ok v \<longrightarrow>
     f (slot_word v) = (case g v of (b, es, v') \<Rightarrow> (b, es, slot_word v')) \<and> holds_ok (snd (snd (g v))))"

definition action_ok :: "('x \<times> tagged_slot \<Rightarrow> slot_effect list \<times> 'x \<times> tagged_slot) \<Rightarrow>
    ('x \<times> waiter option \<Rightarrow> slot_effect list \<times> 'x \<times> waiter option) \<Rightarrow> bool" where
  "action_ok f g \<longleftrightarrow> (\<forall>x v. holds_ok v \<longrightarrow> f (x, slot_word v) = (case g (x, v) of (es, x', v') \<Rightarrow> (es, x', slot_word v')))"

lemma wait_with_refines:
  assumes "action_ok f g" and "caller_holds caller"
  shows "dual_wait_with caller f (x, w) = result_word (\<lambda>(x', v). (x', slot_word v)) (spec_wait_with caller g x)"
proof -
  have "f (x, slot_word v) = (case g (x, v) of (es, x', v') \<Rightarrow> (es, x', slot_word v'))" if "holds_ok v" for v
    using assms(1) that by (simp add: action_ok_def)
  note f = this [OF assms(2) [unfolded caller_holds_def]]
  show ?thesis
    using f by (cases caller)
      (simp_all add: dual_wait_with_def dual_os_wait_with_def spec_wait_with_def dual_publish_word split: prod.splits)
qed

lemma notify_refines: "holds_ok v \<Longrightarrow> dual_notify (slot_word v) = (case spec_notify v of (es, v') \<Rightarrow> (es, slot_word v'))"
  by (simp add: dual_notify_def spec_notify_def dual_take_word wake_raw_word)

lemma waiter_split: "holds_ok (Some x) \<Longrightarrow>
    (waiter_tag x = 0 \<longleftrightarrow> (\<exists>c. x = W_Cont c)) \<and> into_typed 2 (slot_word (Some x)) = waiter_ptr x"
  by (cases x) (simp_all add: ASYNC_TAG_def OS_TAG_def holds_ok_def waiter_bits(2))

lemma wake_raw_some: "holds_ok (Some x) \<Longrightarrow> wake_raw (Some (waiter_tag x, slot_word (Some x))) = wake_of (Some x)"
  using wake_raw_word [of "Some x"] by simp

lemmas slot_bits = dual_take_word wake_raw_some waiter_split

lemma enter_refines:
  assumes "holds_ok v"
  shows "dual_enter caller (slot_word v) = result_word slot_word (spec_enter caller v)"
proof (cases v)
  case None
  then show ?thesis
    using dual_take_word [OF assms] by (cases caller) (simp_all add: dual_enter_def spec_enter_def)
next
  case (Some x)
  then have ok: "holds_ok (Some x)" using assms by simp
  have t: "dual_take (slot_word (Some x)) = (Some (waiter_tag x, slot_word (Some x)), slot_empty)"
    using dual_take_word [OF ok] by simp
  show ?thesis unfolding Some
    using waiter_split [OF ok] wake_raw_some [OF ok] t
    by (cases caller; cases x) (simp_all add: dual_enter_def spec_enter_def del: wake_raw.simps(2))
qed

lemma swap_refines:
  assumes "holds_ok n"
  shows "dual_swap caller slot_empty (slot_word n) =
    result_word (\<lambda>(v, n'). (slot_word v, slot_word n')) (spec_swap caller n)"
proof (cases n)
  case None
  then show ?thesis
    using dual_take_word [OF assms]
    by (cases caller) (simp_all add: dual_swap_def spec_swap_def dual_is_set_def slot_is_set_def slot_empty_def
      dual_os_wait_with_def dual_publish_word)
next
  case (Some x)
  then have ok: "holds_ok (Some x)" using assms by simp
  have t: "dual_take (slot_word (Some x)) = (Some (waiter_tag x, slot_word (Some x)), slot_empty)"
    using dual_take_word [OF ok] by simp
  have e: "dual_is_set slot_empty = False" by (simp add: dual_is_set_def slot_is_set_def slot_empty_def)
  show ?thesis unfolding Some
    using waiter_split [OF ok] wake_raw_some [OF ok] t
    by (cases caller; cases x)
      (simp_all add: dual_swap_def spec_swap_def e dual_os_wait_with_def dual_wait_with_def dual_publish_word
        del: wake_raw.simps(2))
qed

lemma wait_refines:
  assumes "closure_ok f g" and "caller_holds caller"
  shows "dual_wait_with_cond caller f w = result_word slot_word (spec_wait_with_cond caller g)"
proof (cases "self_waiter caller")
  case None
  then have "caller = C_Root" by (cases caller) simp_all
  then show ?thesis by (simp add: dual_wait_with_cond_def spec_wait_with_cond_def)
next
  case (Some x)
  then have ok: "holds_ok (Some x)" using assms(2) by (simp add: caller_holds_def)
  obtain b es v where g: "g (Some x) = (b, es, v)" by (cases "g (Some x)") auto
  have f: "f (slot_word (Some x)) = (b, es, slot_word v)" and v: "holds_ok v"
    using assms(1) ok g unfolding closure_ok_def by fastforce+
  note t = dual_take_word [OF v]
  have x: "(\<exists>p. caller = C_Os p \<and> x = W_Parker p) \<or> (\<exists>c. caller = C_Ult c \<and> x = W_Cont c)"
    using Some by (cases caller) auto
  have sv: "\<And>y. v = Some y \<Longrightarrow> (waiter_tag y = 0 \<longleftrightarrow> (\<exists>c. y = W_Cont c)) \<and> into_typed 2 (slot_word (Some y)) = waiter_ptr y"
    using waiter_split v by simp
  show ?thesis
  proof (cases b)
    case True
    then show ?thesis using x f g Some
      by (auto simp: dual_wait_with_cond_def dual_os_wait_with_cond_def spec_wait_with_cond_def dual_publish_word)
  next
    case False
    show ?thesis
    proof (cases v)
      case None
      then show ?thesis using False x f g Some t
        by (auto simp: dual_wait_with_cond_def dual_os_wait_with_cond_def spec_wait_with_cond_def dual_publish_word)
    next
      case (Some y)
      then show ?thesis using False x f g \<open>self_waiter caller = _\<close> t sv [OF Some]
        by (cases y) (auto simp: dual_wait_with_cond_def dual_os_wait_with_cond_def spec_wait_with_cond_def dual_publish_word)
    qed
  qed
qed

text \<open>
  C16: the tagged word of a \<open>DualResumable\<close> implements a slot for at most one waiter: on the word that
  encodes a slot, \<open>notify\<close>, \<open>is_set\<close>, \<open>enter\<close>, \<open>swap\<close>, \<open>register\<close>, \<open>wait_with\<close> and \<open>wait_with_cond\<close> (with closures
  that themselves work on the slot, in which they find the caller) panic, wake, jump and leave exactly what they
  would on the slot, for every kind of caller and of waiter.
\<close>

theorem dual_slot_refines:
  assumes "holds_ok v" and "caller_holds caller" and "closure_ok f g" and "action_ok F G"
  shows "dual_notify (slot_word v) = (case spec_notify v of (es, v') \<Rightarrow> (es, slot_word v')) \<and>
    dual_is_set (slot_word v) = (v \<noteq> None) \<and>
    dual_enter caller (slot_word v) = result_word slot_word (spec_enter caller v) \<and>
    dual_swap caller slot_empty (slot_word v) =
      result_word (\<lambda>(v, n). (slot_word v, slot_word n)) (spec_swap caller v) \<and>
    dual_register a (slot_word v) = (if v = None then Some (slot_word (Some (W_Waker a))) else None) \<and>
    dual_wait_with caller F (x, slot_word v) = result_word (\<lambda>(x', v'). (x', slot_word v')) (spec_wait_with caller G x) \<and>
    dual_wait_with_cond caller f (slot_word v) = result_word slot_word (spec_wait_with_cond caller g)"
proof (intro conjI)
  show "dual_register a (slot_word v) = (if v = None then Some (slot_word (Some (W_Waker a))) else None)"
    using dual_is_set_word [OF assms(1)] by (simp add: dual_register_def dual_publish_word flip: dual_is_set_def)
qed (rule notify_refines dual_is_set_word enter_refines swap_refines wait_refines wait_with_refines assms)+

text \<open>
  An OS thread with its parker at 0x7000 enters a slot that holds the continuation 0x5000; it waits in one with a closure
  that notifies the slot at once, and finds itself.
\<close>

theorem dual_slot_refines_witness:
  "dual_enter (C_Os 0x7000) 0x5000 = Inr ([E_Push 0x5000], A_Returns, 0) \<and>
   dual_wait_with (C_Os 0x7000) (\<lambda>(u :: unit, w). case dual_notify w of (es, w') \<Rightarrow> (es, u, w')) ((), 0x5000) =
     Inr ([E_Unpark 0x7000], A_Waits, (), 0) \<and>
   dual_wait_with_cond (C_Os 0x7000) (\<lambda>w. (False, [], w)) 0x5000 = Inr ([], A_Returns, 0)"
proof -
  have ok: "holds_ok (Some (W_Cont 0x5000))" "caller_holds (C_Os 0x7000)" "closure_ok (\<lambda>w. (False, [], w)) (\<lambda>v. (False, [], v))"
    by (simp_all add: holds_ok_def caller_holds_def closure_ok_def waiter_ok_def slot_word.simps(2) aligned_ptr_def take_bit_eq_mask mask_eq_exp_minus_1)
  have act: "action_ok (\<lambda>(u :: unit, w). case dual_notify w of (es, w') \<Rightarrow> (es, u, w'))
      (\<lambda>(u, v). case spec_notify v of (es, v') \<Rightarrow> (es, u, v'))"
    by (auto simp: action_ok_def notify_refines split: prod.splits)
  from dual_slot_refines [OF ok act] show ?thesis
    by (simp add: spec_enter_def spec_wait_with_def spec_wait_with_cond_def spec_notify_def slot_empty_def slot_word.simps(2))
qed

text \<open>
  When a notifier has taken the waiter by the time the closure decides to cancel, an OS thread waits
  for the wake that is on its way, but a ULT panics.
\<close>

lemma cancel_race:
  "spec_wait_with_cond (C_Os p) (\<lambda>v. (False, wake_of v, None)) = Inr ([E_Unpark p], A_Waits, None)"
  "spec_wait_with_cond (C_Ult c) (\<lambda>v. (False, wake_of v, None)) = Inl Cancel_Raced"
  by (simp_all add: spec_wait_with_cond_def)

text \<open>A waiter is delivered once: what takes it leaves the slot empty, and an empty slot wakes nobody.\<close>

lemma spec_delivers_once: "spec_notify v = (es, v') \<Longrightarrow> spec_notify v' = ([], None)"
  by (auto simp: spec_notify_def)

text \<open>The slot of a \<open>SuspendedFuture\<close> is the dual slot restricted to wakers.\<close>

lemma suspended_is_dual:
  assumes "waiter_ok (W_Waker a)"
  shows "fst (suspended_notify a) = fst (dual_notify (slot_word (Some (W_Waker a))))"
    "suspended_register a 0 = Some a" "suspended_is_set a"
  using assms notify_refines [of "Some (W_Waker a)"]
  by (simp_all add: suspended_notify_def spec_notify_def holds_ok_def suspended_register_def suspended_is_set_def waiter_ok_def)

text \<open>\<open>wait_with\<close> is \<open>wait_with_cond\<close> with a closure that never cancels.\<close>

lemma wait_with_never_cancels:
  "dual_wait_with caller (\<lambda>(u :: unit, w). (fst (f w), u, snd (f w))) ((), w) =
     result_word (\<lambda>w. ((), w)) (dual_wait_with_cond caller (\<lambda>w. (True, f w)) w)"
  by (cases caller)
    (simp_all add: dual_wait_with_def dual_os_wait_with_def dual_wait_with_cond_def dual_os_wait_with_cond_def split: prod.splits)


end
