(* ===== verification/Dual_Mutex.thy ===== *)
theory Dual_Mutex
  imports Mcs_Lock Wait_Slot
begin

text \<open>
  \<open>common/sync/dual_mutex.rs\<close> over \<open>DualResumable\<close> wait slots, the mutex of the dual system: the MCS
  algorithm with waiters of three kinds, ULTs, OS threads and async tasks, and the wait and wake steps of
  \<open>Wait_Slot\<close> inside.  The slot of a node is at the level of that theory's specification: the waiter in
  it, here by its number.  Every access to an atomic is a step.
\<close>

section \<open>The operations\<close>

datatype waiter_kind = K_Ult | K_Os | K_Async

datatype dm_pc =
    D_Out
  | D_Publish nat nat   \<comment> \<open>its node and the one before; about to put itself in its slot\<close>
  | D_Link nat nat      \<comment> \<open>in its slot; about to link its node behind that one\<close>
  | D_Wait nat          \<comment> \<open>suspended, pending, or (OS thread) about to check \<open>done\<close>\<close>
  | D_Asleep nat        \<comment> \<open>OS thread in \<open>thread::park\<close>\<close>
  | D_In nat            \<comment> \<open>holds the guard\<close>
  | D_Spin nat          \<comment> \<open>has a successor, waits for its link\<close>
  | D_Notify nat nat    \<comment> \<open>about to take what waits in that node\<close>
  | D_Wake nat nat      \<comment> \<open>about to wake that waiter\<close>
  | D_Store nat nat     \<comment> \<open>has cloned its thread handle; about to set \<open>done\<close>\<close>
  | D_Unpark nat nat    \<comment> \<open>about to unpark its thread\<close>

record dm_sys =
  dm_mutex :: mcs_mutex
  dm_slot :: "nat \<Rightarrow> nat option"
  dm_kind :: "nat \<Rightarrow> waiter_kind"
  dm_pc :: "nat \<Rightarrow> dm_pc"
  dm_live :: "nat set"      \<comment> \<open>the nodes allocated\<close>
  dm_woken :: "nat set"     \<comment> \<open>those whose wake-up has come: queued, woken, or \<open>done\<close> set\<close>
  dm_token :: "nat set"     \<comment> \<open>the OS threads with an unpark token\<close>

definition dm_start :: "(nat \<Rightarrow> waiter_kind) \<Rightarrow> dm_sys" where
  "dm_start k = \<lparr>dm_mutex = mcs_new, dm_slot = (\<lambda>_. None), dm_kind = k, dm_pc = (\<lambda>_. D_Out), dm_live = {},
     dm_woken = {}, dm_token = {}\<rparr>"

abbreviation dgoto :: "nat \<Rightarrow> dm_pc \<Rightarrow> dm_sys \<Rightarrow> dm_sys" where
  "dgoto t pc s \<equiv> s\<lparr>dm_pc := (dm_pc s)(t := pc)\<rparr>"

text \<open>\<open>lock\<close>: a new node with an empty slot becomes the tail.\<close>

definition dm_lock :: "nat \<Rightarrow> nat \<Rightarrow> dm_sys \<Rightarrow> dm_sys" where
  "dm_lock t a s =
     (case start_lock a (dm_mutex s) of
        (prev, m) \<Rightarrow>
          dgoto t (case prev of None \<Rightarrow> D_In a | Some p \<Rightarrow> D_Publish a p)
            (s\<lparr>dm_mutex := m, dm_slot := (dm_slot s)(a := None), dm_live := insert a (dm_live s)\<rparr>))"

text \<open>\<open>wait_with\<close> puts the caller in the slot first and runs the closure, which links the node, second.\<close>

definition dm_publish :: "nat \<Rightarrow> nat \<Rightarrow> nat \<Rightarrow> dm_sys \<Rightarrow> dm_sys" where
  "dm_publish t a p s =
     dgoto t (D_Link a p) (s\<lparr>dm_slot := (dm_slot s)(a := Some t), dm_woken := dm_woken s - {t}\<rparr>)"

definition dm_link :: "nat \<Rightarrow> nat \<Rightarrow> nat \<Rightarrow> dm_sys \<Rightarrow> dm_sys" where
  "dm_link t a p s = dgoto t (D_Wait a) (s\<lparr>dm_mutex := mcs_link p a (dm_mutex s)\<rparr>)"

text \<open>The guard's drop: it releases the tail, or waits for its successor's link and notifies its slot.\<close>

definition dm_leave :: "nat \<Rightarrow> nat \<Rightarrow> dm_sys \<Rightarrow> dm_sys" where
  "dm_leave t a s = dgoto t D_Out (s\<lparr>dm_live := dm_live s - {a}\<rparr>)"

definition dm_drop :: "nat \<Rightarrow> nat \<Rightarrow> dm_sys \<Rightarrow> dm_sys" where
  "dm_drop t a s =
     (case mcs_try_release a (dm_mutex s) of
        (True, m) \<Rightarrow> dm_leave t a (s\<lparr>dm_mutex := m\<rparr>)
      | (False, m) \<Rightarrow> dgoto t (D_Spin a) (s\<lparr>dm_mutex := m\<rparr>))"

definition dm_find :: "nat \<Rightarrow> nat \<Rightarrow> dm_sys \<Rightarrow> dm_sys" where
  "dm_find t a s = (case mc_next (dm_mutex s) a of None \<Rightarrow> s | Some b \<Rightarrow> dgoto t (D_Notify a b) s)"

definition dm_take :: "nat \<Rightarrow> nat \<Rightarrow> nat \<Rightarrow> dm_sys \<Rightarrow> dm_sys" where
  "dm_take t a b s =
     (case dm_slot s b of
        None \<Rightarrow> dm_leave t a s
      | Some u \<Rightarrow> dgoto t (D_Wake a u) (s\<lparr>dm_slot := (dm_slot s)(b := None)\<rparr>))"

text \<open>
  \<open>wake_raw\<close>: a continuation is queued and a waker woken at once; for an OS thread the handle is cloned
  first, as the parker may be gone once \<open>done\<close> is set.
\<close>

definition dm_wake :: "nat \<Rightarrow> nat \<Rightarrow> nat \<Rightarrow> dm_sys \<Rightarrow> dm_sys" where
  "dm_wake t a u s =
     (case dm_kind s u of
        K_Os \<Rightarrow> dgoto t (D_Store a u) s
      | _ \<Rightarrow> dm_leave t a (s\<lparr>dm_woken := insert u (dm_woken s)\<rparr>))"

definition dm_store :: "nat \<Rightarrow> nat \<Rightarrow> nat \<Rightarrow> dm_sys \<Rightarrow> dm_sys" where
  "dm_store t a u s = dgoto t (D_Unpark a u) (s\<lparr>dm_woken := insert u (dm_woken s)\<rparr>)"

definition dm_unpark :: "nat \<Rightarrow> nat \<Rightarrow> nat \<Rightarrow> dm_sys \<Rightarrow> dm_sys" where
  "dm_unpark t a u s = dm_leave t a (s\<lparr>dm_token := insert u (dm_token s)\<rparr>)"

text \<open>
  An OS thread's wait: it checks \<open>done\<close> and parks while it is not set; \<open>park\<close> may return without a
  reason, and consumes the token.
\<close>

definition dm_os_check :: "nat \<Rightarrow> nat \<Rightarrow> dm_sys \<Rightarrow> dm_sys" where
  "dm_os_check t a s = dgoto t (if t \<in> dm_woken s then D_In a else D_Asleep a) s"

definition dm_os_return :: "nat \<Rightarrow> nat \<Rightarrow> dm_sys \<Rightarrow> dm_sys" where
  "dm_os_return t a s = dgoto t (D_Wait a) (s\<lparr>dm_token := dm_token s - {t}\<rparr>)"

text \<open>
  A suspended ULT runs on when its continuation is taken from a queue.  A pending future returns from
  its next poll, whatever the slot holds: the closure of \<open>poll_fn\<close> only looks whether \<open>f\<close> has been
  run.  A careful executor polls it only after a wake, and never drops it while it waits.
\<close>

definition dm_resume :: "nat \<Rightarrow> nat \<Rightarrow> dm_sys \<Rightarrow> dm_sys" where
  "dm_resume t a s = dgoto t (D_In a) s"

definition dm_may_resume :: "bool \<Rightarrow> nat \<Rightarrow> dm_sys \<Rightarrow> bool" where
  "dm_may_resume careful t s \<longleftrightarrow>
     dm_kind s t \<noteq> K_Os \<and> (t \<in> dm_woken s \<or> dm_kind s t = K_Async \<and> \<not> careful)"

inductive dm_step :: "bool \<Rightarrow> dm_sys \<Rightarrow> dm_sys \<Rightarrow> bool" for careful :: bool where
  lock: "dm_pc s t = D_Out \<Longrightarrow> a \<notin> dm_live s \<Longrightarrow> dm_step careful s (dm_lock t a s)"
| publish: "dm_pc s t = D_Publish a p \<Longrightarrow> dm_step careful s (dm_publish t a p s)"
| link: "dm_pc s t = D_Link a p \<Longrightarrow> dm_step careful s (dm_link t a p s)"
| resume: "dm_pc s t = D_Wait a \<Longrightarrow> dm_may_resume careful t s \<Longrightarrow> dm_step careful s (dm_resume t a s)"
| os_check: "dm_pc s t = D_Wait a \<Longrightarrow> dm_kind s t = K_Os \<Longrightarrow> dm_step careful s (dm_os_check t a s)"
| os_return: "dm_pc s t = D_Asleep a \<Longrightarrow> dm_step careful s (dm_os_return t a s)"
| cancel: "dm_pc s t = D_Wait a \<Longrightarrow> dm_kind s t = K_Async \<Longrightarrow> \<not> careful \<Longrightarrow> dm_step careful s (dm_leave t a s)"
| drop: "dm_pc s t = D_In a \<Longrightarrow> dm_step careful s (dm_drop t a s)"
| find: "dm_pc s t = D_Spin a \<Longrightarrow> dm_step careful s (dm_find t a s)"
| take: "dm_pc s t = D_Notify a b \<Longrightarrow> dm_step careful s (dm_take t a b s)"
| wake: "dm_pc s t = D_Wake a u \<Longrightarrow> dm_step careful s (dm_wake t a u s)"
| store: "dm_pc s t = D_Store a u \<Longrightarrow> dm_step careful s (dm_store t a u s)"
| unpark: "dm_pc s t = D_Unpark a u \<Longrightarrow> dm_step careful s (dm_unpark t a u s)"

inductive dm_reachable :: "bool \<Rightarrow> dm_sys \<Rightarrow> bool" for careful :: bool where
  dm_init: "dm_reachable careful (dm_start k)"
| dm_next: "dm_reachable careful s \<Longrightarrow> dm_step careful s s' \<Longrightarrow> dm_reachable careful s'"

section \<open>The mutex it implements\<close>

text \<open>
  The lock is handed over when the slot is emptied: from then on the waiter counts as holding it, and
  the notifier as gone, though it keeps its node a little longer.
\<close>

fun view_pc :: "(nat \<Rightarrow> nat option) \<Rightarrow> dm_pc \<Rightarrow> mcs_pc" where
  "view_pc slot D_Out = M_Out"
| "view_pc slot (D_Publish a p) = M_Linking a p"
| "view_pc slot (D_Link a p) = M_Linking a p"
| "view_pc slot (D_Wait a) = (if slot a = None then M_In a else M_Parked a)"
| "view_pc slot (D_Asleep a) = (if slot a = None then M_In a else M_Parked a)"
| "view_pc slot (D_In a) = M_In a"
| "view_pc slot (D_Spin a) = M_Unlocking a"
| "view_pc slot (D_Notify a b) = M_Unlocking a"
| "view_pc slot (D_Wake a u) = M_Out"
| "view_pc slot (D_Store a u) = M_Out"
| "view_pc slot (D_Unpark a u) = M_Out"

text \<open>The node a waking thread still owns, and the waiter whose slot content it has in hand.\<close>

fun keeps :: "dm_pc \<Rightarrow> nat option" where
  "keeps (D_Wake a u) = Some a"
| "keeps (D_Store a u) = Some a"
| "keeps (D_Unpark a u) = Some a"
| "keeps _ = None"

fun wakes :: "dm_pc \<Rightarrow> nat option" where
  "wakes (D_Wake a u) = Some u"
| "wakes (D_Store a u) = Some u"
| "wakes _ = None"

fun waits :: "dm_pc \<Rightarrow> nat option" where
  "waits (D_Wait a) = Some a"
| "waits (D_Asleep a) = Some a"
| "waits _ = None"

definition kept :: "(nat \<Rightarrow> dm_pc) \<Rightarrow> nat set" where
  "kept pcs = {a. \<exists>t. keeps (pcs t) = Some a}"

definition lock_view :: "dm_sys \<Rightarrow> mcs_sys" where
  "lock_view s = \<lparr>my_mutex = dm_mutex s, my_pc = (\<lambda>t. view_pc (dm_slot s) (dm_pc s t)),
     my_live = dm_live s - kept (dm_pc s)\<rparr>"

lemma lock_view_sel [simp]:
  "my_mutex (lock_view s) = dm_mutex s" "my_pc (lock_view s) t = view_pc (dm_slot s) (dm_pc s t)"
  "my_live (lock_view s) = dm_live s - kept (dm_pc s)"
  by (simp_all add: lock_view_def)

lemma kept_same: "keeps (pcs t) = keeps pc \<Longrightarrow> kept (pcs(t := pc)) = kept pcs"
  by (auto simp: kept_def) metis

lemma kept_more: "keeps (pcs t) = None \<Longrightarrow> keeps pc = Some a \<Longrightarrow> kept (pcs(t := pc)) = insert a (kept pcs)"
  by (auto simp: kept_def) (metis option.distinct(1))

section \<open>The invariant\<close>

fun in_slot :: "dm_pc \<Rightarrow> nat option" where
  "in_slot (D_Link a p) = Some a"
| "in_slot (D_Wait a) = Some a"
| "in_slot (D_Asleep a) = Some a"
| "in_slot _ = None"

definition slots_ok :: "dm_sys \<Rightarrow> bool" where
  "slots_ok s \<longleftrightarrow>
     (\<forall>a u. dm_slot s a = Some u \<longrightarrow> in_slot (dm_pc s u) = Some a \<and> u \<notin> dm_woken s) \<and>
     (\<forall>u a p. dm_pc s u = D_Link a p \<longrightarrow> dm_slot s a = Some u) \<and>
     (\<forall>u a p. dm_pc s u = D_Publish a p \<longrightarrow> dm_slot s a = None) \<and>
     (\<forall>t a b. dm_pc s t = D_Notify a b \<longrightarrow> mc_next (dm_mutex s) a = Some b)"

definition wakes_ok :: "dm_sys \<Rightarrow> bool" where
  "wakes_ok s \<longleftrightarrow>
     (\<forall>u a. waits (dm_pc s u) = Some a \<longrightarrow> dm_slot s a = None \<longrightarrow> u \<in> dm_woken s \<or> (\<exists>t. wakes (dm_pc s t) = Some u)) \<and>
     (\<forall>t u. wakes (dm_pc s t) = Some u \<longrightarrow> u \<notin> dm_woken s \<and> (\<exists>a. waits (dm_pc s u) = Some a \<and> dm_slot s a = None)) \<and>
     (\<forall>t t' u. wakes (dm_pc s t) = Some u \<longrightarrow> wakes (dm_pc s t') = Some u \<longrightarrow> t = t')"

definition keeps_ok :: "dm_sys \<Rightarrow> bool" where
  "keeps_ok s \<longleftrightarrow>
     (\<forall>t a. keeps (dm_pc s t) = Some a \<longrightarrow> a \<in> dm_live s) \<and>
     (\<forall>t t' a. keeps (dm_pc s t) = Some a \<longrightarrow> keeps (dm_pc s t') = Some a \<longrightarrow> t = t')"

definition os_ok :: "dm_sys \<Rightarrow> bool" where
  "os_ok s \<longleftrightarrow>
     (\<forall>t a. dm_pc s t = D_Asleep a \<longrightarrow> dm_kind s t = K_Os) \<and>
     (\<forall>t a. dm_pc s t = D_Asleep a \<longrightarrow> t \<in> dm_woken s \<longrightarrow> t \<in> dm_token s \<or> (\<exists>t' b. dm_pc s t' = D_Unpark b t))"

definition dm_inv :: "dm_sys \<Rightarrow> bool" where
  "dm_inv s \<longleftrightarrow> mcs_reachable (lock_view s) \<and> slots_ok s \<and> wakes_ok s \<and> keeps_ok s \<and> os_ok s"

text \<open>A node belongs to one thread, and is allocated.\<close>

fun mcs_node :: "mcs_pc \<Rightarrow> nat option" where
  "mcs_node M_Out = None"
| "mcs_node (M_Linking a p) = Some a"
| "mcs_node (M_Parked a) = Some a"
| "mcs_node (M_In a) = Some a"
| "mcs_node (M_Unlocking a) = Some a"

lemma mcs_node_in_queue:
  assumes "mcs_rep m q" and "mcs_node (my_pc m t) = Some a"
  shows "(t, a) \<in> set q"
proof -
  have "(my_pc m t = M_In a \<or> my_pc m t = M_Unlocking a) \<or> (\<exists>p. my_pc m t = M_Linking a p \<or> my_pc m t = M_Parked a)"
    using assms(2) by (cases "my_pc m t") auto
  then show ?thesis
  proof (elim disjE exE)
    fix p assume h: "my_pc m t = M_Linking a p"
    then have h: "my_pc m t = M_Linking a p \<or> my_pc m t = M_Parked a" by simp
    show ?thesis by (rule waiter_is_behind [OF assms(1) h]) (auto dest: nth_mem)
  next
    fix p assume h: "my_pc m t = M_Parked a"
    then have h: "my_pc m t = M_Linking a 0 \<or> my_pc m t = M_Parked a" by simp
    show ?thesis by (rule waiter_is_behind [OF assms(1) h]) (auto dest: nth_mem)
  qed (use holder_is_head [OF assms(1), of t a] in auto)
qed

lemma mcs_node_unique:
  assumes "mcs_reachable m" and "mcs_node (my_pc m t) = Some a"
  shows "mcs_node (my_pc m u) = Some a \<Longrightarrow> u = t" "a \<in> my_live m"
proof -
  obtain q where q: "mcs_rep m q" using mcs_reachable_rep [OF assms(1)] by blast
  note t = mcs_node_in_queue [OF q assms(2)]
  have Q: "queue_ok m q" using q by (simp add: mcs_rep_def)
  then show "a \<in> my_live m" using t by (auto simp: queue_ok_def intro: rev_image_eqI)
  assume "mcs_node (my_pc m u) = Some a"
  from mcs_node_in_queue [OF q this] t show "u = t"
    using Q inj_onD [of snd "set q" "(u, a)" "(t, a)"] by (simp add: queue_ok_def distinct_map)
qed

text \<open>The node of a thread that has not given up its place.\<close>

fun place :: "dm_pc \<Rightarrow> nat option" where
  "place D_Out = None"
| "place (D_Publish a p) = Some a"
| "place (D_Link a p) = Some a"
| "place (D_Wait a) = Some a"
| "place (D_Asleep a) = Some a"
| "place (D_In a) = Some a"
| "place (D_Spin a) = Some a"
| "place (D_Notify a b) = Some a"
| "place (D_Wake a u) = None"
| "place (D_Store a u) = None"
| "place (D_Unpark a u) = None"

lemma place_node: "mcs_node (view_pc slot pc) = place pc"
  by (cases pc) auto

lemma waits_place [dest]: "waits pc = Some a \<Longrightarrow> place pc = Some a"
  by (cases pc) auto

lemma in_slot_place [dest]: "in_slot pc = Some a \<Longrightarrow> place pc = Some a"
  by (cases pc) auto

lemma waits_in_slot: "waits pc = Some a \<Longrightarrow> in_slot pc = Some a"
  by (cases pc) auto

lemma waits_cases: "waits pc = Some a \<longleftrightarrow> pc = D_Wait a \<or> pc = D_Asleep a"
  by (cases pc) auto

lemma place_unique:
  assumes "dm_inv s" and "place (dm_pc s t) = Some a"
  shows "place (dm_pc s u) = Some a \<Longrightarrow> u = t" "a \<in> dm_live s" "keeps (dm_pc s u) \<noteq> Some a"
  using mcs_node_unique(1) [of "lock_view s" t a u] mcs_node_unique(2) [of "lock_view s" t a] assms
  by (auto simp: dm_inv_def place_node kept_def)

lemma place_not_dead: "dm_inv s \<Longrightarrow> a \<notin> dm_live s \<Longrightarrow> place (dm_pc s t) \<noteq> Some a"
  using place_unique(2) by blast

text \<open>The slots after one of them changed: only its owner's view can change.\<close>

lemma view_pc_cong: "waits pc \<noteq> Some a \<Longrightarrow> view_pc (slot(a := v)) pc = view_pc slot pc"
  by (cases pc) auto

lemma dm_start_inv: "dm_inv (dm_start k)"
proof -
  have "lock_view (dm_start k) = mcs_start" by (simp add: lock_view_def dm_start_def mcs_start_def)
  then show ?thesis using mcs_init by (simp add: dm_inv_def slots_ok_def wakes_ok_def keeps_ok_def os_ok_def dm_start_def)
qed

section \<open>The steps seen from the mutex\<close>

lemma view_lock:
  assumes "dm_inv s" and "dm_pc s t = D_Out" and "a \<notin> dm_live s"
  shows "lock_view (dm_lock t a s) = mcs_enter t a (lock_view s)"
proof -
  have "\<forall>u. waits (dm_pc s u) \<noteq> Some a" using place_not_dead [OF assms(1,3)] by blast
  moreover have "a \<notin> kept (dm_pc s)" using assms(1,3) by (auto simp: dm_inv_def keeps_ok_def kept_def)
  ultimately show ?thesis using assms(2)
    by (auto simp: lock_view_def dm_lock_def mcs_enter_def start_lock_def view_pc_cong kept_same split: option.splits)
qed

lemma view_publish:
  assumes "dm_inv s" and "dm_pc s t = D_Publish a p"
  shows "lock_view (dm_publish t a p s) = lock_view s"
proof -
  have "waits (dm_pc s u) \<noteq> Some a" for u
    using place_unique(1) [OF assms(1), of t a u] waits_place [of "dm_pc s u" a] assms(2) by auto
  then show ?thesis using assms(2) by (auto simp: lock_view_def dm_publish_def view_pc_cong kept_same)
qed

lemma view_link:
  assumes "dm_inv s" and "dm_pc s t = D_Link a p"
  shows "lock_view (dm_link t a p s) = mgoto t (M_Parked a) ((lock_view s)\<lparr>my_mutex := mcs_link p a (my_mutex (lock_view s))\<rparr>)"
proof -
  have "dm_slot s a = Some t" using assms by (simp add: dm_inv_def slots_ok_def)
  then show ?thesis using assms(2) by (auto simp: lock_view_def dm_link_def kept_same)
qed

lemma woken_slot:
  assumes "dm_inv s" and "waits (dm_pc s t) = Some a" and "t \<in> dm_woken s"
  shows "dm_slot s a = None"
proof (cases "dm_slot s a")
  case (Some u)
  then have "place (dm_pc s u) = Some a" "u \<notin> dm_woken s"
    using assms(1) unfolding dm_inv_def slots_ok_def by fastforce+
  then show ?thesis using place_unique(1) [OF assms(1), of t a u] assms(2,3) by auto
qed

lemma view_moves:
  assumes "dm_inv s"
  shows "dm_pc s t = D_Wait a \<Longrightarrow> t \<in> dm_woken s \<Longrightarrow> lock_view (dm_resume t a s) = lock_view s"
    "dm_pc s t = D_Wait a \<Longrightarrow> lock_view (dm_os_check t a s) = lock_view s"
    "dm_pc s t = D_Asleep a \<Longrightarrow> lock_view (dm_os_return t a s) = lock_view s"
    "dm_pc s t = D_Spin a \<Longrightarrow> lock_view (dm_find t a s) = lock_view s"
  using woken_slot [OF assms, of t a]
  by (auto simp: lock_view_def dm_resume_def dm_os_check_def dm_os_return_def dm_find_def kept_same split: option.splits)

lemma view_drop:
  "dm_pc s t = D_In a \<Longrightarrow> lock_view (dm_drop t a s) = mcs_drop t a (lock_view s)"
  by (auto simp: lock_view_def dm_drop_def mcs_drop_def mcs_try_release_def dm_leave_def kept_same)

text \<open>A notifier finds its successor in the slot.\<close>

lemma notified_is_there:
  assumes "dm_inv s" and "dm_pc s t = D_Notify a b"
  obtains u where "dm_slot s b = Some u" and "waits (dm_pc s u) = Some b" and "view_pc (dm_slot s) (dm_pc s u) = M_Parked b"
proof -
  have r: "mcs_reachable (lock_view s)" and n: "mc_next (dm_mutex s) a = Some b"
    using assms by (auto simp: dm_inv_def slots_ok_def)
  have "my_pc (lock_view s) t = M_Unlocking a" using assms(2) by simp
  with mcs_unlocking_successor [OF r] obtain u c where
    "my_pc (lock_view s) u = M_Linking c a \<and> mc_next (my_mutex (lock_view s)) a = None \<or>
     my_pc (lock_view s) u = M_Parked c \<and> mc_next (my_mutex (lock_view s)) a = Some c" by blast
  then have u: "view_pc (dm_slot s) (dm_pc s u) = M_Parked b" using n by auto
  then have w: "waits (dm_pc s u) = Some b" "dm_slot s b \<noteq> None" by (cases "dm_pc s u"; auto split: if_splits)+
  then obtain v where v: "dm_slot s b = Some v" by blast
  then have "place (dm_pc s v) = Some b" using assms(1) unfolding dm_inv_def slots_ok_def by fastforce
  then have "v = u" using place_unique(1) [OF assms(1), of u b v] w(1) by auto
  with u w v that show thesis by blast
qed


lemma kept_less:
  assumes "keeps (pcs t) = Some a" and "\<And>t'. keeps (pcs t') = Some a \<Longrightarrow> t' = t"
  shows "kept (pcs(t := D_Out)) = kept pcs - {a}"
proof -
  have "(\<exists>u. keeps ((pcs(t := D_Out)) u) = Some b) \<longleftrightarrow> (\<exists>u. keeps (pcs u) = Some b) \<and> b \<noteq> a" for b
  proof
    assume "\<exists>u. keeps ((pcs(t := D_Out)) u) = Some b"
    then obtain u where "u \<noteq> t" "keeps (pcs u) = Some b" by (auto split: if_splits)
    then show "(\<exists>u. keeps (pcs u) = Some b) \<and> b \<noteq> a" using assms(2) [of u] by auto
  next
    assume "(\<exists>u. keeps (pcs u) = Some b) \<and> b \<noteq> a"
    then obtain u where "keeps (pcs u) = Some b" "b \<noteq> a" by blast
    then have "keeps ((pcs(t := D_Out)) u) = Some b" using assms(1) by auto
    then show "\<exists>u. keeps ((pcs(t := D_Out)) u) = Some b" by blast
  qed
  then show ?thesis unfolding kept_def by blast
qed

lemma view_take:
  assumes "dm_inv s" and "dm_pc s t = D_Notify a b" and "dm_slot s b = Some u" and "waits (dm_pc s u) = Some b"
  shows "lock_view (dm_take t a b s) = mcs_hand_over t a u b (lock_view s)"
proof -
  have "view_pc ((dm_slot s)(b := None)) (dm_pc s v) = view_pc (dm_slot s) (dm_pc s v)" if "v \<noteq> u" for v
  proof (rule view_pc_cong, rule notI)
    assume "waits (dm_pc s v) = Some b"
    from place_unique(1) [OF assms(1) waits_place [OF assms(4)] waits_place [OF this]] that show False by simp
  qed
  moreover have "view_pc ((dm_slot s)(b := None)) (dm_pc s u) = M_In b" using assms(4) by (auto simp: waits_cases)
  moreover have "u \<noteq> t" using assms(2,4) by auto
  ultimately show ?thesis using assms(2,3)
    by (auto simp: lock_view_def dm_take_def mcs_hand_over_def kept_more fun_eq_iff)
qed

lemma view_leave:
  assumes "dm_inv s" and "keeps (dm_pc s t) = Some a"
  shows "lock_view (dm_leave t a (s\<lparr>dm_woken := w\<rparr>)) = lock_view s" "lock_view (dm_leave t a (s\<lparr>dm_token := k\<rparr>)) = lock_view s"
proof -
  have "t' = t" if "keeps (dm_pc s t') = Some a" for t' using assms that by (auto simp: dm_inv_def keeps_ok_def)
  then have "kept ((dm_pc s)(t := D_Out)) = kept (dm_pc s) - {a}" by (intro kept_less [where pcs = "dm_pc s", OF assms(2)])
  moreover have a: "a \<in> kept (dm_pc s)" using assms(2) by (auto simp: kept_def)
  ultimately have "dm_live s - {a} - kept ((dm_pc s)(t := D_Out)) = dm_live s - kept (dm_pc s)" by auto
  moreover have "view_pc (dm_slot s) (dm_pc s t) = M_Out" using assms(2) by (cases "dm_pc s t") auto
  ultimately show "lock_view (dm_leave t a (s\<lparr>dm_woken := w\<rparr>)) = lock_view s" "lock_view (dm_leave t a (s\<lparr>dm_token := k\<rparr>)) = lock_view s"
    by (auto simp: lock_view_def dm_leave_def fun_eq_iff)
qed

lemma view_wakes:
  assumes "dm_inv s"
  shows "dm_pc s t = D_Wake a u \<Longrightarrow> lock_view (dm_wake t a u s) = lock_view s"
    "dm_pc s t = D_Store a u \<Longrightarrow> lock_view (dm_store t a u s) = lock_view s"
    "dm_pc s t = D_Unpark a u \<Longrightarrow> lock_view (dm_unpark t a u s) = lock_view s"
proof -
  show "lock_view (dm_wake t a u s) = lock_view s" if "dm_pc s t = D_Wake a u"
    using view_leave [OF assms, of t a] that
    by (auto simp: dm_wake_def lock_view_def kept_same fun_eq_iff split: waiter_kind.splits)
  show "lock_view (dm_store t a u s) = lock_view s" if "dm_pc s t = D_Store a u"
    using that by (auto simp: dm_store_def lock_view_def kept_same fun_eq_iff)
  show "lock_view (dm_unpark t a u s) = lock_view s" if "dm_pc s t = D_Unpark a u"
    using view_leave(2) [OF assms, of t a] that by (simp add: dm_unpark_def)
qed

text \<open>Every step of a careful run is a step of the MCS mutex, or none.\<close>

lemma view_step:
  assumes "dm_step True s s'" and "dm_inv s"
  shows "mcs_step (lock_view s) (lock_view s') \<or> lock_view s' = lock_view s"
  using assms
proof (induction rule: dm_step.induct)
  case (lock s t a)
  then have "mcs_step (lock_view s) (mcs_enter t a (lock_view s))" by (intro enter) simp_all
  then show ?case using lock view_lock by simp
next
  case (publish s t a p)
  then show ?case using view_publish by blast
next
  case (link s t a p)
  then have "my_pc (lock_view s) t = M_Linking a p" by simp
  from mcs_step.link [OF this] show ?case using view_link [OF link(2,1)] by simp
next
  case (resume s t a)
  then show ?case using view_moves(1) by (auto simp: dm_may_resume_def)
next
  case (drop s t a)
  then have "my_pc (lock_view s) t = M_In a" by simp
  from release [OF this] show ?case using view_drop [OF drop(1)] by simp
next
  case (take s t a b)
  obtain u where u: "dm_slot s b = Some u" "waits (dm_pc s u) = Some b" "view_pc (dm_slot s) (dm_pc s u) = M_Parked b"
    using notified_is_there [OF take(2,1)] by blast
  have "mc_next (my_mutex (lock_view s)) a = Some b" "my_pc (lock_view s) t = M_Unlocking a" "my_pc (lock_view s) u = M_Parked b"
    using take u by (auto simp: dm_inv_def slots_ok_def)
  from hand_over [OF this(2,1,3)] show ?case using view_take [OF take(2,1) u(1,2)] by simp
qed (use view_moves view_wakes in auto)

section \<open>The invariant is kept\<close>

lemma keeps_step:
  assumes "dm_step True s s'" and "dm_inv s"
  shows "keeps_ok s'"
  using assms
proof (induction rule: dm_step.induct)
  case (drop s t a)
  then show ?case using place_unique [OF drop(2), of t a]
    by (auto simp: keeps_ok_def dm_inv_def dm_drop_def mcs_try_release_def dm_leave_def)
next
  case (take s t a b)
  obtain u where u: "dm_slot s b = Some u" using notified_is_there [OF take(2,1)] by blast
  show ?case using place_unique [OF take(2), of t a] take u
    by (auto simp: keeps_ok_def dm_inv_def dm_take_def)
next
  case (wake s t a u)
  then show ?case
    by (auto simp: keeps_ok_def dm_inv_def dm_wake_def dm_leave_def split: waiter_kind.splits; metis keeps.simps(1))
next
  case (unpark s t a u)
  then show ?case
    by (auto simp: keeps_ok_def dm_inv_def dm_unpark_def dm_leave_def; metis keeps.simps(3))
next
  case (store s t a u)
  then show ?case by (auto simp: keeps_ok_def dm_inv_def dm_store_def; metis keeps.simps(2))
qed (auto simp: keeps_ok_def dm_inv_def dm_lock_def start_lock_def dm_publish_def dm_link_def dm_resume_def
    dm_os_check_def dm_os_return_def dm_find_def split: option.splits)


text \<open>A step that leaves the slots alone keeps what they hold if the thread that moves fits it.\<close>

lemma slots_frame:
  assumes "slots_ok s" and "dm_slot s' = dm_slot s" and "\<And>u b c. dm_pc s u = D_Notify b c \<Longrightarrow> mc_next (dm_mutex s') b = mc_next (dm_mutex s) b"
    and "dm_pc s' = (dm_pc s)(t := pc)" and "\<And>a u. dm_slot s a = Some u \<Longrightarrow> u \<notin> dm_woken s'"
    and "\<And>a. dm_slot s a = Some t \<Longrightarrow> in_slot pc = Some a"
    and "\<And>a p. pc \<noteq> D_Link a p" "\<And>a p. pc \<noteq> D_Publish a p"
    and "\<And>a b. pc = D_Notify a b \<Longrightarrow> mc_next (dm_mutex s') a = Some b"
  shows "slots_ok s'"
  using assms unfolding slots_ok_def by (simp (no_asm_simp)) fastforce

lemma not_in_slot: "slots_ok s \<Longrightarrow> in_slot (dm_pc s t) = None \<Longrightarrow> dm_slot s a \<noteq> Some t"
  by (auto simp: slots_ok_def)

lemma empty_slot: "slots_ok s \<Longrightarrow> in_slot (dm_pc s t) = Some a \<Longrightarrow> dm_slot s a = None \<Longrightarrow> dm_slot s b \<noteq> Some t"
  by (auto simp: slots_ok_def)

lemma in_that_slot: "slots_ok s \<Longrightarrow> dm_slot s b = Some t \<Longrightarrow> in_slot (dm_pc s t) = Some b"
  by (auto simp: slots_ok_def)

lemma slot_asleep: "slots_ok s \<Longrightarrow> dm_slot s a = Some u \<Longrightarrow> u \<notin> dm_woken s"
  by (auto simp: slots_ok_def)


lemma slots_lock:
  assumes "dm_inv s" and "dm_pc s t = D_Out" and "a \<notin> dm_live s"
  shows "slots_ok (dm_lock t a s)"
proof -
  have S: "slots_ok s" using assms(1) by (simp add: dm_inv_def)
  have no: "dm_pc s u \<noteq> D_Publish a p" "dm_pc s u \<noteq> D_Link a p" "dm_pc s u \<noteq> D_Notify a b" for u p b
    using place_not_dead [OF assms(1,3), of u] by auto
  have nt: "dm_slot s b \<noteq> Some t" for b using not_in_slot [OF S] assms(2) by simp
  show ?thesis using S no nt assms(2)
    by (auto simp: slots_ok_def dm_lock_def start_lock_def split: option.splits if_splits)
qed

lemma slots_publish:
  assumes "dm_inv s" and "dm_pc s t = D_Publish a p"
  shows "slots_ok (dm_publish t a p s)"
proof -
  have S: "slots_ok s" using assms(1) by (simp add: dm_inv_def)
  have "dm_pc s u \<noteq> D_Publish a q" "dm_pc s u \<noteq> D_Link a q" if "u \<noteq> t" for u q
    using place_unique(1) [OF assms(1), of t a u] assms(2) that by auto
  moreover have "dm_slot s b \<noteq> Some t" for b using not_in_slot [OF S] assms(2) by simp
  ultimately show ?thesis using S assms(2)
    by (auto simp: slots_ok_def dm_publish_def split: if_splits)
qed

text \<open>The link a waiter sets was not set before, so it changes nothing a notifier has read.\<close>

lemma link_is_new:
  assumes "dm_inv s" and "dm_pc s t = D_Link a p"
  shows "mc_next (dm_mutex s) p = None"
proof -
  have m: "my_pc (lock_view s) t = M_Linking a p" using assms(2) by simp
  have "mcs_reachable (lock_view s)" using assms(1) by (simp add: dm_inv_def)
  then obtain q where q: "mcs_rep (lock_view s) q" using mcs_reachable_rep by blast
  have h: "my_pc (lock_view s) t = M_Linking a p \<or> my_pc (lock_view s) t = M_Parked a" using m by simp
  obtain i where i: "Suc i < length q" "q ! Suc i = (t, a)" "snd (q ! i) = p"
    using waiter_is_behind [OF q h] m by blast
  have "link_ok (my_pc (lock_view s)) (mc_next (dm_mutex s)) (q ! i) (t, a)"
    using behind [OF q i(2,1)] by simp
  then show ?thesis using m i(3) by (auto simp: link_ok_def)
qed

lemma slots_link:
  assumes "dm_inv s" and "dm_pc s t = D_Link a p"
  shows "slots_ok (dm_link t a p s)"
proof -
  have S: "slots_ok s" using assms(1) by (simp add: dm_inv_def)
  have "dm_pc s u \<noteq> D_Notify p b" for u b
    using link_is_new [OF assms] S by (auto simp: slots_ok_def)
  then show ?thesis
    by (intro slots_frame [OF S, where t = t and pc = "D_Wait a"])
      (use slot_asleep [OF S] in_that_slot [OF S, of _ t] assms(2) in \<open>auto simp: dm_link_def mcs_link_def\<close>)
qed

lemma slots_leave:
  assumes "slots_ok s" and "\<And>b. dm_slot s b \<noteq> Some t" and "\<And>b u. dm_slot s b = Some u \<Longrightarrow> u \<notin> w"
  shows "slots_ok (dm_leave t a (s\<lparr>dm_woken := w\<rparr>))"
  by (rule slots_frame [OF assms(1), where t = t and pc = D_Out]) (use assms in \<open>auto simp: dm_leave_def\<close>)

lemma slots_take:
  assumes "dm_inv s" and "dm_pc s t = D_Notify a b"
  shows "slots_ok (dm_take t a b s)"
proof -
  have S: "slots_ok s" using assms(1) by (simp add: dm_inv_def)
  obtain u where u: "dm_slot s b = Some u" "waits (dm_pc s u) = Some b" using notified_is_there [OF assms] by blast
  have "slots_ok (dgoto t (D_Wake a u) s)"
    by (rule slots_frame [OF S, where t = t and pc = "D_Wake a u"])
      (use S assms(2) slot_asleep [OF S] not_in_slot [OF S, of t] in auto)
  moreover have "dm_pc s v \<noteq> D_Link b q" for v q
    using place_unique(1) [OF assms(1), of u b v] u(2) by (auto simp: waits_cases)
  ultimately show ?thesis using u(1) by (auto simp: slots_ok_def dm_take_def split: if_splits)
qed

text \<open>A waiter about to be woken is in no slot any more.\<close>

lemma woken_not_in_slot:
  assumes "dm_inv s" and "wakes (dm_pc s t) = Some u"
  shows "dm_slot s b \<noteq> Some u"
proof -
  obtain a where "waits (dm_pc s u) = Some a" "dm_slot s a = None"
    using assms unfolding dm_inv_def wakes_ok_def by blast
  then show ?thesis using assms(1) empty_slot [of s u a b] waits_in_slot by (auto simp: dm_inv_def)
qed

lemma slots_wake:
  assumes "dm_inv s" and "dm_pc s t = D_Wake a u"
  shows "slots_ok (dm_wake t a u s)"
proof -
  have S: "slots_ok s" using assms(1) by (simp add: dm_inv_def)
  have t: "dm_slot s b \<noteq> Some t" for b using not_in_slot [OF S] assms(2) by simp
  have u: "dm_slot s b \<noteq> Some u" for b using woken_not_in_slot [OF assms(1), of t u] assms(2) by simp
  have "slots_ok (dgoto t (D_Store a u) s)"
    by (rule slots_frame [OF S, where t = t and pc = "D_Store a u"]) (use slot_asleep [OF S] t in auto)
  moreover have "slots_ok (dm_leave t a (s\<lparr>dm_woken := insert u (dm_woken s)\<rparr>))"
    by (rule slots_leave [OF S t]) (use u slot_asleep [OF S] in auto)
  ultimately show ?thesis by (simp add: dm_wake_def split: waiter_kind.split)
qed

lemma slots_step:
  assumes "dm_step True s s'" and "dm_inv s"
  shows "slots_ok s'"
  using assms
proof (induction rule: dm_step.induct)
  case (resume s t a)
  have S: "slots_ok s" using resume(3) by (simp add: dm_inv_def)
  have "dm_slot s a = None" using woken_slot [OF resume(3), of t a] resume(1,2) by (simp add: dm_may_resume_def)
  then have "dm_slot s b \<noteq> Some t" for b using empty_slot [OF S, of t a b] resume(1) by simp
  then show ?case
    by (intro slots_frame [OF S, where t = t and pc = "D_In a"]) (use slot_asleep [OF S] in \<open>auto simp: dm_resume_def\<close>)
next
  case (os_check s t a)
  have S: "slots_ok s" using os_check(3) by (simp add: dm_inv_def)
  have "t \<in> dm_woken s \<Longrightarrow> dm_slot s a = None" using woken_slot [OF os_check(3), of t a] os_check(1) by simp
  then have n: "t \<in> dm_woken s \<Longrightarrow> dm_slot s b \<noteq> Some t" for b using empty_slot [OF S, of t a b] os_check(1) by simp
  have i: "dm_slot s b = Some t \<Longrightarrow> b = a" for b using in_that_slot [OF S, of b t] os_check(1) by simp
  show ?case unfolding dm_os_check_def
    by (rule slots_frame [OF S, where t = t and pc = "if t \<in> dm_woken s then D_In a else D_Asleep a"])
      (use slot_asleep [OF S] n i in \<open>auto split: if_splits\<close>)
next
  case (os_return s t a)
  have S: "slots_ok s" using os_return(2) by (simp add: dm_inv_def)
  have i: "dm_slot s b = Some t \<Longrightarrow> b = a" for b using in_that_slot [OF S, of b t] os_return(1) by simp
  show ?case unfolding dm_os_return_def
    by (rule slots_frame [OF S, where t = t and pc = "D_Wait a"]) (use slot_asleep [OF S] i in auto)
next
  case (drop s t a)
  have S: "slots_ok s" using drop(2) by (simp add: dm_inv_def)
  have t: "dm_slot s b \<noteq> Some t" for b using not_in_slot [OF S] drop(1) by simp
  show ?case
    by (rule slots_frame [OF S, where t = t and pc = "if mc_tail (dm_mutex s) = Some a then D_Out else D_Spin a"])
      (use slot_asleep [OF S] t in \<open>auto simp: dm_drop_def mcs_try_release_def dm_leave_def split: if_splits\<close>)
next
  case (find s t a)
  have S: "slots_ok s" using find(2) by (simp add: dm_inv_def)
  have t: "dm_slot s b \<noteq> Some t" for b using not_in_slot [OF S] find(1) by simp
  show ?case
  proof (cases "mc_next (dm_mutex s) a")
    case None
    then show ?thesis using S by (simp add: dm_find_def)
  next
    case (Some b)
    then show ?thesis
      by (intro slots_frame [OF S, where t = t and pc = "D_Notify a b"])
        (use slot_asleep [OF S] t in \<open>auto simp: dm_find_def\<close>)
  qed
next
  case (store s t a u)
  have S: "slots_ok s" using store(2) by (simp add: dm_inv_def)
  have t: "dm_slot s b \<noteq> Some t" for b using not_in_slot [OF S] store(1) by simp
  have u: "dm_slot s b \<noteq> Some u" for b using woken_not_in_slot [OF store(2), of t u] store(1) by simp
  show ?case unfolding dm_store_def
    by (rule slots_frame [OF S, where t = t and pc = "D_Unpark a u"]) (use slot_asleep [OF S] t u in auto)
next
  case (unpark s t a u)
  have S: "slots_ok s" using unpark(2) by (simp add: dm_inv_def)
  have t: "dm_slot s b \<noteq> Some t" for b using not_in_slot [OF S] unpark(1) by simp
  show ?case unfolding dm_unpark_def dm_leave_def
    by (rule slots_frame [OF S, where t = t and pc = D_Out]) (use slot_asleep [OF S] t in auto)
qed (use slots_lock slots_publish slots_link slots_take slots_wake in auto)


text \<open>Steps in which nobody starts or finishes waking a waiter.\<close>

lemma wakes_frame:
  assumes W: "wakes_ok s" and pc: "dm_pc s' = (dm_pc s)(t := pc)"
    and wk: "wakes pc = wakes (dm_pc s t)"
    and slot: "\<And>u a. u \<noteq> t \<Longrightarrow> waits (dm_pc s u) = Some a \<Longrightarrow> dm_slot s' a = dm_slot s a"
    and woken: "\<And>u a. u \<noteq> t \<Longrightarrow> waits (dm_pc s u) = Some a \<Longrightarrow> (u \<in> dm_woken s') = (u \<in> dm_woken s)"
    and own: "waits pc = waits (dm_pc s t) \<and> dm_slot s' = dm_slot s \<and> dm_woken s' = dm_woken s \<or>
      (\<forall>t'. wakes (dm_pc s t') \<noteq> Some t) \<and> (\<forall>a. waits pc = Some a \<longrightarrow> dm_slot s' a \<noteq> None)"
  shows "wakes_ok s'"
proof -
  have wakes': "wakes (dm_pc s' u) = wakes (dm_pc s u)" for u using pc wk by simp
  have other: "u \<noteq> t \<Longrightarrow> dm_pc s' u = dm_pc s u" for u using pc by simp
  have self: "dm_pc s' t = pc" using pc by simp
  have 1: "u \<in> dm_woken s' \<or> (\<exists>t'. wakes (dm_pc s' t') = Some u)"
    if h: "waits (dm_pc s' u) = Some a" "dm_slot s' a = None" for u a
  proof (cases "u = t")
    case True
    then show ?thesis using h W own self wakes' unfolding wakes_ok_def by metis
  next
    case False
    then show ?thesis using h W slot [OF False, of a] woken [OF False, of a] wakes' other [OF False]
      unfolding wakes_ok_def by metis
  qed
  have 2: "u \<notin> dm_woken s' \<and> (\<exists>a. waits (dm_pc s' u) = Some a \<and> dm_slot s' a = None)"
    if h: "wakes (dm_pc s' t') = Some u" for t' u
  proof -
    have h': "wakes (dm_pc s t') = Some u" using h wakes' by simp
    then obtain a where a: "u \<notin> dm_woken s" "waits (dm_pc s u) = Some a" "dm_slot s a = None"
      using W unfolding wakes_ok_def by blast
    show ?thesis
    proof (cases "u = t")
      case True
      then show ?thesis using own h' a self by metis
    next
      case False
      then show ?thesis using a slot [OF False a(2)] woken [OF False a(2)] other [OF False] by metis
    qed
  qed
  have 3: "t1 = t2" if "wakes (dm_pc s' t1) = Some u" "wakes (dm_pc s' t2) = Some u" for t1 t2 u
    using that W unfolding wakes' wakes_ok_def by blast
  show ?thesis unfolding wakes_ok_def using 1 2 3 by blast
qed

lemma nobody_wakes:
  assumes "wakes_ok s"
  shows "waits (dm_pc s t) = None \<Longrightarrow> wakes (dm_pc s u) \<noteq> Some t" "t \<in> dm_woken s \<Longrightarrow> wakes (dm_pc s u) \<noteq> Some t"
  using assms unfolding wakes_ok_def by fastforce+

text \<open>A notifier takes a waiter from its slot, and later is done with it.\<close>

lemma wakes_begin:
  assumes W: "wakes_ok s" and t: "wakes (dm_pc s t) = None" "waits (dm_pc s t) = None"
    and u: "waits (dm_pc s u) = Some b" "dm_slot s b = Some u" "u \<notin> dm_woken s"
    and one: "\<And>v. waits (dm_pc s v) = Some b \<Longrightarrow> v = u"
  shows "wakes_ok (dgoto t (D_Wake a u) (s\<lparr>dm_slot := (dm_slot s)(b := None)\<rparr>))" (is "wakes_ok ?s'")
proof -
  have none: "wakes (dm_pc s v) \<noteq> Some u" for v
    using W u(1,2) unfolding wakes_ok_def by fastforce
  have wt: "waits (dm_pc ?s' v) = waits (dm_pc s v)" for v using t(2) by simp
  have wk: "wakes (dm_pc ?s' v) = (if v = t then Some u else wakes (dm_pc s v))" for v by simp
  have 1: "v \<in> dm_woken s \<or> (\<exists>t'. wakes (dm_pc ?s' t') = Some v)"
    if h: "waits (dm_pc s v) = Some c" "dm_slot ?s' c = None" for v c
  proof (cases "v = u")
    case True
    then show ?thesis using wk [of t] by auto
  next
    case False
    then have "dm_slot s c = None" using h one [of v] by (auto split: if_splits)
    then have "v \<in> dm_woken s \<or> (\<exists>t'. wakes (dm_pc s t') = Some v)" using W h(1) unfolding wakes_ok_def by blast
    then show ?thesis using wk t(1) by (metis option.distinct(1))
  qed
  have 2: "v \<notin> dm_woken s \<and> (\<exists>c. waits (dm_pc s v) = Some c \<and> dm_slot ?s' c = None)"
    if h: "wakes (dm_pc ?s' t') = Some v" for t' v
  proof (cases "t' = t")
    case True
    then show ?thesis using h wk u by auto
  next
    case False
    then have "wakes (dm_pc s t') = Some v" using h wk by simp
    then obtain c where "v \<notin> dm_woken s" "waits (dm_pc s v) = Some c" "dm_slot s c = None"
      using W unfolding wakes_ok_def by blast
    then show ?thesis by auto
  qed
  have 3: "t1 = t2" if h: "wakes (dm_pc ?s' t1) = Some v" "wakes (dm_pc ?s' t2) = Some v" for t1 t2 v
  proof (cases "v = u")
    case True
    then show ?thesis using h none wk by (metis (full_types))
  next
    case False
    then have "wakes (dm_pc s t1) = Some v" "wakes (dm_pc s t2) = Some v" using h wk by (metis option.inject)+
    then show ?thesis using W unfolding wakes_ok_def by blast
  qed
  have w: "dm_woken ?s' = dm_woken s" by simp
  show ?thesis unfolding wakes_ok_def wt w using 1 2 3 by blast
qed

lemma wakes_end:
  assumes W: "wakes_ok s" and t: "wakes (dm_pc s t) = Some u" and pc: "wakes pc = None" "waits pc = None"
    and s': "dm_pc s' = (dm_pc s)(t := pc)" "dm_slot s' = dm_slot s" "dm_woken s' = insert u (dm_woken s)"
  shows "wakes_ok s'"
proof -
  have t2: "waits (dm_pc s t) = None" using t by (cases "dm_pc s t") auto
  have one: "wakes (dm_pc s v) = Some u \<Longrightarrow> v = t" for v using W t unfolding wakes_ok_def by blast
  have wt: "waits (dm_pc s' v) = waits (dm_pc s v)" for v using pc s' t2 by simp
  have wk: "wakes (dm_pc s' v) = Some w \<longleftrightarrow> wakes (dm_pc s v) = Some w \<and> w \<noteq> u" for v w
  proof (cases "v = t")
    case True
    then show ?thesis using t pc(1) s'(1) by simp
  next
    case False
    then show ?thesis using one [of v] s'(1) by auto
  qed
  have 1: "v \<in> dm_woken s' \<or> (\<exists>t'. wakes (dm_pc s' t') = Some v)"
    if h: "waits (dm_pc s v) = Some c" "dm_slot s c = None" for v c
  proof -
    have "v \<in> dm_woken s \<or> (\<exists>t'. wakes (dm_pc s t') = Some v)" using W h unfolding wakes_ok_def by blast
    then show ?thesis using wk s'(3) by blast
  qed
  have 2: "v \<notin> dm_woken s' \<and> (\<exists>c. waits (dm_pc s v) = Some c \<and> dm_slot s c = None)"
    if h: "wakes (dm_pc s' t') = Some v" for t' v
    using W h s'(3) unfolding wk wakes_ok_def by blast
  have 3: "t1 = t2" if "wakes (dm_pc s' t1) = Some v" "wakes (dm_pc s' t2) = Some v" for t1 t2 v
    using W that unfolding wk wakes_ok_def by blast
  show ?thesis unfolding wakes_ok_def wt s'(2) using 1 2 3 by blast
qed


lemma wakes_step:
  assumes "dm_step True s s'" and "dm_inv s"
  shows "wakes_ok s'"
  using assms
proof (induction rule: dm_step.induct)
  case (lock s t a)
  have W: "wakes_ok s" using lock(3) by (simp add: dm_inv_def)
  have "waits (dm_pc s u) \<noteq> Some a" for u using place_not_dead [OF lock(3,2)] waits_place by blast
  then show ?case
    by (intro wakes_frame [OF W, where t = t and pc = "case mc_tail (dm_mutex s) of None \<Rightarrow> D_In a | Some p \<Rightarrow> D_Publish a p"])
      (use lock(1) nobody_wakes(1) [OF W, of t] in \<open>auto simp: dm_lock_def start_lock_def split: option.splits\<close>)
next
  case (publish s t a p)
  have W: "wakes_ok s" using publish(2) by (simp add: dm_inv_def)
  have "waits (dm_pc s u) \<noteq> Some a" for u
    using place_unique(1) [OF publish(2), of t a u] waits_place [of "dm_pc s u" a] publish(1) by auto
  then show ?case
    by (intro wakes_frame [OF W, where t = t and pc = "D_Link a p"])
      (use publish(1) nobody_wakes(1) [OF W, of t] in \<open>auto simp: dm_publish_def\<close>)
next
  case (link s t a p)
  have W: "wakes_ok s" using link(2) by (simp add: dm_inv_def)
  have "dm_slot s a = Some t" using link by (auto simp: dm_inv_def slots_ok_def)
  then show ?case
    by (intro wakes_frame [OF W, where t = t and pc = "D_Wait a"])
      (use link(1) nobody_wakes(1) [OF W, of t] in \<open>auto simp: dm_link_def\<close>)
next
  case (resume s t a)
  have W: "wakes_ok s" using resume(3) by (simp add: dm_inv_def)
  show ?case
    by (intro wakes_frame [OF W, where t = t and pc = "D_In a"])
      (use resume(1,2) nobody_wakes(2) [OF W, of t] in \<open>auto simp: dm_resume_def dm_may_resume_def\<close>)
next
  case (os_check s t a)
  have W: "wakes_ok s" using os_check(3) by (simp add: dm_inv_def)
  show ?case
    by (intro wakes_frame [OF W, where t = t and pc = "if t \<in> dm_woken s then D_In a else D_Asleep a"])
      (use os_check(1) nobody_wakes(2) [OF W, of t] in \<open>auto simp: dm_os_check_def\<close>)
next
  case (os_return s t a)
  have W: "wakes_ok s" using os_return(2) by (simp add: dm_inv_def)
  show ?case
    by (intro wakes_frame [OF W, where t = t and pc = "D_Wait a"]) (use os_return(1) in \<open>auto simp: dm_os_return_def\<close>)
next
  case (drop s t a)
  have W: "wakes_ok s" using drop(2) by (simp add: dm_inv_def)
  show ?case
    by (intro wakes_frame [OF W, where t = t and pc = "if mc_tail (dm_mutex s) = Some a then D_Out else D_Spin a"])
      (use drop(1) in \<open>auto simp: dm_drop_def mcs_try_release_def dm_leave_def\<close>)
next
  case (find s t a)
  have W: "wakes_ok s" using find(2) by (simp add: dm_inv_def)
  show ?case
    by (intro wakes_frame [OF W, where t = t and pc = "case mc_next (dm_mutex s) a of None \<Rightarrow> D_Spin a | Some b \<Rightarrow> D_Notify a b"])
      (use find(1) in \<open>auto simp: dm_find_def split: option.splits\<close>)
next
  case (take s t a b)
  have W: "wakes_ok s" and S: "slots_ok s" using take(2) by (simp_all add: dm_inv_def)
  obtain u where u: "dm_slot s b = Some u" "waits (dm_pc s u) = Some b" using notified_is_there [OF take(2,1)] by blast
  have "v = u" if "waits (dm_pc s v) = Some b" for v
    by (rule place_unique(1) [OF take(2) waits_place [OF u(2)] waits_place [OF that]])
  from wakes_begin [OF W _ _ u(2,1) slot_asleep [OF S u(1)] this, of t a] show ?case
    using take(1) u(1) by (simp add: dm_take_def)
next
  case (wake s t a u)
  have W: "wakes_ok s" using wake(2) by (simp add: dm_inv_def)
  have "wakes_ok (dgoto t (D_Store a u) s)"
    by (intro wakes_frame [OF W, where t = t and pc = "D_Store a u"]) (use wake(1) in auto)
  moreover have "wakes_ok (dm_leave t a (s\<lparr>dm_woken := insert u (dm_woken s)\<rparr>))"
    by (rule wakes_end [OF W, of t u D_Out]) (use wake(1) in \<open>auto simp: dm_leave_def\<close>)
  ultimately show ?case by (simp add: dm_wake_def split: waiter_kind.split)
next
  case (store s t a u)
  have W: "wakes_ok s" using store(2) by (simp add: dm_inv_def)
  show ?case unfolding dm_store_def
    by (rule wakes_end [OF W, of t u "D_Unpark a u"]) (use store(1) in auto)
next
  case (unpark s t a u)
  have W: "wakes_ok s" using unpark(2) by (simp add: dm_inv_def)
  show ?case
    by (intro wakes_frame [OF W, where t = t and pc = D_Out]) (use unpark(1) in \<open>auto simp: dm_unpark_def dm_leave_def\<close>)
qed simp

lemma os_frame:
  assumes O: "os_ok s" and pc: "dm_pc s' = (dm_pc s)(t := pc)" and k: "dm_kind s' = dm_kind s"
    and own: "\<And>a. pc = D_Asleep a \<Longrightarrow> dm_kind s t = K_Os \<and> t \<notin> dm_woken s'"
    and woken: "\<And>u a. u \<noteq> t \<Longrightarrow> dm_pc s u = D_Asleep a \<Longrightarrow> u \<in> dm_woken s' \<Longrightarrow>
      u \<in> dm_woken s \<or> (\<exists>b. pc = D_Unpark b u)"
    and token: "\<And>u. u \<noteq> t \<Longrightarrow> u \<in> dm_token s \<Longrightarrow> u \<in> dm_token s'"
    and unpark: "\<And>b u. dm_pc s t = D_Unpark b u \<Longrightarrow> u \<in> dm_token s'"
  shows "os_ok s'"
proof -
  have "dm_kind s u = K_Os \<and> (u \<in> dm_woken s' \<longrightarrow> u \<in> dm_token s' \<or> (\<exists>t' b. dm_pc s' t' = D_Unpark b u))"
    if h: "dm_pc s' u = D_Asleep a" for u a
  proof (cases "u = t")
    case True
    then show ?thesis using h own pc by simp
  next
    case False
    then have a: "dm_pc s u = D_Asleep a" using h pc by simp
    have "u \<in> dm_token s' \<or> (\<exists>t' b. dm_pc s' t' = D_Unpark b u)" if w: "u \<in> dm_woken s'"
    proof (cases "\<exists>b. pc = D_Unpark b u")
      case True
      then obtain b where "pc = D_Unpark b u" by blast
      then have "dm_pc s' t = D_Unpark b u" using pc by simp
      then show ?thesis by blast
    next
      case no: False
      then have "u \<in> dm_woken s" using woken [OF False a w] by blast
      then have "u \<in> dm_token s \<or> (\<exists>t' b. dm_pc s t' = D_Unpark b u)" using O a by (simp add: os_ok_def)
      then show ?thesis
      proof (elim disjE exE)
        fix t' b assume b: "dm_pc s t' = D_Unpark b u"
        show ?thesis
        proof (cases "t' = t")
          case True
          then show ?thesis using unpark b by blast
        next
          case False
          then have "dm_pc s' t' = D_Unpark b u" using b pc by simp
          then show ?thesis by blast
        qed
      qed (use token False in blast)
    qed
    then show ?thesis using O a by (simp add: os_ok_def)
  qed
  then show ?thesis by (simp add: os_ok_def k)
qed

lemma os_step:
  assumes "dm_step True s s'" and "dm_inv s"
  shows "os_ok s'"
proof -
  have O: "os_ok s" using assms(2) by (simp add: dm_inv_def)
  have K: "dm_kind s u = K_Os" if "dm_pc s u = D_Asleep a" for u a using O that by (simp add: os_ok_def)
  from assms(1) show ?thesis using O K
  proof (cases rule: dm_step.cases)
    case (lock t a)
    show ?thesis
      by (rule os_frame [OF O, where t = t and pc = "case mc_tail (dm_mutex s) of None \<Rightarrow> D_In a | Some p \<Rightarrow> D_Publish a p"])
        (use lock in \<open>auto simp: dm_lock_def start_lock_def split: option.splits\<close>)
  next
    case (find t a)
    show ?thesis
      by (rule os_frame [OF O, where t = t and pc = "case mc_next (dm_mutex s) a of None \<Rightarrow> D_Spin a | Some b \<Rightarrow> D_Notify a b"])
        (use find in \<open>auto simp: dm_find_def split: option.splits\<close>)
  next
    case (take t a b)
    show ?thesis
      by (rule os_frame [OF O, where t = t and pc = "case dm_slot s b of None \<Rightarrow> D_Out | Some u \<Rightarrow> D_Wake a u"])
        (use take in \<open>auto simp: dm_take_def dm_leave_def split: option.splits\<close>)
  next
    case (drop t a)
    show ?thesis
      by (rule os_frame [OF O, where t = t and pc = "if mc_tail (dm_mutex s) = Some a then D_Out else D_Spin a"])
        (use drop in \<open>auto simp: dm_drop_def mcs_try_release_def dm_leave_def split: if_splits\<close>)
  next
    case (wake t a u)
    show ?thesis
      by (rule os_frame [OF O, where t = t and pc = "if dm_kind s u = K_Os then D_Store a u else D_Out"])
        (use wake K in \<open>auto simp: dm_wake_def dm_leave_def split: waiter_kind.splits\<close>)
  next
    case (os_check t a)
    show ?thesis
      by (rule os_frame [OF O, where t = t and pc = "if t \<in> dm_woken s then D_In a else D_Asleep a"])
        (use os_check in \<open>auto simp: dm_os_check_def split: if_splits\<close>)
  next
    case (publish t a p)
    show ?thesis by (rule os_frame [OF O, where t = t and pc = "D_Link a p"]) (use publish in \<open>auto simp: dm_publish_def\<close>)
  next
    case (link t a p)
    show ?thesis by (rule os_frame [OF O, where t = t and pc = "D_Wait a"]) (use link in \<open>auto simp: dm_link_def\<close>)
  next
    case (resume t a)
    show ?thesis by (rule os_frame [OF O, where t = t and pc = "D_In a"]) (use resume in \<open>auto simp: dm_resume_def\<close>)
  next
    case (os_return t a)
    show ?thesis by (rule os_frame [OF O, where t = t and pc = "D_Wait a"]) (use os_return in \<open>auto simp: dm_os_return_def\<close>)
  next
    case (store t a u)
    show ?thesis by (rule os_frame [OF O, where t = t and pc = "D_Unpark a u"]) (use store in \<open>auto simp: dm_store_def\<close>)
  next
    case (unpark t a u)
    show ?thesis by (rule os_frame [OF O, where t = t and pc = D_Out]) (use unpark in \<open>auto simp: dm_unpark_def dm_leave_def\<close>)
  qed simp
qed


lemma dm_step_inv: "dm_step True s s' \<Longrightarrow> dm_inv s \<Longrightarrow> dm_inv s'"
proof -
  assume st: "dm_step True s s'" and i: "dm_inv s"
  have "mcs_reachable (lock_view s)" using i by (simp add: dm_inv_def)
  then have "mcs_reachable (lock_view s')" using view_step [OF st i] mcs_next by auto
  then show "dm_inv s'"
    using slots_step [OF st i] wakes_step [OF st i] keeps_step [OF st i] os_step [OF st i] by (simp add: dm_inv_def)
qed

lemma dm_reachable_inv: "dm_reachable True s \<Longrightarrow> dm_inv s"
  by (induction rule: dm_reachable.induct) (use dm_start_inv dm_step_inv in blast)+

section \<open>Properties\<close>

text \<open>A holder is one in the mutex it implements.\<close>

lemma mcs_one_holder:
  assumes "mcs_reachable m" and "my_pc m t = M_In a" and "my_pc m u = M_In b"
  shows "t = u"
proof -
  obtain q where q: "mcs_rep m q" using mcs_reachable_rep [OF assms(1)] by blast
  show ?thesis using holder_is_head [OF q, of t a] holder_is_head [OF q, of u b] assms(2,3) by auto
qed

text \<open>
  C14: with waiters of all three kinds the dual mutex implements the MCS mutex, as long as a pending
  \<open>lock\<close> is polled again only once it has been woken and is not dropped: seen through \<open>lock_view\<close>,
  every step is one of the MCS mutex or none, so that at most one thread has the guard; and nobody has
  it while the waiter it was handed to is still on its way.
\<close>

theorem dual_mutex_refines_mcs:
  assumes "dm_reachable True s" and "dm_step True s s'"
  shows "mcs_reachable (lock_view s) \<and> (mcs_step (lock_view s) (lock_view s') \<or> lock_view s' = lock_view s) \<and>
    (\<forall>t u a b. dm_pc s t = D_In a \<longrightarrow> dm_pc s u = D_In b \<longrightarrow> t = u) \<and>
    (\<forall>t u a b. dm_pc s t = D_In a \<longrightarrow> waits (dm_pc s u) = Some b \<longrightarrow> dm_slot s b \<noteq> None)"
proof -
  have i: "dm_inv s" using dm_reachable_inv [OF assms(1)] .
  then have r: "mcs_reachable (lock_view s)" by (simp add: dm_inv_def)
  have "dm_slot s b \<noteq> None" if h: "dm_pc s t = D_In a" "waits (dm_pc s u) = Some b" for t u a b
  proof
    assume "dm_slot s b = None"
    then have "my_pc (lock_view s) u = M_In b" using h(2) by (auto simp: waits_cases)
    then have "t = u" using mcs_one_holder [OF r, of t a u b] h(1) by simp
    then show False using h by simp
  qed
  moreover have "t = u" if "dm_pc s t = D_In a" "dm_pc s u = D_In b" for t u a b
    using mcs_one_holder [OF r, of t a u b] that by simp
  ultimately show ?thesis using r view_step [OF assms(2) i] by blast
qed

text \<open>The nodes a thread is about to read or write, other than through the guard.\<close>

fun touches :: "dm_pc \<Rightarrow> nat set" where
  "touches (D_Publish a p) = {a}"
| "touches (D_Link a p) = {p}"
| "touches (D_Spin a) = {a}"
| "touches (D_Notify a b) = {b}"
| "touches _ = {}"

lemma touches_live:
  assumes "dm_inv s" and "a \<in> touches (dm_pc s t)"
  shows "a \<in> dm_live s"
proof (cases "dm_pc s t")
  case (D_Publish c p)
  then show ?thesis using place_unique(2) [OF assms(1), of t a] assms(2) by simp
next
  case (D_Spin c)
  then show ?thesis using place_unique(2) [OF assms(1), of t a] assms(2) by simp
next
  case (D_Link c p)
  then have "a = p" using assms(2) by simp
  have m: "my_pc (lock_view s) t = M_Linking c p" using D_Link by simp
  have r: "mcs_reachable (lock_view s)" using assms(1) by (simp add: dm_inv_def)
  obtain q where q: "mcs_rep (lock_view s) q" using mcs_reachable_rep [OF r] by blast
  have h: "my_pc (lock_view s) t = M_Linking c p \<or> my_pc (lock_view s) t = M_Parked c" using m by simp
  obtain i where i: "Suc i < length q" "snd (q ! i) = p" using waiter_is_behind [OF q h] m by blast
  then have "q ! i \<in> set q" by simp
  then have "p \<in> my_live (lock_view s)" using i(2) q by (force simp: mcs_rep_def queue_ok_def)
  then show ?thesis using \<open>a = p\<close> by simp
next
  case (D_Notify c b)
  then obtain u where "waits (dm_pc s u) = Some b" using notified_is_there [OF assms(1) D_Notify] by blast
  then show ?thesis using place_unique(2) [OF assms(1), of u b] D_Notify assms(2) by auto
qed (use assms(2) in auto)

text \<open>
  The queue of the threads with a place, each with its node, led by the one that has the lock: it holds the guard, is
  releasing it, or has been taken out of its slot.  A thread behind another waits in its slot and is linked to, or has still to put
  itself in its slot and then to set the link.
\<close>

definition dm_leads :: "dm_sys \<Rightarrow> nat \<times> nat \<Rightarrow> lock_queue \<Rightarrow> bool" where
  "dm_leads s = (\<lambda>(t, a) rest.
     dm_pc s t = D_In a \<or>
     (dm_pc s t = D_Spin a \<or> (\<exists>b. dm_pc s t = D_Notify a b)) \<and> rest \<noteq> [] \<or>
     waits (dm_pc s t) = Some a \<and> dm_slot s a = None)"

definition dm_follows :: "dm_sys \<Rightarrow> nat \<times> nat \<Rightarrow> nat \<times> nat \<Rightarrow> bool" where
  "dm_follows s = (\<lambda>(v, p) (u, a).
     (dm_pc s u = D_Publish a p \<or> dm_pc s u = D_Link a p) \<and> mc_next (dm_mutex s) p = None \<or>
     waits (dm_pc s u) = Some a \<and> dm_slot s a = Some u \<and> mc_next (dm_mutex s) p = Some a)"

definition dm_led :: "dm_sys \<Rightarrow> lock_queue \<Rightarrow> bool" where
  "dm_led s q \<longleftrightarrow>
     (\<forall>u a. place (dm_pc s u) = Some a \<longleftrightarrow> (u, a) \<in> set q) \<and>
     (q = [] \<or> dm_leads s (hd q) (tl q)) \<and>
     (\<forall>i. Suc i < length q \<longrightarrow> dm_follows s (q ! i) (q ! Suc i)) \<and>
     mc_tail (dm_mutex s) = (if q = [] then None else Some (snd (last q)))"

lemma parked_in_slot:
  assumes "dm_inv s" and "view_pc (dm_slot s) (dm_pc s u) = M_Parked a"
  shows "waits (dm_pc s u) = Some a" "dm_slot s a = Some u"
proof -
  show w: "waits (dm_pc s u) = Some a" using assms(2) by (cases "dm_pc s u"; auto split: if_splits)
  have "dm_slot s a \<noteq> None" using assms(2) by (cases "dm_pc s u"; auto split: if_splits)
  then obtain v where v: "dm_slot s a = Some v" by blast
  then have "place (dm_pc s v) = Some a" using assms(1) unfolding dm_inv_def slots_ok_def by fastforce
  then show "dm_slot s a = Some u" using place_unique(1) [OF assms(1), of u a v] waits_place [OF w] v by simp
qed

lemma follows_view:
  assumes "dm_inv s" and "link_ok (my_pc (lock_view s)) (mc_next (my_mutex (lock_view s))) x y"
  shows "dm_follows s x y"
proof (cases "view_pc (dm_slot s) (dm_pc s (fst y)) = M_Parked (snd y)")
  case True
  then show ?thesis
    using parked_in_slot [OF assms(1) True] assms(2) by (auto simp: link_ok_def dm_follows_def split: prod.splits)
next
  case False
  then have "view_pc (dm_slot s) (dm_pc s (fst y)) = M_Linking (snd y) (snd x)" "mc_next (dm_mutex s) (snd x) = None"
    using assms(2) by (auto simp: link_ok_def)
  then show ?thesis by (cases "dm_pc s (fst y)"; auto simp: dm_follows_def split: prod.splits if_splits)
qed

lemma leads_view:
  assumes "head_ok (my_pc (lock_view s)) ((t, a) # rest)"
  shows "dm_leads s (t, a) rest"
  using assms by (cases "dm_pc s t") (auto simp: dm_leads_def split: if_splits)

lemma dm_led_exists:
  assumes "dm_inv s"
  obtains q where "dm_led s q"
proof -
  have r: "mcs_reachable (lock_view s)" using assms by (simp add: dm_inv_def)
  then obtain q where q: "mcs_rep (lock_view s) q" using mcs_reachable_rep by blast
  then have Q: "queue_ok (lock_view s) q" "head_ok (my_pc (lock_view s)) q"
    "\<And>i. Suc i < length q \<Longrightarrow> link_ok (my_pc (lock_view s)) (mc_next (my_mutex (lock_view s))) (q ! i) (q ! Suc i)"
    by (auto simp: mcs_rep_def links_ok_def)
  have "place (dm_pc s u) = Some a" if u: "(u, a) \<in> set q" for u a
  proof -
    obtain i where i: "i < length q" "q ! i = (u, a)" using u by (auto simp: in_set_conv_nth)
    have "mcs_node (my_pc (lock_view s) u) = Some a"
    proof (cases i)
      case 0
      then show ?thesis using i Q(2) by (cases q) auto
    next
      case (Suc k)
      then show ?thesis using Q(3) [of k] i by (auto simp: link_ok_def)
    qed
    then show ?thesis by (simp add: place_node)
  qed
  moreover have "(u, a) \<in> set q" if "place (dm_pc s u) = Some a" for u a
    using mcs_node_in_queue [OF q, of u a] that by (simp add: place_node)
  moreover have "q = [] \<or> dm_leads s (hd q) (tl q)"
    using Q(2) leads_view [of s "fst (hd q)" "snd (hd q)" "tl q"] by (cases q) auto
  moreover have "dm_follows s (q ! i) (q ! Suc i)" if "Suc i < length q" for i
    by (rule follows_view [OF assms Q(3) [OF that]])
  ultimately have "dm_led s q" using Q(1) unfolding dm_led_def queue_ok_def lock_view_sel by blast
  then show thesis by (rule that)
qed

text \<open>
  C15: in a run in which a pending \<open>lock\<close> is polled again only once it has been woken and is not dropped, no wake-up is
  lost and nothing freed is touched.  The threads with a place form one queue, in which a waiter that is still in its slot is
  linked to from the node before it, up to the thread that has the lock, and a link is only set to a node whose waiter
  is in its slot; who is about to notify a node finds its waiter there.  A waiter whose slot has been
  emptied has been woken or somebody is about to wake it; an OS thread in \<open>park\<close> whose \<open>done\<close> is set
  has a token or is about to get one; who is about to wake a waiter finds it waiting, so that a parker
  is only touched while its frame lives; and every node about to be accessed is allocated.
\<close>

theorem dual_wake_not_lost:
  assumes "dm_reachable True s"
  shows "(\<exists>q. dm_led s q) \<and>
    (\<forall>t a b. dm_pc s t = D_Notify a b \<longrightarrow> (\<exists>u. dm_slot s b = Some u \<and> waits (dm_pc s u) = Some b)) \<and>
    (\<forall>u a. waits (dm_pc s u) = Some a \<longrightarrow> dm_slot s a = None \<longrightarrow>
      u \<in> dm_woken s \<or> (\<exists>t c. dm_pc s t = D_Wake c u \<or> dm_pc s t = D_Store c u)) \<and>
    (\<forall>u a. dm_pc s u = D_Asleep a \<longrightarrow> u \<in> dm_woken s \<longrightarrow> u \<in> dm_token s \<or> (\<exists>t c. dm_pc s t = D_Unpark c u)) \<and>
    (\<forall>t u c. dm_pc s t = D_Wake c u \<or> dm_pc s t = D_Store c u \<longrightarrow>
      u \<notin> dm_woken s \<and> (\<exists>a. dm_pc s u = D_Wait a \<or> dm_pc s u = D_Asleep a)) \<and>
    (\<forall>t. touches (dm_pc s t) \<subseteq> dm_live s)"
proof -
  have i: "dm_inv s" using dm_reachable_inv [OF assms] .
  then have W: "wakes_ok s" and O: "os_ok s" by (simp_all add: dm_inv_def)
  have k: "wakes pc = Some u \<longleftrightarrow> (\<exists>c. pc = D_Wake c u \<or> pc = D_Store c u)" for pc u by (cases pc) auto
  have 1: "\<exists>q. dm_led s q" using dm_led_exists [OF i] by blast
  have 2: "\<exists>u. dm_slot s b = Some u \<and> waits (dm_pc s u) = Some b" if "dm_pc s t = D_Notify a b" for t a b
    by (rule notified_is_there [OF i that]) blast
  have 3: "u \<in> dm_woken s \<or> (\<exists>t c. dm_pc s t = D_Wake c u \<or> dm_pc s t = D_Store c u)"
    if "waits (dm_pc s u) = Some a" "dm_slot s a = None" for u a
    using W that unfolding wakes_ok_def k by blast
  have 4: "u \<notin> dm_woken s \<and> (\<exists>a. dm_pc s u = D_Wait a \<or> dm_pc s u = D_Asleep a)"
    if "dm_pc s t = D_Wake c u \<or> dm_pc s t = D_Store c u" for t u c
    using W that unfolding wakes_ok_def k waits_cases by blast
  have 5: "\<forall>t. touches (dm_pc s t) \<subseteq> dm_live s" using touches_live [OF i] by blast
  show ?thesis using 1 2 3 4 5 O unfolding os_ok_def by blast
qed


section \<open>Runs\<close>

text \<open>Thread 0 holds the lock with the node 10, and thread 1 waits behind it with the node 11.\<close>

definition dm_held :: "(nat \<Rightarrow> waiter_kind) \<Rightarrow> dm_sys" where
  "dm_held k = dm_lock 0 10 (dm_start k)"

definition dm_contended :: "(nat \<Rightarrow> waiter_kind) \<Rightarrow> dm_sys" where
  "dm_contended k = dm_link 1 11 10 (dm_publish 1 11 10 (dm_lock 1 11 (dm_held k)))"

definition dm_notifying :: "dm_sys \<Rightarrow> dm_sys" where
  "dm_notifying s = dm_find 0 10 (dm_drop 0 10 s)"

lemmas dm_defs = dm_held_def dm_contended_def dm_notifying_def dm_start_def dm_lock_def start_lock_def mcs_new_def
  dm_publish_def dm_link_def mcs_link_def dm_drop_def mcs_try_release_def dm_find_def dm_take_def dm_wake_def dm_leave_def

lemma dm_contended_reachable: "dm_reachable c (dm_contended k)"
proof -
  have 1: "dm_reachable c (dm_held k)"
    unfolding dm_held_def by (rule dm_next [OF dm_init lock]) (simp_all add: dm_start_def)
  have 2: "dm_reachable c (dm_lock 1 11 (dm_held k))"
    by (rule dm_next [OF 1 lock]) (simp_all add: dm_defs)
  have 3: "dm_reachable c (dm_publish 1 11 10 (dm_lock 1 11 (dm_held k)))"
    by (rule dm_next [OF 2 publish]) (simp add: dm_defs)
  show ?thesis
    unfolding dm_contended_def by (rule dm_next [OF 3 dm_step.link]) (simp add: dm_defs)
qed

lemma dm_contended_eq:
  "dm_pc (dm_contended k) 0 = D_In 10" "dm_pc (dm_contended k) 1 = D_Wait 11" "dm_slot (dm_contended k) 11 = Some 1"
  "dm_kind (dm_contended k) = k" "mc_next (dm_mutex (dm_contended k)) 10 = Some 11"
  "mc_tail (dm_mutex (dm_contended k)) = Some 11" "dm_live (dm_contended k) = {10, 11}"
  by (auto simp: dm_defs)

lemma dm_notifying_reachable:
  assumes "dm_reachable c s" and "dm_pc s 0 = D_In 10" and "mc_tail (dm_mutex s) \<noteq> Some 10"
  shows "dm_reachable c (dm_notifying s)"
proof -
  have 1: "dm_reachable c (dm_drop 0 10 s)" by (rule dm_next [OF assms(1) drop]) (rule assms(2))
  show ?thesis
    unfolding dm_notifying_def
    by (rule dm_next [OF 1 find]) (use assms(3) in \<open>simp add: dm_drop_def mcs_try_release_def\<close>)
qed

text \<open>Thread 0 has taken the OS thread 1 out of its slot.\<close>

definition dm_waking :: dm_sys where
  "dm_waking = dm_take 0 10 11 (dm_notifying (dm_contended (\<lambda>_. K_Os)))"

lemma dm_waking_reachable: "dm_reachable c dm_waking"
proof -
  have "dm_reachable c (dm_notifying (dm_contended (\<lambda>_. K_Os)))"
    by (rule dm_notifying_reachable [OF dm_contended_reachable]) (simp_all add: dm_contended_eq)
  then show ?thesis
    unfolding dm_waking_def by (rule dm_next [OF _ take]) (simp add: dm_defs)
qed

lemma dm_waking_eq: "dm_pc dm_waking 0 = D_Wake 10 1" "dm_pc dm_waking 1 = D_Wait 11" "dm_slot dm_waking 11 = None"
    "dm_kind dm_waking = (\<lambda>_. K_Os)"
  by (simp_all add: dm_waking_def dm_defs)

theorem dual_mutex_refines_mcs_witness:
  "mcs_reachable (lock_view (dm_contended (\<lambda>_. K_Async))) \<and>
   (mcs_step (lock_view (dm_contended (\<lambda>_. K_Async))) (lock_view (dm_drop 0 10 (dm_contended (\<lambda>_. K_Async)))) \<or>
    lock_view (dm_drop 0 10 (dm_contended (\<lambda>_. K_Async))) = lock_view (dm_contended (\<lambda>_. K_Async)))"
  using dual_mutex_refines_mcs [OF dm_contended_reachable drop [OF dm_contended_eq(1)], of "\<lambda>_. K_Async"] by blast

theorem dual_wake_not_lost_witness:
  "dm_pc dm_waking 0 = D_Wake 10 1 \<and> 1 \<notin> dm_woken dm_waking \<and>
   (\<exists>a. dm_pc dm_waking 1 = D_Wait a \<or> dm_pc dm_waking 1 = D_Asleep a) \<and> (\<exists>q. dm_led dm_waking q)"
  using dual_wake_not_lost [OF dm_waking_reachable] dm_waking_eq(1) by blast

text \<open>
  C38: \<open>lock\<close> of the dual mutex is not safe for an arbitrary executor: polling a pending \<open>lock\<close> a second
  time returns the guard, woken or not, so that two tasks hold it at once; and dropping the pending
  future frees a node that is still linked, which the holder's drop then accesses.
\<close>

theorem dual_lock_unsound:
  "(\<exists>s t u a b. dm_reachable False s \<and> t \<noteq> u \<and> dm_pc s t = D_In a \<and> dm_pc s u = D_In b) \<and>
   (\<exists>s t a b. dm_reachable False s \<and> dm_pc s t = D_Notify a b \<and> b \<notin> dm_live s)"
proof (intro conjI exI)
  let ?s = "dm_contended (\<lambda>_. K_Async)"
  show "dm_reachable False (dm_resume 1 11 ?s)"
    by (rule dm_next [OF dm_contended_reachable resume]) (simp_all add: dm_contended_eq [unfolded One_nat_def] dm_may_resume_def)
  show "(0 :: nat) \<noteq> 1" "dm_pc (dm_resume 1 11 ?s) 0 = D_In 10" "dm_pc (dm_resume 1 11 ?s) 1 = D_In 11"
    by (simp_all add: dm_contended_eq dm_resume_def)
  have "dm_reachable False (dm_leave 1 11 ?s)"
    by (rule dm_next [OF dm_contended_reachable cancel]) (simp_all add: dm_contended_eq [unfolded One_nat_def])
  then show "dm_reachable False (dm_notifying (dm_leave 1 11 ?s))"
    by (rule dm_notifying_reachable) (simp_all add: dm_contended_eq dm_leave_def)
  show "dm_pc (dm_notifying (dm_leave 1 11 ?s)) 0 = D_Notify 10 11"
      "11 \<notin> dm_live (dm_notifying (dm_leave 1 11 ?s))"
    by (simp_all add: dm_notifying_def dm_find_def dm_drop_def mcs_try_release_def dm_leave_def dm_contended_eq)
qed


end
