(* ===== verification/Block_On.thy ===== *)
theory Block_On
  imports Waker_State
begin

text \<open>
  \<open>block_on\<close> (\<open>traits/system/block_on.rs\<close>) with its two pollers of \<open>stackful/waker.rs\<close>.  A
  \<open>ResumablePoller\<close> has a reference-counted slot of its own for the wake state and the parked
  continuation: the call races with any number of waker clones, which may outlive it.  A \<open>UltPoller\<close>
  uses the word in the task's descriptor, which nested calls share.
\<close>

section \<open>The slot of a call\<close>

datatype block_pc =
    B_Poll        \<comment> \<open>polling the future, or running on towards the next poll\<close>
  | B_Save        \<comment> \<open>pending: its context is saved, the callback is about to store the continuation\<close>
  | B_Decide      \<comment> \<open>about to commit to parking or to cancel\<close>
  | B_Parked      \<comment> \<open>suspended, until its continuation is taken from a queue\<close>
  | B_Ready       \<comment> \<open>the future is ready; the poller is about to be dropped\<close>
  | B_Unslot      \<comment> \<open>marked idle; about to drop the slot's reference\<close>
  | B_Unwaker     \<comment> \<open>about to drop the waker's reference\<close>
  | B_Returned

text \<open>A clone of the waker, named by a number; \<open>True\<close> for a \<open>wake\<close>, which consumes it.\<close>

datatype clone_pc = C_None | C_Held | C_Claimed bool | C_Drop

record block_sys =
  bk_state :: usize
  bk_cont :: "nat option"
  bk_strong :: nat
  bk_freed :: bool
  bk_pc :: block_pc
  bk_clone :: "nat \<Rightarrow> clone_pc"
  bk_queue :: "nat list"        \<comment> \<open>the continuations pushed and not resumed yet\<close>
  bk_unseen :: bool             \<comment> \<open>a wake came since the last poll began\<close>

text \<open>\<open>ResumablePoller::new\<close>: one reference for the slot field, one for the waker.\<close>

definition poller_new :: block_sys where
  "poller_new = \<lparr>bk_state = POLLING, bk_cont = None, bk_strong = 2, bk_freed = False, bk_pc = B_Poll,
     bk_clone = (\<lambda>_. C_None), bk_queue = [], bk_unseen = False\<rparr>"

definition begin_poll :: "block_sys \<Rightarrow> block_sys" where
  "begin_poll s = s\<lparr>bk_pc := B_Poll, bk_unseen := False\<rparr>"

definition poller_save :: "nat \<Rightarrow> block_sys \<Rightarrow> block_sys" where
  "poller_save desc s = s\<lparr>bk_cont := Some desc, bk_pc := B_Decide\<rparr>"

definition poller_decide :: "block_sys \<Rightarrow> block_sys" where
  "poller_decide s =
     (let s' = s\<lparr>bk_state := park_word (bk_state s)\<rparr>
      in if wstate (bk_state s) = NOTIFIED then begin_poll s' else s'\<lparr>bk_pc := B_Parked\<rparr>)"

definition poller_resume :: "block_sys \<Rightarrow> block_sys" where
  "poller_resume s = begin_poll (s\<lparr>bk_queue := tl (bk_queue s)\<rparr>)"

definition drop_ref :: "block_sys \<Rightarrow> block_sys" where
  "drop_ref s = s\<lparr>bk_strong := bk_strong s - 1, bk_freed := (bk_freed s \<or> bk_strong s = 1)\<rparr>"

definition poller_idle :: "block_sys \<Rightarrow> block_sys" where
  "poller_idle s = s\<lparr>bk_state := mark_idle (bk_state s), bk_pc := B_Unslot\<rparr>"

definition poller_unref :: "block_pc \<Rightarrow> block_sys \<Rightarrow> block_sys" where
  "poller_unref pc s = (drop_ref s)\<lparr>bk_pc := pc\<rparr>"

text \<open>The vtable of the waker.\<close>

definition resumable_clone :: "nat \<Rightarrow> block_sys \<Rightarrow> block_sys" where
  "resumable_clone w s = s\<lparr>bk_strong := bk_strong s + 1, bk_clone := (bk_clone s)(w := C_Held)\<rparr>"

definition wake_state_step :: "block_sys \<Rightarrow> block_sys" where
  "wake_state_step s =
     s\<lparr>bk_unseen := True, bk_state := (case wake_word (bk_state s) of None \<Rightarrow> bk_state s | Some new \<Rightarrow> new)\<rparr>"

definition resumable_wake :: "bool \<Rightarrow> nat \<Rightarrow> block_sys \<Rightarrow> block_sys" where
  "resumable_wake consume w s =
     (wake_state_step s)\<lparr>bk_clone := (bk_clone s)(w :=
        if wake_result (bk_state s) = Claimed_Parked then C_Claimed consume
        else if consume then C_Drop else C_Held)\<rparr>"

definition resumable_push :: "bool \<Rightarrow> nat \<Rightarrow> nat \<Rightarrow> block_sys \<Rightarrow> block_sys" where
  "resumable_push consume w desc s =
     s\<lparr>bk_queue := bk_queue s @ [desc], bk_clone := (bk_clone s)(w := if consume then C_Drop else C_Held)\<rparr>"

definition resumable_drop :: "nat \<Rightarrow> block_sys \<Rightarrow> block_sys" where
  "resumable_drop w s = (drop_ref s)\<lparr>bk_clone := (bk_clone s)(w := C_None)\<rparr>"

text \<open>One call by the task \<open>me\<close>; the future clones its waker while it is polled, and clones are cloned.\<close>

inductive block_step :: "nat \<Rightarrow> block_sys \<Rightarrow> block_sys \<Rightarrow> bool" for me :: nat where
  pending: "bk_pc s = B_Poll \<Longrightarrow> block_step me s (s\<lparr>bk_pc := B_Save\<rparr>)"
| self_wake: "bk_pc s = B_Poll \<Longrightarrow> block_step me s (wake_state_step s)"
| save: "bk_pc s = B_Save \<Longrightarrow> block_step me s (poller_save me s)"
| decide: "bk_pc s = B_Decide \<Longrightarrow> block_step me s (poller_decide s)"
| resume: "bk_pc s = B_Parked \<Longrightarrow> bk_queue s = me # q \<Longrightarrow> block_step me s (poller_resume s)"
| ready: "bk_pc s = B_Poll \<Longrightarrow> block_step me s (s\<lparr>bk_pc := B_Ready\<rparr>)"
| idle: "bk_pc s = B_Ready \<Longrightarrow> block_step me s (poller_idle s)"
| unslot: "bk_pc s = B_Unslot \<Longrightarrow> block_step me s (poller_unref B_Unwaker s)"
| unwaker: "bk_pc s = B_Unwaker \<Longrightarrow> block_step me s (poller_unref B_Returned s)"
| clone: "bk_pc s = B_Poll \<or> bk_clone s v = C_Held \<Longrightarrow> bk_clone s w = C_None \<Longrightarrow>
    block_step me s (resumable_clone w s)"
| wake: "bk_clone s w = C_Held \<Longrightarrow> block_step me s (resumable_wake consume w s)"
| push: "bk_clone s w = C_Claimed consume \<Longrightarrow> bk_cont s = Some desc \<Longrightarrow>
    block_step me s (resumable_push consume w desc s)"
| drop: "bk_clone s w = C_Held \<or> bk_clone s w = C_Drop \<Longrightarrow> block_step me s (resumable_drop w s)"

inductive block_reachable :: "nat \<Rightarrow> block_sys \<Rightarrow> bool" for me :: nat where
  block_init: "block_reachable me poller_new"
| block_next: "block_reachable me s \<Longrightarrow> block_step me s s' \<Longrightarrow> block_reachable me s'"

section \<open>The invariant\<close>

definition clones :: "block_sys \<Rightarrow> nat set" where
  "clones s = {w. bk_clone s w \<noteq> C_None}"

definition claimers :: "block_sys \<Rightarrow> nat set" where
  "claimers s = {w. \<exists>c. bk_clone s w = C_Claimed c}"

fun own_refs :: "block_pc \<Rightarrow> nat" where
  "own_refs B_Unwaker = 1"
| "own_refs B_Returned = 0"
| "own_refs _ = 2"

definition refs_ok :: "block_sys \<Rightarrow> bool" where
  "refs_ok s \<longleftrightarrow> finite (clones s) \<and> bk_strong s = own_refs (bk_pc s) + card (clones s) \<and>
     bk_freed s = (bk_strong s = 0)"

definition awake :: "usize \<Rightarrow> bool" where
  "awake r \<longleftrightarrow> wstate r = POLLING \<or> wstate r = NOTIFIED"

definition wake_ok :: "nat \<Rightarrow> block_sys \<Rightarrow> bool" where
  "wake_ok me s \<longleftrightarrow>
     (case bk_pc s of
        B_Poll \<Rightarrow> claimers s = {} \<and> bk_queue s = [] \<and> awake (bk_state s) \<and> (bk_unseen s \<longrightarrow> wstate (bk_state s) = NOTIFIED)
      | B_Save \<Rightarrow> claimers s = {} \<and> bk_queue s = [] \<and> awake (bk_state s) \<and> (bk_unseen s \<longrightarrow> wstate (bk_state s) = NOTIFIED)
      | B_Decide \<Rightarrow> claimers s = {} \<and> bk_queue s = [] \<and> awake (bk_state s) \<and> (bk_unseen s \<longrightarrow> wstate (bk_state s) = NOTIFIED)
          \<and> bk_cont s = Some me
      | B_Parked \<Rightarrow> bk_cont s = Some me \<and>
          (claimers s = {} \<and> bk_queue s = [] \<and> wstate (bk_state s) = PARKED \<and> \<not> bk_unseen s \<or>
           (\<exists>w. claimers s = {w}) \<and> bk_queue s = [] \<and> awake (bk_state s) \<or>
           claimers s = {} \<and> bk_queue s = [me] \<and> awake (bk_state s))
      | B_Ready \<Rightarrow> claimers s = {} \<and> bk_queue s = [] \<and> awake (bk_state s)
      | _ \<Rightarrow> claimers s = {} \<and> bk_queue s = [] \<and> wstate (bk_state s) = IDLE)"

lemma awake_simps:
  "wstate r = POLLING \<Longrightarrow> awake r" "wstate r = NOTIFIED \<Longrightarrow> awake r" "awake r \<Longrightarrow> wstate r \<noteq> IDLE" "awake r \<Longrightarrow> wstate r \<noteq> PARKED"
  by (auto simp: awake_def)

text \<open>What a wake does to the word, by its state.\<close>

lemma wake_state_cases:
  "awake r \<Longrightarrow> (case wake_word r of None \<Rightarrow> r | Some new \<Rightarrow> new) = r' \<Longrightarrow> wstate r' = NOTIFIED \<and> wake_result r \<noteq> Claimed_Parked"
  "wstate r = PARKED \<Longrightarrow> (case wake_word r of None \<Rightarrow> r | Some new \<Rightarrow> new) = r' \<Longrightarrow>
     wstate r' = POLLING \<and> wake_result r = Claimed_Parked"
  "wstate r = IDLE \<Longrightarrow> (case wake_word r of None \<Rightarrow> r | Some new \<Rightarrow> new) = r' \<Longrightarrow>
     wstate r' = IDLE \<and> wake_result r \<noteq> Claimed_Parked"
  by (auto simp: awake_def wake_word_def wake_result_def)

lemma claimers_upd:
  "claimers (s\<lparr>bk_clone := (bk_clone s)(w := C_Claimed c)\<rparr>) = insert w (claimers s)"
  "claimers (s\<lparr>bk_clone := (bk_clone s)(w := C_None)\<rparr>) = claimers s - {w}"
  "claimers (s\<lparr>bk_clone := (bk_clone s)(w := C_Held)\<rparr>) = claimers s - {w}"
  "claimers (s\<lparr>bk_clone := (bk_clone s)(w := C_Drop)\<rparr>) = claimers s - {w}"
  by (auto simp: claimers_def)

lemma claimers_cong: "bk_clone s' = bk_clone s \<Longrightarrow> claimers s' = claimers s"
  by (simp add: claimers_def)

lemma clones_cong: "bk_clone s' = bk_clone s \<Longrightarrow> clones s' = clones s"
  by (simp add: clones_def)

text \<open>A clone changes what it does, or comes, or goes.\<close>

lemma refs_same:
  assumes "refs_ok s" and "bk_strong s' = bk_strong s" and "bk_freed s' = bk_freed s"
    and "own_refs (bk_pc s') = own_refs (bk_pc s)" and "clones s' = clones s"
  shows "refs_ok s'"
  using assms by (simp add: refs_ok_def)

lemma clones_change:
  "bk_clone s w \<noteq> C_None \<Longrightarrow> pc \<noteq> C_None \<Longrightarrow> clones (s\<lparr>bk_clone := (bk_clone s)(w := pc)\<rparr>) = clones s"
  by (auto simp: clones_def)

lemma refs_step:
  assumes "block_step me s s'" and "refs_ok s"
  shows "refs_ok s'"
  using assms
proof (induction rule: block_step.induct)
  case (decide s)
  then show ?case by (intro refs_same [OF decide(2)]) (auto simp: poller_decide_def begin_poll_def Let_def clones_def)
next
  case (clone s v w)
  then have "clones (resumable_clone w s) = insert w (clones s)" "w \<notin> clones s"
    by (auto simp: resumable_clone_def clones_def)
  moreover have "0 < own_refs (bk_pc s) \<or> clones s \<noteq> {}" using clone(1) by (auto simp: clones_def)
  ultimately show ?case using clone(3) by (simp add: refs_ok_def) (simp add: resumable_clone_def)
next
  case (wake s w consume)
  then show ?case
    by (intro refs_same [OF wake(2)])
      (auto simp: resumable_wake_def wake_state_step_def clones_def split: if_splits)
next
  case (push s w consume desc)
  then show ?case
    by (intro refs_same [OF push(3)]) (auto simp: resumable_push_def clones_def split: if_splits)
next
  case (drop s w)
  then have "clones (resumable_drop w s) = clones s - {w}" "w \<in> clones s" "finite (clones s)"
    by (auto simp: resumable_drop_def drop_ref_def clones_def refs_ok_def)
  note c = this(1,3) and card = card_Suc_Diff1 [OF this(3,2)]
  have f: "bk_strong (resumable_drop w s) = bk_strong s - 1" "bk_freed (resumable_drop w s) = (bk_freed s \<or> bk_strong s = 1)"
    "bk_pc (resumable_drop w s) = bk_pc s"
    by (simp_all add: resumable_drop_def drop_ref_def)
  have r: "bk_strong s = own_refs (bk_pc s) + card (clones s)" "bk_freed s = (bk_strong s = 0)"
    using drop(2) by (simp_all add: refs_ok_def)
  show ?case unfolding refs_ok_def c(1) f using c(2) card r by (cases "bk_strong s") auto
next
  case (unslot s)
  then show ?case by (auto simp: refs_ok_def poller_unref_def drop_ref_def clones_def)
next
  case (unwaker s)
  then show ?case by (auto simp: refs_ok_def poller_unref_def drop_ref_def clones_def)
qed (auto simp: refs_ok_def clones_def wake_state_step_def poller_save_def poller_resume_def begin_poll_def poller_idle_def)

lemma wake_step_ok:
  assumes "block_step me s s'" and "wake_ok me s"
  shows "wake_ok me s'"
  using assms
proof (induction rule: block_step.induct)
  case (self_wake s)
  have f: "bk_pc (wake_state_step s) = B_Poll" "bk_queue (wake_state_step s) = bk_queue s"
    "claimers (wake_state_step s) = claimers s"
    "bk_state (wake_state_step s) = (case wake_word (bk_state s) of None \<Rightarrow> bk_state s | Some new \<Rightarrow> new)"
    using self_wake(1) by (simp_all add: wake_state_step_def claimers_def)
  have "awake (bk_state s)" using self_wake by (simp add: wake_ok_def)
  from wake_state_cases(1) [OF this refl] have "wstate (bk_state (wake_state_step s)) = NOTIFIED" unfolding f by simp
  then show ?case using self_wake unfolding wake_ok_def f by (simp add: awake_simps)
next
  case (decide s)
  then show ?case
    by (auto simp: wake_ok_def poller_decide_def begin_poll_def park_word_def Let_def claimers_def awake_def)
next
  case (wake s w consume)
  have c: "claimers (resumable_wake consume w s) =
      (if wake_result (bk_state s) = Claimed_Parked then insert w (claimers s) else claimers s)"
    using wake(1) by (auto simp: claimers_def resumable_wake_def wake_state_step_def)
  have st: "awake (bk_state s) \<or> wstate (bk_state s) = PARKED \<or> wstate (bk_state s) = IDLE"
    using wstate_cases [of "bk_state s"] by (auto simp: awake_def)
  let ?r = "case wake_word (bk_state s) of None \<Rightarrow> bk_state s | Some new \<Rightarrow> new"
  have f: "bk_pc (resumable_wake consume w s) = bk_pc s" "bk_cont (resumable_wake consume w s) = bk_cont s"
    "bk_queue (resumable_wake consume w s) = bk_queue s" "bk_state (resumable_wake consume w s) = ?r"
    "bk_unseen (resumable_wake consume w s)"
    by (simp_all add: resumable_wake_def wake_state_step_def)
  note w1 = wake_state_cases(1) [of "bk_state s", OF _ refl] and w2 = wake_state_cases(2) [of "bk_state s", OF _ refl]
    and w3 = wake_state_cases(3) [of "bk_state s", OF _ refl]
  show ?case using wake(2) st unfolding wake_ok_def f c
    by (cases "bk_pc s") (auto simp: f(5) awake_simps w1 w2 w3 dest: awake_simps(3,4))
next
  case (push s w consume desc)
  have "w \<in> claimers s" using push(1) by (auto simp: claimers_def)
  moreover have "claimers (resumable_push consume w desc s) = claimers s - {w}"
    by (auto simp: resumable_push_def claimers_def)
  ultimately show ?case using push(2,3)
    by (auto simp: wake_ok_def resumable_push_def split: block_pc.splits)
next
  case (clone s v w)
  have "claimers (resumable_clone w s) = claimers s" using clone(2) by (auto simp: resumable_clone_def claimers_def)
  then show ?case using clone(3) by (auto simp: wake_ok_def resumable_clone_def split: block_pc.splits)
next
  case (drop s w)
  have "claimers (resumable_drop w s) = claimers s" using drop(1) by (auto simp: resumable_drop_def drop_ref_def claimers_def)
  then show ?case using drop(2) by (auto simp: wake_ok_def resumable_drop_def drop_ref_def split: block_pc.splits)
qed (auto simp: wake_ok_def poller_save_def poller_resume_def begin_poll_def poller_idle_def poller_unref_def drop_ref_def
    mark_idle_def claimers_def awake_def)

lemma block_reachable_inv: "block_reachable me s \<Longrightarrow> refs_ok s \<and> wake_ok me s"
proof (induction rule: block_reachable.induct)
  case block_init
  show ?case by (simp add: refs_ok_def wake_ok_def poller_new_def clones_def claimers_def awake_def)
next
  case (block_next s s')
  then show ?case using refs_step wake_step_ok by blast
qed

text \<open>
  C17: a \<open>block_on\<close> over a \<open>ResumablePoller\<close> loses no wake-up and no memory, however many clones of
  its waker are woken and dropped, whenever: a call that is parked although a wake came has its
  continuation in a queue, or the waker that claimed it is about to push it; a claim is only ever on
  the parked call, reads its continuation, and is the only one, so that the continuation is queued
  once; and the slot is freed exactly when the call has returned and the last clone is gone.
\<close>

theorem block_on_safe:
  assumes "block_reachable me s"
  shows "(bk_pc s = B_Parked \<longrightarrow> bk_unseen s \<longrightarrow> bk_queue s = [me] \<or> (\<exists>w c. bk_clone s w = C_Claimed c)) \<and>
    (\<forall>w c. bk_clone s w = C_Claimed c \<longrightarrow> bk_pc s = B_Parked \<and> bk_cont s = Some me \<and> bk_queue s = [] \<and>
      (\<forall>v d. bk_clone s v = C_Claimed d \<longrightarrow> v = w)) \<and>
    (bk_queue s = [] \<or> bk_queue s = [me] \<and> bk_pc s = B_Parked) \<and>
    (bk_freed s \<longleftrightarrow> bk_pc s = B_Returned \<and> (\<forall>w. bk_clone s w = C_None))"
proof -
  have R: "refs_ok s" and W: "wake_ok me s" using block_reachable_inv [OF assms] by simp_all
  have cl: "claimers s = {} \<or> (\<exists>w. claimers s = {w}) \<and> bk_pc s = B_Parked \<and> bk_cont s = Some me \<and> bk_queue s = []"
    using W by (auto simp: wake_ok_def split: block_pc.splits)
  have 1: "bk_queue s = [me] \<or> (\<exists>w c. bk_clone s w = C_Claimed c)" if "bk_pc s = B_Parked" "bk_unseen s"
    using W that by (auto simp: wake_ok_def claimers_def)
  have 2: "bk_pc s = B_Parked \<and> bk_cont s = Some me \<and> bk_queue s = [] \<and> (\<forall>v d. bk_clone s v = C_Claimed d \<longrightarrow> v = w)"
    if "bk_clone s w = C_Claimed c" for w c
  proof -
    have "w \<in> claimers s" using that by (auto simp: claimers_def)
    then have e: "claimers s = {w}" and r: "bk_pc s = B_Parked \<and> bk_cont s = Some me \<and> bk_queue s = []" using cl by auto
    have "v = w" if "bk_clone s v = C_Claimed d" for v d
    proof -
      have "v \<in> claimers s" using that by (auto simp: claimers_def)
      then show ?thesis using e by simp
    qed
    then show ?thesis using r by blast
  qed
  have 3: "bk_queue s = [] \<or> bk_queue s = [me] \<and> bk_pc s = B_Parked"
    using W by (auto simp: wake_ok_def split: block_pc.splits)
  have "bk_freed s \<longleftrightarrow> own_refs (bk_pc s) = 0 \<and> clones s = {}" using R by (auto simp: refs_ok_def)
  moreover have "own_refs (bk_pc s) = 0 \<longleftrightarrow> bk_pc s = B_Returned" by (cases "bk_pc s") simp_all
  moreover have "clones s = {} \<longleftrightarrow> (\<forall>w. bk_clone s w = C_None)" by (auto simp: clones_def)
  ultimately show ?thesis using 1 2 3 by blast
qed

text \<open>The future clones its waker and is pending; the call parks, and the clone claims it.\<close>

definition block_example :: block_sys where
  "block_example = resumable_wake True 0 (poller_decide (poller_save 7 ((resumable_clone 0 poller_new)\<lparr>bk_pc := B_Save\<rparr>)))"

lemma block_example_reachable: "block_reachable 7 block_example"
proof -
  have 1: "block_reachable 7 (resumable_clone 0 poller_new)"
    by (rule block_next [OF block_init clone]) (simp_all add: poller_new_def)
  have 2: "block_reachable 7 ((resumable_clone 0 poller_new)\<lparr>bk_pc := B_Save\<rparr>)"
    by (rule block_next [OF 1 pending]) (simp add: resumable_clone_def poller_new_def)
  have 3: "block_reachable 7 (poller_save 7 ((resumable_clone 0 poller_new)\<lparr>bk_pc := B_Save\<rparr>))"
    by (rule block_next [OF 2 save]) simp
  have 4: "block_reachable 7 (poller_decide (poller_save 7 ((resumable_clone 0 poller_new)\<lparr>bk_pc := B_Save\<rparr>)))"
    by (rule block_next [OF 3 decide]) (simp add: poller_save_def)
  show ?thesis unfolding block_example_def
    by (rule block_next [OF 4 wake])
      (simp add: poller_decide_def poller_save_def resumable_clone_def poller_new_def begin_poll_def Let_def)
qed

theorem block_on_safe_witness:
  "bk_clone block_example 0 = C_Claimed True \<and> bk_pc block_example = B_Parked \<and> bk_cont block_example = Some 7 \<and>
   \<not> bk_freed block_example"
proof -
  have "bk_clone block_example 0 = C_Claimed True"
    by (simp add: block_example_def resumable_wake_def poller_decide_def poller_save_def resumable_clone_def poller_new_def
        begin_poll_def wake_result_def park_word_def wake_state_step_def Let_def)
  then show ?thesis using block_on_safe [OF block_example_reachable] by (metis clone_pc.distinct(3))
qed

section \<open>The word in the descriptor\<close>

text \<open>
  \<open>UltPoller\<close>: the calls of a task share the word, innermost first, each with whether a wake through
  its waker came since its poll began.  A claimed continuation is resumed in the same step; the
  innermost call then polls again.
\<close>

record ult_calls =
  uc_word :: usize
  uc_calls :: "bool list"
  uc_parked :: bool

definition ult_idle :: ult_calls where
  "ult_idle = \<lparr>uc_word = IDLE, uc_calls = [], uc_parked = False\<rparr>"

definition ult_poll_again :: "ult_calls \<Rightarrow> ult_calls" where
  "ult_poll_again s = s\<lparr>uc_calls := False # tl (uc_calls s)\<rparr>"

definition ult_new :: "ult_calls \<Rightarrow> ult_calls" where
  "ult_new s = s\<lparr>uc_word := mark_polling (uc_word s), uc_calls := False # uc_calls s\<rparr>"

definition ult_wait :: "ult_calls \<Rightarrow> ult_calls" where
  "ult_wait s =
     (let s' = s\<lparr>uc_word := park_word (uc_word s)\<rparr>
      in if wstate (uc_word s) = NOTIFIED then ult_poll_again s' else s'\<lparr>uc_parked := True\<rparr>)"

definition ult_drop :: "ult_calls \<Rightarrow> ult_calls" where
  "ult_drop s = s\<lparr>uc_word := mark_idle (uc_word s), uc_calls := tl (uc_calls s)\<rparr>"

definition ult_try_wake :: "nat \<Rightarrow> ult_calls \<Rightarrow> ult_calls" where
  "ult_try_wake i s =
     (let s' = s\<lparr>uc_word := (case wake_word (uc_word s) of None \<Rightarrow> uc_word s | Some new \<Rightarrow> new),
                 uc_calls := (uc_calls s)[i := True]\<rparr>
      in if wake_result (uc_word s) = Claimed_Parked then ult_poll_again (s'\<lparr>uc_parked := False\<rparr>) else s')"

text \<open>\<open>nested\<close> says whether a future may itself call \<open>block_on\<close> while it is polled.\<close>

inductive ult_call_step :: "bool \<Rightarrow> ult_calls \<Rightarrow> ult_calls \<Rightarrow> bool" for nested :: bool where
  ult_news: "\<not> uc_parked s \<Longrightarrow> uc_calls s = [] \<or> nested \<Longrightarrow> ult_call_step nested s (ult_new s)"
| ult_waits: "\<not> uc_parked s \<Longrightarrow> uc_calls s \<noteq> [] \<Longrightarrow> ult_call_step nested s (ult_wait s)"
| ult_drops: "\<not> uc_parked s \<Longrightarrow> uc_calls s \<noteq> [] \<Longrightarrow> ult_call_step nested s (ult_drop s)"
| ult_wakes: "i < length (uc_calls s) \<Longrightarrow> ult_call_step nested s (ult_try_wake i s)"

inductive ult_call_reachable :: "bool \<Rightarrow> ult_calls \<Rightarrow> bool" for nested :: bool where
  ult_call_init: "ult_call_reachable nested ult_idle"
| ult_call_next: "ult_call_reachable nested s \<Longrightarrow> ult_call_step nested s s' \<Longrightarrow> ult_call_reachable nested s'"

definition ult_call_inv :: "ult_calls \<Rightarrow> bool" where
  "ult_call_inv s \<longleftrightarrow>
     uc_calls s = [] \<and> wstate (uc_word s) = IDLE \<and> \<not> uc_parked s \<or>
     (\<exists>b. uc_calls s = [b] \<and>
       (if uc_parked s then wstate (uc_word s) = PARKED \<and> \<not> b
        else awake (uc_word s) \<and> (b \<longrightarrow> wstate (uc_word s) = NOTIFIED)))"

text \<open>Without nesting no wake is lost: a call that parks has seen them all.\<close>

lemma ult_call_keeps: "ult_call_step False s s' \<Longrightarrow> ult_call_inv s \<Longrightarrow> ult_call_inv s'"
proof (induction rule: ult_call_step.induct)
  case (ult_news s)
  then show ?case by (auto simp: ult_call_inv_def ult_new_def mark_polling_def awake_def)
next
  case (ult_waits s)
  then obtain b where b: "uc_calls s = [b]" "awake (uc_word s)" "b \<longrightarrow> wstate (uc_word s) = NOTIFIED"
    by (auto simp: ult_call_inv_def)
  then show ?case
    by (cases "wstate (uc_word s) = NOTIFIED")
      (auto simp: ult_call_inv_def ult_wait_def ult_poll_again_def park_word_def awake_def ult_waits(1))
next
  case (ult_drops s)
  then obtain b where "uc_calls s = [b]" by (auto simp: ult_call_inv_def)
  then show ?case using ult_drops(1) by (simp add: ult_call_inv_def ult_drop_def mark_idle_def)
next
  case (ult_wakes i s)
  then obtain b where b: "uc_calls s = [b]" "i = 0" by (auto simp: ult_call_inv_def)
  let ?r = "case wake_word (uc_word s) of None \<Rightarrow> uc_word s | Some new \<Rightarrow> new"
  show ?case
  proof (cases "uc_parked s")
    case True
    then have "wstate (uc_word s) = PARKED" using ult_wakes(2) b by (simp add: ult_call_inv_def)
    from wake_state_cases(2) [OF this refl] show ?thesis
      using b by (auto simp: ult_call_inv_def ult_try_wake_def ult_poll_again_def Let_def awake_simps(1))
  next
    case False
    then have "awake (uc_word s)" using ult_wakes(2) b by (simp add: ult_call_inv_def)
    from wake_state_cases(1) [OF this refl] show ?thesis
      using b False by (auto simp: ult_call_inv_def ult_try_wake_def Let_def awake_simps(2))
  qed
qed

lemma unnested_sound: "ult_call_reachable False s \<Longrightarrow> uc_parked s \<Longrightarrow> uc_calls s = [False]"
proof -
  assume r: "ult_call_reachable False s" and p: "uc_parked s"
  from r have "ult_call_inv s"
  proof (induction rule: ult_call_reachable.induct)
    case ult_call_init
    show ?case by (simp add: ult_call_inv_def ult_idle_def)
  next
    case (ult_call_next s s')
    then show ?case using ult_call_keeps by blast
  qed
  then show ?thesis using p by (auto simp: ult_call_inv_def)
qed

text \<open>
  C39: when the future that a \<open>block_on\<close> over a \<open>UltPoller\<close> polls itself calls \<open>block_on\<close>, a wake-up can
  be lost for good: the inner call leaves the shared word idle, so that a wake before the outer call
  parks does nothing; or the wake for the outer call is taken by the inner one while that is parked.
\<close>

theorem nested_block_on_loses_wake:
  "(\<exists>s. ult_call_reachable True s \<and> uc_parked s \<and> uc_calls s = [True]) \<and>
   (\<exists>s. ult_call_reachable True s \<and> uc_parked s \<and> uc_calls s = [False, False] \<and>
     uc_calls (ult_wait (ult_drop (ult_try_wake 1 s))) = [True] \<and> uc_parked (ult_wait (ult_drop (ult_try_wake 1 s))))"
proof (intro conjI exI)
  have 1: "ult_call_reachable True (ult_new (ult_new ult_idle))"
    by (intro ult_call_next [OF _ ult_news] ult_call_init) (simp_all add: ult_idle_def ult_new_def)
  show "ult_call_reachable True (ult_wait (ult_try_wake 0 (ult_drop (ult_new (ult_new ult_idle)))))"
    by (intro ult_call_next [OF _ ult_waits] ult_call_next [OF _ ult_wakes] ult_call_next [OF _ ult_drops] 1)
      (simp_all add: ult_idle_def ult_new_def ult_drop_def ult_try_wake_def mark_idle_def wake_result_def Let_def)
  show "uc_parked (ult_wait (ult_try_wake 0 (ult_drop (ult_new (ult_new ult_idle)))))"
    "uc_calls (ult_wait (ult_try_wake 0 (ult_drop (ult_new (ult_new ult_idle))))) = [True]"
    by (simp_all add: ult_idle_def ult_new_def ult_drop_def ult_try_wake_def ult_wait_def mark_idle_def wake_result_def
        wake_word_def park_word_def Let_def)
  show "ult_call_reachable True (ult_wait (ult_new (ult_new ult_idle)))"
    by (intro ult_call_next [OF _ ult_waits] 1) (simp_all add: ult_idle_def ult_new_def)
  show "uc_parked (ult_wait (ult_new (ult_new ult_idle)))" "uc_calls (ult_wait (ult_new (ult_new ult_idle))) = [False, False]"
    by (simp_all add: ult_idle_def ult_new_def ult_wait_def mark_polling_def Let_def)
qed (simp_all add: ult_idle_def ult_new_def ult_wait_def ult_drop_def ult_try_wake_def ult_poll_again_def mark_polling_def
    mark_idle_def wake_result_def wake_word_def park_word_def Let_def)


end
