(* ===== verification/Stack_Frames.thy ===== *)
theory Stack_Frames
  imports Cmpth_Prelude
begin

text \<open>
  The memory of tasks (\<open>common/stack.rs\<close>) and what the spawn functions put into it
  (\<open>stackful/thread.rs\<close>, \<open>stackless/thread.rs\<close>): the result slot and the closure or future of a task lie
  at the top of its storage, below them, for a stackful task, its execution stack.  Addresses and sizes
  are words, and arithmetic wraps as it does in a release build; \<open>mmap\<close> and the global allocator are
  parameters, which return an address or nothing.
\<close>

section \<open>Rounding\<close>

definition align_down :: "usize \<Rightarrow> usize \<Rightarrow> usize" where
  "align_down addr align = addr AND NOT (align - 1)"

definition round_up :: "usize \<Rightarrow> usize \<Rightarrow> usize" where
  "round_up v to = (v + to - 1) AND NOT (to - 1)"

text \<open>Numbers in place of words.\<close>

lemma unat_pow: "k < 64 \<Longrightarrow> unat (2 ^ k :: usize) = 2 ^ k"
proof -
  assume "k < 64"
  then have "(2 :: nat) ^ k < 2 ^ 64" by (intro power_strict_increasing) simp_all
  then have "unat (word_of_nat (2 ^ k) :: usize) = 2 ^ k"
    by (simp only: unsigned_of_nat of_nat_id len_num0 len_bit0 len_bit1 take_bit_nat_eq_self_iff) (simp add: take_bit_nat_eq_self)
  then show ?thesis by (simp only: of_nat_power of_nat_numeral)
qed

lemma align_down_eq:
  assumes "k < 64"
  shows "unat (align_down a (2 ^ k)) = unat a - unat a mod 2 ^ k"
proof -
  have "align_down a (2 ^ k) = a AND NOT (mask k)" by (simp add: align_down_def mask_eq_exp_minus_1)
  also have "\<dots> = push_bit k (drop_bit k a)"
    by (rule bit_eqI) (auto simp: bit_simps)
  finally have "align_down a (2 ^ k) + take_bit k a = a" by (simp add: bits_ident)
  then have e: "align_down a (2 ^ k) = a - take_bit k a" by (simp add: eq_diff_eq)
  have t: "unat (take_bit k a) = unat a mod 2 ^ k" unfolding unsigned_take_bit_eq by (rule take_bit_eq_mod)
  then have "take_bit k a \<le> a" by (simp add: word_le_nat_alt)
  then show ?thesis using e t by (simp add: unat_sub)
qed

lemma align_down_bounds:
  assumes "k < 64"
  shows "unat (align_down a (2 ^ k)) \<le> unat a" "unat a < unat (align_down a (2 ^ k)) + 2 ^ k"
    "2 ^ k dvd unat (align_down a (2 ^ k))"
proof -
  have "unat a mod 2 ^ k < 2 ^ k" by simp
  then show "unat (align_down a (2 ^ k)) \<le> unat a" "unat a < unat (align_down a (2 ^ k)) + 2 ^ k"
    using align_down_eq [OF assms, of a] by linarith+
  show "2 ^ k dvd unat (align_down a (2 ^ k))" unfolding align_down_eq [OF assms] by (rule dvd_minus_mod)
qed

lemma unat_minus: "unat b \<le> unat a \<Longrightarrow> unat (a - b) = unat a - unat (b :: usize)"
  by (simp add: unat_sub word_le_nat_alt)

lemma unat_plus: "unat a + unat b < 2 ^ 64 \<Longrightarrow> unat (a + b) = unat a + unat (b :: usize)"
  using unat_add_lem [of a b] by simp

lemma round_up_align: "round_up v to = align_down (v + to - 1) to"
  by (simp add: round_up_def align_down_def)

lemma round_up_bounds:
  assumes "k < 64" and "unat v + 2 ^ k < 2 ^ 64"
  shows "unat v \<le> unat (round_up v (2 ^ k))" "unat (round_up v (2 ^ k)) < unat v + 2 ^ k"
    "2 ^ k dvd unat (round_up v (2 ^ k))"
proof -
  have s: "unat (v + 2 ^ k) = unat v + 2 ^ k"
    using unat_plus [of v "2 ^ k"] assms unat_pow by simp
  moreover have "(1 :: nat) \<le> 2 ^ k" by simp
  then have "unat (1 :: usize) \<le> unat v + 2 ^ k" by (simp only: unat_1 trans_le_add2)
  ultimately have "unat (v + 2 ^ k - 1) = unat v + 2 ^ k - 1"
    using unat_minus [of 1 "v + 2 ^ k"] by (simp only: unat_1)
  then show "unat v \<le> unat (round_up v (2 ^ k))" "unat (round_up v (2 ^ k)) < unat v + 2 ^ k"
    using align_down_bounds(1,2) [OF assms(1), of "v + 2 ^ k - 1"] unfolding round_up_align by linarith+
  show "2 ^ k dvd unat (round_up v (2 ^ k))"
    unfolding round_up_align by (rule align_down_bounds(3) [OF assms(1)])
qed

section \<open>Stack memory\<close>

text \<open>What the allocators ask the system for.\<close>

datatype memory_call =
    Mmap usize usize         \<comment> \<open>the region reserved, inaccessible\<close>
  | Mprotect usize usize     \<comment> \<open>the part of it made accessible\<close>
  | Munmap usize usize
  | Global_Alloc usize usize usize    \<comment> \<open>address, size and alignment\<close>
  | Global_Dealloc usize usize usize

datatype stack_mem = Stack_None | Stack_Heap usize usize | Stack_Malloc usize usize

fun stack_top :: "stack_mem \<Rightarrow> usize" where
  "stack_top Stack_None = 0"
| "stack_top (Stack_Heap ptr bytes) = ptr + bytes"
| "stack_top (Stack_Malloc ptr bytes) = ptr + bytes"

text \<open>\<open>HeapStack::alloc_stack\<close>: the assertions on \<open>mmap\<close> and \<open>mprotect\<close> make it fail.\<close>

definition heap_alloc_stack :: "usize \<Rightarrow> (usize \<Rightarrow> usize option) \<Rightarrow> (usize \<Rightarrow> usize \<Rightarrow> bool) \<Rightarrow> usize \<Rightarrow>
    memory_call list \<times> stack_mem option" where
  "heap_alloc_stack page mmap mprotect bytes =
     (let usable = round_up (max bytes 16) page;
          mmap_len = page + usable
      in case mmap mmap_len of
           None \<Rightarrow> ([], None)
         | Some base \<Rightarrow>
             ([Mmap base mmap_len, Mprotect (base + page) usable],
              if mprotect (base + page) usable then Some (Stack_Heap (base + page) usable) else None))"

definition dealloc_heap_stack :: "usize \<Rightarrow> usize \<Rightarrow> usize \<Rightarrow> memory_call" where
  "dealloc_heap_stack page ptr bytes = (let base = ptr - page in Munmap base (page + bytes))"

definition malloc_layout :: "usize \<Rightarrow> usize \<times> usize" where
  "malloc_layout bytes = (max bytes 16, 64)"

definition malloc_alloc_stack :: "(usize \<Rightarrow> usize \<Rightarrow> usize option) \<Rightarrow> usize \<Rightarrow> memory_call list \<times> stack_mem option" where
  "malloc_alloc_stack alloc bytes =
     (let bytes = max bytes 16; (sz, al) = malloc_layout bytes
      in case alloc sz al of
           None \<Rightarrow> ([], None)
         | Some ptr \<Rightarrow> ([Global_Alloc ptr sz al], Some (Stack_Malloc ptr bytes)))"

fun stack_mem_drop :: "usize \<Rightarrow> stack_mem \<Rightarrow> memory_call list" where
  "stack_mem_drop page Stack_None = []"
| "stack_mem_drop page (Stack_Heap ptr bytes) = [dealloc_heap_stack page ptr bytes]"
| "stack_mem_drop page (Stack_Malloc ptr bytes) = (case malloc_layout bytes of (sz, al) \<Rightarrow> [Global_Dealloc ptr sz al])"

section \<open>Frames\<close>

text \<open>
  Sizes and alignments of the closure (or future) and of \<open>StackResult\<close>.  \<open>spawn\<close>, \<open>parallel_call\<close> and
  \<open>branch_entry\<close> compute the addresses with \<open>branch_layout\<close>, \<open>build_async_task\<close> and \<open>poll_spawned_task\<close>
  with the same arithmetic.
\<close>

definition branch_layout :: "usize \<Rightarrow> usize \<Rightarrow> usize \<Rightarrow> usize \<Rightarrow> usize \<Rightarrow> usize \<times> usize" where
  "branch_layout f_size f_align r_size r_align stk =
     (let result_addr = align_down (stk - r_size) r_align;
          f_addr = align_down (result_addr - f_size) (max f_align 1)
      in (f_addr, result_addr))"

definition exec_top :: "usize \<Rightarrow> usize" where
  "exec_top f_addr = align_down f_addr 16"

definition async_stack_size :: "usize \<Rightarrow> usize \<Rightarrow> usize \<Rightarrow> usize \<Rightarrow> usize" where
  "async_stack_size f_size f_align r_size r_align = r_size + r_align + f_size + f_align + 16"

definition async_frame :: "usize \<Rightarrow> usize \<Rightarrow> usize \<Rightarrow> usize \<Rightarrow> stack_mem \<Rightarrow> usize \<times> usize" where
  "async_frame f_size f_align r_size r_align mem =
     (let stk = stack_top mem;
          result_addr = align_down (stk - r_size) r_align;
          f_addr = align_down (result_addr - f_size) (max f_align 1)
      in (f_addr, result_addr))"

lemma max_align: "k < 64 \<Longrightarrow> max (2 ^ k) 1 = (2 ^ k :: usize)"
  by (rule max_absorb1) (simp add: word_le_nat_alt unat_pow)

text \<open>The addresses as numbers, when nothing wraps.\<close>

lemma branch_addresses:
  assumes "i < 64" and "j < 64" and "unat rs + 2 ^ i + unat fs + 2 ^ j \<le> unat stk"
    and "branch_layout fs (2 ^ j) rs (2 ^ i) stk = (f, r)"
  shows "unat r + unat rs \<le> unat stk" "unat stk < unat r + unat rs + 2 ^ i"
    "unat f + unat fs \<le> unat r" "unat r < unat f + unat fs + 2 ^ j"
    "2 ^ i dvd unat r" "2 ^ j dvd unat f"
proof -
  have r: "r = align_down (stk - rs) (2 ^ i)" and f: "f = align_down (r - fs) (2 ^ j)"
    using assms(4) max_align [OF assms(2)] by (auto simp: branch_layout_def Let_def)
  have "unat (stk - rs) = unat stk - unat rs" by (rule unat_minus) (use assms(3) in linarith)
  then have R: "unat r \<le> unat stk - unat rs" "unat stk - unat rs < unat r + 2 ^ i"
    using align_down_bounds(1,2) [OF assms(1), of "stk - rs"] r by simp_all
  then have "unat fs \<le> unat r" using assms(3) by linarith
  then have "unat (r - fs) = unat r - unat fs" by (rule unat_minus)
  then have F: "unat f \<le> unat r - unat fs" "unat r - unat fs < unat f + 2 ^ j"
    using align_down_bounds(1,2) [OF assms(2), of "r - fs"] f by simp_all
  show "unat r + unat rs \<le> unat stk" "unat stk < unat r + unat rs + 2 ^ i"
    "unat f + unat fs \<le> unat r" "unat r < unat f + unat fs + 2 ^ j"
    using R F assms(3) \<open>unat fs \<le> unat r\<close> by linarith+
  show "2 ^ i dvd unat r" "2 ^ j dvd unat f"
    unfolding r f by (rule align_down_bounds(3) [OF assms(1)], rule align_down_bounds(3) [OF assms(2)])
qed

lemma async_frame_layout: "async_frame fs fa rs ra mem = branch_layout fs fa rs ra (stack_top mem)"
  by (simp add: async_frame_def branch_layout_def Let_def)

fun memory_of :: "stack_mem \<Rightarrow> (usize \<times> usize) option" where
  "memory_of Stack_None = None"
| "memory_of (Stack_Heap ptr bytes) = Some (ptr, bytes)"
| "memory_of (Stack_Malloc ptr bytes) = Some (ptr, bytes)"

lemma memory_top: "memory_of mem = Some (ptr, bytes) \<Longrightarrow> stack_top mem = ptr + bytes"
  by (cases mem) auto

text \<open>
  C36: storage of the size that \<open>build_async_task\<close> asks for holds the frame of the task: the future and
  the result slot lie inside it, aligned, the future below the result; and for a stackful task with as much
  room the execution stack that starts below the closure is aligned to 16 and not yet past the end.
\<close>

theorem task_frame_fits:
  assumes "i < 64" and "j < 64" and "memory_of mem = Some (ptr, bytes)"
    and "unat rs + 2 ^ i + unat fs + 2 ^ j + 16 < 2 ^ 64"
    and "async_stack_size fs (2 ^ j) rs (2 ^ i) \<le> bytes" and "unat ptr + unat bytes < 2 ^ 64"
    and "async_frame fs (2 ^ j) rs (2 ^ i) mem = (f, r)"
  shows "unat ptr \<le> unat f \<and> unat f + unat fs \<le> unat r \<and> unat r + unat rs \<le> unat ptr + unat bytes \<and>
    2 ^ j dvd unat f \<and> 2 ^ i dvd unat r \<and>
    unat ptr \<le> unat (exec_top f) \<and> unat (exec_top f) \<le> unat f \<and> 16 dvd unat (exec_top f)"
proof -
  have p: "unat (2 ^ i :: usize) = 2 ^ i" "unat (2 ^ j :: usize) = 2 ^ j" using assms(1,2) unat_pow by simp_all
  have "unat (async_stack_size fs (2 ^ j) rs (2 ^ i)) = unat rs + 2 ^ i + unat fs + 2 ^ j + 16"
    using assms(4) by (simp add: async_stack_size_def unat_plus p)
  then have room: "unat rs + 2 ^ i + unat fs + 2 ^ j + 16 \<le> unat bytes" using assms(5) by (simp add: word_le_nat_alt)
  have stk: "unat (stack_top mem) = unat ptr + unat bytes"
    using memory_top [OF assms(3)] unat_plus [OF assms(6)] by simp
  have "unat rs + 2 ^ i + unat fs + 2 ^ j \<le> unat (stack_top mem)" using room stk by linarith
  note a = branch_addresses [OF assms(1,2) this assms(7) [unfolded async_frame_layout]]
  have "exec_top f = align_down f (2 ^ 4)" by (simp add: exec_top_def)
  then have e: "unat (exec_top f) \<le> unat f" "unat f < unat (exec_top f) + 16" "16 dvd unat (exec_top f)"
    using align_down_bounds [of 4 f] by simp_all
  show ?thesis using a e room stk by (intro conjI) linarith+
qed

text \<open>A frame with a result of 24 bytes and a future of 100.\<close>

theorem task_frame_fits_witness:
  "async_frame 100 8 24 8 (Stack_Heap 0x10000 512) = (0x10180, 0x101e8) \<and> exec_top 0x10180 = 0x10180 \<and>
   unat (0x10000 :: usize) \<le> unat (0x10180 :: usize)"
proof -
  have f: "async_frame 100 (2 ^ 3) 24 (2 ^ 3) (Stack_Heap 0x10000 512) = (0x10180, 0x101e8)"
    by (simp add: async_frame_def align_down_def)
  have "unat (0x10000 :: usize) \<le> unat (0x10180 :: usize)"
    using task_frame_fits [where i = 3 and j = 3 and mem = "Stack_Heap 0x10000 512" and ptr = "0x10000" and bytes = 512, OF _ _ _ _ _ _ f]
    by (simp add: async_stack_size_def)
  with f show ?thesis by (simp add: exec_top_def align_down_def)
qed

text \<open>
  What a stack's drop gives back is what its allocation took: \<open>munmap\<close> gets exactly the region of
  \<open>mmap\<close>, and the global allocator the layout it was asked for.  The usable part of a mapped stack has at least the
  size asked for, ends where the region ends, and has an inaccessible page below it.
\<close>

lemma stack_memory_round_trip:
  assumes "k < 63" and "unat bytes + 2 ^ k + 2 ^ k + 16 < 2 ^ 64"
    and "heap_alloc_stack (2 ^ k) mmap mprotect bytes = (calls, Some mem)"
    and "malloc_alloc_stack alloc bytes' = (calls', Some mem')"
  shows "\<exists>base len ptr usable. calls = [Mmap base len, Mprotect ptr usable] \<and> mem = Stack_Heap ptr usable \<and>
      stack_mem_drop (2 ^ k) mem = [Munmap base len] \<and>
      unat bytes \<le> unat usable \<and> 16 \<le> unat usable \<and> 2 ^ k dvd unat usable \<and>
      ptr = base + 2 ^ k \<and> unat len = 2 ^ k + unat usable \<and> stack_top mem = base + len \<and>
    (\<exists>ptr' sz al. calls' = [Global_Alloc ptr' sz al] \<and> stack_mem_drop (2 ^ k) mem' = [Global_Dealloc ptr' sz al])"
proof -
  let ?u = "round_up (max bytes 16) (2 ^ k)"
  from assms(3) obtain base where c: "calls = [Mmap base (2 ^ k + ?u), Mprotect (base + 2 ^ k) ?u]"
    and m: "mem = Stack_Heap (base + 2 ^ k) ?u"
    by (auto simp: heap_alloc_stack_def Let_def split: option.splits if_splits)
  have mx: "unat (max bytes 16) = max (unat bytes) 16"
    by (simp add: max_def word_le_nat_alt)
  then have b: "unat (max bytes 16) + 2 ^ k < 2 ^ 64" using assms(2) by simp
  have k: "k < 64" using assms(1) by simp
  note u = round_up_bounds [OF k b]
  have len: "unat (2 ^ k + ?u) = 2 ^ k + unat ?u"
    using unat_plus [of "2 ^ k" ?u] u(2) mx assms(2) unat_pow [OF k] by simp
  from assms(4) obtain ptr' where c': "calls' = [Global_Alloc ptr' (max (max bytes' 16) 16) 64]"
    and m': "mem' = Stack_Malloc ptr' (max bytes' 16)"
    by (auto simp: malloc_alloc_stack_def malloc_layout_def Let_def split: option.splits)
  have "\<exists>ptr' sz al. calls' = [Global_Alloc ptr' sz al] \<and> stack_mem_drop (2 ^ k) mem' = [Global_Dealloc ptr' sz al]"
    using c' m' by (simp add: malloc_layout_def)
  moreover have "stack_mem_drop (2 ^ k) mem = [Munmap base (2 ^ k + ?u)]"
    by (simp add: m dealloc_heap_stack_def)
  moreover have "unat bytes \<le> unat ?u" "16 \<le> unat ?u" using u(1) mx by simp_all
  moreover have "stack_top mem = base + (2 ^ k + ?u)" by (simp add: m)
  ultimately show ?thesis using c m len u(3) by blast
qed

text \<open>A stack of 5000 bytes with pages of 4096.\<close>

lemma stack_memory_round_trip_example:
  "\<exists>base len ptr usable. heap_alloc_stack 4096 (\<lambda>_. Some 0x10000) (\<lambda>_ _. True) 5000 =
       ([Mmap base len, Mprotect ptr usable], Some (Stack_Heap ptr usable)) \<and>
     stack_mem_drop 4096 (Stack_Heap ptr usable) = [Munmap base len]"
proof -
  have h: "heap_alloc_stack (2 ^ 12) (\<lambda>_. Some 0x10000) (\<lambda>_ _. True) 5000 =
      ([Mmap 0x10000 0x3000, Mprotect 0x11000 0x2000], Some (Stack_Heap 0x11000 0x2000))"
    by (simp add: heap_alloc_stack_def round_up_def Let_def max_def)
  have m: "malloc_alloc_stack (\<lambda>_ _. Some 0x5000) 100 = ([Global_Alloc 0x5000 100 64], Some (Stack_Malloc 0x5000 100))"
    by (simp add: malloc_alloc_stack_def malloc_layout_def max_def)
  show ?thesis using stack_memory_round_trip [OF _ _ h m] h by simp
qed


text \<open>
  The stackful \<open>spawn\<close> and \<open>parallel_call\<close> lay out their frame in a stack whose size was chosen
  without looking at it: when the result type is larger than the whole stack and its guard page, the closure is
  written, and the task runs, entirely below the guard page, in memory that is not its own; nothing
  panics, and no access to the guard page stops it.
\<close>

lemma spawn_frame_escapes:
  assumes "i < 64" and "j < 64" and "k < 64" and "unat stk = unat ptr + unat bytes"
    and "unat bytes + 2 ^ k < unat rs" and "unat rs + 2 ^ i + unat fs + 2 ^ j \<le> unat stk"
    and "branch_layout fs (2 ^ j) rs (2 ^ i) stk = (f, r)"
  shows "unat f + unat fs + 2 ^ k < unat ptr \<and> unat (exec_top f) + 2 ^ k < unat ptr"
proof -
  note a = branch_addresses [OF assms(1,2,6,7)]
  have "exec_top f = align_down f (2 ^ 4)" by (simp add: exec_top_def)
  then have "unat (exec_top f) \<le> unat f" using align_down_bounds(1) [of 4 f] by simp
  then show ?thesis using a assms(4,5) by linarith
qed

text \<open>A task that returns 100000 bytes, on the default stack of 64 kilobytes at 0x100000.\<close>

lemma spawn_frame_escapes_example:
  "branch_layout 64 8 100008 8 0x110000 = (0xf7918, 0xf7958) \<and> unat (0xf7918 :: usize) + 64 + 4096 < unat (0x100000 :: usize)"
proof -
  have f: "branch_layout 64 (2 ^ 3) 100008 (2 ^ 3) 0x110000 = (0xf7918, 0xf7958)"
    by (simp add: branch_layout_def align_down_def)
  from spawn_frame_escapes [where k = 12 and ptr = "0x100000" and bytes = "0x10000", OF _ _ _ _ _ _ f] f show ?thesis by simp
qed


end
