(* ===== verification/Async_Tasks.thy ===== *)
theory Async_Tasks
  imports Join_State Waker_State
begin

text \<open>
  The stackless tasks of a pool together (\<open>resumable/stackless/thread.rs\<close>, \<open>stackless/worker.rs\<close>,
  \<open>stackless/system.rs\<close>, \<open>stackless/waker.rs\<close>): workers that poll futures taken from their run
  queues, the handles the futures await, the join and waker words of \<open>Join_State\<close> and \<open>Waker_State\<close>
  between them.  First the operations, every access to a shared word a step; then the invariants;
  then what holds of all programs, of fork-join programs, and what breaks.
\<close>

section \<open>The state\<close>

text \<open>
  A task is named by the address of its descriptor.  Its token is in a run queue (of a worker, or the
  external one), in a poll of a worker, in nobody's hands while the task is parked, or spent;
  \<open>L_Inline\<close> is a branch of a \<open>parallel_call\<close> that was popped back and is polled as part of its caller.
\<close>

datatype task_loc = L_Free | L_Queue "nat option" | L_Frame nat | L_Parked | L_Done | L_Inline

text \<open>
  Where the poll of a task stands: taken but not marked yet, in the code of its future, between the two
  halves of polling the handle of a task, about to return \<open>Pending\<close>, done with its future.
\<close>

datatype task_pc = P_Begin | P_Run | P_Join usize | P_Wait | P_Finish

text \<open>
  \<open>at_frames w\<close> is the stack of the calls of \<open>run_async_poll\<close> on worker \<open>w\<close>: the task each is at and the
  marker it saved on entry.  \<open>at_claim w\<close> is set between the swap of \<open>finish_and_settle\<close>
  and the claim of the joiner found there: the task that finished, the joiner, the saved marker of the
  call.  A task's handle belongs to a future, that of \<open>at_owner\<close>; \<open>at_built\<close> says that it is
  still the \<open>BuiltAsyncTask\<close> of a \<open>parallel_call\<close>.  The last four fields are for the proofs.
\<close>

record tasks =
  at_word :: "usize \<Rightarrow> usize"
  at_js :: "usize \<Rightarrow> usize"
  at_queue :: "nat option \<Rightarrow> usize list"
  at_polling :: "nat \<Rightarrow> usize option"
  at_yield :: "nat \<Rightarrow> bool"
  at_frames :: "nat \<Rightarrow> (usize \<times> usize option) list"
  at_claim :: "nat \<Rightarrow> (usize \<times> usize \<times> usize option) option"
  at_pc :: "usize \<Rightarrow> task_pc"
  at_owner :: "usize \<Rightarrow> usize option"
  at_built :: "usize \<Rightarrow> bool"
  at_loc :: "usize \<Rightarrow> task_loc"
  at_fault :: bool                    \<comment> \<open>a freed descriptor was accessed\<close>
  at_waits :: "usize \<Rightarrow> usize option"  \<comment> \<open>who was told to wait for the task and has not been polled since\<close>
  at_birth :: "usize \<Rightarrow> nat"
  at_clock :: nat

section \<open>The operations\<close>

definition at_push :: "nat option \<Rightarrow> usize \<Rightarrow> tasks \<Rightarrow> tasks" where
  "at_push q t s = s\<lparr>at_queue := (at_queue s)(q := t # at_queue s q), at_loc := (at_loc s)(t := L_Queue q)\<rparr>"

definition at_defer :: "nat option \<Rightarrow> usize \<Rightarrow> tasks \<Rightarrow> tasks" where
  "at_defer q t s = s\<lparr>at_queue := (at_queue s)(q := at_queue s q @ [t]), at_loc := (at_loc s)(t := L_Queue q)\<rparr>"

definition clear_waits :: "usize \<Rightarrow> (usize \<Rightarrow> usize option) \<Rightarrow> usize \<Rightarrow> usize option" where
  "clear_waits t W = (\<lambda>c. if W c = Some t then None else W c)"

text \<open>Entering \<open>run_async_poll\<close>, by the dispatcher or from the poll of a handle.\<close>

definition at_enter :: "nat \<Rightarrow> usize \<Rightarrow> tasks \<Rightarrow> tasks" where
  "at_enter w t s =
     s\<lparr>at_frames := (at_frames s)(w := (t, at_polling s w) # at_frames s w),
       at_pc := (at_pc s)(t := P_Begin), at_loc := (at_loc s)(t := L_Frame w)\<rparr>"

definition at_pop :: "nat \<Rightarrow> tasks \<Rightarrow> tasks" where
  "at_pop w s =
     (case at_queue s (Some w) of [] \<Rightarrow> s
      | t # ts \<Rightarrow> at_enter w t (s\<lparr>at_queue := (at_queue s)(Some w := ts)\<rparr>))"

definition at_steal :: "nat \<Rightarrow> nat option \<Rightarrow> tasks \<Rightarrow> tasks" where
  "at_steal w q s =
     (if at_queue s q = [] then s
      else at_enter w (last (at_queue s q)) (s\<lparr>at_queue := (at_queue s)(q := butlast (at_queue s q))\<rparr>))"

text \<open>The loop of \<open>run_async_poll\<close>: its head, and its branch for \<open>Pending\<close>.\<close>

definition at_begin :: "nat \<Rightarrow> usize \<Rightarrow> tasks \<Rightarrow> tasks" where
  "at_begin w t s =
     s\<lparr>at_word := (at_word s)(t := mark_polling (at_word s t)), at_polling := (at_polling s)(w := Some t),
       at_pc := (at_pc s)(t := P_Run), at_waits := clear_waits t (at_waits s)\<rparr>"

text \<open>The end of a call of \<open>run_async_poll\<close>: the saved marker is put back.\<close>

definition at_return :: "nat \<Rightarrow> usize option \<Rightarrow> tasks \<Rightarrow> tasks" where
  "at_return w prev s = s\<lparr>at_polling := (at_polling s)(w := prev)\<rparr>"

definition at_leave :: "nat \<Rightarrow> tasks \<Rightarrow> tasks" where
  "at_leave w s = s\<lparr>at_frames := (at_frames s)(w := tl (at_frames s w)), at_yield := (at_yield s)(w := False)\<rparr>"

definition at_pending :: "nat \<Rightarrow> usize \<Rightarrow> usize option \<Rightarrow> tasks \<Rightarrow> tasks" where
  "at_pending w t prev s =
     (let s' = at_return w prev (at_leave w (s\<lparr>at_word := (at_word s)(t := park_word (at_word s t))\<rparr>))
      in if wstate (at_word s t) = NOTIFIED
         then (if at_yield s w then at_defer (Some w) t s' else at_push (Some w) t s')
         else s'\<lparr>at_loc := (at_loc s')(t := L_Parked)\<rparr>)"

text \<open>
  \<open>spawn_now\<close>, and the first half of \<open>parallel_call\<close> (\<open>built\<close>): a fresh descriptor, \<open>RUNNING\<close>
  and \<open>IDLE\<close>, pushed to the worker's own queue.
\<close>

definition at_spawn :: "nat \<Rightarrow> usize \<Rightarrow> usize \<Rightarrow> bool \<Rightarrow> tasks \<Rightarrow> tasks" where
  "at_spawn w t c built s =
     at_push (Some w) c
       (s\<lparr>at_js := (at_js s)(c := JS_RUNNING), at_word := (at_word s)(c := IDLE), at_owner := (at_owner s)(c := Some t),
          at_built := (at_built s)(c := built), at_waits := (at_waits s)(c := None),
          at_birth := (at_birth s)(c := at_clock s), at_clock := at_clock s + 1\<rparr>)"

text \<open>
  Polling a handle.  First \<open>try_reclaim_and_run\<close>: the own queue is popped; the task awaited is run on
  the spot, any other goes back where it was.
\<close>

definition at_reclaim :: "nat \<Rightarrow> usize \<Rightarrow> usize \<Rightarrow> tasks \<Rightarrow> tasks" where
  "at_reclaim w t c s =
     (let s' = s\<lparr>at_pc := (at_pc s)(t := P_Join c)\<rparr>
      in case at_queue s (Some w) of [] \<Rightarrow> s'
         | x # xs \<Rightarrow> if x = c then at_enter w c (s'\<lparr>at_queue := (at_queue s)(Some w := xs)\<rparr>) else s')"

text \<open>The handle's end: the result is taken or dropped, the descriptor goes back to its pool.\<close>

definition at_free :: "usize \<Rightarrow> tasks \<Rightarrow> tasks" where
  "at_free c s =
     s\<lparr>at_loc := (at_loc s)(c := L_Free), at_owner := (at_owner s)(c := None), at_waits := (at_waits s)(c := None)\<rparr>"

text \<open>
  Then the task the worker's marker names is registered as the joiner, or the result is taken.  \<open>pc\<close>
  is where the poll goes on after \<open>Pending\<close>.
\<close>

definition at_register :: "nat \<Rightarrow> usize \<Rightarrow> usize \<Rightarrow> task_pc \<Rightarrow> tasks \<Rightarrow> tasks" where
  "at_register w t c pc s =
     (if at_js s c = JS_FINISHED then (at_free c s)\<lparr>at_pc := (at_pc s)(t := P_Run)\<rparr>
      else case at_polling s w of
             Some j \<Rightarrow> s\<lparr>at_js := (at_js s)(c := j OR JS_ASYNC_JOINER_TAG), at_waits := (at_waits s)(c := Some j),
                         at_pc := (at_pc s)(t := pc)\<rparr>
           | None \<Rightarrow> s)"

definition at_drop :: "usize \<Rightarrow> tasks \<Rightarrow> tasks" where
  "at_drop c s =
     (if at_js s c = JS_FINISHED then at_free c s
      else s\<lparr>at_js := (at_js s)(c := JS_DETACHED), at_owner := (at_owner s)(c := None), at_waits := (at_waits s)(c := None)\<rparr>)"

text \<open>The handle goes to another task, through a channel or a shared variable.\<close>

definition at_send :: "usize \<Rightarrow> usize \<Rightarrow> tasks \<Rightarrow> tasks" where
  "at_send c u s = s\<lparr>at_owner := (at_owner s)(c := Some u), at_waits := (at_waits s)(c := None)\<rparr>"

text \<open>A wake through a waker of \<open>u\<close>, from a worker or from elsewhere: \<open>try_wake_async\<close>.\<close>

definition wake_task :: "usize \<Rightarrow> usize" where
  "wake_task word = (case wake_word word of None \<Rightarrow> word | Some new \<Rightarrow> new)"

definition at_wake :: "nat option \<Rightarrow> usize \<Rightarrow> tasks \<Rightarrow> tasks" where
  "at_wake q u s =
     (if at_loc s u = L_Free then s\<lparr>at_fault := True\<rparr>
      else let s' = s\<lparr>at_word := (at_word s)(u := wake_task (at_word s u))\<rparr>
           in if wake_result (at_word s u) = Claimed_Parked then at_push q u s' else s')"

text \<open>\<open>yield_now\<close>: ask to be queued last, and wake oneself.\<close>

definition at_yield_now :: "nat \<Rightarrow> usize \<Rightarrow> task_pc \<Rightarrow> tasks \<Rightarrow> tasks" where
  "at_yield_now w t pc s =
     s\<lparr>at_yield := (at_yield s)(w := at_polling s w \<noteq> None \<or> at_yield s w),
       at_word := (at_word s)(t := wake_task (at_word s t)), at_pc := (at_pc s)(t := pc)\<rparr>"

text \<open>
  The future is done (\<open>poll_spawned_task\<close>): it is dropped with all it holds, the waker is invalidated,
  the result written; then \<open>finish_and_settle\<close> swaps \<open>FINISHED\<close> in; and then the joiner it found is
  claimed and polled next (symmetric transfer), or left alone.
\<close>

definition at_ready :: "usize \<Rightarrow> tasks \<Rightarrow> tasks" where
  "at_ready t s = s\<lparr>at_word := (at_word s)(t := mark_idle (at_word s t)), at_pc := (at_pc s)(t := P_Finish)\<rparr>"

definition at_settle :: "nat \<Rightarrow> usize \<Rightarrow> usize option \<Rightarrow> tasks \<Rightarrow> tasks" where
  "at_settle w t prev s =
     (case finish_and_settle (at_js s t) of
        (v, act) \<Rightarrow>
          (let s' = at_leave w (s\<lparr>at_js := (at_js s)(t := v)\<rparr>)
           in case act of
                Exit_Claim j \<Rightarrow> s'\<lparr>at_claim := (at_claim s')(w := Some (t, j, prev)), at_loc := (at_loc s')(t := L_Done)\<rparr>
              | Exit_Reclaim \<Rightarrow> at_return w prev (s'\<lparr>at_loc := (at_loc s')(t := L_Free)\<rparr>)
              | _ \<Rightarrow> at_return w prev (s'\<lparr>at_loc := (at_loc s')(t := L_Done)\<rparr>)))"

definition at_claim_joiner :: "nat \<Rightarrow> usize \<Rightarrow> usize option \<Rightarrow> tasks \<Rightarrow> tasks" where
  "at_claim_joiner w j prev s =
     (if at_loc s j = L_Free then s\<lparr>at_fault := True\<rparr>
      else let s' = s\<lparr>at_word := (at_word s)(j := wake_task (at_word s j)), at_claim := (at_claim s)(w := None)\<rparr>
           in if wake_result (at_word s j) = Claimed_Parked
              then s'\<lparr>at_frames := (at_frames s')(w := (j, prev) # at_frames s' w), at_pc := (at_pc s')(j := P_Begin),
                      at_loc := (at_loc s')(j := L_Frame w)\<rparr>
              else at_return w prev s')"

text \<open>
  The second half of \<open>parallel_call\<close>: the pushed branch is popped back and polled as part of the caller,
  with whatever handles its future holds, or becomes an ordinary handle.  \<open>BranchPoll\<close>
  frees the branch when its future is ready, or when it is dropped.
\<close>

definition at_branch :: "nat \<Rightarrow> usize \<Rightarrow> usize \<Rightarrow> tasks \<Rightarrow> tasks" where
  "at_branch w t c s =
     (case at_queue s (Some w) of
        x # xs \<Rightarrow>
          if x = c
          then s\<lparr>at_queue := (at_queue s)(Some w := xs), at_loc := (at_loc s)(c := L_Inline),
                 at_owner := (\<lambda>d. if at_owner s d = Some c then Some t else at_owner s d),
                 at_waits := clear_waits c (at_waits s)\<rparr>
          else s\<lparr>at_built := (at_built s)(c := False)\<rparr>
      | [] \<Rightarrow> s\<lparr>at_built := (at_built s)(c := False)\<rparr>)"

text \<open>The future of a \<open>parallel_call\<close> is dropped before it has made a handle of its branch.\<close>

definition at_cancel :: "usize \<Rightarrow> tasks \<Rightarrow> tasks" where
  "at_cancel c s = s\<lparr>at_owner := (at_owner s)(c := None), at_waits := (at_waits s)(c := None)\<rparr>"

section \<open>Runs\<close>

definition at_on :: "nat \<Rightarrow> usize \<Rightarrow> usize option \<Rightarrow> tasks \<Rightarrow> bool" where
  "at_on w t prev s \<longleftrightarrow> at_claim s w = None \<and> at_frames s w \<noteq> [] \<and> hd (at_frames s w) = (t, prev)"

fun in_poll :: "task_loc \<Rightarrow> bool" where
  "in_poll (L_Frame w) = True"
| "in_poll _ = False"

definition at_unfinished :: "tasks \<Rightarrow> usize \<Rightarrow> bool" where
  "at_unfinished s t \<longleftrightarrow>
     at_loc s t \<noteq> L_Free \<and> at_loc s t \<noteq> L_Done \<and> at_loc s t \<noteq> L_Inline \<and> \<not> (in_poll (at_loc s t) \<and> at_pc s t = P_Finish)"

text \<open>
  \<open>fj\<close> are the runs of fork-join programs: a future that is told to wait returns \<open>Pending\<close>, so it awaits
  one handle at a time; handles stay where they were made, a \<open>parallel_call\<close> is not abandoned, and nobody but
  the tasks they await wakes the tasks.  Otherwise anything goes that safe code can do.
  A run stops when a freed descriptor has been accessed.
\<close>

inductive at_step :: "bool \<Rightarrow> tasks \<Rightarrow> tasks \<Rightarrow> bool" for fj where
  pop: "at_frames s w = [] \<Longrightarrow> at_claim s w = None \<Longrightarrow> \<not> at_fault s \<Longrightarrow> at_step fj s (at_pop w s)"
| steal: "at_frames s w = [] \<Longrightarrow> at_claim s w = None \<Longrightarrow> \<not> at_fault s \<Longrightarrow> q \<noteq> Some w \<Longrightarrow> at_step fj s (at_steal w q s)"
| begins: "at_on w t p s \<Longrightarrow> at_pc s t = P_Begin \<Longrightarrow> \<not> at_fault s \<Longrightarrow> at_step fj s (at_begin w t s)"
| spawns: "at_on w t p s \<Longrightarrow> at_pc s t = P_Run \<Longrightarrow> \<not> at_fault s \<Longrightarrow> at_loc s c = L_Free \<Longrightarrow> ptr_ok c \<Longrightarrow>
    at_step fj s (at_spawn w t c built s)"
| reclaims: "at_on w t p s \<Longrightarrow> at_pc s t = P_Run \<Longrightarrow> \<not> at_fault s \<Longrightarrow> at_owner s c = Some t \<Longrightarrow> \<not> at_built s c \<Longrightarrow>
    at_step fj s (at_reclaim w t c s)"
| registers: "at_on w t p s \<Longrightarrow> at_pc s t = P_Join c \<Longrightarrow> \<not> at_fault s \<Longrightarrow>
    at_step fj s (at_register w t c (if fj then P_Wait else P_Run) s)"
| drops: "at_on w t p s \<Longrightarrow> at_pc s t = P_Run \<Longrightarrow> \<not> at_fault s \<Longrightarrow> at_owner s c = Some t \<Longrightarrow> \<not> at_built s c \<Longrightarrow>
    at_step fj s (at_drop c s)"
| yields: "at_on w t p s \<Longrightarrow> at_pc s t = P_Run \<Longrightarrow> \<not> at_fault s \<Longrightarrow>
    at_step fj s (at_yield_now w t (if fj then P_Wait else P_Run) s)"
| pends: "at_on w t p s \<Longrightarrow> at_pc s t = P_Wait \<or> (at_pc s t = P_Run \<and> \<not> fj) \<Longrightarrow> \<not> at_fault s \<Longrightarrow>
    at_step fj s (at_pending w t p s)"
| readies: "at_on w t p s \<Longrightarrow> at_pc s t = P_Run \<Longrightarrow> \<not> at_fault s \<Longrightarrow> (\<forall>c. at_owner s c \<noteq> Some t) \<Longrightarrow>
    at_step fj s (at_ready t s)"
| settles: "at_on w t p s \<Longrightarrow> at_pc s t = P_Finish \<Longrightarrow> \<not> at_fault s \<Longrightarrow> at_step fj s (at_settle w t p s)"
| claims: "at_claim s w = Some (c, j, p) \<Longrightarrow> \<not> at_fault s \<Longrightarrow> at_step fj s (at_claim_joiner w j p s)"
| branches: "at_on w t p s \<Longrightarrow> at_pc s t = P_Run \<Longrightarrow> \<not> at_fault s \<Longrightarrow> at_owner s c = Some t \<Longrightarrow> at_built s c \<Longrightarrow>
    at_loc s c \<noteq> L_Inline \<Longrightarrow> at_step fj s (at_branch w t c s)"
| branch_ends: "at_on w t p s \<Longrightarrow> at_pc s t = P_Run \<Longrightarrow> \<not> at_fault s \<Longrightarrow> at_owner s c = Some t \<Longrightarrow>
    at_loc s c = L_Inline \<Longrightarrow> at_step fj s (at_free c s)"
| wakes: "\<not> fj \<Longrightarrow> \<not> at_fault s \<Longrightarrow> at_step fj s (at_wake q u s)"
| sends: "\<not> fj \<Longrightarrow> at_on w t p s \<Longrightarrow> at_pc s t = P_Run \<Longrightarrow> \<not> at_fault s \<Longrightarrow> at_owner s c = Some t \<Longrightarrow> \<not> at_built s c \<Longrightarrow>
    at_unfinished s u \<Longrightarrow> at_step fj s (at_send c u s)"
| cancels: "\<not> fj \<Longrightarrow> at_on w t p s \<Longrightarrow> at_pc s t = P_Run \<Longrightarrow> \<not> at_fault s \<Longrightarrow> at_owner s c = Some t \<Longrightarrow> at_built s c \<Longrightarrow>
    at_loc s c \<noteq> L_Inline \<Longrightarrow> at_step fj s (at_cancel c s)"

text \<open>\<open>run_async\<close>: the root task, detached, in the first worker's queue.\<close>

definition at_start :: "usize \<Rightarrow> tasks" where
  "at_start r =
     \<lparr>at_word = (\<lambda>_. IDLE), at_js = (\<lambda>_. JS_DETACHED), at_queue = (\<lambda>q. if q = Some 0 then [r] else []),
      at_polling = (\<lambda>_. None), at_yield = (\<lambda>_. False), at_frames = (\<lambda>_. []), at_claim = (\<lambda>_. None),
      at_pc = (\<lambda>_. P_Begin), at_owner = (\<lambda>_. None), at_built = (\<lambda>_. False),
      at_loc = (\<lambda>t. if t = r then L_Queue (Some 0) else L_Free), at_fault = False, at_waits = (\<lambda>_. None),
      at_birth = (\<lambda>_. 0), at_clock = 1\<rparr>"

inductive at_reachable :: "bool \<Rightarrow> tasks \<Rightarrow> bool" for fj where
  at_init: "ptr_ok r \<Longrightarrow> at_reachable fj (at_start r)"
| at_next: "at_reachable fj s \<Longrightarrow> at_step fj s s' \<Longrightarrow> at_reachable fj s'"

end
