(* ===== verification/Async_Invariants.thy ===== *)
theory Async_Invariants
  imports Async_Tasks
begin

text \<open>
  The invariants of the stackless tasks of \<open>Async_Tasks\<close> that every program keeps: where the tokens are, what
  the join and waker words say, who holds the handles, what the markers of the workers name, and
  that a task told to wait is registered or has been woken.  Each is preserved by each step.
\<close>

section \<open>Well-formedness\<close>

lemmas at_defs = at_push_def at_defer_def at_enter_def at_pop_def at_steal_def at_begin_def at_return_def at_leave_def
  at_pending_def at_spawn_def at_reclaim_def at_free_def at_register_def at_drop_def at_send_def at_wake_def
  at_yield_now_def at_ready_def at_claim_joiner_def at_branch_def at_cancel_def

lemma at_pending_sel [simp]:
  "at_word (at_pending w t p s) = (at_word s)(t := park_word (at_word s t))"
  "at_js (at_pending w t p s) = at_js s"
  "at_polling (at_pending w t p s) = (at_polling s)(w := p)"
  "at_frames (at_pending w t p s) = (at_frames s)(w := tl (at_frames s w))"
  "at_claim (at_pending w t p s) = at_claim s"
  "at_pc (at_pending w t p s) = at_pc s"
  "at_owner (at_pending w t p s) = at_owner s"
  "at_built (at_pending w t p s) = at_built s"
  "at_loc (at_pending w t p s) =
     (at_loc s)(t := if wstate (at_word s t) = NOTIFIED then L_Queue (Some w) else L_Parked)"
  "at_waits (at_pending w t p s) = at_waits s"
  "at_birth (at_pending w t p s) = at_birth s"
  "at_clock (at_pending w t p s) = at_clock s"
  "at_fault (at_pending w t p s) = at_fault s"
  by (simp_all add: at_pending_def at_return_def at_leave_def at_push_def at_defer_def Let_def)

text \<open>Every queue and every stack of polls holds exactly the tokens that are there, once each.\<close>

definition inv_queue :: "tasks \<Rightarrow> bool" where
  "inv_queue s \<longleftrightarrow> (\<forall>q. distinct (at_queue s q) \<and> (\<forall>t. t \<in> set (at_queue s q) \<longleftrightarrow> at_loc s t = L_Queue q))"

definition inv_frames :: "tasks \<Rightarrow> bool" where
  "inv_frames s \<longleftrightarrow>
     (\<forall>w. distinct (map fst (at_frames s w)) \<and> (\<forall>t. t \<in> fst ` set (at_frames s w) \<longleftrightarrow> at_loc s t = L_Frame w))"

lemma at_onD:
  assumes "at_on w t p s"
  obtains fs where "at_claim s w = None" "at_frames s w = (t, p) # fs"
  using assms by (cases "at_frames s w") (auto simp: at_on_def)

lemma at_on_loc: "at_on w t p s \<Longrightarrow> inv_frames s \<Longrightarrow> at_loc s t = L_Frame w"
  by (erule at_onD) (force simp: inv_frames_def)

text \<open>What the exit of a task may find in its join word, here: nothing but handles and tasks.\<close>

definition inv_js :: "tasks \<Rightarrow> bool" where
  "inv_js s \<longleftrightarrow>
     (\<forall>t. at_loc s t \<noteq> L_Free \<longrightarrow> ptr_ok t \<and> (at_js s t = JS_FINISHED \<longleftrightarrow> at_loc s t = L_Done) \<and>
        (at_loc s t \<noteq> L_Done \<longrightarrow> at_js s t = JS_RUNNING \<or> at_js s t = JS_DETACHED \<or>
           (\<exists>j. ptr_ok j \<and> at_js s t = j OR JS_ASYNC_JOINER_TAG)))"

text \<open>The handles: of a descriptor that is there and that its exit will not free, in the future of a living task.\<close>

definition inv_owner :: "tasks \<Rightarrow> bool" where
  "inv_owner s \<longleftrightarrow>
     (\<forall>c t. at_owner s c = Some t \<longrightarrow> at_loc s c \<noteq> L_Free \<and> at_js s c \<noteq> JS_DETACHED \<and> at_unfinished s t) \<and>
     (\<forall>w t c. at_loc s t = L_Frame w \<and> at_pc s t = P_Join c \<longrightarrow> at_owner s c = Some t \<and> \<not> at_built s c)"

text \<open>The waker words.\<close>

definition inv_words :: "tasks \<Rightarrow> bool" where
  "inv_words s \<longleftrightarrow>
     (\<forall>t. at_loc s t \<noteq> L_Free \<longrightarrow> (wstate (at_word s t) = PARKED \<longleftrightarrow> at_loc s t = L_Parked)) \<and>
     (\<forall>t w. at_loc s t = L_Frame w \<and> at_pc s t \<noteq> P_Begin \<and> at_pc s t \<noteq> P_Finish \<longrightarrow> wstate (at_word s t) \<noteq> IDLE)"

text \<open>The markers: that of a worker names the task it is polling, the saved ones the task of the poll below.\<close>

fun marks_ok :: "(usize \<times> usize option) list \<Rightarrow> bool" where
  "marks_ok [] \<longleftrightarrow> True"
| "marks_ok ((t, p) # fs) \<longleftrightarrow> p = (case fs of [] \<Rightarrow> None | f # _ \<Rightarrow> Some (fst f)) \<and> marks_ok fs"

definition marks_at :: "tasks \<Rightarrow> nat \<Rightarrow> bool" where
  "marks_at s w \<longleftrightarrow>
     (case at_claim s w of
        Some (c, j, p) \<Rightarrow> marks_ok ((c, p) # at_frames s w)
      | None \<Rightarrow> marks_ok (at_frames s w) \<and>
          (case at_frames s w of
             [] \<Rightarrow> at_polling s w = None
           | f # fs \<Rightarrow> at_pc s (fst f) \<noteq> P_Begin \<longrightarrow> at_polling s w = Some (fst f)))"

definition inv_marks :: "tasks \<Rightarrow> bool" where
  "inv_marks s \<longleftrightarrow> (\<forall>w. marks_at s w)"

lemma wake_task_wstate [simp]:
  "wstate (wake_task word) =
     (if wstate word = POLLING then NOTIFIED else if wstate word = PARKED then POLLING else wstate word)"
  by (simp add: wake_task_def wake_word_def)

lemma park_word_wstate: "wstate (park_word word) = (if wstate word = NOTIFIED then POLLING else PARKED)"
  by (simp add: park_word_def)

lemma claimed_iff: "wake_result word = Claimed_Parked \<longleftrightarrow> wstate word = PARKED"
  by (simp add: wake_result_def)

lemma settle_claim: "ptr_ok j \<Longrightarrow> finish_and_settle (j OR JS_ASYNC_JOINER_TAG) = (JS_FINISHED, Exit_Claim j)"
  using join_word_rt [of "Async_Joiner j"] by (simp add: finish_and_settle_def js_ok_def encode_join_state_def)

lemma settle_cases:
  assumes "at_js s t = JS_RUNNING \<or> at_js s t = JS_DETACHED \<or> (\<exists>j. ptr_ok j \<and> at_js s t = j OR JS_ASYNC_JOINER_TAG)"
  obtains (nobody) "at_js s t = JS_RUNNING" "finish_and_settle (at_js s t) = (JS_FINISHED, Exit_None)"
  | (detached) "at_js s t = JS_DETACHED" "finish_and_settle (at_js s t) = (JS_FINISHED, Exit_Reclaim)"
  | (joiner) j where "ptr_ok j" "at_js s t = j OR JS_ASYNC_JOINER_TAG"
      "finish_and_settle (at_js s t) = (JS_FINISHED, Exit_Claim j)"
proof -
  have "decode_join_state (j OR JS_ASYNC_JOINER_TAG) = Async_Joiner j" if "ptr_ok j" for j
    using join_word_rt [of "Async_Joiner j"] that by (simp add: js_ok_def encode_join_state_def)
  then show ?thesis using assms nobody detached joiner
    by (auto simp: finish_and_settle_def)
qed

text \<open>The settling step, in the three cases that arise.\<close>

lemma at_settle_eq:
  "finish_and_settle (at_js s t) = (v, Exit_None) \<Longrightarrow> at_settle w t p s =
     at_return w p (at_leave w (s\<lparr>at_js := (at_js s)(t := v), at_loc := (at_loc s)(t := L_Done)\<rparr>))"
  "finish_and_settle (at_js s t) = (v, Exit_Reclaim) \<Longrightarrow> at_settle w t p s =
     at_return w p (at_leave w (s\<lparr>at_js := (at_js s)(t := v), at_loc := (at_loc s)(t := L_Free)\<rparr>))"
  "finish_and_settle (at_js s t) = (v, Exit_Claim j) \<Longrightarrow> at_settle w t p s =
     at_leave w (s\<lparr>at_js := (at_js s)(t := v), at_loc := (at_loc s)(t := L_Done),
       at_claim := (at_claim s)(w := Some (t, j, p))\<rparr>)"
  by (simp_all add: at_settle_def at_leave_def at_return_def Let_def)

lemma joiner_tag_values [simp]:
  "ptr_ok j \<Longrightarrow> j OR JS_ASYNC_JOINER_TAG \<noteq> JS_FINISHED"
  "ptr_ok j \<Longrightarrow> j OR JS_ASYNC_JOINER_TAG \<noteq> JS_RUNNING"
  "ptr_ok j \<Longrightarrow> j OR JS_ASYNC_JOINER_TAG \<noteq> JS_DETACHED"
  "ptr_ok j \<Longrightarrow> ptr_ok j' \<Longrightarrow> j OR JS_ASYNC_JOINER_TAG = j' OR JS_ASYNC_JOINER_TAG \<longleftrightarrow> j = j'"
proof -
  have d: "decode_join_state (j OR JS_ASYNC_JOINER_TAG) = Async_Joiner j" if "ptr_ok j" for j
    using join_word_rt [of "Async_Joiner j"] that by (simp add: js_ok_def encode_join_state_def)
  show "ptr_ok j \<Longrightarrow> j OR JS_ASYNC_JOINER_TAG \<noteq> JS_FINISHED"
    "ptr_ok j \<Longrightarrow> j OR JS_ASYNC_JOINER_TAG \<noteq> JS_RUNNING"
    "ptr_ok j \<Longrightarrow> j OR JS_ASYNC_JOINER_TAG \<noteq> JS_DETACHED"
    "ptr_ok j \<Longrightarrow> ptr_ok j' \<Longrightarrow> j OR JS_ASYNC_JOINER_TAG = j' OR JS_ASYNC_JOINER_TAG \<longleftrightarrow> j = j'"
    by (metis d decode_simps join_state.distinct join_state.inject(3))+
qed

lemmas joiner_tag_flipped [simp] = joiner_tag_values(1-3) [symmetric]

lemma js_distinct [simp]:
  "JS_RUNNING \<noteq> JS_FINISHED" "JS_RUNNING \<noteq> JS_DETACHED" "JS_DETACHED \<noteq> JS_FINISHED"
  "JS_FINISHED \<noteq> JS_RUNNING" "JS_DETACHED \<noteq> JS_RUNNING" "JS_FINISHED \<noteq> JS_DETACHED"
  by (simp_all add: js_consts)

subsection \<open>Places\<close>

lemma inv_queueD: "inv_queue s \<Longrightarrow> distinct (at_queue s q) \<and> (t \<in> set (at_queue s q) \<longleftrightarrow> at_loc s t = L_Queue q)"
  by (simp add: inv_queue_def)

lemma inv_framesD:
  "inv_frames s \<Longrightarrow> distinct (map fst (at_frames s w)) \<and> (t \<in> fst ` set (at_frames s w) \<longleftrightarrow> at_loc s t = L_Frame w)"
  by (simp add: inv_frames_def)

lemma inv_queue_pop_hd:
  assumes "inv_queue s" "at_queue s q = t # ts" "\<And>q. l \<noteq> L_Queue q"
  shows "inv_queue (s\<lparr>at_queue := (at_queue s)(q := ts), at_loc := (at_loc s)(t := l)\<rparr>)"
  using assms inv_queueD [OF assms(1), of q] unfolding inv_queue_def
  by auto (metis list.set_intros task_loc.inject(1))+

lemma inv_queue_pop_last:
  assumes "inv_queue s" "at_queue s q \<noteq> []" "\<And>q. l \<noteq> L_Queue q"
  shows "inv_queue (s\<lparr>at_queue := (at_queue s)(q := butlast (at_queue s q)),
    at_loc := (at_loc s)(last (at_queue s q) := l)\<rparr>)"
proof -
  obtain xs x where x: "at_queue s q = xs @ [x]" using assms(2) by (metis append_butlast_last_id)
  then show ?thesis
    using assms inv_queueD [OF assms(1), of q] unfolding inv_queue_def
    by auto (metis in_set_conv_decomp task_loc.inject(1))+
qed

definition at_inv :: "tasks \<Rightarrow> bool" where
  "at_inv s \<longleftrightarrow> inv_queue s \<and> inv_frames s \<and> inv_js s \<and> inv_owner s \<and> inv_words s \<and> inv_marks s"

lemma at_invD:
  assumes "at_inv s"
  shows "inv_queue s" "inv_frames s" "inv_js s" "inv_owner s" "inv_words s" "inv_marks s"
  using assms by (simp_all add: at_inv_def)

text \<open>How the two families of places change: a token moves from nowhere to a queue, to a stack, and back.\<close>

lemma inv_queue_frame:
  assumes "inv_queue s" "at_queue s' = at_queue s" "\<And>t q. at_loc s' t = L_Queue q \<longleftrightarrow> at_loc s t = L_Queue q"
  shows "inv_queue s'"
  using assms by (simp add: inv_queue_def)

lemma inv_frames_frame:
  assumes "inv_frames s" "at_frames s' = at_frames s" "\<And>t w. at_loc s' t = L_Frame w \<longleftrightarrow> at_loc s t = L_Frame w"
  shows "inv_frames s'"
  using assms by (simp add: inv_frames_def)

lemma inv_queue_insert:
  assumes "inv_queue s" "\<And>q. at_loc s t \<noteq> L_Queue q" "at_queue s' = (at_queue s)(q := ts)"
    and "set ts = insert t (set (at_queue s q))" "distinct ts" "\<And>u. at_loc s' u = (if u = t then L_Queue q else at_loc s u)"
  shows "inv_queue s'"
  using assms inv_queueD [OF assms(1)] by (auto simp: inv_queue_def)

lemma inv_queue_remove:
  assumes "inv_queue s" "at_queue s' = (at_queue s)(q := ts)"
    and "set ts = set (at_queue s q) - {t}" "distinct ts" "at_loc s t = L_Queue q"
    and "\<And>u q'. at_loc s' u = L_Queue q' \<longleftrightarrow> u \<noteq> t \<and> at_loc s u = L_Queue q'"
  shows "inv_queue s'"
  using assms inv_queueD [OF assms(1)] by (auto simp: inv_queue_def)

lemma inv_frames_insert:
  assumes "inv_frames s" "\<And>w. at_loc s t \<noteq> L_Frame w" "at_frames s' = (at_frames s)(w := (t, p) # at_frames s w)"
    and "\<And>u w'. at_loc s' u = L_Frame w' \<longleftrightarrow> (if u = t then w' = w else at_loc s u = L_Frame w')"
  shows "inv_frames s'"
  using assms inv_framesD [OF assms(1)] by (auto simp: inv_frames_def)

lemma inv_frames_remove:
  assumes "inv_frames s" "at_frames s w = (t, p) # fs" "at_frames s' = (at_frames s)(w := fs)"
    and "\<And>u w'. at_loc s' u = L_Frame w' \<longleftrightarrow> u \<noteq> t \<and> at_loc s u = L_Frame w'"
  shows "inv_frames s'"
proof -
  have "distinct (map fst (at_frames s' w'))" for w'
    using inv_framesD [OF assms(1), of w'] assms(2,3) by (cases "w' = w") simp_all
  moreover have "u \<in> fst ` set (at_frames s' w') \<longleftrightarrow> at_loc s' u = L_Frame w'" for u w'
  proof (cases "w' = w")
    case True
    then show ?thesis using inv_framesD [OF assms(1), of w] inv_framesD [OF assms(1), of w u] assms(2,3)
      by (auto simp: assms(4))
  next
    case False
    have "at_loc s t = L_Frame w" using inv_framesD [OF assms(1), of w t] assms(2) by simp
    then show ?thesis using False inv_framesD [OF assms(1), of w' u] assms(3) by (auto simp: assms(4))
  qed
  ultimately show ?thesis by (simp add: inv_frames_def)
qed

lemma inv_queue_step: "at_step fj s s' \<Longrightarrow> at_inv s \<Longrightarrow> inv_queue s'"
proof (induction rule: at_step.induct)
  case (pop s w)
  note inv = at_invD [OF pop(4)]
  show ?case
  proof (cases "at_queue s (Some w)")
    case (Cons t ts)
    with inv_queueD [OF inv(1), of "Some w"] have "t \<notin> set ts" "distinct ts" "at_loc s t = L_Queue (Some w)" by auto
    with Cons show ?thesis
      by (intro inv_queue_remove [OF inv(1), where q = "Some w" and ts = ts and t = t]) (auto simp: at_pop_def at_enter_def)
  qed (use inv in \<open>simp add: at_pop_def\<close>)
next
  case (steal s w q)
  note inv = at_invD [OF steal(5)]
  show ?case
  proof (cases "at_queue s q = []")
    case False
    then obtain xs x where x: "at_queue s q = xs @ [x]" by (metis append_butlast_last_id)
    with inv_queueD [OF inv(1), of q] have "x \<notin> set xs" "distinct xs" "at_loc s x = L_Queue q" by auto
    with x show ?thesis
      by (intro inv_queue_remove [OF inv(1), where q = q and ts = xs and t = x]) (auto simp: at_steal_def at_enter_def)
  qed (use inv in \<open>simp add: at_steal_def\<close>)
next
  case (begins w t p s)
  show ?case by (intro inv_queue_frame [OF at_invD(1) [OF begins(4)]]) (simp_all add: at_defs)
next
  case (spawns w t p s c built)
  note inv = at_invD [OF spawns(6)]
  show ?case using spawns(4) inv_queueD [OF inv(1), of "Some w" c] inv_queueD [OF inv(1), of "Some w"]
    by (intro inv_queue_insert [OF inv(1), where t = c and q = "Some w" and ts = "c # at_queue s (Some w)"])
      (simp_all add: at_spawn_def at_push_def)
next
  case (reclaims w t p s c)
  note inv = at_invD [OF reclaims(6)]
  have same: "inv_queue (s\<lparr>at_pc := (at_pc s)(t := P_Join c)\<rparr>)"
    by (intro inv_queue_frame [OF inv(1)]) simp_all
  show ?case
  proof (cases "\<exists>xs. at_queue s (Some w) = c # xs")
    case True
    then obtain xs where xs: "at_queue s (Some w) = c # xs" by blast
    with inv_queueD [OF inv(1), of "Some w"] have "c \<notin> set xs" "distinct xs" "at_loc s c = L_Queue (Some w)" by auto
    with xs show ?thesis
      by (intro inv_queue_remove [OF inv(1), where q = "Some w" and ts = xs and t = c])
        (auto simp: at_reclaim_def at_branch_def at_enter_def Let_def)
  next
    case False
    with same show ?thesis by (auto simp: at_reclaim_def Let_def split: list.splits)
  qed
next
  case (registers w t p s c)
  note inv = at_invD [OF registers(4)]
  from registers have l: "at_loc s t = L_Frame w" by (blast intro: at_on_loc inv(2))
  then have c: "at_owner s c = Some t" using inv(4) registers(2) unfolding inv_owner_def by blast
  then have "at_loc s c \<noteq> L_Free" using inv(4) unfolding inv_owner_def by blast
  then have "at_js s c = JS_FINISHED \<longleftrightarrow> at_loc s c = L_Done" using inv(3) unfolding inv_js_def by blast
  then show ?case
    by (intro inv_queue_frame [OF inv(1)]) (auto simp: at_defs split: option.splits)
next
  case (drops w t p s c)
  note inv = at_invD [OF drops(6)]
  from drops have "at_loc s c \<noteq> L_Free" using inv(4) unfolding inv_owner_def by blast
  then have "at_js s c = JS_FINISHED \<longleftrightarrow> at_loc s c = L_Done" using inv(3) unfolding inv_js_def by blast
  then show ?case
    by (intro inv_queue_frame [OF inv(1)]) (auto simp: at_defs split: option.splits)
next
  case (yields w t p s)
  show ?case by (intro inv_queue_frame [OF at_invD(1) [OF yields(4)]]) (simp_all add: at_defs)
next
  case (pends w t p s)
  note inv = at_invD [OF pends(4)]
  from pends have l: "at_loc s t = L_Frame w" by (blast intro: at_on_loc inv(2))
  show ?case
  proof (cases "wstate (at_word s t) = NOTIFIED")
    case True
    have t: "t \<notin> set (at_queue s (Some w))" using l inv_queueD [OF inv(1), of "Some w" t] by simp
    show ?thesis using True l t inv_queueD [OF inv(1), of "Some w"]
      by (intro inv_queue_insert [OF inv(1), where t = t and q = "Some w" and
            ts = "if at_yield s w then at_queue s (Some w) @ [t] else t # at_queue s (Some w)"])
        (simp_all add: at_pending_def at_return_def at_leave_def at_push_def at_defer_def Let_def)
  next
    case False
    then show ?thesis using l by (intro inv_queue_frame [OF inv(1)]) (auto simp: at_defs Let_def)
  qed
next
  case (readies w t p s)
  show ?case by (intro inv_queue_frame [OF at_invD(1) [OF readies(5)]]) (simp_all add: at_defs)
next
  case (settles w t p s)
  note inv = at_invD [OF settles(4)]
  from settles have l: "at_loc s t = L_Frame w" by (blast intro: at_on_loc inv(2))
  then have "at_js s t = JS_RUNNING \<or> at_js s t = JS_DETACHED \<or> (\<exists>j. ptr_ok j \<and> at_js s t = j OR JS_ASYNC_JOINER_TAG)"
    using inv(3) unfolding inv_js_def by force
  then show ?case
    by (cases rule: settle_cases)
      (use l in \<open>auto simp: at_settle_eq at_leave_def at_return_def split: if_splits intro!: inv_queue_frame [OF inv(1)]\<close>)
next
  case (claims s w c j p)
  note inv = at_invD [OF claims(3)]
  have "wstate (at_word s j) = PARKED \<longleftrightarrow> at_loc s j = L_Parked" if "at_loc s j \<noteq> L_Free"
    using inv(5) that unfolding inv_words_def by blast
  then show ?case
    by (intro inv_queue_frame [OF inv(1)]) (auto simp: at_claim_joiner_def at_return_def claimed_iff Let_def)
next
  case (branches w t p s c)
  note inv = at_invD [OF branches(7)]
  show ?case
  proof (cases "\<exists>xs. at_queue s (Some w) = c # xs")
    case True
    then obtain xs where xs: "at_queue s (Some w) = c # xs" by blast
    with inv_queueD [OF inv(1), of "Some w"] have "c \<notin> set xs" "distinct xs" "at_loc s c = L_Queue (Some w)" by auto
    with xs show ?thesis
      by (intro inv_queue_remove [OF inv(1), where q = "Some w" and ts = xs and t = c])
        (auto simp: at_reclaim_def at_branch_def at_enter_def Let_def)
  next
    case False
    have "inv_queue (s\<lparr>at_built := (at_built s)(c := False)\<rparr>)" by (intro inv_queue_frame [OF inv(1)]) simp_all
    with False show ?thesis by (auto simp: at_branch_def split: list.splits)
  qed
next
  case (branch_ends w t p s c)
  show ?case using branch_ends(5) by (intro inv_queue_frame [OF at_invD(1) [OF branch_ends(6)]]) (auto simp: at_free_def)
next
  case (wakes s q u)
  note inv = at_invD [OF wakes(3)]
  show ?case
  proof (cases "at_loc s u \<noteq> L_Free \<and> wstate (at_word s u) = PARKED")
    case True
    then have "at_loc s u = L_Parked" using inv(5) unfolding inv_words_def by blast
    then show ?thesis using True inv_queueD [OF inv(1), of q u] inv_queueD [OF inv(1), of q]
      by (intro inv_queue_insert [OF inv(1), where t = u and q = q and ts = "u # at_queue s q"])
        (simp_all add: at_wake_def at_push_def claimed_iff Let_def)
  next
    case False
    then show ?thesis
      by (intro inv_queue_frame [OF inv(1)]) (auto simp: at_wake_def claimed_iff Let_def)
  qed
next
  case (sends w t p s c u)
  show ?case by (intro inv_queue_frame [OF at_invD(1) [OF sends(8)]]) (simp_all add: at_defs)
next
  case (cancels w t p s c)
  show ?case by (intro inv_queue_frame [OF at_invD(1) [OF cancels(8)]]) (simp_all add: at_defs)
qed

lemma handle_loc:
  assumes "inv_js s" "inv_owner s" "at_owner s c = Some t"
  shows "at_loc s c \<noteq> L_Free \<and> (at_js s c = JS_FINISHED \<longleftrightarrow> at_loc s c = L_Done)"
proof -
  have "at_loc s c \<noteq> L_Free" using assms(2,3) unfolding inv_owner_def by blast
  with assms(1) show ?thesis unfolding inv_js_def by blast
qed

lemma on_settle_cases:
  assumes "at_loc s t = L_Frame w" "inv_js s"
  obtains (nobody) "at_js s t = JS_RUNNING" "at_settle w t p s =
      at_return w p (at_leave w (s\<lparr>at_js := (at_js s)(t := JS_FINISHED), at_loc := (at_loc s)(t := L_Done)\<rparr>))"
  | (detached) "at_js s t = JS_DETACHED" "at_settle w t p s =
      at_return w p (at_leave w (s\<lparr>at_js := (at_js s)(t := JS_FINISHED), at_loc := (at_loc s)(t := L_Free)\<rparr>))"
  | (joiner) j where "ptr_ok j" "at_js s t = j OR JS_ASYNC_JOINER_TAG" "at_settle w t p s =
      at_leave w (s\<lparr>at_js := (at_js s)(t := JS_FINISHED), at_loc := (at_loc s)(t := L_Done),
        at_claim := (at_claim s)(w := Some (t, j, p))\<rparr>)"
proof -
  have "at_js s t = JS_RUNNING \<or> at_js s t = JS_DETACHED \<or> (\<exists>j. ptr_ok j \<and> at_js s t = j OR JS_ASYNC_JOINER_TAG)"
    using assms unfolding inv_js_def by force
  then show thesis
    by (cases rule: settle_cases) (use that at_settle_eq in metis)+
qed

lemma parked_iff:
  "inv_words s \<Longrightarrow> at_loc s t \<noteq> L_Free \<Longrightarrow> wstate (at_word s t) = PARKED \<longleftrightarrow> at_loc s t = L_Parked"
  unfolding inv_words_def by blast

lemma inv_frames_step: "at_step fj s s' \<Longrightarrow> at_inv s \<Longrightarrow> inv_frames s'"
proof (induction rule: at_step.induct)
  case (pop s w)
  note inv = at_invD [OF pop(4)]
  show ?case
  proof (cases "at_queue s (Some w)")
    case (Cons t ts)
    with inv_queueD [OF inv(1), of "Some w" t] have "at_loc s t = L_Queue (Some w)" by simp
    with Cons show ?thesis
      by (intro inv_frames_insert [OF inv(2), where w = w and t = t and p = "at_polling s w"]) (auto simp: at_pop_def at_enter_def)
  qed (use inv in \<open>simp add: at_pop_def\<close>)
next
  case (steal s w q)
  note inv = at_invD [OF steal(5)]
  show ?case
  proof (cases "at_queue s q = []")
    case False
    with inv_queueD [OF inv(1), of q "last (at_queue s q)"] have "at_loc s (last (at_queue s q)) = L_Queue q" by simp
    with False show ?thesis
      by (intro inv_frames_insert [OF inv(2), where w = w and t = "last (at_queue s q)" and p = "at_polling s w"])
        (auto simp: at_steal_def at_enter_def)
  qed (use inv in \<open>simp add: at_steal_def\<close>)
next
  case (begins w t p s)
  show ?case by (intro inv_frames_frame [OF at_invD(2) [OF begins(4)]]) (simp_all add: at_defs)
next
  case (spawns w t p s c built)
  show ?case using spawns(4) by (intro inv_frames_frame [OF at_invD(2) [OF spawns(6)]]) (simp_all add: at_defs)
next
  case (reclaims w t p s c)
  note inv = at_invD [OF reclaims(6)]
  have same: "inv_frames (s\<lparr>at_pc := (at_pc s)(t := P_Join c)\<rparr>)"
    by (rule inv_frames_frame [OF inv(2)]) simp_all
  show ?case
  proof (cases "\<exists>xs. at_queue s (Some w) = c # xs")
    case True
    then obtain xs where xs: "at_queue s (Some w) = c # xs" by blast
    with inv_queueD [OF inv(1), of "Some w" c] have "at_loc s c = L_Queue (Some w)" by simp
    with xs show ?thesis
      by (intro inv_frames_insert [OF inv(2), where w = w and t = c and p = "at_polling s w"])
        (auto simp: at_reclaim_def at_enter_def Let_def)
  next
    case False
    with same show ?thesis by (auto simp: at_reclaim_def Let_def split: list.splits)
  qed
next
  case (registers w t p s c)
  note inv = at_invD [OF registers(4)]
  from registers have l: "at_loc s t = L_Frame w" by (blast intro: at_on_loc inv(2))
  then have c: "at_owner s c = Some t" using inv(4) registers(2) unfolding inv_owner_def by blast
  from handle_loc [OF inv(3,4) c] show ?case
    by (intro inv_frames_frame [OF inv(2)]) (auto simp: at_register_def at_free_def split: option.splits)
next
  case (drops w t p s c)
  note inv = at_invD [OF drops(6)]
  from handle_loc [OF inv(3,4) drops(4)] show ?case
    by (intro inv_frames_frame [OF inv(2)]) (auto simp: at_drop_def at_free_def)
next
  case (yields w t p s)
  show ?case by (intro inv_frames_frame [OF at_invD(2) [OF yields(4)]]) (simp_all add: at_defs)
next
  case (pends w t p s)
  from pends(1) obtain fs where fs: "at_frames s w = (t, p) # fs" by (rule at_onD)
  show ?case
    by (intro inv_frames_remove [OF at_invD(2) [OF pends(4)] fs])
      (auto simp: at_pending_def at_return_def at_leave_def at_push_def at_defer_def Let_def fs split: if_splits)
next
  case (readies w t p s)
  show ?case by (intro inv_frames_frame [OF at_invD(2) [OF readies(5)]]) (simp_all add: at_defs)
next
  case (settles w t p s)
  note inv = at_invD [OF settles(4)]
  from settles have l: "at_loc s t = L_Frame w" by (blast intro: at_on_loc inv(2))
  from settles(1) obtain fs where fs: "at_frames s w = (t, p) # fs" by (rule at_onD)
  from l inv(3) show ?case
    by (cases rule: on_settle_cases [where p = p])
      (auto simp: at_leave_def at_return_def fs split: if_splits intro!: inv_frames_remove [OF inv(2) fs])
next
  case (claims s w c j p)
  note inv = at_invD [OF claims(3)]
  show ?case
  proof (cases "at_loc s j = L_Parked")
    case True
    with parked_iff [OF inv(5), of j] show ?thesis
      by (intro inv_frames_insert [OF inv(2), where w = w and t = j and p = p]) (auto simp: at_claim_joiner_def claimed_iff Let_def)
  next
    case False
    with parked_iff [OF inv(5), of j] show ?thesis
      by (intro inv_frames_frame [OF inv(2)]) (auto simp: at_claim_joiner_def at_return_def claimed_iff Let_def)
  qed
next
  case (branches w t p s c)
  note inv = at_invD [OF branches(7)]
  have "at_loc s c = L_Queue (Some w)" if "at_queue s (Some w) = c # xs" for xs
    using inv_queueD [OF inv(1), of "Some w" c] that by simp
  then show ?case
    by (intro inv_frames_frame [OF inv(2)]) (auto simp: at_branch_def split: list.splits)
next
  case (branch_ends w t p s c)
  then show ?case by (intro inv_frames_frame [OF at_invD(2) [OF branch_ends(6)]]) (auto simp: at_free_def)
next
  case (wakes s q u)
  note inv = at_invD [OF wakes(3)]
  show ?case using parked_iff [OF inv(5), of u]
    by (intro inv_frames_frame [OF inv(2)]) (auto simp: at_wake_def at_push_def claimed_iff Let_def)
next
  case (sends w t p s c u)
  show ?case by (intro inv_frames_frame [OF at_invD(2) [OF sends(8)]]) (simp_all add: at_defs)
next
  case (cancels w t p s c)
  show ?case by (intro inv_frames_frame [OF at_invD(2) [OF cancels(8)]]) (simp_all add: at_defs)
qed

subsection \<open>Join words, handles, waker words, markers\<close>

lemma inv_js_frame:
  assumes "inv_js s" "at_js s' = at_js s"
    and "\<And>t. at_loc s' t \<noteq> L_Free \<Longrightarrow> at_loc s t \<noteq> L_Free \<and> (at_loc s' t = L_Done \<longleftrightarrow> at_loc s t = L_Done)"
  shows "inv_js s'"
  using assms unfolding inv_js_def by metis

lemma inv_js_upd:
  assumes "inv_js s" "at_js s' = (at_js s)(t := v)" "at_loc s' = (at_loc s)(t := l)"
    and "l \<noteq> L_Free \<Longrightarrow> ptr_ok t" "l \<noteq> L_Free \<Longrightarrow> v = JS_FINISHED \<longleftrightarrow> l = L_Done"
    and "l \<noteq> L_Free \<Longrightarrow> l \<noteq> L_Done \<Longrightarrow> v = JS_RUNNING \<or> v = JS_DETACHED \<or> (\<exists>j. ptr_ok j \<and> v = j OR JS_ASYNC_JOINER_TAG)"
  shows "inv_js s'"
  using assms unfolding inv_js_def by auto

text \<open>The marker of a worker names the task whose future is running on it.\<close>

lemma on_marker:
  assumes "at_on w t p s" "inv_marks s" "at_pc s t \<noteq> P_Begin"
  shows "at_polling s w = Some t"
proof -
  from assms(1) obtain fs where "at_claim s w = None" "at_frames s w = (t, p) # fs" by (rule at_onD)
  with assms(2,3) show ?thesis by (auto simp: inv_marks_def marks_at_def dest!: spec [of _ w])
qed

lemma inv_jsD: "inv_js s \<Longrightarrow> at_loc s t \<noteq> L_Free \<Longrightarrow> ptr_ok t"
  unfolding inv_js_def by blast

lemma popped_loc: "inv_queue s \<Longrightarrow> at_queue s q = t # ts \<Longrightarrow> at_loc s t = L_Queue q"
  using inv_queueD [of s q t] by simp

lemma stolen_loc: "inv_queue s \<Longrightarrow> at_queue s q \<noteq> [] \<Longrightarrow> at_loc s (last (at_queue s q)) = L_Queue q"
  using inv_queueD [of s q "last (at_queue s q)"] by simp

lemma inv_js_step: "at_step fj s s' \<Longrightarrow> at_inv s \<Longrightarrow> inv_js s'"
proof (induction rule: at_step.induct)
  case (pop s w)
  note inv = at_invD [OF pop(4)]
  show ?case using popped_loc [OF inv(1), of "Some w"]
    by (intro inv_js_frame [OF inv(3)]) (auto simp: at_pop_def at_enter_def split: list.splits if_splits)
next
  case (steal s w q)
  note inv = at_invD [OF steal(5)]
  show ?case using stolen_loc [OF inv(1), of q]
    by (intro inv_js_frame [OF inv(3)]) (auto simp: at_steal_def at_enter_def split: if_splits)
next
  case (begins w t p s)
  show ?case by (intro inv_js_frame [OF at_invD(3) [OF begins(4)]]) (simp_all add: at_begin_def)
next
  case (spawns w t p s c built)
  show ?case using spawns(5)
    by (intro inv_js_upd [OF at_invD(3) [OF spawns(6)], where t = c and v = JS_RUNNING and l = "L_Queue (Some w)"])
      (simp_all add: at_spawn_def at_push_def)
next
  case (reclaims w t p s c)
  note inv = at_invD [OF reclaims(6)]
  show ?case using popped_loc [OF inv(1), of "Some w"]
    by (intro inv_js_frame [OF inv(3)]) (auto simp: at_reclaim_def at_enter_def Let_def split: list.splits if_splits)
next
  case (registers w t p s c)
  note inv = at_invD [OF registers(4)]
  from registers have l: "at_loc s t = L_Frame w" by (blast intro: at_on_loc inv(2))
  then have c: "at_owner s c = Some t" using inv(4) registers(2) unfolding inv_owner_def by blast
  have m: "at_polling s w = Some t" using on_marker [OF registers(1) inv(6)] registers(2) by simp
  have t: "ptr_ok t" using inv_jsD [OF inv(3)] l by simp
  have cl: "at_loc s c \<noteq> L_Free" "ptr_ok c" "at_js s c = JS_FINISHED \<longleftrightarrow> at_loc s c = L_Done"
    using handle_loc [OF inv(3,4) c] inv_jsD [OF inv(3)] by simp_all
  show ?case
  proof (cases "at_js s c = JS_FINISHED")
    case True
    then show ?thesis
      by (intro inv_js_frame [OF inv(3)]) (auto simp: at_register_def at_free_def split: if_splits)
  next
    case False
    then show ?thesis using m t cl
      by (intro inv_js_upd [OF inv(3), where t = c and v = "t OR JS_ASYNC_JOINER_TAG" and l = "at_loc s c"])
        (auto simp: at_register_def)
  qed
next
  case (drops w t p s c)
  note inv = at_invD [OF drops(6)]
  have cl: "at_loc s c \<noteq> L_Free" "ptr_ok c" "at_js s c = JS_FINISHED \<longleftrightarrow> at_loc s c = L_Done"
    using handle_loc [OF inv(3,4) drops(4)] inv_jsD [OF inv(3)] by simp_all
  show ?case
  proof (cases "at_js s c = JS_FINISHED")
    case True
    then show ?thesis
      by (intro inv_js_frame [OF inv(3)]) (auto simp: at_drop_def at_free_def split: if_splits)
  next
    case False
    then show ?thesis using cl
      by (intro inv_js_upd [OF inv(3), where t = c and v = JS_DETACHED and l = "at_loc s c"]) (auto simp: at_drop_def)
  qed
next
  case (yields w t p s)
  show ?case by (intro inv_js_frame [OF at_invD(3) [OF yields(4)]]) (simp_all add: at_yield_now_def)
next
  case (pends w t p s)
  note inv = at_invD [OF pends(4)]
  from pends have l: "at_loc s t = L_Frame w" by (blast intro: at_on_loc inv(2))
  then show ?case
    by (intro inv_js_frame [OF inv(3)])
      (auto simp: at_pending_def at_return_def at_leave_def at_push_def at_defer_def Let_def split: if_splits)
next
  case (readies w t p s)
  show ?case by (intro inv_js_frame [OF at_invD(3) [OF readies(5)]]) (simp_all add: at_ready_def)
next
  case (settles w t p s)
  note inv = at_invD [OF settles(4)]
  from settles have l: "at_loc s t = L_Frame w" by (blast intro: at_on_loc inv(2))
  have t: "ptr_ok t" using inv_jsD [OF inv(3)] l by simp
  from l inv(3) show ?case
    by (cases rule: on_settle_cases [where p = p])
      (use t in \<open>auto simp: at_leave_def at_return_def intro!: inv_js_upd [OF inv(3)]\<close>)
next
  case (claims s w c j p)
  note inv = at_invD [OF claims(3)]
  from parked_iff [OF inv(5), of j] show ?case
    by (intro inv_js_frame [OF inv(3)]) (auto simp: at_claim_joiner_def at_return_def claimed_iff Let_def split: if_splits)
next
  case (branches w t p s c)
  note inv = at_invD [OF branches(7)]
  show ?case using popped_loc [OF inv(1), of "Some w"]
    by (intro inv_js_frame [OF inv(3)]) (auto simp: at_branch_def split: list.splits if_splits)
next
  case (branch_ends w t p s c)
  show ?case by (intro inv_js_frame [OF at_invD(3) [OF branch_ends(6)]]) (auto simp: at_free_def split: if_splits)
next
  case (wakes s q u)
  note inv = at_invD [OF wakes(3)]
  show ?case using parked_iff [OF inv(5), of u]
    by (intro inv_js_frame [OF inv(3)]) (auto simp: at_wake_def at_push_def claimed_iff Let_def split: if_splits)
next
  case (sends w t p s c u)
  show ?case by (intro inv_js_frame [OF at_invD(3) [OF sends(8)]]) (simp_all add: at_send_def)
next
  case (cancels w t p s c)
  show ?case by (intro inv_js_frame [OF at_invD(3) [OF cancels(8)]]) (simp_all add: at_cancel_def)
qed

lemma inv_words_frame:
  assumes "inv_words s" "\<And>t. t \<noteq> u \<Longrightarrow> at_word s' t = at_word s t"
    and "\<And>t. t \<noteq> u \<Longrightarrow> at_loc s' t \<noteq> L_Free \<Longrightarrow> at_loc s t \<noteq> L_Free \<and> (at_loc s' t = L_Parked \<longleftrightarrow> at_loc s t = L_Parked)"
    and "\<And>t w. t \<noteq> u \<Longrightarrow> at_loc s' t = L_Frame w \<Longrightarrow> at_pc s' t \<noteq> P_Begin \<Longrightarrow> at_pc s' t \<noteq> P_Finish \<Longrightarrow>
      at_loc s t = L_Frame w \<and> at_pc s t \<noteq> P_Begin \<and> at_pc s t \<noteq> P_Finish"
    and "at_loc s' u \<noteq> L_Free \<Longrightarrow> wstate (at_word s' u) = PARKED \<longleftrightarrow> at_loc s' u = L_Parked"
    and "\<And>w. at_loc s' u = L_Frame w \<Longrightarrow> at_pc s' u \<noteq> P_Begin \<Longrightarrow> at_pc s' u \<noteq> P_Finish \<Longrightarrow> wstate (at_word s' u) \<noteq> IDLE"
  shows "inv_words s'"
  using assms unfolding inv_words_def by metis

lemma on_word:
  assumes "inv_words s" "at_loc s t = L_Frame w"
  shows "wstate (at_word s t) \<noteq> PARKED"
    and "at_pc s t \<noteq> P_Begin \<Longrightarrow> at_pc s t \<noteq> P_Finish \<Longrightarrow> wstate (at_word s t) \<noteq> IDLE"
  using assms unfolding inv_words_def by (metis task_loc.distinct)+

lemma inv_words_step: "at_step fj s s' \<Longrightarrow> at_inv s \<Longrightarrow> inv_words s'"
proof (induction rule: at_step.induct)
  case (pop s w)
  note inv = at_invD [OF pop(4)]
  show ?case
  proof (cases "at_queue s (Some w)")
    case (Cons t ts)
    then have "at_loc s t = L_Queue (Some w)" by (rule popped_loc [OF inv(1)])
    with Cons parked_iff [OF inv(5), of t] show ?thesis
      by (intro inv_words_frame [OF inv(5), where u = t]) (auto simp: at_pop_def at_enter_def)
  qed (use inv in \<open>simp add: at_pop_def\<close>)
next
  case (steal s w q)
  note inv = at_invD [OF steal(5)]
  show ?case
  proof (cases "at_queue s q = []")
    case False
    define t where "t = last (at_queue s q)"
    from False have "at_loc s t = L_Queue q" unfolding t_def by (rule stolen_loc [OF inv(1)])
    with False parked_iff [OF inv(5), of t] show ?thesis
      by (intro inv_words_frame [OF inv(5), where u = t]) (auto simp: at_steal_def at_enter_def t_def [symmetric])
  qed (use inv in \<open>simp add: at_steal_def\<close>)
next
  case (begins w t p s)
  note inv = at_invD [OF begins(4)]
  from begins have l: "at_loc s t = L_Frame w" by (blast intro: at_on_loc inv(2))
  then show ?case
    by (intro inv_words_frame [OF inv(5), where u = t]) (auto simp: at_begin_def mark_polling_def)
next
  case (spawns w t p s c built)
  show ?case
    by (intro inv_words_frame [OF at_invD(5) [OF spawns(6)], where u = c]) (auto simp: at_spawn_def at_push_def)
next
  case (reclaims w t p s c)
  note inv = at_invD [OF reclaims(6)]
  from reclaims have l: "at_loc s t = L_Frame w" by (blast intro: at_on_loc inv(2))
  have same: "inv_words (s\<lparr>at_pc := (at_pc s)(t := P_Join c)\<rparr>)"
    using on_word [OF inv(5) l] reclaims(2) parked_iff [OF inv(5), of t] l
    by (intro inv_words_frame [OF inv(5), where u = t]) auto
  show ?case
  proof (cases "\<exists>xs. at_queue s (Some w) = c # xs")
    case True
    then obtain xs where xs: "at_queue s (Some w) = c # xs" by blast
    then have "at_loc s c = L_Queue (Some w)" by (rule popped_loc [OF inv(1)])
    with xs same parked_iff [OF same, of c] show ?thesis
      by (intro inv_words_frame [OF same, where u = c]) (auto simp: at_reclaim_def at_enter_def Let_def split: if_splits)
  next
    case False
    with same show ?thesis by (auto simp: at_reclaim_def Let_def split: list.splits)
  qed
next
  case (registers w t p s c)
  note inv = at_invD [OF registers(4)]
  from registers have l: "at_loc s t = L_Frame w" by (blast intro: at_on_loc inv(2))
  then have c: "at_owner s c = Some t" using inv(4) registers(2) unfolding inv_owner_def by blast
  have ct: "at_js s c = JS_FINISHED \<Longrightarrow> c \<noteq> t" "at_loc s c \<noteq> L_Free" using handle_loc [OF inv(3,4) c] l by auto
  show ?case
    using on_word [OF inv(5) l] registers(2) parked_iff [OF inv(5), of t] l ct
      parked_iff [OF inv(5) ct(2)] handle_loc [OF inv(3,4) c]
    by (intro inv_words_frame [OF inv(5), where u = t])
      (auto simp: at_register_def at_free_def split: option.splits if_splits)
next
  case (drops w t p s c)
  note inv = at_invD [OF drops(6)]
  show ?case using handle_loc [OF inv(3,4) drops(4)] parked_iff [OF inv(5), of c] on_word(2) [OF inv(5), of c]
    by (intro inv_words_frame [OF inv(5), where u = c]) (auto simp: at_drop_def at_free_def split: if_splits)
next
  case (yields w t p s)
  note inv = at_invD [OF yields(4)]
  from yields have l: "at_loc s t = L_Frame w" by (blast intro: at_on_loc inv(2))
  with on_word [OF inv(5) l] yields(2) show ?case
    by (intro inv_words_frame [OF inv(5), where u = t]) (auto simp: at_yield_now_def)
next
  case (pends w t p s)
  note inv = at_invD [OF pends(4)]
  from pends have l: "at_loc s t = L_Frame w" by (blast intro: at_on_loc inv(2))
  show ?case
    by (intro inv_words_frame [OF inv(5), where u = t])
      (auto simp: park_word_wstate)
next
  case (readies w t p s)
  note inv = at_invD [OF readies(5)]
  from readies have l: "at_loc s t = L_Frame w" by (blast intro: at_on_loc inv(2))
  then show ?case
    by (intro inv_words_frame [OF inv(5), where u = t]) (auto simp: at_ready_def mark_idle_def)
next
  case (settles w t p s)
  note inv = at_invD [OF settles(4)]
  from settles have l: "at_loc s t = L_Frame w" by (blast intro: at_on_loc inv(2))
  note st = on_word(1) [OF inv(5) l]
  from l inv(3) show ?case
    by (cases rule: on_settle_cases [where p = p])
      (use st in \<open>auto simp: at_leave_def at_return_def intro!: inv_words_frame [OF inv(5), where u = t]\<close>)
next
  case (claims s w c j p)
  note inv = at_invD [OF claims(3)]
  show ?case
  proof (cases "at_loc s j = L_Free")
    case True
    then show ?thesis using inv(5) by (simp add: at_claim_joiner_def inv_words_def)
  next
    case False
    with parked_iff [OF inv(5), of j] on_word [OF inv(5), of j] show ?thesis
      by (intro inv_words_frame [OF inv(5), where u = j])
        (auto simp: at_claim_joiner_def at_return_def claimed_iff Let_def)
  qed
next
  case (branches w t p s c)
  note inv = at_invD [OF branches(7)]
  show ?case using popped_loc [OF inv(1), of "Some w"] parked_iff [OF inv(5), of c] on_word [OF inv(5), of c]
    by (intro inv_words_frame [OF inv(5), where u = c]) (auto simp: at_branch_def split: list.splits if_splits)
next
  case (branch_ends w t p s c)
  note inv = at_invD [OF branch_ends(6)]
  show ?case by (intro inv_words_frame [OF inv(5), where u = c]) (auto simp: at_free_def)
next
  case (wakes s q u)
  note inv = at_invD [OF wakes(3)]
  show ?case
  proof (cases "at_loc s u = L_Free")
    case True
    then show ?thesis using inv(5) by (simp add: at_wake_def inv_words_def)
  next
    case False
    with parked_iff [OF inv(5), of u] on_word [OF inv(5), of u] show ?thesis
      by (intro inv_words_frame [OF inv(5), where u = u]) (auto simp: at_wake_def at_push_def claimed_iff Let_def)
  qed
next
  case (sends w t p s c u)
  then show ?case using at_invD(5) [OF sends(8)] by (simp add: at_send_def inv_words_def)
next
  case (cancels w t p s c)
  then show ?case using at_invD(5) [OF cancels(8)] by (simp add: at_cancel_def inv_words_def)
qed

text \<open>A step changes the markers and the stack of one worker.\<close>

lemma inv_marks_frame:
  assumes "inv_marks s" "marks_at s' w"
    and "\<And>w'. w' \<noteq> w \<Longrightarrow> at_claim s' w' = at_claim s w' \<and> at_frames s' w' = at_frames s w' \<and> at_polling s' w' = at_polling s w'"
    and "\<And>w' f fs. w' \<noteq> w \<Longrightarrow> at_frames s w' = f # fs \<Longrightarrow> at_pc s' (fst f) \<noteq> P_Begin \<Longrightarrow> at_pc s (fst f) \<noteq> P_Begin"
  shows "inv_marks s'"
proof -
  have "marks_at s' v" if v: "v \<noteq> w" for v
  proof -
    have i: "marks_at s v" using assms(1) by (simp add: inv_marks_def)
    show ?thesis
    proof (cases "at_claim s v")
      case None
      show ?thesis
        using i assms(3) [OF v] assms(4) [OF v] None by (cases "at_frames s v") (auto simp: marks_at_def)
    next
      case (Some a)
      then show ?thesis using i assms(3) [OF v] by (simp add: marks_at_def)
    qed
  qed
  then show ?thesis using assms(2) unfolding inv_marks_def by metis
qed

lemma inv_marks_same:
  "inv_marks s \<Longrightarrow> at_claim s' = at_claim s \<Longrightarrow> at_frames s' = at_frames s \<Longrightarrow> at_polling s' = at_polling s \<Longrightarrow>
   at_pc s' = at_pc s \<Longrightarrow> inv_marks s'"
  by (simp only: inv_marks_def marks_at_def simp_thms)

lemma inv_marksD:
  assumes "inv_marks s"
  shows "at_claim s w = None \<Longrightarrow> at_frames s w = [] \<Longrightarrow> at_polling s w = None"
    and "at_claim s w = None \<Longrightarrow> marks_ok (at_frames s w)"
    and "at_claim s w = Some (c, j, p) \<Longrightarrow> marks_ok ((c, p) # at_frames s w)"
  using spec [OF assms [unfolded inv_marks_def], of w] by (simp_all add: marks_at_def)

lemma marks_top: "marks_ok ((t, p) # fs) \<Longrightarrow> (case fs of [] \<Rightarrow> p = None | f # gs \<Rightarrow> p = Some (fst f)) \<and> marks_ok fs"
  by (cases fs) auto

lemma on_other:
  assumes "inv_frames s" "at_loc s t = L_Frame w" "w' \<noteq> w" "at_frames s w' = f # fs"
  shows "fst f \<noteq> t"
  using inv_framesD [OF assms(1), of w' t] assms(2-4) by auto

lemma off_other:
  assumes "inv_frames s" "\<And>w. at_loc s t \<noteq> L_Frame w" "at_frames s w' = f # fs"
  shows "fst f \<noteq> t"
  using inv_framesD [OF assms(1), of w' t] assms(2) [of w'] assms(3) by auto

lemma inv_marks_step: "at_step fj s s' \<Longrightarrow> at_inv s \<Longrightarrow> inv_marks s'"
proof (induction rule: at_step.induct)
  case (pop s w)
  note inv = at_invD [OF pop(4)]
  have e: "at_polling s w = None" using inv_marksD(1) [OF inv(6)] pop(1,2) by simp
  then show ?case using pop(1,2)
    by (intro inv_marks_frame [OF inv(6), where w = w])
      (auto simp: marks_at_def at_pop_def at_enter_def split: list.splits if_splits)
next
  case (steal s w q)
  note inv = at_invD [OF steal(5)]
  have e: "at_polling s w = None" using inv_marksD(1) [OF inv(6)] steal(1,2) by simp
  then show ?case using steal(1,2)
    by (intro inv_marks_frame [OF inv(6), where w = w])
      (auto simp: marks_at_def at_steal_def at_enter_def split: list.splits if_splits)
next
  case (begins w t p s)
  note inv = at_invD [OF begins(4)]
  from begins have l: "at_loc s t = L_Frame w" by (blast intro: at_on_loc inv(2))
  from begins(1) obtain fs where fs: "at_claim s w = None" "at_frames s w = (t, p) # fs" by (rule at_onD)
  then show ?case using inv_marksD(2) [OF inv(6), of w] on_other [OF inv(2) l]
    by (intro inv_marks_frame [OF inv(6), where w = w]) (auto simp: marks_at_def at_begin_def split: if_splits)
next
  case (spawns w t p s c built)
  show ?case by (rule inv_marks_same [OF at_invD(6) [OF spawns(6)]]) (simp_all add: at_spawn_def at_push_def)
next
  case (reclaims w t p s c)
  note inv = at_invD [OF reclaims(6)]
  from reclaims have l: "at_loc s t = L_Frame w" by (blast intro: at_on_loc inv(2))
  from reclaims(1) obtain fs where fs: "at_claim s w = None" "at_frames s w = (t, p) # fs" by (rule at_onD)
  have m: "at_polling s w = Some t" using on_marker [OF reclaims(1) inv(6)] reclaims(2) by simp
  have mk: "marks_ok ((t, p) # fs)" using inv_marksD(2) [OF inv(6), of w] fs by simp
  show ?case using fs m mk on_other [OF inv(2) l] off_other [OF inv(2), of c] popped_loc [OF inv(1), of "Some w" c]
    by (intro inv_marks_frame [OF inv(6), where w = w])
      (auto simp: marks_at_def at_reclaim_def at_enter_def Let_def split: list.splits if_splits)
next
  case (registers w t p s c)
  note inv = at_invD [OF registers(4)]
  from registers have l: "at_loc s t = L_Frame w" by (blast intro: at_on_loc inv(2))
  from registers(1) obtain fs where fs: "at_claim s w = None" "at_frames s w = (t, p) # fs" by (rule at_onD)
  have m: "at_polling s w = Some t" using on_marker [OF registers(1) inv(6)] registers(2) by simp
  show ?case using fs m inv_marksD(2) [OF inv(6), of w] on_other [OF inv(2) l]
    by (intro inv_marks_frame [OF inv(6), where w = w])
      (auto simp: marks_at_def at_register_def at_free_def split: if_splits)
next
  case (drops w t p s c)
  show ?case by (rule inv_marks_same [OF at_invD(6) [OF drops(6)]]) (simp_all add: at_drop_def at_free_def)
next
  case (yields w t p s)
  note inv = at_invD [OF yields(4)]
  from yields have l: "at_loc s t = L_Frame w" by (blast intro: at_on_loc inv(2))
  from yields(1) obtain fs where fs: "at_claim s w = None" "at_frames s w = (t, p) # fs" by (rule at_onD)
  have m: "at_polling s w = Some t" using on_marker [OF yields(1) inv(6)] yields(2) by simp
  show ?case using fs m inv_marksD(2) [OF inv(6), of w] on_other [OF inv(2) l]
    by (intro inv_marks_frame [OF inv(6), where w = w]) (auto simp: marks_at_def at_yield_now_def split: if_splits)
next
  case (pends w t p s)
  note inv = at_invD [OF pends(4)]
  from pends(1) obtain fs where fs: "at_claim s w = None" "at_frames s w = (t, p) # fs" by (rule at_onD)
  then have "marks_ok ((t, p) # fs)" using inv_marksD(2) [OF inv(6), of w] by simp
  from marks_top [OF this] fs show ?case
    by (intro inv_marks_frame [OF inv(6), where w = w]) (auto simp: marks_at_def split: list.splits)
next
  case (readies w t p s)
  note inv = at_invD [OF readies(5)]
  from readies have l: "at_loc s t = L_Frame w" by (blast intro: at_on_loc inv(2))
  from readies(1) obtain fs where fs: "at_claim s w = None" "at_frames s w = (t, p) # fs" by (rule at_onD)
  have m: "at_polling s w = Some t" using on_marker [OF readies(1) inv(6)] readies(2) by simp
  show ?case using fs m inv_marksD(2) [OF inv(6), of w] on_other [OF inv(2) l]
    by (intro inv_marks_frame [OF inv(6), where w = w]) (auto simp: marks_at_def at_ready_def split: if_splits)
next
  case (settles w t p s)
  note inv = at_invD [OF settles(4)]
  from settles have l: "at_loc s t = L_Frame w" by (blast intro: at_on_loc inv(2))
  from settles(1) obtain fs where fs: "at_claim s w = None" "at_frames s w = (t, p) # fs" by (rule at_onD)
  then have mk: "marks_ok ((t, p) # fs)" using inv_marksD(2) [OF inv(6), of w] by simp
  from l inv(3) show ?case
    by (cases rule: on_settle_cases [where p = p])
      (use fs mk marks_top [OF mk] in \<open>auto simp: marks_at_def at_leave_def at_return_def split: list.splits
        intro!: inv_marks_frame [OF inv(6), where w = w]\<close>)
next
  case (claims s w c j p)
  note inv = at_invD [OF claims(3)]
  have mk: "marks_ok ((c, p) # at_frames s w)" using inv_marksD(3) [OF inv(6) claims(1)] .
  show ?case
  proof (cases "at_loc s j = L_Free")
    case True
    then show ?thesis by (intro inv_marks_same [OF inv(6)]) (simp_all add: at_claim_joiner_def)
  next
    case False
    with parked_iff [OF inv(5), of j] off_other [OF inv(2), of j] mk marks_top [OF mk] show ?thesis
      by (intro inv_marks_frame [OF inv(6), where w = w])
        (auto simp: marks_at_def at_claim_joiner_def at_return_def claimed_iff Let_def split: list.splits if_splits)
  qed
next
  case (branches w t p s c)
  show ?case by (rule inv_marks_same [OF at_invD(6) [OF branches(7)]]) (simp_all add: at_branch_def split: list.splits)
next
  case (branch_ends w t p s c)
  show ?case by (rule inv_marks_same [OF at_invD(6) [OF branch_ends(6)]]) (simp_all add: at_free_def)
next
  case (wakes s q u)
  show ?case by (rule inv_marks_same [OF at_invD(6) [OF wakes(3)]]) (simp_all add: at_wake_def at_push_def Let_def)
next
  case (sends w t p s c u)
  show ?case by (rule inv_marks_same [OF at_invD(6) [OF sends(8)]]) (simp_all add: at_send_def)
next
  case (cancels w t p s c)
  show ?case by (rule inv_marks_same [OF at_invD(6) [OF cancels(8)]]) (simp_all add: at_cancel_def)
qed

lemma inv_ownerI:
  assumes "\<And>c t. at_owner s c = Some t \<Longrightarrow> at_loc s c \<noteq> L_Free \<and> at_js s c \<noteq> JS_DETACHED \<and> at_unfinished s t"
    and "\<And>w t c. at_loc s t = L_Frame w \<Longrightarrow> at_pc s t = P_Join c \<Longrightarrow> at_owner s c = Some t \<and> \<not> at_built s c"
  shows "inv_owner s"
  using assms unfolding inv_owner_def by blast

lemma inv_ownerD:
  assumes "inv_owner s"
  shows "at_owner s c = Some t \<Longrightarrow> at_loc s c \<noteq> L_Free \<and> at_js s c \<noteq> JS_DETACHED \<and> at_unfinished s t"
    and "at_loc s t = L_Frame w \<Longrightarrow> at_pc s t = P_Join c \<Longrightarrow> at_owner s c = Some t \<and> \<not> at_built s c"
  using assms unfolding inv_owner_def by blast+

text \<open>A task that moves on stays alive, and the others do not change.\<close>

lemma inv_owner_frame:
  assumes inv: "inv_owner s" "at_owner s' = at_owner s" "at_js s' = at_js s" "at_built s' = at_built s"
    and loc: "\<And>t. t \<noteq> u \<Longrightarrow> at_loc s' t = at_loc s t" "\<And>t. t \<noteq> u \<Longrightarrow> at_pc s' t = at_pc s t"
    and u: "at_loc s u \<noteq> L_Free \<Longrightarrow> at_loc s' u \<noteq> L_Free" "at_unfinished s u \<Longrightarrow> (\<exists>c. at_owner s c = Some u) \<Longrightarrow> at_unfinished s' u"
    and pc: "\<And>w c. at_loc s' u = L_Frame w \<Longrightarrow> at_pc s' u = P_Join c \<Longrightarrow> at_owner s c = Some u \<and> \<not> at_built s c"
  shows "inv_owner s'"
proof (rule inv_ownerI)
  fix c t
  assume "at_owner s' c = Some t"
  then have o: "at_owner s c = Some t" by (simp add: inv(2))
  have "at_unfinished s' t"
  proof (cases "t = u")
    case True
    with o u(2) inv_ownerD(1) [OF inv(1) o] show ?thesis by blast
  next
    case False
    with inv_ownerD(1) [OF inv(1) o] loc show ?thesis by (simp add: at_unfinished_def)
  qed
  moreover have "at_loc s' c \<noteq> L_Free"
    using inv_ownerD(1) [OF inv(1) o] loc(1) [of c] u(1) by metis
  ultimately show "at_loc s' c \<noteq> L_Free \<and> at_js s' c \<noteq> JS_DETACHED \<and> at_unfinished s' t"
    using inv_ownerD(1) [OF inv(1) o] by (simp add: inv(3))
next
  fix w t c
  assume "at_loc s' t = L_Frame w" "at_pc s' t = P_Join c"
  then show "at_owner s' c = Some t \<and> \<not> at_built s' c"
    using pc inv_ownerD(2) [OF inv(1)] loc inv(2,4) by metis
qed

text \<open>The handle of \<open>v\<close> goes, its descriptor perhaps with it.\<close>

lemma inv_owner_remove:
  assumes inv: "inv_owner s" "at_owner s' = (at_owner s)(v := None)" "\<And>c. c \<noteq> v \<Longrightarrow> at_js s' c = at_js s c"
    and b: "at_built s' = at_built s"
    and loc: "\<And>t. t \<noteq> v \<Longrightarrow> at_loc s' t = at_loc s t"
    and v: "at_loc s' v = at_loc s v \<or> \<not> at_unfinished s v"
    and pc: "\<And>t. at_pc s' t = at_pc s t \<or> at_pc s' t = P_Run"
    and j: "\<And>w t. at_loc s' t = L_Frame w \<Longrightarrow> at_pc s' t \<noteq> P_Join v"
    and l: "\<And>w. at_loc s' v \<noteq> L_Frame w \<or> at_loc s' v = at_loc s v"
  shows "inv_owner s'"
proof (rule inv_ownerI)
  fix c t
  assume "at_owner s' c = Some t"
  then have o: "at_owner s c = Some t" "c \<noteq> v" by (auto simp: inv(2) split: if_splits)
  have "at_unfinished s' t"
  proof (cases "t = v \<and> at_loc s' v \<noteq> at_loc s v")
    case True
    with inv_ownerD(1) [OF inv(1) o(1)] v show ?thesis by blast
  next
    case False
    then have "at_loc s' t = at_loc s t" using loc by metis
    with inv_ownerD(1) [OF inv(1) o(1)] pc [of t] show ?thesis by (auto simp: at_unfinished_def)
  qed
  then show "at_loc s' c \<noteq> L_Free \<and> at_js s' c \<noteq> JS_DETACHED \<and> at_unfinished s' t"
    using inv_ownerD(1) [OF inv(1) o(1)] inv(3) [OF o(2)] loc [OF o(2)] by simp
next
  fix w t c
  assume a: "at_loc s' t = L_Frame w" "at_pc s' t = P_Join c"
  then have "at_pc s t = P_Join c" "c \<noteq> v" using pc [of t] j [of t w] by auto
  moreover have "at_loc s t = L_Frame w" using a(1) loc [of t] l [of w] by (cases "t = v") auto
  ultimately show "at_owner s' c = Some t \<and> \<not> at_built s' c"
    using inv_ownerD(2) [OF inv(1)] by (simp add: inv(2) b)
qed

lemma unfinished_loc:
  "at_loc s t = L_Queue q \<Longrightarrow> at_unfinished s t" "at_loc s t = L_Parked \<Longrightarrow> at_unfinished s t"
  "at_loc s t = L_Frame w \<Longrightarrow> at_unfinished s t \<longleftrightarrow> at_pc s t \<noteq> P_Finish"
  "at_loc s t = L_Done \<Longrightarrow> \<not> at_unfinished s t" "at_loc s t = L_Free \<Longrightarrow> \<not> at_unfinished s t"
  "at_loc s t = L_Inline \<Longrightarrow> \<not> at_unfinished s t"
  by (simp_all add: at_unfinished_def)

lemma inv_owner_step: "at_step fj s s' \<Longrightarrow> at_inv s \<Longrightarrow> inv_owner s'"
proof (induction rule: at_step.induct)
  case (pop s w)
  note inv = at_invD [OF pop(4)]
  show ?case
  proof (cases "at_queue s (Some w)")
    case (Cons t ts)
    then have "at_loc s t = L_Queue (Some w)" by (rule popped_loc [OF inv(1)])
    with Cons show ?thesis
      by (intro inv_owner_frame [OF inv(4), where u = t]) (auto simp: at_pop_def at_enter_def at_unfinished_def)
  qed (use inv in \<open>simp add: at_pop_def\<close>)
next
  case (steal s w q)
  note inv = at_invD [OF steal(5)]
  show ?case
  proof (cases "at_queue s q = []")
    case False
    define t where "t = last (at_queue s q)"
    from False have "at_loc s t = L_Queue q" unfolding t_def by (rule stolen_loc [OF inv(1)])
    with False show ?thesis
      by (intro inv_owner_frame [OF inv(4), where u = t]) (auto simp: at_steal_def at_enter_def at_unfinished_def t_def [symmetric])
  qed (use inv in \<open>simp add: at_steal_def\<close>)
next
  case (begins w t p s)
  note inv = at_invD [OF begins(4)]
  from begins have l: "at_loc s t = L_Frame w" by (blast intro: at_on_loc inv(2))
  then show ?case
    by (intro inv_owner_frame [OF inv(4), where u = t]) (auto simp: at_begin_def at_unfinished_def)
next
  case (spawns w t p s c built)
  note inv = at_invD [OF spawns(6)]
  from spawns have l: "at_loc s t = L_Frame w" by (blast intro: at_on_loc inv(2))
  have no: "at_owner s c = None" "\<And>x. at_owner s x \<noteq> Some c"
    using inv_ownerD(1) [OF inv(4)] spawns(4) unfinished_loc(5) [of s c] by (metis not_None_eq)+
  show ?case
  proof (rule inv_ownerI)
    fix d u
    assume "at_owner (at_spawn w t c built s) d = Some u"
    then show "at_loc (at_spawn w t c built s) d \<noteq> L_Free \<and> at_js (at_spawn w t c built s) d \<noteq> JS_DETACHED \<and>
        at_unfinished (at_spawn w t c built s) u"
      using inv_ownerD(1) [OF inv(4), of d u] l spawns(2,4) no
      by (auto simp: at_spawn_def at_push_def at_unfinished_def split: if_splits)
  next
    fix v u d
    assume "at_loc (at_spawn w t c built s) u = L_Frame v" "at_pc (at_spawn w t c built s) u = P_Join d"
    then show "at_owner (at_spawn w t c built s) d = Some u \<and> \<not> at_built (at_spawn w t c built s) d"
      using inv_ownerD(2) [OF inv(4), of u v d] no by (auto simp: at_spawn_def at_push_def split: if_splits)
  qed
next
  case (reclaims w t p s c)
  note inv = at_invD [OF reclaims(6)]
  from reclaims have l: "at_loc s t = L_Frame w" by (blast intro: at_on_loc inv(2))
  have same: "inv_owner (s\<lparr>at_pc := (at_pc s)(t := P_Join c)\<rparr>)"
    using l reclaims(4,5) by (intro inv_owner_frame [OF inv(4), where u = t]) (auto simp: at_unfinished_def)
  show ?case
  proof (cases "\<exists>xs. at_queue s (Some w) = c # xs")
    case True
    then obtain xs where xs: "at_queue s (Some w) = c # xs" by blast
    then have "at_loc s c = L_Queue (Some w)" by (rule popped_loc [OF inv(1)])
    with xs show ?thesis
      by (intro inv_owner_frame [OF same, where u = c]) (auto simp: at_reclaim_def at_enter_def Let_def at_unfinished_def)
  next
    case False
    with same show ?thesis by (auto simp: at_reclaim_def Let_def split: list.splits)
  qed
next
  case (registers w t p s c)
  note inv = at_invD [OF registers(4)]
  from registers have l: "at_loc s t = L_Frame w" by (blast intro: at_on_loc inv(2))
  then have c: "at_owner s c = Some t" "\<not> at_built s c" using inv_ownerD(2) [OF inv(4)] registers(2) by blast+
  have m: "at_polling s w = Some t" using on_marker [OF registers(1) inv(6)] registers(2) by simp
  have pt: "ptr_ok t" using inv_jsD [OF inv(3)] l by simp
  have only: "u = t" if "at_loc s u = L_Frame v" "at_pc s u = P_Join c" for u v
    using inv_ownerD(2) [OF inv(4) that] c by simp
  show ?case
  proof (cases "at_js s c = JS_FINISHED")
    case True
    then have "at_loc s c = L_Done" using handle_loc [OF inv(3,4) c(1)] by blast
    then show ?thesis using True l only unfinished_loc(4) [of s c]
      by (intro inv_owner_remove [OF inv(4), where v = c]) (auto simp: at_register_def at_free_def split: if_splits)
  next
    case False
    show ?thesis
    proof (rule inv_ownerI)
      fix d u
      assume "at_owner (at_register w t c (if fj then P_Wait else P_Run) s) d = Some u"
      then show "at_loc (at_register w t c (if fj then P_Wait else P_Run) s) d \<noteq> L_Free \<and>
          at_js (at_register w t c (if fj then P_Wait else P_Run) s) d \<noteq> JS_DETACHED \<and>
          at_unfinished (at_register w t c (if fj then P_Wait else P_Run) s) u"
        using inv_ownerD(1) [OF inv(4), of d u] False m pt l by (auto simp: at_register_def at_unfinished_def)
    next
      fix v u d
      assume "at_loc (at_register w t c (if fj then P_Wait else P_Run) s) u = L_Frame v"
        "at_pc (at_register w t c (if fj then P_Wait else P_Run) s) u = P_Join d"
      then show "at_owner (at_register w t c (if fj then P_Wait else P_Run) s) d = Some u \<and>
          \<not> at_built (at_register w t c (if fj then P_Wait else P_Run) s) d"
        using inv_ownerD(2) [OF inv(4), of u v d] False m by (auto simp: at_register_def split: if_splits)
    qed
  qed
next
  case (drops w t p s c)
  note inv = at_invD [OF drops(6)]
  from drops have l: "at_loc s t = L_Frame w" by (blast intro: at_on_loc inv(2))
  have no: "at_pc s u \<noteq> P_Join c" if "at_loc s u = L_Frame v" for u v
    using inv_ownerD(2) [OF inv(4) that, of c] drops(2,4) by auto
  show ?case
  proof (cases "at_js s c = JS_FINISHED")
    case True
    then have "at_loc s c = L_Done" using handle_loc [OF inv(3,4) drops(4)] by blast
    then show ?thesis using True no unfinished_loc(4) [of s c]
      by (intro inv_owner_remove [OF inv(4), where v = c]) (auto simp: at_drop_def at_free_def split: if_splits)
  next
    case False
    with no show ?thesis
      by (intro inv_owner_remove [OF inv(4), where v = c]) (auto simp: at_drop_def split: if_splits)
  qed
next
  case (yields w t p s)
  note inv = at_invD [OF yields(4)]
  from yields have l: "at_loc s t = L_Frame w" by (blast intro: at_on_loc inv(2))
  then show ?case
    by (intro inv_owner_frame [OF inv(4), where u = t]) (auto simp: at_yield_now_def at_unfinished_def split: if_splits)
next
  case (pends w t p s)
  note inv = at_invD [OF pends(4)]
  from pends have l: "at_loc s t = L_Frame w" by (blast intro: at_on_loc inv(2))
  then show ?case
    by (intro inv_owner_frame [OF inv(4), where u = t]) (auto simp: at_unfinished_def split: if_splits)
next
  case (readies w t p s)
  note inv = at_invD [OF readies(5)]
  show ?case using readies(4) by (intro inv_owner_frame [OF inv(4), where u = t]) (auto simp: at_ready_def)
next
  case (settles w t p s)
  note inv = at_invD [OF settles(4)]
  from settles have l: "at_loc s t = L_Frame w" by (blast intro: at_on_loc inv(2))
  have no: "at_owner s x \<noteq> Some t" for x
    using inv_ownerD(1) [OF inv(4), of x t] settles(2) unfinished_loc(3) [OF l] by auto
  from l inv(3) show ?case
  proof (cases rule: on_settle_cases [where p = p])
    case nobody
    show ?thesis unfolding nobody(2) using no l
      by (intro inv_ownerI) (auto simp: at_leave_def at_return_def at_unfinished_def dest: inv_ownerD [OF inv(4)] split: if_splits)
  next
    case detached
    then have "at_owner s t = None" using inv_ownerD(1) [OF inv(4), of t] by (metis not_None_eq)
    then show ?thesis unfolding detached(2) using no l
      by (intro inv_ownerI) (auto simp: at_leave_def at_return_def at_unfinished_def dest: inv_ownerD [OF inv(4)] split: if_splits)
  next
    case (joiner j)
    show ?thesis unfolding joiner(3) using no l
      by (intro inv_ownerI) (auto simp: at_leave_def at_unfinished_def dest: inv_ownerD [OF inv(4)] split: if_splits)
  qed
next
  case (claims s w c j p)
  note inv = at_invD [OF claims(3)]
  show ?case
  proof (cases "at_loc s j = L_Free")
    case True
    then show ?thesis
      by (intro inv_owner_frame [OF inv(4), where u = j]) (auto simp: at_claim_joiner_def at_unfinished_def)
  next
    case False
    with parked_iff [OF inv(5), of j] inv_ownerD(2) [OF inv(4), of j] show ?thesis
      by (intro inv_owner_frame [OF inv(4), where u = j])
        (auto simp: at_claim_joiner_def at_return_def claimed_iff Let_def at_unfinished_def split: if_splits)
  qed
next
  case (branches w t p s c)
  note inv = at_invD [OF branches(7)]
  from branches have l: "at_loc s t = L_Frame w" by (blast intro: at_on_loc inv(2))
  show ?case
  proof (cases "\<exists>xs. at_queue s (Some w) = c # xs")
    case True
    then obtain xs where xs: "at_queue s (Some w) = c # xs" by blast
    then have lc: "at_loc s c = L_Queue (Some w)" by (rule popped_loc [OF inv(1)])
    have "at_owner s d = Some u \<Longrightarrow> at_loc s d \<noteq> L_Free \<and> at_js s d \<noteq> JS_DETACHED \<and> at_unfinished s u" for d u
      by (rule inv_ownerD(1) [OF inv(4)])
    then show ?thesis using xs l lc branches(2) inv_ownerD(2) [OF inv(4)]
      by (intro inv_ownerI) (auto simp: at_branch_def at_unfinished_def split: if_splits)
  next
    case False
    then have eq: "at_branch w t c s = s\<lparr>at_built := (at_built s)(c := False)\<rparr>"
      by (auto simp: at_branch_def split: list.splits)
    show ?thesis unfolding eq using inv_ownerD [OF inv(4)]
      by (intro inv_ownerI) (auto simp: at_unfinished_def)
  qed
next
  case (branch_ends w t p s c)
  note inv = at_invD [OF branch_ends(6)]
  have no: "at_pc s u \<noteq> P_Join c" if "at_loc s u = L_Frame v" for u v
    using inv_ownerD(2) [OF inv(4) that, of c] branch_ends(2,4) by auto
  with branch_ends(5) unfinished_loc(6) [of s c] show ?case
    by (intro inv_owner_remove [OF inv(4), where v = c]) (auto simp: at_free_def split: if_splits)
next
  case (wakes s q u)
  note inv = at_invD [OF wakes(3)]
  show ?case
  proof (cases "at_loc s u = L_Free")
    case True
    then show ?thesis
      by (intro inv_owner_frame [OF inv(4), where u = u]) (auto simp: at_wake_def at_unfinished_def)
  next
    case False
    with parked_iff [OF inv(5), of u] inv_ownerD(2) [OF inv(4), of u] show ?thesis
      by (intro inv_owner_frame [OF inv(4), where u = u])
        (auto simp: at_wake_def at_push_def claimed_iff Let_def at_unfinished_def split: if_splits)
  qed
next
  case (sends w t p s c u)
  note inv = at_invD [OF sends(8)]
  have no: "at_pc s x \<noteq> P_Join c" if "at_loc s x = L_Frame v" for x v
    using inv_ownerD(2) [OF inv(4) that, of c] sends(3,5) by auto
  show ?case using inv_ownerD [OF inv(4)] sends(5,7) no
    by (intro inv_ownerI) (auto simp: at_send_def at_unfinished_def split: if_splits)
next
  case (cancels w t p s c)
  note inv = at_invD [OF cancels(8)]
  have no: "at_pc s u \<noteq> P_Join c" if "at_loc s u = L_Frame v" for u v
    using inv_ownerD(2) [OF inv(4) that, of c] cancels(3,5) by auto
  then show ?case by (intro inv_owner_remove [OF inv(4), where v = c]) (auto simp: at_cancel_def split: if_splits)
qed

section \<open>Wakes\<close>

lemma at_inv_step: "at_step fj s s' \<Longrightarrow> at_inv s \<Longrightarrow> at_inv s'"
  using inv_queue_step inv_frames_step inv_js_step inv_owner_step inv_words_step inv_marks_step
  by (metis at_inv_def)

lemma at_inv_start: "ptr_ok r \<Longrightarrow> at_inv (at_start r)"
  by (auto simp: at_inv_def inv_queue_def inv_frames_def inv_js_def inv_owner_def inv_words_def inv_marks_def marks_at_def
      at_start_def)

text \<open>
  The exit of \<open>c\<close> will claim \<open>t\<close>, or is about to; \<open>t\<close> has been woken and not polled since; \<open>t\<close> has been
  told to wait and not been woken.
\<close>

definition linked :: "tasks \<Rightarrow> usize \<Rightarrow> usize \<Rightarrow> bool" where
  "linked s c t \<longleftrightarrow>
     ptr_ok t \<and> at_loc s c \<noteq> L_Free \<and> at_js s c = t OR JS_ASYNC_JOINER_TAG \<or> (\<exists>w p. at_claim s w = Some (c, t, p))"

definition noted :: "tasks \<Rightarrow> usize \<Rightarrow> bool" where
  "noted s t \<longleftrightarrow>
     (\<exists>q. at_loc s t = L_Queue q) \<or>
     (\<exists>w. at_loc s t = L_Frame w \<and> (at_pc s t = P_Begin \<or> wstate (at_word s t) = NOTIFIED))"

definition awaiting :: "tasks \<Rightarrow> usize \<Rightarrow> bool" where
  "awaiting s t \<longleftrightarrow>
     at_loc s t = L_Parked \<or> (\<exists>w. at_loc s t = L_Frame w \<and> at_pc s t = P_Wait \<and> wstate (at_word s t) = POLLING)"

definition inv_waits :: "tasks \<Rightarrow> bool" where
  "inv_waits s \<longleftrightarrow> (\<forall>c t. at_waits s c = Some t \<longrightarrow> at_owner s c = Some t \<and> (linked s c t \<or> noted s t))"

lemma inv_waitsI:
  assumes "\<And>c t. at_waits s c = Some t \<Longrightarrow> at_owner s c = Some t"
    and "\<And>c t. at_waits s c = Some t \<Longrightarrow> \<not> noted s t \<Longrightarrow> linked s c t"
  shows "inv_waits s"
  using assms unfolding inv_waits_def by blast

lemma inv_waitsD:
  assumes "inv_waits s" "at_waits s c = Some t"
  shows "at_owner s c = Some t" "\<not> noted s t \<Longrightarrow> linked s c t"
  using assms unfolding inv_waits_def by blast+

text \<open>Steps that touch no registration, and do not undo a wake.\<close>

lemma inv_waits_frame:
  assumes inv: "inv_waits s"
    and w: "\<And>c t. at_waits s' c = Some t \<Longrightarrow> at_waits s c = Some t"
    and o: "\<And>c t. at_waits s' c = Some t \<Longrightarrow> at_owner s' c = at_owner s c"
    and l: "\<And>c t. at_waits s' c = Some t \<Longrightarrow> linked s c t \<Longrightarrow> \<not> noted s' t \<Longrightarrow> linked s' c t"
    and n: "\<And>c t. at_waits s' c = Some t \<Longrightarrow> noted s t \<Longrightarrow> \<not> linked s' c t \<Longrightarrow> noted s' t"
  shows "inv_waits s'"
proof (rule inv_waitsI)
  fix c t assume a: "at_waits s' c = Some t"
  show "at_owner s' c = Some t" using inv_waitsD(1) [OF inv w [OF a]] o [OF a] by simp
  show "linked s' c t" if "\<not> noted s' t"
    using inv_waitsD(2) [OF inv w [OF a]] l [OF a] n [OF a] that by blast
qed

lemma waiter_facts:
  assumes "at_inv s" "inv_waits s" "at_waits s c = Some t"
  shows "at_unfinished s t" "at_loc s c \<noteq> L_Free" "ptr_ok t"
  using inv_ownerD(1) [OF at_invD(4) [OF assms(1)] inv_waitsD(1) [OF assms(2,3)]] at_invD(3) [OF assms(1)]
  by (auto simp: at_unfinished_def intro: inv_jsD)

lemma inv_waits_step: "at_step fj s s' \<Longrightarrow> at_inv s \<Longrightarrow> inv_waits s \<Longrightarrow> inv_waits s'"
proof (induction rule: at_step.induct)
  case (pop s w)
  note inv = at_invD [OF pop(4)]
  show ?case
  proof (cases "at_queue s (Some w)")
    case (Cons t ts)
    then have "at_loc s t = L_Queue (Some w)" by (rule popped_loc [OF inv(1)])
    with Cons show ?thesis
      by (intro inv_waits_frame [OF pop(5)]) (auto simp: at_pop_def at_enter_def linked_def noted_def)
  qed (use pop in \<open>simp add: at_pop_def\<close>)
next
  case (steal s w q)
  note inv = at_invD [OF steal(5)]
  show ?case
  proof (cases "at_queue s q = []")
    case False
    define t where "t = last (at_queue s q)"
    from False have "at_loc s t = L_Queue q" unfolding t_def by (rule stolen_loc [OF inv(1)])
    with False show ?thesis
      by (intro inv_waits_frame [OF steal(6)]) (auto simp: at_steal_def at_enter_def linked_def noted_def t_def [symmetric])
  qed (use steal in \<open>simp add: at_steal_def\<close>)
next
  case (begins w t p s)
  show ?case
    by (intro inv_waits_frame [OF begins(5)])
      (auto simp: at_begin_def linked_def noted_def clear_waits_def split: if_splits)
next
  case (spawns w t p s c built)
  show ?case using spawns(4)
    by (intro inv_waits_frame [OF spawns(7)])
      (auto simp: at_spawn_def at_push_def linked_def noted_def split: if_splits)
next
  case (reclaims w t p s c)
  note inv = at_invD [OF reclaims(6)]
  have same: "inv_waits (s\<lparr>at_pc := (at_pc s)(t := P_Join c)\<rparr>)"
    using reclaims(2) by (intro inv_waits_frame [OF reclaims(7)]) (auto simp: linked_def noted_def)
  show ?case
  proof (cases "\<exists>xs. at_queue s (Some w) = c # xs")
    case True
    then obtain xs where xs: "at_queue s (Some w) = c # xs" by blast
    then have "at_loc s c = L_Queue (Some w)" by (rule popped_loc [OF inv(1)])
    with xs show ?thesis
      by (intro inv_waits_frame [OF same]) (auto simp: at_reclaim_def at_enter_def linked_def noted_def Let_def)
  next
    case False
    with same show ?thesis by (auto simp: at_reclaim_def Let_def split: list.splits)
  qed
next
  case (registers w t p s c)
  note inv = at_invD [OF registers(4)]
  from registers have l: "at_loc s t = L_Frame w" by (blast intro: at_on_loc inv(2))
  then have c: "at_owner s c = Some t" using inv_ownerD(2) [OF inv(4)] registers(2) by blast
  have m: "at_polling s w = Some t" using on_marker [OF registers(1) inv(6)] registers(2) by simp
  show ?case
  proof (cases "at_js s c = JS_FINISHED")
    case True
    then have "at_loc s c = L_Done" using handle_loc [OF inv(3,4) c] by blast
    with True registers(2) show ?thesis
      by (intro inv_waits_frame [OF registers(5)]) (auto simp: at_register_def at_free_def linked_def noted_def split: if_splits)
  next
    case False
    define s1 where "s1 = s\<lparr>at_waits := (at_waits s)(c := None)\<rparr>"
    have s1: "inv_waits s1"
      by (intro inv_waits_frame [OF registers(5)]) (auto simp: s1_def linked_def noted_def split: if_splits)
    have cl: "at_loc s c \<noteq> L_Free" "ptr_ok t" using handle_loc [OF inv(3,4) c] inv_jsD [OF inv(3)] l by simp_all
    have eq: "at_register w t c (if fj then P_Wait else P_Run) s =
        s\<lparr>at_js := (at_js s)(c := t OR JS_ASYNC_JOINER_TAG), at_waits := (at_waits s)(c := Some t),
          at_pc := (at_pc s)(t := if fj then P_Wait else P_Run)\<rparr>"
      using False m by (simp add: at_register_def)
    show ?thesis unfolding eq
    proof (rule inv_waitsI, goal_cases)
      case (1 d u)
      then show ?case using c inv_waitsD(1) [OF s1, of d u] by (auto simp: s1_def split: if_splits)
    next
      case (2 d u)
      then show ?case using cl inv_waitsD(2) [OF s1, of d u] registers(2)
        by (auto simp: s1_def linked_def noted_def split: if_splits)
    qed
  qed
next
  case (drops w t p s c)
  note inv = at_invD [OF drops(6)]
  from handle_loc [OF inv(3,4) drops(4)] show ?case
    by (intro inv_waits_frame [OF drops(7)]) (auto simp: at_drop_def at_free_def linked_def noted_def split: if_splits)
next
  case (yields w t p s)
  show ?case using yields(2)
    by (intro inv_waits_frame [OF yields(5)]) (auto simp: at_yield_now_def linked_def noted_def split: if_splits)
next
  case (pends w t p s)
  note inv = at_invD [OF pends(4)]
  from pends have l: "at_loc s t = L_Frame w" by (blast intro: at_on_loc inv(2))
  with pends(2) show ?case
    by (intro inv_waits_frame [OF pends(5)]) (auto simp: linked_def noted_def split: if_splits)
next
  case (readies w t p s)
  have "at_waits s c \<noteq> Some t" for c using inv_waitsD(1) [OF readies(6)] readies(4) by blast
  then show ?case
    by (intro inv_waits_frame [OF readies(6)]) (auto simp: at_ready_def linked_def noted_def split: if_splits)
next
  case (settles w t p s)
  note inv = at_invD [OF settles(4)]
  from settles have l: "at_loc s t = L_Frame w" by (blast intro: at_on_loc inv(2))
  have cw: "at_claim s w = None" using settles(1) by (simp add: at_on_def)
  have no: "at_waits s c \<noteq> Some t" for c
    using inv_ownerD(1) [OF inv(4), of c t] inv_waitsD(1) [OF settles(5), of c t] settles(2) l
    by (auto simp: at_unfinished_def)
  have tag: "u = v" if "at_waits s c = Some u" "ptr_ok v" "u OR JS_ASYNC_JOINER_TAG = v OR JS_ASYNC_JOINER_TAG" for c u v
    using waiter_facts(3) [OF settles(4,5) that(1)] that(2,3) by simp
  have pt: "ptr_ok u" if "at_waits s c = Some u" for c u by (rule waiter_facts(3) [OF settles(4,5) that])
  from l inv(3) show ?case
  proof (cases rule: on_settle_cases [where p = p])
    case nobody
    show ?thesis unfolding nobody(2) using no l nobody(1) joiner_tag_values(2) [OF pt]
      by (intro inv_waits_frame [OF settles(5)]) (auto simp: at_leave_def at_return_def linked_def noted_def split: if_splits)
  next
    case detached
    then have "at_owner s t = None" using inv_ownerD(1) [OF inv(4), of t] by (metis not_None_eq)
    then have "at_waits s t = None" using inv_waitsD(1) [OF settles(5), of t] by (metis not_None_eq)
    then show ?thesis unfolding detached(2) using no l detached(1)
      by (intro inv_waits_frame [OF settles(5)]) (auto simp: at_leave_def at_return_def linked_def noted_def split: if_splits)
  next
    case (joiner j)
    let ?s = "at_settle w t p s"
    have lk: "linked ?s d u" if u: "at_waits s d = Some u" and k: "linked s d u" for d u
    proof (cases "\<exists>v p'. at_claim s v = Some (d, u, p')")
      case True
      then obtain v p' where v: "at_claim s v = Some (d, u, p')" by blast
      with cw have "v \<noteq> w" by auto
      with v have "at_claim ?s v = Some (d, u, p')" unfolding joiner(3) by (simp add: at_leave_def)
      then show ?thesis unfolding linked_def by blast
    next
      case False
      then have js: "at_js s d = u OR JS_ASYNC_JOINER_TAG" "at_loc s d \<noteq> L_Free" "ptr_ok u" using k by (auto simp: linked_def)
      show ?thesis
      proof (cases "d = t")
        case True
        with js(1) joiner(2) have "u = j" using tag [OF u joiner(1)] by metis
        then have "at_claim ?s w = Some (d, u, p)" unfolding joiner(3) by (simp add: at_leave_def True)
        then show ?thesis unfolding linked_def by blast
      next
        case False
        then have "at_js ?s d = at_js s d" "at_loc ?s d = at_loc s d" unfolding joiner(3) by (simp_all add: at_leave_def)
        then show ?thesis using js unfolding linked_def by metis
      qed
    qed
    have nt: "noted ?s u" if "noted s u" "u \<noteq> t" for u
      using that unfolding joiner(3) by (auto simp: at_leave_def noted_def)
    have same: "at_waits ?s = at_waits s" "at_owner ?s = at_owner s"
      unfolding joiner(3) by (simp_all add: at_leave_def)
    show ?thesis
    proof (intro inv_waits_frame [OF settles(5)], goal_cases)
      case (3 d u) then show ?case using lk by (simp only: same)
    next
      case (4 d u)
      then have "u \<noteq> t" using no [of d] by (simp only: same) metis
      with 4 nt show ?case by blast
    qed (simp_all only: same)
  qed
next
  case (claims s w c j p)
  note inv = at_invD [OF claims(3)]
  show ?case
  proof (cases "at_loc s j = L_Free")
    case True
    then show ?thesis
      by (intro inv_waits_frame [OF claims(4)]) (auto simp: at_claim_joiner_def linked_def noted_def)
  next
    case False
    let ?s = "at_claim_joiner w j p s"
    have woken: "noted ?s j" if "at_unfinished s j"
      using that False parked_iff [OF inv(5) False] on_word(2) [OF inv(5), of j] wstate_cases [of "at_word s j"]
      by (cases "at_loc s j") (auto simp: at_claim_joiner_def at_return_def claimed_iff noted_def Let_def at_unfinished_def)
    have other: "noted ?s t" if "noted s t" for t
      using that False parked_iff [OF inv(5) False]
      by (auto simp: at_claim_joiner_def at_return_def claimed_iff noted_def Let_def)
    have lk: "linked ?s d t" if k: "linked s d t" "\<not> (d = c \<and> t = j)" for d t
    proof (cases "\<exists>v p'. at_claim s v = Some (d, t, p')")
      case True
      then obtain v p' where v: "at_claim s v = Some (d, t, p')" by blast
      with claims(1) k(2) have "v \<noteq> w" by auto
      with v False have "at_claim ?s v = Some (d, t, p')" by (simp add: at_claim_joiner_def at_return_def Let_def)
      then show ?thesis unfolding linked_def by blast
    next
      case nc: False
      then have js: "at_js s d = t OR JS_ASYNC_JOINER_TAG" "at_loc s d \<noteq> L_Free" "ptr_ok t" using k by (auto simp: linked_def)
      moreover have "at_js ?s d = at_js s d" "at_loc ?s d \<noteq> L_Free"
        using js(2) False by (simp_all add: at_claim_joiner_def at_return_def Let_def)
      ultimately show ?thesis unfolding linked_def by metis
    qed
    have same: "at_waits ?s = at_waits s" "at_owner ?s = at_owner s"
      by (simp_all add: at_claim_joiner_def at_return_def Let_def)
    show ?thesis
    proof (intro inv_waits_frame [OF claims(4)], goal_cases)
      case (3 d t)
      then show ?case using lk woken waiter_facts(1) [OF claims(3,4)] by (metis same(1))
    qed (simp_all add: same other)
  qed
next
  case (branches w t p s c)
  note inv = at_invD [OF branches(7)]
  show ?case
  proof (cases "\<exists>xs. at_queue s (Some w) = c # xs")
    case True
    then obtain xs where xs: "at_queue s (Some w) = c # xs" by blast
    then have "at_loc s c = L_Queue (Some w)" by (rule popped_loc [OF inv(1)])
    with xs inv_waitsD(1) [OF branches(8)] show ?thesis
      by (intro inv_waits_frame [OF branches(8)])
        (auto simp: at_branch_def linked_def noted_def clear_waits_def split: if_splits)
  next
    case False
    then have eq: "at_branch w t c s = s\<lparr>at_built := (at_built s)(c := False)\<rparr>"
      by (auto simp: at_branch_def split: list.splits)
    show ?thesis unfolding eq by (intro inv_waits_frame [OF branches(8)]) (auto simp: linked_def noted_def)
  qed
next
  case (branch_ends w t p s c)
  show ?case using branch_ends(5)
    by (intro inv_waits_frame [OF branch_ends(7)]) (auto simp: at_free_def linked_def noted_def split: if_splits)
next
  case (wakes s q u)
  note inv = at_invD [OF wakes(3)]
  show ?case using parked_iff [OF inv(5), of u]
    by (intro inv_waits_frame [OF wakes(4)])
      (auto simp: at_wake_def at_push_def linked_def noted_def claimed_iff Let_def split: if_splits)
next
  case (sends w t p s c u)
  show ?case
    by (intro inv_waits_frame [OF sends(9)]) (auto simp: at_send_def linked_def noted_def split: if_splits)
next
  case (cancels w t p s c)
  show ?case
    by (intro inv_waits_frame [OF cancels(9)]) (auto simp: at_cancel_def linked_def noted_def split: if_splits)
qed

end
