(* ===== verification/Async_Fork_Join.thy ===== *)
theory Async_Fork_Join
  imports Async_Invariants
begin

text \<open>
  The further invariants of the fork-join programs of \<open>Async_Tasks\<close>: a registration and the wait it stands
  for correspond one to one, and handles point from older tasks to younger ones.
\<close>

section \<open>Fork-join programs\<close>

text \<open>
  In a fork-join program a registered joiner really is waiting, for that task only; a running task has
  no registration left anywhere; parked tasks wait for one; handles point from the older task to the younger.
\<close>

definition fj_links :: "tasks \<Rightarrow> bool" where
  "fj_links s \<longleftrightarrow>
     (\<forall>c t. linked s c t \<longrightarrow> at_waits s c = Some t \<and> awaiting s t) \<and>
     (\<forall>c d t. at_waits s c = Some t \<and> at_waits s d = Some t \<longrightarrow> c = d)"

definition fj_claims :: "tasks \<Rightarrow> bool" where
  "fj_claims s \<longleftrightarrow>
     (\<forall>w c j p. at_claim s w = Some (c, j, p) \<longrightarrow> at_loc s c = L_Done) \<and>
     (\<forall>v w c j k p q. at_claim s v = Some (c, j, p) \<and> at_claim s w = Some (c, k, q) \<longrightarrow> v = w)"

definition fj_running :: "tasks \<Rightarrow> bool" where
  "fj_running s \<longleftrightarrow>
     (\<forall>t w c. at_loc s t = L_Frame w \<and> at_pc s t \<noteq> P_Wait \<and> at_pc s t \<noteq> P_Begin \<longrightarrow> at_waits s c \<noteq> Some t) \<and>
     (\<forall>t w. at_loc s t = L_Frame w \<and> at_pc s t \<noteq> P_Wait \<and> at_pc s t \<noteq> P_Begin \<and> at_pc s t \<noteq> P_Finish \<longrightarrow>
        wstate (at_word s t) = POLLING)"

definition fj_parked :: "tasks \<Rightarrow> bool" where
  "fj_parked s \<longleftrightarrow>
     (\<forall>t. at_loc s t = L_Parked \<longrightarrow> (\<exists>c. at_waits s c = Some t)) \<and>
     (\<forall>t w. at_loc s t = L_Frame w \<and> at_pc s t = P_Wait \<longrightarrow> wstate (at_word s t) = NOTIFIED \<or> (\<exists>c. at_waits s c = Some t))"

definition fj_births :: "tasks \<Rightarrow> bool" where
  "fj_births s \<longleftrightarrow>
     (\<forall>c t. at_owner s c = Some t \<longrightarrow> at_birth s t < at_birth s c) \<and>
     (\<forall>t. at_loc s t \<noteq> L_Free \<longrightarrow> at_birth s t < at_clock s)"

definition inv_fj :: "tasks \<Rightarrow> bool" where
  "inv_fj s \<longleftrightarrow> \<not> at_fault s \<and> fj_links s \<and> fj_claims s \<and> fj_running s \<and> fj_parked s \<and> fj_births s"

lemma inv_fjI:
  assumes "\<not> at_fault s" "\<And>c t. linked s c t \<Longrightarrow> at_waits s c = Some t \<and> awaiting s t"
    and "\<And>c d t. at_waits s c = Some t \<Longrightarrow> at_waits s d = Some t \<Longrightarrow> c = d"
    and "\<And>w c j p. at_claim s w = Some (c, j, p) \<Longrightarrow> at_loc s c = L_Done"
    and "\<And>v w c j k p q. at_claim s v = Some (c, j, p) \<Longrightarrow> at_claim s w = Some (c, k, q) \<Longrightarrow> v = w"
    and "\<And>t w c. at_loc s t = L_Frame w \<Longrightarrow> at_pc s t \<noteq> P_Wait \<Longrightarrow> at_pc s t \<noteq> P_Begin \<Longrightarrow> at_waits s c \<noteq> Some t"
    and "\<And>t. at_loc s t = L_Parked \<Longrightarrow> \<exists>c. at_waits s c = Some t"
    and "\<And>t w. at_loc s t = L_Frame w \<Longrightarrow> at_pc s t = P_Wait \<Longrightarrow> wstate (at_word s t) = NOTIFIED \<or> (\<exists>c. at_waits s c = Some t)"
    and "\<And>t w. at_loc s t = L_Frame w \<Longrightarrow> at_pc s t \<noteq> P_Wait \<Longrightarrow> at_pc s t \<noteq> P_Begin \<Longrightarrow> at_pc s t \<noteq> P_Finish \<Longrightarrow>
        wstate (at_word s t) = POLLING"
    and "\<And>c t. at_owner s c = Some t \<Longrightarrow> at_birth s t < at_birth s c"
    and "\<And>t. at_loc s t \<noteq> L_Free \<Longrightarrow> at_birth s t < at_clock s"
  shows "inv_fj s"
proof -
  have "fj_links s" using assms(2,3) unfolding fj_links_def by blast
  moreover have "fj_claims s" using assms(4,5) unfolding fj_claims_def by blast
  moreover have "fj_running s" using assms(6,9) unfolding fj_running_def by blast
  moreover have "fj_parked s" using assms(7,8) unfolding fj_parked_def by blast
  moreover have "fj_births s" using assms(10,11) unfolding fj_births_def by blast
  ultimately show ?thesis using assms(1) by (simp add: inv_fj_def)
qed

lemma inv_fjD:
  assumes "inv_fj s"
  shows "\<not> at_fault s" "linked s c t \<Longrightarrow> at_waits s c = Some t" "linked s c t \<Longrightarrow> awaiting s t"
    "at_waits s c = Some t \<Longrightarrow> at_waits s d = Some t \<Longrightarrow> c = d"
    "at_claim s w = Some (c, j, p) \<Longrightarrow> at_loc s c = L_Done"
    "at_claim s v = Some (c, j, p) \<Longrightarrow> at_claim s w = Some (c, k, q) \<Longrightarrow> v = w"
    "at_loc s t = L_Frame w \<Longrightarrow> at_pc s t \<noteq> P_Wait \<Longrightarrow> at_pc s t \<noteq> P_Begin \<Longrightarrow> at_waits s c \<noteq> Some t"
    "at_loc s t = L_Parked \<Longrightarrow> \<exists>c. at_waits s c = Some t"
    "at_loc s t = L_Frame w \<Longrightarrow> at_pc s t = P_Wait \<Longrightarrow> wstate (at_word s t) = NOTIFIED \<or> (\<exists>c. at_waits s c = Some t)"
    "at_loc s t = L_Frame w \<Longrightarrow> at_pc s t \<noteq> P_Wait \<Longrightarrow> at_pc s t \<noteq> P_Begin \<Longrightarrow> at_pc s t \<noteq> P_Finish \<Longrightarrow>
        wstate (at_word s t) = POLLING"
    "at_owner s c = Some t \<Longrightarrow> at_birth s t < at_birth s c"
    "at_loc s t \<noteq> L_Free \<Longrightarrow> at_birth s t < at_clock s"
proof -
  have c: "\<not> at_fault s" "fj_links s" "fj_claims s" "fj_running s" "fj_parked s" "fj_births s"
    using assms by (simp_all add: inv_fj_def)
  show "\<not> at_fault s" by (rule c(1))
  show "linked s c t \<Longrightarrow> at_waits s c = Some t" "linked s c t \<Longrightarrow> awaiting s t"
    "at_waits s c = Some t \<Longrightarrow> at_waits s d = Some t \<Longrightarrow> c = d"
    using c(2) unfolding fj_links_def by blast+
  show "at_claim s w = Some (c, j, p) \<Longrightarrow> at_loc s c = L_Done"
    "at_claim s v = Some (c, j, p) \<Longrightarrow> at_claim s w = Some (c, k, q) \<Longrightarrow> v = w"
    using c(3) unfolding fj_claims_def by blast+
  show "at_loc s t = L_Frame w \<Longrightarrow> at_pc s t \<noteq> P_Wait \<Longrightarrow> at_pc s t \<noteq> P_Begin \<Longrightarrow> at_waits s c \<noteq> Some t"
    "at_loc s t = L_Frame w \<Longrightarrow> at_pc s t \<noteq> P_Wait \<Longrightarrow> at_pc s t \<noteq> P_Begin \<Longrightarrow> at_pc s t \<noteq> P_Finish \<Longrightarrow>
        wstate (at_word s t) = POLLING"
    using c(4) unfolding fj_running_def by blast+
  show "at_loc s t = L_Parked \<Longrightarrow> \<exists>c. at_waits s c = Some t"
    "at_loc s t = L_Frame w \<Longrightarrow> at_pc s t = P_Wait \<Longrightarrow> wstate (at_word s t) = NOTIFIED \<or> (\<exists>c. at_waits s c = Some t)"
    using c(5) unfolding fj_parked_def by blast+
  show "at_owner s c = Some t \<Longrightarrow> at_birth s t < at_birth s c" "at_loc s t \<noteq> L_Free \<Longrightarrow> at_birth s t < at_clock s"
    using c(6) unfolding fj_births_def by blast+
qed

lemma awaiting_cong:
  "at_loc s' t = at_loc s t \<Longrightarrow> at_pc s' t = at_pc s t \<Longrightarrow> at_word s' t = at_word s t \<Longrightarrow> awaiting s' t = awaiting s t"
  by (simp add: awaiting_def)

text \<open>A step of \<open>u\<close> alone, which nobody is about to claim.\<close>

lemma inv_fj_move:
  assumes inv: "inv_fj s" "at_js s' = at_js s" "at_claim s' = at_claim s" "at_owner s' = at_owner s"
      "at_birth s' = at_birth s" "at_clock s' = at_clock s" "at_fault s' = at_fault s"
    and same: "\<And>t. t \<noteq> u \<Longrightarrow> at_loc s' t = at_loc s t" "\<And>t. t \<noteq> u \<Longrightarrow> at_pc s' t = at_pc s t" "\<And>t. t \<noteq> u \<Longrightarrow> at_word s' t = at_word s t"
    and u: "at_loc s u \<noteq> L_Free" "at_loc s u \<noteq> L_Done" "at_loc s' u \<noteq> L_Free"
    and aw: "awaiting s u \<Longrightarrow> awaiting s' u"
    and waits: "\<And>c. at_waits s' c = (if at_waits s c = Some u \<and> clear then None else at_waits s c)" "awaiting s u \<Longrightarrow> \<not> clear"
    and w1: "\<And>w c. at_loc s' u = L_Frame w \<Longrightarrow> at_pc s' u \<noteq> P_Wait \<Longrightarrow> at_pc s' u \<noteq> P_Begin \<Longrightarrow> at_waits s' c \<noteq> Some u"
    and w2: "at_loc s' u = L_Parked \<Longrightarrow> \<exists>c. at_waits s' c = Some u"
    and w3: "\<And>w. at_loc s' u = L_Frame w \<Longrightarrow> at_pc s' u = P_Wait \<Longrightarrow>
        wstate (at_word s' u) = NOTIFIED \<or> (\<exists>c. at_waits s' c = Some u)"
    and w4: "\<And>w. at_loc s' u = L_Frame w \<Longrightarrow> at_pc s' u \<noteq> P_Wait \<Longrightarrow> at_pc s' u \<noteq> P_Begin \<Longrightarrow> at_pc s' u \<noteq> P_Finish \<Longrightarrow>
        wstate (at_word s' u) = POLLING"
  shows "inv_fj s'"
proof -
  note D = inv_fjD [OF inv(1)]
  have lk: "linked s' c t \<Longrightarrow> linked s c t" for c t
    using inv(2,3) same(1) [of c] u(1,3) unfolding linked_def by metis
  have wt: "at_waits s' c = Some t \<Longrightarrow> at_waits s c = Some t" for c t
    by (auto simp: waits(1) split: if_splits)
  have wk: "at_waits s c = Some t \<Longrightarrow> t \<noteq> u \<Longrightarrow> at_waits s' c = Some t" for c t
    by (auto simp: waits(1))
  show ?thesis
  proof (rule inv_fjI, goal_cases)
    case 1 then show ?case using D(1) inv(7) by simp
  next
    case (2 c t)
    then have l: "linked s c t" by (rule lk)
    show ?case
    proof (cases "t = u")
      case True
      then show ?thesis using D(2,3) [OF l] aw waits by auto
    next
      case False
      then show ?thesis using D(2,3) [OF l] wk awaiting_cong [OF same] by blast
    qed
  next
    case (3 c d t) then show ?case using D(4) wt by blast
  next
    case (4 w c j p)
    then have "at_loc s c = L_Done" using D(5) inv(3) by simp
    then show ?case using same(1) [of c] u(2) by metis
  next
    case (5 v w c j k p q) then show ?case using D(6) [of v c] inv(3) by metis
  next
    case (6 t w c) then show ?case using w1 [of w c] D(7) [of t w c] same [of t] wt by (cases "t = u") auto
  next
    case (7 t) then show ?case using w2 D(8) [of t] same [of t] wk by (cases "t = u") auto
  next
    case (8 t w) then show ?case using w3 [of w] D(9) [of t w] same [of t] wk by (cases "t = u") auto
  next
    case (9 t w) then show ?case using w4 [of w] D(10) [of t w] same [of t] by (cases "t = u") auto
  next
    case (10 c t) then show ?case using D(11) [of c t] inv(4,5) by simp
  next
    case (11 t) then show ?case using D(12) [of t] inv(5,6) same(1) [of t] u(1) by (cases "t = u") auto
  qed
qed

lemma not_awaiting:
  "at_loc s t = L_Queue q \<Longrightarrow> \<not> awaiting s t" "at_loc s t = L_Free \<Longrightarrow> \<not> awaiting s t"
  "at_loc s t = L_Frame w \<Longrightarrow> at_pc s t \<noteq> P_Wait \<Longrightarrow> \<not> awaiting s t"
  by (auto simp: awaiting_def)

text \<open>A handle goes, or is registered, or a task is created: the cases that change the registrations.\<close>

lemma inv_fj_unhandle:
  assumes inv: "inv_fj s" "at_claim s' = at_claim s" "at_owner s' = (at_owner s)(v := None)"
      "at_birth s' = at_birth s" "at_clock s' = at_clock s" "at_fault s' = at_fault s" "at_word s' = at_word s"
      "at_waits s' = (at_waits s)(v := None)" "at_waits s v = None \<or> (\<exists>w. at_loc s t = L_Frame w \<and> at_waits s v = Some t)"
    and t: "at_loc s t = L_Frame w" "at_pc s t \<noteq> P_Wait" "at_pc s t \<noteq> P_Begin" "at_pc s t \<noteq> P_Finish"
    and js: "\<And>c. c \<noteq> v \<Longrightarrow> at_js s' c = at_js s c" "\<And>j. \<not> linked s' v j \<or> linked s v j"
    and loc: "\<And>u. u \<noteq> v \<Longrightarrow> at_loc s' u = at_loc s u" "at_loc s' v = at_loc s v \<or> at_loc s' v = L_Free"
    and pc: "\<And>u. u \<noteq> t \<Longrightarrow> at_pc s' u = at_pc s u" "at_pc s' t \<noteq> P_Wait" "at_pc s' t \<noteq> P_Begin"
    and cl: "\<And>w j p. at_loc s' v = L_Free \<Longrightarrow> at_claim s w \<noteq> Some (v, j, p)" "at_loc s' v = L_Free \<Longrightarrow> \<not> at_unfinished s v"
  shows "inv_fj s'"
proof -
  note D = inv_fjD [OF inv(1)]
  have nt: "at_waits s c \<noteq> Some t" for c using D(7) t by blast
  then have wv: "at_waits s v = None" using inv(9) by metis
  then have wt: "at_waits s' = at_waits s" using inv(8) by auto
  have lk: "linked s' c u \<Longrightarrow> linked s c u" for c u
    using js inv(2) loc(1) [of c] unfolding linked_def by metis
  have aw: "awaiting s' u" if "awaiting s u" for u
  proof -
    have "u \<noteq> t" using that not_awaiting(3) [OF t(1,2)] by blast
    moreover have "at_loc s' u = at_loc s u"
      using that loc cl(2) by (cases "u = v") (auto simp: awaiting_def at_unfinished_def)
    ultimately show ?thesis using that pc(1) [of u] inv(7) by (simp add: awaiting_def)
  qed
  have lf: "at_loc s u = L_Frame w'" if "at_loc s' u = L_Frame w'" for u w' using loc that by (metis task_loc.distinct(3))
  show ?thesis
  proof (rule inv_fjI, goal_cases)
    case 1 then show ?case using D(1) inv(6) by simp
  next
    case (2 c u) then show ?case using lk D(2,3) aw wt by metis
  next
    case (3 c d u) then show ?case using D(4) wt by metis
  next
    case (4 w' c j p)
    then have "at_loc s c = L_Done" "at_claim s w' = Some (c, j, p)" using D(5) inv(2) by simp_all
    then show ?case using loc cl(1) by metis
  next
    case (5 v' w' c j k p q) then show ?case using D(6) [of v' c] inv(2) by metis
  next
    case (6 u w' c)
    then show ?case using D(7) [OF lf] pc(1) [of u] nt wt by metis
  next
    case (7 u)
    then have "at_loc s u = L_Parked" using loc by (metis task_loc.distinct(5))
    then show ?case using D(8) wt by metis
  next
    case (8 u w') then show ?case using D(9) [OF lf] pc inv(7) wt by metis
  next
    case (9 u w') then show ?case using D(10) [OF lf] D(10) [OF t] pc inv(7) by metis
  next
    case (10 c u) then show ?case using D(11) [of c u] inv(3,4) by (auto split: if_splits)
  next
    case (11 u) then show ?case using D(12) [of u] inv(4,5) loc by metis
  qed
qed

text \<open>Nobody owns a free descriptor, and it owns nothing.\<close>

lemma free_unowned:
  assumes "inv_owner s" "at_loc s c = L_Free"
  shows "at_owner s c = None" "at_owner s d \<noteq> Some c"
  using inv_ownerD(1) [OF assms(1)] assms(2) unfinished_loc(5) [OF assms(2)] by (metis not_None_eq)+

lemma inv_fj_spawn:
  assumes inv: "inv_fj s" "at_inv s" "inv_waits s" and t: "at_loc s t = L_Frame w" "at_loc s c = L_Free"
  shows "inv_fj (at_spawn w t c built s)"
proof -
  let ?s = "at_spawn w t c built s"
  note D = inv_fjD [OF inv(1)]
  note I = at_invD [OF inv(2)]
  have nw: "at_waits s d \<noteq> Some c" for d using inv_waitsD(1) [OF inv(3)] free_unowned(2) [OF I(4) t(2)] by metis
  have wc: "at_waits s c = None" using inv_waitsD(1) [OF inv(3)] free_unowned(1) [OF I(4) t(2)] by (metis not_None_eq)
  have wt: "at_waits ?s = at_waits s" using wc by (auto simp: at_spawn_def at_push_def)
  have same: "at_claim ?s = at_claim s" "at_pc ?s = at_pc s" "at_fault ?s = at_fault s"
    "at_loc ?s = (at_loc s)(c := L_Queue (Some w))" "at_word ?s = (at_word s)(c := IDLE)"
    "at_owner ?s = (at_owner s)(c := Some t)" "at_birth ?s = (at_birth s)(c := at_clock s)" "at_clock ?s = at_clock s + 1"
    "at_js ?s = (at_js s)(c := JS_RUNNING)"
    by (simp_all add: at_spawn_def at_push_def)
  have cl: "at_claim s v \<noteq> Some (c, j, p)" for v j p using D(5) t(2) by (metis task_loc.distinct(7))
  have lk: "linked s d u" if l: "linked ?s d u" for d u
  proof (cases "d = c")
    case True
    with l cl show ?thesis using joiner_tag_values(2) [of u] by (auto simp: linked_def same)
  next
    case False
    then show ?thesis using l by (simp add: linked_def same)
  qed
  have aw: "awaiting ?s u" if "awaiting s u" for u
    using that not_awaiting(2) [OF t(2)] by (cases "u = c") (auto simp: awaiting_def same)
  show ?thesis
  proof (rule inv_fjI, goal_cases)
    case 1 then show ?case using D(1) by (simp add: same)
  next
    case (2 d u) then show ?case using lk D(2,3) aw wt by metis
  next
    case (3 d e u) then show ?case using D(4) wt by metis
  next
    case (4 v d j p) then show ?case using D(5) cl by (auto simp: same)
  next
    case (5 v x d j k p q) then show ?case using D(6) by (auto simp: same)
  next
    case (6 u v d) then show ?case using D(7) [of u v d] by (auto simp: same wt split: if_splits)
  next
    case (7 u) then show ?case using D(8) [of u] by (auto simp: same wt split: if_splits)
  next
    case (8 u v) then show ?case using D(9) [of u v] by (auto simp: same wt split: if_splits)
  next
    case (9 u v) then show ?case using D(10) [of u v] by (auto simp: same split: if_splits)
  next
    case (10 d u)
    show ?case
    proof (cases "d = c")
      case True
      with 10 have "u = t" by (simp add: same)
      moreover have "t \<noteq> c" "at_birth s t < at_clock s" using t D(12) [of t] by auto
      ultimately show ?thesis using True by (simp add: same)
    next
      case False
      with 10 have "at_owner s d = Some u" by (simp add: same)
      moreover have "u \<noteq> c" using free_unowned(2) [OF I(4) t(2)] calculation by metis
      ultimately show ?thesis using D(11) False by (simp add: same)
    qed
  next
    case (11 u) then show ?case using D(12) [of u] by (auto simp: same less_Suc_eq split: if_splits)
  qed
qed

text \<open>The registration of the running task at \<open>c\<close>.\<close>

lemma inv_fj_register:
  assumes inv: "inv_fj s" "inv_waits s" "inv_js s" and t: "at_loc s t = L_Frame w" "at_pc s t = P_Join c" "at_owner s c = Some t"
    and c: "at_js s c \<noteq> JS_FINISHED" "at_loc s c \<noteq> L_Free"
    and s': "s' = s\<lparr>at_js := (at_js s)(c := t OR JS_ASYNC_JOINER_TAG), at_waits := (at_waits s)(c := Some t),
        at_pc := (at_pc s)(t := P_Wait)\<rparr>"
  shows "inv_fj s'"
proof -
  note D = inv_fjD [OF inv(1)]
  have pt: "ptr_ok t" using inv_jsD [OF inv(3)] t(1) by simp
  have nd: "at_loc s c \<noteq> L_Done" using inv(3) c unfolding inv_js_def by blast
  have nt: "at_waits s d \<noteq> Some t" for d using D(7) [OF t(1)] t(2) by simp
  have wc: "at_waits s c = None" using inv_waitsD(1) [OF inv(2), of c] t(3) nt by (metis not_None_eq option.inject)
  have cl: "at_claim s v \<noteq> Some (c, j, p)" for v j p using D(5) nd by blast
  have nl: "\<not> linked s d t" for d using D(3) [of d t] not_awaiting(3) [OF t(1)] t(2) by auto
  have word: "wstate (at_word s t) = POLLING" using D(10) [OF t(1)] t(2) by simp
  have lk: "d = c \<and> u = t \<or> d \<noteq> c \<and> u \<noteq> t \<and> linked s d u" if "linked s' d u" for d u
  proof (cases "d = c")
    case True
    then show ?thesis using that cl pt unfolding s' by (auto simp: linked_def)
  next
    case False
    then have "linked s d u" using that unfolding s' by (auto simp: linked_def)
    then show ?thesis using False nl by auto
  qed
  have aw: "awaiting s' u = awaiting s u" if "u \<noteq> t" for u using that unfolding s' by (simp add: awaiting_def)
  have same: "at_waits s' = (at_waits s)(c := Some t)" "at_pc s' = (at_pc s)(t := P_Wait)" "at_loc s' = at_loc s"
    "at_claim s' = at_claim s" "at_word s' = at_word s" "at_owner s' = at_owner s" "at_birth s' = at_birth s"
    "at_clock s' = at_clock s" "at_fault s' = at_fault s"
    unfolding s' by simp_all
  have awt: "awaiting s' t" using t(1) word by (simp add: awaiting_def same)
  show ?thesis
  proof (rule inv_fjI, goal_cases)
    case 1 then show ?case using D(1) by (simp add: same)
  next
    case (2 d u) then show ?case using lk [OF 2] D(2,3) [of d u] aw [of u] awt by (auto simp: same)
  next
    case (3 d e u) then show ?case using D(4) [of d u e] nt wc by (auto simp: same split: if_splits)
  next
    case (4 v d j p) then show ?case using D(5) by (simp add: same)
  next
    case (5 v x d j k p q) then show ?case using D(6) by (simp add: same)
  next
    case (6 u v d) then show ?case using D(7) [of u v d] by (auto simp: same split: if_splits)
  next
    case (7 u)
    then obtain d where "at_waits s d = Some u" using D(8) [of u] by (auto simp: same)
    then have "at_waits s' d = Some u" using wc by (auto simp: same)
    then show ?case by blast
  next
    case (8 u v)
    show ?case
    proof (cases "u = t")
      case False
      then have "wstate (at_word s u) = NOTIFIED \<or> (\<exists>d. at_waits s d = Some u)" using 8 D(9) [of u v] by (simp add: same)
      then show ?thesis using wc by (auto simp: same) (metis option.distinct(1))
    qed (auto simp: same)
  next
    case (9 u v) then show ?case using D(10) [of u v] by (auto simp: same split: if_splits)
  next
    case (10 d u) then show ?case using D(11) by (simp add: same)
  next
    case (11 u) then show ?case using D(12) by (simp add: same)
  qed
qed

text \<open>The end of the running task, with a joiner found or not.\<close>

lemma inv_fj_finish:
  assumes inv: "inv_fj s" "inv_waits s" and t: "at_loc s t = L_Frame w" "at_pc s t = P_Finish" "at_claim s w = None"
    and l: "l = L_Done \<or> l = L_Free \<and> at_owner s t = None"
    and cl: "at_claim s' = at_claim s \<and> (\<forall>j. ptr_ok j \<longrightarrow> at_js s t \<noteq> j OR JS_ASYNC_JOINER_TAG) \<or>
      l = L_Done \<and> (\<exists>j p. ptr_ok j \<and> at_js s t = j OR JS_ASYNC_JOINER_TAG \<and> at_claim s' = (at_claim s)(w := Some (t, j, p)))"
    and s': "at_js s' = (at_js s)(t := JS_FINISHED)" "at_loc s' = (at_loc s)(t := l)" "at_waits s' = at_waits s" "at_pc s' = at_pc s"
      "at_word s' = at_word s" "at_owner s' = at_owner s" "at_birth s' = at_birth s" "at_clock s' = at_clock s" "at_fault s' = at_fault s"
  shows "inv_fj s'"
proof -
  note D = inv_fjD [OF inv(1)]
  have nt: "at_waits s d \<noteq> Some t" for d using D(7) [OF t(1)] t(2) by simp
  have ncl: "at_claim s v \<noteq> Some (t, j, p)" for v j p using D(5) [of v t j p] t(1) by auto
  have lk: "linked s d u" if "linked s' d u" for d u
    using that cl t(1) ncl unfolding linked_def
    by (auto simp: s' split: if_splits)
  have aw: "awaiting s' u" if "awaiting s u" for u
    using that not_awaiting(3) [OF t(1)] t(2) by (cases "u = t") (auto simp: awaiting_def s')
  have lf: "u \<noteq> t \<and> at_loc s u = L_Frame v" if "at_loc s' u = L_Frame v" for u v
    using that l by (auto simp: s' split: if_splits)
  show ?thesis
  proof (rule inv_fjI, goal_cases)
    case 1 then show ?case using D(1) by (simp add: s')
  next
    case (2 d u) then show ?case using D(2,3) [OF lk [OF 2]] aw by (simp add: s')
  next
    case (3 d e u) then show ?case using D(4) [of d u e] by (simp add: s')
  next
    case (4 v d j p)
    show ?case
    proof (cases "d = t")
      case True
      then show ?thesis using 4 cl ncl by (auto simp: s')
    next
      case False
      then have "at_claim s v = Some (d, j, p)" using 4 cl by (auto split: if_splits)
      then show ?thesis using D(5) False by (simp add: s')
    qed
  next
    case (5 v x d j k p q)
    then show ?case using D(6) [of v d j p x k q] ncl cl by (auto split: if_splits)
  next
    case (6 u v d) then show ?case using D(7) [of u v d] lf [OF 6(1)] by (simp add: s')
  next
    case (7 u)
    then have "at_loc s u = L_Parked" using l by (auto simp: s' split: if_splits)
    then show ?case using D(8) by (simp add: s')
  next
    case (8 u v) then show ?case using D(9) [of u v] lf [OF 8(1)] by (simp add: s')
  next
    case (9 u v) then show ?case using D(10) [of u v] lf [OF 9(1)] by (simp add: s')
  next
    case (10 d u) then show ?case using D(11) by (simp add: s')
  next
    case (11 u) then show ?case using D(12) [of u] t(1) by (auto simp: s' split: if_splits)
  qed
qed

text \<open>The claim of a joiner: it is there, waiting for this task, and no other will claim it.\<close>

lemma claimed_awaits:
  assumes "inv_fj s" "at_claim s w = Some (c, j, p)"
  shows "at_waits s c = Some j" "awaiting s j" "at_loc s j \<noteq> L_Free"
proof -
  have "linked s c j" using assms(2) unfolding linked_def by blast
  then show "at_waits s c = Some j" "awaiting s j" by (rule inv_fjD(2,3) [OF assms(1)])+
  then show "at_loc s j \<noteq> L_Free" using not_awaiting(2) by blast
qed

lemma inv_fj_claim:
  assumes inv: "inv_fj s" "inv_js s" "inv_words s" and c: "at_claim s w = Some (c, j, p)"
  shows "inv_fj (at_claim_joiner w j p s)"
proof -
  let ?s = "at_claim_joiner w j p s"
  note D = inv_fjD [OF inv(1)]
  note J = claimed_awaits [OF inv(1) c]
  have dc: "at_loc s c = L_Done" by (rule D(5) [OF c])
  have js: "at_js s c = JS_FINISHED" using inv(2) dc unfolding inv_js_def by (metis task_loc.distinct(7))
  have jloc: "at_loc s j = L_Parked \<and> wstate (at_word s j) = PARKED \<or>
      (\<exists>v. at_loc s j = L_Frame v \<and> at_pc s j = P_Wait \<and> wstate (at_word s j) = POLLING)"
    using J(2) parked_iff [OF inv(3) J(3)] by (auto simp: awaiting_def)
  have same: "at_waits ?s = at_waits s" "at_js ?s = at_js s" "at_owner ?s = at_owner s" "at_birth ?s = at_birth s"
    "at_clock ?s = at_clock s" "at_fault ?s = at_fault s" "at_claim ?s = (at_claim s)(w := None)"
    "u \<noteq> j \<Longrightarrow> at_loc ?s u = at_loc s u" "u \<noteq> j \<Longrightarrow> at_pc ?s u = at_pc s u" "u \<noteq> j \<Longrightarrow> at_word ?s u = at_word s u" for u
    using J(3) by (simp_all add: at_claim_joiner_def at_return_def Let_def)
  have sj: "at_loc ?s j = L_Frame w \<and> at_pc ?s j = P_Begin \<or>
      (\<exists>v. at_loc ?s j = L_Frame v) \<and> at_pc ?s j = P_Wait \<and> wstate (at_word ?s j) = NOTIFIED"
    using jloc J(3) by (auto simp: at_claim_joiner_def at_return_def claimed_iff Let_def)
  have fr: "at_loc ?s u \<noteq> L_Free \<Longrightarrow> at_loc s u \<noteq> L_Free" for u using same(8) [of u] J(3) by (cases "u = j") simp_all
  have lk: "linked s d u \<and> u \<noteq> j" if l: "linked ?s d u" for d u
  proof (cases "\<exists>v q. at_claim ?s v = Some (d, u, q)")
    case True
    then obtain v q where v: "at_claim s v = Some (d, u, q)" "v \<noteq> w" by (auto simp: same split: if_splits)
    then have "linked s d u" unfolding linked_def by blast
    moreover have "u \<noteq> j"
    proof
      assume "u = j"
      then have "d = c" using D(4) [of d j c] J(1) D(2) [OF calculation] by simp
      then show False using D(6) v c by blast
    qed
    ultimately show ?thesis by blast
  next
    case False
    then have k: "ptr_ok u" "at_loc s d \<noteq> L_Free" "at_js s d = u OR JS_ASYNC_JOINER_TAG"
      using l fr by (auto simp: linked_def same)
    then have "linked s d u" by (simp add: linked_def)
    moreover have "u \<noteq> j"
    proof
      assume "u = j"
      then have "d = c" using D(4) [of d j c] J(1) D(2) [OF calculation] by simp
      then show False using js k(1,3) joiner_tag_values(1) [of u] by simp
    qed
    ultimately show ?thesis by blast
  qed
  show ?thesis
  proof (rule inv_fjI, goal_cases)
    case 1 then show ?case using D(1) by (simp add: same)
  next
    case (2 d u)
    then have "linked s d u" "u \<noteq> j" using lk by blast+
    then show ?case using D(2,3) awaiting_cong [OF same(8-10)] by (simp add: same)
  next
    case (3 d e u) then show ?case using D(4) [of d u e] by (simp add: same)
  next
    case (4 v d k q)
    then have "at_claim s v = Some (d, k, q)" by (simp add: same split: if_splits)
    then have "at_loc s d = L_Done" by (rule D(5))
    then show ?case using same(8) [of d] jloc by (cases "d = j") auto
  next
    case (5 v x d k l q r) then show ?case using D(6) [of v d k q x l r] by (auto simp: same split: if_splits)
  next
    case (6 u v d) then show ?case using D(7) [of u v d] sj same(8-9) [of u] by (cases "u = j") (auto simp: same)
  next
    case (7 u) then show ?case using D(8) [of u] sj same(8) [of u] by (cases "u = j") (auto simp: same(1))
  next
    case (8 u v) then show ?case using D(9) [of u v] sj same(8-10) [of u] by (cases "u = j") (auto simp: same(1))
  next
    case (9 u v) then show ?case using D(10) [of u v] sj same(8-10) [of u] by (cases "u = j") auto
  next
    case (10 d u) then show ?case using D(11) by (simp add: same)
  next
    case (11 u) then show ?case using D(12) [OF fr [OF 11]] by (simp add: same)
  qed
qed

text \<open>The branch popped back: its handles go to the caller, which is older still.\<close>

lemma inv_fj_branch:
  assumes inv: "inv_fj s" and t: "at_loc s t = L_Frame w" "at_owner s c = Some t" "at_loc s c = L_Queue q"
    and s': "at_js s' = at_js s" "at_claim s' = at_claim s" "at_pc s' = at_pc s" "at_word s' = at_word s" "at_birth s' = at_birth s"
      "at_clock s' = at_clock s" "at_fault s' = at_fault s" "at_loc s' = (at_loc s)(c := L_Inline)"
      "at_owner s' = (\<lambda>d. if at_owner s d = Some c then Some t else at_owner s d)" "at_waits s' = clear_waits c (at_waits s)"
  shows "inv_fj s'"
proof -
  note D = inv_fjD [OF inv(1)]
  have lk: "linked s d u \<and> u \<noteq> c" if "linked s' d u" for d u
  proof -
    have "linked s d u" using that t(3) unfolding linked_def by (auto simp: s' split: if_splits)
    then show ?thesis using D(3) not_awaiting(1) [OF t(3)] by blast
  qed
  have wt: "at_waits s' d = Some u \<longleftrightarrow> at_waits s d = Some u \<and> u \<noteq> c" for d u by (auto simp: s' clear_waits_def)
  have lf: "u \<noteq> c \<and> at_loc s u = l" if "at_loc s' u = l" "l \<noteq> L_Inline" for u l
    using that by (auto simp: s' split: if_splits)
  show ?thesis
  proof (rule inv_fjI, goal_cases)
    case 1 then show ?case using D(1) by (simp add: s')
  next
    case (2 d u) then show ?case using lk [OF 2] D(2,3) [of d u] wt by (auto simp: awaiting_def s')
  next
    case (3 d e u) then show ?case using D(4) [of d u e] wt by simp
  next
    case (4 v d j p) then show ?case using D(5) [of v d j p] t(3) by (auto simp: s')
  next
    case (5 v x d j k p r) then show ?case using D(6) by (simp add: s')
  next
    case (6 u v d) then show ?case using D(7) [of u v d] lf [OF 6(1)] wt [of d u] by (auto simp: s')
  next
    case (7 u) then show ?case using D(8) [of u] lf [OF 7] wt by auto
  next
    case (8 u v) then show ?case using D(9) [of u v] lf [OF 8(1)] wt by (auto simp: s')
  next
    case (9 u v) then show ?case using D(10) [of u v] lf [OF 9(1)] by (auto simp: s')
  next
    case (10 d u)
    show ?case
    proof (cases "at_owner s d = Some c")
      case True
      then have "u = t" using 10 by (simp add: s')
      moreover have "at_birth s t < at_birth s c" "at_birth s c < at_birth s d" using D(11) t(2) True by blast+
      ultimately show ?thesis by (simp add: s')
    qed (use 10 D(11) in \<open>simp add: s'\<close>)
  next
    case (11 u) then show ?case using D(12) [of u] t(3) by (auto simp: s' split: if_splits)
  qed
qed

lemma inv_fj_same:
  assumes "inv_fj s" "at_js s' = at_js s" "at_claim s' = at_claim s" "at_pc s' = at_pc s" "at_word s' = at_word s"
    "at_birth s' = at_birth s" "at_clock s' = at_clock s" "at_fault s' = at_fault s" "at_loc s' = at_loc s"
    "at_owner s' = at_owner s" "at_waits s' = at_waits s"
  shows "inv_fj s'"
proof -
  note D = inv_fjD [OF assms(1)]
  have "linked s' = linked s" "awaiting s' = awaiting s" by (simp_all add: linked_def awaiting_def fun_eq_iff assms)
  then show ?thesis using D by (intro inv_fjI) (simp_all only: assms not_False_eq_True)
qed

text \<open>Nobody waits for, or is about to be claimed by, a task whose handle is held by a running one.\<close>

lemma owned_not_waited:
  assumes "inv_fj s" "inv_waits s" "at_loc s t = L_Frame w" "at_pc s t \<noteq> P_Wait" "at_pc s t \<noteq> P_Begin" "at_owner s c = Some t"
  shows "at_waits s c = None" "at_claim s v \<noteq> Some (c, j, p)"
proof -
  show wc: "at_waits s c = None"
  proof (cases "at_waits s c")
    case (Some u)
    then have "u = t" using inv_waitsD(1) [OF assms(2) Some] assms(6) by simp
    then show ?thesis using inv_fjD(7) [OF assms(1,3,4,5), of c] Some by simp
  qed
  show "at_claim s v \<noteq> Some (c, j, p)"
    using claimed_awaits(1) [OF assms(1)] wc by fastforce
qed

lemma inv_fj_step: "at_step fj s s' \<Longrightarrow> fj \<Longrightarrow> at_inv s \<Longrightarrow> inv_waits s \<Longrightarrow> inv_fj s \<Longrightarrow> inv_fj s'"
proof (induction rule: at_step.induct)
  case (pop s w)
  note inv = at_invD [OF pop(5)]
  show ?case
  proof (cases "at_queue s (Some w)")
    case (Cons t ts)
    then have "at_loc s t = L_Queue (Some w)" by (rule popped_loc [OF inv(1)])
    with Cons not_awaiting(1) [OF this] show ?thesis
      by (intro inv_fj_move [OF pop(7), where u = t and clear = False]) (auto simp: at_pop_def at_enter_def)
  qed (use pop in \<open>simp add: at_pop_def\<close>)
next
  case (steal s w q)
  note inv = at_invD [OF steal(6)]
  show ?case
  proof (cases "at_queue s q = []")
    case False
    define t where "t = last (at_queue s q)"
    from False have "at_loc s t = L_Queue q" unfolding t_def by (rule stolen_loc [OF inv(1)])
    with False not_awaiting(1) [OF this] show ?thesis
      by (intro inv_fj_move [OF steal(8), where u = t and clear = False])
        (auto simp: at_steal_def at_enter_def t_def [symmetric])
  qed (use steal in \<open>simp add: at_steal_def\<close>)
next
  case (begins w t p s)
  note inv = at_invD [OF begins(5)]
  from begins have l: "at_loc s t = L_Frame w" by (blast intro: at_on_loc inv(2))
  with not_awaiting(3) [OF this] begins(2) show ?case
    by (intro inv_fj_move [OF begins(7), where u = t and clear = True])
      (auto simp: at_begin_def clear_waits_def mark_polling_def)
next
  case (spawns w t p s c built)
  note inv = at_invD [OF spawns(7)]
  from spawns have l: "at_loc s t = L_Frame w" by (blast intro: at_on_loc inv(2))
  show ?case by (rule inv_fj_spawn [OF spawns(9,7,8) l spawns(4)])
next
  case (reclaims w t p s c)
  note inv = at_invD [OF reclaims(7)]
  note D = inv_fjD [OF reclaims(9)]
  from reclaims have l: "at_loc s t = L_Frame w" by (blast intro: at_on_loc inv(2))
  have same: "inv_fj (s\<lparr>at_pc := (at_pc s)(t := P_Join c)\<rparr>)"
    using l reclaims(2) D(7,10) [OF l] not_awaiting(3) [OF l]
    by (intro inv_fj_move [OF reclaims(9), where u = t and clear = False]) auto
  show ?case
  proof (cases "\<exists>xs. at_queue s (Some w) = c # xs")
    case True
    then obtain xs where xs: "at_queue s (Some w) = c # xs" by blast
    then have "at_loc s c = L_Queue (Some w)" by (rule popped_loc [OF inv(1)])
    then have "\<not> awaiting (s\<lparr>at_pc := (at_pc s)(t := P_Join c)\<rparr>) c" "at_loc s c = L_Queue (Some w)" by (auto simp: awaiting_def)
    with xs show ?thesis
      by (intro inv_fj_move [OF same, where u = c and clear = False]) (auto simp: at_reclaim_def at_enter_def Let_def)
  next
    case False
    with same show ?thesis by (auto simp: at_reclaim_def Let_def split: list.splits)
  qed
next
  case (registers w t p s c)
  note inv = at_invD [OF registers(5)]
  note D = inv_fjD [OF registers(7)]
  from registers have l: "at_loc s t = L_Frame w" by (blast intro: at_on_loc inv(2))
  then have c: "at_owner s c = Some t" using inv_ownerD(2) [OF inv(4)] registers(2) by blast
  have m: "at_polling s w = Some t" using on_marker [OF registers(1) inv(6)] registers(2) by simp
  show ?case
  proof (cases "at_js s c = JS_FINISHED")
    case True
    then have dc: "at_loc s c = L_Done" using handle_loc [OF inv(3,4) c] by blast
    note nw = owned_not_waited [OF registers(7,6) l _ _ c]
    have wc: "at_waits s c = None" using nw(1) registers(2) by simp
    have ncl: "at_claim s v \<noteq> Some (c, j, q)" for v j q using nw(2) registers(2) by simp
    show ?thesis using True l dc ncl wc registers(2) unfinished_loc(4) [OF dc]
      by (intro inv_fj_unhandle [OF registers(7), where v = c and t = t and w = w])
        (auto simp: at_register_def at_free_def linked_def)
  next
    case False
    have cl: "at_loc s c \<noteq> L_Free" using handle_loc [OF inv(3,4) c] by blast
    show ?thesis
      by (rule inv_fj_register [OF registers(7,6) inv(3) l registers(2) c False cl])
        (use registers(4) False m in \<open>simp add: at_register_def\<close>)
  qed
next
  case (drops w t p s c)
  note inv = at_invD [OF drops(7)]
  note D = inv_fjD [OF drops(9)]
  from drops have l: "at_loc s t = L_Frame w" by (blast intro: at_on_loc inv(2))
  note nw = owned_not_waited [OF drops(9,8) l _ _ drops(4)]
  have wc: "at_waits s c = None" using nw(1) drops(2) by simp
  have ncl: "at_claim s v \<noteq> Some (c, j, q)" for v j q using nw(2) drops(2) by simp
  show ?case
  proof (cases "at_js s c = JS_FINISHED")
    case True
    then have dc: "at_loc s c = L_Done" using handle_loc [OF inv(3,4) drops(4)] by blast
    show ?thesis using True l dc ncl wc drops(2) unfinished_loc(4) [OF dc]
      by (intro inv_fj_unhandle [OF drops(9), where v = c and t = t and w = w])
        (auto simp: at_drop_def at_free_def linked_def)
  next
    case False
    show ?thesis using False l ncl wc drops(2)
      handle_loc [OF inv(3,4) drops(4)]
      by (intro inv_fj_unhandle [OF drops(9), where v = c and t = t and w = w])
        (auto simp: at_drop_def linked_def)
  qed
next
  case (yields w t p s)
  note inv = at_invD [OF yields(5)]
  from yields have l: "at_loc s t = L_Frame w" by (blast intro: at_on_loc inv(2))
  show ?case using l yields(2,4) inv_fjD(10) [OF yields(7) l] not_awaiting(3) [OF l]
    by (intro inv_fj_move [OF yields(7), where u = t and clear = False]) (auto simp: at_yield_now_def)
next
  case (pends w t p s)
  note inv = at_invD [OF pends(5)]
  note D = inv_fjD [OF pends(7)]
  from pends have l: "at_loc s t = L_Frame w" by (blast intro: at_on_loc inv(2))
  have pc: "at_pc s t = P_Wait" using pends(2,4) by blast
  show ?case using l pc D(9) [OF l pc]
    by (intro inv_fj_move [OF pends(7), where u = t and clear = False])
      (auto simp: awaiting_def park_word_wstate)
next
  case (readies w t p s)
  note inv = at_invD [OF readies(6)]
  from readies have l: "at_loc s t = L_Frame w" by (blast intro: at_on_loc inv(2))
  show ?case using l readies(2) inv_fjD(7) [OF readies(8) l] not_awaiting(3) [OF l]
    by (intro inv_fj_move [OF readies(8), where u = t and clear = False]) (auto simp: at_ready_def)
next
  case (settles w t p s)
  note inv = at_invD [OF settles(5)]
  from settles have l: "at_loc s t = L_Frame w" by (blast intro: at_on_loc inv(2))
  have cw: "at_claim s w = None" using settles(1) by (simp add: at_on_def)
  from l inv(3) show ?case
  proof (cases rule: on_settle_cases [where p = p])
    case nobody
    show ?thesis unfolding nobody(2) using nobody(1)
      by (intro inv_fj_finish [OF settles(7,6) l settles(2) cw, where l = L_Done]) (auto simp: at_leave_def at_return_def)
  next
    case detached
    then have "at_owner s t = None" using inv_ownerD(1) [OF inv(4), of t] by (metis not_None_eq)
    then show ?thesis unfolding detached(2) using detached(1)
      by (intro inv_fj_finish [OF settles(7,6) l settles(2) cw, where l = L_Free]) (auto simp: at_leave_def at_return_def)
  next
    case (joiner j)
    show ?thesis unfolding joiner(3) using joiner(1,2)
      by (intro inv_fj_finish [OF settles(7,6) l settles(2) cw, where l = L_Done]) (auto simp: at_leave_def)
  qed
next
  case (claims s w c j p)
  note inv = at_invD [OF claims(4)]
  show ?case by (rule inv_fj_claim [OF claims(6) inv(3,5) claims(1)])
next
  case (branches w t p s c)
  note inv = at_invD [OF branches(8)]
  from branches have l: "at_loc s t = L_Frame w" by (blast intro: at_on_loc inv(2))
  show ?case
  proof (cases "\<exists>xs. at_queue s (Some w) = c # xs")
    case True
    then obtain xs where xs: "at_queue s (Some w) = c # xs" by blast
    then have lc: "at_loc s c = L_Queue (Some w)" by (rule popped_loc [OF inv(1)])
    show ?thesis
      by (rule inv_fj_branch [OF branches(10) l branches(4) lc]) (simp_all add: at_branch_def xs)
  next
    case False
    then have eq: "at_branch w t c s = s\<lparr>at_built := (at_built s)(c := False)\<rparr>"
      by (auto simp: at_branch_def split: list.splits)
    show ?thesis unfolding eq by (rule inv_fj_same [OF branches(10)]) simp_all
  qed
next
  case (branch_ends w t p s c)
  note inv = at_invD [OF branch_ends(7)]
  note D = inv_fjD [OF branch_ends(9)]
  from branch_ends have l: "at_loc s t = L_Frame w" by (blast intro: at_on_loc inv(2))
  note nw = owned_not_waited [OF branch_ends(9,8) l _ _ branch_ends(4)]
  have wc: "at_waits s c = None" using nw(1) branch_ends(2) by simp
  have ncl: "at_claim s v \<noteq> Some (c, j, q)" for v j q using nw(2) branch_ends(2) by simp
  show ?case using l ncl wc branch_ends(2,5) unfinished_loc(6) [OF branch_ends(5)]
    by (intro inv_fj_unhandle [OF branch_ends(9), where v = c and t = t and w = w]) (auto simp: at_free_def linked_def)
qed simp_all

text \<open>A branch that is polled as part of its caller is no handle, and nobody waits for it.\<close>

definition inv_inline :: "tasks \<Rightarrow> bool" where
  "inv_inline s \<longleftrightarrow> (\<forall>c. at_loc s c = L_Inline \<longrightarrow> at_built s c \<and> at_waits s c = None)"

lemma inv_inline_frame:
  assumes "inv_inline s" "\<And>c. at_loc s' c = L_Inline \<Longrightarrow> at_loc s c = L_Inline"
    and "\<And>c. at_loc s' c = L_Inline \<Longrightarrow> at_built s c \<Longrightarrow> at_waits s c = None \<Longrightarrow> at_built s' c \<and> at_waits s' c = None"
  shows "inv_inline s'"
  using assms unfolding inv_inline_def by blast

lemma inv_inline_step:
  "at_step fj s s' \<Longrightarrow> fj \<Longrightarrow> at_inv s \<Longrightarrow> inv_waits s \<Longrightarrow> inv_fj s \<Longrightarrow> inv_inline s \<Longrightarrow> inv_inline s'"
proof (induction rule: at_step.induct)
  case (pop s w)
  then show ?case
    by (intro inv_inline_frame [OF pop(8)]) (auto simp: at_pop_def at_enter_def split: list.splits if_splits)
next
  case (steal s w q)
  then show ?case
    by (intro inv_inline_frame [OF steal(9)]) (auto simp: at_steal_def at_enter_def split: if_splits)
next
  case (begins w t p s)
  then show ?case
    by (intro inv_inline_frame [OF begins(8)]) (auto simp: at_begin_def clear_waits_def)
next
  case (spawns w t p s c built)
  then show ?case
    by (intro inv_inline_frame [OF spawns(10)]) (auto simp: at_spawn_def at_push_def split: if_splits)
next
  case (reclaims w t p s c)
  then show ?case
    by (intro inv_inline_frame [OF reclaims(10)])
      (auto simp: at_reclaim_def at_enter_def Let_def split: list.splits if_splits)
next
  case (registers w t p s c)
  note inv = at_invD [OF registers(5)]
  from registers have l: "at_loc s t = L_Frame w" by (blast intro: at_on_loc inv(2))
  then have "\<not> at_built s c" using inv_ownerD(2) [OF inv(4)] registers(2) by blast
  then show ?case
    by (intro inv_inline_frame [OF registers(8)])
      (auto simp: at_register_def at_free_def split: option.splits if_splits)
next
  case (drops w t p s c)
  show ?case by (intro inv_inline_frame [OF drops(10)]) (auto simp: at_drop_def at_free_def split: if_splits)
next
  case (yields w t p s)
  show ?case by (intro inv_inline_frame [OF yields(8)]) (auto simp: at_yield_now_def)
next
  case (pends w t p s)
  show ?case by (intro inv_inline_frame [OF pends(8)]) (auto split: if_splits)
next
  case (readies w t p s)
  show ?case by (intro inv_inline_frame [OF readies(9)]) (auto simp: at_ready_def)
next
  case (settles w t p s)
  note inv = at_invD [OF settles(5)]
  from settles have l: "at_loc s t = L_Frame w" by (blast intro: at_on_loc inv(2))
  from l inv(3) show ?case
    by (cases rule: on_settle_cases [where p = p])
      (auto simp: at_leave_def at_return_def split: if_splits intro!: inv_inline_frame [OF settles(8)])
next
  case (claims s w c j p)
  show ?case
    by (intro inv_inline_frame [OF claims(7)]) (auto simp: at_claim_joiner_def at_return_def Let_def split: if_splits)
next
  case (branches w t p s c)
  note inv = at_invD [OF branches(8)]
  from branches have l: "at_loc s t = L_Frame w" by (blast intro: at_on_loc inv(2))
  have wc: "at_waits s c = None" using owned_not_waited(1) [OF branches(10,9) l _ _ branches(4)] branches(2) by simp
  show ?case
    using branches(5,6,11) wc unfolding inv_inline_def
    by (auto simp: at_branch_def clear_waits_def split: list.splits)
next
  case (branch_ends w t p s c)
  show ?case by (intro inv_inline_frame [OF branch_ends(10)]) (auto simp: at_free_def split: if_splits)
qed simp_all

lemma at_reachable_inv:
  "at_reachable fj s \<Longrightarrow> at_inv s \<and> inv_waits s \<and> (fj \<longrightarrow> inv_fj s \<and> inv_inline s)"
proof (induction rule: at_reachable.induct)
  case (at_init r)
  have "inv_waits (at_start r)" by (simp add: inv_waits_def at_start_def)
  moreover have "inv_fj (at_start r)"
    by (rule inv_fjI) (auto simp: at_start_def linked_def split: if_splits)
  moreover have "inv_inline (at_start r)" by (simp add: inv_inline_def at_start_def)
  ultimately show ?case using at_inv_start [OF at_init] by simp
next
  case (at_next s s')
  then show ?case
    using at_inv_step [OF at_next(2)] inv_waits_step [OF at_next(2)] inv_fj_step [OF at_next(2)]
      inv_inline_step [OF at_next(2)] by blast
qed

end
