(* ===== verification/Async_Properties.thy ===== *)
theory Async_Properties
  imports Async_Fork_Join
begin

text \<open>
  What the invariants of \<open>Async_Invariants\<close> and \<open>Async_Fork_Join\<close> give for the stackless tasks: of every
  program, of fork-join programs; and what goes wrong otherwise.
\<close>

section \<open>What holds of every program\<close>

lemma token_places:
  assumes "at_inv s"
  shows "distinct (at_queue s q)" "distinct (map fst (at_frames s w))"
    "t \<in> set (at_queue s q) \<Longrightarrow> at_loc s t = L_Queue q" "t \<in> fst ` set (at_frames s w) \<Longrightarrow> at_loc s t = L_Frame w"
  using inv_queueD [OF at_invD(1) [OF assms]] inv_framesD [OF at_invD(2) [OF assms]] by blast+

text \<open>
  C29: the tokens of tasks are linear, whatever a program does: a task is in at most one run queue, once, or
  in at most one poll, never both; a handle always refers to a descriptor that is still allocated; and when
  a future polls a handle, the marker of its worker names that very future's task, so that the
  joiner registered is the one that waits.
\<close>

theorem async_tokens_linear:
  assumes "at_reachable fj s"
  shows "distinct (at_queue s q) \<and> distinct (map fst (at_frames s w)) \<and>
    (t \<in> set (at_queue s q) \<and> t \<in> set (at_queue s q') \<longrightarrow> q = q') \<and>
    (t \<in> fst ` set (at_frames s w) \<and> t \<in> fst ` set (at_frames s w') \<longrightarrow> w = w') \<and>
    \<not> (t \<in> set (at_queue s q) \<and> t \<in> fst ` set (at_frames s w)) \<and>
    (at_owner s c = Some t \<longrightarrow> at_loc s c \<noteq> L_Free) \<and>
    (at_on w t p s \<and> at_pc s t = P_Join c \<longrightarrow> at_polling s w = Some t)"
proof -
  have inv: "at_inv s" using at_reachable_inv [OF assms] by blast
  note P = token_places [OF inv]
  have "at_owner s c = Some t \<Longrightarrow> at_loc s c \<noteq> L_Free" using inv_ownerD(1) [OF at_invD(4) [OF inv]] by blast
  moreover have "at_on w t p s \<Longrightarrow> at_pc s t = P_Join c \<Longrightarrow> at_polling s w = Some t"
    using on_marker [OF _ at_invD(6) [OF inv]] by simp
  moreover have "t \<in> set (at_queue s q) \<Longrightarrow> t \<in> set (at_queue s q') \<Longrightarrow> q = q'"
    using P(3) [of t q] P(3) [of t q'] by simp
  moreover have "t \<in> fst ` set (at_frames s w) \<Longrightarrow> t \<in> fst ` set (at_frames s w') \<Longrightarrow> w = w'"
    using P(4) [of t w] P(4) [of t w'] by simp
  moreover have "\<not> (t \<in> set (at_queue s q) \<and> t \<in> fst ` set (at_frames s w))"
    using P(3) [of t q] P(4) [of t w] by fastforce
  ultimately show ?thesis using P(1,2) by blast
qed

text \<open>
  C30: no wake is lost: a task that was told to wait for another and is parked is still registered in
  the join word of that one, which has not finished, or the exit that found it there is about to claim it.
\<close>

theorem async_join_not_lost:
  assumes "at_reachable fj s" and "at_waits s c = Some t" and "at_loc s t = L_Parked"
  shows "finish_and_settle (at_js s c) = (JS_FINISHED, Exit_Claim t) \<or> (\<exists>w p. at_claim s w = Some (c, t, p))"
proof -
  have inv: "at_inv s" "inv_waits s" using at_reachable_inv [OF assms(1)] by blast+
  have "\<not> noted s t" using assms(3) by (simp add: noted_def)
  then have "linked s c t" by (rule inv_waitsD(2) [OF inv(2) assms(2)])
  moreover have "finish_and_settle (at_js s c) = (JS_FINISHED, Exit_Claim t)"
    if "ptr_ok t" "at_js s c = t OR JS_ASYNC_JOINER_TAG"
    using settle_claim [OF that(1)] that(2) by simp
  ultimately show ?thesis unfolding linked_def by blast
qed

section \<open>What holds of fork-join programs\<close>

text \<open>
  C31: a fork-join program touches no freed descriptor, however its workers are scheduled: the joiner
  that an exit is about to claim is there, and waits for that exit and nothing else.
\<close>

theorem fork_join_tasks_safe:
  assumes "at_reachable True s"
  shows "\<not> at_fault s \<and>
    (at_claim s w = Some (c, j, p) \<longrightarrow>
       at_owner s c = Some j \<and> at_loc s c = L_Done \<and> at_unfinished s j \<and> (at_pc s j = P_Wait \<or> at_loc s j = L_Parked) \<and>
       (at_claim s w' = Some (d, j, p') \<longrightarrow> w' = w))"
proof -
  have inv: "at_inv s" "inv_waits s" "inv_fj s" using at_reachable_inv [OF assms] by blast+
  note D = inv_fjD [OF inv(3)]
  have "at_owner s c = Some j \<and> at_loc s c = L_Done \<and> at_unfinished s j \<and> (at_pc s j = P_Wait \<or> at_loc s j = L_Parked)"
    if c: "at_claim s w = Some (c, j, p)"
    using claimed_awaits [OF inv(3) c] inv_waitsD(1) [OF inv(2), of c j] waiter_facts(1) [OF inv(1,2), of c j] D(5) [OF c]
    by (auto simp: awaiting_def)
  moreover have "w' = w" if "at_claim s w = Some (c, j, p)" "at_claim s w' = Some (d, j, p')"
  proof -
    have "c = d" using claimed_awaits(1) [OF inv(3)] that D(4) by blast
    then show ?thesis using D(6) that by blast
  qed
  ultimately show ?thesis using D(1) by blast
qed

text \<open>
  C32: a fork-join program never comes to a standstill: while a task is unfinished some task is in a
  queue or being polled, or a joiner is about to be claimed; parked tasks never wait for each other.
\<close>

theorem fork_join_tasks_progress:
  assumes "at_reachable True s" and "at_unfinished s t"
  shows "(\<exists>q u. u \<in> set (at_queue s q)) \<or> (\<exists>w u p. (u, p) \<in> set (at_frames s w)) \<or>
    (\<exists>w c j p. at_claim s w = Some (c, j, p))"
proof (rule ccontr)
  assume "\<not> ?thesis"
  then have no: "u \<notin> set (at_queue s q)" "(u, p) \<notin> set (at_frames s w)" "at_claim s w \<noteq> Some (c, j, p)" for q w u p c j
    by blast+
  have none: "at_queue s q = []" "at_frames s w = []" "at_claim s w = None" for q w
  proof -
    show "at_queue s q = []" using no(1) [of "hd (at_queue s q)" q] by (cases "at_queue s q") auto
    show "at_frames s w = []" using no(2) [of "fst (hd (at_frames s w))" "snd (hd (at_frames s w))" w] by (cases "at_frames s w") auto
    show "at_claim s w = None" using no(3) [of w] by (cases "at_claim s w") auto
  qed
  have inv: "at_inv s" "inv_waits s" "inv_fj s" "inv_inline s" using at_reachable_inv [OF assms(1)] by blast+
  have nl: "at_loc s u \<noteq> L_Queue q" "at_loc s u \<noteq> L_Frame w" for u q w
    using inv_queueD [OF at_invD(1) [OF inv(1)], of q u] inv_framesD [OF at_invD(2) [OF inv(1)], of w u] none by auto
  have parked: "at_loc s u = L_Parked" if "at_unfinished s u" for u
    using that nl [of u] by (cases "at_loc s u") (auto simp: at_unfinished_def)
  define B where "B = at_birth s ` {u. at_unfinished s u}"
  have "finite B" "B \<noteq> {}" using assms(2) by (auto simp: B_def)
  then have "Max B \<in> B" by simp
  then obtain u where u: "at_unfinished s u" "at_birth s u = Max B" by (auto simp: B_def)
  obtain c where c: "at_waits s c = Some u" using inv_fjD(8) [OF inv(3) parked [OF u(1)]] by blast
  have "linked s c u" using inv_waitsD(2) [OF inv(2) c] parked [OF u(1)] by (simp add: noted_def)
  then have js: "at_loc s c \<noteq> L_Free" "at_js s c = u OR JS_ASYNC_JOINER_TAG" "ptr_ok u" using none(3) by (auto simp: linked_def)
  have "at_loc s c \<noteq> L_Done" using at_invD(3) [OF inv(1)] js unfolding inv_js_def by auto
  moreover have "at_loc s c \<noteq> L_Inline" using inv(4) c unfolding inv_inline_def by fastforce
  ultimately have "at_unfinished s c" using js(1) nl(2) [of c] by (cases "at_loc s c") (auto simp: at_unfinished_def)
  then have "at_birth s c \<le> Max B" using \<open>finite B\<close> by (auto simp: B_def)
  moreover have "at_birth s u < at_birth s c"
    using inv_fjD(11) [OF inv(3)] inv_waitsD(1) [OF inv(2) c] by blast
  ultimately show False using u(2) by simp
qed

text \<open>A root task that awaits a child, which another worker has stolen and is finishing.\<close>

definition fj_example :: "tasks" where
  "fj_example =
     at_settle 1 16 None (at_ready 16 (at_pending 0 8 None (at_register 0 8 16 P_Wait (at_reclaim 0 8 16
       (at_begin 1 16 (at_steal 1 (Some 0) (at_spawn 0 8 16 False (at_begin 0 8 (at_pop 0 (at_start 8))))))))))"

lemma ptr_ok_numerals: "ptr_ok 8" "ptr_ok 16" "ptr_ok 24"
  by (simp_all add: ptr_ok_def)

lemma settle_running: "finish_and_settle JS_RUNNING = (JS_FINISHED, Exit_None)"
  by (simp add: finish_and_settle_def)

lemmas at_run = at_defs at_on_def at_start_def at_settle_def settle_claim settle_running ptr_ok_numerals clear_waits_def
  mark_polling_def mark_idle_def park_word_def wake_task_def wake_word_def wake_result_def Let_def

text \<open>The runs below start alike: the root is taken, polled, and makes a task.\<close>

lemma spawned_reachable:
  "at_reachable fj (at_spawn 0 8 16 built (at_begin 0 8 (at_pop 0 (at_start 8))))"
proof -
  have "at_reachable fj (at_start 8)" by (rule at_init) (rule ptr_ok_numerals)
  then have "at_reachable fj (at_pop 0 (at_start 8))" by (rule at_next [OF _ at_step.pop]) (simp_all add: at_run)
  then have "at_reachable fj (at_begin 0 8 (at_pop 0 (at_start 8)))"
    by (rule at_next [OF _ at_step.begins [where p = None]]) (simp_all add: at_run)
  then show ?thesis by (rule at_next [OF _ at_step.spawns [where p = None]]) (simp_all add: at_run)
qed

lemma fj_example_reachable:
  "at_reachable True fj_example \<and> at_claim fj_example 1 = Some (16, 8, None) \<and> at_waits fj_example 16 = Some 8 \<and>
   at_loc fj_example 8 = L_Parked \<and> at_owner fj_example 16 = Some 8"
proof -
  define s3 where "s3 = at_spawn 0 8 16 False (at_begin 0 8 (at_pop 0 (at_start 8)))"
  define s4 where "s4 = at_steal 1 (Some 0) s3"
  define s5 where "s5 = at_begin 1 16 s4"
  define s6 where "s6 = at_reclaim 0 8 16 s5"
  define s7 where "s7 = at_register 0 8 16 P_Wait s6"
  define s8 where "s8 = at_pending 0 8 None s7"
  define s9 where "s9 = at_ready 16 s8"
  note d = s3_def s4_def s5_def s6_def s7_def s8_def s9_def
  have r3: "at_reachable True s3" unfolding s3_def by (rule spawned_reachable)
  have r4: "at_reachable True s4" unfolding s4_def by (rule at_next [OF r3 at_step.steal]) (simp_all add: at_run d)
  have r5: "at_reachable True s5" unfolding s5_def
    by (rule at_next [OF r4 at_step.begins [where p = None]]) (simp_all add: at_run d)
  have r6: "at_reachable True s6" unfolding s6_def
    by (rule at_next [OF r5 at_step.reclaims [where p = None]]) (simp_all add: at_run d)
  have r7: "at_reachable True s7" unfolding s7_def
    by (rule at_next [OF r6 at_step.registers [where p = None and fj = True, simplified]]) (simp_all add: at_run d)
  have r8: "at_reachable True s8" unfolding s8_def
    by (rule at_next [OF r7 at_step.pends [where p = None]]) (simp_all add: at_run d)
  have r9: "at_reachable True s9" unfolding s9_def
    by (rule at_next [OF r8 at_step.readies [where p = None and w = 1]]) (simp_all add: at_run d)
  have e: "fj_example = at_settle 1 16 None s9" by (simp add: fj_example_def d)
  have "at_reachable True fj_example" unfolding e
    by (rule at_next [OF r9 at_step.settles]) (simp_all add: at_run d)
  then show ?thesis by (simp add: e at_run d)
qed

theorem async_tokens_linear_witness:
  "distinct (at_queue fj_example (Some 0)) \<and> distinct (map fst (at_frames fj_example 1)) \<and> at_loc fj_example 16 \<noteq> L_Free"
  using async_tokens_linear [of True fj_example "Some 0" 1 8 None 1 16 None] fj_example_reachable by blast

theorem async_join_not_lost_witness:
  "finish_and_settle (at_js fj_example 16) = (JS_FINISHED, Exit_Claim 8) \<or> (\<exists>w p. at_claim fj_example w = Some (16, 8, p))"
  by (rule async_join_not_lost [of True]) (simp_all add: fj_example_reachable)

theorem fork_join_tasks_safe_witness: "\<not> at_fault fj_example \<and> at_unfinished fj_example 8"
  using fork_join_tasks_safe [of fj_example 1 16 8 None] fj_example_reachable by blast

theorem fork_join_tasks_progress_witness:
  "(\<exists>q u. u \<in> set (at_queue fj_example q)) \<or> (\<exists>w u p. (u, p) \<in> set (at_frames fj_example w)) \<or>
   (\<exists>w c j p. at_claim fj_example w = Some (c, j, p))"
  by (rule fork_join_tasks_progress [of _ 8]) (simp_all add: fj_example_reachable at_unfinished_def)

section \<open>What breaks\<close>

text \<open>A run of three workers: a task, its child and its parent.\<close>

definition late_claim_example :: "tasks" where
  "late_claim_example =
     at_claim_joiner 2 16 None (at_register 0 8 16 P_Run (at_reclaim 0 8 16 (at_settle 1 16 None (at_ready 16
       (at_register 1 16 24 P_Run (at_reclaim 1 16 24 (at_settle 2 24 None (at_ready 24
         (at_register 1 16 24 P_Run (at_reclaim 1 16 24 (at_begin 2 24 (at_steal 2 (Some 1)
           (at_spawn 1 16 24 False (at_begin 1 16 (at_steal 1 (Some 0)
             (at_spawn 0 8 16 False (at_begin 0 8 (at_pop 0 (at_start 8)))))))))))))))))))"

text \<open>
  C33: the descriptor of a task that awaits another is not kept alive by the registration: the exit of the
  awaited one swaps \<open>FINISHED\<close> in, and only then accesses the joiner's waker word.  A task that polls the handle
  once more in between takes the result, may finish, and its own handle's holder may free
  it; the exit then accesses freed memory.  One task, its child and its parent on three workers suffice.
\<close>

theorem late_claim_touches_freed:
  "at_reachable False late_claim_example \<and> at_fault late_claim_example"
proof -
  define s0 where "s0 = at_spawn 0 8 16 False (at_begin 0 8 (at_pop 0 (at_start 8)))"
  define s1 where "s1 = at_begin 1 16 (at_steal 1 (Some 0) s0)"
  define s2 where "s2 = at_spawn 1 16 24 False s1"
  define s3 where "s3 = at_begin 2 24 (at_steal 2 (Some 1) s2)"
  define s4 where "s4 = at_register 1 16 24 P_Run (at_reclaim 1 16 24 s3)"
  define s5 where "s5 = at_settle 2 24 None (at_ready 24 s4)"
  define s6 where "s6 = at_register 1 16 24 P_Run (at_reclaim 1 16 24 s5)"
  define s7 where "s7 = at_settle 1 16 None (at_ready 16 s6)"
  define s8 where "s8 = at_register 0 8 16 P_Run (at_reclaim 0 8 16 s7)"
  note d = s0_def s1_def s2_def s3_def s4_def s5_def s6_def s7_def s8_def
  note regs = at_step.registers [where fj = False, simplified]
  have r0: "at_reachable False s0" unfolding d(1) by (rule spawned_reachable)
  then have "at_reachable False (at_steal 1 (Some 0) s0)"
    by (rule at_next [OF _ at_step.steal]) (simp_all add: at_run d)
  then have r1: "at_reachable False s1" unfolding d(2)
    by (rule at_next [OF _ at_step.begins [where p = None]]) (simp_all add: at_run d)
  then have r2: "at_reachable False s2" unfolding d(3)
    by (rule at_next [OF _ at_step.spawns [where p = None]]) (simp_all add: at_run d)
  then have "at_reachable False (at_steal 2 (Some 1) s2)"
    by (rule at_next [OF _ at_step.steal]) (simp_all add: at_run d)
  then have r3: "at_reachable False s3" unfolding d(4)
    by (rule at_next [OF _ at_step.begins [where p = None]]) (simp_all add: at_run d)
  then have "at_reachable False (at_reclaim 1 16 24 s3)"
    by (rule at_next [OF _ at_step.reclaims [where p = None]]) (simp_all add: at_run d)
  then have r4: "at_reachable False s4" unfolding d(5)
    by (rule at_next [OF _ regs [where p = None]]) (simp_all add: at_run d)
  then have "at_reachable False (at_ready 24 s4)"
    by (rule at_next [OF _ at_step.readies [where p = None and w = 2]]) (simp_all add: at_run d)
  then have r5: "at_reachable False s5" unfolding d(6)
    by (rule at_next [OF _ at_step.settles]) (simp_all add: at_run d)
  then have "at_reachable False (at_reclaim 1 16 24 s5)"
    by (rule at_next [OF _ at_step.reclaims [where p = None]]) (simp_all add: at_run d)
  then have r6: "at_reachable False s6" unfolding d(7)
    by (rule at_next [OF _ regs [where p = None]]) (simp_all add: at_run d)
  then have "at_reachable False (at_ready 16 s6)"
    by (rule at_next [OF _ at_step.readies [where p = None and w = 1]]) (simp_all add: at_run d)
  then have r7: "at_reachable False s7" unfolding d(8)
    by (rule at_next [OF _ at_step.settles]) (simp_all add: at_run d)
  then have "at_reachable False (at_reclaim 0 8 16 s7)"
    by (rule at_next [OF _ at_step.reclaims [where p = None]]) (simp_all add: at_run d)
  then have r8: "at_reachable False s8" unfolding d(9)
    by (rule at_next [OF _ regs [where p = None]]) (simp_all add: at_run d)
  have e: "late_claim_example = at_claim_joiner 2 16 None s8" by (simp add: late_claim_example_def d)
  have c: "at_claim s8 2 = Some (24, 16, None)" "\<not> at_fault s8" "at_loc s8 16 = L_Free" by (simp_all add: at_run d)
  from r8 have "at_reachable False late_claim_example" unfolding e by (rule at_next [OF _ at_step.claims [OF c(1,2)]])
  with c(3) show ?thesis unfolding e by (simp add: at_claim_joiner_def)
qed

text \<open>
  A \<open>parallel_call\<close> whose future is dropped, or whose first branch panics, before it has made a handle of
  the second leaves that with nobody who would take its result or free it: its word says \<open>RUNNING\<close>, not \<open>DETACHED\<close>.
\<close>

definition orphaned :: "tasks \<Rightarrow> usize \<Rightarrow> bool" where
  "orphaned s c \<longleftrightarrow> at_owner s c = None \<and> at_loc s c \<noteq> L_Free \<and> (at_js s c = JS_RUNNING \<or> at_js s c = JS_FINISHED)"

lemma orphaned_step:
  assumes "at_step fj s s'" "at_inv s" "orphaned s c"
  shows "orphaned s' c"
  using assms
proof (induction rule: at_step.induct)
  case (settles w t p s)
  note inv = at_invD [OF settles(4)]
  from settles have l: "at_loc s t = L_Frame w" by (blast intro: at_on_loc inv(2))
  from l inv(3) show ?case
    by (cases rule: on_settle_cases [where p = p]) (use settles(5) in \<open>auto simp: orphaned_def at_leave_def at_return_def\<close>)
next
  case (registers w t p s d)
  note inv = at_invD [OF registers(4)]
  from registers have l: "at_loc s t = L_Frame w" by (blast intro: at_on_loc inv(2))
  then have "at_owner s d = Some t" using inv_ownerD(2) [OF inv(4)] registers(2) by blast
  with registers(5) show ?case by (auto simp: orphaned_def at_register_def at_free_def split: option.splits)
next
  case (pends w t p s)
  then show ?case by (auto simp: orphaned_def)
qed (auto simp: orphaned_def at_defs Let_def split: list.splits if_splits)

text \<open>The word of a branch that is no handle yet is written by its exit only.\<close>

definition inv_built :: "tasks \<Rightarrow> bool" where
  "inv_built s \<longleftrightarrow>
     (\<forall>c. at_built s c \<and> at_owner s c \<noteq> None \<longrightarrow> at_js s c = JS_RUNNING \<or> at_js s c = JS_FINISHED)"

lemma inv_built_step:
  assumes "at_step fj s s'" "at_inv s" "inv_built s"
  shows "inv_built s'"
  using assms
proof (induction rule: at_step.induct)
  case (settles w t p s)
  note inv = at_invD [OF settles(4)]
  from settles have l: "at_loc s t = L_Frame w" by (blast intro: at_on_loc inv(2))
  from l inv(3) show ?case
    by (cases rule: on_settle_cases [where p = p]) (use settles(5) in \<open>auto simp: inv_built_def at_leave_def at_return_def\<close>)
next
  case (registers w t p s d)
  note inv = at_invD [OF registers(4)]
  from registers have l: "at_loc s t = L_Frame w" by (blast intro: at_on_loc inv(2))
  then have "\<not> at_built s d" using inv_ownerD(2) [OF inv(4)] registers(2) by blast
  with registers(5) show ?case by (auto simp: inv_built_def at_register_def at_free_def split: option.splits)
next
  case (pends w t p s)
  then show ?case by (auto simp: inv_built_def)
next
  case (branches w t p s c)
  then show ?case by (auto simp: inv_built_def at_branch_def split: list.splits if_splits)
qed (auto simp: inv_built_def at_defs Let_def split: list.splits if_splits)

lemma inv_built_reachable: "at_reachable fj s \<Longrightarrow> inv_built s"
proof (induction rule: at_reachable.induct)
  case (at_next s s')
  then show ?case using inv_built_step at_reachable_inv by blast
qed (simp add: inv_built_def at_start_def)

text \<open>
  A \<open>parallel_call\<close> that is abandoned while its first branch is pending or unwinds leaks the second:
  whatever happens later, its descriptor and its result are never given back.
\<close>

lemma parallel_call_cancel_leaks:
  assumes "at_reachable False s" and "at_owner s c = Some t" and "at_built s c"
    and "(at_step False)\<^sup>*\<^sup>* (at_cancel c s) s'" and "at_step False s (at_cancel c s)"
  shows "at_loc s' c \<noteq> L_Free \<and> at_owner s' c = None"
proof -
  have inv: "at_inv s" "inv_built s" using at_reachable_inv [OF assms(1)] inv_built_reachable [OF assms(1)] by blast+
  have "orphaned (at_cancel c s) c"
    using inv_ownerD(1) [OF at_invD(4) [OF inv(1)] assms(2)] inv(2) assms(2,3)
    by (auto simp: orphaned_def at_cancel_def inv_built_def)
  moreover have "at_inv (at_cancel c s)" by (rule at_inv_step [OF assms(5) inv(1)])
  ultimately have "orphaned s' c \<and> at_inv s'"
    using assms(4)
  proof (induction rule: rtranclp_induct [OF assms(4)])
    case (2 u v)
    then show ?case using orphaned_step at_inv_step by blast
  qed simp
  then show ?thesis by (simp add: orphaned_def)
qed

definition cancel_example :: "tasks" where
  "cancel_example = at_spawn 0 8 16 True (at_begin 0 8 (at_pop 0 (at_start 8)))"

lemma parallel_call_cancel_leaks_example:
  "at_loc (at_pop 1 (at_cancel 16 cancel_example)) 16 \<noteq> L_Free \<and> at_owner (at_pop 1 (at_cancel 16 cancel_example)) 16 = None"
proof -
  have r: "at_reachable False cancel_example" unfolding cancel_example_def by (rule spawned_reachable)
  have c: "at_step False cancel_example (at_cancel 16 cancel_example)"
    by (rule at_step.cancels [where p = None and w = 0 and t = 8]) (simp_all add: cancel_example_def at_run)
  have "at_step False (at_cancel 16 cancel_example) (at_pop 1 (at_cancel 16 cancel_example))"
    by (rule at_step.pop) (simp_all add: cancel_example_def at_run)
  then have later: "(at_step False)\<^sup>*\<^sup>* (at_cancel 16 cancel_example) (at_pop 1 (at_cancel 16 cancel_example))"
    by (rule r_into_rtranclp)
  show ?thesis
    by (rule parallel_call_cancel_leaks [OF r _ _ later c]) (simp_all add: cancel_example_def at_run)
qed

text \<open>
  A branch that comes back from the own queue may have run: stolen, polled, parked and woken here.  It is polled
  on as part of its caller all the same, which is sound, as its future then registers its waker anew.
\<close>

lemma branch_may_have_run:
  "\<exists>s. at_reachable False s \<and> at_on 0 8 None s \<and> at_built s 16 \<and> hd (at_queue s (Some 0)) = 16 \<and>
     wstate (at_word s 16) = POLLING"
proof -
  define s0 where "s0 = at_spawn 0 8 16 True (at_begin 0 8 (at_pop 0 (at_start 8)))"
  define s1 where "s1 = at_begin 1 16 (at_steal 1 (Some 0) s0)"
  define s2 where "s2 = at_wake (Some 0) 16 (at_pending 1 16 None s1)"
  note d = s0_def s1_def s2_def
  have "at_reachable False s0" unfolding d(1) by (rule spawned_reachable)
  then have "at_reachable False (at_steal 1 (Some 0) s0)"
    by (rule at_next [OF _ at_step.steal]) (simp_all add: at_run d)
  then have "at_reachable False s1" unfolding d(2)
    by (rule at_next [OF _ at_step.begins [where p = None]]) (simp_all add: at_run d)
  then have "at_reachable False (at_pending 1 16 None s1)"
    by (rule at_next [OF _ at_step.pends [where p = None]]) (simp_all add: at_run d)
  then have "at_reachable False s2" unfolding d(3)
    by (rule at_next [OF _ at_step.wakes]) (simp_all add: at_run d)
  moreover have "at_on 0 8 None s2 \<and> at_built s2 16 \<and> hd (at_queue s2 (Some 0)) = 16 \<and> wstate (at_word s2 16) = POLLING"
    by (simp add: at_run d)
  ultimately show ?thesis by blast
qed

end
