(* ===== verification/Context_Code.thy ===== *)
theory Context_Code
  imports Cmpth_Prelude "HOL-Library.Monad_Syntax"
begin

text \<open>
  The context switches of \<open>resumable/stackful/context.rs\<close>, instruction by instruction, for AArch64 and
  x86-64 and for both policies, \<open>NativeContext\<close> and \<open>LeanFrameContext\<close>; \<open>ContextPolicy\<close> of
  \<open>traits/component/stackful.rs\<close> is their contract (\<open>Context_Policy\<close>).
\<close>

section \<open>The machine\<close>

text \<open>The registers that the code names or declares as clobbered, of both architectures.\<close>

datatype reg = X nat | V nat | SP
  | RAX | RBX | RCX | RDX | RSI | RDI | RBP | RSP | R8 | R9 | R10 | R11 | R12 | R13 | R14 | R15

text \<open>Memory is read and written in words, at multiples of eight.\<close>

record machine =
  mc_reg :: "reg \<Rightarrow> usize"
  mc_mem :: "usize \<Rightarrow> usize"

definition set_reg :: "reg \<Rightarrow> usize \<Rightarrow> machine \<Rightarrow> machine" where
  "set_reg r v m = m\<lparr>mc_reg := (mc_reg m)(r := v)\<rparr>"

definition load_word :: "usize \<Rightarrow> machine \<Rightarrow> usize option" where
  "load_word a m = (if a AND 7 = 0 then Some (mc_mem m a) else None)"

definition store_word :: "usize \<Rightarrow> usize \<Rightarrow> machine \<Rightarrow> machine option" where
  "store_word a v m = (if a AND 7 = 0 then Some (m\<lparr>mc_mem := (mc_mem m)(a := v)\<rparr>) else None)"

text \<open>
  Where control goes at the end of a block: to the symbol \<open>f\<close> or \<open>land\<close> of the block, to an
  address, or on with the code after the block.  \<open>None\<close> is a fault, or a trap.
\<close>

datatype jump = To_Callback | To_Land | To_Address usize | Falls_Through

subsection \<open>AArch64\<close>

text \<open>Immediates and labels are given as words; a \<open>bl\<close> carries the address that it leaves in \<open>x30\<close>.\<close>

datatype a64 =
    A_Sub reg reg usize | A_Add reg reg usize | A_Bic reg reg usize | A_Mov reg reg
  | A_Stp reg reg reg usize | A_Ldp reg reg reg usize | A_Adr reg usize
  | A_B jump | A_Bl jump usize | A_Br reg | A_Blr reg usize | A_Brk

text \<open>An access through \<open>sp\<close> faults when that is not a multiple of 16.\<close>

definition a64_base :: "reg \<Rightarrow> machine \<Rightarrow> usize option" where
  "a64_base r m = (if r = SP \<and> mc_reg m SP AND 15 \<noteq> 0 then None else Some (mc_reg m r))"

fun a64_run :: "a64 list \<Rightarrow> machine \<Rightarrow> (jump \<times> machine) option" where
  "a64_run [] m = Some (Falls_Through, m)"
| "a64_run (A_Sub d n i # is) m = a64_run is (set_reg d (mc_reg m n - i) m)"
| "a64_run (A_Add d n i # is) m = a64_run is (set_reg d (mc_reg m n + i) m)"
| "a64_run (A_Bic d n i # is) m = a64_run is (set_reg d (mc_reg m n AND NOT i) m)"
| "a64_run (A_Mov d n # is) m = a64_run is (set_reg d (mc_reg m n) m)"
| "a64_run (A_Stp a b n off # is) m =
     do { p \<leftarrow> a64_base n m; m1 \<leftarrow> store_word (p + off) (mc_reg m a) m;
          m2 \<leftarrow> store_word (p + (off + 8)) (mc_reg m b) m1; a64_run is m2 }"
| "a64_run (A_Ldp a b n off # is) m =
     do { p \<leftarrow> a64_base n m; v \<leftarrow> load_word (p + off) m; u \<leftarrow> load_word (p + (off + 8)) m;
          a64_run is (set_reg b u (set_reg a v m)) }"
| "a64_run (A_Adr d l # is) m = a64_run is (set_reg d l m)"
| "a64_run (A_B j # is) m = Some (j, m)"
| "a64_run (A_Bl j l # is) m = Some (j, set_reg (X 30) l m)"
| "a64_run (A_Br r # is) m = Some (To_Address (mc_reg m r), m)"
| "a64_run (A_Blr r l # is) m = Some (To_Address (mc_reg m r), set_reg (X 30) l m)"
| "a64_run (A_Brk # is) m = None"

text \<open>The code that a call returns to.\<close>

fun a64_rest :: "a64 list \<Rightarrow> a64 list" where
  "a64_rest [] = []"
| "a64_rest (A_Bl j l # is) = is"
| "a64_rest (i # is) = a64_rest is"

subsection \<open>x86-64\<close>

datatype x86 =
    I_Lea_Rip reg usize | I_Push reg | I_Pop reg | I_Mov reg reg
  | I_And reg usize | I_Sub reg usize | I_Add reg usize | I_Lea reg reg usize
  | I_Jmp jump | I_Jmp_Reg reg | I_Call jump usize | I_Call_Reg reg usize | I_Ud2

definition x86_push :: "usize \<Rightarrow> machine \<Rightarrow> machine option" where
  "x86_push v m = store_word (mc_reg m RSP - 8) v (set_reg RSP (mc_reg m RSP - 8) m)"

fun x86_run :: "x86 list \<Rightarrow> machine \<Rightarrow> (jump \<times> machine) option" where
  "x86_run [] m = Some (Falls_Through, m)"
| "x86_run (I_Lea_Rip d l # is) m = x86_run is (set_reg d l m)"
| "x86_run (I_Push r # is) m = do { m1 \<leftarrow> x86_push (mc_reg m r) m; x86_run is m1 }"
| "x86_run (I_Pop r # is) m =
     do { v \<leftarrow> load_word (mc_reg m RSP) m; x86_run is (set_reg r v (set_reg RSP (mc_reg m RSP + 8) m)) }"
| "x86_run (I_Mov d r # is) m = x86_run is (set_reg d (mc_reg m r) m)"
| "x86_run (I_And d i # is) m = x86_run is (set_reg d (mc_reg m d AND i) m)"
| "x86_run (I_Sub d i # is) m = x86_run is (set_reg d (mc_reg m d - i) m)"
| "x86_run (I_Add d i # is) m = x86_run is (set_reg d (mc_reg m d + i) m)"
| "x86_run (I_Lea d r i # is) m = x86_run is (set_reg d (mc_reg m r + i) m)"
| "x86_run (I_Jmp j # is) m = Some (j, m)"
| "x86_run (I_Jmp_Reg r # is) m = Some (To_Address (mc_reg m r), m)"
| "x86_run (I_Call j l # is) m = do { m1 \<leftarrow> x86_push l m; Some (j, m1) }"
| "x86_run (I_Call_Reg r l # is) m = do { m1 \<leftarrow> x86_push l m; Some (To_Address (mc_reg m r), m1) }"
| "x86_run (I_Ud2 # is) m = None"

fun x86_rest :: "x86 list \<Rightarrow> x86 list" where
  "x86_rest [] = []"
| "x86_rest (I_Call j l # is) = is"
| "x86_rest (i # is) = x86_rest is"

section \<open>NativeContext\<close>

text \<open>
  The blocks, with the address of their label \<open>3\<close> (\<open>r\<close>) and that of the instruction after
  their call (\<open>l\<close>).
\<close>

definition native_a64_swap :: "usize \<Rightarrow> a64 list" where
  "native_a64_swap r =
     [A_Sub SP SP 96,
      A_Stp (X 19) (X 20) SP 0,
      A_Stp (X 21) (X 22) SP 16,
      A_Stp (X 23) (X 24) SP 32,
      A_Stp (X 25) (X 26) SP 48,
      A_Stp (X 27) (X 28) SP 64,
      A_Adr (X 30) r,
      A_Stp (X 29) (X 30) SP 80,
      A_Mov (X 9) (X 0),
      A_Mov (X 11) SP,
      A_Mov (X 3) (X 2),
      A_Mov (X 2) (X 1),
      A_Mov (X 1) (X 9),
      A_Mov (X 0) (X 11),
      A_Mov SP (X 9),
      A_B To_Callback]"

definition native_a64_save :: "usize \<Rightarrow> a64 list" where
  "native_a64_save r =
     [A_Sub SP SP 96,
      A_Stp (X 19) (X 20) SP 0,
      A_Stp (X 21) (X 22) SP 16,
      A_Stp (X 23) (X 24) SP 32,
      A_Stp (X 25) (X 26) SP 48,
      A_Stp (X 27) (X 28) SP 64,
      A_Adr (X 30) r,
      A_Stp (X 29) (X 30) SP 80,
      A_Mov (X 9) (X 0),
      A_Mov (X 11) SP,
      A_Bic (X 9) (X 9) 15,
      A_Mov (X 0) (X 11),
      A_Mov SP (X 9),
      A_B To_Callback]"

definition native_a64_cond_swap :: "usize \<Rightarrow> usize \<Rightarrow> a64 list" where
  "native_a64_cond_swap r l =
     [A_Sub SP SP 96,
      A_Stp (X 19) (X 20) SP 0,
      A_Stp (X 21) (X 22) SP 16,
      A_Stp (X 23) (X 24) SP 32,
      A_Stp (X 25) (X 26) SP 48,
      A_Stp (X 27) (X 28) SP 64,
      A_Adr (X 30) r,
      A_Stp (X 29) (X 30) SP 80,
      A_Mov (X 19) (X 0),
      A_Mov (X 20) SP,
      A_Mov (X 3) (X 2),
      A_Mov (X 2) (X 1),
      A_Mov (X 1) (X 19),
      A_Mov (X 0) (X 20),
      A_Mov SP (X 19),
      A_Bl To_Callback l,
      A_Mov (X 9) (X 0),
      A_Mov (X 0) (X 20),
      A_Mov (X 1) (X 9),
      A_B To_Land]"

definition native_a64_restore :: "a64 list" where
  "native_a64_restore = [A_Mov SP (X 0), A_B To_Callback]"

definition native_a64_land :: "a64 list" where
  "native_a64_land =
     [A_Mov (X 9) (X 0),
      A_Ldp (X 19) (X 20) (X 9) 0,
      A_Ldp (X 21) (X 22) (X 9) 16,
      A_Ldp (X 23) (X 24) (X 9) 32,
      A_Ldp (X 25) (X 26) (X 9) 48,
      A_Ldp (X 27) (X 28) (X 9) 64,
      A_Ldp (X 29) (X 30) (X 9) 80,
      A_Add SP (X 9) 96,
      A_Mov (X 0) (X 1),
      A_Br (X 30)]"

definition native_x86_swap :: "usize \<Rightarrow> x86 list" where
  "native_x86_swap r =
     [I_Lea_Rip R11 r,
      I_Push R11,
      I_Push R15,
      I_Push R14,
      I_Push R13,
      I_Push R12,
      I_Push RBP,
      I_Push RBX,
      I_Mov R8 RDI,
      I_Mov RCX RDX,
      I_Mov RDX RSI,
      I_Mov RSI R8,
      I_Mov RDI RSP,
      I_Mov RSP R8,
      I_Jmp To_Callback]"

definition native_x86_save :: "usize \<Rightarrow> x86 list" where
  "native_x86_save r =
     [I_Lea_Rip R11 r,
      I_Push R11,
      I_Push R15,
      I_Push R14,
      I_Push R13,
      I_Push R12,
      I_Push RBP,
      I_Push RBX,
      I_Mov R8 RDI,
      I_Mov RDI RSP,
      I_And R8 (- 16),
      I_Lea RSP R8 (- 8),
      I_Jmp To_Callback]"

definition native_x86_cond_swap :: "usize \<Rightarrow> usize \<Rightarrow> x86 list" where
  "native_x86_cond_swap r l =
     [I_Lea_Rip R11 r,
      I_Push R11,
      I_Push R15,
      I_Push R14,
      I_Push R13,
      I_Push R12,
      I_Push RBP,
      I_Push RBX,
      I_Mov R12 RDI,
      I_Mov R13 RSP,
      I_Mov RCX RDX,
      I_Mov RDX RSI,
      I_Mov RSI R12,
      I_Mov RDI R13,
      I_Mov RSP R12,
      I_Sub RSP 8,
      I_Call To_Callback l,
      I_Add RSP 8,
      I_Mov RSI RAX,
      I_Mov RDI R13,
      I_Jmp To_Land]"

definition native_x86_restore :: "x86 list" where
  "native_x86_restore = [I_Mov RSP RDI, I_Jmp To_Callback]"

definition native_x86_land :: "x86 list" where
  "native_x86_land =
     [I_Mov R8 RDI,
      I_Mov RSP R8,
      I_Pop RBX,
      I_Pop RBP,
      I_Pop R12,
      I_Pop R13,
      I_Pop R14,
      I_Pop R15,
      I_Mov RAX RSI,
      I_Pop R11,
      I_Jmp_Reg R11]"

text \<open>Words written one after the other: the address and the memory then.\<close>

fun write_words :: "usize \<Rightarrow> usize list \<Rightarrow> (usize \<Rightarrow> usize) \<Rightarrow> usize \<Rightarrow> usize" where
  "write_words p [] M = M"
| "write_words p (v # vs) M = write_words (p + 8) vs (M(p := v))"

definition make_native_a64 :: "usize \<Rightarrow> usize \<Rightarrow> usize \<Rightarrow> usize \<Rightarrow> (usize \<Rightarrow> usize) \<Rightarrow> usize \<times> (usize \<Rightarrow> usize)" where
  "make_native_a64 trampoline stack_top entry arg M =
     (let aligned = stack_top AND NOT 15; ctx = aligned - 96
      in (ctx, write_words ctx ([entry, arg] @ replicate 9 0 @ [trampoline]) M))"

definition make_native_x86 :: "usize \<Rightarrow> usize \<Rightarrow> usize \<Rightarrow> usize \<Rightarrow> (usize \<Rightarrow> usize) \<Rightarrow> usize \<times> (usize \<Rightarrow> usize)" where
  "make_native_x86 trampoline stack_top entry arg M =
     (let aligned = stack_top AND NOT 15; ctx = aligned - 56
      in (ctx, write_words ctx [0, 0, entry, arg, 0, 0, trampoline] M))"

section \<open>LeanFrameContext\<close>

definition lean_a64_swap :: "usize \<Rightarrow> a64 list" where
  "lean_a64_swap r =
     [A_Sub SP SP 32,
      A_Stp (X 19) (X 20) SP 0,
      A_Adr (X 30) r,
      A_Stp (X 29) (X 30) SP 16,
      A_Mov (X 9) (X 0),
      A_Mov (X 11) SP,
      A_Mov (X 3) (X 2),
      A_Mov (X 2) (X 1),
      A_Mov (X 1) (X 9),
      A_Mov (X 0) (X 11),
      A_Mov SP (X 9),
      A_B To_Callback]"

definition lean_a64_save :: "usize \<Rightarrow> a64 list" where
  "lean_a64_save r =
     [A_Sub SP SP 32,
      A_Stp (X 19) (X 20) SP 0,
      A_Adr (X 30) r,
      A_Stp (X 29) (X 30) SP 16,
      A_Mov (X 9) (X 0),
      A_Mov (X 11) SP,
      A_Bic (X 9) (X 9) 15,
      A_Mov (X 0) (X 11),
      A_Mov SP (X 9),
      A_B To_Callback]"

definition lean_a64_cond_swap :: "usize \<Rightarrow> usize \<Rightarrow> a64 list" where
  "lean_a64_cond_swap r l =
     [A_Sub SP SP 32,
      A_Stp (X 19) (X 20) SP 0,
      A_Adr (X 30) r,
      A_Stp (X 29) (X 30) SP 16,
      A_Mov (X 19) (X 0),
      A_Mov (X 20) SP,
      A_Mov (X 3) (X 2),
      A_Mov (X 2) (X 1),
      A_Mov (X 1) (X 19),
      A_Mov (X 0) (X 20),
      A_Mov SP (X 19),
      A_Bl To_Callback l,
      A_Mov (X 9) (X 0),
      A_Mov (X 0) (X 20),
      A_Mov (X 1) (X 9),
      A_B To_Land]"

definition lean_a64_restore :: "a64 list" where
  "lean_a64_restore = [A_Mov SP (X 0), A_B To_Callback]"

definition lean_a64_land :: "a64 list" where
  "lean_a64_land =
     [A_Mov (X 9) (X 0),
      A_Ldp (X 19) (X 20) (X 9) 0,
      A_Ldp (X 29) (X 30) (X 9) 16,
      A_Add SP (X 9) 32,
      A_Mov (X 0) (X 1),
      A_Br (X 30)]"

definition lean_x86_swap :: "usize \<Rightarrow> x86 list" where
  "lean_x86_swap r =
     [I_Lea_Rip R11 r,
      I_Push R11,
      I_Push R13,
      I_Push R12,
      I_Push RBP,
      I_Push RBX,
      I_Mov R8 RDI,
      I_Mov RCX RDX,
      I_Mov RDX RSI,
      I_Mov RSI R8,
      I_Mov RDI RSP,
      I_Mov RSP R8,
      I_Jmp To_Callback]"

definition lean_x86_save :: "usize \<Rightarrow> x86 list" where
  "lean_x86_save r =
     [I_Lea_Rip R11 r,
      I_Push R11,
      I_Push R13,
      I_Push R12,
      I_Push RBP,
      I_Push RBX,
      I_Mov R8 RDI,
      I_Mov RDI RSP,
      I_And R8 (- 16),
      I_Lea RSP R8 (- 8),
      I_Jmp To_Callback]"

definition lean_x86_cond_swap :: "usize \<Rightarrow> usize \<Rightarrow> x86 list" where
  "lean_x86_cond_swap r l =
     [I_Lea_Rip R11 r,
      I_Push R11,
      I_Push R13,
      I_Push R12,
      I_Push RBP,
      I_Push RBX,
      I_Mov R12 RDI,
      I_Mov R13 RSP,
      I_Mov RCX RDX,
      I_Mov RDX RSI,
      I_Mov RSI R12,
      I_Mov RDI R13,
      I_Mov RSP R12,
      I_Sub RSP 8,
      I_Call To_Callback l,
      I_Add RSP 8,
      I_Mov RSI RAX,
      I_Mov RDI R13,
      I_Jmp To_Land]"

definition lean_x86_restore :: "x86 list" where
  "lean_x86_restore = [I_Mov RSP RDI, I_Jmp To_Callback]"

definition lean_x86_land :: "x86 list" where
  "lean_x86_land =
     [I_Mov R8 RDI,
      I_Mov RSP R8,
      I_Pop RBX,
      I_Pop RBP,
      I_Pop R12,
      I_Pop R13,
      I_Mov RAX RSI,
      I_Pop R11,
      I_Jmp_Reg R11]"

definition make_lean_a64 :: "usize \<Rightarrow> usize \<Rightarrow> usize \<Rightarrow> usize \<Rightarrow> (usize \<Rightarrow> usize) \<Rightarrow> usize \<times> (usize \<Rightarrow> usize)" where
  "make_lean_a64 trampoline stack_top entry arg M =
     (let aligned = stack_top AND NOT 15; ctx = aligned - 32
      in (ctx, write_words ctx [entry, arg, 0, trampoline] M))"

definition make_lean_x86 :: "usize \<Rightarrow> usize \<Rightarrow> usize \<Rightarrow> usize \<Rightarrow> (usize \<Rightarrow> usize) \<Rightarrow> usize \<times> (usize \<Rightarrow> usize)" where
  "make_lean_x86 trampoline stack_top entry arg M =
     (let aligned = stack_top AND NOT 15; ctx = aligned - 40
      in (ctx, write_words ctx [0, 0, entry, arg, trampoline] M))"

section \<open>The entry trampoline\<close>

definition a64_trampoline :: "usize \<Rightarrow> a64 list" where
  "a64_trampoline l = [A_Mov (X 1) (X 20), A_Blr (X 19) l, A_Brk]"

definition x86_trampoline :: "usize \<Rightarrow> x86 list" where
  "x86_trampoline l = [I_Mov RDI RAX, I_Mov RSI R13, I_Call_Reg R12 l, I_Ud2]"

section \<open>The registers the blocks declare as clobbered\<close>

text \<open>
  \<open>clobber_abi("C")\<close> stands for the registers that the platform's C functions need not preserve, as the
  code's documentation reads it.
\<close>

definition a64_clobber_abi :: "reg set" where
  "a64_clobber_abi = X ` ({0..17} \<union> {30}) \<union> V ` ({0..7} \<union> {16..31})"

definition x86_clobber_abi :: "reg set" where
  "x86_clobber_abi = {RAX, RCX, RDX, RSI, RDI, R8, R9, R10, R11}"

definition native_a64_clobbers :: "reg set" where
  "native_a64_clobbers = {X 0, X 1, X 2} \<union> {V 8, V 9, V 10, V 11, V 12, V 13, V 14, V 15} \<union> a64_clobber_abi"

definition native_x86_clobbers :: "reg set" where
  "native_x86_clobbers = {RDI, RSI, RDX, RAX} \<union> x86_clobber_abi"

definition lean_a64_clobbers :: "reg set" where
  "lean_a64_clobbers =
     {X 0, X 1, X 2} \<union> {X 21, X 22, X 23, X 24, X 25, X 26, X 27, X 28} \<union>
     {V 8, V 9, V 10, V 11, V 12, V 13, V 14, V 15} \<union> a64_clobber_abi"

definition lean_x86_clobbers :: "reg set" where
  "lean_x86_clobbers = {RDI, RSI, RDX, RAX} \<union> {R14, R15} \<union> x86_clobber_abi"

end
