(* ===== verification/Context_Policy.thy ===== *)
theory Context_Policy
  imports Context_Code
begin

text \<open>
  The contract of \<open>ContextPolicy\<close> (\<open>traits/component/stackful.rs\<close>) as a locale, which the four
  implementations of \<open>Context_Code\<close> fulfil, and what it gives for any number of contexts that any
  number of threads save and resume.
\<close>

section \<open>Alignment\<close>

lemma and_15: "(a :: usize) AND 15 = take_bit 4 a"
  by (simp add: take_bit_eq_mask mask_numeral and.commute)

lemma and_7: "(a :: usize) AND 7 = take_bit 3 a"
  by (simp add: take_bit_eq_mask mask_numeral)

lemma word_aligned: "(c :: usize) AND 15 = 0 \<or> c AND 15 = 8 \<Longrightarrow> c AND 7 = 0"
proof -
  have "c AND 7 = (c AND 15) AND 7" by (simp add: and.assoc)
  then show "c AND 15 = 0 \<or> c AND 15 = 8 \<Longrightarrow> c AND 7 = 0" by auto
qed

lemma take_bit_plus:
  assumes "n \<le> 64" shows "take_bit n (take_bit n c + k) = take_bit n (c + k :: usize)"
proof -
  have "take_bit n (z mod 2 ^ 64) = take_bit n z" for z :: int
    using assms by (simp only: take_bit_eq_mod [symmetric] take_bit_take_bit min_absorb1)
  then have m: "take_bit n (z mod 18446744073709551616) = take_bit n z" for z :: int by simp
  have "uint (take_bit n (take_bit n c + k)) = take_bit n (take_bit n (uint c) + uint k)"
    by (simp add: unsigned_take_bit_eq uint_word_ariths m)
  also have "\<dots> = take_bit n (uint c + uint k)"
    by (metis take_bit_add take_bit_take_bit min.idem)
  also have "\<dots> = uint (take_bit n (c + k))"
    by (simp add: unsigned_take_bit_eq uint_word_ariths m)
  finally show ?thesis by (simp only: word_uint_eq_iff)
qed

lemma aligned_plus: "(c :: usize) AND 7 = 0 \<Longrightarrow> (c + k) AND 7 = k AND 7"
  using take_bit_plus [of 3 c k] by (simp add: and_7)

lemma aligned_minus: "(c :: usize) AND 7 = 0 \<Longrightarrow> (c - k) AND 7 = (- k) AND 7"
  using aligned_plus [of c "- k"] by simp

text \<open>The words of a frame that starts at a multiple of eight.\<close>

lemma frame_aligned:
  assumes "(c :: usize) AND 15 = 0 \<or> c AND 15 = 8"
  shows "c AND 7 = 0" "(c + k) AND 7 = k AND 7" "(c - k) AND 7 = (- k) AND 7"
  using word_aligned [OF assms] by (simp_all add: aligned_plus aligned_minus)

lemma phase_plus: "(c :: usize) AND 15 = p \<Longrightarrow> (c + k) AND 15 = (p + k) AND 15"
  using take_bit_plus [of 4 c k] by (auto simp: and_15)

lemma phase_minus: "(c :: usize) AND 15 = p \<Longrightarrow> (c - k) AND 15 = (p - k) AND 15"
  using phase_plus [of c p "- k"] by simp

section \<open>The trait and its implementations\<close>

text \<open>
  The operations, with the addresses of the labels first and the operands bound to the parameter registers by
  \<open>bind_args\<close>; then the layout of the saved frame: the registers in it, the place of the
  resume address, its size, and its address modulo 16.
\<close>

record context_ops =
  co_swap :: "usize \<Rightarrow> machine \<Rightarrow> (jump \<times> machine) option"
  co_save :: "usize \<Rightarrow> machine \<Rightarrow> (jump \<times> machine) option"
  co_cond :: "usize \<Rightarrow> usize \<Rightarrow> machine \<Rightarrow> (jump \<times> machine) option"
  co_cancel :: "usize \<Rightarrow> usize \<Rightarrow> machine \<Rightarrow> (jump \<times> machine) option"
  co_restore :: "machine \<Rightarrow> (jump \<times> machine) option"
  co_land :: "machine \<Rightarrow> (jump \<times> machine) option"
  co_make :: "usize \<Rightarrow> usize \<Rightarrow> usize \<Rightarrow> usize \<Rightarrow> (usize \<Rightarrow> usize) \<Rightarrow> usize \<times> (usize \<Rightarrow> usize)"
  co_enter :: "usize \<Rightarrow> machine \<Rightarrow> (jump \<times> machine) option"
  co_slots :: "(reg \<times> usize) list"
  co_resume :: usize
  co_size :: usize
  co_phase :: usize
  co_sp :: reg
  co_result :: reg
  co_params :: "reg list"
  co_entry :: "reg \<times> reg"

definition native_a64 :: context_ops where
  "native_a64 =
     \<lparr>co_swap = (\<lambda>r. a64_run (native_a64_swap r)), co_save = (\<lambda>r. a64_run (native_a64_save r)),
      co_cond = (\<lambda>r l. a64_run (native_a64_cond_swap r l)),
      co_cancel = (\<lambda>r l. a64_run (a64_rest (native_a64_cond_swap r l))),
      co_restore = a64_run native_a64_restore, co_land = a64_run native_a64_land, co_make = make_native_a64,
      co_enter = (\<lambda>l. a64_run (a64_trampoline l)),
      co_slots = [(X 19, 0), (X 20, 8), (X 21, 16), (X 22, 24), (X 23, 32), (X 24, 40), (X 25, 48), (X 26, 56),
                  (X 27, 64), (X 28, 72), (X 29, 80)],
      co_resume = 88, co_size = 96, co_phase = 0, co_sp = SP, co_result = X 0, co_params = [X 0, X 1, X 2, X 3],
      co_entry = (X 19, X 20)\<rparr>"

definition lean_a64 :: context_ops where
  "lean_a64 =
     \<lparr>co_swap = (\<lambda>r. a64_run (lean_a64_swap r)), co_save = (\<lambda>r. a64_run (lean_a64_save r)),
      co_cond = (\<lambda>r l. a64_run (lean_a64_cond_swap r l)),
      co_cancel = (\<lambda>r l. a64_run (a64_rest (lean_a64_cond_swap r l))),
      co_restore = a64_run lean_a64_restore, co_land = a64_run lean_a64_land, co_make = make_lean_a64,
      co_enter = (\<lambda>l. a64_run (a64_trampoline l)),
      co_slots = [(X 19, 0), (X 20, 8), (X 29, 16)],
      co_resume = 24, co_size = 32, co_phase = 0, co_sp = SP, co_result = X 0, co_params = [X 0, X 1, X 2, X 3],
      co_entry = (X 19, X 20)\<rparr>"

definition native_x86 :: context_ops where
  "native_x86 =
     \<lparr>co_swap = (\<lambda>r. x86_run (native_x86_swap r)), co_save = (\<lambda>r. x86_run (native_x86_save r)),
      co_cond = (\<lambda>r l. x86_run (native_x86_cond_swap r l)),
      co_cancel = (\<lambda>r l. x86_run (x86_rest (native_x86_cond_swap r l))),
      co_restore = x86_run native_x86_restore, co_land = x86_run native_x86_land, co_make = make_native_x86,
      co_enter = (\<lambda>l. x86_run (x86_trampoline l)),
      co_slots = [(RBX, 0), (RBP, 8), (R12, 16), (R13, 24), (R14, 32), (R15, 40)],
      co_resume = 48, co_size = 56, co_phase = 8, co_sp = RSP, co_result = RAX, co_params = [RDI, RSI, RDX, RCX],
      co_entry = (R12, R13)\<rparr>"

definition lean_x86 :: context_ops where
  "lean_x86 =
     \<lparr>co_swap = (\<lambda>r. x86_run (lean_x86_swap r)), co_save = (\<lambda>r. x86_run (lean_x86_save r)),
      co_cond = (\<lambda>r l. x86_run (lean_x86_cond_swap r l)),
      co_cancel = (\<lambda>r l. x86_run (x86_rest (lean_x86_cond_swap r l))),
      co_restore = x86_run lean_x86_restore, co_land = x86_run lean_x86_land, co_make = make_lean_x86,
      co_enter = (\<lambda>l. x86_run (x86_trampoline l)),
      co_slots = [(RBX, 0), (RBP, 8), (R12, 16), (R13, 24)],
      co_resume = 32, co_size = 40, co_phase = 8, co_sp = RSP, co_result = RAX, co_params = [RDI, RSI, RDX, RCX],
      co_entry = (R12, R13)\<rparr>"

section \<open>The contract\<close>

fun bind_args :: "reg list \<Rightarrow> usize list \<Rightarrow> machine \<Rightarrow> machine" where
  "bind_args (r # rs) (v # vs) m = bind_args rs vs (set_reg r v m)"
| "bind_args _ _ m = m"

definition args_are :: "context_ops \<Rightarrow> usize list \<Rightarrow> machine \<Rightarrow> bool" where
  "args_are P vs m \<longleftrightarrow> map (mc_reg m) (take (length vs) (co_params P)) = vs"

text \<open>What a frame stands for: the values of the registers in it, the stack pointer and the resume address.\<close>

record saved =
  sv_reg :: "reg \<Rightarrow> usize"
  sv_sp :: usize
  sv_pc :: usize

definition frame_words :: "context_ops \<Rightarrow> usize \<Rightarrow> usize set" where
  "frame_words P c = (\<lambda>off. c + off) ` (insert (co_resume P) (snd ` set (co_slots P)))"

definition frame_holds :: "context_ops \<Rightarrow> (usize \<Rightarrow> usize) \<Rightarrow> usize \<Rightarrow> saved \<Rightarrow> bool" where
  "frame_holds P M c s \<longleftrightarrow>
     (\<forall>(r, off) \<in> set (co_slots P). M (c + off) = sv_reg s r) \<and> M (c + co_resume P) = sv_pc s \<and>
     c + co_size P = sv_sp s \<and> c AND 15 = co_phase P"

definition snapshot :: "context_ops \<Rightarrow> usize \<Rightarrow> machine \<Rightarrow> saved" where
  "snapshot P r m = \<lparr>sv_reg = mc_reg m, sv_sp = mc_reg m (co_sp P), sv_pc = r\<rparr>"

text \<open>The machine that goes on with a saved context and a value for it.\<close>

definition resumed :: "context_ops \<Rightarrow> saved \<Rightarrow> usize \<Rightarrow> machine \<Rightarrow> bool" where
  "resumed P s v m \<longleftrightarrow>
     (\<forall>r \<in> fst ` set (co_slots P). mc_reg m r = sv_reg s r) \<and> mc_reg m (co_sp P) = sv_sp s \<and> mc_reg m (co_result P) = v"

text \<open>
  The end of a callback that returns: the address is popped where the call pushed it, the registers of frames
  are as they were, and the result is where results are.
\<close>

definition returned :: "context_ops \<Rightarrow> machine \<Rightarrow> usize \<Rightarrow> machine \<Rightarrow> bool" where
  "returned P m v m' \<longleftrightarrow>
     (\<forall>r \<in> fst ` set (co_slots P). mc_reg m' r = mc_reg m r) \<and> mc_reg m' (co_sp P) = mc_reg m (co_sp P) + co_phase P \<and>
     mc_reg m' (co_result P) = v"

text \<open>A frame is written and nothing else.\<close>

definition saves :: "context_ops \<Rightarrow> usize \<Rightarrow> saved \<Rightarrow> (usize \<Rightarrow> usize) \<Rightarrow> (usize \<Rightarrow> usize) \<Rightarrow> bool" where
  "saves P c s M M' \<longleftrightarrow> frame_holds P M' c s \<and> (\<forall>a. a \<notin> frame_words P c \<longrightarrow> M' a = M a)"

text \<open>The thread that \<open>make_context\<close> prepares: it starts in the trampoline, at the top of its stack.\<close>

definition new_thread :: "context_ops \<Rightarrow> usize \<Rightarrow> usize \<Rightarrow> usize \<Rightarrow> usize \<Rightarrow> saved" where
  "new_thread P stack_top trampoline entry arg =
     \<lparr>sv_reg = (\<lambda>_. 0)(fst (co_entry P) := entry, snd (co_entry P) := arg), sv_sp = stack_top AND NOT 15, sv_pc = trampoline\<rparr>"

text \<open>
  Any number of threads that save and resume contexts: the saved contexts and the memory they share.  A step is a
  switch of some thread, with registers of its own, up to the callback; the landing on a context, which uses it up;
  the preparation of a new one; or any other code, callbacks included, which leaves the frames of saved contexts alone,
  as code does that keeps to its own stack.  A thread that saves itself has no saved frame
  below its stack pointer.
\<close>

record contexts =
  ct_live :: "usize \<Rightarrow> saved option"
  ct_mem :: "usize \<Rightarrow> usize"

definition live_words :: "context_ops \<Rightarrow> contexts \<Rightarrow> usize set" where
  "live_words P st = (\<Union>c \<in> dom (ct_live st). frame_words P c)"

definition can_save :: "context_ops \<Rightarrow> machine \<Rightarrow> contexts \<Rightarrow> bool" where
  "can_save P m st \<longleftrightarrow>
     mc_mem m = ct_mem st \<and> mc_reg m (co_sp P) AND 15 = 0 \<and>
     frame_words P (mc_reg m (co_sp P) - co_size P) \<inter> live_words P st = {}"

definition saved_context :: "context_ops \<Rightarrow> usize \<Rightarrow> machine \<Rightarrow> machine \<Rightarrow> contexts \<Rightarrow> contexts" where
  "saved_context P r m m' st =
     \<lparr>ct_live = (ct_live st)(mc_reg m' (hd (co_params P)) \<mapsto> snapshot P r m), ct_mem = mc_mem m'\<rparr>"

inductive ctx_step :: "context_ops \<Rightarrow> contexts \<Rightarrow> contexts \<Rightarrow> bool" for P where
  runs: "(\<And>a. a \<in> live_words P st \<Longrightarrow> M a = ct_mem st a) \<Longrightarrow> ctx_step P st (st\<lparr>ct_mem := M\<rparr>)"
| swaps: "can_save P m st \<Longrightarrow> co_swap P r (bind_args (co_params P) [to, a1, a2] m) = Some (j, m') \<Longrightarrow>
    ctx_step P st (saved_context P r m m' st)"
| saves_self: "can_save P m st \<Longrightarrow> co_save P r (bind_args (co_params P) [new_sp, a1, a2] m) = Some (j, m') \<Longrightarrow>
    ctx_step P st (saved_context P r m m' st)"
| conds: "can_save P m st \<Longrightarrow> to AND 15 = co_phase P \<Longrightarrow>
    to - 16 \<notin> live_words P st \<Longrightarrow> to - 16 \<notin> frame_words P (mc_reg m (co_sp P) - co_size P) \<Longrightarrow>
    co_cond P r l (bind_args (co_params P) [to, a1, a2] m) = Some (j, m') \<Longrightarrow> ctx_step P st (saved_context P r m m' st)"
| makes: "co_make P t stack_top entry arg (ct_mem st) = (c, M) \<Longrightarrow> frame_words P c \<inter> live_words P st = {} \<Longrightarrow>
    ctx_step P st \<lparr>ct_live = (ct_live st)(c \<mapsto> new_thread P stack_top t entry arg), ct_mem = M\<rparr>"
| lands: "ct_live st c = Some s \<Longrightarrow> mc_mem m = ct_mem st \<Longrightarrow>
    co_land P (bind_args (co_params P) [c, v] m) = Some (j, m') \<Longrightarrow>
    ctx_step P st \<lparr>ct_live = (ct_live st)(c := None), ct_mem = mc_mem m'\<rparr>"

inductive ctx_reachable :: "context_ops \<Rightarrow> contexts \<Rightarrow> bool" for P where
  ctx_init: "ctx_reachable P \<lparr>ct_live = (\<lambda>_. None), ct_mem = M\<rparr>"
| ctx_next: "ctx_reachable P st \<Longrightarrow> ctx_step P st st' \<Longrightarrow> ctx_reachable P st'"

definition frames_hold :: "context_ops \<Rightarrow> contexts \<Rightarrow> bool" where
  "frames_hold P st \<longleftrightarrow> (\<forall>c s. ct_live st c = Some s \<longrightarrow> frame_holds P (ct_mem st) c s)"

lemma slot_in_frame: "(r, off) \<in> set (co_slots P) \<Longrightarrow> c + off \<in> frame_words P c"
  unfolding frame_words_def by (rule imageI) (auto intro: rev_image_eqI)

lemma frame_holds_cong:
  assumes "frame_holds P M c s" "\<And>a. a \<in> frame_words P c \<Longrightarrow> M' a = M a"
  shows "frame_holds P M' c s"
proof -
  have "M' (c + co_resume P) = M (c + co_resume P)" by (intro assms(2)) (simp add: frame_words_def)
  moreover have "\<forall>(r, off) \<in> set (co_slots P). M' (c + off) = M (c + off)"
    using assms(2) slot_in_frame by fast
  ultimately show ?thesis using assms(1) unfolding frame_holds_def by fastforce
qed

lemma frames_holdD: "frames_hold P st \<Longrightarrow> ct_live st c = Some s \<Longrightarrow> frame_holds P (ct_mem st) c s"
  by (simp add: frames_hold_def)

lemma live_frame: "ct_live st c = Some s \<Longrightarrow> a \<in> frame_words P c \<Longrightarrow> a \<in> live_words P st"
  by (auto simp: live_words_def)

lemma frames_hold_same:
  assumes "frames_hold P st" "\<And>a. a \<in> live_words P st \<Longrightarrow> M a = ct_mem st a"
  shows "frames_hold P (st\<lparr>ct_mem := M\<rparr>)"
proof -
  have "frame_holds P M c s" if "ct_live st c = Some s" for c s
    using frames_holdD [OF assms(1) that] by (rule frame_holds_cong) (blast intro: assms(2) live_frame [OF that])
  then show ?thesis by (simp add: frames_hold_def)
qed

lemma frames_hold_new:
  assumes "frames_hold P st" "saves P c s M M'" "frame_words P c \<inter> live_words P st = {}"
    and "\<And>a. a \<in> live_words P st \<Longrightarrow> M a = ct_mem st a"
  shows "frames_hold P \<lparr>ct_live = (ct_live st)(c \<mapsto> s), ct_mem = M'\<rparr>"
proof -
  have "M' a = ct_mem st a" if "a \<in> live_words P st" for a
    using that assms(2,3,4) by (auto simp: saves_def)
  then have "frames_hold P (st\<lparr>ct_mem := M'\<rparr>)" by (rule frames_hold_same [OF assms(1)])
  with assms(2) show ?thesis by (simp add: frames_hold_def saves_def)
qed

locale context_policy =
  fixes P :: context_ops
  assumes swap: "mc_reg m (co_sp P) = c + co_size P \<Longrightarrow> c AND 15 = co_phase P \<Longrightarrow>
      \<exists>m'. co_swap P r (bind_args (co_params P) [to, a1, a2] m) = Some (To_Callback, m') \<and>
        args_are P [c, to, a1, a2] m' \<and> mc_reg m' (co_sp P) = to \<and> saves P c (snapshot P r m) (mc_mem m) (mc_mem m')"
    and save: "mc_reg m (co_sp P) = c + co_size P \<Longrightarrow> c AND 15 = co_phase P \<Longrightarrow>
      \<exists>m'. co_save P r (bind_args (co_params P) [new_sp, a1, a2] m) = Some (To_Callback, m') \<and>
        args_are P [c, a1, a2] m' \<and> mc_reg m' (co_sp P) = (new_sp AND NOT 15) - co_phase P \<and>
        saves P c (snapshot P r m) (mc_mem m) (mc_mem m')"
    and cond_swap: "mc_reg m (co_sp P) = c + co_size P \<Longrightarrow> c AND 15 = co_phase P \<Longrightarrow> to AND 15 = co_phase P \<Longrightarrow>
      to - 16 \<notin> frame_words P c \<Longrightarrow>
      \<exists>m'. co_cond P r l (bind_args (co_params P) [to, a1, a2] m) = Some (To_Callback, m') \<and>
        args_are P [c, to, a1, a2] m' \<and> mc_reg m' (co_sp P) = to - 2 * co_phase P \<and>
        saves P c (snapshot P r m) (if co_phase P = 0 then mc_mem m else (mc_mem m)(to - 16 := l)) (mc_mem m') \<and>
        (\<forall>v m2. returned P m' v m2 \<longrightarrow>
          (\<exists>m3. co_cancel P r l m2 = Some (To_Land, m3) \<and> args_are P [c, v] m3 \<and> mc_mem m3 = mc_mem m2))"
    and restore: "\<exists>m'. co_restore P (bind_args (co_params P) [to, a1, a2] m) = Some (To_Callback, m') \<and>
        args_are P [to, a1, a2] m' \<and> mc_reg m' (co_sp P) = to \<and> mc_mem m' = mc_mem m"
    and land: "frame_holds P (mc_mem m) c s \<Longrightarrow>
      \<exists>m'. co_land P (bind_args (co_params P) [c, v] m) = Some (To_Address (sv_pc s), m') \<and> resumed P s v m' \<and>
        mc_mem m' = mc_mem m"
    and make: "\<exists>M'. co_make P t stack_top entry arg M = ((stack_top AND NOT 15) - co_size P, M') \<and>
        saves P ((stack_top AND NOT 15) - co_size P) (new_thread P stack_top t entry arg) M M'"
    and enter: "mc_reg m (co_sp P) AND 15 = 0 \<Longrightarrow>
      \<exists>m'. co_enter P l m = Some (To_Address (mc_reg m (fst (co_entry P))), m') \<and>
        args_are P [mc_reg m (co_result P), mc_reg m (snd (co_entry P))] m' \<and>
        mc_reg m' (co_sp P) = mc_reg m (co_sp P) - co_phase P"
    and phase: "(- co_size P) AND 15 = co_phase P"
    and entries: "fst (co_entry P) \<noteq> snd (co_entry P)" "{fst (co_entry P), snd (co_entry P)} \<subseteq> fst ` set (co_slots P)"
begin

lemma params_hd: "args_are P (a # as) m \<Longrightarrow> mc_reg m (hd (co_params P)) = a"
  by (cases "co_params P") (simp_all add: args_are_def)

text \<open>The stack pointer of a thread is above the frame it saves.\<close>

lemma above_frame:
  assumes "can_save P m st"
  obtains c where "mc_reg m (co_sp P) = c + co_size P" "c AND 15 = co_phase P" "frame_words P c \<inter> live_words P st = {}"
proof -
  define c where "c = mc_reg m (co_sp P) - co_size P"
  have "mc_reg m (co_sp P) AND 15 = 0" "frame_words P c \<inter> live_words P st = {}"
    using assms by (simp_all add: can_save_def c_def)
  moreover from this have "c AND 15 = co_phase P"
    using phase_minus [of "mc_reg m (co_sp P)" 0 "co_size P"] phase by (simp add: c_def)
  ultimately show thesis by (intro that [of c]) (simp_all add: c_def)
qed

lemma saved_frames_hold:
  assumes "frames_hold P st" "can_save P m st" "mc_reg m' (hd (co_params P)) = c"
    and "saves P c (snapshot P r m) M (mc_mem m')" "frame_words P c \<inter> live_words P st = {}"
    and "\<And>a. a \<in> live_words P st \<Longrightarrow> M a = mc_mem m a"
  shows "frames_hold P (saved_context P r m m' st)"
proof -
  have "mc_mem m = ct_mem st" using assms(2) by (simp add: can_save_def)
  then show ?thesis
    unfolding saved_context_def assms(3) using frames_hold_new [OF assms(1,4,5)] assms(6) by simp
qed

lemma step_frames_hold:
  assumes "ctx_step P st st'" "frames_hold P st"
  shows "frames_hold P st'"
  using assms
proof cases
  case (runs M)
  then show ?thesis using frames_hold_same [OF assms(2)] by blast
next
  case (swaps m r to a1 a2 j m')
  obtain c where c: "mc_reg m (co_sp P) = c + co_size P" "c AND 15 = co_phase P" "frame_words P c \<inter> live_words P st = {}"
    using above_frame [OF swaps(2)] .
  from swap [OF c(1,2), of r to a1 a2] swaps(3)
  have m': "args_are P [c, to, a1, a2] m'" "saves P c (snapshot P r m) (mc_mem m) (mc_mem m')" by auto
  show ?thesis unfolding swaps(1) by (rule saved_frames_hold [OF assms(2) swaps(2) params_hd [OF m'(1)] m'(2) c(3) refl])
next
  case (saves_self m r new_sp a1 a2 j m')
  obtain c where c: "mc_reg m (co_sp P) = c + co_size P" "c AND 15 = co_phase P" "frame_words P c \<inter> live_words P st = {}"
    using above_frame [OF saves_self(2)] .
  from save [OF c(1,2), of r new_sp a1 a2] saves_self(3)
  have m': "args_are P [c, a1, a2] m'" "saves P c (snapshot P r m) (mc_mem m) (mc_mem m')" by auto
  show ?thesis unfolding saves_self(1) by (rule saved_frames_hold [OF assms(2) saves_self(2) params_hd [OF m'(1)] m'(2) c(3) refl])
next
  case (conds m to r l a1 a2 j m')
  obtain c where c: "mc_reg m (co_sp P) = c + co_size P" "c AND 15 = co_phase P" "frame_words P c \<inter> live_words P st = {}"
    using above_frame [OF conds(2)] .
  let ?M = "if co_phase P = 0 then mc_mem m else (mc_mem m)(to - 16 := l)"
  have "to - 16 \<notin> frame_words P c" using conds(5) c(1) by simp
  from cond_swap [OF c(1,2) conds(3) this, of r l a1 a2] conds(6)
  have m': "args_are P [c, to, a1, a2] m'" "saves P c (snapshot P r m) ?M (mc_mem m')" by auto
  show ?thesis unfolding conds(1)
    by (rule saved_frames_hold [OF assms(2) conds(2) params_hd [OF m'(1)] m'(2) c(3)]) (use conds(4) in auto)
next
  case (makes t stack_top entry arg c M)
  then show ?thesis using make [of t stack_top entry arg "ct_mem st"] frames_hold_new [OF assms(2)] by auto
next
  case (lands c s m v j m')
  with assms(2) have "frame_holds P (mc_mem m) c s" by (simp add: frames_hold_def)
  from land [OF this, of v] lands assms(2) show ?thesis by (auto simp: frames_hold_def)
qed

lemma reachable_frames_hold: "ctx_reachable P st \<Longrightarrow> frames_hold P st"
proof (induction rule: ctx_reachable.induct)
  case (ctx_next st st')
  show ?case by (rule step_frames_hold [OF ctx_next(2,3)])
qed (simp add: frames_hold_def)

lemma resumes:
  assumes "ctx_reachable P st" "ct_live st c = Some s" "mc_mem m = ct_mem st"
  shows "\<exists>m'. co_land P (bind_args (co_params P) [c, v] m) = Some (To_Address (sv_pc s), m') \<and> resumed P s v m' \<and>
    mc_mem m' = mc_mem m"
  by (rule land) (simp add: assms(3) frames_holdD [OF reachable_frames_hold [OF assms(1)] assms(2)])

lemma callbacks:
  assumes "mc_reg m (co_sp P) AND 15 = 0" and "to AND 15 = co_phase P"
    and "c = mc_reg m (co_sp P) - co_size P" and "to - 16 \<notin> frame_words P c"
  shows "\<exists>m'. co_swap P r (bind_args (co_params P) [to, a1, a2] m) = Some (To_Callback, m') \<and>
      args_are P [c, to, a1, a2] m' \<and> mc_reg m' (co_sp P) = to"
    and "\<exists>m'. co_save P r (bind_args (co_params P) [new_sp, a1, a2] m) = Some (To_Callback, m') \<and>
      args_are P [c, a1, a2] m' \<and> mc_reg m' (co_sp P) = (new_sp AND NOT 15) - co_phase P"
    and "\<exists>m'. co_cond P r l (bind_args (co_params P) [to, a1, a2] m) = Some (To_Callback, m') \<and>
      args_are P [c, to, a1, a2] m' \<and> mc_reg m' (co_sp P) = to - 2 * co_phase P \<and>
      (\<forall>v m2. returned P m' v m2 \<longrightarrow>
        (\<exists>m3. co_cancel P r l m2 = Some (To_Land, m3) \<and> args_are P [c, v] m3 \<and> mc_mem m3 = mc_mem m2))"
proof -
  have c: "mc_reg m (co_sp P) = c + co_size P" "c AND 15 = co_phase P"
    using assms(3) phase_minus [OF assms(1), of "co_size P"] phase by simp_all
  show "\<exists>m'. co_swap P r (bind_args (co_params P) [to, a1, a2] m) = Some (To_Callback, m') \<and>
      args_are P [c, to, a1, a2] m' \<and> mc_reg m' (co_sp P) = to"
    using swap [OF c] by blast
  show "\<exists>m'. co_save P r (bind_args (co_params P) [new_sp, a1, a2] m) = Some (To_Callback, m') \<and>
      args_are P [c, a1, a2] m' \<and> mc_reg m' (co_sp P) = (new_sp AND NOT 15) - co_phase P"
    using save [OF c] by blast
  show "\<exists>m'. co_cond P r l (bind_args (co_params P) [to, a1, a2] m) = Some (To_Callback, m') \<and>
      args_are P [c, to, a1, a2] m' \<and> mc_reg m' (co_sp P) = to - 2 * co_phase P \<and>
      (\<forall>v m2. returned P m' v m2 \<longrightarrow>
        (\<exists>m3. co_cancel P r l m2 = Some (To_Land, m3) \<and> args_are P [c, v] m3 \<and> mc_mem m3 = mc_mem m2))"
    using cond_swap [OF c assms(2,4)] by blast
qed

lemma new_enters:
  assumes "co_make P t stack_top entry arg M = (c, M')" and "\<forall>a \<in> frame_words P c. mc_mem m a = M' a"
  shows "\<exists>m1 m2. co_land P (bind_args (co_params P) [c, v] m) = Some (To_Address t, m1) \<and>
    co_enter P l m1 = Some (To_Address entry, m2) \<and> args_are P [v, arg] m2 \<and>
    mc_reg m2 (co_sp P) = (stack_top AND NOT 15) - co_phase P"
proof -
  let ?s = "new_thread P stack_top t entry arg"
  have "saves P c ?s M M'" using make [of t stack_top entry arg M] assms(1) by auto
  then have "frame_holds P (mc_mem m) c ?s" using assms(2) frame_holds_cong [of P M' c ?s "mc_mem m"] by (simp add: saves_def)
  from land [OF this, of v] obtain m1 where
    m1: "co_land P (bind_args (co_params P) [c, v] m) = Some (To_Address t, m1)" "resumed P ?s v m1"
    by (auto simp: new_thread_def)
  then have r: "mc_reg m1 (co_sp P) = stack_top AND NOT 15" "mc_reg m1 (co_result P) = v"
    "mc_reg m1 (fst (co_entry P)) = entry" "mc_reg m1 (snd (co_entry P)) = arg"
    using entries by (auto simp: resumed_def new_thread_def)
  have "(stack_top AND NOT 15) AND 15 = 0" by (simp add: and.assoc)
  with enter [of m1 l] r m1(1) show ?thesis by auto
qed

end

section \<open>The implementations keep it\<close>

lemmas code_words = frame_aligned load_word_def store_word_def a64_base_def x86_push_def set_reg_def args_are_def frame_holds_def
  snapshot_def frame_words_def resumed_def returned_def saves_def new_thread_def

lemmas native_a64_code = native_a64_def native_a64_swap_def native_a64_save_def native_a64_cond_swap_def
  native_a64_restore_def native_a64_land_def a64_trampoline_def
lemmas lean_a64_code = lean_a64_def lean_a64_swap_def lean_a64_save_def lean_a64_cond_swap_def
  lean_a64_restore_def lean_a64_land_def a64_trampoline_def
lemmas native_x86_code = native_x86_def native_x86_swap_def native_x86_save_def native_x86_cond_swap_def
  native_x86_restore_def native_x86_land_def x86_trampoline_def
lemmas lean_x86_code = lean_x86_def lean_x86_swap_def lean_x86_save_def lean_x86_cond_swap_def
  lean_x86_restore_def lean_x86_land_def x86_trampoline_def

text \<open>\<open>make_context\<close> writes the frame of the thread it prepares.\<close>

lemma fresh_frame:
  assumes "(c :: usize) = (stack_top AND NOT 15) - n"
  shows "c AND 15 = (- n) AND 15" "c + n = stack_top AND NOT 15"
proof -
  have "(stack_top AND NOT 15) AND 15 = 0" by (simp add: and.assoc)
  then show "c AND 15 = (- n) AND 15" using phase_minus [of "stack_top AND NOT 15" 0 n] assms by simp
  show "c + n = stack_top AND NOT 15" using assms by simp
qed

lemma make_native_a64_saves:
  assumes "c = (stack_top AND NOT 15) - 96"
  shows "saves native_a64 c (new_thread native_a64 stack_top t entry arg) M
    (write_words c [entry, arg, 0, 0, 0, 0, 0, 0, 0, 0, 0, t] M)"
  using fresh_frame [OF assms] by (simp add: native_a64_def code_words add.assoc)

lemma make_lean_a64_saves:
  assumes "c = (stack_top AND NOT 15) - 32"
  shows "saves lean_a64 c (new_thread lean_a64 stack_top t entry arg) M (write_words c [entry, arg, 0, t] M)"
  using fresh_frame [OF assms] by (simp add: lean_a64_def code_words add.assoc)

lemma make_native_x86_saves:
  assumes "c = (stack_top AND NOT 15) - 56"
  shows "saves native_x86 c (new_thread native_x86 stack_top t entry arg) M (write_words c [0, 0, entry, arg, 0, 0, t] M)"
  using fresh_frame [OF assms] by (simp add: native_x86_def code_words add.assoc)

lemma make_lean_x86_saves:
  assumes "c = (stack_top AND NOT 15) - 40"
  shows "saves lean_x86 c (new_thread lean_x86 stack_top t entry arg) M (write_words c [0, 0, entry, arg, t] M)"
  using fresh_frame [OF assms] by (simp add: lean_x86_def code_words add.assoc)

lemma nine_zeros: "replicate 9 (0 :: usize) = [0, 0, 0, 0, 0, 0, 0, 0, 0]"
  by (simp add: numeral_eq_Suc)

lemmas made = nine_zeros append.simps prod.inject

lemma make_layouts:
  "co_make native_a64 = make_native_a64" "co_size native_a64 = 96"
  "co_make lean_a64 = make_lean_a64" "co_size lean_a64 = 32"
  "co_make native_x86 = make_native_x86" "co_size native_x86 = 56"
  "co_make lean_x86 = make_lean_x86" "co_size lean_x86 = 40"
  by (simp_all add: native_a64_def lean_a64_def native_x86_def lean_x86_def)

interpretation na: context_policy native_a64
proof (unfold_locales, goal_cases)
  case (6 t stack_top entry arg M)
  show ?case
    by (simp only: make_layouts make_native_a64_def Let_def made simp_thms make_native_a64_saves [OF refl])
qed (simp_all add: native_a64_code code_words)

interpretation la: context_policy lean_a64
proof (unfold_locales, goal_cases)
  case (6 t stack_top entry arg M)
  show ?case by (simp only: make_layouts make_lean_a64_def Let_def made simp_thms make_lean_a64_saves [OF refl])
qed (simp_all add: lean_a64_code code_words)

interpretation nx: context_policy native_x86
proof (unfold_locales, goal_cases)
  case (6 t stack_top entry arg M)
  show ?case by (simp only: make_layouts make_native_x86_def Let_def made simp_thms make_native_x86_saves [OF refl])
next
  case (3 m c to r l a1 a2)
  define b where "b = to - 16"
  then have "to = b + 16" "b AND 15 = 8" using 3 phase_minus [of to 8 16] by (simp_all add: native_x86_def)
  with 3 show ?case
    by (simp add: native_x86_code code_words add.commute [of c] add.commute [of b] eq_commute [of b])
next
  case (5 m c s v)
  then show ?case by (simp add: native_x86_code code_words add.commute [of c])
qed (simp_all add: native_x86_code code_words)

interpretation lx: context_policy lean_x86
proof (unfold_locales, goal_cases)
  case (6 t stack_top entry arg M)
  show ?case by (simp only: make_layouts make_lean_x86_def Let_def made simp_thms make_lean_x86_saves [OF refl])
next
  case (3 m c to r l a1 a2)
  define b where "b = to - 16"
  then have "to = b + 16" "b AND 15 = 8" using 3 phase_minus [of to 8 16] by (simp_all add: lean_x86_def)
  with 3 show ?case
    by (simp add: lean_x86_code code_words add.commute [of c] add.commute [of b] eq_commute [of b])
next
  case (5 m c s v)
  then show ?case by (simp add: lean_x86_code code_words add.commute [of c])
qed (simp_all add: lean_x86_code code_words)

section \<open>What the four policies do\<close>

abbreviation context_policies :: "context_ops set" where
  "context_policies \<equiv> {native_a64, lean_a64, native_x86, lean_x86}"

lemma policies: "P \<in> context_policies \<Longrightarrow> context_policy P"
  using na.context_policy_axioms la.context_policy_axioms nx.context_policy_axioms lx.context_policy_axioms by blast

text \<open>
  C6: whatever contexts have been saved, prepared and resumed, by any number of threads, and whatever code ran in between: landing on a
  saved context goes on at the label it was saved at, with the stack pointer and every register of its frame as they
  were, and with the value that it was given.
\<close>

theorem contexts_resume:
  assumes "P \<in> context_policies" and "ctx_reachable P st" and "ct_live st c = Some s" and "mc_mem m = ct_mem st"
  shows "\<exists>m'. co_land P (bind_args (co_params P) [c, v] m) = Some (To_Address (sv_pc s), m') \<and>
    (\<forall>r \<in> fst ` set (co_slots P). mc_reg m' r = sv_reg s r) \<and> mc_reg m' (co_sp P) = sv_sp s \<and>
    mc_reg m' (co_result P) = v \<and> mc_mem m' = mc_mem m"
  using context_policy.resumes [OF policies [OF assms(1)] assms(2-4)] unfolding resumed_def by blast

text \<open>
  C7: every switch enters its callback as C functions are entered: with the saved context, the destination and the
  arguments in the parameter registers, on the destination's stack or the new one, below the frame there, and with
  the stack pointer aligned.  A conditional switch whose callback returns lands on the context it has saved.
\<close>

theorem switches_enter_callback:
  assumes "P \<in> context_policies" and "mc_reg m (co_sp P) AND 15 = 0" and "to AND 15 = co_phase P"
    and "c = mc_reg m (co_sp P) - co_size P" and "to - 16 \<notin> frame_words P c"
  shows "(\<exists>m'. co_swap P r (bind_args (co_params P) [to, a1, a2] m) = Some (To_Callback, m') \<and>
        args_are P [c, to, a1, a2] m' \<and> mc_reg m' (co_sp P) = to) \<and>
    (\<exists>m'. co_save P r (bind_args (co_params P) [new_sp, a1, a2] m) = Some (To_Callback, m') \<and>
        args_are P [c, a1, a2] m' \<and> mc_reg m' (co_sp P) = (new_sp AND NOT 15) - co_phase P) \<and>
    (\<exists>m'. co_restore P (bind_args (co_params P) [to, a1, a2] m) = Some (To_Callback, m') \<and>
        args_are P [to, a1, a2] m' \<and> mc_reg m' (co_sp P) = to) \<and>
    (\<exists>m'. co_cond P r l (bind_args (co_params P) [to, a1, a2] m) = Some (To_Callback, m') \<and>
        args_are P [c, to, a1, a2] m' \<and> mc_reg m' (co_sp P) = to - 2 * co_phase P \<and>
        (\<forall>v m2. returned P m' v m2 \<longrightarrow>
          (\<exists>m3. co_cancel P r l m2 = Some (To_Land, m3) \<and> args_are P [c, v] m3 \<and> mc_mem m3 = mc_mem m2)))"
  using context_policy.callbacks [OF policies [OF assms(1)] assms(2-5)] context_policy.restore [OF policies [OF assms(1)]]
  by meson

text \<open>
  C8: a context from \<open>make_context\<close> starts its thread by calling \<open>entry\<close> with the value it is given and
  \<open>arg\<close>, on the new stack, with the stack pointer aligned.
\<close>

theorem new_context_enters:
  assumes "P \<in> context_policies" and "co_make P t stack_top entry arg M = (c, M')"
    and "\<forall>a \<in> frame_words P c. mc_mem m a = M' a"
  shows "\<exists>m1 m2. co_land P (bind_args (co_params P) [c, v] m) = Some (To_Address t, m1) \<and>
    co_enter P l m1 = Some (To_Address entry, m2) \<and> args_are P [v, arg] m2 \<and>
    mc_reg m2 (co_sp P) = (stack_top AND NOT 15) - co_phase P"
  by (rule context_policy.new_enters [OF policies [OF assms(1)] assms(2,3)])

lemma a64_accounted:
  "X ` ({..<31} - {18}) \<union> V ` {..<32} \<subseteq> fst ` set (co_slots native_a64) \<union> native_a64_clobbers"
  "X ` ({..<31} - {18}) \<union> V ` {..<32} \<subseteq> fst ` set (co_slots lean_a64) \<union> lean_a64_clobbers"
  by code_simp+

text \<open>
  Every register that a switch may change is put back by the frame or declared as clobbered: of AArch64
  all but \<open>sp\<close>, which landing sets, and \<open>x18\<close>, which the platform owns and no block touches.
\<close>

lemma registers_accounted:
  "X ` ({..<31} - {18}) \<union> V ` {..<32} \<subseteq> fst ` set (co_slots native_a64) \<union> native_a64_clobbers \<and>
   X ` ({..<31} - {18}) \<union> V ` {..<32} \<subseteq> fst ` set (co_slots lean_a64) \<union> lean_a64_clobbers \<and>
   {RAX, RBX, RCX, RDX, RSI, RDI, RBP, R8, R9, R10, R11, R12, R13, R14, R15} \<subseteq>
     fst ` set (co_slots native_x86) \<union> native_x86_clobbers \<and>
   {RAX, RBX, RCX, RDX, RSI, RDI, RBP, R8, R9, R10, R11, R12, R13, R14, R15} \<subseteq>
     fst ` set (co_slots lean_x86) \<union> lean_x86_clobbers"
  using a64_accounted by (auto simp: native_x86_def lean_x86_def native_x86_clobbers_def lean_x86_clobbers_def x86_clobber_abi_def)

section \<open>Examples\<close>

text \<open>A context prepared on a stack that ends at 4096, and a machine with its stack pointer there.\<close>

definition context_example :: contexts where
  "context_example =
     (case make_native_a64 64 4096 128 7 (\<lambda>_. 0) of
        (c, M) \<Rightarrow> \<lparr>ct_live = (\<lambda>_. None)(c \<mapsto> new_thread native_a64 4096 64 128 7), ct_mem = M\<rparr>)"

definition machine_example :: "(usize \<Rightarrow> usize) \<Rightarrow> machine" where
  "machine_example M = \<lparr>mc_reg = (\<lambda>_. 4096), mc_mem = M\<rparr>"

lemma context_example_reachable:
  "ctx_reachable native_a64 context_example" "ct_live context_example 4000 = Some (new_thread native_a64 4096 64 128 7)"
proof -
  let ?st = "\<lparr>ct_live = (\<lambda>_. None), ct_mem = (\<lambda>_. 0)\<rparr>"
  obtain c M where m: "make_native_a64 64 4096 128 7 (\<lambda>_. 0) = (c, M)" by fastforce
  then have "co_make native_a64 64 4096 128 7 (ct_mem ?st) = (c, M)" by (simp add: native_a64_def)
  from ctx_next [OF ctx_init ctx_step.makes [OF this]] show "ctx_reachable native_a64 context_example"
    by (simp add: context_example_def m live_words_def)
  have "c = 4000" using m by (simp add: make_native_a64_def Let_def)
  then show "ct_live context_example 4000 = Some (new_thread native_a64 4096 64 128 7)"
    by (simp add: context_example_def m)
qed

theorem contexts_resume_witness:
  "\<exists>m'. co_land native_a64 (bind_args (co_params native_a64) [4000, 9] (machine_example (ct_mem context_example))) =
     Some (To_Address 64, m') \<and> mc_reg m' (X 19) = 128 \<and> mc_reg m' SP = 4096 \<and> mc_reg m' (X 0) = 9"
proof -
  let ?s = "new_thread native_a64 4096 64 128 7"
  have "\<exists>m'. co_land native_a64 (bind_args (co_params native_a64) [4000, 9] (machine_example (ct_mem context_example))) =
      Some (To_Address (sv_pc ?s), m') \<and>
    (\<forall>r \<in> fst ` set (co_slots native_a64). mc_reg m' r = sv_reg ?s r) \<and> mc_reg m' (co_sp native_a64) = sv_sp ?s \<and>
    mc_reg m' (co_result native_a64) = 9 \<and> mc_mem m' = mc_mem (machine_example (ct_mem context_example))"
    by (rule contexts_resume [OF _ context_example_reachable]) (simp_all add: machine_example_def)
  moreover have "sv_pc ?s = 64" "sv_sp ?s = 4096" "sv_reg ?s (X 19) = 128" "X 19 \<in> fst ` set (co_slots native_a64)"
    "co_sp native_a64 = SP" "co_result native_a64 = X 0"
    by (simp_all add: new_thread_def native_a64_def)
  ultimately show ?thesis by metis
qed

theorem switches_enter_callback_witness:
  "\<exists>m'. co_swap native_x86 64 (bind_args (co_params native_x86) [8008, 1, 2] (machine_example (\<lambda>_. 0))) = Some (To_Callback, m') \<and>
     args_are native_x86 [4040, 8008, 1, 2] m' \<and> mc_reg m' (co_sp native_x86) = 8008"
proof -
  have "mc_reg (machine_example (\<lambda>_. 0)) (co_sp native_x86) AND 15 = 0" "(8008 :: usize) AND 15 = co_phase native_x86"
    "(4040 :: usize) = mc_reg (machine_example (\<lambda>_. 0)) (co_sp native_x86) - co_size native_x86"
    "(8008 :: usize) - 16 \<notin> frame_words native_x86 4040"
    by (simp_all add: machine_example_def native_x86_def frame_words_def)
  from switches_enter_callback [of native_x86, OF _ this] show ?thesis by blast
qed

theorem new_context_enters_witness:
  "\<exists>m1 m2. co_land lean_x86 (bind_args (co_params lean_x86) [4056, 9]
       (machine_example (snd (co_make lean_x86 64 4096 128 7 (\<lambda>_. 0))))) = Some (To_Address 64, m1) \<and>
     co_enter lean_x86 72 m1 = Some (To_Address 128, m2) \<and> args_are lean_x86 [9, 7] m2 \<and>
     mc_reg m2 (co_sp lean_x86) = (4096 AND NOT 15) - co_phase lean_x86"
proof -
  have "co_make lean_x86 64 4096 128 7 (\<lambda>_. 0) = (4056, snd (co_make lean_x86 64 4096 128 7 (\<lambda>_. 0)))"
    by (simp add: lean_x86_def make_lean_x86_def Let_def)
  from new_context_enters [of lean_x86, OF _ this] show ?thesis by (simp add: machine_example_def)
qed

end
