(* ===== verification/Spec2Isabelle.thy ===== *)
theory Spec2Isabelle
  imports Interchange Worker_Core Idle_Protocol Idle_Policy Waker_State Join_State Pool Switching Locks Mcs_Lock Combining Sync_Queue Delegators Slot_Posting Duty_Keeper Timers Os_Wait Tls Fork_Join_Results Scoped_Async Wait_Slot Dual_Mutex Block_On Stack_Frames Async_Properties Context_Policy
begin

text \<open>
  A verification development for cmpth, a Rust library of user-level threads, stackless tasks and
  scoped fork-join over one work-stealing scheduler.  Paths are relative to \<open>src/src/\<close>.

  The program.  A pool has workers, each with a run queue (\<open>resumable/common/deque.rs\<close>) that its owner
  pushes to and pops from and thieves steal from (\<open>common/steal.rs\<close>); continuations woken outside a
  worker go through an external queue (\<open>common/external_queue.rs\<close>).  A worker that needs something to
  run asks the dispatcher (\<open>common/dispatch.rs\<close>, \<open>common/worker_core.rs\<close>), and when it finds nothing
  its idle policy (\<open>common/idle.rs\<close>) lets it spin, yield, run duties (\<open>duty.rs\<close>) and park.  A task is
  a stackful thread, whose switches go through the worker (\<open>common/worker.rs\<close>, \<open>stackful/worker.rs\<close>,
  \<open>dual/worker.rs\<close>), or a future that a worker polls (\<open>stackless/worker.rs\<close>) and whose waker is a packed
  atomic word (\<open>common/waker.rs\<close>).  A task and its handle meet in the join word of its descriptor
  (\<open>common/desc.rs\<close>), which comes from a pool of nodes (\<open>common/pool.rs\<close>).  Mutexes, condition
  variables and barriers (\<open>stackful/sync\<close>, \<open>common/sync\<close>) park tasks in wait slots.

  The theories.
  \<^item> \<open>Cmpth_Prelude\<close>: machine integers with Rust's saturating operations, and a compare-and-swap
    loop under interference as one transition.
  \<^item> \<open>Interchange\<close>: tagged pointer slots of \<open>interchange.rs\<close> and their round trip.
  \<^item> \<open>Run_Queue\<close>: \<open>HybridRunQueue\<close> and \<open>SpinRunQueue\<close> over the locale \<open>run_queue\<close>, the contract
    of a work-stealing queue; the Chase-Lev deque of the crate crossbeam is a parameter with its documented
    behaviour.  \<open>Flag_Queue\<close> is the flag of \<open>Deferred\<close> under interleaving, access by access.
  \<^item> \<open>External_Queue\<close>, \<open>Steal_Policy\<close>, \<open>Worker_Core\<close>: the sources of work of a worker and the
    dispatch over them; every policy and queue conserves tasks.
  \<^item> \<open>Idle_Protocol\<close>: the wake-up protocol of \<open>ParkIdle\<close> and \<open>SearchIdle\<close> (with any cap) with any number of
    workers, each of which looks at the queues in any order, and producers, one step per atomic access; no wake-up is lost as
    long as no worker holds its ticket through \<open>2 ^ 32\<close> bumps of the epoch.  \<open>Idle_Policy\<close>: the policies
    round by round, with their counters at their widths.
  \<^item> \<open>Waker_State\<close>, \<open>Join_State\<close>: the packed words of a task, decoded, raced over, never lost.
  \<^item> \<open>Async_Tasks\<close>: the stackless tasks of a pool: their spawning, polling, parking and waking, the handles they await and the
    \<open>parallel_call\<close> over them (\<open>stackless/thread.rs\<close>, \<open>worker.rs\<close>, \<open>system.rs\<close>, \<open>waker.rs\<close>), for any number of workers.
    \<open>Async_Invariants\<close>, \<open>Async_Fork_Join\<close>: what every run, and every run of a fork-join program, keeps.
    \<open>Async_Properties\<close>: tokens are linear and no join is lost; fork-join programs touch no freed task and
    never come to a standstill; other programs may, as the exit claims its joiner too late.
  \<^item> \<open>Block_On\<close>: \<open>block_on\<close> with its two pollers, the reference-counted slot of a call and the word in the descriptor
    that nested calls share.
  \<^item> \<open>Stack_Frames\<close>: the storage of tasks and the addresses of closure, future and result in it, in wrapping words.
  \<^item> \<open>Pool\<close>: the node pools, as intrusive lists over explicit next pointers, and the block layouts.
  \<^item> \<open>Switching\<close>: the context-switching code over the worker's cells and the saved contexts; every
    \<open>expect\<close>, \<open>unwrap\<close> and assertion of it is a \<open>None\<close> of the model.  It builds on the locale
    \<open>dispatched_pool\<close>, interpreted on the pools of \<open>Worker_Core\<close>.
  \<^item> \<open>Context_Code\<close>: the assembly of \<open>stackful/context.rs\<close> for AArch64 and x86-64, instruction by instruction.
    \<open>Context_Policy\<close>: the contract \<open>ContextPolicy\<close> as a locale, kept by the four implementations; with it any number of threads
    resume exactly where they saved themselves.
  \<^item> \<open>Locks\<close>, \<open>Mcs_Lock\<close>: mutex, condition variable, barrier, MCS mutex; the latter refines an
    abstract fair lock.
  \<^item> \<open>Wait_Slot\<close>, \<open>Dual_Mutex\<close>: the wait slot of the dual system, a tagged word that refines a slot for one waiter,
    and the MCS mutex over it with ULTs, OS threads and async tasks as waiters, which refines \<open>Mcs_Lock\<close> for a
    careful executor and not for any.
  \<^item> \<open>Combining\<close>: the combining delegator, whose lock holder runs the requests queued behind it.
  \<^item> \<open>Sync_Queue\<close>, \<open>Delegators\<close>: the delegators with a consumer thread (\<open>stackful/sync/delegator.rs\<close>): the contract of their
    queue as a locale that the MCS queue and the ring buffer fulfil, and over it calls, locking and the consumer.
  \<^item> \<open>Posting\<close>, \<open>Slot_Posting\<close>: the post delegators of \<open>post.rs\<close>; no post is lost.
  \<^item> \<open>Duty\<close>: duties, their registry and the idle workers that run them, each operation as a function.
    \<open>Duty_Keeper\<close>: the keeper thread among all others, with every access to a duty's fields, which have no lock, a step of its own; the keeper
    never sleeps past what a duty, by what it was ever given, obliges it to.  \<open>Timers\<close>: the sleepers woken by a duty.
  \<^item> \<open>Os_Wait\<close>, \<open>Tls\<close>: the wait slot of an operating-system thread (\<open>os.rs\<close>), and the slots of thread-local storage
    whose indices threads race to assign (\<open>os.rs\<close>, \<open>stackful/tls.rs\<close>).
  \<^item> \<open>Fork_Join\<close>, \<open>Fork_Join_Results\<close>: \<open>parallel_call\<close> of \<open>scoped/sync_engine.rs\<close> over stacks of frames and deques of references
    into them; parallel evaluation is sequential evaluation, ends, and what a panic breaks.
  \<^item> \<open>Scoped_Async\<close>: the asynchronous \<open>parallel_call\<close> (\<open>scoped/async_engine.rs\<close>): its reference-counted task, the latch
    with its boxed wakers, cancellation.

  Conventions.  What runs under a spin lock is one step, every other atomic access is one (where a theory
  takes several together it says so); memory is sequentially consistent, as the code's fences and orderings
  intend.  Pointers and \<open>usize\<close> are 64-bit words.  A panic is \<open>None\<close>.  Loops are structural, run
  over the list of what the environment does in each round, or have fuel: the free lists of the pool are
  followed with fuel the number of nodes ever allocated, which a theorem shows to be enough.

  Not modelled: thread creation, the
  macros and trait glue, the operating-system calls of \<open>os.rs\<close>; and, so far,
  the end of a delegator (\<open>Drop\<close>) and the builders.
\<close>

end
